(* ===== verification/Prelude.thy ===== *)
theory Prelude
  imports Main "HOL-Library.Word"
begin

text \<open>
  Shared material of the development: byte strings, big-endian integers, results with an error,
  UTF-8 text, and the list functions of Rust's slices (\<open>chunks\<close>, \<open>windows\<close>, \<open>position\<close>).
  The collections \<open>result_simps\<close> and \<open>byte_simps\<close> carry the component proofs.
\<close>

unbundle bit_operations_syntax

named_theorems result_simps
named_theorems byte_simps

section \<open>Bytes, text and results\<close>

type_synonym byte = "8 word"
type_synonym bytes = "byte list"

text \<open>A Rust \<open>str\<close> or \<open>String\<close> is the list of its UTF-8 bytes; \<open>str.len()\<close> counts bytes.\<close>

type_synonym str = "byte list"

definition ascii :: "string \<Rightarrow> bytes" where
  "ascii s = map (\<lambda>c. word_of_nat (of_char c)) s"

lemma length_ascii [simp]: "length (ascii s) = length s"
  by (simp add: ascii_def)

subsection \<open>Results: \<open>Inl\<close> the error, \<open>Inr\<close> the value\<close>

definition rbind :: "'e + 'a \<Rightarrow> ('a \<Rightarrow> 'e + 'b) \<Rightarrow> 'e + 'b" where
  "rbind m f = (case m of Inl e \<Rightarrow> Inl e | Inr x \<Rightarrow> f x)"

definition map_err :: "('e \<Rightarrow> 'f) \<Rightarrow> 'e + 'a \<Rightarrow> 'f + 'a" where
  "map_err g m = (case m of Inl e \<Rightarrow> Inl (g e) | Inr x \<Rightarrow> Inr x)"

definition ok_or :: "'e \<Rightarrow> 'a option \<Rightarrow> 'e + 'a" where
  "ok_or e m = (case m of None \<Rightarrow> Inl e | Some x \<Rightarrow> Inr x)"

definition guard :: "'e \<Rightarrow> bool \<Rightarrow> 'e + unit" where
  "guard e b = (if b then Inr () else Inl e)"

lemma rbind_Inl [simp]: "rbind (Inl e) f = Inl e"
  by (simp add: rbind_def)

lemma rbind_Inr [simp]: "rbind (Inr x) f = f x"
  by (simp add: rbind_def)

lemma rbind_eq_Inr [result_simps]: "rbind m f = Inr y \<longleftrightarrow> (\<exists>x. m = Inr x \<and> f x = Inr y)"
  by (cases m) auto

lemma rbind_eq_Inl [result_simps]:
  "rbind m f = Inl e \<longleftrightarrow> m = Inl e \<or> (\<exists>x. m = Inr x \<and> f x = Inl e)"
  by (cases m) auto

lemma rbind_cong [fundef_cong]:
  "m = m' \<Longrightarrow> (\<And>x. m' = Inr x \<Longrightarrow> f x = g x) \<Longrightarrow> rbind m f = rbind m' g"
  by (cases m') auto

lemma map_err_simps [simp]:
  "map_err g (Inl e) = Inl (g e)" "map_err g (Inr x) = Inr x"
  "map_err g m = Inr y \<longleftrightarrow> m = Inr y"
  by (simp_all add: map_err_def split: sum.splits)

lemma map_err_eq_Inl [result_simps]: "map_err g m = Inl e \<longleftrightarrow> (\<exists>d. m = Inl d \<and> e = g d)"
  by (cases m) auto

lemma ok_or_simps [simp]:
  "ok_or e None = Inl e" "ok_or e (Some x) = Inr x"
  "ok_or e m = Inr y \<longleftrightarrow> m = Some y"
  by (simp_all add: ok_or_def split: option.splits)

lemma guard_simps [simp]:
  "guard e True = Inr ()" "guard e False = Inl e"
  "guard e b = Inr u \<longleftrightarrow> b" "guard e b = Inl d \<longleftrightarrow> \<not> b \<and> d = e"
  by (auto simp: guard_def)

fun map_result :: "('a \<Rightarrow> 'e + 'b) \<Rightarrow> 'a list \<Rightarrow> 'e + 'b list" where
  "map_result f [] = Inr []"
| "map_result f (x # xs) = rbind (f x) (\<lambda>y. rbind (map_result f xs) (\<lambda>ys. Inr (y # ys)))"

lemma map_result_cong [fundef_cong]:
  "xs = ys \<Longrightarrow> (\<And>x. x \<in> set ys \<Longrightarrow> f x = g x) \<Longrightarrow> map_result f xs = map_result g ys"
  by (induction ys arbitrary: xs) (auto intro: rbind_cong)

lemma map_result_all: "(\<And>x. x \<in> set xs \<Longrightarrow> f x = Inr (g x)) \<Longrightarrow> map_result f xs = Inr (map g xs)"
  by (induction xs) auto

lemma map_result_length: "map_result f xs = Inr ys \<Longrightarrow> length ys = length xs"
  by (induction xs arbitrary: ys) (auto simp: rbind_eq_Inr)

section \<open>Big-endian integers\<close>

fun be_bytes :: "nat \<Rightarrow> nat \<Rightarrow> bytes" where
  "be_bytes 0 n = []"
| "be_bytes (Suc k) n = be_bytes k (n div 256) @ [word_of_nat n]"

definition be_val :: "bytes \<Rightarrow> nat" where
  "be_val bs = foldl (\<lambda>v b. 256 * v + unat b) 0 bs"

lemma length_be_bytes [simp]: "length (be_bytes k n) = k"
  by (induction k arbitrary: n) auto

lemma be_val_Nil [simp]: "be_val [] = 0"
  by (simp add: be_val_def)

lemma be_val_snoc [simp]: "be_val (bs @ [b]) = 256 * be_val bs + unat b"
  by (simp add: be_val_def)

lemma unat_byte_less [simp]: "unat (b :: byte) < 256"
  by (rule order.strict_trans2 [OF unsigned_less]) simp

lemma unat_byte_le [simp]: "unat (b :: byte) \<le> 255"
  using unat_byte_less [of b] by linarith

lemma be_val_less: "be_val bs < 256 ^ length bs"
proof (induction bs rule: rev_induct)
  case (snoc b bs)
  then have "256 * be_val bs + 256 \<le> 256 * 256 ^ length bs" by simp
  moreover have "unat b < 256" by simp
  ultimately show ?case by (simp del: unat_byte_less)
qed simp

lemma be_val_append: "be_val (as @ bs) = be_val as * 256 ^ length bs + be_val bs"
proof (induction bs rule: rev_induct)
  case (snoc b bs)
  have "be_val (as @ bs @ [b]) = 256 * be_val (as @ bs) + unat b"
    by (metis append.assoc be_val_snoc)
  then show ?case using snoc by (simp add: algebra_simps)
qed simp

lemma be_val_Cons: "be_val (b # bs) = unat b * 256 ^ length bs + be_val bs"
  using be_val_append [of "[b]" bs] be_val_snoc [of "[]" b] by simp

lemma be_val_replicate_0 [simp]: "be_val (replicate k 0 @ bs) = be_val bs"
  by (induction k) (simp_all add: be_val_Cons)

lemma be_val_be_bytes: "be_val (be_bytes k n) = n mod 256 ^ k"
proof (induction k arbitrary: n)
  case (Suc k)
  have "be_val (be_bytes (Suc k) n) = 256 * (n div 256 mod 256 ^ k) + n mod 256"
    using Suc by (simp add: unat_of_nat)
  also have "\<dots> = n mod 256 ^ Suc k"
    using mod_mult2_eq [of n 256 "256 ^ k"] by (simp add: mult.commute)
  finally show ?case .
qed simp

lemma be_val_be_bytes_less [simp]: "n < 256 ^ k \<Longrightarrow> be_val (be_bytes k n) = n"
  by (simp add: be_val_be_bytes)

lemma be_bytes_be_val: "length bs = k \<Longrightarrow> be_bytes k (be_val bs) = bs"
proof (induction bs arbitrary: k rule: rev_induct)
  case (snoc b bs)
  have "word_of_nat (256 * be_val bs + unat b) = (b :: byte)"
    by (subst word_unat_eq_iff, subst unat_of_nat) simp
  moreover have "(256 * be_val bs + unat b) div 256 = be_val bs"
    by simp
  ultimately show ?case using snoc by auto
qed simp

lemma be_val_inj: "length as = length bs \<Longrightarrow> be_val as = be_val bs \<Longrightarrow> as = bs"
  by (metis be_bytes_be_val)

lemma be_bytes_inj:
  "m < 256 ^ k \<Longrightarrow> n < 256 ^ k \<Longrightarrow> be_bytes k m = be_bytes k n \<Longrightarrow> m = n"
  by (metis be_val_be_bytes_less)

text \<open>Comparing numbers written as a high and a low part below the radix.\<close>

lemma radix_less:
  fixes a b c d K :: nat
  assumes "b < K" "d < K"
  shows "a * K + b < c * K + d \<longleftrightarrow> a < c \<or> a = c \<and> b < d"
proof -
  have "a * K + b < c * K + d" if "a < c" "b < K" for a b c d
  proof -
    have "a * K + K \<le> c * K" using that(1) by (metis Suc_leI mult_Suc add.commute mult_le_mono1)
    then show ?thesis using that(2) by simp
  qed
  from this [of a c b d] this [of c a d b] show ?thesis
    using assms by (cases a c rule: linorder_cases) auto
qed

section \<open>UTF-8\<close>

abbreviation (input) is_cont :: "byte \<Rightarrow> bool" where
  "is_cont b \<equiv> 0x80 \<le> b \<and> b \<le> 0xBF"

text \<open>The well-formed byte sequences of \<open>core::str::from_utf8\<close> (Unicode table 3-7).\<close>

fun utf8_valid :: "bytes \<Rightarrow> bool" where
  "utf8_valid [] = True"
| "utf8_valid (a # xs) =
    (if a \<le> 0x7F then utf8_valid xs
     else case xs of
       [] \<Rightarrow> False
     | b # ys \<Rightarrow>
       (if 0xC2 \<le> a \<and> a \<le> 0xDF then is_cont b \<and> utf8_valid ys
        else case ys of
          [] \<Rightarrow> False
        | c # zs \<Rightarrow>
          (if a = 0xE0 then 0xA0 \<le> b \<and> b \<le> 0xBF \<and> is_cont c \<and> utf8_valid zs
           else if a = 0xED then 0x80 \<le> b \<and> b \<le> 0x9F \<and> is_cont c \<and> utf8_valid zs
           else if 0xE1 \<le> a \<and> a \<le> 0xEF then is_cont b \<and> is_cont c \<and> utf8_valid zs
           else case zs of
             [] \<Rightarrow> False
           | d # us \<Rightarrow>
             (if a = 0xF0 then 0x90 \<le> b \<and> b \<le> 0xBF \<and> is_cont c \<and> is_cont d \<and> utf8_valid us
              else if 0xF1 \<le> a \<and> a \<le> 0xF3 then is_cont b \<and> is_cont c \<and> is_cont d \<and> utf8_valid us
              else if a = 0xF4 then 0x80 \<le> b \<and> b \<le> 0x8F \<and> is_cont c \<and> is_cont d \<and> utf8_valid us
              else False))))"

text \<open>\<open>chars().count()\<close>: every byte but the continuation bytes starts a character.\<close>

definition char_count :: "str \<Rightarrow> nat" where
  "char_count s = length (filter (\<lambda>b. \<not> is_cont b) s)"

lemma utf8_valid_ascii_bytes: "\<forall>b \<in> set bs. b \<le> 0x7F \<Longrightarrow> utf8_valid bs"
  by (induction bs) auto

section \<open>Slices\<close>

function chunks :: "nat \<Rightarrow> 'a list \<Rightarrow> 'a list list" where
  "chunks n xs = (if n = 0 \<or> xs = [] then [] else take n xs # chunks n (drop n xs))"
  by pat_completeness auto
termination
  by (relation "measure (\<lambda>(n, xs). length xs)") auto

declare chunks.simps [simp del]

lemma chunks_Nil [simp]: "chunks n [] = []"
  by (simp add: chunks.simps)

lemma chunks_rec: "0 < n \<Longrightarrow> xs \<noteq> [] \<Longrightarrow> chunks n xs = take n xs # chunks n (drop n xs)"
  by (simp add: chunks.simps [of n xs])

lemma chunks_append: "0 < n \<Longrightarrow> length xs = n \<Longrightarrow> chunks n (xs @ ys) = xs # chunks n ys"
  by (subst chunks_rec) auto

lemma chunks_append_mult:
  "0 < k \<Longrightarrow> length as = k * n \<Longrightarrow> chunks k (as @ bs) = chunks k as @ chunks k bs"
proof (induction n arbitrary: as)
  case (Suc n)
  define a rest where "a = take k as" and "rest = drop k as"
  have "as = a @ rest" "length a = k" "length rest = k * n"
    using Suc.prems by (simp_all add: a_def rest_def)
  then show ?case using Suc.IH [of rest] Suc.prems(1) by (simp add: chunks_append)
qed simp

lemma concat_chunks: "0 < n \<Longrightarrow> concat (chunks n xs) = xs"
proof (induction n xs rule: chunks.induct)
  case (1 n xs)
  then show ?case by (cases "xs = []") (simp_all add: chunks_rec)
qed

lemma chunks_length: "0 < n \<Longrightarrow> c \<in> set (chunks n xs) \<Longrightarrow> n dvd length xs \<Longrightarrow> length c = n"
proof (induction n xs rule: chunks.induct)
  case (1 n xs)
  show ?case
  proof (cases "xs = []")
    case False
    with 1 have "n \<le> length xs" by (simp add: dvd_imp_le)
    moreover have "n dvd length (drop n xs)" using 1 by (simp add: dvd_diff_nat)
    ultimately show ?thesis using 1 False by (auto simp: chunks_rec)
  qed (use 1 in simp)
qed

lemma chunks_le: "0 < n \<Longrightarrow> c \<in> set (chunks n xs) \<Longrightarrow> length c \<le> n"
proof (induction n xs rule: chunks.induct)
  case (1 n xs)
  then show ?case by (cases "xs = []") (auto simp: chunks_rec)
qed

lemma length_chunks: "0 < n \<Longrightarrow> length (chunks n xs) = (length xs + n - 1) div n"
proof (induction n xs rule: chunks.induct)
  case (1 n xs)
  show ?case
  proof (cases "xs = []")
    case False
    then have IH: "length (chunks n (drop n xs)) = (length (drop n xs) + n - 1) div n"
      using 1 by simp
    show ?thesis
    proof (cases "n \<le> length xs")
      case True
      have "length xs + n - 1 = (length xs - 1) + n" using True 1 by simp
      then have "(length xs + n - 1) div n = Suc ((length xs - 1) div n)"
        using 1 by (simp add: div_add_self2 del: add_diff_assoc2)
      then show ?thesis using IH False 1 True by (simp add: chunks_rec)
    next
      case less: False
      then have "(length xs + n - 1) div n = 1"
        using False by (intro div_nat_eqI) (cases xs; simp)+
      then show ?thesis using less False 1 by (simp add: chunks_rec)
    qed
  qed (use 1 in simp)
qed

text \<open>\<open>bytes.windows(k).position(|w| w == pattern)\<close>: the first occurrence of a pattern.\<close>

fun find_at :: "nat \<Rightarrow> 'a list \<Rightarrow> 'a list \<Rightarrow> nat option" where
  "find_at i [] pat = None"
| "find_at i (x # xs) pat =
     (if length pat \<le> length (x # xs) \<and> take (length pat) (x # xs) = pat then Some i
      else find_at (Suc i) xs pat)"

lemma find_at_Some:
  assumes "find_at i xs pat = Some k"
  shows "i \<le> k \<and> k - i + length pat \<le> length xs \<and> take (length pat) (drop (k - i) xs) = pat"
  using assms
proof (induction i xs pat rule: find_at.induct)
  case (2 i x xs pat)
  show ?case
  proof (cases "length pat \<le> length (x # xs) \<and> take (length pat) (x # xs) = pat")
    case True
    with 2 show ?thesis by auto
  next
    case False
    with 2 have IH: "Suc i \<le> k \<and> k - Suc i + length pat \<le> length xs \<and>
        take (length pat) (drop (k - Suc i) xs) = pat" by auto
    then have "k - i = Suc (k - Suc i)" by (simp add: Suc_diff_Suc)
    with IH show ?thesis by simp
  qed
qed simp

lemma find_at_first:
  assumes "find_at i xs pat = Some k" "i \<le> j" "j < k"
  shows "take (length pat) (drop (j - i) xs) \<noteq> pat"
  using assms
proof (induction i xs pat rule: find_at.induct)
  case (2 i x xs pat)
  have no: "\<not> (length pat \<le> length (x # xs) \<and> take (length pat) (x # xs) = pat)"
    using "2.prems" by (auto split: if_splits)
  show ?case
  proof (cases "j = i")
    case True
    then show ?thesis using no by auto
  next
    case False
    then have "Suc i \<le> j" "j - i = Suc (j - Suc i)" using "2.prems" by (auto simp: Suc_diff_Suc)
    then show ?thesis using no 2 by (auto split: if_splits)
  qed
qed simp

end
