(* ===== verification/Calendar.thy ===== *)
theory Calendar
  imports Prelude
begin

text \<open>
  Dates and times: \<open>Date\<close> and \<open>Time\<close> of \<open>presentation.rs\<close> with their digits and texts, and the
  checks of \<open>statement.rs\<close> on them (\<open>number\<close>, \<open>days_in_month\<close>, \<open>days\<close>, \<open>date\<close>, \<open>time\<close>,
  \<open>check_range\<close>). The \<open>u32\<close> fields are natural numbers: the parsers read at most four digits, so
  no sum of the code overflows. \<open>days\<close> computes in integers, with the floor division that
  \<open>div_euclid\<close> is for a positive divisor and that \<open>/\<close> is on the nonnegative operands there.

  The reference for \<open>days\<close> is \<open>next_day\<close>, which counts the calendar one day at a time.
\<close>

section \<open>Dates and times\<close>

record Date =
  year :: nat
  month :: nat
  day :: nat

definition date_digits :: "Date \<Rightarrow> nat" where
  "date_digits d = year d * 10000 + month d * 100 + day d"

text \<open>The decimal digits of a number, and \<open>format!("{:0w}")\<close>.\<close>

definition digit_char :: "nat \<Rightarrow> byte" where
  "digit_char n = word_of_nat (48 + n)"

fun dec :: "nat \<Rightarrow> str" where
  "dec n = (if n < 10 then [digit_char n] else dec (n div 10) @ [digit_char (n mod 10)])"

declare dec.simps [simp del]

definition dec_pad :: "nat \<Rightarrow> nat \<Rightarrow> str" where
  "dec_pad w n = replicate (w - length (dec n)) 48 @ dec n"

definition date_text :: "Date \<Rightarrow> str" where
  "date_text d = dec_pad 4 (year d) @ ascii ''-'' @ dec_pad 2 (month d) @ ascii ''-'' @ dec_pad 2 (day d)"

record Time =
  tdate :: Date
  hour :: nat
  minute :: nat
  second :: nat

definition time_digits :: "Time \<Rightarrow> nat" where
  "time_digits t = date_digits (tdate t) * 1000000 + hour t * 10000 + minute t * 100 + second t"

definition time_text :: "Time \<Rightarrow> str" where
  "time_text t = date_text (tdate t) @ ascii ''T'' @ dec_pad 2 (hour t) @ ascii '':'' @
     dec_pad 2 (minute t) @ ascii '':'' @ dec_pad 2 (second t) @ ascii ''Z''"

datatype TimeEncoding = Digits

fun time_encode :: "TimeEncoding \<Rightarrow> Time \<Rightarrow> nat" where
  "time_encode Digits t = time_digits t"

section \<open>Parsing\<close>

datatype calendar_error =
    NotADate str
  | NotATime str
  | ShortWindow Date Date int

definition is_ascii_digit :: "byte \<Rightarrow> bool" where
  "is_ascii_digit b \<longleftrightarrow> 48 \<le> b \<and> b \<le> 57"

definition dec_val :: "str \<Rightarrow> nat" where
  "dec_val s = foldl (\<lambda>v b. 10 * v + (unat b - 48)) 0 s"

definition number :: "str \<Rightarrow> nat option" where
  "number s =
    (if s = [] \<or> \<not> list_all is_ascii_digit s then None
     else if dec_val s < 2 ^ 32 then Some (dec_val s) else None)"

definition is_leap :: "nat \<Rightarrow> bool" where
  "is_leap y \<longleftrightarrow> 4 dvd y \<and> (\<not> 100 dvd y \<or> 400 dvd y)"

definition days_in_month :: "nat \<Rightarrow> nat \<Rightarrow> nat" where
  "days_in_month y m =
    (if m \<in> {1, 3, 5, 7, 8, 10, 12} then 31
     else if m \<in> {4, 6, 9, 11} then 30
     else if is_leap y then 29 else 28)"

definition days :: "Date \<Rightarrow> int" where
  "days d =
    (let y = int (year d); m = int (month d); dd = int (day d);
         y = (if m \<le> 2 then y - 1 else y);
         era = y div 400;
         yoe = y - era * 400;
         doy = (153 * (if m > 2 then m - 3 else m + 9) + 2) div 5 + dd - 1;
         doe = yoe * 365 + yoe div 4 - yoe div 100 + doy
     in era * 146097 + doe - 719468)"

definition is_ascii :: "str \<Rightarrow> bool" where
  "is_ascii s \<longleftrightarrow> list_all (\<lambda>b. b < 128) s"

text \<open>\<open>&s[i..j]\<close>.\<close>

abbreviation str_slice :: "nat \<Rightarrow> nat \<Rightarrow> 'a list \<Rightarrow> 'a list" where
  "str_slice i j s \<equiv> take (j - i) (drop i s)"

definition date :: "str \<Rightarrow> calendar_error + Date" where
  "date s =
    (if length s \<noteq> 10 \<or> \<not> is_ascii s \<or> s ! 4 \<noteq> 45 \<or> s ! 7 \<noteq> 45 then Inl (NotADate s)
     else case (number (str_slice 0 4 s), number (str_slice 5 7 s), number (str_slice 8 10 s)) of
       (Some y, Some m, Some d) \<Rightarrow>
         if y \<ge> 1 \<and> 1 \<le> m \<and> m \<le> 12 \<and> 1 \<le> d \<and> d \<le> days_in_month y m
         then Inr \<lparr>year = y, month = m, day = d\<rparr> else Inl (NotADate s)
     | _ \<Rightarrow> Inl (NotADate s))"

definition time :: "str \<Rightarrow> calendar_error + Time" where
  "time s =
    (if length s \<noteq> 20 \<or> \<not> is_ascii s then Inl (NotATime s)
     else if s ! 10 \<noteq> 84 \<or> s ! 13 \<noteq> 58 \<or> s ! 16 \<noteq> 58 \<or> s ! 19 \<noteq> 90 then Inl (NotATime s)
     else case (number (str_slice 11 13 s), number (str_slice 14 16 s), number (str_slice 17 19 s)) of
       (Some h, Some mi, Some sec) \<Rightarrow>
         if h < 24 \<and> mi < 60 \<and> sec < 60
         then rbind (date (take 10 s)) (\<lambda>d. Inr \<lparr>tdate = d, hour = h, minute = mi, second = sec\<rparr>)
         else Inl (NotATime s)
     | _ \<Rightarrow> Inl (NotATime s))"

definition NO_LOWER_BOUND :: str where "NO_LOWER_BOUND = ascii ''0000-00-00''"

definition NO_UPPER_BOUND :: str where "NO_UPPER_BOUND = ascii ''9999-12-31''"

definition MIN_WINDOW_DAYS :: int where "MIN_WINDOW_DAYS = 365"

definition check_range :: "str \<Rightarrow> str \<Rightarrow> calendar_error + unit" where
  "check_range earliest cutoff =
    (let e = (earliest \<noteq> NO_LOWER_BOUND); c = (cutoff \<noteq> NO_UPPER_BOUND) in
     rbind (if e then rbind (date earliest) (\<lambda>d. Inr (Some d)) else Inr None) (\<lambda>first.
     rbind (date cutoff) (\<lambda>cutoff_date.
       case (first, c) of
         (Some earliest_date, True) \<Rightarrow>
           (let window = days cutoff_date - days earliest_date + 1 in
            if window < MIN_WINDOW_DAYS then Inl (ShortWindow earliest_date cutoff_date window) else Inr ())
       | _ \<Rightarrow> Inr ())))"

section \<open>Decimal text\<close>

lemma digit_char:
  assumes "n < 10"
  shows "unat (digit_char n) = 48 + n" "is_ascii_digit (digit_char n)"
proof -
  have "unat (word_of_nat (48 + n) :: byte) = 48 + n"
    using assms by (subst unat_of_nat) simp
  then show u: "unat (digit_char n) = 48 + n" by (simp add: digit_char_def)
  show "is_ascii_digit (digit_char n)" using assms u by (simp add: is_ascii_digit_def word_le_nat_alt)
qed

lemma digit_char_inv:
  assumes "is_ascii_digit b"
  obtains n where "n < 10" "b = digit_char n" "unat b = 48 + n"
proof
  have b: "48 \<le> unat b" "unat b \<le> 57" using assms by (simp_all add: is_ascii_digit_def word_le_nat_alt)
  then show "unat b - 48 < 10" "unat b = 48 + (unat b - 48)" by simp_all
  then have "48 + (unat b - 48) = unat b" by simp
  then show "b = digit_char (unat b - 48)" unfolding digit_char_def by (simp del: of_nat_add)
qed

lemma dec_val_snoc [simp]: "dec_val (s @ [b]) = 10 * dec_val s + (unat b - 48)"
  by (simp add: dec_val_def)

lemma dec_val_Nil [simp]: "dec_val [] = 0"
  by (simp add: dec_val_def)

lemma dec_digits: "list_all is_ascii_digit (dec n)"
  by (induction n rule: dec.induct) (subst dec.simps, simp add: digit_char)

lemma dec_val_dec [simp]: "dec_val (dec n) = n"
proof (induction n rule: dec.induct)
  case (1 n)
  show ?case
  proof (cases "n < 10")
    case True
    then show ?thesis using dec_val_snoc [of "[]"] by (simp add: dec.simps [of n] digit_char)
  next
    case False
    then show ?thesis using 1 by (simp add: dec.simps [of n] digit_char)
  qed
qed

lemma dec_val_zeros [simp]: "dec_val (replicate k 48 @ s) = dec_val s"
  by (induction k) (simp_all add: dec_val_def)

lemma dec_nonempty [simp]: "dec n \<noteq> []"
  by (subst dec.simps) simp

lemma dec_length: "length (dec n) \<le> k \<longleftrightarrow> 0 < k \<and> n < 10 ^ k"
proof (induction k arbitrary: n)
  case (Suc k)
  show ?case
  proof (cases "n < 10")
    case True
    then have "n < 10 ^ Suc k" using one_le_power [of "10::nat" k] by (simp, linarith)
    then show ?thesis using True by (simp add: dec.simps [of n])
  next
    case False
    then have "length (dec n) \<le> Suc k \<longleftrightarrow> 0 < k \<and> n div 10 < 10 ^ k"
      using Suc.IH [of "n div 10"] by (simp add: dec.simps [of n])
    also have "\<dots> \<longleftrightarrow> n < 10 ^ Suc k"
      using False by (cases k) (auto simp: div_less_iff_less_mult mult.commute)
    finally show ?thesis by simp
  qed
qed simp

lemma dec_pad_digits: "list_all is_ascii_digit (dec_pad w n)"
proof -
  have "is_ascii_digit 48" by (simp add: is_ascii_digit_def)
  then show ?thesis using dec_digits [of n] by (auto simp: dec_pad_def list_all_iff)
qed

lemma dec_val_dec_pad [simp]: "dec_val (dec_pad w n) = n"
  by (simp add: dec_pad_def)

lemma length_dec_pad: "0 < w \<Longrightarrow> n < 10 ^ w \<Longrightarrow> length (dec_pad w n) = w"
  using dec_length [of n w] by (simp add: dec_pad_def)

lemma dec_val_inj:
  assumes "length s = length t" "list_all is_ascii_digit s" "list_all is_ascii_digit t" "dec_val s = dec_val t"
  shows "s = t"
  using assms
proof (induction s arbitrary: t rule: rev_induct)
  case (snoc b s)
  then obtain c u where t: "t = u @ [c]" by (cases t rule: rev_cases) auto
  have "is_ascii_digit b" "is_ascii_digit c" using snoc.prems(2,3) t by simp_all
  then obtain m n where "m < 10" "b = digit_char m" "unat b = 48 + m" "n < 10" "c = digit_char n" "unat c = 48 + n"
    by (elim digit_char_inv)
  moreover have "10 * dec_val s + m = 10 * dec_val u + n" using snoc.prems(4) t calculation by simp
  then have "dec_val s = dec_val u \<and> m = n" using \<open>m < 10\<close> \<open>n < 10\<close> by presburger
  ultimately show ?case using snoc t by simp
qed simp

lemma dec_val_less: "list_all is_ascii_digit s \<Longrightarrow> dec_val s < 10 ^ length s"
proof (induction s rule: rev_induct)
  case (snoc b s)
  then obtain n where "n < 10" "unat b = 48 + n" by (auto elim: digit_char_inv)
  then show ?case using snoc by simp
qed simp

lemma number_eq:
  assumes "length s = w" "0 < w" "w \<le> 9"
  shows "number s = Some n \<longleftrightarrow> n < 10 ^ w \<and> s = dec_pad w n"
proof
  assume "number s = Some n"
  then have s: "list_all is_ascii_digit s" "dec_val s = n" by (auto simp: number_def split: if_splits)
  then have "n < 10 ^ w" using dec_val_less assms(1) by blast
  then show "n < 10 ^ w \<and> s = dec_pad w n"
    using s dec_val_inj [of s "dec_pad w n"] assms dec_pad_digits length_dec_pad by simp
next
  assume n: "n < 10 ^ w \<and> s = dec_pad w n"
  have "(10::nat) ^ w \<le> 10 ^ 9" using assms(3) by (intro power_increasing) auto
  then have "n < 2 ^ 32" using n by simp
  then show "number s = Some n"
    using n dec_pad_digits [of w n] assms by (auto simp: number_def)
qed

section \<open>Parsing inverts printing\<close>

definition valid_date :: "Date \<Rightarrow> bool" where
  "valid_date d \<longleftrightarrow> 1 \<le> year d \<and> year d \<le> 9999 \<and> 1 \<le> month d \<and> month d \<le> 12 \<and>
     1 \<le> day d \<and> day d \<le> days_in_month (year d) (month d)"

definition valid_time :: "Time \<Rightarrow> bool" where
  "valid_time t \<longleftrightarrow> valid_date (tdate t) \<and> hour t < 24 \<and> minute t < 60 \<and> second t < 60"

lemma days_in_month_le: "days_in_month y m \<le> 31"
  by (simp add: days_in_month_def)

lemma valid_date_bounds: "valid_date d \<Longrightarrow> year d < 10 ^ 4 \<and> month d < 10 ^ 2 \<and> day d < 10 ^ 2"
  using days_in_month_le [of "year d" "month d"] by (auto simp: valid_date_def)

lemma split_text:
  assumes "length s = a + 1 + b"
  shows "s = take a s @ [s ! a] @ drop (a + 1) s"
  using assms by (metis Suc_eq_plus1 id_take_nth_drop le_add1 less_add_one order.strict_trans2 append_Cons append_Nil)

lemma date_split:
  assumes "length s = 10"
  shows "s = str_slice 0 4 s @ [s ! 4] @ str_slice 5 7 s @ [s ! 7] @ str_slice 8 10 s"
proof -
  have "s = take 4 s @ [s ! 4] @ drop 5 s" using split_text [of s 4 5] assms by simp
  moreover have "drop 5 s = take 2 (drop 5 s) @ [s ! 7] @ drop 8 s"
    using split_text [of "drop 5 s" 2 2] assms by simp
  ultimately show ?thesis using assms by simp
qed

lemma time_split:
  assumes "length s = 20"
  shows "s = take 10 s @ [s ! 10] @ str_slice 11 13 s @ [s ! 13] @ str_slice 14 16 s @ [s ! 16] @ str_slice 17 19 s @ [s ! 19]"
proof -
  have "s = take 10 s @ [s ! 10] @ drop 11 s" using split_text [of s 10 9] assms by simp
  moreover have "drop 11 s = take 2 (drop 11 s) @ [s ! 13] @ drop 14 s"
    using split_text [of "drop 11 s" 2 6] assms by simp
  moreover have "drop 14 s = take 2 (drop 14 s) @ [s ! 16] @ drop 17 s"
    using split_text [of "drop 14 s" 2 3] assms by simp
  moreover have "drop 17 s = take 2 (drop 17 s) @ [s ! 19] @ drop 20 s"
    using split_text [of "drop 17 s" 2 0] assms by simp
  ultimately show ?thesis using assms by simp
qed

lemma is_ascii_dec_pad: "is_ascii (dec_pad w n)"
proof -
  have "b < 128" if "is_ascii_digit b" for b :: byte
    using that by (simp add: is_ascii_digit_def word_le_nat_alt word_less_nat_alt)
  then show ?thesis using dec_pad_digits [of w n] by (auto simp: is_ascii_def list_all_iff)
qed

lemma is_ascii_append [simp]: "is_ascii (s @ t) \<longleftrightarrow> is_ascii s \<and> is_ascii t"
  by (simp add: is_ascii_def)

lemma ascii_chars: "ascii ''-'' = [45]" "ascii ''T'' = [84]" "ascii '':'' = [58]" "ascii ''Z'' = [90]"
  by (simp_all add: ascii_def)

lemma is_ascii_Cons [simp]: "is_ascii (b # s) \<longleftrightarrow> b < 128 \<and> is_ascii s" "is_ascii []"
  by (simp_all add: is_ascii_def)

lemma date_text_shape:
  assumes "valid_date d"
  shows "length (date_text d) = 10" "is_ascii (date_text d)"
    "date_text d ! 4 = 45" "date_text d ! 7 = 45"
    "str_slice 0 4 (date_text d) = dec_pad 4 (year d)"
    "str_slice 5 7 (date_text d) = dec_pad 2 (month d)"
    "str_slice 8 10 (date_text d) = dec_pad 2 (day d)"
  using valid_date_bounds [OF assms]
  by (simp_all add: date_text_def length_dec_pad ascii_chars is_ascii_dec_pad nth_append)

lemma date_iff: "date s = Inr d \<longleftrightarrow> valid_date d \<and> s = date_text d"
proof
  assume d: "date s = Inr d"
  then have s: "length s = 10" "s ! 4 = 45" "s ! 7 = 45" by (auto simp: date_def split: if_splits)
  from d obtain y m dd where n: "number (str_slice 0 4 s) = Some y" "number (str_slice 5 7 s) = Some m"
      "number (str_slice 8 10 s) = Some dd" and dd: "d = \<lparr>year = y, month = m, day = dd\<rparr>"
      "y \<ge> 1" "1 \<le> m" "m \<le> 12" "1 \<le> dd" "dd \<le> days_in_month y m"
    unfolding date_def by (auto split: if_splits option.splits)
  have eq: "y < 10 ^ 4 \<and> str_slice 0 4 s = dec_pad 4 y" "str_slice 5 7 s = dec_pad 2 m" "str_slice 8 10 s = dec_pad 2 dd"
    using n s(1) number_eq [of "str_slice 0 4 s" 4 y] number_eq [of "str_slice 5 7 s" 2 m]
      number_eq [of "str_slice 8 10 s" 2 dd]
    by (simp_all add: length_dec_pad)
  have "s = dec_pad 4 y @ [45] @ dec_pad 2 m @ [45] @ dec_pad 2 dd"
    using date_split [OF s(1)] eq s(2,3) by metis
  then show "valid_date d \<and> s = date_text d"
    using dd eq(1) by (simp add: valid_date_def date_text_def ascii_chars)
next
  assume "valid_date d \<and> s = date_text d"
  then have v: "valid_date d" and s: "s = date_text d" by auto
  note shape = date_text_shape [OF v] and bounds = valid_date_bounds [OF v]
  have "number (dec_pad 4 (year d)) = Some (year d)" "number (dec_pad 2 (month d)) = Some (month d)"
    "number (dec_pad 2 (day d)) = Some (day d)"
    using bounds by (simp_all add: number_eq length_dec_pad)
  then show "date s = Inr d"
    using v unfolding date_def s shape by (simp add: shape valid_date_def)
qed

lemma time_text_shape:
  assumes "valid_time t"
  shows "length (time_text t) = 20" "is_ascii (time_text t)" "take 10 (time_text t) = date_text (tdate t)"
    "time_text t ! 10 = 84" "time_text t ! 13 = 58" "time_text t ! 16 = 58" "time_text t ! 19 = 90"
    "str_slice 11 13 (time_text t) = dec_pad 2 (hour t)"
    "str_slice 14 16 (time_text t) = dec_pad 2 (minute t)"
    "str_slice 17 19 (time_text t) = dec_pad 2 (second t)"
  using assms date_text_shape(1,2) [of "tdate t"]
  by (simp_all add: valid_time_def time_text_def length_dec_pad ascii_chars is_ascii_dec_pad nth_append)

lemma time_iff: "time s = Inr t \<longleftrightarrow> valid_time t \<and> s = time_text t"
proof
  assume t: "time s = Inr t"
  then have s: "length s = 20" "s ! 10 = 84" "s ! 13 = 58" "s ! 16 = 58" "s ! 19 = 90"
    by (auto simp: time_def split: if_splits)
  from t obtain h m sec d where n: "number (str_slice 11 13 s) = Some h" "number (str_slice 14 16 s) = Some m"
      "number (str_slice 17 19 s) = Some sec" "h < 24" "m < 60" "sec < 60" "date (take 10 s) = Inr d"
      "t = \<lparr>tdate = d, hour = h, minute = m, second = sec\<rparr>"
    unfolding time_def by (auto simp: result_simps split: if_splits option.splits)
  have eq: "str_slice 11 13 s = dec_pad 2 h" "str_slice 14 16 s = dec_pad 2 m" "str_slice 17 19 s = dec_pad 2 sec"
    using n s(1) number_eq [of "str_slice 11 13 s" 2 h] number_eq [of "str_slice 14 16 s" 2 m]
      number_eq [of "str_slice 17 19 s" 2 sec]
    by simp_all
  have d: "valid_date d" "take 10 s = date_text d" using n(7) by (simp_all add: date_iff)
  have "s = date_text d @ [84] @ dec_pad 2 h @ [58] @ dec_pad 2 m @ [58] @ dec_pad 2 sec @ [90]"
    using time_split [OF s(1)] eq d(2) s(2-) by metis
  then show "valid_time t \<and> s = time_text t"
    using n d(1) by (simp add: valid_time_def time_text_def ascii_chars)
next
  assume "valid_time t \<and> s = time_text t"
  then have v: "valid_time t" and s: "s = time_text t" by auto
  note shape = time_text_shape [OF v]
  have "number (dec_pad 2 (hour t)) = Some (hour t)" "number (dec_pad 2 (minute t)) = Some (minute t)"
    "number (dec_pad 2 (second t)) = Some (second t)" "date (date_text (tdate t)) = Inr (tdate t)"
    using v by (simp_all add: valid_time_def number_eq length_dec_pad date_iff)
  then show "time s = Inr t"
    using v unfolding time_def s shape by (simp add: shape valid_time_def)
qed

section \<open>Counting days\<close>

definition next_day :: "Date \<Rightarrow> Date" where
  "next_day d =
    (if day d < days_in_month (year d) (month d) then d\<lparr>day := day d + 1\<rparr>
     else if month d < 12 then d\<lparr>month := month d + 1, day := 1\<rparr>
     else \<lparr>year = year d + 1, month = 1, day = 1\<rparr>)"

text \<open>The day number without eras.\<close>

definition year_days :: "int \<Rightarrow> int" where
  "year_days y = 365 * y + y div 4 - y div 100 + y div 400"

definition day_number :: "int \<Rightarrow> int \<Rightarrow> int \<Rightarrow> int" where
  "day_number y m d = year_days y + (153 * m + 2) div 5 + d - 719469"

lemma era_split:
  fixes e r y q4 q100 s4 s100 :: int
  assumes "y = r + e * 400" "s4 = q4 + e * 100" "s100 = q100 + e * 4"
  shows "e * 146097 + (r * 365 + q4 - q100) = 365 * y + s4 - s100 + e"
  using assms by simp

lemma era_days:
  fixes y :: int
  shows "y div 400 * 146097 + ((y - y div 400 * 400) * 365 + (y - y div 400 * 400) div 4 - (y - y div 400 * 400) div 100)
    = 365 * y + y div 4 - y div 100 + y div 400"
proof -
  define e r where "e = y div 400" and "r = y - e * 400"
  have y: "y = r + e * 400" by (simp add: r_def)
  have "y div 4 = r div 4 + e * 100" using div_mult_self1 [of 4 r "e * 100"] y by (simp add: mult_ac)
  moreover have "y div 100 = r div 100 + e * 4" using div_mult_self1 [of 100 r "e * 4"] y by (simp add: mult_ac)
  ultimately show ?thesis using era_split [OF y] unfolding r_def e_def by blast
qed

lemma era_sum:
  fixes e r a b s m d :: int
  assumes "e * 146097 + (r * 365 + a - b) = s"
  shows "e * 146097 + (r * 365 + a - b + (m + d - 1)) - 719468 = s + m + d - 719469"
  using assms by simp

lemma days_eq:
  "days d = (if month d \<le> 2 then day_number (int (year d) - 1) (int (month d) + 9) (int (day d))
             else day_number (int (year d)) (int (month d) - 3) (int (day d)))"
proof (cases "month d \<le> 2")
  case True
  then have "(int (month d) \<le> 2) = True" "(int (month d) > 2) = False" by simp_all
  then show ?thesis
    unfolding days_def day_number_def year_days_def Let_def if_P [OF True]
    by (simp only: if_True if_False) (rule era_sum [OF era_days])
next
  case False
  then have "(int (month d) \<le> 2) = False" "(int (month d) > 2) = True" by simp_all
  then show ?thesis
    unfolding days_def day_number_def year_days_def Let_def if_not_P [OF False]
    by (simp only: if_True if_False) (rule era_sum [OF era_days])
qed

lemma div_pred:
  fixes y k :: int
  assumes "1 < k"
  shows "y div k = (y - 1) div k + of_bool (k dvd y)"
proof (cases "k dvd y")
  case True
  then obtain q where q: "y = k * q" by (elim dvdE)
  have "(y - 1) div k = q - 1"
    using assms q by (intro int_div_pos_eq [of _ _ _ "k - 1"]) (simp_all add: algebra_simps)
  then show ?thesis using assms q True by simp
next
  case False
  have "y mod k \<noteq> 0" using False by (simp add: dvd_eq_mod_eq_0)
  moreover have "0 \<le> y mod k" "y mod k < k" using assms by simp_all
  moreover have "y = k * (y div k) + y mod k" by simp
  then have "y - 1 = k * (y div k) + (y mod k - 1)" by linarith
  ultimately have "(y - 1) div k = y div k" by (intro int_div_pos_eq [of _ _ _ "y mod k - 1"]) simp_all
  then show ?thesis using False by simp
qed

lemma leap_arith:
  fixes a b c y :: int
  assumes "p100 \<longrightarrow> p4" "p400 \<longrightarrow> p100"
  shows "365 * y + (a + of_bool p4) - (b + of_bool p100) + (c + of_bool p400) + 1 - 719469 =
    365 * (y - 1) + a - b + c + 337 + int (if p4 \<and> (\<not> p100 \<or> p400) then 29 else 28) - 719469 + 1"
  by (cases p4; cases p100; cases p400) (use assms in simp_all)

lemma february:
  "day_number (int y) 0 1 = day_number (int y - 1) 11 (int (days_in_month y 2)) + 1"
proof -
  have dvd: "(k dvd int y) = (nat k dvd y)" if "0 \<le> k" for k
    using that int_dvd_int_iff [of "nat k" y] by simp
  have "100 dvd y \<longrightarrow> 4 dvd y" "400 dvd y \<longrightarrow> 100 dvd y"
    by (auto intro: dvd_trans [of 4 100 y] dvd_trans [of 100 400 y])
  note leap = leap_arith [where y = "int y" and a = "(int y - 1) div 4" and b = "(int y - 1) div 100"
      and c = "(int y - 1) div 400", OF this]
  have step: "day_number (int y) 0 1 = 365 * int y + ((int y - 1) div 4 + of_bool (4 dvd y))
      - ((int y - 1) div 100 + of_bool (100 dvd y)) + ((int y - 1) div 400 + of_bool (400 dvd y)) + 1 - 719469"
    unfolding day_number_def year_days_def by (subst (1 2 3) div_pred) (simp_all add: dvd)
  have "(153 * 11 + 2) div 5 = (337 :: int)"
    "days_in_month y 2 = (if 4 dvd y \<and> (\<not> 100 dvd y \<or> 400 dvd y) then 29 else 28)"
    by (simp_all add: days_in_month_def is_leap_def)
  then show ?thesis
    unfolding trans [OF step leap] day_number_def [of "int y - 1"] year_days_def [of "int y - 1"] by (simp only:)
qed

lemma next_month:
  assumes "1 \<le> m" "m < 12" "m \<noteq> 2"
  shows "days \<lparr>year = y, month = m + 1, day = 1\<rparr> = days \<lparr>year = y, month = m, day = days_in_month y m\<rparr> + 1"
proof -
  have "m = 1 \<or> m = 3 \<or> m = 4 \<or> m = 5 \<or> m = 6 \<or> m = 7 \<or> m = 8 \<or> m = 9 \<or> m = 10 \<or> m = 11"
    using assms by presburger
  then show ?thesis by (elim disjE) (simp_all add: days_eq day_number_def days_in_month_def)
qed

lemma next_year: "days \<lparr>year = y + 1, month = 1, day = 1\<rparr> = days \<lparr>year = y, month = 12, day = days_in_month y 12\<rparr> + 1"
  by (simp add: days_eq day_number_def days_in_month_def)

lemma next_march: "days \<lparr>year = y, month = 3, day = 1\<rparr> = days \<lparr>year = y, month = 2, day = days_in_month y 2\<rparr> + 1"
  using february [of y] by (simp add: days_eq)

lemma days_next_day:
  assumes "1 \<le> month d" "month d \<le> 12" "day d \<le> days_in_month (year d) (month d)"
  shows "days (next_day d) = days d + 1"
proof (cases "day d < days_in_month (year d) (month d)")
  case True
  then show ?thesis by (simp add: next_day_def days_eq day_number_def)
next
  case False
  then obtain y m where d: "d = \<lparr>year = y, month = m, day = days_in_month y m\<rparr>"
    using assms(3) by (cases d) simp
  have "1 \<le> m" "m \<le> 12" using assms d by simp_all
  then consider "m = 2" | "m < 12" "m \<noteq> 2" | "m = 12" by linarith
  then show ?thesis
    by cases (use next_month [of m y] next_march [of y] next_year [of y] \<open>1 \<le> m\<close> d in
      \<open>simp_all add: next_day_def numeral_3_eq_3\<close>)
qed

text \<open>\<open>next_day\<close> is the least later date in the order of the digits.\<close>

definition calendar_date :: "Date \<Rightarrow> bool" where
  "calendar_date d \<longleftrightarrow> 1 \<le> month d \<and> month d \<le> 12 \<and> 1 \<le> day d \<and> day d \<le> days_in_month (year d) (month d)"

lemma calendar_date_bounds: "calendar_date d \<Longrightarrow> 1 \<le> month d \<and> month d \<le> 12 \<and> 1 \<le> day d \<and> day d \<le> 31"
  using days_in_month_le [of "year d" "month d"] by (auto simp: calendar_date_def)

lemma days_in_month_pos: "1 \<le> days_in_month y m"
  by (simp add: days_in_month_def)

lemma calendar_next_day: "calendar_date d \<Longrightarrow> calendar_date (next_day d)"
  using days_in_month_pos by (auto simp: calendar_date_def next_day_def)

lemma date_digits_less:
  assumes "calendar_date d" "calendar_date e"
  shows "date_digits d < date_digits e \<longleftrightarrow>
    year d < year e \<or> year d = year e \<and> (month d < month e \<or> month d = month e \<and> day d < day e)"
proof -
  note b = calendar_date_bounds [OF assms(1)] calendar_date_bounds [OF assms(2)]
  have "month d * 100 + day d < 10000" "month e * 100 + day e < 10000" using b by linarith+
  from radix_less [OF this, of "year d" "year e"]
    radix_less [of "day d" 100 "day e" "month d" "month e"] b
  show ?thesis by (simp add: date_digits_def add.assoc)
qed

lemma date_digits_inj:
  assumes "calendar_date d" "calendar_date e" "date_digits d = date_digits e"
  shows "d = e"
proof -
  have "\<not> date_digits d < date_digits e" "\<not> date_digits e < date_digits d" using assms(3) by simp_all
  then show ?thesis
    using date_digits_less [OF assms(1,2)] date_digits_less [OF assms(2,1)] by (cases d; cases e) auto
qed

lemma next_day_greater: "calendar_date d \<Longrightarrow> date_digits d < date_digits (next_day d)"
  using calendar_date_bounds [of d] by (auto simp: next_day_def date_digits_def)

lemma next_day_least:
  assumes "calendar_date d" "calendar_date e" "date_digits d < date_digits e"
  shows "date_digits (next_day d) \<le> date_digits e"
proof -
  note lex = assms(3) [unfolded date_digits_less [OF assms(1,2)]]
  note b = calendar_date_bounds [OF assms(1)] calendar_date_bounds [OF assms(2)]
  consider "day d < days_in_month (year d) (month d)"
    | "day d = days_in_month (year d) (month d)" "month d < 12"
    | "day d = days_in_month (year d) (month d)" "month d = 12"
    using assms(1) unfolding calendar_date_def by linarith
  then show ?thesis
  proof cases
    case 1
    then show ?thesis using assms(3) by (simp add: next_day_def date_digits_def)
  next
    case 2
    then have "\<not> (year d = year e \<and> month d = month e \<and> day d < day e)"
      using assms(2) by (auto simp: calendar_date_def)
    with lex have "year d + 1 \<le> year e \<or> year d = year e \<and> month d + 1 \<le> month e" by linarith
    then show ?thesis using 2 b by (elim disjE) (simp_all add: next_day_def date_digits_def)
  next
    case 3
    then have "\<not> (year d = year e \<and> month d = month e \<and> day d < day e)"
      using assms(2) by (auto simp: calendar_date_def)
    with lex b 3 have "year d + 1 \<le> year e" by linarith
    then show ?thesis using 3 b by (simp add: next_day_def date_digits_def)
  qed
qed

lemma days_steps:
  "calendar_date d \<Longrightarrow> calendar_date ((next_day ^^ n) d) \<and> days ((next_day ^^ n) d) = days d + int n"
proof (induction n)
  case (Suc n)
  then show ?case
    using calendar_next_day days_next_day [of "(next_day ^^ n) d"] by (simp add: calendar_date_def)
qed simp

lemma next_day_reaches:
  assumes "calendar_date d" "calendar_date e" "date_digits d \<le> date_digits e"
  shows "\<exists>n. (next_day ^^ n) d = e"
  using assms
proof (induction "date_digits e - date_digits d" arbitrary: d rule: less_induct)
  case less
  show ?case
  proof (cases "date_digits d = date_digits e")
    case True
    then show ?thesis using date_digits_inj less.prems by (intro exI [of _ 0]) auto
  next
    case False
    then have lt: "date_digits d < date_digits e" using less.prems by simp
    have "date_digits e - date_digits (next_day d) < date_digits e - date_digits d"
      using next_day_greater [OF less.prems(1)] lt by linarith
    then obtain n where "(next_day ^^ n) (next_day d) = e"
      using less.hyps [OF _ calendar_next_day] next_day_least less.prems lt by blast
    then show ?thesis by (intro exI [of _ "Suc n"]) (simp add: funpow_swap1)
  qed
qed

lemma days_less_iff:
  assumes "calendar_date d" "calendar_date e"
  shows "days d < days e \<longleftrightarrow> date_digits d < date_digits e"
proof -
  have le: "days d \<le> days e" if "calendar_date d" "calendar_date e" "date_digits d \<le> date_digits e" for d e
    using next_day_reaches [OF that] days_steps [OF that(1)] by (metis zle_iff_zadd)
  have lt: "days d < days e" if "calendar_date d" "calendar_date e" "date_digits d < date_digits e" for d e
    using le [OF calendar_next_day [OF that(1)] that(2) next_day_least [OF that]]
      days_next_day [of d] that(1) by (simp add: calendar_date_def)
  show ?thesis using le [OF assms(2,1)] lt [OF assms] by linarith
qed

lemma no_lower_bound_not_date: "date NO_LOWER_BOUND \<noteq> Inr d"
proof -
  have "number [48, 48, 48, 48] = Some 0" by (simp add: number_def is_ascii_digit_def dec_val_def)
  then show ?thesis
    by (auto simp: date_def NO_LOWER_BOUND_def ascii_def split: if_splits option.splits)
qed

section \<open>Properties\<close>

text \<open>
  C21. \<open>date\<close> accepts exactly the texts that \<open>Date::text\<close> writes for a real calendar date with a
  year from 1 to 9999, and gives that date back; every other text is the error that names it. The
  same holds of \<open>time\<close>.
\<close>

theorem calendar_text_roundtrip:
  "(date s = Inr d \<longleftrightarrow> valid_date d \<and> s = date_text d) \<and>
   (time s = Inr t \<longleftrightarrow> valid_time t \<and> s = time_text t)"
  by (simp add: date_iff time_iff)

text \<open>
  C20. \<open>days\<close> counts the calendar: 1970-01-01 is day 0, and \<open>n\<close> days later the count is \<open>n\<close> more,
  for every real date. The numbers YYYYMMDD of two dates compare as their day counts do.
\<close>

theorem days_count_calendar:
  assumes "valid_date d" "valid_date e"
  shows "days \<lparr>year = 1970, month = 1, day = 1\<rparr> = 0 \<and> days ((next_day ^^ n) d) = days d + int n \<and>
    (date_digits d < date_digits e \<longleftrightarrow> days d < days e)"
proof -
  have "calendar_date d" "calendar_date e" using assms by (auto simp: valid_date_def calendar_date_def)
  then show ?thesis using days_steps days_less_iff by (simp add: days_def Let_def)
qed

theorem days_count_calendar_witness:
  "days \<lparr>year = 1970, month = 1, day = 1\<rparr> = 0 \<and>
   days ((next_day ^^ 2) \<lparr>year = 2000, month = 2, day = 28\<rparr>)
     = days \<lparr>year = 2000, month = 2, day = 28\<rparr> + int 2 \<and>
   (date_digits \<lparr>year = 2000, month = 2, day = 28\<rparr> < date_digits \<lparr>year = 2000, month = 3, day = 1\<rparr> \<longleftrightarrow>
    days \<lparr>year = 2000, month = 2, day = 28\<rparr> < days \<lparr>year = 2000, month = 3, day = 1\<rparr>)"
  by (rule days_count_calendar) (simp_all add: valid_date_def days_in_month_def is_leap_def)

text \<open>
  With both bounds given, \<open>check_range\<close> accepts exactly the ranges of at least 365 days: the
  cutoff is reached from the earliest date by stepping at least 364 days forward. In particular it
  refuses a cutoff before the earliest date.
\<close>

theorem check_range_window:
  assumes "valid_date e" "valid_date c" "date_text c \<noteq> NO_UPPER_BOUND"
  shows "check_range (date_text e) (date_text c) = Inr () \<longleftrightarrow> (\<exists>n \<ge> 364. (next_day ^^ n) e = c)"
proof -
  have cal: "calendar_date e" "calendar_date c"
    using assms by (auto simp: valid_date_def calendar_date_def)
  have parsed: "date (date_text e) = Inr e" "date (date_text c) = Inr c"
    using assms by (simp_all add: date_iff)
  moreover have "date_text e \<noteq> NO_LOWER_BOUND" using parsed(1) no_lower_bound_not_date by metis
  ultimately have "check_range (date_text e) (date_text c) = Inr () \<longleftrightarrow> days e + 364 \<le> days c"
    using assms(3) by (simp add: check_range_def MIN_WINDOW_DAYS_def Let_def)
  also have "\<dots> \<longleftrightarrow> (\<exists>n \<ge> 364. (next_day ^^ n) e = c)"
  proof
    assume le: "days e + 364 \<le> days c"
    then have "date_digits e \<le> date_digits c" using days_less_iff [OF cal(2,1)] by linarith
    then obtain n where "(next_day ^^ n) e = c" using next_day_reaches cal by blast
    then show "\<exists>n \<ge> 364. (next_day ^^ n) e = c" using days_steps [OF cal(1), of n] le by auto
  next
    assume "\<exists>n \<ge> 364. (next_day ^^ n) e = c"
    then show "days e + 364 \<le> days c" using days_steps [OF cal(1)] by auto
  qed
  finally show ?thesis .
qed

theorem check_range_window_witness:
  "check_range (date_text \<lparr>year = 2006, month = 1, day = 1\<rparr>) (date_text \<lparr>year = 2008, month = 2, day = 29\<rparr>)
     = Inr () \<longleftrightarrow>
   (\<exists>n \<ge> 364. (next_day ^^ n) \<lparr>year = 2006, month = 1, day = 1\<rparr> = \<lparr>year = 2008, month = 2, day = 29\<rparr>)"
  by (rule check_range_window)
     (simp_all add: valid_date_def days_in_month_def is_leap_def date_text_def NO_UPPER_BOUND_def ascii_def
       dec_pad_def dec.simps digit_char_def)

end
