(* ===== verification/Scalar.thy ===== *)
theory Scalar
  imports Prelude Complex_Main
begin

text \<open>
  Field elements outside the rules: the conversions of \<open>gadgets/lc.rs\<close> (\<open>from_be\<close>, \<open>to_be\<close>,
  \<open>low_bytes\<close>), Montgomery's batch inversion \<open>inverse_all\<close>, and the value lists of
  \<open>gadgets/values.rs\<close>.

  The scalar field \<open>t256::Scalar\<close> belongs to the prover's crate. The definitions are polymorphic in
  a field \<open>'f\<close>, and those that read an element as an integer take \<open>repr\<close>, the integer whose
  little-endian bytes are \<open>to_repr()\<close>. What the code relies on is \<open>scalar_repr\<close>: the integers
  below the field modulus are represented as themselves. In a HOL field \<open>inverse 0 = 0\<close>, which is
  the value \<open>lc::inverse\<close> gives for zero.
\<close>

named_theorems scalar_simps

section \<open>The interface to the field\<close>

text \<open>The field of P-256 coordinates, whose \<open>(p + 1) / 4\<close> is \<open>SQRT_EXPONENT\<close> in \<open>p256.rs\<close>.\<close>

definition modulus :: nat where
  "modulus = 2 ^ 256 - 2 ^ 224 + 2 ^ 192 + 2 ^ 96 - 1"

definition NUM_BITS :: nat where "NUM_BITS = 256"

definition scalar_repr :: "('f::field \<Rightarrow> nat) \<Rightarrow> bool" where
  "scalar_repr repr \<longleftrightarrow>
     (\<forall>x. repr x < modulus) \<and> (\<forall>n < modulus. repr (of_nat n) = n)"

lemma modulus_bounds: "2 ^ 255 < modulus" "modulus < 2 ^ 256"
  by (simp_all add: modulus_def)

lemma power_less_modulus: "n < NUM_BITS \<Longrightarrow> 2 ^ n < modulus"
proof -
  assume "n < NUM_BITS"
  then have "(2::nat) ^ n \<le> 2 ^ 255" by (intro power_increasing) (auto simp: NUM_BITS_def)
  then show ?thesis using modulus_bounds by linarith
qed

lemma scalar_reprD:
  assumes "scalar_repr repr"
  shows "repr x < modulus" "n < modulus \<Longrightarrow> repr (of_nat n) = n"
  using assms by (auto simp: scalar_repr_def)

lemma scalar_of_nat_inj:
  assumes "scalar_repr (repr :: 'f::field \<Rightarrow> nat)" "m < modulus" "n < modulus" "of_nat m = (of_nat n :: 'f)"
  shows "m = n"
  using scalar_reprD(2) [OF assms(1)] assms(2-) by metis

text \<open>
  The hypothesis can hold. In the rationals every natural number is represented as itself, and the
  representation below satisfies it; the intended model is the prime field of order \<open>modulus\<close>.
\<close>

definition rat_repr :: "rat \<Rightarrow> nat" where
  "rat_repr x = nat \<lfloor>x\<rfloor> mod modulus"

lemma scalar_repr_rat: "scalar_repr rat_repr"
  by (simp add: scalar_repr_def rat_repr_def) (simp add: modulus_def)

section \<open>Conversions\<close>

text \<open>
  The code's \<open>from_be\<close> asserts that it gets at most 32 bytes. Every call passes an array or a slice whose length is fixed in
  the code: coordinates, digests and halves of signatures of 32 bytes, chunks and groups of patterns of at most 16.
\<close>

definition from_be :: "bytes \<Rightarrow> 'f::field" where
  "from_be bs = of_nat (be_val bs)"

definition to_be :: "('f::field \<Rightarrow> nat) \<Rightarrow> 'f \<Rightarrow> bytes" where
  "to_be repr x = be_bytes 32 (repr x)"

definition low_bytes :: "('f::field \<Rightarrow> nat) \<Rightarrow> 'f \<Rightarrow> bytes" where
  "low_bytes repr x = drop 16 (to_be repr x)"

lemma length_to_be [simp]: "length (to_be repr x) = 32"
  by (simp add: to_be_def)

lemma length_low_bytes [simp]: "length (low_bytes repr x) = 16"
  by (simp add: low_bytes_def)

lemma be_val_to_be: "scalar_repr repr \<Longrightarrow> be_val (to_be repr x) = repr x"
  using scalar_reprD(1) [of repr x] modulus_bounds(2) by (simp add: to_be_def)

lemma repr_from_be: "scalar_repr repr \<Longrightarrow> be_val bs < modulus \<Longrightarrow> repr (from_be bs) = be_val bs"
  by (simp add: from_be_def scalar_reprD)

lemma be_val_short: "length bs \<le> 31 \<Longrightarrow> be_val bs < modulus"
proof -
  assume "length bs \<le> 31"
  then have "(256::nat) ^ length bs \<le> 256 ^ 31" by (intro power_increasing) auto
  then have "be_val bs < 256 ^ 31" using be_val_less [of bs] by linarith
  then show ?thesis by (simp add: modulus_def)
qed

lemma from_be_inj:
  assumes "scalar_repr (repr :: 'f::field \<Rightarrow> nat)" "length as = length bs" "length bs \<le> 31"
    and "from_be as = (from_be bs :: 'f)"
  shows "as = bs"
proof -
  have "be_val as < modulus" "be_val bs < modulus"
    using be_val_short assms(2,3) by simp_all
  then have "be_val as = be_val bs"
    using scalar_of_nat_inj [OF assms(1)] assms(4) by (simp add: from_be_def)
  then show ?thesis by (rule be_val_inj [OF assms(2)])
qed

lemma be_bytes_split: "be_bytes (j + k) n = be_bytes j (n div 256 ^ k) @ be_bytes k n"
  by (induction k arbitrary: n) (simp_all add: div_mult2_eq)

lemma be_bytes_mod: "be_bytes k (n mod 256 ^ k) = be_bytes k n"
  by (rule be_val_inj) (simp_all add: be_val_be_bytes)

lemma to_be_from_be:
  assumes "scalar_repr repr" "length bs = 32" "be_val bs < modulus"
  shows "to_be repr (from_be bs) = bs"
  using assms by (simp add: to_be_def repr_from_be be_bytes_be_val)

lemma low_bytes_from_be:
  assumes "scalar_repr repr" "length bs = 16"
  shows "low_bytes repr (from_be bs) = bs"
proof -
  have "be_bytes 32 (be_val bs) = be_bytes 16 (be_val bs div 256 ^ 16) @ be_bytes 16 (be_val bs)"
    using be_bytes_split [of 16 16] by simp
  moreover have "repr (from_be bs) = be_val bs"
    using assms by (intro repr_from_be be_val_short) auto
  ultimately show ?thesis
    using assms(2) by (simp add: low_bytes_def to_be_def be_bytes_be_val)
qed

section \<open>Batch inversion\<close>

text \<open>The first loop: the product of the nonzero values before each value, and of all of them.\<close>

fun products_before :: "'f::field \<Rightarrow> 'f list \<Rightarrow> 'f list \<times> 'f" where
  "products_before product [] = ([], product)"
| "products_before product (v # vs) =
     (let (before, all) = products_before (if v \<noteq> 0 then product * v else product) vs
      in (product # before, all))"

text \<open>The second loop, over the values and the products before them from the last to the first.\<close>

fun invert_back :: "'f::field \<Rightarrow> ('f \<times> 'f) list \<Rightarrow> 'f list" where
  "invert_back i [] = []"
| "invert_back i ((v, before) # rest) =
     (if v \<noteq> 0 then i * before # invert_back (i * v) rest else v # invert_back i rest)"

definition inverse_all :: "'f::field list \<Rightarrow> 'f list" where
  "inverse_all values =
     (let (before, product) = products_before 1 values
      in rev (invert_back (inverse product) (rev (zip values before))))"

lemma length_products_before [simp]: "length (fst (products_before c vs)) = length vs"
  by (induction vs arbitrary: c) (auto simp: split_def Let_def)

lemma products_before_snoc:
  "products_before c (vs @ [v]) =
    (let (before, all) = products_before c vs in (before @ [all], if v \<noteq> 0 then all * v else all))"
  by (induction vs arbitrary: c) (simp_all add: split_def Let_def)

lemma products_before_nonzero: "c \<noteq> 0 \<Longrightarrow> snd (products_before c vs) \<noteq> 0"
  by (induction vs arbitrary: c) (simp_all add: split_def Let_def)

lemma invert_back_correct:
  assumes "c \<noteq> 0"
  shows "rev (invert_back (inverse (snd (products_before c vs)))
           (rev (zip vs (fst (products_before c vs))))) = map inverse vs"
proof (induction vs rule: rev_induct)
  case (snoc v vs)
  let ?all = "snd (products_before c vs)"
  have "?all \<noteq> 0" by (rule products_before_nonzero [OF assms])
  then have "inverse (?all * v) * ?all = inverse v \<and> inverse (?all * v) * v = inverse ?all" if "v \<noteq> 0"
    using that by (simp add: field_simps)
  then show ?case using snoc
    by (cases "v = 0") (simp_all add: products_before_snoc split_def Let_def del: inverse_mult_distrib)
qed simp

lemma inverse_all_correct: "inverse_all vs = map inverse vs"
  using invert_back_correct [of 1 vs] by (simp add: inverse_all_def split_def)

section \<open>Value lists\<close>

text \<open>A bit as a field element; the lists of \<open>Values\<close> grow at their end.\<close>

abbreviation fbit :: "bool \<Rightarrow> 'f::field" where
  "fbit b \<equiv> of_bool b"

definition values_bit :: "'f::field list \<Rightarrow> bool \<Rightarrow> 'f list" where
  "values_bit values b = values @ [fbit b]"

definition values_bits :: "'f::field list \<Rightarrow> bool list \<Rightarrow> 'f list" where
  "values_bits values bs = values @ map fbit bs"

definition low_bits :: "'f::field list \<Rightarrow> 64 word \<Rightarrow> nat \<Rightarrow> 'f list" where
  "low_bits values v n = values @ map (\<lambda>i. fbit (bit v i)) [0..<n]"

definition byte_bits :: "'f::field list \<Rightarrow> bytes \<Rightarrow> 'f list" where
  "byte_bits values bs = values @ concat (map (\<lambda>b. map (\<lambda>i. fbit (bit b i)) (rev [0..<8])) bs)"

definition field_bits :: "('f::field \<Rightarrow> nat) \<Rightarrow> 'f list \<Rightarrow> 'f \<Rightarrow> nat \<Rightarrow> 'f list" where
  "field_bits repr values x n =
     values @ map (\<lambda>i. fbit (bit (rev (to_be repr x) ! (i div 8)) (i mod 8))) (rev [0..<n])"

lemma length_low_bits [simp]: "length (low_bits values v n) = length values + n"
  by (simp add: low_bits_def)

lemma length_byte_bits [simp]: "length (byte_bits values bs) = length values + 8 * length bs"
  by (induction bs) (simp_all add: byte_bits_def)

text \<open>Bit \<open>i\<close> of an integer is bit \<open>i mod 8\<close> of byte \<open>i div 8\<close> of its little-endian bytes.\<close>

lemma rev_be_bytes_nth: "j < k \<Longrightarrow> rev (be_bytes k n) ! j = word_of_nat (n div 256 ^ j)"
proof (induction k arbitrary: n j)
  case (Suc k)
  then show ?case by (cases j) (simp_all add: div_mult2_eq)
qed simp

lemma bit_byte_of_nat: "bit (word_of_nat n :: byte) i \<longleftrightarrow> i < 8 \<and> bit n i"
  by (simp add: bit_of_nat_iff)

lemma bit_be_bytes:
  assumes "i < 8 * k"
  shows "bit (rev (be_bytes k n) ! (i div 8)) (i mod 8) \<longleftrightarrow> bit n i"
proof -
  have "i div 8 < k" using assms by (simp add: less_mult_imp_div_less mult.commute)
  moreover have "(256::nat) ^ (i div 8) = 2 ^ (8 * (i div 8))" by (simp add: power_mult)
  moreover have "8 * (i div 8) + i mod 8 = i" by simp
  ultimately show ?thesis
    by (simp add: rev_be_bytes_nth bit_byte_of_nat flip: drop_bit_eq_div)
       (simp add: bit_drop_bit_eq)
qed

lemma field_bits_repr:
  assumes "scalar_repr repr" "n \<le> 256"
  shows "field_bits repr values x n = values @ map (\<lambda>i. fbit (bit (repr x) i)) (rev [0..<n])"
  using assms(2) by (auto simp: field_bits_def to_be_def bit_be_bytes)

section \<open>Properties\<close>

text \<open>
  Montgomery's trick replaces every value of the list by its inverse, and zero by zero, with a
  single inversion.
\<close>

theorem inverse_all_inverts: "inverse_all vs = map inverse vs"
  by (rule inverse_all_correct)

end
