(* ===== verification/Circuit.thy ===== *)
theory Circuit
  imports Scalar
begin

text \<open>
  Constraint systems and the weighted sums of \<open>gadgets/lc.rs\<close>.

  A gadget is a function of type \<open>synth\<close>. It reads the kind of constraint system it runs in
  (\<open>mode\<close>), threads the values and the open namespaces (\<open>cs\<close>), and returns a result or a synthesis
  error, together with the rules it added. The state survives an error, as it does in the code,
  where \<open>first_broken\<close> reads it after a failed synthesis.

  The three modes are the constraint systems the program runs its circuits in: the shape builder of
  the setup, which asks for no value; the witness generator, which records values; and \<open>Check\<close> of
  \<open>app.rs\<close>, which also compares each rule with the values, remembers the first broken rule, and
  refuses every later allocation. The rules a gadget adds are returned in all three.

  The crate \<open>bellpepper\<close> is a parameter, the record \<open>bellpepper\<close>. A \<open>Boolean\<close> is what the code uses of
  it: its weighted sum and its value. \<open>bellpepper_sound\<close> is what the rules rely on, that an allocated
  bit is zero or one in every assignment that satisfies its rules.

  \<open>sound w g Q\<close> says that the rules which \<open>g\<close> adds force \<open>Q\<close> of its result, under every assignment
  \<open>w\<close> that satisfies them, whatever values the prover supplied.
\<close>

declare of_nat_unat [simp del]

section \<open>Constraint systems\<close>

datatype synth_error = AssignmentMissing | Unsatisfiable | Panicked

datatype var = Input nat | Aux nat

type_synonym 'f lincomb = "(var \<times> 'f) list"

record 'f rule =
  rule_path :: "string list"
  rule_a :: "'f lincomb"
  rule_b :: "'f lincomb"
  rule_c :: "'f lincomb"

datatype mode = Shape | Witness | Checking

record 'f cs =
  aux :: "'f option list"
  inputs :: "'f option list"
  path :: "string list"
  broken :: "string list option"

type_synonym ('a, 'f) synth = "mode \<Rightarrow> 'f cs \<Rightarrow> (synth_error + 'a) \<times> 'f cs \<times> 'f rule list"

definition ev :: "(var \<Rightarrow> 'f::field) \<Rightarrow> 'f lincomb \<Rightarrow> 'f" where
  "ev w l = sum_list (map (\<lambda>(v, c). c * w v) l)"

text \<open>The value of a variable that the constraint system holds; the code indexes variables it allocated.\<close>

fun held :: "'f::field cs \<Rightarrow> var \<Rightarrow> 'f" where
  "held cs (Input i) = (if i < length (inputs cs) then case inputs cs ! i of Some v \<Rightarrow> v | None \<Rightarrow> 0 else 0)"
| "held cs (Aux i) = (if i < length (aux cs) then case aux cs ! i of Some v \<Rightarrow> v | None \<Rightarrow> 0 else 0)"

definition check_value :: "'f::field cs \<Rightarrow> 'f lincomb \<Rightarrow> 'f" where
  "check_value cs l = fold (\<lambda>(v, c) s. s + c * held cs v) l 0"

definition refused :: "mode \<Rightarrow> 'f cs \<Rightarrow> bool" where
  "refused m cs \<longleftrightarrow> m = Checking \<and> broken cs \<noteq> None"

definition alloc :: "synth_error + 'f \<Rightarrow> (var, 'f::field) synth" where
  "alloc f m cs =
    (if m = Shape then (Inr (Aux (length (aux cs))), cs\<lparr>aux := aux cs @ [None]\<rparr>, [])
     else if refused m cs then (Inl Unsatisfiable, cs, [])
     else case f of
       Inl e \<Rightarrow> (Inl e, cs, [])
     | Inr v \<Rightarrow> (Inr (Aux (length (aux cs))), cs\<lparr>aux := aux cs @ [Some v]\<rparr>, []))"

definition alloc_input :: "synth_error + 'f \<Rightarrow> (var, 'f::field) synth" where
  "alloc_input f m cs =
    (if m = Shape then (Inr (Input (length (inputs cs))), cs\<lparr>inputs := inputs cs @ [None]\<rparr>, [])
     else if refused m cs then (Inl Unsatisfiable, cs, [])
     else case f of
       Inl e \<Rightarrow> (Inl e, cs, [])
     | Inr v \<Rightarrow> (Inr (Input (length (inputs cs))), cs\<lparr>inputs := inputs cs @ [Some v]\<rparr>, []))"

definition enforce :: "string \<Rightarrow> 'f lincomb \<Rightarrow> 'f lincomb \<Rightarrow> 'f lincomb \<Rightarrow> (unit, 'f::field) synth" where
  "enforce name a b c m cs =
    (let p = path cs @ [name] in
     (Inr (),
      (if m = Checking \<and> broken cs = None \<and> check_value cs a * check_value cs b \<noteq> check_value cs c
       then cs\<lparr>broken := Some p\<rparr> else cs),
      [\<lparr>rule_path = p, rule_a = a, rule_b = b, rule_c = c\<rparr>]))"

definition sret :: "'a \<Rightarrow> ('a, 'f) synth" where
  "sret x m cs = (Inr x, cs, [])"

definition sfail :: "synth_error \<Rightarrow> ('a, 'f) synth" where
  "sfail e m cs = (Inl e, cs, [])"

definition sbind :: "('a, 'f) synth \<Rightarrow> ('a \<Rightarrow> ('b, 'f) synth) \<Rightarrow> ('b, 'f) synth" where
  "sbind g k m cs =
    (case g m cs of
       (Inl e, cs', rs) \<Rightarrow> (Inl e, cs', rs)
     | (Inr x, cs', rs) \<Rightarrow> (case k x m cs' of (r, cs'', rs') \<Rightarrow> (r, cs'', rs @ rs')))"

text \<open>\<open>cs.namespace(|| name)\<close>: the gadget runs with the name pushed, and the guard's drop pops it.\<close>

definition ns :: "string \<Rightarrow> ('a, 'f) synth \<Rightarrow> ('a, 'f) synth" where
  "ns name g m cs =
    (case g m (cs\<lparr>path := path cs @ [name]\<rparr>) of
       (r, cs', rs) \<Rightarrow> (r, cs'\<lparr>path := butlast (path cs')\<rparr>, rs))"

text \<open>\<open>cs.is_witness_generator()\<close>, and the recording of natively computed values.\<close>

definition is_witness_generator :: "(bool, 'f) synth" where
  "is_witness_generator m cs = (Inr (m = Witness), cs, [])"

definition extend_aux :: "'f list \<Rightarrow> (unit, 'f) synth" where
  "extend_aux vs m cs = (Inr (), cs\<lparr>aux := aux cs @ map Some vs\<rparr>, [])"

definition extend_inputs :: "'f list \<Rightarrow> (unit, 'f) synth" where
  "extend_inputs vs m cs = (Inr (), cs\<lparr>inputs := inputs cs @ map Some vs\<rparr>, [])"

text \<open>The decimal text of a number, for names such as \<open>format!("bit {i}")\<close>.\<close>

fun show_nat :: "nat \<Rightarrow> string" where
  "show_nat n = (if n < 10 then [char_of (48 + n)] else show_nat (n div 10) @ [char_of (48 + n mod 10)])"

declare show_nat.simps [simp del]

text \<open>An \<open>assert!\<close>, and the iteration of a gadget over a list.\<close>

definition sassert :: "bool \<Rightarrow> (unit, 'f) synth" where
  "sassert b = (if b then sret () else sfail Panicked)"

definition of_result :: "synth_error + 'a \<Rightarrow> ('a, 'f) synth" where
  "of_result r m cs = (r, cs, [])"

fun smap :: "('a \<Rightarrow> ('b, 'f) synth) \<Rightarrow> 'a list \<Rightarrow> ('b list, 'f) synth" where
  "smap f [] = sret []"
| "smap f (x # xs) = sbind (f x) (\<lambda>y. sbind (smap f xs) (\<lambda>ys. sret (y # ys)))"

fun sfold :: "('a \<Rightarrow> 's \<Rightarrow> ('s, 'f) synth) \<Rightarrow> 'a list \<Rightarrow> 's \<Rightarrow> ('s, 'f) synth" where
  "sfold f [] s = sret s"
| "sfold f (x # xs) s = sbind (f x s) (\<lambda>s'. sfold f xs s')"

section \<open>What the code uses of bellpepper\<close>

record 'f Boolean =
  bool_lc :: "'f lincomb"
  bool_value :: "bool option"

record 'f AllocatedNum =
  num_var :: var
  num_value :: "'f option"

record 'f bellpepper =
  alloc_bit :: "bool option \<Rightarrow> ('f Boolean, 'f) synth"
  alloc_num :: "synth_error + 'f \<Rightarrow> ('f AllocatedNum, 'f) synth"
  alloc_input_num :: "synth_error + 'f \<Rightarrow> ('f AllocatedNum, 'f) synth"
  bit_size :: nat

section \<open>Sound gadgets\<close>

definition satisfied :: "(var \<Rightarrow> 'f::field) \<Rightarrow> 'f rule list \<Rightarrow> bool" where
  "satisfied w rs \<longleftrightarrow> (\<forall>r \<in> set rs. ev w (rule_a r) * ev w (rule_b r) = ev w (rule_c r))"

text \<open>An assignment of the field's elements to the variables; the first input is the constant one.\<close>

definition assignment :: "(var \<Rightarrow> 'f::field) \<Rightarrow> bool" where
  "assignment w \<longleftrightarrow> w (Input 0) = 1"

definition sound :: "(var \<Rightarrow> 'f::field) \<Rightarrow> ('a, 'f) synth \<Rightarrow> ('a \<Rightarrow> bool) \<Rightarrow> bool" where
  "sound w g Q \<longleftrightarrow>
     (\<forall>m cs x cs' rs. m \<noteq> Witness \<longrightarrow> g m cs = (Inr x, cs', rs) \<longrightarrow> satisfied w rs \<longrightarrow> Q x)"

lemma satisfied_simps [simp]:
  "satisfied w []" "satisfied w (rs @ rs') \<longleftrightarrow> satisfied w rs \<and> satisfied w rs'"
  "satisfied w (r # rs) \<longleftrightarrow> ev w (rule_a r) * ev w (rule_b r) = ev w (rule_c r) \<and> satisfied w rs"
  by (auto simp: satisfied_def)

lemma soundI:
  "(\<And>m cs x cs' rs. m \<noteq> Witness \<Longrightarrow> g m cs = (Inr x, cs', rs) \<Longrightarrow> satisfied w rs \<Longrightarrow> Q x) \<Longrightarrow> sound w g Q"
  by (simp add: sound_def)

lemma soundD:
  "sound w g Q \<Longrightarrow> m \<noteq> Witness \<Longrightarrow> g m cs = (Inr x, cs', rs) \<Longrightarrow> satisfied w rs \<Longrightarrow> Q x"
  by (simp add: sound_def)

lemma sound_mono: "sound w g Q \<Longrightarrow> (\<And>x. Q x \<Longrightarrow> R x) \<Longrightarrow> sound w g R"
  by (fastforce simp: sound_def)

lemma sound_conj: "sound w g Q \<Longrightarrow> sound w g R \<Longrightarrow> sound w g (\<lambda>x. Q x \<and> R x)"
  by (fastforce simp: sound_def)

lemma sound_True: "sound w g (\<lambda>_. True)"
  by (simp add: sound_def)

lemma sound_sret: "Q x \<Longrightarrow> sound w (sret x) Q"
  by (simp add: sound_def sret_def)

lemma sound_sfail: "sound w (sfail e) Q"
  by (simp add: sound_def sfail_def)

lemma sbind_Inr:
  "sbind g k m cs = (Inr y, cs'', rs) \<longleftrightarrow>
    (\<exists>x cs' rs1 rs2. g m cs = (Inr x, cs', rs1) \<and> k x m cs' = (Inr y, cs'', rs2) \<and> rs = rs1 @ rs2)"
  by (auto simp: sbind_def split: prod.splits sum.splits)

lemma sound_sbind:
  assumes "sound w g R" "\<And>x. R x \<Longrightarrow> sound w (k x) Q"
  shows "sound w (sbind g k) Q"
proof (rule soundI)
  fix m cs y cs'' rs assume m: "m \<noteq> Witness" and run: "sbind g k m cs = (Inr y, cs'', rs)" and s: "satisfied w rs"
  from run obtain x cs' rs1 rs2 where *: "g m cs = (Inr x, cs', rs1)" "k x m cs' = (Inr y, cs'', rs2)"
    "rs = rs1 @ rs2" by (auto simp: sbind_Inr)
  have "R x" using soundD [OF assms(1) m *(1)] s *(3) by simp
  then show "Q y" using soundD [OF assms(2) m *(2)] s *(3) by simp
qed

lemma sound_ns: "sound w g Q \<Longrightarrow> sound w (ns name g) Q"
  unfolding sound_def ns_def by (auto split: prod.splits)

lemma sound_sassert: "(b \<Longrightarrow> Q ()) \<Longrightarrow> sound w (sassert b) Q"
  by (simp add: sassert_def sound_sret sound_sfail)

lemma sound_of_result: "(\<And>x. r = Inr x \<Longrightarrow> Q x) \<Longrightarrow> sound w (of_result r) Q"
  by (simp add: sound_def of_result_def)

lemma sound_witness: "Q False \<Longrightarrow> sound w is_witness_generator Q"
  by (simp add: sound_def is_witness_generator_def)

lemma sound_unless_witness: "sound w (k False) Q \<Longrightarrow> sound w (sbind is_witness_generator k) Q"
  by (rule sound_sbind [OF sound_witness [where Q = "\<lambda>b. \<not> b"]]) auto

lemma sound_extend_aux: "Q () \<Longrightarrow> sound w (extend_aux vs) Q"
  by (simp add: sound_def extend_aux_def)

lemma sound_enforce: "sound w (enforce name a b c) (\<lambda>_. ev w a * ev w b = ev w c)"
  by (auto simp: sound_def enforce_def Let_def)

lemma sound_smap:
  assumes "\<And>x. x \<in> set xs \<Longrightarrow> sound w (f x) (R x)"
  shows "sound w (smap f xs) (list_all2 R xs)"
  using assms
proof (induction xs)
  case (Cons x xs)
  have "sound w (smap f xs) (list_all2 R xs)" using Cons by simp
  moreover have "sound w (f x) (R x)" using Cons by simp
  ultimately show ?case by (auto intro!: sound_sbind sound_sret)
qed (simp add: sound_sret)

lemma sound_sfold:
  assumes "I 0 s" "\<And>i s. i < length xs \<Longrightarrow> I i s \<Longrightarrow> sound w (f (xs ! i) s) (I (Suc i))"
  shows "sound w (sfold f xs s) (I (length xs))"
  using assms
proof (induction xs arbitrary: s I)
  case (Cons x xs)
  have "sound w (f x s) (I (Suc 0))" using Cons.prems(2) [of 0 s] Cons.prems(1) by simp
  moreover have "sound w (sfold f xs s') (I (length (x # xs)))" if "I (Suc 0) s'" for s'
    using Cons.IH [of "\<lambda>i. I (Suc i)" s'] that Cons.prems(2) [of "Suc i" for i] by simp
  ultimately show ?case by (auto intro: sound_sbind)
qed (simp add: sound_sret)

text \<open>What the rules rely on: an allocated bit is zero or one. It holds the index of its variable, so its size is at least that of one.\<close>

definition bellpepper_sound :: "'f::field bellpepper \<Rightarrow> bool" where
  "bellpepper_sound L \<longleftrightarrow> 8 \<le> bit_size L \<and>
     (\<forall>w v. assignment w \<longrightarrow> sound w (alloc_bit L v) (\<lambda>b. ev w (bool_lc b) = 0 \<or> ev w (bool_lc b) = 1))"

section \<open>Public inputs\<close>

text \<open>
  The verifier names the public values, so their places matter. \<open>keeps g\<close> says that \<open>g\<close> allocates
  none, and \<open>sound_at w i g j Q\<close> that the rules of \<open>g\<close>, run where \<open>i\<close> inputs are allocated, force \<open>Q\<close>
  of its result and leave \<open>j\<close> inputs. \<open>bellpepper_inputs\<close> is what the code relies on of the crate: a
  public input takes the next place, and nothing else takes one.
\<close>

named_theorems keeps_intros

definition keeps :: "('a, 'f) synth \<Rightarrow> bool" where
  "keeps g \<longleftrightarrow> (\<forall>m cs x cs' rs. g m cs = (Inr x, cs', rs) \<longrightarrow> length (inputs cs') = length (inputs cs))"

definition sound_at :: "(var \<Rightarrow> 'f::field) \<Rightarrow> nat \<Rightarrow> ('a, 'f) synth \<Rightarrow> nat \<Rightarrow> ('a \<Rightarrow> bool) \<Rightarrow> bool" where
  "sound_at w i g j Q \<longleftrightarrow>
     (\<forall>m cs x cs' rs. m \<noteq> Witness \<longrightarrow> length (inputs cs) = i \<longrightarrow> g m cs = (Inr x, cs', rs) \<longrightarrow>
        satisfied w rs \<longrightarrow> length (inputs cs') = j \<and> Q x)"

definition bellpepper_inputs :: "'f::field bellpepper \<Rightarrow> bool" where
  "bellpepper_inputs L \<longleftrightarrow>
     (\<forall>v. keeps (alloc_bit L v)) \<and> (\<forall>v. keeps (alloc_num L v)) \<and>
     (\<forall>w v i. sound_at w i (alloc_input_num L v) (Suc i) (\<lambda>n. num_var n = Input i))"

lemma keepsI:
  "(\<And>m cs x cs' rs. g m cs = (Inr x, cs', rs) \<Longrightarrow> length (inputs cs') = length (inputs cs)) \<Longrightarrow> keeps g"
  by (simp add: keeps_def)

lemma keeps_basic [keeps_intros]:
  "keeps (sret y)" "keeps (sfail e)" "keeps (sassert t)" "keeps (of_result r)" "keeps is_witness_generator"
  "keeps (extend_aux vs)" "keeps (alloc f)" "keeps (enforce name a b c)"
  by (auto simp: keeps_def sret_def sfail_def sassert_def of_result_def is_witness_generator_def extend_aux_def
      alloc_def enforce_def Let_def split: if_splits sum.splits)

lemma keeps_sbind [keeps_intros]:
  assumes "keeps g" "\<And>x. keeps (k x)"
  shows "keeps (sbind g k)"
proof (rule keepsI)
  fix m cs x cs' rs assume "sbind g k m cs = (Inr x, cs', rs)"
  then obtain y cs1 rs1 rs2 where "g m cs = (Inr y, cs1, rs1)" "k y m cs1 = (Inr x, cs', rs2)"
    by (auto simp: sbind_Inr)
  then show "length (inputs cs') = length (inputs cs)" using assms by (metis keeps_def)
qed

lemma keeps_ns [keeps_intros]: "keeps g \<Longrightarrow> keeps (ns name g)"
  unfolding keeps_def ns_def by (fastforce split: prod.splits)

lemma keeps_if [keeps_intros]: "keeps g \<Longrightarrow> keeps h \<Longrightarrow> keeps (if b then g else h)"
  by simp

lemma keeps_option [keeps_intros]: "keeps g \<Longrightarrow> (\<And>x. keeps (h x)) \<Longrightarrow> keeps (case o' of None \<Rightarrow> g | Some x \<Rightarrow> h x)"
  by (cases o') auto

lemma keeps_prod [keeps_intros]: "(\<And>x y. keeps (h x y)) \<Longrightarrow> keeps (case p of (x, y) \<Rightarrow> h x y)"
  by (cases p) auto

lemma keeps_smap [keeps_intros]: "(\<And>x. keeps (f x)) \<Longrightarrow> keeps (smap f xs)"
  by (induction xs) (auto intro: keeps_intros)

lemma keeps_sfold [keeps_intros]: "(\<And>x s. keeps (f x s)) \<Longrightarrow> keeps (sfold f xs s)"
  by (induction xs arbitrary: s) (auto intro: keeps_intros)

lemma sound_atI:
  "(\<And>m cs x cs' rs. m \<noteq> Witness \<Longrightarrow> length (inputs cs) = i \<Longrightarrow> g m cs = (Inr x, cs', rs) \<Longrightarrow> satisfied w rs \<Longrightarrow>
      length (inputs cs') = j \<and> Q x) \<Longrightarrow> sound_at w i g j Q"
  by (simp add: sound_at_def)

lemma sound_atD:
  "sound_at w i g j Q \<Longrightarrow> m \<noteq> Witness \<Longrightarrow> length (inputs cs) = i \<Longrightarrow> g m cs = (Inr x, cs', rs) \<Longrightarrow> satisfied w rs \<Longrightarrow>
    length (inputs cs') = j \<and> Q x"
  by (simp add: sound_at_def)

lemma sound_at_keeps: "sound w g Q \<Longrightarrow> keeps g \<Longrightarrow> sound_at w i g i Q"
  unfolding sound_at_def sound_def keeps_def by blast

lemma sound_at_mono: "sound_at w i g j Q \<Longrightarrow> (\<And>x. Q x \<Longrightarrow> R x) \<Longrightarrow> sound_at w i g j R"
  by (fastforce simp: sound_at_def)

lemma sound_at_sret: "Q x \<Longrightarrow> sound_at w i (sret x) i Q"
  by (simp add: sound_at_def sret_def)

lemma sound_at_sbind:
  assumes "sound_at w i g j R" "\<And>x. R x \<Longrightarrow> sound_at w j (k x) l Q"
  shows "sound_at w i (sbind g k) l Q"
proof (rule sound_atI)
  fix m cs y cs'' rs assume m: "m \<noteq> Witness" and i: "length (inputs cs) = i"
    and run: "sbind g k m cs = (Inr y, cs'', rs)" and s: "satisfied w rs"
  from run obtain x cs' rs1 rs2 where *: "g m cs = (Inr x, cs', rs1)" "k x m cs' = (Inr y, cs'', rs2)"
    "rs = rs1 @ rs2" by (auto simp: sbind_Inr)
  have "length (inputs cs') = j \<and> R x" using sound_atD [OF assms(1) m i *(1)] s *(3) by simp
  then show "length (inputs cs'') = l \<and> Q y" using sound_atD [OF assms(2) m _ *(2)] s *(3) by simp
qed

lemma sound_at_ns: "sound_at w i g j Q \<Longrightarrow> sound_at w i (ns name g) j Q"
proof (rule sound_atI)
  fix m cs x cs' rs assume g: "sound_at w i g j Q" "m \<noteq> Witness" "length (inputs cs) = i"
    and run: "ns name g m cs = (Inr x, cs', rs)" "satisfied w rs"
  have "length (inputs (cs\<lparr>path := path cs @ [name]\<rparr>)) = i" using g(3) by simp
  note inner = sound_atD [OF g(1,2) this]
  show "length (inputs cs') = j \<and> Q x"
    using run inner by (auto simp: ns_def split: prod.splits)
qed

lemma sound_at_smap_inputs:
  assumes "\<And>x i. sound_at w i (f x) (Suc i) (\<lambda>n. num_var n = Input i)"
  shows "sound_at w i (smap f xs) (i + length xs) (\<lambda>ns. map num_var ns = map Input [i..<i + length xs])"
  using assms
proof (induction xs arbitrary: i)
  case (Cons x xs)
  have rest: "sound_at w (Suc i) (smap f xs) (Suc i + length xs) (\<lambda>ns. map num_var ns = map Input [Suc i..<Suc i + length xs])"
    using Cons by blast
  have "[i..<i + length (x # xs)] = i # [Suc i..<Suc i + length xs]" by (subst upt_conv_Cons) simp_all
  then show ?case
    unfolding smap.simps
    by (intro sound_at_sbind [OF Cons.prems] sound_at_sbind [OF rest, THEN sound_at_mono])
       (auto intro: sound_at_sret simp del: upt_Suc)
qed (simp add: sound_at_sret)

section \<open>Weighted sums\<close>

record 'f Lc =
  terms :: "'f lincomb"
  val :: "'f option"

abbreviation lcv :: "(var \<Rightarrow> 'f::field) \<Rightarrow> 'f Lc \<Rightarrow> 'f" where
  "lcv w a \<equiv> ev w (terms a)"

definition one :: var where "one = Input 0"

definition lc_zero :: "'f::field Lc" where
  "lc_zero = \<lparr>terms = [], val = Some 0\<rparr>"

definition lc_constant :: "'f::field \<Rightarrow> 'f Lc" where
  "lc_constant c = \<lparr>terms = [(one, c)], val = Some c\<rparr>"

definition lc_small :: "nat \<Rightarrow> 'f::field Lc" where
  "lc_small c = lc_constant (of_nat c)"

definition lc_num :: "'f::field AllocatedNum \<Rightarrow> 'f Lc" where
  "lc_num n = \<lparr>terms = [(num_var n, 1)], val = num_value n\<rparr>"

definition lc_bit :: "'f::field Boolean \<Rightarrow> 'f Lc" where
  "lc_bit b = \<lparr>terms = bool_lc b, val = map_option of_bool (bool_value b)\<rparr>"

definition lc_alloc :: "'f option \<Rightarrow> ('f Lc, 'f::field) synth" where
  "lc_alloc v = sbind (alloc (ok_or AssignmentMissing v)) (\<lambda>x. sret \<lparr>terms = [(x, 1)], val = v\<rparr>)"

definition lc_scale :: "'f::field Lc \<Rightarrow> 'f \<Rightarrow> 'f Lc" where
  "lc_scale a c = \<lparr>terms = map (\<lambda>(v, d). (v, c * d)) (terms a), val = map_option (\<lambda>v. v * c) (val a)\<rparr>"

text \<open>\<open>val\<close> of \<open>lc.rs\<close> for two, three and four values.\<close>

definition val2 :: "'f option \<Rightarrow> 'f option \<Rightarrow> ('f \<Rightarrow> 'f \<Rightarrow> 'f) \<Rightarrow> 'f option" where
  "val2 a b f = (case a of None \<Rightarrow> None | Some x \<Rightarrow> map_option (f x) b)"

definition val3 :: "'f option \<Rightarrow> 'f option \<Rightarrow> 'f option \<Rightarrow> ('f \<Rightarrow> 'f \<Rightarrow> 'f \<Rightarrow> 'f) \<Rightarrow> 'f option" where
  "val3 a b c f = (case a of None \<Rightarrow> None | Some x \<Rightarrow> val2 b c (f x))"

definition val4 :: "'f option \<Rightarrow> 'f option \<Rightarrow> 'f option \<Rightarrow> 'f option \<Rightarrow> ('f \<Rightarrow> 'f \<Rightarrow> 'f \<Rightarrow> 'f \<Rightarrow> 'f) \<Rightarrow> 'f option" where
  "val4 a b c d f = (case a of None \<Rightarrow> None | Some x \<Rightarrow> val3 b c d (f x))"

definition lc_add :: "'f::field Lc \<Rightarrow> 'f Lc \<Rightarrow> 'f Lc" where
  "lc_add a b = \<lparr>terms = terms a @ terms b, val = val2 (val a) (val b) (+)\<rparr>"

definition lc_sub :: "'f::field Lc \<Rightarrow> 'f Lc \<Rightarrow> 'f Lc" where
  "lc_sub a b = \<lparr>terms = terms a @ map (\<lambda>(v, d). (v, - d)) (terms b), val = val2 (val a) (val b) (-)\<rparr>"

lemma ev_simps [simp]:
  "ev w [] = 0" "ev w ((v, c) # l) = c * w v + ev w l" "ev w (l @ l') = ev w l + ev w l'"
  by (simp_all add: ev_def)

lemma ev_scale [simp]: "ev w (map (\<lambda>(v, d). (v, c * d)) l) = c * ev w l"
  by (induction l) (auto simp: algebra_simps)

lemma ev_neg [simp]: "ev w (map (\<lambda>(v, d). (v, - d)) l) = - ev w l"
  by (induction l) auto

lemma lcv_simps [simp]:
  "lcv w lc_zero = 0" "lcv w (lc_add a b) = lcv w a + lcv w b" "lcv w (lc_sub a b) = lcv w a - lcv w b"
  "lcv w (lc_scale a c) = c * lcv w a" "lcv w (lc_bit bo) = ev w (bool_lc bo)" "lcv w (lc_num n) = w (num_var n)"
  by (simp_all add: lc_zero_def lc_add_def lc_sub_def lc_scale_def lc_bit_def lc_num_def)

lemma lcv_constant [simp]: "assignment w \<Longrightarrow> lcv w (lc_constant c) = c"
  by (simp add: lc_constant_def assignment_def one_def)

lemma lcv_small [simp]: "assignment w \<Longrightarrow> lcv w (lc_small c) = of_nat c"
  by (simp add: lc_small_def)

section \<open>The basic rules\<close>

definition product :: "'f::field Lc \<Rightarrow> 'f Lc \<Rightarrow> 'f Lc \<Rightarrow> (unit, 'f) synth" where
  "product a b c = enforce ''product'' (terms a) (terms b) (terms c)"

definition equal :: "'f::field Lc \<Rightarrow> 'f Lc \<Rightarrow> (unit, 'f) synth" where
  "equal a b = enforce ''equal'' (terms (lc_sub a b)) [(one, 1)] []"

definition mul :: "'f::field Lc \<Rightarrow> 'f Lc \<Rightarrow> ('f Lc, 'f) synth" where
  "mul a b =
     sbind (ns ''value'' (lc_alloc (val2 (val a) (val b) (*)))) (\<lambda>c.
     sbind (ns ''rule'' (product a b c)) (\<lambda>_. sret c))"

definition mux :: "'f::field Lc \<Rightarrow> 'f Lc \<Rightarrow> 'f Lc \<Rightarrow> ('f Lc, 'f) synth" where
  "mux b if0 if1 =
     sbind (ns ''value'' (lc_alloc (val3 (val b) (val if0) (val if1) (\<lambda>b x y. x + b * (y - x))))) (\<lambda>out.
     sbind (ns ''rule'' (product b (lc_sub if1 if0) (lc_sub out if0))) (\<lambda>_. sret out))"

definition nonzero :: "'f::field Lc \<Rightarrow> (unit, 'f) synth" where
  "nonzero a =
     sbind (ns ''inverse'' (lc_alloc (map_option inverse (val a)))) (\<lambda>i.
     ns ''rule'' (product a i (lc_constant 1)))"

definition to_num :: "'f::field bellpepper \<Rightarrow> 'f Lc \<Rightarrow> ('f AllocatedNum, 'f) synth" where
  "to_num L a =
     sbind (ns ''value'' (alloc_num L (ok_or AssignmentMissing (val a)))) (\<lambda>n.
     sbind (ns ''rule'' (equal (lc_num n) a)) (\<lambda>_. sret n))"

lemma sound_product: "sound w (product a b c) (\<lambda>_. lcv w a * lcv w b = lcv w c)"
  unfolding product_def by (rule sound_enforce)

lemma sound_equal: "assignment w \<Longrightarrow> sound w (equal a b) (\<lambda>_. lcv w a = lcv w b)"
  unfolding equal_def by (rule sound_mono [OF sound_enforce]) (simp add: assignment_def one_def)

lemma sound_mul: "sound w (mul a b) (\<lambda>c. lcv w c = lcv w a * lcv w b)"
  unfolding mul_def
  by (rule sound_sbind [OF sound_True], rule sound_sbind [OF sound_ns [OF sound_product]])
     (simp add: sound_sret)

lemma sound_mux:
  assumes "lcv w b = 0 \<or> lcv w b = 1"
  shows "sound w (mux b if0 if1) (\<lambda>c. lcv w c = (if lcv w b = 1 then lcv w if1 else lcv w if0))"
  unfolding mux_def
  by (rule sound_sbind [OF sound_True], rule sound_sbind [OF sound_ns [OF sound_product]], rule sound_sret)
     (use assms in \<open>auto simp: algebra_simps\<close>)

lemma sound_nonzero: "assignment w \<Longrightarrow> sound w (nonzero a) (\<lambda>_. lcv w a \<noteq> 0)"
  unfolding nonzero_def
  by (rule sound_sbind [OF sound_True], rule sound_ns, rule sound_mono [OF sound_product])
     (metis lcv_constant mult_zero_left zero_neq_one)

lemma sound_to_num: "assignment w \<Longrightarrow> sound w (to_num L a) (\<lambda>n. w (num_var n) = lcv w a)"
  unfolding to_num_def
  by (rule sound_sbind [OF sound_True], rule sound_sbind [OF sound_ns [OF sound_equal]])
     (simp_all add: sound_sret)

section \<open>An instance of the crate's interface\<close>

text \<open>
  The interface can be met: a bit is a new variable \<open>b\<close> with the rule \<open>(1 - b) * b = 0\<close>, a number a
  new variable.
\<close>

definition plain_alloc_bit :: "bool option \<Rightarrow> ('f Boolean, 'f::field) synth" where
  "plain_alloc_bit v =
     sbind (alloc (ok_or AssignmentMissing (map_option of_bool v))) (\<lambda>x.
     sbind (enforce ''boolean constraint'' [(one, 1), (x, -1)] [(x, 1)] []) (\<lambda>_.
     sret \<lparr>bool_lc = [(x, 1)], bool_value = v\<rparr>))"

definition plain_bellpepper :: "'f::field bellpepper" where
  "plain_bellpepper =
     \<lparr>alloc_bit = plain_alloc_bit,
      alloc_num = (\<lambda>v. sbind (alloc v) (\<lambda>x. sret \<lparr>num_var = x, num_value = (case v of Inl _ \<Rightarrow> None | Inr y \<Rightarrow> Some y)\<rparr>)),
      alloc_input_num = (\<lambda>v. sbind (alloc_input v) (\<lambda>x.
        sret \<lparr>num_var = x, num_value = (case v of Inl _ \<Rightarrow> None | Inr y \<Rightarrow> Some y)\<rparr>)),
      bit_size = 24\<rparr>"

lemma plain_bellpepper_sound: "bellpepper_sound plain_bellpepper"
proof -
  have "sound w (plain_alloc_bit v) (\<lambda>b. ev w (bool_lc b) = 0 \<or> ev w (bool_lc b) = 1)" if "assignment w"
    for w :: "var \<Rightarrow> 'a::field" and v
    unfolding plain_alloc_bit_def
  proof (rule sound_sbind [OF sound_True], rule sound_sbind [OF sound_enforce])
    fix x assume "ev w [(one, 1), (x, - 1)] * ev w [(x, 1)] = ev w []"
    then have "w x = 0 \<or> w x = 1" using that by (auto simp: assignment_def one_def)
    then show "sound w (sret \<lparr>bool_lc = [(x, 1)], bool_value = v\<rparr>) (\<lambda>b. ev w (bool_lc b) = 0 \<or> ev w (bool_lc b) = 1)"
      by (intro sound_sret) simp
  qed
  then show ?thesis by (simp add: bellpepper_sound_def plain_bellpepper_def)
qed

lemma plain_bellpepper_inputs: "bellpepper_inputs plain_bellpepper"
proof -
  have "sound_at w i (alloc_input v) (Suc i) (\<lambda>x. x = Input i)" for w :: "var \<Rightarrow> 'a::field" and i v
    by (auto simp: sound_at_def alloc_input_def split: if_splits sum.splits)
  note input = sound_at_sbind [OF this]
  have "keeps (plain_alloc_bit v)" for v :: "bool option" unfolding plain_alloc_bit_def by (intro keeps_intros)
  then show ?thesis
    by (auto simp: bellpepper_inputs_def plain_bellpepper_def keeps_sbind keeps_basic intro!: input sound_at_sret)
qed

lemma keeps_bellpepper [keeps_intros]:
  assumes "bellpepper_inputs L"
  shows "keeps (alloc_bit L b)" "keeps (alloc_num L v)"
  using assms by (simp_all add: bellpepper_inputs_def)

lemma sound_at_input:
  "bellpepper_inputs L \<Longrightarrow> sound_at w i (alloc_input_num L v) (Suc i) (\<lambda>n. num_var n = Input i)"
  by (simp add: bellpepper_inputs_def)

lemma keeps_lc [keeps_intros]:
  "keeps (lc_alloc v)" "keeps (product a b c)" "keeps (equal a b)" "keeps (mul a b)" "keeps (mux a b c)" "keeps (nonzero a)"
  unfolding lc_alloc_def product_def equal_def mul_def mux_def nonzero_def by (intro keeps_intros)+

lemma keeps_to_num [keeps_intros]: "bellpepper_inputs L \<Longrightarrow> keeps (to_num L a)"
  unfolding to_num_def by (intro keeps_intros)

lemmas synth_simps = sbind_def sret_def sfail_def ns_def alloc_def enforce_def lc_alloc_def sassert_def
  plain_bellpepper_def plain_alloc_bit_def product_def equal_def mul_def mux_def nonzero_def to_num_def
  is_witness_generator_def

end
