(* ===== verification/Bits.thy ===== *)
theory Bits
  imports Circuit
begin

text \<open>
  Bits, bytes and comparisons inside the rules (\<open>gadgets/bits.rs\<close>). Bit lists have the most
  significant bit first. \<open>bin_val\<close> is the integer of a bit list and \<open>bytes_are w as bs\<close> says that
  the sums \<open>as\<close> hold the bytes \<open>bs\<close> under the assignment \<open>w\<close>. The lemmas \<open>sound_bits\<close>,
  \<open>sound_less_than\<close> and \<open>sound_expect\<close> say what the rules force.
\<close>

section \<open>The gadgets\<close>

definition le_bits :: "('f::field \<Rightarrow> nat) \<Rightarrow> 'f \<Rightarrow> bool list" where
  "le_bits repr x = concat (map (\<lambda>b. map (bit b) [0..<8]) (rev (to_be repr x)))"

definition be_bits :: "bytes \<Rightarrow> bool list" where
  "be_bits bs = concat (map (\<lambda>b. map (bit b) (rev [0..<8])) bs)"

definition small_bits :: "nat \<Rightarrow> nat \<Rightarrow> bool list" where
  "small_bits v n = map (bit v) (rev [0..<n])"

definition alloc_bits :: "'f::field bellpepper \<Rightarrow> bool list option \<Rightarrow> nat \<Rightarrow> ('f Boolean list, 'f) synth" where
  "alloc_bits L bs n =
     smap (\<lambda>i. ns (''bit '' @ show_nat i) (alloc_bit L (map_option (\<lambda>b. b ! i) bs))) [0..<n]"

definition pack :: "'f::field Boolean list \<Rightarrow> 'f Lc" where
  "pack bs = fst (fold (\<lambda>b (sum, weight). (lc_add sum (lc_scale (lc_bit b) weight), weight + weight))
     (rev bs) (lc_zero, 1))"

definition bits :: "'f::field bellpepper \<Rightarrow> ('f \<Rightarrow> nat) \<Rightarrow> 'f Lc \<Rightarrow> nat \<Rightarrow> ('f Boolean list, 'f) synth" where
  "bits L repr x n =
     sbind (sassert (n < NUM_BITS)) (\<lambda>_.
     sbind (ns ''bits'' (alloc_bits L (map_option (\<lambda>v. map (\<lambda>i. le_bits repr v ! i) (rev [0..<n])) (val x)) n)) (\<lambda>bs.
     sbind (ns ''reassemble'' (equal (pack bs) x)) (\<lambda>_. sret bs)))"

definition digest_bits ::
  "'f::field bellpepper \<Rightarrow> ('f \<Rightarrow> nat) \<Rightarrow> 'f Lc \<Rightarrow> 'f Lc \<Rightarrow> ('f Boolean list, 'f) synth" where
  "digest_bits L repr high low =
     sbind (ns ''high half'' (bits L repr high 128)) (\<lambda>out.
     sbind (ns ''low half'' (bits L repr low 128)) (\<lambda>more. sret (out @ more)))"

definition range_check :: "'f::field bellpepper \<Rightarrow> ('f \<Rightarrow> nat) \<Rightarrow> 'f Lc \<Rightarrow> nat \<Rightarrow> (unit, 'f) synth" where
  "range_check L repr x n = sbind (bits L repr x n) (\<lambda>_. sret ())"

definition less_step ::
  "nat \<times> 'f::field Boolean \<times> bool \<Rightarrow> 'f Lc \<times> 'f Lc \<Rightarrow> ('f Lc \<times> 'f Lc, 'f) synth" where
  "less_step = (\<lambda>(i, b, c_bit) (equal_so_far, lt).
     ns (''bit '' @ show_nat i)
      (if c_bit then
         sbind (ns ''agree at one'' (mul equal_so_far (lc_bit b))) (\<lambda>still.
           sret (still, lc_add lt (lc_sub equal_so_far still)))
       else
         sbind (ns ''agree at zero'' (mul equal_so_far (lc_sub (lc_constant 1) (lc_bit b)))) (\<lambda>e.
           sret (e, lt))))"

definition less_than :: "'f::field Boolean list \<Rightarrow> bytes \<Rightarrow> (unit, 'f) synth" where
  "less_than bs c =
     sbind (sassert (length bs = length (be_bits c))) (\<lambda>_.
     sbind (sfold less_step (zip [0..<length bs] (zip bs (be_bits c))) (lc_constant 1, lc_zero)) (\<lambda>(_, lt).
     ns ''less'' (equal lt (lc_constant 1))))"

definition less_than_values :: "'f::field list \<Rightarrow> bool list \<Rightarrow> bytes \<Rightarrow> 'f list" where
  "less_than_values vs bs c =
     fst (fold (\<lambda>(b, c_bit) (vs, equal_so_far).
       let e = (equal_so_far \<and> b = c_bit) in (values_bit vs e, e)) (zip bs (be_bits c)) (vs, True))"

definition bytes_of_bits :: "'f::field Boolean list \<Rightarrow> 'f Lc list" where
  "bytes_of_bits bs = map pack (chunks 8 bs)"

definition pack_bytes :: "'f::field Lc list \<Rightarrow> 'f Lc" where
  "pack_bytes bs = fst (fold (\<lambda>b (sum, weight). (lc_add sum (lc_scale b weight), weight * 256))
     (rev bs) (lc_zero, 1))"

definition expect :: "'f::field Lc list \<Rightarrow> bytes \<Rightarrow> (unit, 'f) synth" where
  "expect bs pattern =
     sbind (sassert (length bs = length pattern)) (\<lambda>_.
     sbind (smap (\<lambda>(i, grp, constant).
         ns (''bytes from '' @ show_nat (16 * i)) (equal (pack_bytes grp) (lc_constant (from_be constant))))
       (zip [0..<length (chunks 16 bs)] (zip (chunks 16 bs) (chunks 16 pattern)))) (\<lambda>_. sret ()))"

definition decimal :: "'f::field Lc list \<Rightarrow> 'f Lc" where
  "decimal digits = fst (fold (\<lambda>digit (sum, weight).
       (lc_add sum (lc_scale (lc_sub digit (lc_small 48)) weight), weight * 10))
     (rev digits) (lc_zero, 1))"

section \<open>Integers of bits and bytes\<close>

definition bin_val :: "bool list \<Rightarrow> nat" where
  "bin_val bs = foldl (\<lambda>v b. 2 * v + of_bool b) 0 bs"

lemma bin_val_Nil [simp]: "bin_val [] = 0"
  by (simp add: bin_val_def)

lemma bin_val_snoc [simp]: "bin_val (bs @ [b]) = 2 * bin_val bs + of_bool b"
  by (simp add: bin_val_def)

lemma bin_val_append: "bin_val (as @ bs) = bin_val as * 2 ^ length bs + bin_val bs"
proof (induction bs rule: rev_induct)
  case (snoc b bs)
  have "bin_val ((as @ bs) @ [b]) = 2 * bin_val (as @ bs) + of_bool b" by (rule bin_val_snoc)
  then show ?case using snoc by (simp add: algebra_simps)
qed simp

lemma bin_val_Cons: "bin_val (b # bs) = of_bool b * 2 ^ length bs + bin_val bs"
  using bin_val_append [of "[b]" bs] bin_val_snoc [of "[]" b] by simp

lemma bin_val_less: "bin_val bs < 2 ^ length bs"
proof (induction bs rule: rev_induct)
  case (snoc b bs)
  have "of_bool b \<le> (1::nat)" by simp
  then show ?case using snoc by simp
qed simp

lemma bin_val_inj: "length as = length bs \<Longrightarrow> bin_val as = bin_val bs \<Longrightarrow> as = bs"
proof (induction as arbitrary: bs rule: rev_induct)
  case (snoc a as)
  then obtain b bs' where bs: "bs = bs' @ [b]" by (cases bs rule: rev_cases) auto
  then have "2 * bin_val as + of_bool a = 2 * bin_val bs' + (of_bool b :: nat)" using snoc.prems by simp
  then have "bin_val as = bin_val bs' \<and> a = b" by (cases a; cases b; simp) presburger+
  then show ?case using snoc bs by simp
qed simp

lemma bin_val_small_bits: "bin_val (small_bits v n) = v mod 2 ^ n"
proof (induction n)
  case (Suc n)
  have "small_bits v (Suc n) = bit v n # small_bits v n" by (simp add: small_bits_def)
  then have "bin_val (small_bits v (Suc n)) = of_bool (bit v n) * 2 ^ n + v mod 2 ^ n"
    using Suc by (simp add: bin_val_Cons) (simp add: small_bits_def)
  also have "\<dots> = take_bit (Suc n) v"
    using take_bit_Suc_from_most [of n v] by (simp add: take_bit_eq_mod)
  finally show ?case by (simp add: take_bit_eq_mod)
qed (simp add: small_bits_def)

lemma length_small_bits [simp]: "length (small_bits v n) = n"
  by (simp add: small_bits_def)

lemma byte_bits_small: "map (bit (b :: byte)) (rev [0..<8]) = small_bits (unat b) 8"
  by (simp add: small_bits_def bit_unsigned_iff)

lemma length_be_bits [simp]: "length (be_bits bs) = 8 * length bs"
  by (induction bs) (simp_all add: be_bits_def)

lemma bin_val_be_bits: "bin_val (be_bits bs) = be_val bs"
proof (induction bs rule: rev_induct)
  case (snoc b bs)
  have "be_bits (bs @ [b]) = be_bits bs @ small_bits (unat b) 8"
    using byte_bits_small [of b] by (simp add: be_bits_def del: upt_rec_numeral)
  then show ?case using snoc by (simp add: bin_val_append bin_val_small_bits)
qed (simp add: be_bits_def)

lemma le_bits_nth:
  assumes "scalar_repr repr" "i < 256"
  shows "le_bits repr x ! i \<longleftrightarrow> bit (repr x) i"
proof -
  have len: "length (concat (map (\<lambda>b. map (bit b) [0..<8]) bs)) = 8 * length bs" for bs :: bytes
    by (induction bs) simp_all
  have nth: "concat (map (\<lambda>b. map (bit b) [0..<8]) bs) ! i = bit (bs ! (i div 8)) (i mod 8)"
    if "i < 8 * length bs" for i and bs :: bytes
    using that
  proof (induction bs arbitrary: i)
    case (Cons b bs)
    show ?case
    proof (cases "i < 8")
      case False
      then have "i div 8 = Suc ((i - 8) div 8)" "i mod 8 = (i - 8) mod 8" by (simp_all add: le_div_geq le_mod_geq)
      then show ?thesis using Cons False by (simp add: nth_append del: upt_rec_numeral)
    qed (simp add: nth_append del: upt_rec_numeral)
  qed simp
  show ?thesis
    using assms nth [of i "rev (to_be repr x)"] bit_be_bytes [of i 32 "repr x"]
    by (simp add: le_bits_def to_be_def)
qed

text \<open>The bytes of a bit list, eight bits each.\<close>

definition bits_bytes :: "bool list \<Rightarrow> bytes" where
  "bits_bytes bs = map (\<lambda>c. word_of_nat (bin_val c)) (chunks 8 bs)"

lemma be_val_bits_bytes: "length bs = 8 * n \<Longrightarrow> be_val (bits_bytes bs) = bin_val bs \<and> length (bits_bytes bs) = n"
proof (induction n arbitrary: bs)
  case (Suc n)
  define a rest where "a = take 8 bs" and "rest = drop 8 bs"
  have bs: "bs = a @ rest" "length a = 8" "length rest = 8 * n"
    using Suc.prems by (simp_all add: a_def rest_def)
  have "bin_val a < 256" using bin_val_less [of a] bs(2) by simp
  then have "unat (word_of_nat (bin_val a) :: byte) = bin_val a" by (simp add: unat_of_nat)
  moreover have "bits_bytes bs = word_of_nat (bin_val a) # bits_bytes rest"
    using bs by (simp add: bits_bytes_def chunks_append)
  ultimately show ?case
    using Suc.IH [OF bs(3)] bs by (simp add: be_val_Cons bin_val_append power_mult)
qed (simp add: bits_bytes_def)

section \<open>What the rules force\<close>

definition is_bit :: "(var \<Rightarrow> 'f::field) \<Rightarrow> 'f Boolean \<Rightarrow> bool" where
  "is_bit w b \<longleftrightarrow> ev w (bool_lc b) = 0 \<or> ev w (bool_lc b) = 1"

definition bval :: "(var \<Rightarrow> 'f::field) \<Rightarrow> 'f Boolean \<Rightarrow> bool" where
  "bval w b \<longleftrightarrow> ev w (bool_lc b) = 1"

abbreviation bvals :: "(var \<Rightarrow> 'f::field) \<Rightarrow> 'f Boolean list \<Rightarrow> bool list" where
  "bvals w bs \<equiv> map (bval w) bs"

definition bytes_are :: "(var \<Rightarrow> 'f::field) \<Rightarrow> 'f Lc list \<Rightarrow> bytes \<Rightarrow> bool" where
  "bytes_are w as bs = list_all2 (\<lambda>a b. lcv w a = of_nat (unat b)) as bs"

lemma is_bit_of_bool: "is_bit w b \<Longrightarrow> ev w (bool_lc b) = of_bool (bval w b)"
  by (auto simp: is_bit_def bval_def)

lemma sound_alloc_bit:
  "bellpepper_sound L \<Longrightarrow> assignment w \<Longrightarrow> sound w (alloc_bit L v) (is_bit w)"
  unfolding bellpepper_sound_def is_bit_def by blast

lemma sound_alloc_bits:
  assumes "bellpepper_sound L" "assignment w"
  shows "sound w (alloc_bits L v n) (\<lambda>bs. length bs = n \<and> list_all (is_bit w) bs)"
proof -
  have "sound w (alloc_bits L v n) (list_all2 (\<lambda>_. is_bit w) [0..<n])"
    unfolding alloc_bits_def by (intro sound_smap sound_ns sound_alloc_bit assms)
  then show ?thesis
    by (rule sound_mono) (auto simp: list_all2_conv_all_nth list_all_length)
qed

lemma pack_weights:
  "list_all (is_bit w) bs \<Longrightarrow>
    lcv w (fst (fold (\<lambda>b (sum, weight). (lc_add sum (lc_scale (lc_bit b) weight), weight + weight)) bs (s, c)))
      = lcv w s + c * of_nat (bin_val (rev (bvals w bs)))"
proof (induction bs arbitrary: s c)
  case (Cons b bs)
  then show ?case by (simp add: is_bit_of_bool bin_val_append bin_val_Cons algebra_simps)
qed simp

lemma lcv_pack: "list_all (is_bit w) bs \<Longrightarrow> lcv w (pack bs) = of_nat (bin_val (bvals w bs))"
  using pack_weights [of w "rev bs" lc_zero 1] by (simp add: pack_def rev_map)

lemma sound_bits:
  assumes "bellpepper_sound L" "assignment w"
  shows "sound w (bits L repr x n)
    (\<lambda>bs. n < NUM_BITS \<and> length bs = n \<and> list_all (is_bit w) bs \<and> lcv w x = of_nat (bin_val (bvals w bs)))"
  unfolding bits_def
proof (rule sound_sbind [OF sound_sassert], assumption)
  assume n: "n < NUM_BITS"
  show "sound w (sbind (ns ''bits'' (alloc_bits L v n)) (\<lambda>bs. sbind (ns ''reassemble'' (equal (pack bs) x)) (\<lambda>_. sret bs)))
    (\<lambda>bs. n < NUM_BITS \<and> length bs = n \<and> list_all (is_bit w) bs \<and> lcv w x = of_nat (bin_val (bvals w bs)))" for v
    by (rule sound_sbind [OF sound_ns [OF sound_alloc_bits [OF assms]]],
        rule sound_sbind [OF sound_ns [OF sound_equal [OF assms(2)]]])
       (auto intro!: sound_sret simp: n lcv_pack)
qed

lemma sound_range_check:
  assumes "bellpepper_sound L" "assignment w"
  shows "sound w (range_check L repr x n) (\<lambda>_. \<exists>v < 2 ^ n. n < NUM_BITS \<and> lcv w x = of_nat v)"
  unfolding range_check_def
proof (rule sound_sbind [OF sound_bits [OF assms]], rule sound_sret)
  fix bs assume "n < NUM_BITS \<and> length bs = n \<and> list_all (is_bit w) bs \<and> lcv w x = of_nat (bin_val (bvals w bs))"
  then show "\<exists>v < 2 ^ n. n < NUM_BITS \<and> lcv w x = of_nat v" using bin_val_less [of "bvals w bs"] by auto
qed

lemma sound_digest_bits:
  assumes "bellpepper_sound L" "assignment w"
  shows "sound w (digest_bits L repr high low)
    (\<lambda>bs. \<exists>hi lo. bs = hi @ lo \<and> length hi = 128 \<and> length lo = 128 \<and> list_all (is_bit w) bs \<and>
      lcv w high = of_nat (bin_val (bvals w hi)) \<and> lcv w low = of_nat (bin_val (bvals w lo)))"
  unfolding digest_bits_def
  by (rule sound_sbind [OF sound_ns [OF sound_bits [OF assms]]],
      rule sound_sbind [OF sound_ns [OF sound_bits [OF assms]]], rule sound_sret) auto

subsection \<open>Comparison with a constant\<close>

lemma bin_val_less_snoc:
  assumes "length as = length bs"
  shows "bin_val (as @ [a]) < bin_val (bs @ [b]) \<longleftrightarrow> bin_val as < bin_val bs \<or> as = bs \<and> \<not> a \<and> b"
proof -
  have "bin_val as = bin_val bs \<longleftrightarrow> as = bs" using bin_val_inj [OF assms] by auto
  then show ?thesis by (cases a; cases b) auto
qed

lemma less_step_sound:
  assumes "assignment w" "length bs = length cs" "i < length cs" "is_bit w (bs ! i)"
    and "lcv w (fst st) = of_bool (take i (bvals w bs) = take i cs)"
    and "lcv w (snd st) = of_bool (bin_val (take i (bvals w bs)) < bin_val (take i cs))"
  shows "sound w (less_step (i, bs ! i, cs ! i) st) (\<lambda>st'.
    lcv w (fst st') = of_bool (take (Suc i) (bvals w bs) = take (Suc i) cs) \<and>
    lcv w (snd st') = of_bool (bin_val (take (Suc i) (bvals w bs)) < bin_val (take (Suc i) cs)))"
proof -
  obtain e lt where st: "st = (e, lt)" by (cases st)
  let ?a = "take i (bvals w bs)" and ?c = "take i cs"
  have snoc: "take (Suc i) (bvals w bs) = ?a @ [bval w (bs ! i)]" "take (Suc i) cs = ?c @ [cs ! i]"
    using assms(2,3) by (simp_all add: take_Suc_conv_app_nth)
  have len: "length ?a = length ?c" using assms(2) by simp
  have bit: "ev w (bool_lc (bs ! i)) = of_bool (bval w (bs ! i))" by (rule is_bit_of_bool [OF assms(4)])
  have ne: "\<not> (bin_val ?a < bin_val ?c \<and> ?a = ?c)" by auto
  have e: "lcv w e = of_bool (?a = ?c)" "lcv w lt = of_bool (bin_val ?a < bin_val ?c)"
    using assms(5,6) st by simp_all
  show ?thesis
  proof (cases "cs ! i")
    case True
    have "sound w (sbind (ns ''agree at one'' (mul e (lc_bit (bs ! i)))) (\<lambda>still.
        sret (still, lc_add lt (lc_sub e still)))) (\<lambda>st'.
        lcv w (fst st') = of_bool (?a = ?c \<and> bval w (bs ! i)) \<and>
        lcv w (snd st') = of_bool (bin_val ?a < bin_val ?c \<or> ?a = ?c \<and> \<not> bval w (bs ! i)))"
      by (rule sound_sbind [OF sound_ns [OF sound_mul]], rule sound_sret) (use e bit ne in auto)
    then show ?thesis
      unfolding less_step_def st snoc bin_val_less_snoc [OF len]
      by (auto intro!: sound_ns simp: True elim!: sound_mono)
  next
    case False
    have "sound w (sbind (ns ''agree at zero'' (mul e (lc_sub (lc_constant 1) (lc_bit (bs ! i))))) (\<lambda>e.
        sret (e, lt))) (\<lambda>st'.
        lcv w (fst st') = of_bool (?a = ?c \<and> \<not> bval w (bs ! i)) \<and>
        lcv w (snd st') = of_bool (bin_val ?a < bin_val ?c))"
      by (rule sound_sbind [OF sound_ns [OF sound_mul]], rule sound_sret) (use e bit assms(1) in auto)
    then show ?thesis
      unfolding less_step_def st snoc bin_val_less_snoc [OF len]
      by (auto intro!: sound_ns simp: False elim!: sound_mono)
  qed
qed

lemma sound_less_than:
  assumes "assignment w" "list_all (is_bit w) bs"
  shows "sound w (less_than bs c) (\<lambda>_. length bs = 8 * length c \<and> bin_val (bvals w bs) < be_val c)"
  unfolding less_than_def
proof (rule sound_sbind [OF sound_sassert], assumption)
  let ?cs = "be_bits c"
  assume len: "length bs = length ?cs"
  let ?I = "\<lambda>i st. lcv w (fst st) = of_bool (take i (bvals w bs) = take i ?cs) \<and>
    lcv w (snd st) = of_bool (bin_val (take i (bvals w bs)) < bin_val (take i ?cs))"
  have fold: "sound w (sfold less_step (zip [0..<length bs] (zip bs ?cs)) (lc_constant 1, lc_zero))
      (?I (length (zip [0..<length bs] (zip bs ?cs))))"
  proof (rule sound_sfold [where I = ?I])
    fix i st assume "i < length (zip [0..<length bs] (zip bs ?cs))" and I: "?I i st"
    then have i: "i < length ?cs" using len by simp
    then have "zip [0..<length bs] (zip bs ?cs) ! i = (i, bs ! i, ?cs ! i)" using len by simp
    moreover have "is_bit w (bs ! i)" using assms(2) i len by (simp add: list_all_length)
    ultimately show "sound w (less_step (zip [0..<length bs] (zip bs ?cs) ! i) st) (?I (Suc i))"
      using less_step_sound [OF assms(1) len i] I by simp
  qed (use assms(1) in simp)
  show "sound w (sbind (sfold less_step (zip [0..<length bs] (zip bs ?cs)) (lc_constant 1, lc_zero))
      (\<lambda>(_, lt). ns ''less'' (equal lt (lc_constant 1))))
      (\<lambda>_. length bs = 8 * length c \<and> bin_val (bvals w bs) < be_val c)"
  proof (rule sound_sbind [OF fold])
    fix st assume I: "?I (length (zip [0..<length bs] (zip bs ?cs))) st"
    show "sound w (case st of (_, lt) \<Rightarrow> ns ''less'' (equal lt (lc_constant 1)))
        (\<lambda>_. length bs = 8 * length c \<and> bin_val (bvals w bs) < be_val c)"
      using I len assms(1)
      by (cases st) (auto intro!: sound_ns sound_mono [OF sound_equal] simp: bin_val_be_bits split: if_splits)
  qed
qed

subsection \<open>Bytes\<close>

lemma bytes_are_length: "bytes_are w as bs \<Longrightarrow> length as = length bs"
  unfolding bytes_are_def by (rule list_all2_lengthD)

lemma bytes_are_append:
  "bytes_are w as bs \<Longrightarrow> bytes_are w as' bs' \<Longrightarrow> bytes_are w (as @ as') (bs @ bs')"
  unfolding bytes_are_def by (rule list_all2_appendI)

lemma bytes_are_take: "bytes_are w as bs \<Longrightarrow> bytes_are w (take n as) (take n bs)"
  unfolding bytes_are_def by (rule list_all2_takeI)

lemma bytes_are_drop: "bytes_are w as bs \<Longrightarrow> bytes_are w (drop n as) (drop n bs)"
  unfolding bytes_are_def by (rule list_all2_dropI)

lemma bytes_are_nth: "bytes_are w as bs \<Longrightarrow> i < length bs \<Longrightarrow> lcv w (as ! i) = of_nat (unat (bs ! i))"
  unfolding bytes_are_def by (simp add: list_all2_conv_all_nth)

lemma pack_bytes_weights:
  "list_all2 (\<lambda>a b. lcv w a = of_nat (unat b)) as bs \<Longrightarrow>
    lcv w (fst (fold (\<lambda>b (sum, weight). (lc_add sum (lc_scale b weight), weight * 256)) as (s, c)))
      = lcv w s + c * of_nat (be_val (rev bs))"
proof (induction as bs arbitrary: s c rule: list_all2_induct)
  case (Cons a as b bs)
  then show ?case by (simp add: algebra_simps)
qed simp

lemma lcv_pack_bytes: "bytes_are w as bs \<Longrightarrow> lcv w (pack_bytes as) = from_be bs"
  using pack_bytes_weights [of w "rev as" "rev bs" lc_zero 1]
  by (simp add: pack_bytes_def bytes_are_def from_be_def)

lemma bytes_of_bits_are:
  assumes "list_all (is_bit w) bs" "length bs = 8 * n"
  shows "bytes_are w (bytes_of_bits bs) (bits_bytes (bvals w bs))"
  using assms
proof (induction n arbitrary: bs)
  case (Suc n)
  define a rest where "a = take 8 bs" and "rest = drop 8 bs"
  have bs: "bs = a @ rest" "length a = 8" "length rest = 8 * n"
    using Suc.prems by (simp_all add: a_def rest_def)
  have "bin_val (bvals w a) < 256" using bin_val_less [of "bvals w a"] bs(2) by simp
  then have "unat (word_of_nat (bin_val (bvals w a)) :: byte) = bin_val (bvals w a)" by (simp add: unat_of_nat)
  moreover have "list_all (is_bit w) a" "list_all (is_bit w) rest" using Suc.prems(1) bs(1) by auto
  ultimately show ?case
    using Suc.IH [of rest] bs
    by (simp add: bytes_of_bits_def bits_bytes_def chunks_append bytes_are_def lcv_pack)
qed (simp add: bytes_of_bits_def bits_bytes_def bytes_are_def)

lemma chunks_all2: "0 < n \<Longrightarrow> list_all2 P as bs \<Longrightarrow> list_all2 (list_all2 P) (chunks n as) (chunks n bs)"
proof (induction n as arbitrary: bs rule: chunks.induct)
  case (1 n as)
  show ?case
  proof (cases "as = []")
    case True
    then show ?thesis using 1 by simp
  next
    case False
    then have "bs \<noteq> []" using 1 by auto
    then show ?thesis
      using 1 False by (simp add: chunks_rec list_all2_takeI list_all2_dropI)
  qed
qed

lemma chunks_from_be_inj:
  assumes "scalar_repr (repr :: 'f::field \<Rightarrow> nat)" "0 < n" "n \<le> 31" "length bs = length cs"
    and all: "\<And>i. i < length (chunks n cs) \<Longrightarrow> from_be (chunks n bs ! i) = (from_be (chunks n cs ! i) :: 'f)"
  shows "bs = cs"
proof -
  have len: "length (chunks n bs) = length (chunks n cs)" using assms(2,4) by (simp add: length_chunks)
  have "chunks n bs ! i = chunks n cs ! i" if i: "i < length (chunks n cs)" for i
  proof (rule from_be_inj [OF assms(1) _ _ all [OF i]])
    have "list_all2 (list_all2 (\<lambda>_ _. True)) (chunks n bs) (chunks n cs)"
      by (rule chunks_all2) (simp_all add: list_all2_conv_all_nth assms(2,4))
    then show "length (chunks n bs ! i) = length (chunks n cs ! i)" using i by (auto simp: list_all2_conv_all_nth)
    have "length (chunks n cs ! i) \<le> n" using chunks_le [OF assms(2)] i nth_mem by blast
    then show "length (chunks n cs ! i) \<le> 31" using assms(3) by simp
  qed
  then have "chunks n bs = chunks n cs" using len by (intro nth_equalityI) simp_all
  then show ?thesis using assms(2) by (metis concat_chunks)
qed

lemma sound_expect:
  assumes "scalar_repr (repr :: 'f::field \<Rightarrow> nat)" "assignment w" "bytes_are (w :: var \<Rightarrow> 'f) as bs"
  shows "sound w (expect as pattern) (\<lambda>_. bs = pattern)"
  unfolding expect_def
proof (rule sound_sbind [OF sound_sassert], assumption)
  assume len: "length as = length pattern"
  have lens: "length bs = length pattern" using bytes_are_length [OF assms(3)] len by simp
  let ?groups = "zip [0..<length (chunks 16 as)] (zip (chunks 16 as) (chunks 16 pattern))"
  have nchunks: "length (chunks 16 as) = length (chunks 16 pattern)" "length (chunks 16 bs) = length (chunks 16 pattern)"
    using len lens by (simp_all add: length_chunks)
  have groups: "list_all2 (list_all2 (\<lambda>a b. lcv w a = of_nat (unat b))) (chunks 16 as) (chunks 16 bs)"
    using assms(3) unfolding bytes_are_def by (rule chunks_all2 [rotated]) simp
  have eq: "bs = pattern" if "\<And>i. i < length (chunks 16 pattern) \<Longrightarrow> from_be (chunks 16 bs ! i) = (from_be (chunks 16 pattern ! i) :: 'f)"
    using chunks_from_be_inj [OF assms(1) _ _ lens, of 16] that by simp
  show "sound w (sbind (smap (\<lambda>(i, grp, constant). ns (''bytes from '' @ show_nat (16 * i))
      (equal (pack_bytes grp) (lc_constant (from_be constant)))) ?groups) (\<lambda>_. sret ())) (\<lambda>_. bs = pattern)"
  proof (rule sound_sbind [OF sound_smap [where R = "\<lambda>g _. lcv w (pack_bytes (fst (snd g))) = from_be (snd (snd g))"]])
    fix g show "sound w (case g of (i, grp, constant) \<Rightarrow> ns (''bytes from '' @ show_nat (16 * i))
      (equal (pack_bytes grp) (lc_constant (from_be constant)))) (\<lambda>_. lcv w (pack_bytes (fst (snd g))) = from_be (snd (snd g)))"
      using assms(2) by (cases g) (auto intro!: sound_ns sound_mono [OF sound_equal])
  next
    fix us assume all: "list_all2 (\<lambda>g (_::unit). lcv w (pack_bytes (fst (snd g))) = from_be (snd (snd g))) ?groups us"
    have "from_be (chunks 16 bs ! i) = (from_be (chunks 16 pattern ! i) :: 'f)" if i: "i < length (chunks 16 pattern)" for i
    proof -
      have "bytes_are w (chunks 16 as ! i) (chunks 16 bs ! i)"
        using groups i nchunks by (simp add: bytes_are_def list_all2_conv_all_nth)
      then have "lcv w (pack_bytes (chunks 16 as ! i)) = from_be (chunks 16 bs ! i)" by (rule lcv_pack_bytes)
      moreover have "lcv w (pack_bytes (chunks 16 as ! i)) = from_be (chunks 16 pattern ! i)"
        using all i nchunks by (simp add: list_all2_conv_all_nth)
      ultimately show ?thesis by simp
    qed
    then show "sound w (sret ()) (\<lambda>_. bs = pattern)" using eq by (simp add: sound_sret)
  qed
qed

subsection \<open>None of them takes a public input\<close>

lemma keeps_bits [keeps_intros]:
  assumes "bellpepper_inputs L"
  shows "keeps (alloc_bits L v n)" "keeps (bits L repr x n)" "keeps (digest_bits L repr high low)"
    "keeps (range_check L repr x n)"
  unfolding alloc_bits_def bits_def digest_bits_def range_check_def by (intro keeps_intros assms)+

lemma keeps_less_than [keeps_intros]: "keeps (less_than bs c)"
  unfolding less_than_def less_step_def
  by (intro keeps_intros) (auto split: prod.splits intro!: keeps_intros)

lemma keeps_expect [keeps_intros]: "keeps (expect bs pattern)"
  unfolding expect_def by (intro keeps_intros)

section \<open>Properties\<close>

text \<open>
  The range constraint decides ranges: if the rules of \<open>bits\<close> hold under any assignment,
  whatever the prover supplied, the sum is an integer below \<open>2^n\<close>, and the returned bits are its
  binary digits, most significant first.
\<close>

theorem bits_are_the_integer:
  assumes "scalar_repr (repr :: 'f::field \<Rightarrow> nat)" "bellpepper_sound L" "assignment (w :: var \<Rightarrow> 'f)"
    and "m \<noteq> Witness" "bits L repr x n m cs = (Inr bs, cs', rs)" "satisfied w rs"
  shows "repr (lcv w x) < 2 ^ n \<and> bvals w bs = small_bits (repr (lcv w x)) n"
proof -
  have b: "n < NUM_BITS" "length bs = n" "lcv w x = of_nat (bin_val (bvals w bs))"
    using soundD [OF sound_bits [OF assms(2,3)] assms(4,5,6)] by auto
  have less: "bin_val (bvals w bs) < 2 ^ n" using bin_val_less [of "bvals w bs"] b(2) by simp
  then have r: "repr (lcv w x) = bin_val (bvals w bs)"
    using b(3) scalar_reprD(2) [OF assms(1)] power_less_modulus [OF b(1)] by simp
  then show ?thesis
    using less b(2) by (auto intro!: bin_val_inj simp: bin_val_small_bits)
qed

text \<open>A run of \<open>bits\<close> in the shape builder, and an assignment of the bits \<open>1, 0\<close> that satisfies it.\<close>

definition two_bits :: "var \<Rightarrow> rat" where
  "two_bits v = (if v = Input 0 then 1 else if v = Aux 0 then 1 else if v = Aux 2 then 2 else 0)"

definition blank_cs :: "rat cs" where
  "blank_cs = \<lparr>aux = [], inputs = [Some 1], path = [], broken = None\<rparr>"

lemma two_bits_run:
  "\<exists>bs cs' rs. bits plain_bellpepper rat_repr \<lparr>terms = [(Aux 2, 1)], val = None\<rparr> 2 Shape blank_cs
     = (Inr bs, cs', rs) \<and> satisfied two_bits rs"
  by (simp add: bits_def alloc_bits_def synth_simps numeral_2_eq_2 NUM_BITS_def blank_cs_def two_bits_def one_def
    pack_def lc_add_def lc_scale_def lc_bit_def lc_zero_def lc_sub_def)

theorem bits_are_the_integer_witness:
  "\<exists>bs. rat_repr (lcv two_bits \<lparr>terms = [(Aux 2, 1)], val = None\<rparr>) < 2 ^ 2 \<and>
    bvals two_bits bs = small_bits (rat_repr (lcv two_bits \<lparr>terms = [(Aux 2, 1)], val = None\<rparr>)) 2"
proof -
  obtain bs cs' rs where run: "bits plain_bellpepper rat_repr \<lparr>terms = [(Aux 2, 1)], val = None\<rparr> 2 Shape blank_cs
     = (Inr bs, cs', rs)" "satisfied two_bits rs" using two_bits_run by blast
  have "assignment two_bits" by (simp add: assignment_def two_bits_def)
  from bits_are_the_integer [OF scalar_repr_rat plain_bellpepper_sound this _ run] show ?thesis by blast
qed

text \<open>
  \<open>less_than\<close> compares: if its rules hold, the integer that the bits write is below the constant.
\<close>

theorem less_than_decides:
  assumes "assignment (w :: var \<Rightarrow> 'f::field)" "list_all (is_bit w) bs"
    and "m \<noteq> Witness" "less_than bs c m cs = (Inr u, cs', rs)" "satisfied w rs"
  shows "bin_val (bvals w bs) < be_val c"
  using soundD [OF sound_less_than [OF assms(1,2)] assms(3,4,5)] by simp

text \<open>The eight zero bits are below one.\<close>

definition seven_ones :: "var \<Rightarrow> rat" where
  "seven_ones v = (if v = Aux 7 then 0 else 1)"

lemma be_bits_one: "be_bits [1] = [False, False, False, False, False, False, False, True]"
  by (simp add: be_bits_def upt_rec)

lemma seven_ones_run:
  "\<exists>cs' rs. less_than (replicate 8 \<lparr>bool_lc = [], bool_value = Some False\<rparr>) [1] Shape blank_cs
     = (Inr (), cs', rs) \<and> satisfied seven_ones rs"
  by (simp add: less_than_def less_step_def be_bits_one synth_simps blank_cs_def seven_ones_def one_def
    lc_add_def lc_bit_def lc_zero_def lc_sub_def lc_constant_def upt_rec numeral_eq_Suc val2_def)

theorem less_than_decides_witness:
  "bin_val (bvals seven_ones (replicate 8 \<lparr>bool_lc = [], bool_value = Some False\<rparr>)) < be_val [1]"
proof -
  obtain cs' rs where run: "less_than (replicate 8 \<lparr>bool_lc = [], bool_value = Some False\<rparr>) [1] Shape blank_cs
     = (Inr (), cs', rs)" "satisfied seven_ones rs" using seven_ones_run by blast
  have "assignment seven_ones" by (simp add: assignment_def seven_ones_def)
  moreover have "list_all (is_bit seven_ones) (replicate 8 \<lparr>bool_lc = [], bool_value = Some False\<rparr>)"
    by (simp add: is_bit_def list_all_iff)
  ultimately show ?thesis by (rule less_than_decides [OF _ _ _ run]) simp
qed

end
