(* ===== verification/Request.thy ===== *)
theory Request
  imports Bits
begin

text \<open>
  The request (\<open>request.rs\<close>): the credential's type and the name of the birth-date attribute, each a
  pattern of bytes in a window of fixed length, with a thermometer of public bits for its length.
  The rules of \<open>check\<close> compare a window of the credential's bytes with the public values of a
  pattern; the main lemma says that they hold only when the pattern sits at its end of the window.
\<close>

section \<open>Windows and patterns\<close>

datatype Align = Left | Right

record PatternWindow =
  pw_len :: nat
  pw_thermometer :: nat
  pw_align :: Align
  pw_nonempty :: bool

definition LIMB :: nat where "LIMB = 31"

definition window_fixed :: "PatternWindow \<Rightarrow> nat" where
  "window_fixed win = pw_len win - pw_thermometer win"

definition window_position :: "PatternWindow \<Rightarrow> nat \<Rightarrow> nat" where
  "window_position win k =
     (case pw_align win of Right \<Rightarrow> pw_thermometer win - 1 - k | Left \<Rightarrow> window_fixed win + k)"

definition public_count :: "PatternWindow \<Rightarrow> nat" where
  "public_count win = (pw_len win + LIMB - 1) div LIMB + 1"

definition DOC_TYPE_WINDOW :: PatternWindow where
  "DOC_TYPE_WINDOW = \<lparr>pw_len = 48, pw_thermometer = 48, pw_align = Right, pw_nonempty = False\<rparr>"

definition IDENTIFIER_WINDOW :: PatternWindow where
  "IDENTIFIER_WINDOW = \<lparr>pw_len = 40, pw_thermometer = 40, pw_align = Right, pw_nonempty = False\<rparr>"

definition VCT_WINDOW :: PatternWindow where
  "VCT_WINDOW = \<lparr>pw_len = 48, pw_thermometer = 40, pw_align = Left, pw_nonempty = False\<rparr>"

definition CLAIM_WINDOW :: PatternWindow where
  "CLAIM_WINDOW = \<lparr>pw_len = 19, pw_thermometer = 16, pw_align = Right, pw_nonempty = True\<rparr>"

definition DOC_TYPE_KEY :: bytes where "DOC_TYPE_KEY = 0x67 # ascii ''docType''"
definition IDENTIFIER_KEY :: bytes where "IDENTIFIER_KEY = 0x71 # ascii ''elementIdentifier''"
definition VCT_KEY :: bytes where "VCT_KEY = 0x22 # ascii ''vct'' @ [0x22, 0x3A, 0x22]"

datatype pattern_error = TextTooLong nat | PatternTooLong nat nat | PatternTooShort nat nat

definition text_head :: "nat \<Rightarrow> pattern_error + bytes" where
  "text_head n =
     (if n < 24 then Inr [0x60 + word_of_nat n]
      else if n < 256 then Inr [0x78, word_of_nat n]
      else Inl (TextTooLong n))"

record Pattern =
  pat_window :: PatternWindow
  pat_bytes :: bytes

definition pattern_new :: "PatternWindow \<Rightarrow> bytes \<Rightarrow> pattern_error + Pattern" where
  "pattern_new win bs =
     (if length bs > pw_len win then Inl (PatternTooLong (length bs) (pw_len win))
      else if length bs < window_fixed win then Inl (PatternTooShort (length bs) (window_fixed win))
      else Inr \<lparr>pat_window = win, pat_bytes = bs\<rparr>)"

definition pattern_doc_type :: "str \<Rightarrow> pattern_error + Pattern" where
  "pattern_doc_type doc_type =
     rbind (text_head (length doc_type)) (\<lambda>head.
     pattern_new DOC_TYPE_WINDOW (concat [DOC_TYPE_KEY, head, doc_type]))"

definition pattern_identifier :: "str \<Rightarrow> pattern_error + Pattern" where
  "pattern_identifier identifier =
     rbind (text_head (length identifier)) (\<lambda>head.
     pattern_new IDENTIFIER_WINDOW (concat [IDENTIFIER_KEY, head, identifier]))"

definition pattern_count :: "Pattern \<Rightarrow> nat" where
  "pattern_count p = length (pat_bytes p) - window_fixed (pat_window p)"

text \<open>\<open>copy_from_slice\<close> into a window of zeros.\<close>

definition aligned :: "Pattern \<Rightarrow> bytes" where
  "aligned p =
    (let window = replicate (pw_len (pat_window p)) 0;
         i = (case pw_align (pat_window p) of
                Left \<Rightarrow> 0 | Right \<Rightarrow> pw_len (pat_window p) - length (pat_bytes p))
     in take i window @ pat_bytes p @ drop (i + length (pat_bytes p)) window)"

definition pattern_values :: "Pattern \<Rightarrow> 'f::field list" where
  "pattern_values p =
    (let vs = map from_be (chunks LIMB (aligned p));
         thermometer = fold (\<lambda>_ sum. (sum + sum) + 1) [0..<pattern_count p] 0
     in vs @ [thermometer])"

record Request =
  credential_type :: Pattern
  attribute :: Pattern

definition request_mdoc :: "str \<Rightarrow> str \<Rightarrow> pattern_error + Request" where
  "request_mdoc doc_type identifier =
     rbind (pattern_doc_type doc_type) (\<lambda>t.
     rbind (pattern_identifier identifier) (\<lambda>a.
     Inr \<lparr>credential_type = t, attribute = a\<rparr>))"

definition request_windows :: "Request \<Rightarrow> PatternWindow list" where
  "request_windows r = [pat_window (credential_type r), pat_window (attribute r)]"

definition request_values :: "Request \<Rightarrow> 'f::field list" where
  "request_values r = concat [pattern_values (credential_type r), pattern_values (attribute r)]"

section \<open>The rules\<close>

text \<open>The comparison switches: the thermometer's bits, most significant first, at their positions.\<close>

definition switches :: "PatternWindow \<Rightarrow> 'f::field Boolean list \<Rightarrow> 'f Lc option list" where
  "switches win thermometer =
     fold (\<lambda>k switch. switch[window_position win k := Some (lc_bit (thermometer ! (pw_thermometer win - 1 - k)))])
       [0..<pw_thermometer win] (replicate (pw_len win) None)"

definition pattern_inputs ::
  "'f::field bellpepper \<Rightarrow> PatternWindow \<Rightarrow> 'f list option \<Rightarrow> ('f AllocatedNum list, 'f) synth" where
  "pattern_inputs L win vals =
     smap (\<lambda>i. sbind (case vals of None \<Rightarrow> sret () | Some v \<Rightarrow> sassert (i < length v)) (\<lambda>_.
       ns (''public '' @ show_nat i) (alloc_input_num L (ok_or AssignmentMissing (map_option (\<lambda>v. v ! i) vals)))))
       [0..<public_count win]"

definition compare_bytes ::
  "'f::field AllocatedNum list \<Rightarrow> 'f Lc option list \<Rightarrow> ('f Lc list, 'f) synth" where
  "compare_bytes credential switch =
     smap (\<lambda>(i, byte, sw). case sw of
         Some b \<Rightarrow> ns (''byte '' @ show_nat i) (mul b (lc_num byte))
       | None \<Rightarrow> sret (lc_num byte))
       (zip [0..<length credential] (zip credential switch))"

definition compare_limbs :: "'f::field Lc list \<Rightarrow> 'f Lc list \<Rightarrow> (unit list, 'f) synth" where
  "compare_limbs compared limbs =
     smap (\<lambda>(l, bs, limb). ns (''limb '' @ show_nat l) (equal (pack_bytes bs) limb))
       (zip [0..<length (chunks LIMB compared)] (zip (chunks LIMB compared) limbs))"

definition pattern_check ::
  "'f::field bellpepper \<Rightarrow> ('f \<Rightarrow> nat) \<Rightarrow> PatternWindow \<Rightarrow> 'f AllocatedNum list \<Rightarrow> 'f list option \<Rightarrow> (unit, 'f) synth" where
  "pattern_check L repr win credential vals =
     sbind (sassert (length credential = pw_len win)) (\<lambda>_.
     sbind (pattern_inputs L win vals) (\<lambda>public.
     let public_lcs = map lc_num public; limbs = butlast public_lcs; thermometer = last public_lcs in
     sbind (ns ''thermometer bits'' (bits L repr thermometer (pw_thermometer win))) (\<lambda>thermometer.
     sbind (if pw_nonempty win
            then ns ''nonempty'' (equal (lc_bit (thermometer ! (pw_thermometer win - 1))) (lc_small 1))
            else sret ()) (\<lambda>_.
     sbind (compare_bytes credential (switches win thermometer)) (\<lambda>compared.
     sbind (compare_limbs compared limbs) (\<lambda>_. sret ()))))))"

section \<open>Patterns in their windows\<close>

definition window_ok :: "PatternWindow \<Rightarrow> bool" where
  "window_ok win \<longleftrightarrow> pw_thermometer win \<le> pw_len win \<and> 0 < pw_len win"

definition pattern_ok :: "Pattern \<Rightarrow> bool" where
  "pattern_ok p \<longleftrightarrow> window_ok (pat_window p) \<and> window_fixed (pat_window p) \<le> length (pat_bytes p) \<and>
     length (pat_bytes p) \<le> pw_len (pat_window p)"

text \<open>Whether the comparison reaches a window's byte: the bytes that the aligned pattern covers.\<close>

definition covered :: "Pattern \<Rightarrow> nat \<Rightarrow> bool" where
  "covered p i \<longleftrightarrow> (case pw_align (pat_window p) of
     Left \<Rightarrow> i < length (pat_bytes p)
   | Right \<Rightarrow> pw_len (pat_window p) - length (pat_bytes p) \<le> i)"

definition at_its_end :: "Pattern \<Rightarrow> bytes \<Rightarrow> bool" where
  "at_its_end p bs \<longleftrightarrow> (case pw_align (pat_window p) of
     Left \<Rightarrow> take (length (pat_bytes p)) bs = pat_bytes p
   | Right \<Rightarrow> drop (pw_len (pat_window p) - length (pat_bytes p)) bs = pat_bytes p)"

lemma pattern_new_ok:
  "window_ok win \<Longrightarrow> pattern_new win bs = Inr p \<Longrightarrow> pattern_ok p \<and> pat_window p = win \<and> pat_bytes p = bs"
  by (auto simp: pattern_new_def pattern_ok_def split: if_splits)

lemma windows_ok [simp]:
  "window_ok DOC_TYPE_WINDOW" "window_ok IDENTIFIER_WINDOW" "window_ok VCT_WINDOW" "window_ok CLAIM_WINDOW"
  by (simp_all add: window_ok_def DOC_TYPE_WINDOW_def IDENTIFIER_WINDOW_def VCT_WINDOW_def CLAIM_WINDOW_def)

lemma length_aligned [simp]: "pattern_ok p \<Longrightarrow> length (aligned p) = pw_len (pat_window p)"
  by (auto simp: aligned_def Let_def pattern_ok_def split: Align.splits)

lemma aligned_covered:
  assumes "pattern_ok p" "length bs = pw_len (pat_window p)"
    and "\<And>i. i < length bs \<Longrightarrow> covered p i \<Longrightarrow> bs ! i = aligned p ! i"
  shows "at_its_end p bs"
proof (cases "pw_align (pat_window p)")
  case Left
  have "take (length (pat_bytes p)) bs = pat_bytes p"
  proof (rule nth_equalityI)
    show "length (take (length (pat_bytes p)) bs) = length (pat_bytes p)"
      using assms(1,2) by (simp add: pattern_ok_def)
    fix i assume "i < length (take (length (pat_bytes p)) bs)"
    then show "take (length (pat_bytes p)) bs ! i = pat_bytes p ! i"
      using assms(3) [of i] Left by (simp add: aligned_def covered_def nth_append)
  qed
  then show ?thesis using Left by (simp add: at_its_end_def)
next
  case Right
  let ?d = "pw_len (pat_window p) - length (pat_bytes p)"
  have d: "?d + length (pat_bytes p) = length bs" using assms(1,2) by (simp add: pattern_ok_def)
  have "drop ?d bs = pat_bytes p"
  proof (rule nth_equalityI)
    show "length (drop ?d bs) = length (pat_bytes p)" using d by simp
    fix i assume "i < length (drop ?d bs)"
    then show "drop ?d bs ! i = pat_bytes p ! i"
      using assms(3) [of "?d + i"] Right d by (simp add: aligned_def covered_def nth_append)
  qed
  then show ?thesis using Right by (simp add: at_its_end_def)
qed

lemma aligned_uncovered:
  "pattern_ok p \<Longrightarrow> i < pw_len (pat_window p) \<Longrightarrow> \<not> covered p i \<Longrightarrow> aligned p ! i = 0"
  by (auto simp: aligned_def covered_def pattern_ok_def nth_append Let_def split: Align.splits)

lemma thermometer_value:
  "fold (\<lambda>_ sum. (sum + sum) + 1) [0..<n] 0 = (of_nat (2 ^ n - 1) :: 'f::field)"
proof -
  have "fold (\<lambda>_ sum. (sum + sum) + 1) [0..<n] 0 = (2 ^ n - 1 :: 'f)" by (induction n) simp_all
  then show ?thesis by (simp add: of_nat_diff)
qed

section \<open>What the rules force\<close>

lemma fold_update_other:
  "(\<And>k. k < n \<Longrightarrow> f k \<noteq> i) \<Longrightarrow> fold (\<lambda>k s. s[f k := g k]) [0..<n] s ! i = s ! i"
  by (induction n) simp_all

lemma length_fold_update [simp]: "length (fold (\<lambda>k s. s[f k := g k]) ks s) = length s"
  by (induction ks arbitrary: s) simp_all

lemma fold_update_at:
  "inj_on f {..<n} \<Longrightarrow> k < n \<Longrightarrow> f k < length s \<Longrightarrow> fold (\<lambda>k s. s[f k := g k]) [0..<n] s ! f k = g k"
proof (induction n)
  case (Suc n)
  show ?case
  proof (cases "k = n")
    case False
    then have "f n \<noteq> f k" using Suc.prems by (auto simp: inj_on_def)
    moreover have "inj_on f {..<n}" using Suc.prems(1) by (rule inj_on_subset) auto
    ultimately show ?thesis using Suc False by simp
  qed (use Suc in simp)
qed simp

lemma length_switches [simp]: "length (switches win th) = pw_len win"
  by (simp add: switches_def)

lemma switches_fixed:
  assumes "\<And>k. k < pw_thermometer win \<Longrightarrow> window_position win k \<noteq> i" "i < pw_len win"
  shows "switches win th ! i = None"
  using assms unfolding switches_def by (subst fold_update_other) auto

lemma switches_position:
  assumes "window_ok win" "k < pw_thermometer win"
  shows "switches win th ! window_position win k = Some (lc_bit (th ! (pw_thermometer win - 1 - k)))"
proof -
  have "inj_on (window_position win) {..<pw_thermometer win}" "window_position win k < pw_len win"
    using assms by (auto simp: inj_on_def window_position_def window_fixed_def window_ok_def split: Align.splits)
  then show ?thesis
    unfolding switches_def using assms(2) by (intro trans [OF fold_update_at]) simp_all
qed

text \<open>Under the pattern's thermometer, the switch of a byte says whether the pattern covers it.\<close>

definition switch_is :: "(var \<Rightarrow> 'f::field) \<Rightarrow> 'f Lc option \<Rightarrow> bool \<Rightarrow> bool" where
  "switch_is w sw b \<longleftrightarrow> (case sw of None \<Rightarrow> b | Some l \<Rightarrow> lcv w l = of_bool b)"

lemma position_covered:
  assumes "pattern_ok p" "k < pw_thermometer (pat_window p)"
  shows "covered p (window_position (pat_window p) k) \<longleftrightarrow> k < pattern_count p"
  using assms
  by (auto simp: covered_def window_position_def pattern_count_def pattern_ok_def window_fixed_def window_ok_def
      split: Align.splits)

lemma off_position_covered:
  assumes "pattern_ok p" "i < pw_len (pat_window p)" "\<And>k. k < pw_thermometer (pat_window p) \<Longrightarrow> window_position (pat_window p) k \<noteq> i"
  shows "covered p i"
proof (cases "pw_align (pat_window p)")
  case Left
  have "i < window_fixed (pat_window p)"
  proof (rule ccontr)
    assume "\<not> i < window_fixed (pat_window p)"
    moreover from this have "i - window_fixed (pat_window p) < pw_thermometer (pat_window p)"
      using assms(1,2) by (simp add: window_fixed_def pattern_ok_def window_ok_def)
    ultimately show False
      using assms(3) [of "i - window_fixed (pat_window p)"] Left by (simp add: window_position_def)
  qed
  then show ?thesis using assms(1) Left by (simp add: covered_def pattern_ok_def)
next
  case Right
  have "pw_thermometer (pat_window p) \<le> i"
  proof (rule ccontr)
    assume "\<not> pw_thermometer (pat_window p) \<le> i"
    then show False
      using assms(3) [of "pw_thermometer (pat_window p) - 1 - i"] Right by (auto simp: window_position_def)
  qed
  then show ?thesis using assms(1) Right by (auto simp: covered_def pattern_ok_def window_fixed_def)
qed

lemma switches_covered:
  assumes "pattern_ok p" "i < pw_len (pat_window p)" "length th = pw_thermometer (pat_window p)"
    and "list_all (is_bit w) th" "bvals w th = small_bits (2 ^ pattern_count p - 1) (pw_thermometer (pat_window p))"
  shows "switch_is w (switches (pat_window p) th ! i) (covered p i)"
proof (cases "\<exists>k < pw_thermometer (pat_window p). window_position (pat_window p) k = i")
  case True
  then obtain k where k: "k < pw_thermometer (pat_window p)" "window_position (pat_window p) k = i" by blast
  let ?j = "pw_thermometer (pat_window p) - 1 - k"
  have j: "?j < length th" using k(1) assms(3) by simp
  have "bval w (th ! ?j) = bvals w th ! ?j" using j by simp
  also have "\<dots> = bit (2 ^ pattern_count p - 1 :: nat) k"
    using k(1) unfolding assms(5) small_bits_def by (simp add: rev_nth)
  also have "\<dots> = (k < pattern_count p)"
    using bit_mask_iff [where ?'a = nat, of "pattern_count p" k] by (simp add: mask_eq_exp_minus_1)
  finally have "ev w (bool_lc (th ! ?j)) = of_bool (covered p i)"
    using position_covered [OF assms(1) k(1)] k(2) is_bit_of_bool [of w "th ! ?j"] assms(4) j
    by (simp add: list_all_length)
  then show ?thesis
    using switches_position [of "pat_window p" k th] assms(1) k by (simp add: switch_is_def pattern_ok_def)
next
  case False
  then show ?thesis
    using switches_fixed [of "pat_window p" i th] off_position_covered [OF assms(1,2)] assms(2)
    by (auto simp: switch_is_def)
qed

lemma sound_compare_bytes:
  assumes "bytes_are w (map lc_num credential) bs" "length switch = length bs"
    and "\<And>i. i < length bs \<Longrightarrow> switch_is w (switch ! i) (cov i)"
  shows "sound w (compare_bytes credential switch)
    (\<lambda>out. bytes_are w out (map (\<lambda>i. if cov i then bs ! i else 0) [0..<length bs]))"
proof -
  have len: "length credential = length bs" using bytes_are_length [OF assms(1)] by simp
  have "sound w (compare_bytes credential switch) (list_all2 (\<lambda>(i, n, sw) r.
      lcv w r = of_nat (unat (if cov i then bs ! i else 0))) (zip [0..<length credential] (zip credential switch)))"
    unfolding compare_bytes_def
  proof (rule sound_smap)
    fix x assume "x \<in> set (zip [0..<length credential] (zip credential switch))"
    then obtain i where i: "i < length bs" "x = (i, credential ! i, switch ! i)"
      using len assms(2) by (auto simp: set_zip)
    have "w (num_var (credential ! i)) = of_nat (unat (bs ! i))"
      using bytes_are_nth [OF assms(1) i(1)] i(1) len by simp
    then show "sound w (case x of (i, byte, sw) \<Rightarrow> (case sw of Some b \<Rightarrow> ns (''byte '' @ show_nat i) (mul b (lc_num byte))
        | None \<Rightarrow> sret (lc_num byte))) ((\<lambda>(i, n, sw) r. lcv w r = of_nat (unat (if cov i then bs ! i else 0))) x)"
      using assms(3) [OF i(1)] i(2)
      by (cases "switch ! i") (auto simp: switch_is_def intro!: sound_ns sound_mono [OF sound_mul] sound_sret)
  qed
  then show ?thesis
    by (rule sound_mono) (use len assms(2) in \<open>auto simp: bytes_are_def list_all2_conv_all_nth\<close>)
qed

lemma sound_compare_limbs:
  assumes "scalar_repr (repr :: 'f::field \<Rightarrow> nat)" "assignment (w :: var \<Rightarrow> 'f)" "bytes_are w compared bs"
    and "length bs = length cs" "map (lcv w) limbs = map from_be (chunks LIMB cs)"
  shows "sound w (compare_limbs compared limbs) (\<lambda>_. bs = cs)"
proof -
  have groups: "list_all2 (bytes_are w) (chunks LIMB compared) (chunks LIMB bs)"
    using assms(3) unfolding bytes_are_def by (rule chunks_all2 [rotated]) (simp add: LIMB_def)
  have lens: "length (chunks LIMB bs) = length (chunks LIMB cs)" "length limbs = length (chunks LIMB cs)"
    "length (chunks LIMB compared) = length (chunks LIMB cs)"
    using assms(4) map_eq_imp_length_eq [OF assms(5)] list_all2_lengthD [OF groups] by (simp_all add: length_chunks LIMB_def)
  let ?zs = "zip [0..<length (chunks LIMB compared)] (zip (chunks LIMB compared) limbs)"
  have "sound w (compare_limbs compared limbs) (list_all2 (\<lambda>(l, bs, limb) _. lcv w (pack_bytes bs) = lcv w limb) ?zs)"
    unfolding compare_limbs_def
    by (rule sound_smap) (auto intro!: sound_ns sound_mono [OF sound_equal [OF assms(2)]])
  then show ?thesis
  proof (rule sound_mono)
    fix us :: "unit list" assume all: "list_all2 (\<lambda>(l, bs, limb) _. lcv w (pack_bytes bs) = lcv w limb) ?zs us"
    show "bs = cs"
    proof (rule chunks_from_be_inj [OF assms(1) _ _ assms(4), of LIMB])
      fix i assume i: "i < length (chunks LIMB cs)"
      have "lcv w (pack_bytes (chunks LIMB compared ! i)) = lcv w (limbs ! i)"
        using list_all2_nthD [OF all, of i] i lens by simp
      moreover have "lcv w (limbs ! i) = from_be (chunks LIMB cs ! i)"
        using i lens arg_cong [OF assms(5), of "\<lambda>l. l ! i"] by simp
      ultimately show "from_be (chunks LIMB bs ! i) = (from_be (chunks LIMB cs ! i) :: 'f)"
        using lcv_pack_bytes [of w "chunks LIMB compared ! i"] list_all2_nthD [OF groups, of i] i lens by simp
    qed (simp_all add: LIMB_def)
  qed
qed

lemma length_pattern_values: "pattern_ok p \<Longrightarrow> length (pattern_values p) = public_count (pat_window p)"
  by (simp add: pattern_values_def public_count_def length_chunks LIMB_def)

lemma sound_at_pattern_inputs:
  assumes "bellpepper_inputs L"
  shows "sound_at w i (pattern_inputs L win vals) (i + public_count win)
    (\<lambda>ns. map num_var ns = map Input [i..<i + public_count win])"
proof -
  have "sound_at w i (sbind (case vals of None \<Rightarrow> sret () | Some v \<Rightarrow> sassert (j < length v)) (\<lambda>_.
       ns (''public '' @ show_nat j) (alloc_input_num L (ok_or AssignmentMissing (map_option (\<lambda>v. v ! j) vals)))))
       (Suc i) (\<lambda>n. num_var n = Input i)" for j i
    by (rule sound_at_sbind [OF sound_at_keeps [OF sound_True]])
       (intro keeps_intros sound_at_ns sound_at_input assms)+
  from sound_at_smap_inputs [OF this, of i _ "[0..<public_count win]"] show ?thesis
    unfolding pattern_inputs_def by simp
qed

lemma thermometer_bits:
  assumes "scalar_repr (repr :: 'f::field \<Rightarrow> nat)" "pattern_ok p"
    and "pw_thermometer (pat_window p) < NUM_BITS" "length th = pw_thermometer (pat_window p)"
    and "(of_nat (2 ^ pattern_count p - 1) :: 'f) = of_nat (bin_val (bvals w th))"
  shows "bvals w th = small_bits (2 ^ pattern_count p - 1) (pw_thermometer (pat_window p))"
proof -
  have "pattern_count p \<le> pw_thermometer (pat_window p)"
    using assms(2) by (auto simp: pattern_count_def pattern_ok_def window_fixed_def window_ok_def)
  then have count: "(2::nat) ^ pattern_count p \<le> 2 ^ pw_thermometer (pat_window p)" by simp
  have less: "bin_val (bvals w th) < 2 ^ pw_thermometer (pat_window p)" using bin_val_less [of "bvals w th"] assms(4) by simp
  have "2 ^ pattern_count p - 1 < modulus" "bin_val (bvals w th) < modulus"
    using power_less_modulus [OF assms(3)] count less by linarith+
  then have "(2::nat) ^ pattern_count p - 1 = bin_val (bvals w th)" using assms(5) by (rule scalar_of_nat_inj [OF assms(1)])
  then show ?thesis using less assms(4) by (auto intro!: bin_val_inj simp: bin_val_small_bits)
qed

lemma sound_at_pattern_check:
  assumes repr: "scalar_repr (repr :: 'f::field \<Rightarrow> nat)" and L: "bellpepper_sound L" "bellpepper_inputs L"
    and w: "assignment (w :: var \<Rightarrow> 'f)" and p: "pattern_ok p" and bs: "bytes_are w (map lc_num credential) bs"
    and public: "\<And>j. j < public_count (pat_window p) \<Longrightarrow> w (Input (i + j)) = pattern_values p ! j"
  shows "sound_at w i (pattern_check L repr (pat_window p) credential vals) (i + public_count (pat_window p))
    (\<lambda>_. at_its_end p bs)"
  unfolding pattern_check_def Let_def
proof (rule sound_at_sbind [OF sound_at_keeps [OF sound_sassert keeps_basic(3)]], assumption,
    rule sound_at_sbind [OF sound_at_pattern_inputs [OF L(2)]], rule sound_at_keeps)
  fix nums :: "'f AllocatedNum list" assume len: "length credential = pw_len (pat_window p)"
    and nums: "map num_var nums = map Input [i..<i + public_count (pat_window p)]"
  have lbs: "length bs = pw_len (pat_window p)" using bytes_are_length [OF bs] len by simp
  have "map (lcv w) (map lc_num nums) = map w (map num_var nums)" by simp
  also have "\<dots> = pattern_values p"
    unfolding nums by (rule nth_equalityI) (simp_all add: length_pattern_values [OF p] public)
  finally have vs: "map (lcv w) (map lc_num nums) = pattern_values p" .
  have "nums \<noteq> []" using nums by (auto simp: public_count_def)
  then have "lcv w (last (map lc_num nums)) = last (pattern_values p)" by (simp add: last_map flip: vs)
  then have thermometer: "lcv w (last (map lc_num nums)) = of_nat (2 ^ pattern_count p - 1)"
    by (simp only: pattern_values_def thermometer_value Let_def last_snoc)
  have limbs: "map (lcv w) (butlast (map lc_num nums)) = map from_be (chunks LIMB (aligned p))"
    using arg_cong [OF vs, of butlast] by (simp add: pattern_values_def map_butlast)
  show "sound w (sbind (ns (''thermometer bits'') (bits L repr (last (map lc_num nums)) (pw_thermometer (pat_window p)))) (\<lambda>th.
      sbind (if pw_nonempty (pat_window p)
            then ns ''nonempty'' (equal (lc_bit (th ! (pw_thermometer (pat_window p) - 1))) (lc_small 1))
            else sret ()) (\<lambda>_.
     sbind (compare_bytes credential (switches (pat_window p) th)) (\<lambda>compared.
     sbind (compare_limbs compared (butlast (map lc_num nums))) (\<lambda>_. sret ()))))) (\<lambda>_. at_its_end p bs)"
  proof (rule sound_sbind [OF sound_ns [OF sound_bits [OF L(1) w]]], rule sound_sbind [OF sound_True], elim conjE)
    fix th assume T: "pw_thermometer (pat_window p) < NUM_BITS" "length th = pw_thermometer (pat_window p)"
      "list_all (is_bit w) th" "lcv w (last (map lc_num nums)) = of_nat (bin_val (bvals w th))"
    have th: "bvals w th = small_bits (2 ^ pattern_count p - 1) (pw_thermometer (pat_window p))"
      using thermometer_bits [OF repr p T(1,2)] T(4) thermometer by simp
    have "switch_is w (switches (pat_window p) th ! j) (covered p j)" if "j < length bs" for j
      using switches_covered [OF p _ T(2,3) th] that lbs by simp
    note compare = sound_compare_bytes [OF bs _ this]
    let ?cmp = "map (\<lambda>j. if covered p j then bs ! j else 0) [0..<length bs]"
    have found: "at_its_end p bs" if "?cmp = aligned p"
      by (rule aligned_covered [OF p lbs]) (simp flip: that)
    show "sound w (sbind (compare_bytes credential (switches (pat_window p) th)) (\<lambda>compared.
        sbind (compare_limbs compared (butlast (map lc_num nums))) (\<lambda>_. sret ()))) (\<lambda>_. at_its_end p bs)"
      by (rule sound_sbind [OF compare], simp add: lbs, assumption,
          rule sound_sbind [OF sound_compare_limbs [OF repr w _ _ limbs]],
          assumption, simp add: lbs p, rule sound_sret, rule found)
  qed
  show "keeps (sbind (ns (''thermometer bits'') (bits L repr (last (map lc_num nums)) (pw_thermometer (pat_window p)))) (\<lambda>th.
      sbind (if pw_nonempty (pat_window p)
            then ns ''nonempty'' (equal (lc_bit (th ! (pw_thermometer (pat_window p) - 1))) (lc_small 1))
            else sret ()) (\<lambda>_.
     sbind (compare_bytes credential (switches (pat_window p) th)) (\<lambda>compared.
     sbind (compare_limbs compared (butlast (map lc_num nums))) (\<lambda>_. sret ())))))"
    unfolding compare_bytes_def compare_limbs_def by (intro keeps_intros L(2))
qed

section \<open>Properties\<close>

text \<open>
  C24. A pattern matches only where it is: if the rules of \<open>check\<close> hold and the public inputs it
  allocates are the values that the verifier computed from a pattern, then the credential's bytes
  have the pattern at its end of the window, whatever the prover supplied.
\<close>

theorem pattern_check_matches:
  assumes "scalar_repr (repr :: 'f::field \<Rightarrow> nat)" "bellpepper_sound L" "bellpepper_inputs L"
    and "assignment (w :: var \<Rightarrow> 'f)" "pattern_ok p" "bytes_are w (map lc_num credential) bs"
    and "m \<noteq> Witness" "pattern_check L repr (pat_window p) credential vals m cs = (Inr u, cs', rs)" "satisfied w rs"
    and "\<forall>j < public_count (pat_window p). w (Input (length (inputs cs) + j)) = pattern_values p ! j"
  shows "at_its_end p bs"
  using sound_atD [OF sound_at_pattern_check [OF assms(1-6)] assms(7) refl assms(8,9)] assms(10) by blast

text \<open>A window of two bytes, the second always compared, around the pattern \<open>A\<close>.\<close>

definition pattern_A :: Pattern where
  "pattern_A = \<lparr>pat_window = \<lparr>pw_len = 2, pw_thermometer = 1, pw_align = Right, pw_nonempty = False\<rparr>, pat_bytes = [65]\<rparr>"

definition nine_A :: "var \<Rightarrow> rat" where
  "nine_A v = (if v = Input 0 then 1 else if v = Input 1 then 65 else if v = Aux 0 then 9 else if v = Aux 1 then 65 else 0)"

definition nine_A_cs :: "rat cs" where
  "nine_A_cs = \<lparr>aux = [None, None], inputs = [Some 1], path = [], broken = None\<rparr>"

abbreviation two_nums :: "rat AllocatedNum list" where
  "two_nums \<equiv> [\<lparr>num_var = Aux 0, num_value = None\<rparr>, \<lparr>num_var = Aux 1, num_value = None\<rparr>]"

lemma pattern_A_values: "pattern_values pattern_A = [65 :: rat, 0]"
  by (simp add: pattern_values_def aligned_def pattern_A_def pattern_count_def window_fixed_def LIMB_def chunks_rec
      from_be_def be_val_def)

lemma nine_A_run:
  "\<exists>cs' rs. pattern_check plain_bellpepper rat_repr (pat_window pattern_A) two_nums None Shape nine_A_cs
     = (Inr (), cs', rs) \<and> satisfied nine_A rs"
  by (simp add: pattern_check_def pattern_inputs_def compare_bytes_def compare_limbs_def switches_def synth_simps
      pattern_A_def nine_A_cs_def nine_A_def public_count_def LIMB_def window_position_def window_fixed_def
      bits_def alloc_bits_def pack_def pack_bytes_def NUM_BITS_def alloc_input_def one_def upt_rec chunks_rec
      lc_add_def lc_bit_def lc_zero_def lc_sub_def lc_num_def lc_scale_def lc_constant_def val2_def numeral_2_eq_2)

theorem pattern_check_matches_witness: "at_its_end pattern_A [9, 65]"
proof -
  obtain cs' rs where run: "pattern_check plain_bellpepper rat_repr (pat_window pattern_A) two_nums None Shape nine_A_cs
     = (Inr (), cs', rs)" "satisfied nine_A rs" using nine_A_run by blast
  have w: "assignment nine_A" by (simp add: assignment_def nine_A_def)
  have ok: "pattern_ok pattern_A" by (simp add: pattern_ok_def window_ok_def pattern_A_def window_fixed_def)
  have bs: "bytes_are nine_A (map lc_num two_nums) [9, 65]" by (simp add: bytes_are_def nine_A_def)
  have "public_count (pat_window pattern_A) = 2" by (simp add: public_count_def pattern_A_def LIMB_def)
  then have "\<forall>j < public_count (pat_window pattern_A). nine_A (Input (length (inputs nine_A_cs) + j)) = pattern_values pattern_A ! j"
    by (auto simp: pattern_A_values nine_A_cs_def nine_A_def less_Suc_eq numeral_2_eq_2)
  from pattern_check_matches [OF scalar_repr_rat plain_bellpepper_sound plain_bellpepper_inputs w ok bs _ run this]
  show ?thesis by simp
qed

subsection \<open>The public values determine the request\<close>

lemma aligned_pattern:
  assumes "pattern_ok p"
  shows "pat_bytes p = (case pw_align (pat_window p) of
     Left \<Rightarrow> take (length (pat_bytes p)) (aligned p)
   | Right \<Rightarrow> drop (pw_len (pat_window p) - length (pat_bytes p)) (aligned p))"
  using assms by (auto simp: aligned_def Let_def pattern_ok_def split: Align.splits)

lemma count_le: "pattern_ok p \<Longrightarrow> pattern_count p \<le> pw_thermometer (pat_window p)"
  by (auto simp: pattern_count_def pattern_ok_def window_fixed_def window_ok_def)

lemma pattern_values_inj:
  assumes "scalar_repr (repr :: 'f::field \<Rightarrow> nat)" "pattern_ok p" "pattern_ok q" "pat_window p = pat_window q"
    and "pw_thermometer (pat_window p) < NUM_BITS" "pattern_values p = (pattern_values q :: 'f list)"
  shows "pat_bytes p = pat_bytes q"
proof -
  have eqs: "map from_be (chunks LIMB (aligned p)) = (map from_be (chunks LIMB (aligned q)) :: 'f list)"
    "of_nat (2 ^ pattern_count p - 1) = (of_nat (2 ^ pattern_count q - 1) :: 'f)"
    using assms(6) unfolding pattern_values_def Let_def thermometer_value append1_eq_conv by blast+
  have same: "length (aligned p) = length (aligned q)" using assms(2-4) by simp
  have aligned: "aligned p = aligned q"
  proof (rule chunks_from_be_inj [OF assms(1) _ _ same, of LIMB])
    fix i assume i: "i < length (chunks LIMB (aligned q))"
    then have "i < length (chunks LIMB (aligned p))" using map_eq_imp_length_eq [OF eqs(1)] by simp
    then show "from_be (chunks LIMB (aligned p) ! i) = (from_be (chunks LIMB (aligned q) ! i) :: 'f)"
      using arg_cong [OF eqs(1), of "\<lambda>l. l ! i"] i by simp
  qed (simp_all add: LIMB_def)
  have "pattern_count p < NUM_BITS" "pattern_count q < NUM_BITS"
    using count_le [OF assms(2)] count_le [OF assms(3)] assms(4,5) by simp_all
  then have "(2::nat) ^ pattern_count p - 1 < modulus" "(2::nat) ^ pattern_count q - 1 < modulus"
    using power_less_modulus [of "pattern_count p"] power_less_modulus [of "pattern_count q"] by linarith+
  from scalar_of_nat_inj [OF assms(1) this eqs(2)]
  have "(2::nat) ^ pattern_count p = 2 ^ pattern_count q" by (simp add: eq_diff_iff)
  then have "length (pat_bytes p) = length (pat_bytes q)"
    using assms(2-4) by (auto simp: pattern_count_def pattern_ok_def)
  then show ?thesis using aligned_pattern [OF assms(2)] aligned_pattern [OF assms(3)] aligned assms(4) by metis
qed

text \<open>A key, a head and a text: the length of the pattern determines the head's, so it determines the text.\<close>

lemma text_head_length: "text_head n = Inr h \<Longrightarrow> length h = (if n < 24 then 1 else 2)"
  by (auto simp: text_head_def split: if_splits)

lemma keyed_text_inj:
  assumes "text_head (length t) = Inr h" "text_head (length u) = Inr g" "concat [key, h, t] = concat [key, g, u]"
  shows "t = u"
proof -
  have eq: "h @ t = g @ u" using assms(3) by simp
  then have "length h + length t = length g + length u" by (metis length_append)
  then have "length h = length g"
    using text_head_length [OF assms(1)] text_head_length [OF assms(2)] by (simp split: if_splits)
  then show ?thesis using eq by simp
qed

lemma keyed_pattern:
  assumes "rbind (text_head (length t)) (\<lambda>head. pattern_new win (concat [key, head, t])) = Inr p" "window_ok win"
  obtains h where "text_head (length t) = Inr h" "pattern_ok p" "pat_window p = win" "pat_bytes p = concat [key, h, t]"
  using assms pattern_new_ok [OF assms(2)] by (auto simp: rbind_eq_Inr)

lemma keyed_pattern_inj:
  assumes "scalar_repr (repr :: 'f::field \<Rightarrow> nat)" "window_ok win" "pw_thermometer win < NUM_BITS"
    and "rbind (text_head (length t)) (\<lambda>head. pattern_new win (concat [key, head, t])) = Inr p"
    and "rbind (text_head (length u)) (\<lambda>head. pattern_new win (concat [key, head, u])) = Inr q"
    and "pattern_values p = (pattern_values q :: 'f list)"
  shows "t = u"
proof -
  obtain h where p: "text_head (length t) = Inr h" "pattern_ok p" "pat_window p = win" "pat_bytes p = concat [key, h, t]"
    using keyed_pattern [OF assms(4,2)] .
  obtain g where q: "text_head (length u) = Inr g" "pattern_ok q" "pat_window q = win" "pat_bytes q = concat [key, g, u]"
    using keyed_pattern [OF assms(5,2)] .
  have "pat_bytes p = pat_bytes q"
    using pattern_values_inj [OF assms(1) p(2) q(2)] assms(3,6) p(3) q(3) by simp
  then show ?thesis using keyed_text_inj [OF p(1) q(1)] p(4) q(4) by simp
qed

lemma request_parts:
  assumes "request_mdoc t a = Inr r"
  shows "rbind (text_head (length t)) (\<lambda>head. pattern_new DOC_TYPE_WINDOW (concat [DOC_TYPE_KEY, head, t])) = Inr (credential_type r)"
    "rbind (text_head (length a)) (\<lambda>head. pattern_new IDENTIFIER_WINDOW (concat [IDENTIFIER_KEY, head, a])) = Inr (attribute r)"
  using assms unfolding request_mdoc_def pattern_doc_type_def pattern_identifier_def by (auto simp: rbind_eq_Inr)

text \<open>
  The verifier's public values determine the request: two mdoc requests with the same public
  values ask for the same docType and the same identifier.
\<close>

theorem request_values_determine:
  assumes "scalar_repr (repr :: 'f::field \<Rightarrow> nat)"
    and "request_mdoc t1 a1 = Inr r1" "request_mdoc t2 a2 = Inr r2"
    and "request_values r1 = (request_values r2 :: 'f list)"
  shows "t1 = t2 \<and> a1 = a2"
proof -
  note p1 = request_parts [OF assms(2)] and p2 = request_parts [OF assms(3)]
  have ok: "pattern_ok (credential_type r1)" "pattern_ok (credential_type r2)"
    "pat_window (credential_type r1) = DOC_TYPE_WINDOW" "pat_window (credential_type r2) = DOC_TYPE_WINDOW"
    using keyed_pattern [OF p1(1)] keyed_pattern [OF p2(1)] windows_ok(1) by blast+
  then have "length (pattern_values (credential_type r1) :: 'f list) = length (pattern_values (credential_type r2) :: 'f list)"
    by (simp add: length_pattern_values)
  then have "pattern_values (credential_type r1) = (pattern_values (credential_type r2) :: 'f list)"
    "pattern_values (attribute r1) = (pattern_values (attribute r2) :: 'f list)"
    using assms(4) by (simp_all add: request_values_def)
  then show ?thesis
    using keyed_pattern_inj [OF assms(1) windows_ok(1) _ p1(1) p2(1)] keyed_pattern_inj [OF assms(1) windows_ok(2) _ p1(2) p2(2)]
    by (simp add: DOC_TYPE_WINDOW_def IDENTIFIER_WINDOW_def NUM_BITS_def)
qed

theorem request_values_determine_witness:
  "\<exists>r. request_mdoc (ascii ''pid'') (ascii ''birth_date'') = Inr r \<and>
     (request_values r :: rat list) = request_values r \<and>
     ascii ''pid'' = ascii ''pid'' \<and> ascii ''birth_date'' = ascii ''birth_date''"
proof -
  obtain r where "request_mdoc (ascii ''pid'') (ascii ''birth_date'') = Inr r"
    by (simp add: request_mdoc_def pattern_doc_type_def pattern_identifier_def text_head_def pattern_new_def
        DOC_TYPE_WINDOW_def IDENTIFIER_WINDOW_def DOC_TYPE_KEY_def IDENTIFIER_KEY_def window_fixed_def)
  with request_values_determine [OF scalar_repr_rat this this refl] show ?thesis by blast
qed

end
