(* ===== verification/P256.thy ===== *)
theory P256
  imports Bits
begin

text \<open>
  P-256 points and ECDSA verification inside the rules (\<open>gadgets/p256.rs\<close>), and the native
  computation of the values that the rules allocate.

  The curve arithmetic of the crate \<open>halo2curves\<close> is a parameter. Its affine points appear as their
  coordinates (\<open>Affine\<close>), its points as elements of an abelian group, and \<open>constants\<close> builds the fixed
  points from the group's operations. \<open>curve_law\<close> is what the rules rely on: chords and tangents give
  sums and doubles, and no point has order two.
\<close>

section \<open>Keys, signatures and points\<close>

definition ORDER :: bytes where
  "ORDER = concat [[0xff, 0xff, 0xff, 0xff], [0x00, 0x00, 0x00, 0x00], [0xff, 0xff, 0xff, 0xff], [0xff, 0xff, 0xff, 0xff],
    [0xbc, 0xe6, 0xfa, 0xad], [0xa7, 0x17, 0x9e, 0x84], [0xf3, 0xb9, 0xca, 0xc2], [0xfc, 0x63, 0x25, 0x51]]"

record PublicKey =
  key_x :: bytes
  key_y :: bytes

record Signature =
  sig_r :: bytes
  sig_s_inv :: bytes

record 'f Affine =
  ax :: 'f
  ay :: 'f

definition from_point :: "('f::field \<Rightarrow> nat) \<Rightarrow> 'f Affine \<Rightarrow> PublicKey" where
  "from_point repr p = \<lparr>key_x = to_be repr (ax p), key_y = to_be repr (ay p)\<rparr>"

text \<open>A scalar of the group is the integer below the order that it represents.\<close>

definition scalar :: "bytes \<Rightarrow> nat option" where
  "scalar bs = (if be_val bs < be_val ORDER then Some (be_val bs) else None)"

definition scalar_to_be :: "nat \<Rightarrow> bytes" where
  "scalar_to_be s = be_bytes 32 s"

definition from_rs :: "(nat \<Rightarrow> nat option) \<Rightarrow> bytes \<Rightarrow> bytes \<Rightarrow> Signature" where
  "from_rs invert r s =
    (let s_inv = (case Option.bind (scalar s) invert of Some i \<Rightarrow> i | None \<Rightarrow> 0)
     in \<lparr>sig_r = r, sig_s_inv = scalar_to_be s_inv\<rparr>)"

record 'f Point =
  px :: "'f Lc"
  py :: "'f Lc"

definition point_constant :: "'f::field Affine \<Rightarrow> 'f Point" where
  "point_constant p = \<lparr>px = lc_constant (ax p), py = lc_constant (ay p)\<rparr>"

definition point_alloc :: "PublicKey option \<Rightarrow> ('f::field Point, 'f) synth" where
  "point_alloc key =
     sbind (ns ''x'' (lc_alloc (map_option (\<lambda>k. from_be (key_x k)) key))) (\<lambda>x.
     sbind (ns ''y'' (lc_alloc (map_option (\<lambda>k. from_be (key_y k)) key))) (\<lambda>y.
     sret \<lparr>px = x, py = y\<rparr>))"

section \<open>The formulas as rules\<close>

definition from_slope :: "'f::field Lc \<Rightarrow> 'f Point \<Rightarrow> 'f Lc \<Rightarrow> ('f Point, 'f) synth" where
  "from_slope lambda p other_x =
     sbind (ns ''x'' (lc_alloc (val3 (val lambda) (val (px p)) (val other_x) (\<lambda>l a b. l * l - a - b)))) (\<lambda>x.
     sbind (ns ''x rule'' (product lambda lambda (lc_add (lc_add x (px p)) other_x))) (\<lambda>_.
     sbind (ns ''y'' (lc_alloc (val4 (val lambda) (val (px p)) (val x) (val (py p)) (\<lambda>l a x y. l * (a - x) - y)))) (\<lambda>y.
     sbind (ns ''y rule'' (product lambda (lc_sub (px p) x) (lc_add y (py p)))) (\<lambda>_.
     sret \<lparr>px = x, py = y\<rparr>))))"

definition point_add :: "'f::field Point \<Rightarrow> 'f Point \<Rightarrow> ('f Point, 'f) synth" where
  "point_add p q =
    (let dx = lc_sub (px q) (px p); dy = lc_sub (py q) (py p) in
     sbind (ns ''different x'' (nonzero dx)) (\<lambda>_.
     sbind (ns ''slope'' (lc_alloc (val2 (val dx) (val dy) (\<lambda>dx dy. dy * inverse dx)))) (\<lambda>lambda.
     sbind (ns ''slope rule'' (product lambda dx dy)) (\<lambda>_.
     ns ''sum'' (from_slope lambda p (px q))))))"

definition point_double :: "'f::field Point \<Rightarrow> ('f Point, 'f) synth" where
  "point_double p =
     sbind (ns ''x squared'' (mul (px p) (px p))) (\<lambda>xx.
     let rise = lc_sub (lc_scale xx 3) (lc_small 3); run = lc_scale (py p) 2 in
     sbind (ns ''slope'' (lc_alloc (val2 (val rise) (val run) (\<lambda>rise run. rise * inverse run)))) (\<lambda>lambda.
     sbind (ns ''slope rule'' (product lambda run rise)) (\<lambda>_.
     ns ''double'' (from_slope lambda p (px p)))))"

definition point_choose :: "'f::field Boolean \<Rightarrow> 'f Point \<Rightarrow> 'f Point \<Rightarrow> ('f Point, 'f) synth" where
  "point_choose b if0 if1 =
     sbind (ns ''x'' (mux (lc_bit b) (px if0) (px if1))) (\<lambda>x.
     sbind (ns ''y'' (mux (lc_bit b) (py if0) (py if1))) (\<lambda>y.
     sret \<lparr>px = x, py = y\<rparr>))"

section \<open>The fixed points\<close>

record 'f Constants =
  k_start :: "'f Affine"
  k_start_removed :: "'f Affine"
  k_windows :: "'f Affine list list"
  k_offsets_removed :: "'f Affine"

text \<open>
  What the code uses of the curve: the group's generator, the affine coordinates of a point and the
  point of affine coordinates on the curve, the equation's coefficients, the Legendre symbol and the
  parity of a field element.
\<close>

record ('g, 'f) curve =
  generator :: 'g
  to_affine :: "'g \<Rightarrow> 'f Affine"
  from_xy :: "'f \<Rightarrow> 'f \<Rightarrow> 'g option"
  coeff_a :: 'f
  coeff_b :: 'f
  legendre :: "'f \<Rightarrow> int"
  is_odd :: "'f \<Rightarrow> bool"

definition SQRT_EXPONENT :: "nat list" where
  "SQRT_EXPONENT = [0, 0x40000000, 0x4000000000000000, 0x3fffffffc0000000]"

definition pow_vartime :: "'f::field \<Rightarrow> nat list \<Rightarrow> 'f" where
  "pow_vartime x limbs = x ^ foldr (\<lambda>l e. l + 2 ^ 64 * e) limbs 0"

text \<open>
  Try-and-increment may never find a point, so the loop is a partial function, whose value \<open>None\<close> is not returning.
  \<open>Some None\<close> is the panic of the code's \<open>expect\<close>, when the curve refuses the point. The counter is 64 bits wide: it
  wraps in \<open>be_bytes 8\<close>.
\<close>

partial_function (option) hash_to_point_from ::
  "(bytes \<Rightarrow> bytes) \<Rightarrow> ('g, 'f::field) curve \<Rightarrow> bytes \<Rightarrow> nat \<Rightarrow> nat \<Rightarrow> 'g option option" where
  "hash_to_point_from sha C label index counter =
    (let digest = sha (label @ be_bytes 8 index @ be_bytes 8 counter);
         x = from_be digest;
         y_squared = x * x * x + coeff_a C * x + coeff_b C
     in if legendre C y_squared \<noteq> -1
        then (let y = pow_vartime y_squared SQRT_EXPONENT; y = (if is_odd C y then - y else y) in Some (from_xy C x y))
        else hash_to_point_from sha C label index (counter + 1))"

definition hash_to_point :: "(bytes \<Rightarrow> bytes) \<Rightarrow> ('g, 'f::field) curve \<Rightarrow> bytes \<Rightarrow> nat \<Rightarrow> 'g option option" where
  "hash_to_point sha C label index = hash_to_point_from sha C label index 0"

text \<open>The rest of a function after a call that may not return, or panic.\<close>

definition attempt :: "'a option option \<Rightarrow> ('a \<Rightarrow> 'b option option) \<Rightarrow> 'b option option" where
  "attempt x k = (case x of None \<Rightarrow> None | Some None \<Rightarrow> Some None | Some (Some y) \<Rightarrow> k y)"

fun all_attempts :: "'a option option list \<Rightarrow> 'a list option option" where
  "all_attempts [] = Some (Some [])"
| "all_attempts (x # xs) = attempt x (\<lambda>y. attempt (all_attempts xs) (\<lambda>ys. Some (Some (y # ys))))"

text \<open>One window: the four entries and the base of the next window.\<close>

definition window_entries :: "'g::ab_group_add \<Rightarrow> 'g \<Rightarrow> 'g list" where
  "window_entries offset base = fst (fold (\<lambda>_ (entries, entry). (entries @ [entry], entry + base)) [0..<4] ([], offset))"

fun window_chain :: "'g::ab_group_add list \<Rightarrow> 'g \<Rightarrow> 'g \<Rightarrow> 'g list list \<Rightarrow> 'g list list \<times> 'g" where
  "window_chain [] base offsets entries = (entries, offsets)"
| "window_chain (offset # os) base offsets entries =
     window_chain os ((base + base) + (base + base)) (offsets + offset) (entries @ [window_entries offset base])"

fun all_some :: "'a option list \<Rightarrow> 'a list option" where
  "all_some [] = Some []"
| "all_some (x # xs) = (case x of None \<Rightarrow> None | Some y \<Rightarrow> map_option ((#) y) (all_some xs))"

definition constants :: "(bytes \<Rightarrow> bytes) \<Rightarrow> ('g::ab_group_add, 'f::field) curve \<Rightarrow> 'f Constants option option" where
  "constants sha C =
    attempt (hash_to_point sha C (ascii ''vega-age accumulator start'') 0) (\<lambda>start.
    let shifted = fold (\<lambda>_ p. p + p) [0..<256] start in
    attempt (all_attempts (map (hash_to_point sha C (ascii ''vega-age window offset'')) [0..<128])) (\<lambda>offsets.
    let (entries, total) = window_chain offsets (generator C) 0 [] in
    Some (Some \<lparr>k_start = to_affine C start, k_start_removed = to_affine C (- shifted),
          k_windows = map (map (to_affine C)) entries, k_offsets_removed = to_affine C (- total)\<rparr>)))"

section \<open>Multiplication and verification\<close>

definition multiply_bit ::
  "'f::field Point \<Rightarrow> nat \<times> 'f Boolean \<Rightarrow> 'f Point \<Rightarrow> ('f Point, 'f) synth" where
  "multiply_bit p = (\<lambda>(i, b) acc. ns (''bit '' @ show_nat i)
     (sbind (ns ''double'' (point_double acc)) (\<lambda>doubled.
      sbind (ns ''add'' (point_add doubled p)) (\<lambda>added.
      ns ''choose'' (point_choose b doubled added)))))"

definition multiply :: "'f::field Constants \<Rightarrow> 'f Boolean list \<Rightarrow> 'f Point \<Rightarrow> ('f Point, 'f) synth" where
  "multiply K bs p =
     sbind (sassert (length bs = 256)) (\<lambda>_.
     sbind (sfold (multiply_bit p) (zip [0..<length bs] bs) (point_constant (k_start K))) (\<lambda>acc.
     ns ''remove start'' (point_add acc (point_constant (k_start_removed K)))))"

definition window_coordinate :: "'f::field Lc \<Rightarrow> 'f Lc \<Rightarrow> 'f Lc \<Rightarrow> 'f list \<Rightarrow> 'f Lc" where
  "window_coordinate low high both c =
     lc_add (lc_add (lc_add (lc_constant (c ! 0)) (lc_scale low (c ! 1 - c ! 0))) (lc_scale high (c ! 2 - c ! 0)))
       (lc_scale both (c ! 3 - c ! 2 - c ! 1 + c ! 0))"

definition generator_window ::
  "'f::field Boolean list \<Rightarrow> nat \<times> 'f Affine list \<Rightarrow> 'f Point option \<Rightarrow> ('f Point option, 'f) synth" where
  "generator_window bs = (\<lambda>(i, entries) total. ns (''window '' @ show_nat i)
     (let high = lc_bit (bs ! (254 - 2 * i)); low = lc_bit (bs ! (255 - 2 * i)) in
      sbind (ns ''both bits'' (mul high low)) (\<lambda>both.
      let entry = \<lparr>px = window_coordinate low high both (map ax entries), py = window_coordinate low high both (map ay entries)\<rparr> in
      case total of
        None \<Rightarrow> sret (Some entry)
      | Some t \<Rightarrow> sbind (ns ''add'' (point_add t entry)) (\<lambda>s. sret (Some s)))))"

definition multiply_generator :: "'f::field Constants \<Rightarrow> 'f Boolean list \<Rightarrow> ('f Point, 'f) synth" where
  "multiply_generator K bs =
     sbind (sassert (length bs = 256)) (\<lambda>_.
     sbind (sfold (generator_window bs) (zip [0..<length (k_windows K)] (k_windows K)) None) (\<lambda>total.
     case total of
       None \<Rightarrow> sfail Panicked
     | Some t \<Rightarrow> ns ''remove offsets'' (point_add t (point_constant (k_offsets_removed K)))))"

section \<open>The values, computed natively\<close>

record 'f Jacobian =
  jx :: 'f
  jy :: 'f
  jz :: 'f

definition jac_from_affine :: "'f::field Affine \<Rightarrow> 'f Jacobian" where
  "jac_from_affine p = \<lparr>jx = ax p, jy = ay p, jz = 1\<rparr>"

definition jac_double :: "'f::field Jacobian \<Rightarrow> 'f Jacobian" where
  "jac_double p =
    (let delta = jz p * jz p;
         gamma = jy p * jy p;
         b2 = jx p * gamma + jx p * gamma;
         beta4 = b2 + b2;
         a1 = (jx p - delta) * (jx p + delta);
         alpha = (a1 + a1) + a1;
         x = alpha * alpha - (beta4 + beta4);
         z = (jy p + jz p) * (jy p + jz p) - gamma - delta;
         g1 = gamma * gamma; g2 = g1 + g1; g4 = g2 + g2;
         y = alpha * (beta4 - x) - (g4 + g4)
     in \<lparr>jx = x, jy = y, jz = z\<rparr>)"

definition jac_add_affine :: "'f::field Jacobian \<Rightarrow> 'f Affine \<Rightarrow> 'f Jacobian" where
  "jac_add_affine p q =
    (let zz = jz p * jz p;
         h = ax q * zz - jx p;
         r = ay q * zz * jz p - jy p;
         hh = h * h;
         hhh = hh * h;
         v = jx p * hh;
         x = r * r - hhh - (v + v);
         y = r * (v - x) - jy p * hhh
     in \<lparr>jx = x, jy = y, jz = jz p * h\<rparr>)"

definition invert_all :: "'f::field list \<Rightarrow> 'f list option" where
  "invert_all vs = (if list_ex (\<lambda>v. v = 0) vs then None else Some (inverse_all vs))"

definition normalize :: "'f::field Jacobian list \<Rightarrow> 'f Affine list option" where
  "normalize points =
     map_option (\<lambda>inverses. map (\<lambda>(p, z). let zz = z * z in \<lparr>ax = jx p * zz, ay = jy p * zz * z\<rparr>) (zip points inverses))
       (invert_all (map jz points))"

definition add_values :: "'f::field list \<Rightarrow> 'f Affine \<Rightarrow> 'f Affine \<Rightarrow> 'f list \<times> 'f Affine" where
  "add_values vs p q =
    (let i = inverse (ax q - ax p);
         lambda = (ay q - ay p) * i;
         x = lambda * lambda - ax p - ax q;
         y = lambda * (ax p - x) - ay p
     in (vs @ [i, lambda, x, y], \<lparr>ax = x, ay = y\<rparr>))"

definition double_values :: "'f::field list \<Rightarrow> 'f Affine \<Rightarrow> 'f list \<times> 'f Affine" where
  "double_values vs p =
    (let xx = ax p * ax p;
         lambda = ((xx + xx) + xx - 3) * inverse (ay p + ay p);
         x = lambda * lambda - ax p - ax p;
         y = lambda * (ax p - x) - ay p
     in (vs @ [xx, lambda, x, y], \<lparr>ax = x, ay = y\<rparr>))"

definition choose_values :: "'f::field list \<Rightarrow> bool \<Rightarrow> 'f Affine \<Rightarrow> 'f Affine \<Rightarrow> 'f list \<times> 'f Affine" where
  "choose_values vs b if0 if1 = (let chosen = (if b then if1 else if0) in (vs @ [ax chosen, ay chosen], chosen))"

text \<open>One slope after the other, for the bits of a multiplication and the windows of the generator.\<close>

definition multiply_slow :: "'f::field list \<Rightarrow> bool list \<Rightarrow> 'f Affine \<Rightarrow> 'f Affine \<Rightarrow> 'f list \<times> 'f Affine" where
  "multiply_slow vs bs start p =
     fold (\<lambda>b (vs, acc).
       let (vs, doubled) = double_values vs acc;
           (vs, added) = add_values vs doubled p
       in choose_values vs b doubled added) bs (vs, start)"

definition generator_slow :: "'f::field list \<Rightarrow> 'f Affine list \<Rightarrow> (nat \<Rightarrow> bool) \<Rightarrow> 'f list \<times> 'f Affine" where
  "generator_slow vs entries both =
     fold (\<lambda>(i, entry) (vs, sum). add_values (values_bit vs (both i)) sum entry)
       (drop 1 (zip [0..<length entries] entries)) (values_bit vs (both 0), entries ! 0)"

text \<open>The chains in Jacobian coordinates.\<close>

fun multiply_points :: "'f::field Affine \<Rightarrow> bool list \<Rightarrow> 'f Jacobian \<Rightarrow> 'f Jacobian list" where
  "multiply_points p [] acc = []"
| "multiply_points p (b # bs) acc =
    (let doubled = jac_double acc; added = jac_add_affine doubled p
     in doubled # added # multiply_points p bs (if b then added else doubled))"

definition chain_accs :: "bool list \<Rightarrow> 'f Affine list \<Rightarrow> 'f Affine \<Rightarrow> 'f Affine list" where
  "chain_accs bs points start = start # map (\<lambda>(b, pair). pair ! of_bool b) (zip bs (chunks 2 points))"

definition chain_values ::
  "'f::field Affine \<Rightarrow> bool list \<Rightarrow> 'f Affine list \<Rightarrow> 'f Affine list \<Rightarrow> 'f list \<Rightarrow> 'f list \<Rightarrow> 'f list" where
  "chain_values p bs accs points inverses vs =
     fold (\<lambda>(i, b) vs.
       let acc = accs ! i; doubled = points ! (2 * i); added = points ! (2 * i + 1);
           xx = ax acc * ax acc;
           rise = (xx + xx) + xx - 3;
           v = inverses ! (2 * i + 1);
           vs = vs @ [xx, rise * inverses ! (2 * i), ax doubled, ay doubled];
           vs = vs @ [v, (ay p - ay doubled) * v, ax added, ay added]
       in fst (choose_values vs b doubled added)) (zip [0..<length bs] bs) vs"

definition multiply_chain :: "'f::field list \<Rightarrow> bool list \<Rightarrow> 'f Affine \<Rightarrow> 'f Affine \<Rightarrow> ('f list \<times> 'f Affine) option" where
  "multiply_chain vs bs start p =
     Option.bind (normalize (multiply_points p bs (jac_from_affine start))) (\<lambda>points.
     let accs = chain_accs bs points start in
     Option.bind (invert_all (concat (map (\<lambda>i. [ay (accs ! i) + ay (accs ! i), ax p - ax (points ! (2 * i))]) [0..<length bs]))) (\<lambda>inverses.
     Some (chain_values p bs accs points inverses vs, accs ! length bs)))"

definition multiply_values :: "'f::field Constants \<Rightarrow> 'f list \<Rightarrow> bool list \<Rightarrow> 'f Affine \<Rightarrow> 'f list \<times> 'f Affine" where
  "multiply_values K vs bs p =
    (let (vs, acc) = (case multiply_chain vs bs (k_start K) p of Some r \<Rightarrow> r | None \<Rightarrow> multiply_slow vs bs (k_start K) p)
     in add_values vs acc (k_start_removed K))"

fun generator_points :: "'f::field Affine list \<Rightarrow> 'f Jacobian \<Rightarrow> 'f Jacobian list" where
  "generator_points [] acc = []"
| "generator_points (entry # es) acc = (let acc = jac_add_affine acc entry in acc # generator_points es acc)"

definition sum_before :: "'f Affine list \<Rightarrow> 'f Affine list \<Rightarrow> nat \<Rightarrow> 'f Affine" where
  "sum_before entries totals i = (if i = 1 then entries ! 0 else totals ! (i - 2))"

definition window_values ::
  "'f::field Affine list \<Rightarrow> 'f Affine list \<Rightarrow> 'f list \<Rightarrow> (nat \<Rightarrow> bool) \<Rightarrow> nat \<Rightarrow> 'f list \<Rightarrow> 'f list" where
  "window_values entries totals inverses both i vs =
    (let total = sum_before entries totals i; entry = entries ! i; v = inverses ! (i - 1);
         vs = values_bit vs (both i)
     in vs @ [v, (ay entry - ay total) * v, ax (totals ! (i - 1)), ay (totals ! (i - 1))])"

definition generator_chain :: "'f::field list \<Rightarrow> 'f Affine list \<Rightarrow> (nat \<Rightarrow> bool) \<Rightarrow> 'f list \<times> 'f Affine option" where
  "generator_chain vs entries both =
    (case normalize (generator_points (drop 1 entries) (jac_from_affine (entries ! 0))) of
       None \<Rightarrow> (vs, None)
     | Some totals \<Rightarrow>
       (case invert_all (map (\<lambda>i. ax (entries ! i) - ax (sum_before entries totals i)) [1..<length entries]) of
          None \<Rightarrow> (vs, None)
        | Some inverses \<Rightarrow>
            (fold (window_values entries totals inverses both) [1..<length entries] (values_bit vs (both 0)),
             if totals = [] then None else Some (last totals))))"

definition generator_entries :: "'f::field Constants \<Rightarrow> bool list \<Rightarrow> 'f Affine list" where
  "generator_entries K bs =
     map (\<lambda>i. (k_windows K ! i) ! (2 * of_bool (bs ! (254 - 2 * i)) + of_bool (bs ! (255 - 2 * i)))) [0..<length (k_windows K)]"

definition generator_values :: "'f::field Constants \<Rightarrow> 'f list \<Rightarrow> bool list \<Rightarrow> 'f list \<times> 'f Affine" where
  "generator_values K vs bs =
    (let both = (\<lambda>i. bs ! (254 - 2 * i) \<and> bs ! (255 - 2 * i));
         entries = generator_entries K bs;
         (vs, total) = (case generator_chain vs entries both of
            (vs, Some t) \<Rightarrow> (vs, t) | (vs, None) \<Rightarrow> generator_slow vs entries both)
     in add_values vs total (k_offsets_removed K))"

definition verify_values ::
  "'f::field Constants \<Rightarrow> 'f Boolean list \<Rightarrow> 'f Point \<Rightarrow> Signature option \<Rightarrow> synth_error + 'f list" where
  "verify_values K digest key signature =
     rbind (ok_or AssignmentMissing
       (Option.bind (all_some (map bool_value digest)) (\<lambda>digest.
        Option.bind signature (\<lambda>signature.
        Option.bind (val (px key)) (\<lambda>x.
        Option.bind (val (py key)) (\<lambda>y. Some (signature, digest, \<lparr>ax = x, ay = y\<rparr>))))))) (\<lambda>(signature, digest, key).
     let r = be_bits (sig_r signature); s_inv = be_bits (sig_s_inv signature);
         vs = values_bits (values_bits [] r) s_inv;
         vs = fold (\<lambda>(bs, bytes) vs. less_than_values vs bs ORDER @ [inverse (from_be bytes)])
                [(r, sig_r signature), (s_inv, sig_s_inv signature)] vs;
         (vs, z_g) = generator_values K vs digest;
         (vs, r_q) = multiply_values K vs r key;
         (vs, sum) = add_values vs z_g r_q;
         (vs, _) = multiply_values K vs s_inv sum
     in Inr vs)"

definition verify ::
  "'f::field bellpepper \<Rightarrow> 'f Constants \<Rightarrow> 'f Boolean list \<Rightarrow> 'f Point \<Rightarrow> Signature option \<Rightarrow> (unit, 'f) synth" where
  "verify L K digest key signature =
     sbind is_witness_generator (\<lambda>witness.
     if witness then sbind (of_result (verify_values K digest key signature)) extend_aux
     else
       sbind (ns ''r'' (alloc_bits L (map_option (\<lambda>s. be_bits (sig_r s)) signature) 256)) (\<lambda>r.
       sbind (ns ''s inverse'' (alloc_bits L (map_option (\<lambda>s. be_bits (sig_s_inv s)) signature) 256)) (\<lambda>s_inv.
       sbind (smap (\<lambda>(name, bs).
           sbind (ns (name @ '' below n'') (less_than bs ORDER)) (\<lambda>_.
           ns (name @ '' not zero'') (nonzero (pack bs)))) [(''r'', r), (''s inverse'', s_inv)]) (\<lambda>_.
       sbind (ns ''z G'' (multiply_generator K digest)) (\<lambda>z_g.
       sbind (ns ''r Q'' (multiply K r key)) (\<lambda>r_q.
       sbind (ns ''z G + r Q'' (point_add z_g r_q)) (\<lambda>sum.
       sbind (ns ''s inverse times the sum'' (multiply K s_inv sum)) (\<lambda>point.
       ns ''x equals r'' (equal (px point) (pack r))))))))))"

text \<open>The exponent is a quarter of the field's order plus one.\<close>

lemma sqrt_exponent: "4 * foldr (\<lambda>l e. l + 2 ^ 64 * e) SQRT_EXPONENT 0 = modulus + 1"
  by (simp add: SQRT_EXPONENT_def modulus_def)

section \<open>The chains compute the slow values\<close>

definition jac_is :: "'f::field Jacobian \<Rightarrow> 'f Affine \<Rightarrow> bool" where
  "jac_is J a \<longleftrightarrow> jz J \<noteq> 0 \<and> jx J = ax a * jz J ^ 2 \<and> jy J = ay a * jz J ^ 3"

definition chord :: "'f::field Affine \<Rightarrow> 'f Affine \<Rightarrow> 'f Affine" where
  "chord p q = snd (add_values [] p q)"

definition tangent :: "'f::field Affine \<Rightarrow> 'f Affine" where
  "tangent p = snd (double_values [] p)"

lemma add_values_chord:
  "add_values vs p q =
    (vs @ [inverse (ax q - ax p), (ay q - ay p) * inverse (ax q - ax p), ax (chord p q), ay (chord p q)], chord p q)"
  by (simp add: chord_def add_values_def Let_def)

lemma double_values_tangent:
  "double_values vs p =
    (vs @ [ax p * ax p, ((ax p * ax p + ax p * ax p) + ax p * ax p - 3) * inverse (ay p + ay p), ax (tangent p), ay (tangent p)],
     tangent p)"
  by (simp add: tangent_def double_values_def Let_def)

lemma jac_double_z: "jz (jac_double J) = 2 * jy J * jz J"
  by (simp add: jac_double_def Let_def algebra_simps)

lemma jac_double_is:
  assumes "jac_is J a" "jz (jac_double J) \<noteq> 0"
  shows "jac_is (jac_double J) (tangent a)"
proof -
  define x y z where "x = ax a" and "y = ay a" and "z = jz J"
  have J: "jx J = x * z ^ 2" "jy J = y * z ^ 3" "jz J = z"
    using assms(1) by (auto simp: jac_is_def x_def y_def z_def)
  have Z: "jz (jac_double J) = 2 * y * z ^ 4"
    unfolding jac_double_z J by (simp add: power3_eq_cube power4_eq_xxxx)
  define l where "l = ((x * x + x * x) + x * x - 3) * inverse (y + y)"
  have y2: "y + y \<noteq> 0" using assms(2) Z by auto
  have "(y + y) * l = (x * x + x * x) + x * x - 3" using y2 by (simp add: l_def)
  then have l: "2 * y * l = 3 * (x * x - 1)" by (simp add: algebra_simps)
  have t: "ax (tangent a) = l * l - x - x" "ay (tangent a) = l * (x - (l * l - x - x)) - y"
    by (simp_all add: tangent_def double_values_def Let_def l_def x_def y_def)
  define g where "g = 2 * y * l * z ^ 4"
  have alpha: "(x * z\<^sup>2 - z * z) * (x * z\<^sup>2 + z * z) + (x * z\<^sup>2 - z * z) * (x * z\<^sup>2 + z * z)
      + (x * z\<^sup>2 - z * z) * (x * z\<^sup>2 + z * z) = g"
    unfolding g_def l by (simp add: algebra_simps power2_eq_square power4_eq_xxxx)
  have X: "jx (jac_double J) = (l * l - x - x) * (2 * y * z ^ 4) ^ 2"
    unfolding jac_double_def Let_def J alpha
    by (simp add: g_def algebra_simps power2_eq_square power3_eq_cube power4_eq_xxxx)
  have "jy (jac_double J) = g * (4 * x * y * y * z ^ 8 - jx (jac_double J)) - 8 * y ^ 4 * z ^ 12"
    unfolding jac_double_def Let_def J alpha
    by (simp add: algebra_simps power2_eq_square power3_eq_cube power4_eq_xxxx eval_nat_numeral)
  then have Y: "jy (jac_double J) = (l * (x - (l * l - x - x)) - y) * (2 * y * z ^ 4) ^ 3"
    unfolding X g_def by (simp add: algebra_simps eval_nat_numeral)
  show ?thesis using assms(2) X Y by (simp add: jac_is_def Z t)
qed

lemma jac_add_affine_is:
  assumes "jac_is J a" "jz (jac_add_affine J q) \<noteq> 0"
  shows "jac_is (jac_add_affine J q) (chord a q)"
proof -
  define x y z where "x = ax a" and "y = ay a" and "z = jz J"
  have J: "jx J = x * z ^ 2" "jy J = y * z ^ 3" "jz J = z"
    using assms(1) by (auto simp: jac_is_def x_def y_def z_def)
  define d where "d = ax q - x"
  have Z: "jz (jac_add_affine J q) = z ^ 3 * d"
    by (simp add: jac_add_affine_def Let_def J d_def algebra_simps power2_eq_square power3_eq_cube)
  then have d: "d \<noteq> 0" using assms(2) by auto
  define l where "l = (ay q - y) * inverse d"
  have l: "ay q - y = l * d" using d by (simp add: l_def)
  have t: "ax (chord a q) = l * l - x - ax q" "ay (chord a q) = l * (x - (l * l - x - ax q)) - y"
    by (simp_all add: chord_def add_values_def Let_def l_def x_def y_def d_def)
  have h: "ax q * (z * z) - x * z\<^sup>2 = d * z ^ 2" by (simp add: d_def algebra_simps power2_eq_square)
  have "ay q * (z * z) * z - y * z ^ 3 = (ay q - y) * z ^ 3" by (simp add: algebra_simps power3_eq_cube)
  then have r: "ay q * (z * z) * z - y * z ^ 3 = l * d * z ^ 3" by (simp only: l)
  have q: "ax q = d + x" by (simp add: d_def)
  have X: "jx (jac_add_affine J q) = (l * l - x - ax q) * (z ^ 3 * d) ^ 2"
    unfolding jac_add_affine_def Let_def J h r unfolding q
    by (simp add: algebra_simps eval_nat_numeral)
  have Y: "jy (jac_add_affine J q) = (l * (x - (l * l - x - ax q)) - y) * (z ^ 3 * d) ^ 3"
    unfolding jac_add_affine_def Let_def J h r unfolding q
    by (simp add: algebra_simps eval_nat_numeral)
  show ?thesis using assms(2) X Y by (simp add: jac_is_def Z t)
qed

lemma normalize_some:
  assumes "normalize js = Some ps"
  shows "length ps = length js" "\<forall>j \<in> set js. jz j \<noteq> 0" "\<And>i a. i < length js \<Longrightarrow> jac_is (js ! i) a \<Longrightarrow> ps ! i = a"
proof -
  have js: "\<forall>j \<in> set js. jz j \<noteq> 0" and ps: "ps = map (\<lambda>(p, z). let zz = z * z in \<lparr>ax = jx p * zz, ay = jy p * zz * z\<rparr>) (zip js (inverse_all (map jz js)))"
    using assms by (auto simp: normalize_def invert_all_def list_ex_iff split: if_splits)
  show "\<forall>j \<in> set js. jz j \<noteq> 0" by (rule js)
  show len: "length ps = length js" by (simp add: ps inverse_all_correct)
  show "ps ! i = a" if "i < length js" "jac_is (js ! i) a" for i a
    using that len by (simp add: ps inverse_all_correct Let_def jac_is_def power2_eq_square power3_eq_cube field_simps)
qed

text \<open>The affine points of a multiplication, its accumulators, and the denominators of its slopes.\<close>

fun affine_points :: "'f::field Affine \<Rightarrow> bool list \<Rightarrow> 'f Affine \<Rightarrow> 'f Affine list" where
  "affine_points p [] acc = []"
| "affine_points p (b # bs) acc =
    (let doubled = tangent acc; added = chord doubled p
     in doubled # added # affine_points p bs (if b then added else doubled))"

fun affine_accs :: "'f::field Affine \<Rightarrow> bool list \<Rightarrow> 'f Affine \<Rightarrow> 'f Affine list" where
  "affine_accs p [] acc = [acc]"
| "affine_accs p (b # bs) acc =
     acc # affine_accs p bs (if b then chord (tangent acc) p else tangent acc)"

definition denominators :: "'f::field Affine \<Rightarrow> nat \<Rightarrow> 'f Affine list \<Rightarrow> 'f Affine list \<Rightarrow> 'f list" where
  "denominators p n accs points = concat (map (\<lambda>i. [ay (accs ! i) + ay (accs ! i), ax p - ax (points ! (2 * i))]) [0..<n])"

lemma upt_0_Suc: "[0..<Suc n] = 0 # map Suc [0..<n]"
  by (simp add: map_Suc_upt upt_conv_Cons del: upt_Suc)

lemma jacobian_points:
  assumes "jac_is J acc" "\<forall>j \<in> set (multiply_points p bs J). jz j \<noteq> 0"
  shows "list_all2 jac_is (multiply_points p bs J) (affine_points p bs acc)"
  using assms
proof (induction bs arbitrary: J acc)
  case (Cons b bs)
  have d: "jac_is (jac_double J) (tangent acc)" using Cons.prems by (intro jac_double_is) (auto simp: Let_def)
  have a: "jac_is (jac_add_affine (jac_double J) p) (chord (tangent acc) p)"
    using Cons.prems by (intro jac_add_affine_is [OF d]) (auto simp: Let_def)
  show ?case using Cons.prems d a Cons.IH by (auto simp: Let_def)
qed simp

lemma normalize_all2:
  assumes "normalize js = Some ps" "list_all2 jac_is js as"
  shows "ps = as"
  using normalize_some [OF assms(1)] assms(2) by (intro nth_equalityI) (auto simp: list_all2_conv_all_nth)

lemma jac_from_affine_is [simp]: "jac_is (jac_from_affine p) p"
  by (simp add: jac_is_def jac_from_affine_def)

lemma chain_accs_affine: "chain_accs bs (affine_points p bs acc) acc = affine_accs p bs acc"
proof (induction bs arbitrary: acc)
  case (Cons b bs)
  then show ?case
    using Cons.IH [of "if b then chord (tangent acc) p else tangent acc"]
    by (simp add: chain_accs_def Let_def chunks_rec)
qed (simp add: chain_accs_def)

lemma denominators_Cons:
  "denominators p (Suc n) (acc # accs) (d # a # points) = (ay acc + ay acc) # (ax p - ax d) # denominators p n accs points"
  unfolding denominators_def upt_0_Suc by (simp add: comp_def)

lemma chain_values_Cons:
  "chain_values p (b # bs) (acc # accs) (d # a # points) (i0 # i1 # is) vs =
     chain_values p bs accs points is (fst (choose_values (vs @ [ax acc * ax acc, ((ax acc * ax acc + ax acc * ax acc) + ax acc * ax acc - 3) * i0,
       ax d, ay d, i1, (ay p - ay d) * i1, ax a, ay a]) b d a))"
  unfolding chain_values_def length_Cons upt_0_Suc
  by (simp add: zip_map1 fold_map comp_def split_def Let_def)

lemma chain_is_slow:
  "(chain_values p bs (affine_accs p bs acc) (affine_points p bs acc)
      (map inverse (denominators p (length bs) (affine_accs p bs acc) (affine_points p bs acc))) vs,
    affine_accs p bs acc ! length bs) = multiply_slow vs bs acc p"
proof (induction bs arbitrary: acc vs)
  case Nil
  then show ?case by (simp add: chain_values_def multiply_slow_def)
next
  case (Cons b bs)
  let ?next = "if b then chord (tangent acc) p else tangent acc"
  let ?step = "fst (choose_values (vs @ [ax acc * ax acc,
      ((ax acc * ax acc + ax acc * ax acc) + ax acc * ax acc - 3) * inverse (ay acc + ay acc), ax (tangent acc), ay (tangent acc),
      inverse (ax p - ax (tangent acc)), (ay p - ay (tangent acc)) * inverse (ax p - ax (tangent acc)),
      ax (chord (tangent acc) p), ay (chord (tangent acc) p)]) b (tangent acc) (chord (tangent acc) p))"
  have "multiply_slow vs (b # bs) acc p = multiply_slow ?step bs ?next p"
    by (simp add: multiply_slow_def Let_def choose_values_def add_values_chord double_values_tangent)
  then show ?case
    using Cons.IH [of ?next ?step] by (simp only: affine_accs.simps affine_points.simps Let_def denominators_Cons
      chain_values_Cons length_Cons list.map nth_Cons_Suc)
qed

lemma multiply_chain_slow: "multiply_chain vs bs start p = Some r \<Longrightarrow> r = multiply_slow vs bs start p"
proof -
  assume "multiply_chain vs bs start p = Some r"
  then obtain points inverses where run: "normalize (multiply_points p bs (jac_from_affine start)) = Some points"
    "invert_all (denominators p (length bs) (chain_accs bs points start) points) = Some inverses"
    "r = (chain_values p bs (chain_accs bs points start) points inverses vs, chain_accs bs points start ! length bs)"
    by (auto simp: multiply_chain_def Let_def denominators_def split: bind_splits)
  have points: "points = affine_points p bs start"
    using normalize_all2 [OF run(1)] jacobian_points [OF jac_from_affine_is] normalize_some(2) [OF run(1)] by blast
  have "inverses = map inverse (denominators p (length bs) (affine_accs p bs start) points)"
    using run(2) by (auto simp: invert_all_def inverse_all_correct points chain_accs_affine split: if_splits)
  then show ?thesis using run(3) chain_is_slow [of p bs start vs] by (simp add: points chain_accs_affine)
qed

fun affine_sums :: "'f::field Affine list \<Rightarrow> 'f Affine \<Rightarrow> 'f Affine list" where
  "affine_sums [] acc = []"
| "affine_sums (e # es) acc = chord acc e # affine_sums es (chord acc e)"

lemma jacobian_sums:
  "jac_is J acc \<Longrightarrow> \<forall>j \<in> set (generator_points es J). jz j \<noteq> 0 \<Longrightarrow>
     list_all2 jac_is (generator_points es J) (affine_sums es acc)"
  by (induction es arbitrary: J acc) (auto simp: Let_def intro: jac_add_affine_is)

text \<open>The windows after the first, with their indices moved down by one.\<close>

lemma window_values_shift:
  "window_values (ea # es) totals inverses both (Suc i) vs =
    (let total = (ea # totals) ! i; v = inverses ! i
     in values_bit vs (both (Suc i)) @ [v, (ay (es ! i) - ay total) * v, ax (totals ! i), ay (totals ! i)])"
  by (cases i) (simp_all add: window_values_def sum_before_def Let_def)

lemma windows_are_slow:
  "(fold (\<lambda>i vs. let total = (ea # affine_sums es ea) ! i; v = inverse (ax (es ! i) - ax total)
       in values_bit vs (both i) @ [v, (ay (es ! i) - ay total) * v, ax (affine_sums es ea ! i), ay (affine_sums es ea ! i)])
     [0..<length es] vs, last (ea # affine_sums es ea))
   = fold (\<lambda>(i, entry) (vs, total). add_values (values_bit vs (both i)) total entry) (zip [0..<length es] es) (vs, ea)"
proof (induction es arbitrary: ea vs both)
  case (Cons e es)
  show ?case
    unfolding length_Cons upt_0_Suc
    using Cons.IH [where both = "\<lambda>i. both (Suc i)" and ea = "chord ea e"]
    by (simp add: fold_map comp_def zip_map1 split_def add_values_chord Let_def)
qed simp

lemma length_generator_points: "length (generator_points es J) = length es"
  by (induction es arbitrary: J) (simp_all add: Let_def)

lemma generator_chain_slow:
  assumes "generator_chain vs entries both = (vs', Some t)"
  shows "(vs', t) = generator_slow vs entries both"
proof -
  obtain totals inverses where run: "normalize (generator_points (drop 1 entries) (jac_from_affine (entries ! 0))) = Some totals"
    "invert_all (map (\<lambda>i. ax (entries ! i) - ax (sum_before entries totals i)) [1..<length entries]) = Some inverses"
    "vs' = fold (window_values entries totals inverses both) [1..<length entries] (values_bit vs (both 0))"
    "totals \<noteq> []" "t = last totals"
    using assms by (auto simp: generator_chain_def split: option.splits if_splits)
  obtain ea es where entries: "entries = ea # es"
    using run(1,4) by (cases entries) (auto simp: normalize_def invert_all_def inverse_all_correct)
  have totals: "totals = affine_sums es ea"
    using normalize_all2 [OF run(1)] jacobian_sums [OF jac_from_affine_is] normalize_some(2) [OF run(1)]
    by (auto simp: entries)
  have upt: "[1..<length entries] = map Suc [0..<length es]" by (simp add: entries map_Suc_upt del: upt_Suc)
  have before: "sum_before (ea # es) totals (Suc i) = (ea # totals) ! i" for i
    by (cases i) (simp_all add: sum_before_def)
  have inverses: "inverses = map (\<lambda>i. inverse (ax (es ! i) - ax ((ea # totals) ! i))) [0..<length es]"
    using run(2) unfolding upt by (auto simp: invert_all_def inverse_all_correct before entries split: if_splits)
  have fold: "vs' = fold (\<lambda>i vs. let total = (ea # totals) ! i; v = inverse (ax (es ! i) - ax total)
       in values_bit vs (both (Suc i)) @ [v, (ay (es ! i) - ay total) * v, ax (totals ! i), ay (totals ! i)])
     [0..<length es] (values_bit vs (both 0))"
    unfolding run(3) upt fold_map
    by (rule fold_cong) (auto simp: entries window_values_shift inverses Let_def)
  have slow: "generator_slow vs entries both
      = fold (\<lambda>(i, entry) (vs, total). add_values (values_bit vs (both (Suc i))) total entry) (zip [0..<length es] es)
          (values_bit vs (both 0), ea)"
    unfolding generator_slow_def entries length_Cons upt_0_Suc
    by (simp add: zip_map1 fold_map comp_def split_def)
  show ?thesis
    unfolding slow using windows_are_slow [where both = "\<lambda>i. both (Suc i)" and vs = "values_bit vs (both 0)" and ea = ea and es = es] run(4,5) fold
    by (simp add: totals)
qed

section \<open>The rules compute in the group\<close>

text \<open>
  The law of the curve that the rules rely on: no point has order two and tangents give doubles,
  points with different x-coordinates are not opposite and chords give their sums, and a point made
  of coordinates on the curve is not the identity.
\<close>

definition curve_law :: "('g::ab_group_add, 'f::field) curve \<Rightarrow> bool" where
  "curve_law C \<longleftrightarrow>
     (\<forall>P. P \<noteq> 0 \<longrightarrow> P + P \<noteq> 0 \<and> ay (to_affine C P) + ay (to_affine C P) \<noteq> 0 \<and>
        to_affine C (P + P) = tangent (to_affine C P)) \<and>
     (\<forall>P Q. P \<noteq> 0 \<longrightarrow> Q \<noteq> 0 \<longrightarrow> ax (to_affine C P) \<noteq> ax (to_affine C Q) \<longrightarrow>
        P + Q \<noteq> 0 \<and> to_affine C (P + Q) = chord (to_affine C P) (to_affine C Q)) \<and>
     (\<forall>x y P. from_xy C x y = Some P \<longrightarrow> P \<noteq> 0)"

lemma curve_lawD:
  assumes "curve_law C" "P \<noteq> 0"
  shows "P + P \<noteq> 0" "ay (to_affine C P) + ay (to_affine C P) \<noteq> 0" "to_affine C (P + P) = tangent (to_affine C P)"
    "Q \<noteq> 0 \<Longrightarrow> ax (to_affine C P) \<noteq> ax (to_affine C Q) \<Longrightarrow> P + Q \<noteq> 0"
    "Q \<noteq> 0 \<Longrightarrow> ax (to_affine C P) \<noteq> ax (to_affine C Q) \<Longrightarrow> to_affine C (P + Q) = chord (to_affine C P) (to_affine C Q)"
  using assms unfolding curve_law_def by blast+

primrec times :: "nat \<Rightarrow> 'g::ab_group_add \<Rightarrow> 'g" where
  "times 0 P = 0"
| "times (Suc n) P = P + times n P"

lemma times_add: "times (m + n) P = times m P + times n P"
  by (induction m) (simp_all add: add.assoc)

lemma times_plus: "times n (P + Q) = times n P + times n Q"
  by (induction n) (simp_all add: algebra_simps)

lemma times_mult: "times (m * n) P = times m (times n P)"
  by (induction m) (simp_all add: times_add)

lemma times_zero [simp]: "times n 0 = 0"
  by (induction n) simp_all

lemma times_double: "times (2 * n) P = times n P + times n P"
  by (simp add: times_add mult_2)

definition point_is :: "('g::ab_group_add, 'f::field) curve \<Rightarrow> (var \<Rightarrow> 'f) \<Rightarrow> 'f Point \<Rightarrow> 'g \<Rightarrow> bool" where
  "point_is C w p P \<longleftrightarrow> P \<noteq> 0 \<and> lcv w (px p) = ax (to_affine C P) \<and> lcv w (py p) = ay (to_affine C P)"

lemma point_is_constant:
  "assignment w \<Longrightarrow> P \<noteq> 0 \<Longrightarrow> point_is C w (point_constant (to_affine C P)) P"
  by (simp add: point_is_def point_constant_def)

lemma sound_from_slope:
  "sound w (from_slope lambda p other_x) (\<lambda>r.
     lcv w (px r) = lcv w lambda * lcv w lambda - lcv w (px p) - lcv w other_x \<and>
     lcv w (py r) = lcv w lambda * (lcv w (px p) - lcv w (px r)) - lcv w (py p))"
  unfolding from_slope_def
  by (rule sound_sbind [OF sound_True], rule sound_sbind [OF sound_ns [OF sound_product]],
      rule sound_sbind [OF sound_True], rule sound_sbind [OF sound_ns [OF sound_product]], rule sound_sret)
     (simp add: algebra_simps)

lemma slope_unique: "l * d = n \<Longrightarrow> d \<noteq> 0 \<Longrightarrow> l = n * inverse (d :: 'f::field)"
  by (auto simp: mult.assoc)

lemma sound_point_add:
  assumes C: "curve_law C" and w: "assignment (w :: var \<Rightarrow> 'f::field)" and p: "point_is C w p P" and q: "point_is C w q Q"
  shows "sound w (point_add p q) (\<lambda>r. point_is C w r (P + Q))"
  unfolding point_add_def Let_def
proof (rule sound_sbind [OF sound_ns [OF sound_nonzero [OF w]]], rule sound_sbind [OF sound_True],
    rule sound_sbind [OF sound_ns [OF sound_product]], rule sound_ns, rule sound_mono [OF sound_from_slope])
  fix lambda :: "'f Lc" and r :: "'f Point"
  assume dx: "lcv w (lc_sub (px q) (px p)) \<noteq> 0"
    and slope: "lcv w lambda * lcv w (lc_sub (px q) (px p)) = lcv w (lc_sub (py q) (py p))"
    and r: "lcv w (px r) = lcv w lambda * lcv w lambda - lcv w (px p) - lcv w (px q) \<and>
      lcv w (py r) = lcv w lambda * (lcv w (px p) - lcv w (px r)) - lcv w (py p)"
  have ne: "ax (to_affine C P) \<noteq> ax (to_affine C Q)" using dx p q by (simp add: point_is_def)
  then have sum: "P + Q \<noteq> 0" "to_affine C (P + Q) = chord (to_affine C P) (to_affine C Q)"
    using curve_lawD(4,5) [OF C, of P Q] p q by (simp_all add: point_is_def)
  have "lcv w lambda = (ay (to_affine C Q) - ay (to_affine C P)) * inverse (ax (to_affine C Q) - ax (to_affine C P))"
    by (rule slope_unique) (use slope dx p q in \<open>simp_all add: point_is_def\<close>)
  then show "point_is C w r (P + Q)"
    using r p q sum by (simp add: point_is_def chord_def add_values_def Let_def)
qed

lemma sound_point_double:
  assumes C: "curve_law C" and w: "assignment (w :: var \<Rightarrow> 'f::field)" and p: "point_is C w p P"
  shows "sound w (point_double p) (\<lambda>r. point_is C w r (P + P))"
  unfolding point_double_def Let_def
proof (rule sound_sbind [OF sound_ns [OF sound_mul]], rule sound_sbind [OF sound_True],
    rule sound_sbind [OF sound_ns [OF sound_product]], rule sound_ns, rule sound_mono [OF sound_from_slope])
  fix xx lambda :: "'f Lc" and r :: "'f Point"
  assume xx: "lcv w xx = lcv w (px p) * lcv w (px p)"
    and slope: "lcv w lambda * lcv w (lc_scale (py p) 2) = lcv w (lc_sub (lc_scale xx 3) (lc_small 3))"
    and r: "lcv w (px r) = lcv w lambda * lcv w lambda - lcv w (px p) - lcv w (px p) \<and>
      lcv w (py r) = lcv w lambda * (lcv w (px p) - lcv w (px r)) - lcv w (py p)"
  have sum: "P + P \<noteq> 0" "to_affine C (P + P) = tangent (to_affine C P)"
    and run: "ay (to_affine C P) + ay (to_affine C P) \<noteq> 0"
    using curve_lawD(1-3) [OF C] p unfolding point_is_def by blast+
  have "lcv w lambda * (ay (to_affine C P) + ay (to_affine C P)) =
      (ax (to_affine C P) * ax (to_affine C P) + ax (to_affine C P) * ax (to_affine C P)) + ax (to_affine C P) * ax (to_affine C P) - 3"
    using slope xx p w by (simp add: point_is_def algebra_simps)
  then have lambda: "lcv w lambda = ((ax (to_affine C P) * ax (to_affine C P) + ax (to_affine C P) * ax (to_affine C P))
      + ax (to_affine C P) * ax (to_affine C P) - 3) * inverse (ay (to_affine C P) + ay (to_affine C P))"
    using run by (rule slope_unique)
  have "tangent (to_affine C P) = \<lparr>ax = lcv w lambda * lcv w lambda - ax (to_affine C P) - ax (to_affine C P),
      ay = lcv w lambda * (ax (to_affine C P) - (lcv w lambda * lcv w lambda - ax (to_affine C P) - ax (to_affine C P)))
        - ay (to_affine C P)\<rparr>"
    by (simp only: tangent_def double_values_def Let_def snd_conv lambda [symmetric])
  then show "point_is C w r (P + P)" using r p sum by (simp add: point_is_def)
qed

lemma sound_point_choose:
  assumes "is_bit w b" "point_is C w p P" "point_is C w q Q"
  shows "sound w (point_choose b p q) (\<lambda>r. point_is C w r (if bval w b then Q else P))"
proof -
  have b: "lcv w (lc_bit b) = 0 \<or> lcv w (lc_bit b) = 1" using assms(1) by (simp add: is_bit_def)
  show ?thesis
    unfolding point_choose_def
    by (rule sound_sbind [OF sound_ns [OF sound_mux [OF b]]], rule sound_sbind [OF sound_ns [OF sound_mux [OF b]]],
        rule sound_sret) (use assms in \<open>auto simp: point_is_def bval_def\<close>)
qed

text \<open>The fixed points: the start \<open>A\<close> of the accumulator and the windows' offsets.\<close>

definition constants_of :: "('g::ab_group_add, 'f::field) curve \<Rightarrow> 'f Constants \<Rightarrow> 'g \<Rightarrow> 'g list \<Rightarrow> bool" where
  "constants_of C K A offsets \<longleftrightarrow>
     k_start K = to_affine C A \<and> k_start_removed K = to_affine C (- times (2 ^ 256) A) \<and> length offsets = 128 \<and>
     k_windows K = map (\<lambda>i. map (\<lambda>d. to_affine C (times (d * 4 ^ i) (generator C) + offsets ! i)) [0..<4]) [0..<128] \<and>
     k_offsets_removed K = to_affine C (- sum_list offsets)"

text \<open>No fixed point is the identity, which has no affine coordinates.\<close>

definition constants_regular :: "('g::ab_group_add, 'f::field) curve \<Rightarrow> 'g \<Rightarrow> 'g list \<Rightarrow> bool" where
  "constants_regular C A offsets \<longleftrightarrow> A \<noteq> 0 \<and> sum_list offsets \<noteq> 0 \<and>
     (\<forall>i < 128. \<forall>d < 4. times (d * 4 ^ i) (generator C) + offsets ! i \<noteq> 0)"

lemma shifted_times: "fold (\<lambda>_ p. p + p) [0..<n] P = times (2 ^ n) P"
  by (induction n) (simp_all add: times_double)

lemma window_entries_times: "window_entries offset base = map (\<lambda>d. times d base + offset) [0..<4]"
  by (simp add: window_entries_def upt_rec numeral_eq_Suc algebra_simps)

lemma window_chain_times:
  "window_chain os (times (4 ^ j) G) t es =
    (es @ map (\<lambda>i. map (\<lambda>d. times (d * 4 ^ (j + i)) G + os ! i) [0..<4]) [0..<length os], t + sum_list os)"
proof (induction os arbitrary: j t es)
  case (Cons a os)
  have base: "times (4 ^ j) G + times (4 ^ j) G + (times (4 ^ j) G + times (4 ^ j) G) = times (4 ^ Suc j) G"
  proof -
    have "(4::nat) ^ Suc j = 4 ^ j + 4 ^ j + (4 ^ j + 4 ^ j)" by simp
    then show ?thesis by (simp only: times_add)
  qed
  show ?case
    unfolding length_Cons upt_0_Suc window_chain.simps base Cons.IH
    by (simp add: window_entries_times times_mult algebra_simps)
qed simp

lemma attempt_eq: "attempt x k = Some (Some z) \<longleftrightarrow> (\<exists>y. x = Some (Some y) \<and> k y = Some (Some z))"
  by (auto simp: attempt_def split: option.splits)

lemma all_attempts_length: "all_attempts xs = Some (Some ys) \<Longrightarrow> length ys = length xs"
  by (induction xs arbitrary: ys) (auto simp: attempt_eq)

lemma constants_are:
  assumes "constants sha C = Some (Some K)"
  shows "\<exists>A offsets. constants_of C K A offsets"
proof -
  obtain A offsets where run: "all_attempts (map (hash_to_point sha C (ascii ''vega-age window offset'')) [0..<128]) = Some (Some offsets)"
    "K = \<lparr>k_start = to_affine C A, k_start_removed = to_affine C (- times (2 ^ 256) A),
       k_windows = map (map (to_affine C)) (fst (window_chain offsets (generator C) 0 [])),
       k_offsets_removed = to_affine C (- snd (window_chain offsets (generator C) 0 []))\<rparr>"
    using assms unfolding constants_def attempt_eq Let_def shifted_times case_prod_unfold by auto
  have "length offsets = 128" using all_attempts_length [OF run(1)] by (simp del: upt_rec_numeral)
  then have "constants_of C K A offsets"
    using run(2) window_chain_times [of offsets 0 "generator C" 0 "[]"]
    by (auto simp: constants_of_def comp_def simp del: upt_rec_numeral)
  then show ?thesis by blast
qed

lemma times_nonzero: "curve_law (C :: ('g::ab_group_add, 'f::field) curve) \<Longrightarrow> P \<noteq> (0 :: 'g) \<Longrightarrow> times (2 ^ n) P \<noteq> 0"
proof (induction n)
  case (Suc n)
  then show ?case using curve_lawD(1) [of C "times (2 ^ n) P"] by (simp add: times_double)
qed simp

lemma sound_multiply_bit:
  assumes C: "curve_law C" and w: "assignment (w :: var \<Rightarrow> 'f::field)" and p: "point_is C w p P"
    and acc: "point_is C w acc R" and b: "is_bit w b"
  shows "sound w (multiply_bit p (i, b) acc) (\<lambda>r. point_is C w r (R + R + (if bval w b then P else 0)))"
  unfolding multiply_bit_def prod.case
  by (rule sound_ns, rule sound_sbind [OF sound_ns [OF sound_point_double [OF C w acc]]],
      rule sound_sbind [OF sound_ns [OF sound_point_add [OF C w _ p]]], assumption, rule sound_ns,
      rule sound_mono [OF sound_point_choose [OF b]], assumption, assumption)
     (simp split: if_splits)

lemma sound_multiply:
  assumes C: "curve_law C" and w: "assignment (w :: var \<Rightarrow> 'f::field)" and p: "point_is C w p P"
    and K: "constants_of C K A offsets" "A \<noteq> 0" and bs: "list_all (is_bit w) bs"
  shows "sound w (multiply K bs p) (\<lambda>r. point_is C w r (times (bin_val (bvals w bs)) P))"
  unfolding multiply_def
proof (rule sound_sbind [OF sound_sassert], assumption)
  assume len: "length bs = 256"
  let ?zs = "zip [0..<length bs] bs"
  let ?I = "\<lambda>i acc. point_is C w acc (times (2 ^ i) A + times (bin_val (bvals w (take i bs))) P)"
  have fold: "sound w (sfold (multiply_bit p) ?zs (point_constant (k_start K))) (?I (length ?zs))"
  proof (rule sound_sfold)
    show "?I 0 (point_constant (k_start K))" using K point_is_constant [OF w] by (simp add: constants_of_def)
    fix i acc assume i: "i < length ?zs" and acc: "?I i acc"
    let ?R = "times (2 ^ i) A + times (bin_val (bvals w (take i bs))) P"
    have "is_bit w (bs ! i)" using bs i by (simp add: list_all_length)
    note step = sound_multiply_bit [OF C w p acc this, of i]
    have "?R + ?R + (if bval w (bs ! i) then P else 0)
        = times (2 ^ Suc i) A + times (bin_val (bvals w (take (Suc i) bs))) P"
      using i by (simp add: take_Suc_conv_app_nth times_double times_add algebra_simps)
    then show "sound w (multiply_bit p (?zs ! i) acc) (?I (Suc i))" using step i by simp
  qed
  show "sound w (sbind (sfold (multiply_bit p) ?zs (point_constant (k_start K))) (\<lambda>acc.
      ns ''remove start'' (point_add acc (point_constant (k_start_removed K)))))
      (\<lambda>r. point_is C w r (times (bin_val (bvals w bs)) P))"
  proof (rule sound_sbind [OF fold], rule sound_ns)
    fix acc assume "?I (length ?zs) acc"
    then have acc: "point_is C w acc (times (2 ^ 256) A + times (bin_val (bvals w bs)) P)" using len by simp
    have "point_is C w (point_constant (k_start_removed K)) (- times (2 ^ 256) A)"
      using K times_nonzero [OF C, of A 256] point_is_constant [OF w, of "- times (2 ^ 256) A" C]
      by (simp add: constants_of_def)
    from sound_point_add [OF C w acc this]
    show "sound w (point_add acc (point_constant (k_start_removed K))) (\<lambda>r. point_is C w r (times (bin_val (bvals w bs)) P))"
      by simp
  qed
qed

text \<open>A window's entry, for the digit that its two bits write.\<close>

lemma window_coordinate_value:
  assumes w: "assignment (w :: var \<Rightarrow> 'f::field)" and b: "is_bit w low" "is_bit w high"
    and both: "lcv w both = lcv w (lc_bit high) * lcv w (lc_bit low)"
  shows "lcv w (window_coordinate (lc_bit low) (lc_bit high) both c) =
    c ! (2 * of_bool (bval w high) + of_bool (bval w low))"
  using b by (auto simp: window_coordinate_def w both is_bit_def bval_def)

definition window_digit :: "bool list \<Rightarrow> nat \<Rightarrow> nat" where
  "window_digit bs i = 2 * of_bool (bs ! (254 - 2 * i)) + of_bool (bs ! (255 - 2 * i))"

lemma digits_value:
  assumes "length bs = 256" "m \<le> 128"
  shows "bin_val (drop (256 - 2 * m) bs) = (\<Sum>i<m. window_digit bs i * 4 ^ i)"
  using assms(2)
proof (induction m)
  case (Suc m)
  have i: "256 - 2 * Suc m = 254 - 2 * m" "Suc (254 - 2 * m) = 255 - 2 * m" "Suc (255 - 2 * m) = 256 - 2 * m"
    using Suc.prems by arith+
  have "drop (254 - 2 * m) bs = bs ! (254 - 2 * m) # bs ! (255 - 2 * m) # drop (256 - 2 * m) bs"
    using Suc.prems assms(1) i Cons_nth_drop_Suc [of "254 - 2 * m" bs] Cons_nth_drop_Suc [of "255 - 2 * m" bs] by simp
  moreover have "256 - (256 - 2 * m) = 2 * m" "(2 ^ (2 * m) :: nat) = 4 ^ m" using Suc.prems by (simp_all add: power_mult)
  ultimately show ?case
    using Suc by (simp add: i bin_val_Cons assms(1) window_digit_def algebra_simps)
qed (use assms(1) in simp)

lemma sound_generator_window:
  assumes C: "curve_law C" and w: "assignment (w :: var \<Rightarrow> 'f::field)"
    and bs: "length bs = 256" "list_all (is_bit w) bs" and i: "i < 128"
    and K: "constants_of C K A offsets" "constants_regular C A offsets"
    and tot: "case tot of None \<Rightarrow> T = 0 | Some t \<Rightarrow> point_is C w t T"
  shows "sound w (generator_window bs (i, k_windows K ! i) tot) (\<lambda>r. \<exists>t. r = Some t \<and>
    point_is C w t (T + (times (window_digit (bvals w bs) i * 4 ^ i) (generator C) + offsets ! i)))"
proof -
  let ?d = "window_digit (bvals w bs) i"
  let ?low = "bs ! (255 - 2 * i)" and ?high = "bs ! (254 - 2 * i)"
  let ?E = "times (?d * 4 ^ i) (generator C) + offsets ! i"
  have bits: "is_bit w ?low" "is_bit w ?high" using bs by (simp_all add: list_all_length)
  have d: "?d = 2 * of_bool (bval w ?high) + of_bool (bval w ?low)" using bs(1) by (simp add: window_digit_def)
  have d4: "?d < 4" unfolding d by (simp add: of_bool_def)
  have entries: "k_windows K ! i = map (\<lambda>d. to_affine C (times (d * 4 ^ i) (generator C) + offsets ! i)) [0..<4]"
    using K(1) i by (simp add: constants_of_def del: upt_rec_numeral)
  then have nth: "map ax (k_windows K ! i) ! ?d = ax (to_affine C ?E)" "map ay (k_windows K ! i) ! ?d = ay (to_affine C ?E)"
    using d4 by (simp_all del: upt_rec_numeral)
  have E: "?E \<noteq> 0" using K(2) i d4 by (simp add: constants_regular_def)
  show ?thesis
    unfolding generator_window_def prod.case Let_def
  proof (rule sound_ns, rule sound_sbind [OF sound_ns [OF sound_mul]])
    fix both :: "'f Lc" assume both: "lcv w both = lcv w (lc_bit ?high) * lcv w (lc_bit ?low)"
    let ?e = "\<lparr>px = window_coordinate (lc_bit ?low) (lc_bit ?high) both (map ax (k_windows K ! i)),
      py = window_coordinate (lc_bit ?low) (lc_bit ?high) both (map ay (k_windows K ! i))\<rparr>"
    have e: "point_is C w ?e ?E"
      using window_coordinate_value [OF w bits both] nth E unfolding d by (simp add: point_is_def)
    show "sound w (case tot of None \<Rightarrow> sret (Some ?e) | Some t \<Rightarrow> sbind (ns ''add'' (point_add t ?e)) (\<lambda>s. sret (Some s)))
        (\<lambda>r. \<exists>t. r = Some t \<and> point_is C w t (T + ?E))"
    proof (cases tot)
      case None
      then show ?thesis using e tot by (auto intro!: sound_sret)
    next
      case (Some t)
      then have t: "point_is C w t T" using tot by simp
      show ?thesis
        unfolding Some option.case
        by (rule sound_sbind [OF sound_ns [OF sound_point_add [OF C w t e]]]) (auto intro!: sound_sret)
    qed
  qed
qed

lemma sound_multiply_generator:
  assumes C: "curve_law C" and w: "assignment (w :: var \<Rightarrow> 'f::field)"
    and K: "constants_of C K A offsets" "constants_regular C A offsets" and bs: "list_all (is_bit w) bs"
  shows "sound w (multiply_generator K bs) (\<lambda>r. point_is C w r (times (bin_val (bvals w bs)) (generator C)))"
  unfolding multiply_generator_def
proof (rule sound_sbind [OF sound_sassert], assumption)
  assume len: "length bs = 256"
  have K128: "length (k_windows K) = 128" "length offsets = 128" using K(1) by (simp_all add: constants_of_def del: upt_rec_numeral)
  let ?zs = "zip [0..<length (k_windows K)] (k_windows K)"
  let ?T = "\<lambda>m. times (\<Sum>i<m. window_digit (bvals w bs) i * 4 ^ i) (generator C) + sum_list (take m offsets)"
  let ?I = "\<lambda>m tot. (case tot of None \<Rightarrow> m = 0 | Some t \<Rightarrow> point_is C w t (?T m))"
  have fold: "sound w (sfold (generator_window bs) ?zs None) (?I (length ?zs))"
  proof (rule sound_sfold)
    fix i tot assume "i < length ?zs" and tot: "?I i tot"
    then have i: "i < 128" using K128 by simp
    have "case tot of None \<Rightarrow> ?T i = 0 | Some t \<Rightarrow> point_is C w t (?T i)" using tot by (auto split: option.splits)
    note step = sound_generator_window [OF C w len bs i K this]
    have T: "?T i + (times (window_digit (bvals w bs) i * 4 ^ i) (generator C) + offsets ! i) = ?T (Suc i)"
      using i K128(2) by (simp add: take_Suc_conv_app_nth times_add algebra_simps)
    have zs: "?zs ! i = (i, k_windows K ! i)" using i K128(1) by simp
    show "sound w (generator_window bs (?zs ! i) tot) (?I (Suc i))"
      unfolding zs by (rule sound_mono [OF step]) (unfold T, auto)
  qed simp
  show "sound w (sbind (sfold (generator_window bs) ?zs None) (\<lambda>tot.
      case tot of None \<Rightarrow> sfail Panicked
      | Some t \<Rightarrow> ns ''remove offsets'' (point_add t (point_constant (k_offsets_removed K)))))
      (\<lambda>r. point_is C w r (times (bin_val (bvals w bs)) (generator C)))"
  proof (rule sound_sbind [OF fold])
    fix tot assume I: "?I (length ?zs) tot"
    have off: "point_is C w (point_constant (k_offsets_removed K)) (- sum_list offsets)"
      using K point_is_constant [OF w, of "- sum_list offsets" C] by (simp add: constants_of_def constants_regular_def)
    have T: "?T 128 = times (bin_val (bvals w bs)) (generator C) + sum_list offsets"
      using digits_value [of "bvals w bs" 128] len K128(2) by simp
    show "sound w (case tot of None \<Rightarrow> sfail Panicked
        | Some t \<Rightarrow> ns ''remove offsets'' (point_add t (point_constant (k_offsets_removed K))))
        (\<lambda>r. point_is C w r (times (bin_val (bvals w bs)) (generator C)))"
    proof (cases tot)
      case (Some t)
      then have "point_is C w t (times (bin_val (bvals w bs)) (generator C) + sum_list offsets)" using I T K128(1) by simp
      from sound_point_add [OF C w this off] show ?thesis unfolding Some option.case by (intro sound_ns) simp
    qed (simp add: sound_sfail)
  qed
qed

text \<open>What the verification accepts: \<open>r\<close> and \<open>s\<^sup>-\<^sup>1\<close> in range, and \<open>s\<^sup>-\<^sup>1 \<cdot> (z \<cdot> G + r \<cdot> Q)\<close> with x-coordinate \<open>r\<close>.\<close>

definition ecdsa_accepts :: "('g::ab_group_add, 'f::field) curve \<Rightarrow> 'g \<Rightarrow> nat \<Rightarrow> nat \<Rightarrow> nat \<Rightarrow> bool" where
  "ecdsa_accepts C Q z r s_inv \<longleftrightarrow>
     0 < r \<and> r < be_val ORDER \<and> 0 < s_inv \<and> s_inv < be_val ORDER \<and>
     (let R = times (s_inv * z) (generator C) + times (s_inv * r) Q in R \<noteq> 0 \<and> ax (to_affine C R) = of_nat r)"

lemma sound_verify:
  assumes L: "bellpepper_sound L" and C: "curve_law C" and w: "assignment (w :: var \<Rightarrow> 'f::field)"
    and K: "constants_of C K A offsets" "constants_regular C A offsets"
    and digest: "list_all (is_bit w) digest" and key: "point_is C w key Q"
  shows "sound w (verify L K digest key signature)
    (\<lambda>_. \<exists>r s_inv. ecdsa_accepts C Q (bin_val (bvals w digest)) r s_inv)"
proof -
  have A: "A \<noteq> 0" using K(2) by (simp add: constants_regular_def)
  have range: "sound w (smap (\<lambda>(name, bs). sbind (ns (name @ '' below n'') (less_than bs ORDER)) (\<lambda>_.
      ns (name @ '' not zero'') (nonzero (pack bs)))) xs)
      (list_all2 (\<lambda>(name, bs) _. 0 < bin_val (bvals w bs) \<and> bin_val (bvals w bs) < be_val ORDER) xs)"
    if bits: "\<forall>(name, bs) \<in> set xs. list_all (is_bit w) bs" for xs
  proof (rule sound_smap)
    fix x assume "x \<in> set xs"
    then obtain name bs where x: "x = (name, bs)" "list_all (is_bit w) bs" using bits by (cases x) auto
    show "sound w ((\<lambda>(name, bs). sbind (ns (name @ '' below n'') (less_than bs ORDER)) (\<lambda>_.
        ns (name @ '' not zero'') (nonzero (pack bs)))) x)
        ((\<lambda>(name, bs) _. 0 < bin_val (bvals w bs) \<and> bin_val (bvals w bs) < be_val ORDER) x)"
      unfolding x(1) prod.case
      by (rule sound_sbind [OF sound_ns [OF sound_less_than [OF w x(2)]]], rule sound_ns,
          rule sound_mono [OF sound_nonzero [OF w]]) (auto simp: lcv_pack [OF x(2)] intro: gr0I)
  qed
  show ?thesis
    unfolding verify_def
  proof (rule sound_unless_witness, unfold if_False,
      rule sound_sbind [OF sound_ns [OF sound_alloc_bits [OF L w]]], rule sound_sbind [OF sound_ns [OF sound_alloc_bits [OF L w]]],
      elim conjE, rule sound_sbind [OF range], simp)
    fix r s_inv :: "'f Boolean list" and us :: "unit list"
    assume r: "list_all (is_bit w) r" and s: "list_all (is_bit w) s_inv"
      and us: "list_all2 (\<lambda>(name, bs) _. 0 < bin_val (bvals w bs) \<and> bin_val (bvals w bs) < be_val ORDER)
        [(''r'', r), (''s inverse'', s_inv)] us"
    have "ecdsa_accepts C Q (bin_val (bvals w digest)) (bin_val (bvals w r)) (bin_val (bvals w s_inv))"
      if "point_is C w point (times (bin_val (bvals w s_inv)) (times (bin_val (bvals w digest)) (generator C) + times (bin_val (bvals w r)) Q))"
        "lcv w (px point) = lcv w (pack r)" for point
      using that us lcv_pack [OF r] by (auto simp: ecdsa_accepts_def point_is_def Let_def times_plus times_mult list_all2_Cons1)
    then show "sound w (sbind (ns ''z G'' (multiply_generator K digest)) (\<lambda>z_g.
       sbind (ns ''r Q'' (multiply K r key)) (\<lambda>r_q.
       sbind (ns ''z G + r Q'' (point_add z_g r_q)) (\<lambda>sum.
       sbind (ns ''s inverse times the sum'' (multiply K s_inv sum)) (\<lambda>point.
       ns ''x equals r'' (equal (px point) (pack r)))))))
       (\<lambda>_. \<exists>r s_inv. ecdsa_accepts C Q (bin_val (bvals w digest)) r s_inv)"
      by (intro sound_sbind [OF sound_ns [OF sound_multiply_generator [OF C w K digest]]]
          sound_sbind [OF sound_ns [OF sound_multiply [OF C w key K(1) A r]]] sound_ns)
         (rule sound_sbind [OF sound_ns [OF sound_point_add [OF C w]]], assumption, assumption,
          rule sound_sbind [OF sound_ns [OF sound_multiply [OF C w _ K(1) A s]]], assumption, rule sound_ns,
          rule sound_mono [OF sound_equal [OF w]], blast)
  qed
qed

subsection \<open>None of them takes a public input\<close>

lemma keeps_points [keeps_intros]: "keeps (point_add p q)" "keeps (point_double p)" "keeps (point_choose b p q)"
  unfolding point_add_def point_double_def point_choose_def from_slope_def Let_def by (intro keeps_intros)+

lemma keeps_multiply [keeps_intros]: "keeps (multiply K bs p)" "keeps (multiply_generator K bs)"
  unfolding multiply_def multiply_generator_def multiply_bit_def generator_window_def Let_def
  by (intro keeps_intros, auto split: prod.splits intro!: keeps_intros)+

lemma keeps_verify [keeps_intros]: "bellpepper_inputs L \<Longrightarrow> keeps (verify L K digest key signature)"
  unfolding verify_def by (intro keeps_intros)

section \<open>A curve with three points\<close>

text \<open>
  The laws can hold: the points \<open>(3, 4)\<close> and \<open>(3, -4)\<close> of \<open>y\<^sup>2 = x\<^sup>3 - 3 x - 2\<close> over the rationals are the
  doubles of each other, so with the identity they form a group of order three.
\<close>

datatype three = Zero | Plus | Minus

instantiation three :: ab_group_add
begin

definition zero_three :: three where "zero_three = Zero"

fun plus_three :: "three \<Rightarrow> three \<Rightarrow> three" where
  "plus_three Zero q = q"
| "plus_three p Zero = p"
| "plus_three Plus Plus = Minus"
| "plus_three Minus Minus = Plus"
| "plus_three p q = Zero"

fun uminus_three :: "three \<Rightarrow> three" where
  "uminus_three Zero = Zero"
| "uminus_three Plus = Minus"
| "uminus_three Minus = Plus"

definition minus_three :: "three \<Rightarrow> three \<Rightarrow> three" where "minus_three p q = p + - q"

instance
proof
  fix a b c :: three
  show "a + b + c = a + (b + c)" by (cases a; cases b; cases c) simp_all
  show "a + b = b + a" by (cases a; cases b) simp_all
  show "0 + a = a" by (simp add: zero_three_def)
  show "- a + a = 0" by (cases a) (simp_all add: zero_three_def)
  show "a - b = a + - b" by (simp add: minus_three_def)
qed

end

fun three_affine :: "three \<Rightarrow> rat Affine" where
  "three_affine Zero = \<lparr>ax = 0, ay = 0\<rparr>"
| "three_affine Plus = \<lparr>ax = 3, ay = 4\<rparr>"
| "three_affine Minus = \<lparr>ax = 3, ay = -4\<rparr>"

definition three_curve :: "(three, rat) curve" where
  "three_curve = \<lparr>generator = 0, to_affine = three_affine, from_xy = (\<lambda>_ _. Some Plus), coeff_a = -3, coeff_b = -2,
     legendre = (\<lambda>_. 1), is_odd = (\<lambda>_. False)\<rparr>"

lemma three_curve_law: "curve_law three_curve"
proof -
  have dbl: "P + P \<noteq> 0 \<and> ay (three_affine P) + ay (three_affine P) \<noteq> 0 \<and> three_affine (P + P) = tangent (three_affine P)"
    if "P \<noteq> 0" for P
    using that by (cases P) (simp_all add: zero_three_def tangent_def double_values_def)
  have same: "ax (three_affine P) = ax (three_affine Q)" if "P \<noteq> 0" "Q \<noteq> 0" for P Q
    using that by (cases P; cases Q) (simp_all add: zero_three_def)
  have fields: "to_affine three_curve = three_affine" "from_xy three_curve = (\<lambda>_ _. Some Plus)"
    by (simp_all add: three_curve_def)
  show ?thesis
    unfolding curve_law_def fields
  proof (intro conjI; intro allI impI)
    show "P \<noteq> 0" if "Some Plus = Some P" for P using that by (auto simp: zero_three_def)
  qed (use dbl same in blast)+
qed

lemma all_attempts_map: "all_attempts (map (\<lambda>i. Some (Some (f i))) xs) = Some (Some (map f xs))"
  by (induction xs) (simp_all add: attempt_def)

lemma three_hash: "hash_to_point sha three_curve label index = Some (Some Plus)"
  by (simp add: hash_to_point_def hash_to_point_from.simps three_curve_def Let_def)

lemma three_constants:
  "\<exists>K offsets. constants sha three_curve = Some (Some K) \<and> constants_of three_curve K Plus offsets \<and>
     constants_regular three_curve Plus offsets"
proof -
  have some: "all_attempts (map (hash_to_point sha three_curve l) xs) = Some (Some (map (\<lambda>_. Plus) xs))" for l and xs :: "nat list"
    using all_attempts_map [of "\<lambda>_. Plus" xs] three_hash [of sha l] by (simp add: fun_eq_iff map_eq_conv cong: map_cong)
  let ?os = "map (\<lambda>_. Plus) [0..<128 :: nat]"
  have chain: "window_chain ?os 0 0 [] = (map (\<lambda>i. map (\<lambda>d. times (d * 4 ^ i) 0 + ?os ! i) [0..<4]) [0..<128], sum_list ?os)"
    using window_chain_times [of ?os 0 0 0 "[]"] by (simp del: upt_rec_numeral)
  have sum: "sum_list (map (\<lambda>_. Plus) [0..<n]) = (if n mod 3 = 0 then 0 else if n mod 3 = 1 then Plus else Minus)" for n :: nat
    by (induction n) (auto simp: zero_three_def mod_Suc)
  define K where "K = \<lparr>k_start = three_affine Plus, k_start_removed = three_affine (- times (2 ^ 256) Plus),
    k_windows = map (map three_affine) (fst (window_chain ?os 0 0 [])), k_offsets_removed = three_affine (- sum_list ?os)\<rparr>"
  have "constants sha three_curve = Some (Some K)"
    unfolding constants_def some three_hash Let_def shifted_times
    by (simp add: attempt_def K_def chain three_curve_def del: upt_rec_numeral)
  moreover have "constants_of three_curve K Plus ?os"
    by (simp add: constants_of_def K_def chain three_curve_def comp_def del: upt_rec_numeral)
  moreover have "constants_regular three_curve Plus ?os"
  proof -
    have "Plus \<noteq> 0" "Minus \<noteq> 0" by (simp_all add: zero_three_def)
    then show ?thesis
      using sum [of 128] by (simp add: constants_regular_def three_curve_def del: upt_rec_numeral)
  qed
  ultimately show ?thesis by blast
qed

section \<open>Properties\<close>

text \<open>
  C25. ECDSA soundness: if the rules of \<open>verify\<close> hold under any assignment, then for some \<open>r\<close> and
  \<open>s\<^sup>-\<^sup>1\<close> in \<open>1..n\<close> the point \<open>s\<^sup>-\<^sup>1 \<cdot> z \<cdot> G + s\<^sup>-\<^sup>1 \<cdot> r \<cdot> Q\<close> is not the identity and its x-coordinate is \<open>r\<close>,
  where \<open>z\<close> is the integer of the digest's bits and \<open>Q\<close> the point that the key's slots hold. Neither
  the bits, nor the inverses, nor the slopes that the prover supplied matter.
\<close>

theorem ecdsa_rules_sound:
  assumes "bellpepper_sound L" "curve_law C" "assignment (w :: var \<Rightarrow> 'f::field)"
    and "constants_of C K A offsets" "constants_regular C A offsets"
    and "list_all (is_bit w) digest" "point_is C w key Q"
  shows "sound w (verify L K digest key signature)
    (\<lambda>_. \<exists>r s_inv. ecdsa_accepts C Q (bin_val (bvals w digest)) r s_inv)"
  using assms by (rule sound_verify)

definition all_ones :: "var \<Rightarrow> rat" where "all_ones _ = 1"

definition blank_bits :: "rat Boolean list" where "blank_bits = replicate 256 \<lparr>bool_lc = [], bool_value = None\<rparr>"

theorem ecdsa_rules_sound_witness:
  "\<exists>K. sound all_ones (verify plain_bellpepper K blank_bits \<lparr>px = lc_constant 3, py = lc_constant 4\<rparr> None)
     (\<lambda>_. \<exists>r s_inv. ecdsa_accepts three_curve Plus (bin_val (bvals all_ones blank_bits)) r s_inv)"
proof -
  obtain K offsets where K: "constants_of three_curve K Plus offsets" "constants_regular three_curve Plus offsets"
    using three_constants by blast
  have w: "assignment all_ones" by (simp add: assignment_def all_ones_def)
  have bits: "list_all (is_bit all_ones) blank_bits"
    by (simp add: list_all_length is_bit_def blank_bits_def)
  have key: "point_is three_curve all_ones \<lparr>px = lc_constant 3, py = lc_constant 4\<rparr> Plus"
    by (simp add: point_is_def three_curve_def zero_three_def w)
  show ?thesis
    by (rule exI, rule ecdsa_rules_sound [OF plain_bellpepper_sound three_curve_law w K bits key])
qed

text \<open>
  C26. The native values are the rules' values: the chains in Jacobian coordinates, with two
  inversions for a whole multiplication, record exactly the values and return exactly the point that
  the slopes give one after the other, for \<open>multiply_values\<close> and for \<open>generator_values\<close>.
\<close>

theorem native_values_are_slopes:
  assumes "2 \<le> length (k_windows K)"
  shows "multiply_values K vs bs p =
      (case multiply_slow vs bs (k_start K) p of (vs, acc) \<Rightarrow> add_values vs acc (k_start_removed K)) \<and>
    generator_values K vs bs =
      (case generator_slow vs (generator_entries K bs) (\<lambda>i. bs ! (254 - 2 * i) \<and> bs ! (255 - 2 * i)) of
         (vs, t) \<Rightarrow> add_values vs t (k_offsets_removed K))"
proof
  show "multiply_values K vs bs p =
      (case multiply_slow vs bs (k_start K) p of (vs, acc) \<Rightarrow> add_values vs acc (k_start_removed K))"
    using multiply_chain_slow [of vs bs "k_start K" p]
    by (auto simp: multiply_values_def split: option.splits)
  let ?e = "generator_entries K bs" and ?b = "\<lambda>i. bs ! (254 - 2 * i) \<and> bs ! (255 - 2 * i)"
  obtain vs' t where run: "generator_chain vs ?e ?b = (vs', t)" by fastforce
  have "length ?e = length (k_windows K)" by (simp add: generator_entries_def)
  then have "vs' = vs" if "t = None"
    using run that assms normalize_some(1) [of "generator_points (drop 1 ?e) (jac_from_affine (?e ! 0))"]
    by (auto simp: generator_chain_def length_generator_points split: option.splits if_splits)
  then show "generator_values K vs bs =
      (case generator_slow vs ?e ?b of (vs, t) \<Rightarrow> add_values vs t (k_offsets_removed K))"
    using generator_chain_slow [of vs ?e ?b vs'] run
    by (cases t) (auto simp: generator_values_def Let_def split: prod.splits)
qed

theorem native_values_are_slopes_witness:
  "\<exists>K :: rat Constants. multiply_values K [] [True] \<lparr>ax = 2, ay = 1\<rparr> =
      (case multiply_slow [] [True] (k_start K) \<lparr>ax = 2, ay = 1\<rparr> of (vs, acc) \<Rightarrow> add_values vs acc (k_start_removed K))"
proof -
  obtain K offsets where "constants_of three_curve K Plus offsets" using three_constants by blast
  then have "2 \<le> length (k_windows K)" by (simp add: constants_of_def del: upt_rec_numeral)
  from native_values_are_slopes [OF this, of "[]" "[True]" "\<lparr>ax = 2, ay = 1\<rparr>"] show ?thesis by blast
qed

text \<open>
  The fixed points: window \<open>i\<close> of \<open>constants\<close> holds \<open>d \<cdot> 4\<^sup>i \<cdot> G + B\<^sub>i\<close> for the digits \<open>d = 0..4\<close>, the last
  offset removes \<open>B\<^sub>0 + \<dots> + B\<^sub>1\<^sub>2\<^sub>7\<close>, and the accumulator's start \<open>A\<close> comes with \<open>- 2\<^sup>2\<^sup>5\<^sup>6 \<cdot> A\<close>.
\<close>

theorem constants_fixed_points:
  assumes "constants sha C = Some (Some K)"
  shows "\<exists>A offsets. constants_of C K A offsets"
  using assms by (rule constants_are)

theorem constants_fixed_points_witness:
  "\<exists>K. constants (\<lambda>_. []) three_curve = Some (Some K) \<and> (\<exists>A offsets. constants_of three_curve K A offsets)"
proof -
  obtain K where K: "constants (\<lambda>_. []) three_curve = Some (Some K)" using three_constants by blast
  with constants_fixed_points [OF K] show ?thesis by blast
qed

section \<open>Try-and-increment\<close>

text \<open>The points of the curve's equation, and what the code relies on of squares, roots and parity in the field.\<close>

definition on_curve :: "('g, 'f::field) curve \<Rightarrow> 'f Affine \<Rightarrow> bool" where
  "on_curve C p \<longleftrightarrow> ay p * ay p = ax p * ax p * ax p + coeff_a C * ax p + coeff_b C"

definition root_laws :: "('f::field \<Rightarrow> nat) \<Rightarrow> ('g, 'f) curve \<Rightarrow> bool" where
  "root_laws repr C \<longleftrightarrow>
     (\<forall>v. legendre C v = -1 \<longleftrightarrow> (\<forall>y. y * y \<noteq> v)) \<and> (\<forall>y :: 'f. y \<noteq> 0 \<longrightarrow> y ^ (modulus - 1) = 1) \<and>
     (\<forall>y. is_odd C y \<longleftrightarrow> odd (repr y)) \<and> repr 0 = 0 \<and> (\<forall>y. y \<noteq> 0 \<longrightarrow> repr y + repr (- y) = modulus) \<and>
     (\<forall>x y. on_curve C \<lparr>ax = x, ay = y\<rparr> \<longrightarrow> (\<exists>p. from_xy C x y = Some p \<and> to_affine C p = \<lparr>ax = x, ay = y\<rparr>))"

lemma square_root:
  fixes C :: "('g, 'f::field) curve" and y :: 'f
  assumes "root_laws repr C" "y * y = v"
  shows "pow_vartime v SQRT_EXPONENT * pow_vartime v SQRT_EXPONENT = v"
proof (cases "y = 0")
  case True
  then have "v = 0" using assms(2) by simp
  moreover have "0 < foldr (\<lambda>l e. l + 2 ^ 64 * e) SQRT_EXPONENT (0 :: nat)" by (simp add: SQRT_EXPONENT_def)
  ultimately show ?thesis by (simp add: pow_vartime_def power_0_left)
next
  case False
  define e where "e = foldr (\<lambda>l e. l + 2 ^ 64 * e) SQRT_EXPONENT (0 :: nat)"
  have e: "2 * (e + e) = modulus - 1 + 2" using sqrt_exponent unfolding e_def [symmetric] by (simp add: modulus_def)
  have "pow_vartime v SQRT_EXPONENT * pow_vartime v SQRT_EXPONENT = (y * y) ^ (e + e)"
    using assms(2) by (simp add: pow_vartime_def e_def power_add)
  also have "\<dots> = y ^ (2 * (e + e))" by (simp only: power_mult power2_eq_square)
  also have "\<dots> = y ^ (modulus - 1) * (y * y)" unfolding e by (simp add: power_add power2_eq_square)
  also have "\<dots> = v" using assms False by (simp add: root_laws_def)
  finally show ?thesis .
qed

lemma even_root:
  assumes "root_laws repr C"
  shows "even (repr (if is_odd C y then - y else y))"
proof (cases "is_odd C y")
  case True
  then have "y \<noteq> 0" using assms by (auto simp: root_laws_def)
  then have "repr y + repr (- y) = modulus" "odd (repr y)" using assms True by (auto simp: root_laws_def)
  moreover have "odd modulus" by (simp add: modulus_def)
  ultimately show ?thesis using True by (metis even_add)
qed (use assms in \<open>auto simp: root_laws_def\<close>)

text \<open>The candidate of a counter, and what one turn of the loop does with it.\<close>

definition candidate :: "(bytes \<Rightarrow> bytes) \<Rightarrow> bytes \<Rightarrow> nat \<Rightarrow> nat \<Rightarrow> 'f::field" where
  "candidate sha label index n = from_be (sha (label @ be_bytes 8 index @ be_bytes 8 n))"

lemma turn:
  assumes "root_laws repr C" and x: "x = candidate sha label index n"
  shows "if \<exists>y. on_curve C \<lparr>ax = x, ay = y\<rparr>
     then \<exists>p. hash_to_point_from sha C label index n = Some (Some p) \<and> on_curve C (to_affine C p) \<and> ax (to_affine C p) = x \<and> even (repr (ay (to_affine C p)))
     else hash_to_point_from sha C label index n = hash_to_point_from sha C label index (Suc n)"
proof -
  let ?v = "x * x * x + coeff_a C * x + coeff_b C"
  let ?r = "pow_vartime ?v SQRT_EXPONENT"
  let ?y = "if is_odd C ?r then - ?r else ?r"
  have step: "hash_to_point_from sha C label index n = (if legendre C ?v \<noteq> -1 then Some (from_xy C x ?y) else hash_to_point_from sha C label index (Suc n))"
    by (subst hash_to_point_from.simps) (simp add: Let_def x candidate_def)
  have leg: "legendre C ?v \<noteq> -1 \<longleftrightarrow> (\<exists>y. on_curve C \<lparr>ax = x, ay = y\<rparr>)"
    using assms(1) by (auto simp: root_laws_def on_curve_def)
  show ?thesis
  proof (cases "\<exists>y. on_curve C \<lparr>ax = x, ay = y\<rparr>")
    case True
    then obtain y where "y * y = ?v" by (auto simp: on_curve_def)
    from square_root [OF assms(1) this] have "on_curve C \<lparr>ax = x, ay = ?y\<rparr>" by (simp add: on_curve_def)
    then obtain p where "from_xy C x ?y = Some p" "to_affine C p = \<lparr>ax = x, ay = ?y\<rparr>" using assms(1) unfolding root_laws_def by blast
    then show ?thesis using True step leg even_root [OF assms(1), of ?r] \<open>on_curve C \<lparr>ax = x, ay = ?y\<rparr>\<close> by simp
  next
    case False
    then show ?thesis using step leg by simp
  qed
qed

lemma loop_finds:
  assumes "root_laws repr C"
  shows "(\<And>j. j < k \<Longrightarrow> \<nexists>y. on_curve C \<lparr>ax = candidate sha label index (n + j), ay = y\<rparr>) \<Longrightarrow>
    hash_to_point_from sha C label index n = hash_to_point_from sha C label index (n + k)"
proof (induction k)
  case (Suc k)
  have "\<nexists>y. on_curve C \<lparr>ax = candidate sha label index (n + k), ay = y\<rparr>" using Suc.prems by blast
  then have "hash_to_point_from sha C label index (n + k) = hash_to_point_from sha C label index (n + Suc k)"
    using turn [OF assms refl, of sha label index "n + k"] by (simp only: if_False add_Suc_right)
  moreover have "hash_to_point_from sha C label index n = hash_to_point_from sha C label index (n + k)"
    by (rule Suc.IH) (use Suc.prems in \<open>simp add: less_Suc_eq\<close>)
  ultimately show ?case by (rule trans [rotated])
qed simp

lemma loop_returns:
  "hash_to_point_from sha C label index n = Some r \<Longrightarrow> root_laws repr C \<Longrightarrow>
    \<exists>m \<ge> n. \<exists>y. on_curve C \<lparr>ax = candidate sha label index m, ay = y\<rparr>"
proof (induction rule: hash_to_point_from.raw_induct [rotated 1, consumes 1])
  case (1 f sha C label index n r)
  let ?x = "candidate sha label index n"
  let ?v = "?x * ?x * ?x + coeff_a C * ?x + coeff_b C"
  show ?case
  proof (cases "legendre C ?v \<noteq> -1")
    case True
    then obtain y where "y * y = ?v" using 1(3) unfolding root_laws_def by blast
    then show ?thesis by (intro exI [of _ n]) (auto simp: on_curve_def)
  next
    case False
    then have "f sha C label index (n + 1) = Some r" using 1(2) by (simp add: candidate_def Let_def)
    from 1(1) [OF this 1(3)] show ?thesis by (auto intro: Suc_leD)
  qed
qed

text \<open>
  C27. Try-and-increment returns the point it is meant to, for a curve over a field with the laws of squares and parity that hold modulo the
  prime: the point lies on the curve, its \<open>x\<close> is the hash of the label, the index and a counter, its \<open>y\<close> is even, and no smaller
  counter's hash is the \<open>x\<close> of any point of the curve. The code's \<open>expect\<close> never panics. The loop does not return
  exactly when no counter's hash is the \<open>x\<close> of a point.
\<close>

theorem hash_to_point_first:
  assumes "root_laws (repr :: 'f::field \<Rightarrow> nat) C"
  shows "case hash_to_point sha C label index of
      None \<Rightarrow> \<forall>n y. \<not> on_curve C \<lparr>ax = from_be (sha (label @ be_bytes 8 index @ be_bytes 8 n)), ay = y\<rparr>
    | Some None \<Rightarrow> False
    | Some (Some p) \<Rightarrow> on_curve C (to_affine C p) \<and> even (repr (ay (to_affine C p))) \<and>
        (\<exists>n. ax (to_affine C p) = from_be (sha (label @ be_bytes 8 index @ be_bytes 8 n)) \<and>
          (\<forall>j < n. \<forall>y. \<not> on_curve C \<lparr>ax = from_be (sha (label @ be_bytes 8 index @ be_bytes 8 j)), ay = y\<rparr>))"
proof (cases "\<exists>n y. on_curve C \<lparr>ax = candidate sha label index n, ay = y\<rparr>")
  case True
  define n where "n = (LEAST n. \<exists>y. on_curve C \<lparr>ax = candidate sha label index n, ay = y\<rparr>)"
  have hit: "\<exists>y. on_curve C \<lparr>ax = candidate sha label index n, ay = y\<rparr>"
    unfolding n_def using True by (rule LeastI_ex)
  have before: "\<nexists>y. on_curve C \<lparr>ax = candidate sha label index j, ay = y\<rparr>" if "j < n" for j
    using not_less_Least [OF that [unfolded n_def]] .
  obtain p where p: "hash_to_point_from sha C label index n = Some (Some p)" "on_curve C (to_affine C p)"
      "ax (to_affine C p) = candidate sha label index n" "even (repr (ay (to_affine C p)))"
    using turn [OF assms refl, of sha label index n] hit by auto
  have "hash_to_point_from sha C label index 0 = hash_to_point_from sha C label index (0 + n)"
    by (rule loop_finds [OF assms]) (use before in simp)
  then have "hash_to_point sha C label index = Some (Some p)" by (simp add: hash_to_point_def p(1))
  then show ?thesis using p before by (auto simp: candidate_def)
next
  case False
  have "hash_to_point sha C label index = None"
    using loop_returns [OF _ assms, of sha label index 0] False by (cases "hash_to_point sha C label index") (auto simp: hash_to_point_def)
  then show ?thesis using False by (simp add: candidate_def)
qed

text \<open>The field of three elements has these laws, and a curve over it.\<close>

instantiation three :: field
begin

fun times_three :: "three \<Rightarrow> three \<Rightarrow> three" where
  "times_three Zero b = Zero"
| "times_three Plus b = b"
| "times_three Minus b = - b"

definition one_three :: three where "one_three = Plus"

definition inverse_three :: "three \<Rightarrow> three" where "inverse_three a = a"

definition divide_three :: "three \<Rightarrow> three \<Rightarrow> three" where "divide_three a b = a * b"

instance
proof
  fix a b c :: three
  show "a * b * c = a * (b * c)" by (cases a; cases b; cases c) simp_all
  show "a * b = b * a" by (cases a; cases b) simp_all
  show "1 * a = a" by (simp add: one_three_def)
  show "(a + b) * c = a * c + b * c" by (cases a; cases b; cases c) simp_all
  show "(0 :: three) \<noteq> 1" by (simp add: zero_three_def one_three_def)
  show "a \<noteq> 0 \<Longrightarrow> inverse a * a = 1" by (cases a) (simp_all add: zero_three_def one_three_def inverse_three_def)
  show "a div b = a * inverse b" by (simp add: divide_three_def inverse_three_def)
  show "inverse (0 :: three) = 0" by (simp add: inverse_three_def)
qed

end

fun three_repr :: "three \<Rightarrow> nat" where
  "three_repr Zero = 0"
| "three_repr Plus = 1"
| "three_repr Minus = modulus - 1"

definition cube_curve :: "(three Affine, three) curve" where
  "cube_curve = \<lparr>generator = \<lparr>ax = Zero, ay = Zero\<rparr>, to_affine = (\<lambda>p. p),
     from_xy = (\<lambda>x y. if y * y = x * x * x then Some \<lparr>ax = x, ay = y\<rparr> else None), coeff_a = Zero, coeff_b = Zero,
     legendre = (\<lambda>v. case v of Zero \<Rightarrow> 0 | Plus \<Rightarrow> 1 | Minus \<Rightarrow> -1), is_odd = (\<lambda>y. odd (three_repr y))\<rparr>"

lemma cube_on_curve: "on_curve cube_curve p \<longleftrightarrow> ay p * ay p = ax p"
  by (cases "ax p") (simp_all add: on_curve_def cube_curve_def)

lemma three_all: "(\<forall>y. P y) \<longleftrightarrow> P Zero \<and> P Plus \<and> P Minus"
  by (metis three.exhaust)

lemma cube_root_laws: "root_laws three_repr cube_curve"
proof -
  have even: "y ^ (2 * k) = 1" if "y \<noteq> 0" for y :: three and k
    using that by (cases y; induction k) (simp_all add: zero_three_def one_three_def)
  have "modulus - 1 = 2 * ((modulus - 1) div 2)" by (simp add: modulus_def)
  then have fermat: "y \<noteq> 0 \<Longrightarrow> y ^ (modulus - 1) = 1" for y :: three using even by metis
  have parity: "1 < modulus" "modulus \<noteq> 0" by (simp_all add: modulus_def)
  show ?thesis
    unfolding root_laws_def cube_on_curve
    using fermat parity by (auto simp: cube_curve_def three_all zero_three_def one_three_def)
qed

definition tiny_sha :: "bytes \<Rightarrow> bytes" where "tiny_sha bs = [2 * last bs + 2]"

theorem hash_to_point_first_witness:
  "hash_to_point tiny_sha cube_curve [] 0 = Some (Some \<lparr>ax = Plus, ay = Minus\<rparr>)"
proof -
  let ?x = "\<lambda>n. from_be (tiny_sha ([] @ be_bytes 8 0 @ be_bytes 8 n)) :: three"
  have tiny: "tiny_sha ([] @ be_bytes 8 0 @ be_bytes 8 n) = [2 * word_of_nat n + 2]" for n
    using be_bytes.simps(2) [of 7 n] by (simp add: tiny_sha_def)
  have three: "of_nat 2 = Minus" "of_nat 4 = Plus"
    by (simp_all add: eval_nat_numeral one_three_def zero_three_def del: of_nat_numeral)
  have x: "?x 0 = Minus" "?x 1 = Plus"
    using three unfolding tiny by (simp_all add: from_be_def be_val_def)
  note found = hash_to_point_first [OF cube_root_laws, of tiny_sha "[]" 0]
  have "on_curve cube_curve \<lparr>ax = ?x 1, ay = Plus\<rparr>" unfolding x by (simp add: cube_on_curve)
  then obtain p n where p: "hash_to_point tiny_sha cube_curve [] 0 = Some (Some p)" "on_curve cube_curve p"
      "even (three_repr (ay p))" "ax p = ?x n" "\<forall>j < n. \<forall>y. \<not> on_curve cube_curve \<lparr>ax = ?x j, ay = y\<rparr>"
    using found by (cases "hash_to_point tiny_sha cube_curve [] 0"; cases "the (hash_to_point tiny_sha cube_curve [] 0)")
      (auto simp: cube_curve_def)
  have "n \<noteq> 0"
  proof
    assume "n = 0"
    then have "ay p * ay p = Minus" using p(2,4) x(1) by (simp add: cube_on_curve)
    then show False by (cases "ay p") simp_all
  qed
  moreover have "\<not> 1 < n" using p(5) \<open>on_curve cube_curve \<lparr>ax = ?x 1, ay = Plus\<rparr>\<close> by blast
  ultimately have "n = 1" by simp
  then have "ax p = Plus" using p(4) x(2) by simp
  moreover have "ay p = Minus" using p(2,3) \<open>ax p = Plus\<close> by (cases "ay p") (simp_all add: cube_on_curve)
  ultimately show ?thesis using p(1) by simp
qed

end
