(* ===== verification/Presentation.thy ===== *)
theory Presentation
  imports Calendar Request P256
begin

text \<open>
  One presentation (\<open>presentation.rs\<close>): the values that the verifier names, the facts that the core
  circuit reads from the credential, and the rules of the rest segment over both. \<open>presented\<close> is what
  those rules promise the verifier, and the main lemma says that they force it.
\<close>

section \<open>Public values and facts\<close>

definition DATE_DIGITS :: "nat list" where "DATE_DIGITS = [0, 1, 2, 3, 5, 6, 8, 9]"
definition DATE_TIME_DIGITS :: "nat list" where "DATE_TIME_DIGITS = [0, 1, 2, 3, 5, 6, 8, 9, 11, 12, 14, 15, 17, 18]"
definition NO_END :: nat where "NO_END = 2 ^ 47 - 1"
definition BASE_VALUES :: nat where "BASE_VALUES = 7"

record Public =
  pub_issuer_key :: PublicKey
  pub_born_from :: "Date option"
  pub_born_by :: Date
  pub_now :: Time
  pub_challenge :: bytes
  pub_request :: Request

definition born_from_digits :: "Public \<Rightarrow> nat" where
  "born_from_digits p = (case pub_born_from p of None \<Rightarrow> 0 | Some d \<Rightarrow> date_digits d)"

definition public_values :: "TimeEncoding \<Rightarrow> Public \<Rightarrow> 'f::field list" where
  "public_values enc p =
     [from_be (key_x (pub_issuer_key p)), from_be (key_y (pub_issuer_key p)),
      of_nat (born_from_digits p), of_nat (date_digits (pub_born_by p)), of_nat (time_encode enc (pub_now p)),
      from_be (take 16 (pub_challenge p)), from_be (drop 16 (pub_challenge p))]
     @ request_values (pub_request p)"

record Presentation =
  pres_public :: Public
  pres_device_signature :: Signature

record 'f Facts =
  fact_issuer_key :: "'f Point"
  fact_birth_date :: "'f Lc"
  fact_valid_from :: "'f Lc"
  fact_valid_until :: "'f Lc"
  fact_device_key :: "'f Point"
  fact_windows :: "'f AllocatedNum list list"

definition facts_named :: "'f Facts \<Rightarrow> (string \<times> 'f Lc) list" where
  "facts_named f =
     [(''issuer key x'', px (fact_issuer_key f)), (''issuer key y'', py (fact_issuer_key f)),
      (''birth date'', fact_birth_date f), (''valid from'', fact_valid_from f), (''valid until'', fact_valid_until f),
      (''device key x'', px (fact_device_key f)), (''device key y'', py (fact_device_key f))]"

definition facts_into_slots :: "'f::field bellpepper \<Rightarrow> 'f Facts \<Rightarrow> ('f AllocatedNum list, 'f) synth" where
  "facts_into_slots L f =
     sbind (smap (\<lambda>(name, fct). ns name (to_num L fct)) (facts_named f)) (\<lambda>slots.
     sret (slots @ concat (fact_windows f)))"

definition window_slots :: "'f::field bellpepper \<Rightarrow> 'f Lc list \<Rightarrow> ('f AllocatedNum list, 'f) synth" where
  "window_slots L bs =
     smap (\<lambda>(i, byte). ns (''byte '' @ show_nat i) (to_num L byte)) (zip [0..<length bs] bs)"

section \<open>The rules of the rest segment\<close>

definition public_names :: "string list" where
  "public_names = [''issuer key x'', ''issuer key y'', ''born from'', ''born by'', ''now'', ''challenge high'', ''challenge low'']"

definition public_inputs :: "'f::field bellpepper \<Rightarrow> 'f list option \<Rightarrow> ('f AllocatedNum list, 'f) synth" where
  "public_inputs L vs =
     smap (\<lambda>(i, name). ns (''public '' @ name) (alloc_input_num L (ok_or AssignmentMissing (map_option (\<lambda>v. v ! i) vs))))
       (zip [0..<7] public_names)"

text \<open>The rules on the facts and the public values, after the request's.\<close>

definition compare_facts ::
  "'f::field bellpepper \<Rightarrow> ('f \<Rightarrow> nat) \<Rightarrow> 'f Constants \<Rightarrow> 'f Lc list \<Rightarrow> 'f Lc list \<Rightarrow> Signature option \<Rightarrow> (unit, 'f) synth" where
  "compare_facts L repr K fct public signature =
     sbind (ns ''same issuer key x'' (equal (fct ! 0) (public ! 0))) (\<lambda>_.
     sbind (ns ''same issuer key y'' (equal (fct ! 1) (public ! 1))) (\<lambda>_.
     sbind (ns ''born from the earliest date'' (range_check L repr (lc_sub (fct ! 2) (public ! 2)) 27)) (\<lambda>_.
     sbind (ns ''born by the cutoff'' (range_check L repr (lc_sub (public ! 3) (fct ! 2)) 27)) (\<lambda>_.
     sbind (ns ''validity started'' (range_check L repr (lc_sub (public ! 4) (fct ! 3)) 47)) (\<lambda>_.
     sbind (ns ''not expired'' (range_check L repr (lc_sub (lc_sub (fct ! 4) (public ! 4)) (lc_small 1)) 47)) (\<lambda>_.
     sbind (ns ''challenge bits'' (digest_bits L repr (public ! 5) (public ! 6))) (\<lambda>challenge.
     ns ''device signature'' (verify L K challenge \<lparr>px = fct ! 5, py = fct ! 6\<rparr> signature))))))))"

definition presentation_check ::
  "'f::field bellpepper \<Rightarrow> ('f \<Rightarrow> nat) \<Rightarrow> 'f Constants \<Rightarrow> 'f AllocatedNum list \<Rightarrow> Presentation option \<Rightarrow>
    TimeEncoding \<Rightarrow> PatternWindow \<times> PatternWindow \<Rightarrow> (unit, 'f) synth" where
  "presentation_check L repr K facts presentation enc windows =
    (if (case presentation of None \<Rightarrow> False
         | Some p \<Rightarrow> request_windows (pub_request (pres_public p)) \<noteq> [fst windows, snd windows])
     then sfail Unsatisfiable
     else let vs = map_option (\<lambda>p. public_values enc (pres_public p)) presentation in
     sbind (public_inputs L vs) (\<lambda>nums.
     if length facts \<noteq> BASE_VALUES + pw_len (fst windows) + pw_len (snd windows) then sfail AssignmentMissing
     else
       let bytes = drop BASE_VALUES facts; fct = map lc_num (take BASE_VALUES facts);
           type_bytes = take (pw_len (fst windows)) bytes; attribute_bytes = drop (pw_len (fst windows)) bytes;
           request = map_option (drop BASE_VALUES) vs;
           type_values = map_option (take (public_count (fst windows))) request;
           attribute_values = map_option (drop (public_count (fst windows))) request in
       sbind (ns ''type'' (pattern_check L repr (fst windows) type_bytes type_values)) (\<lambda>_.
       sbind (ns ''attribute'' (pattern_check L repr (snd windows) attribute_bytes attribute_values)) (\<lambda>_.
       compare_facts L repr K fct (map lc_num nums) (map_option pres_device_signature presentation)))))"

section \<open>What the rules force\<close>

lemma sound_all_imp: "(\<And>d. P d \<Longrightarrow> sound w g (\<lambda>_. Q d)) \<Longrightarrow> sound w g (\<lambda>_. \<forall>d. P d \<longrightarrow> Q d)"
  unfolding sound_def by blast

lemma sound_difference:
  assumes repr: "scalar_repr (repr :: 'f::field \<Rightarrow> nat)" and L: "bellpepper_sound L" and w: "assignment (w :: var \<Rightarrow> 'f)"
    and a: "lcv w d = of_nat a - of_nat b" "a < 2 ^ 64" "b < 2 ^ 64"
  shows "sound w (range_check L repr d n) (\<lambda>_. b \<le> a)"
proof (rule sound_mono [OF sound_range_check [OF L w]], elim exE conjE)
  fix v assume v: "v < 2 ^ n" "n < NUM_BITS" "lcv w d = of_nat v"
  have "of_nat a = (of_nat (b + v) :: 'f)" using a(1) v(3) by (simp add: algebra_simps)
  moreover have "(2::nat) ^ n \<le> 2 ^ 255" using v(2) by (intro power_increasing) (auto simp: NUM_BITS_def)
  then have "b + v < modulus" using v(1) a(3) by (simp add: modulus_def)
  ultimately have "a = b + v"
    using a(2) modulus_bounds(1) by (intro scalar_of_nat_inj [OF repr]) simp_all
  then show "b \<le> a" by simp
qed

text \<open>
  What a presentation promises the verifier, of the values of the facts: the type's and the
  attribute's windows end in the verifier's patterns, the issuer's key is the one it named, the birth
  date lies in its range, the credential is valid at its time, and the device key signed its challenge.
\<close>

definition presented ::
  "('g::ab_group_add, 'f::field) curve \<Rightarrow> TimeEncoding \<Rightarrow> Public \<Rightarrow> 'f list \<Rightarrow> bytes \<Rightarrow> bytes \<Rightarrow> bool" where
  "presented C enc p fct type_bytes attribute_bytes \<longleftrightarrow>
     at_its_end (credential_type (pub_request p)) type_bytes \<and>
     at_its_end (attribute (pub_request p)) attribute_bytes \<and>
     fct ! 0 = from_be (key_x (pub_issuer_key p)) \<and> fct ! 1 = from_be (key_y (pub_issuer_key p)) \<and>
     (\<forall>d < 2 ^ 64. fct ! 2 = of_nat d \<longrightarrow> born_from_digits p \<le> d \<and> d \<le> date_digits (pub_born_by p)) \<and>
     (\<forall>t < 2 ^ 64. fct ! 3 = of_nat t \<longrightarrow> t \<le> time_encode enc (pub_now p)) \<and>
     (\<forall>t < 2 ^ 64. fct ! 4 = of_nat t \<longrightarrow> time_encode enc (pub_now p) < t) \<and>
     (\<forall>Q. Q \<noteq> 0 \<longrightarrow> fct ! 5 = ax (to_affine C Q) \<longrightarrow> fct ! 6 = ay (to_affine C Q) \<longrightarrow>
        (\<exists>r s_inv. ecdsa_accepts C Q (be_val (pub_challenge p)) r s_inv))"

definition public_ok :: "TimeEncoding \<Rightarrow> Public \<Rightarrow> bool" where
  "public_ok enc p \<longleftrightarrow> born_from_digits p < 2 ^ 64 \<and> date_digits (pub_born_by p) < 2 ^ 64 \<and>
     time_encode enc (pub_now p) < 2 ^ 64 - 1 \<and> length (pub_challenge p) = 32 \<and>
     pattern_ok (credential_type (pub_request p)) \<and> pattern_ok (attribute (pub_request p))"

lemma challenge_bits_value:
  assumes repr: "scalar_repr (repr :: 'f::field \<Rightarrow> nat)" and len: "length challenge = 32" "length hi = 128" "length lo = 128"
    and "from_be (take 16 challenge) = (of_nat (bin_val hi) :: 'f)" "from_be (drop 16 challenge) = (of_nat (bin_val lo) :: 'f)"
  shows "bin_val (hi @ lo) = be_val challenge"
proof -
  have half: "be_val c = bin_val b" if "from_be c = (of_nat (bin_val b) :: 'f)" "length c = 16" "length b = 128" for c b
  proof (rule scalar_of_nat_inj [OF repr])
    show "be_val c < modulus" using that(2) by (intro be_val_short) simp
    show "bin_val b < modulus" using bin_val_less [of b] that(3) modulus_bounds(1) by simp
    show "of_nat (be_val c) = (of_nat (bin_val b) :: 'f)" using that(1) by (simp add: from_be_def)
  qed
  have "be_val challenge = be_val (take 16 challenge) * 256 ^ 16 + be_val (drop 16 challenge)"
    using be_val_append [of "take 16 challenge" "drop 16 challenge"] len(1) by simp
  then show ?thesis
    using half [OF assms(5)] half [OF assms(6)] len by (simp add: bin_val_append)
qed

lemma sound_compare_facts:
  assumes repr: "scalar_repr (repr :: 'f::field \<Rightarrow> nat)" and L: "bellpepper_sound L" and w: "assignment (w :: var \<Rightarrow> 'f)"
    and C: "curve_law C" and K: "constants_of C K A offsets" "constants_regular C A offsets"
    and p: "public_ok enc p" and public: "map (lcv w) public = take 7 (public_values enc p)"
    and request: "at_its_end (credential_type (pub_request p)) tb" "at_its_end (attribute (pub_request p)) ab"
    and fct: "length fct = 7"
  shows "sound w (compare_facts L repr K fct public signature) (\<lambda>_. presented C enc p (map (lcv w) fct) tb ab)"
proof -
  have pub: "lcv w (public ! j) = take 7 (public_values enc p) ! j" if "j < 7" for j
    using arg_cong [OF public, of "\<lambda>l. l ! j"] arg_cong [OF public, of length] that by (simp add: public_values_def)
  have vals: "lcv w (public ! 0) = from_be (key_x (pub_issuer_key p))" "lcv w (public ! 1) = from_be (key_y (pub_issuer_key p))"
    "lcv w (public ! 2) = of_nat (born_from_digits p)" "lcv w (public ! 3) = of_nat (date_digits (pub_born_by p))"
    "lcv w (public ! 4) = of_nat (time_encode enc (pub_now p))"
    "lcv w (public ! 5) = from_be (take 16 (pub_challenge p))" "lcv w (public ! 6) = from_be (drop 16 (pub_challenge p))"
    by (simp_all add: pub public_values_def)
  note diff = sound_difference [OF repr L w]
  have born_from: "sound w (range_check L repr (lc_sub (fct ! 2) (public ! 2)) 27)
      (\<lambda>_. \<forall>d. d < 2 ^ 64 \<and> lcv w (fct ! 2) = of_nat d \<longrightarrow> born_from_digits p \<le> d)"
    by (rule sound_all_imp, rule diff)
       (use p vals in \<open>auto simp: public_ok_def\<close>)
  have born_by: "sound w (range_check L repr (lc_sub (public ! 3) (fct ! 2)) 27)
      (\<lambda>_. \<forall>d. d < 2 ^ 64 \<and> lcv w (fct ! 2) = of_nat d \<longrightarrow> d \<le> date_digits (pub_born_by p))"
    by (rule sound_all_imp, rule diff)
       (use p vals in \<open>auto simp: public_ok_def\<close>)
  have started: "sound w (range_check L repr (lc_sub (public ! 4) (fct ! 3)) 47)
      (\<lambda>_. \<forall>t. t < 2 ^ 64 \<and> lcv w (fct ! 3) = of_nat t \<longrightarrow> t \<le> time_encode enc (pub_now p))"
    by (rule sound_all_imp, rule diff)
       (use p vals in \<open>auto simp: public_ok_def\<close>)
  have expired: "sound w (range_check L repr (lc_sub (lc_sub (fct ! 4) (public ! 4)) (lc_small 1)) 47)
      (\<lambda>_. \<forall>t. t < 2 ^ 64 \<and> lcv w (fct ! 4) = of_nat t \<longrightarrow> time_encode enc (pub_now p) + 1 \<le> t)"
    by (rule sound_all_imp, rule diff)
       (use p vals w in \<open>auto simp: public_ok_def algebra_simps\<close>)
  let ?signed = "\<lambda>Q. Q \<noteq> 0 \<and> lcv w (fct ! 5) = ax (to_affine C Q) \<and> lcv w (fct ! 6) = ay (to_affine C Q)"
  have device: "sound w (verify L K (hi @ lo) \<lparr>px = fct ! 5, py = fct ! 6\<rparr> signature)
      (\<lambda>_. \<forall>Q. ?signed Q \<longrightarrow> (\<exists>r s_inv. ecdsa_accepts C Q (be_val (pub_challenge p)) r s_inv))"
    if bits: "length hi = 128" "length lo = 128" "list_all (is_bit w) (hi @ lo)"
      "lcv w (public ! 5) = of_nat (bin_val (bvals w hi))" "lcv w (public ! 6) = of_nat (bin_val (bvals w lo))" for hi lo
  proof (rule sound_all_imp)
    fix Q assume "?signed Q"
    then have key: "point_is C w \<lparr>px = fct ! 5, py = fct ! 6\<rparr> Q" by (simp add: point_is_def)
    have "bin_val (bvals w (hi @ lo)) = be_val (pub_challenge p)"
      using challenge_bits_value [OF repr, of "pub_challenge p" "bvals w hi" "bvals w lo"] p bits vals(6,7)
      by (simp add: public_ok_def)
    then show "sound w (verify L K (hi @ lo) \<lparr>px = fct ! 5, py = fct ! 6\<rparr> signature)
        (\<lambda>_. \<exists>r s_inv. ecdsa_accepts C Q (be_val (pub_challenge p)) r s_inv)"
      using sound_verify [OF L C w K bits(3) key, of signature] by simp
  qed
  show ?thesis
    unfolding compare_facts_def
    by ((rule sound_sbind [OF sound_ns [OF sound_equal [OF w]]])+,
        rule sound_sbind [OF sound_ns [OF born_from]], rule sound_sbind [OF sound_ns [OF born_by]],
        rule sound_sbind [OF sound_ns [OF started]], rule sound_sbind [OF sound_ns [OF expired]],
        rule sound_sbind [OF sound_ns [OF sound_digest_bits [OF L w]]], elim exE conjE, rule sound_ns, hypsubst,
        rule sound_mono [OF device]) (use request fct vals in \<open>auto simp: presented_def\<close>)
qed

lemma sound_at_public_inputs:
  assumes "bellpepper_inputs L"
  shows "sound_at w i (public_inputs L vs) (i + 7) (\<lambda>nums. map num_var nums = map Input [i..<i + 7])"
proof -
  let ?f = "\<lambda>(k :: nat, name). ns (''public '' @ name) (alloc_input_num L (ok_or AssignmentMissing (map_option (\<lambda>v. v ! k) vs)))"
  have "sound_at w i (?f x) (Suc i) (\<lambda>r. num_var r = Input i)" for x i
    by (cases x) (auto intro!: sound_at_ns sound_at_input assms)
  note inputs = sound_at_smap_inputs [of w ?f i "zip [0..<7] public_names", OF this]
  have seven: "length (zip [0..<7] public_names) = 7" by (simp add: public_names_def)
  show ?thesis unfolding public_inputs_def using inputs [unfolded seven] by simp
qed

lemma sound_at_sfail: "sound_at w i (sfail e) j Q"
  by (simp add: sound_at_def sfail_def)

lemma keeps_compare_facts [keeps_intros]: "bellpepper_inputs L \<Longrightarrow> keeps (compare_facts L repr K fct public signature)"
  unfolding compare_facts_def by (intro keeps_intros)

lemma length_public_values:
  assumes "public_ok enc p"
  shows "length (public_values enc p) = 7 + public_count (pat_window (credential_type (pub_request p)))
    + public_count (pat_window (attribute (pub_request p)))"
  using assms by (simp add: public_values_def request_values_def length_pattern_values public_ok_def)

lemma sound_at_presentation_check:
  assumes repr: "scalar_repr (repr :: 'f::field \<Rightarrow> nat)" and L: "bellpepper_sound L" "bellpepper_inputs L"
    and w: "assignment (w :: var \<Rightarrow> 'f)" and C: "curve_law C" and K: "constants_of C K A offsets" "constants_regular C A offsets"
    and p: "public_ok enc p"
    and windows: "windows = (pat_window (credential_type (pub_request p)), pat_window (attribute (pub_request p)))"
    and public: "\<And>j. j < length (public_values enc p :: 'f list) \<Longrightarrow> w (Input (i + j)) = public_values enc p ! j"
    and tb: "bytes_are w (map lc_num (take (pw_len (fst windows)) (drop 7 facts))) tb"
    and ab: "bytes_are w (map lc_num (drop (pw_len (fst windows)) (drop 7 facts))) ab"
  shows "sound_at w i (presentation_check L repr K facts presentation enc windows) (i + length (public_values enc p :: 'f list))
    (\<lambda>_. presented C enc p (map (\<lambda>x. w (num_var x)) (take 7 facts)) tb ab)"
proof -
  let ?t = "credential_type (pub_request p)" and ?a = "attribute (pub_request p)"
  note len = length_public_values [OF p, where ?'a = 'f]
  have ok: "pattern_ok ?t" "pattern_ok ?a" using p by (simp_all add: public_ok_def)
  have vt: "w (Input (i + 7 + j)) = pattern_values ?t ! j" if "j < public_count (pat_window ?t)" for j
    using public [of "7 + j"] that len ok
    by (simp add: public_values_def request_values_def nth_append length_pattern_values add.assoc)
  have va: "w (Input (i + 7 + public_count (pat_window ?t) + j)) = pattern_values ?a ! j" if "j < public_count (pat_window ?a)" for j
    using public [of "7 + public_count (pat_window ?t) + j"] that len ok
    by (simp add: public_values_def request_values_def nth_append length_pattern_values add.assoc)
  note type_check = sound_at_pattern_check [OF repr L w ok(1) _ vt]
  note attribute_check = sound_at_pattern_check [OF repr L w ok(2) _ va]
  have rest: "sound_at w (i + 7) (sbind (ns ''type'' (pattern_check L repr (pat_window ?t) tnums tv)) (\<lambda>_.
      sbind (ns ''attribute'' (pattern_check L repr (pat_window ?a) anums av)) (\<lambda>_.
      compare_facts L repr K fct (map lc_num nums) sg))) (i + length (public_values enc p :: 'f list))
      (\<lambda>_. presented C enc p (map (lcv w) fct) tb ab)"
    if nums: "map num_var nums = map Input [i..<i + 7]" and bytes: "bytes_are w (map lc_num tnums) tb" "bytes_are w (map lc_num anums) ab"
      and fct: "length fct = 7" for nums tnums anums tv av fct sg
  proof -
    have "map (lcv w) (map lc_num nums) = map w (map num_var nums)" by simp
    also have "\<dots> = take 7 (public_values enc p)"
      unfolding nums by (rule nth_equalityI) (use len public in \<open>simp_all del: upt_rec_numeral\<close>)
    finally have pub: "map (lcv w) (map lc_num nums) = take 7 (public_values enc p)" .
    show ?thesis
      unfolding len add.assoc [symmetric]
      by (rule sound_at_sbind [OF sound_at_ns [OF type_check [OF bytes(1)]]], assumption,
          rule sound_at_sbind [OF sound_at_ns [OF attribute_check [OF bytes(2)]]], assumption,
          rule sound_at_keeps [OF sound_compare_facts [OF repr L(1) w C K p pub _ _ fct]], assumption, assumption)
         (intro keeps_intros L(2))
  qed
  show ?thesis
    unfolding presentation_check_def Let_def windows fst_conv snd_conv
  proof (split if_split, intro conjI impI sound_at_sfail, rule sound_at_sbind [OF sound_at_public_inputs [OF L(2)]],
      split if_split, intro conjI impI sound_at_sfail)
    fix nums :: "'f AllocatedNum list" assume nums: "map num_var nums = map Input [i..<i + 7]"
      and facts: "\<not> length facts \<noteq> BASE_VALUES + pw_len (pat_window ?t) + pw_len (pat_window ?a)"
    have fct: "length (map lc_num (take BASE_VALUES facts)) = 7" using facts by (simp add: BASE_VALUES_def)
    have eq: "map (lcv w) (map lc_num (take BASE_VALUES facts)) = map (\<lambda>x. w (num_var x)) (take 7 facts)"
      by (simp add: BASE_VALUES_def)
    note r = rest [OF nums _ _ fct, unfolded eq]
    have bytes: "bytes_are w (map lc_num (take (pw_len (pat_window ?t)) (drop BASE_VALUES facts))) tb"
      "bytes_are w (map lc_num (drop (pw_len (pat_window ?t)) (drop BASE_VALUES facts))) ab"
      using tb ab by (simp_all add: windows BASE_VALUES_def)
    show "sound_at w (i + 7) (sbind (ns ''type'' (pattern_check L repr (pat_window ?t)
          (take (pw_len (pat_window ?t)) (drop BASE_VALUES facts))
          (map_option (take (public_count (pat_window ?t))) (map_option (drop BASE_VALUES)
            (map_option (\<lambda>p. public_values enc (pres_public p)) presentation))))) (\<lambda>_.
        sbind (ns ''attribute'' (pattern_check L repr (pat_window ?a)
          (drop (pw_len (pat_window ?t)) (drop BASE_VALUES facts))
          (map_option (drop (public_count (pat_window ?t))) (map_option (drop BASE_VALUES)
            (map_option (\<lambda>p. public_values enc (pres_public p)) presentation))))) (\<lambda>_.
        compare_facts L repr K (map lc_num (take BASE_VALUES facts)) (map lc_num nums) (map_option pres_device_signature presentation))))
        (i + length (public_values enc p :: 'f list)) (\<lambda>_. presented C enc p (map (\<lambda>x. w (num_var x)) (take 7 facts)) tb ab)"
      by (rule r [OF bytes])
  qed
qed

lemma sound_facts_into_slots:
  assumes "assignment w"
  shows "sound w (facts_into_slots L f) (\<lambda>slots. \<exists>seven. slots = seven @ concat (fact_windows f) \<and>
    map (\<lambda>x. w (num_var x)) seven = map (\<lambda>(name, l). lcv w l) (facts_named f))"
proof -
  have "sound w (smap (\<lambda>(name, fct). ns name (to_num L fct)) xs) (list_all2 (\<lambda>(name, l) x. w (num_var x) = lcv w l) xs)" for xs
    by (rule sound_smap) (auto intro!: sound_ns sound_to_num assms)
  moreover have "map (\<lambda>x. w (num_var x)) ys = map (\<lambda>(name, l). lcv w l) xs"
    if "list_all2 (\<lambda>(name, l) x. w (num_var x) = lcv w l) xs ys" for xs :: "(string \<times> 'a Lc) list" and ys
    using that by (induction rule: list_all2_induct) auto
  ultimately show ?thesis
    unfolding facts_into_slots_def by (blast intro: sound_sbind sound_sret)
qed

lemma sound_window_slots:
  assumes "assignment w" "bytes_are w bs b"
  shows "sound w (window_slots L bs) (\<lambda>slots. bytes_are w (map lc_num slots) b)"
proof -
  have "sound w (window_slots L bs) (list_all2 (\<lambda>(i, l) x. w (num_var x) = lcv w l) (zip [0..<length bs] bs))"
    unfolding window_slots_def by (rule sound_smap) (auto intro!: sound_ns sound_to_num assms)
  then show ?thesis
    by (rule sound_mono) (use assms(2) in \<open>auto simp: bytes_are_def list_all2_conv_all_nth\<close>)
qed

section \<open>Properties\<close>

text \<open>
  C28. What a presentation proves: if the rules of \<open>check\<close> hold and its public inputs are the values of
  the verifier's \<open>Public\<close>, then the credential's type and attribute are the verifier's patterns, the
  issuer's key is the one the verifier named, the birth date and the validity lie in the verifier's
  range, and the device key signed the verifier's challenge. The rules take exactly the public inputs
  that \<open>Public::values\<close> lists.
\<close>

theorem presentation_rules_sound:
  assumes "scalar_repr (repr :: 'f::field \<Rightarrow> nat)" "bellpepper_sound L" "bellpepper_inputs L"
    and "assignment (w :: var \<Rightarrow> 'f)" "curve_law C" "constants_of C K A offsets" "constants_regular C A offsets"
    and "public_ok enc p"
    and "windows = (pat_window (credential_type (pub_request p)), pat_window (attribute (pub_request p)))"
    and "\<And>j. j < length (public_values enc p :: 'f list) \<Longrightarrow> w (Input (i + j)) = public_values enc p ! j"
    and "bytes_are w (map lc_num (take (pw_len (fst windows)) (drop 7 facts))) tb"
    and "bytes_are w (map lc_num (drop (pw_len (fst windows)) (drop 7 facts))) ab"
  shows "sound_at w i (presentation_check L repr K facts presentation enc windows) (i + length (public_values enc p :: 'f list))
    (\<lambda>_. presented C enc p (map (\<lambda>x. w (num_var x)) (take 7 facts)) tb ab)"
  using assms by (rule sound_at_presentation_check)

definition some_public :: Public where
  "some_public = \<lparr>pub_issuer_key = \<lparr>key_x = replicate 32 1, key_y = replicate 32 2\<rparr>, pub_born_from = None,
     pub_born_by = \<lparr>year = 2008, month = 1, day = 1\<rparr>,
     pub_now = \<lparr>tdate = \<lparr>year = 2026, month = 1, day = 1\<rparr>, hour = 0, minute = 0, second = 0\<rparr>,
     pub_challenge = replicate 32 3, pub_request = \<lparr>credential_type = pattern_A, attribute = pattern_A\<rparr>\<rparr>"

definition public_assignment :: "var \<Rightarrow> rat" where
  "public_assignment v = (case v of Input k \<Rightarrow> (1 # public_values Digits some_public) ! k | Aux _ \<Rightarrow> 0)"

lemma some_public_ok: "public_ok Digits some_public"
  by (simp add: public_ok_def some_public_def born_from_digits_def date_digits_def time_digits_def pattern_ok_def
      window_ok_def pattern_A_def window_fixed_def)

theorem presentation_rules_sound_witness:
  "\<exists>K. sound_at public_assignment 1
     (presentation_check plain_bellpepper rat_repr K (replicate 11 \<lparr>num_var = Aux 0, num_value = None\<rparr>) None Digits
       (pat_window pattern_A, pat_window pattern_A))
     (1 + length (public_values Digits some_public :: rat list))
     (\<lambda>_. presented three_curve Digits some_public (replicate 7 0) [0, 0] [0, 0])"
proof -
  obtain K offsets where K: "constants_of three_curve K Plus offsets" "constants_regular three_curve Plus offsets"
    using three_constants by blast
  have w: "assignment public_assignment" by (simp add: assignment_def public_assignment_def)
  let ?facts = "replicate 11 \<lparr>num_var = Aux 0, num_value = None\<rparr> :: rat AllocatedNum list"
  let ?win = "(pat_window pattern_A, pat_window pattern_A)"
  have win: "?win = (pat_window (credential_type (pub_request some_public)), pat_window (attribute (pub_request some_public)))"
    by (simp add: some_public_def)
  have public: "public_assignment (Input (1 + j)) = public_values Digits some_public ! j" for j
    by (simp add: public_assignment_def)
  have zero: "bytes_are public_assignment (map lc_num (take (pw_len (fst ?win)) (drop 7 ?facts))) [0, 0]"
    "bytes_are public_assignment (map lc_num (drop (pw_len (fst ?win)) (drop 7 ?facts))) [0, 0]"
    by (simp_all add: bytes_are_def pattern_A_def public_assignment_def numeral_eq_Suc)
  have seven: "map (\<lambda>x. public_assignment (num_var x)) (take 7 ?facts) = replicate 7 0"
    by (simp add: public_assignment_def)
  from presentation_rules_sound [OF scalar_repr_rat plain_bellpepper_sound plain_bellpepper_inputs w three_curve_law K
      some_public_ok win public zero, unfolded seven]
  show ?thesis by blast
qed

end
