(* ===== verification/Select.thy ===== *)
theory Select
  imports Bits
begin

text \<open>
  The one-hot selector (\<open>gadgets/select.rs\<close>). \<open>hot_at w h j\<close> says that the selector \<open>h\<close> has its
  one bit at \<open>j\<close> under the assignment \<open>w\<close>. The rules of \<open>OneHot::alloc\<close> force such a \<open>j\<close>, and
  \<open>OneHot::select\<close> then reads the entry at \<open>j\<close>. \<open>one_hot_values\<close> and \<open>select_values\<close> are the native
  counterparts, with the field's elements they record.
\<close>

section \<open>The selector\<close>

record 'f OneHot =
  hot_bits :: "'f Boolean list"

definition one_hot_alloc :: "'f::field bellpepper \<Rightarrow> nat \<Rightarrow> nat option \<Rightarrow> ('f OneHot, 'f) synth" where
  "one_hot_alloc L n index =
     sbind (smap (\<lambda>j. ns (''bit '' @ show_nat j) (alloc_bit L (map_option (\<lambda>i. i = j) index))) [0..<n]) (\<lambda>bs.
     sbind (ns ''one bit set'' (equal (fold (\<lambda>b sum. lc_add sum (lc_bit b)) bs lc_zero) (lc_constant 1))) (\<lambda>_.
     sret \<lparr>hot_bits = bs\<rparr>))"

definition hot_index :: "'f::field OneHot \<Rightarrow> 'f Lc" where
  "hot_index h =
     fold (\<lambda>(j, b) sum. lc_add sum (lc_scale (lc_bit b) (of_nat j)))
       (zip [0..<length (hot_bits h)] (hot_bits h)) lc_zero"

definition select_step ::
  "'f::field Lc \<Rightarrow> nat \<times> 'f Boolean \<times> 'f Lc \<Rightarrow> 'f Lc \<Rightarrow> ('f Lc, 'f) synth" where
  "select_step first = (\<lambda>(j, b, entry) sum.
     sbind (ns (''entry '' @ show_nat j) (mul (lc_bit b) (lc_sub entry first))) (\<lambda>p. sret (lc_add sum p)))"

definition hot_select :: "'f::field OneHot \<Rightarrow> 'f Lc list \<Rightarrow> ('f Lc, 'f) synth" where
  "hot_select h entries =
     sbind (sassert (length entries = length (hot_bits h) \<and> entries \<noteq> [])) (\<lambda>_.
     sfold (select_step (entries ! 0)) (tl (zip [0..<length (hot_bits h)] (zip (hot_bits h) entries))) (entries ! 0))"

definition one_hot_values :: "'f::field list \<Rightarrow> nat \<Rightarrow> nat \<Rightarrow> 'f list" where
  "one_hot_values vs n index = vs @ map (\<lambda>j. if j = index then 1 else 0) [0..<n]"

definition select_values :: "'f::field list \<Rightarrow> nat \<Rightarrow> nat \<Rightarrow> (nat \<Rightarrow> 'f) \<Rightarrow> 'f list \<times> 'f" where
  "select_values vs n index entry =
    (let first = entry 0;
         selected = (if 1 \<le> index \<and> index < n then entry index - first else 0)
     in (vs @ map (\<lambda>j. if j = index then selected else 0) [1..<n], first + selected))"

section \<open>What the rules force\<close>

definition hot_at :: "(var \<Rightarrow> 'f::field) \<Rightarrow> 'f OneHot \<Rightarrow> nat \<Rightarrow> bool" where
  "hot_at w h j \<longleftrightarrow> j < length (hot_bits h) \<and>
     (\<forall>i < length (hot_bits h). ev w (bool_lc (hot_bits h ! i)) = of_bool (i = j))"

lemma lcv_sum_bits:
  "lcv w (fold (\<lambda>b sum. lc_add sum (lc_bit b)) bs s) = lcv w s + sum_list (map (\<lambda>b. ev w (bool_lc b)) bs)"
  by (induction bs arbitrary: s) (simp_all add: add.assoc)

lemma sum_bits_count:
  "list_all (is_bit w) bs \<Longrightarrow>
    sum_list (map (\<lambda>b. ev w (bool_lc b)) bs) = of_nat (length (filter (bval w) bs))"
  by (induction bs) (simp_all add: is_bit_of_bool)

lemma count_one:
  assumes "length (filter P xs) = 1"
  shows "\<exists>j < length xs. \<forall>i < length xs. P (xs ! i) \<longleftrightarrow> i = j"
proof -
  have "card {i. i < length xs \<and> P (xs ! i)} = 1"
    using assms by (simp add: length_filter_conv_card)
  then obtain j where j: "{i. i < length xs \<and> P (xs ! i)} = {j}" by (auto simp: card_1_singleton_iff)
  then show ?thesis by (intro exI [of _ j]) blast
qed

lemma sound_one_hot_alloc:
  assumes "scalar_repr (repr :: 'f::field \<Rightarrow> nat)" "bellpepper_sound L" "assignment (w :: var \<Rightarrow> 'f)" "n < modulus"
  shows "sound w (one_hot_alloc L n index) (\<lambda>h. length (hot_bits h) = n \<and> (\<exists>j < n. hot_at w h j))"
  unfolding one_hot_alloc_def
proof (rule sound_sbind [OF sound_smap [where R = "\<lambda>_. is_bit w"]])
  show "sound w (ns (''bit '' @ show_nat j) (alloc_bit L v)) (is_bit w)" for j v
    by (intro sound_ns sound_alloc_bit assms)
next
  fix bs assume "list_all2 (\<lambda>_. is_bit w) [0..<n] bs"
  then have bs: "length bs = n" "list_all (is_bit w) bs"
    by (auto simp: list_all2_conv_all_nth list_all_length)
  show "sound w (sbind (ns ''one bit set'' (equal (fold (\<lambda>b sum. lc_add sum (lc_bit b)) bs lc_zero) (lc_constant 1)))
      (\<lambda>_. sret \<lparr>hot_bits = bs\<rparr>)) (\<lambda>h. length (hot_bits h) = n \<and> (\<exists>j < n. hot_at w h j))"
  proof (rule sound_sbind [OF sound_ns [OF sound_equal [OF assms(3)]]], rule sound_sret)
    assume "lcv w (fold (\<lambda>b sum. lc_add sum (lc_bit b)) bs lc_zero) = lcv w (lc_constant 1)"
    then have "of_nat (length (filter (bval w) bs)) = (of_nat 1 :: 'f)"
      using assms(3) bs(2) by (simp add: lcv_sum_bits sum_bits_count)
    moreover have "length (filter (bval w) bs) < modulus" "1 < modulus"
      using bs(1) assms(4) length_filter_le [of "bval w" bs] modulus_bounds(1) by (simp_all add: le_less_trans)
    ultimately have "length (filter (bval w) bs) = 1" using scalar_of_nat_inj [OF assms(1)] by blast
    then obtain j where j: "j < n" "\<forall>i < n. bval w (bs ! i) \<longleftrightarrow> i = j" using count_one bs(1) by metis
    moreover have "\<forall>i < n. is_bit w (bs ! i)" using bs by (simp add: list_all_length)
    ultimately have "hot_at w \<lparr>hot_bits = bs\<rparr> j" using bs(1) by (simp add: hot_at_def is_bit_of_bool)
    then show "length (hot_bits \<lparr>hot_bits = bs\<rparr>) = n \<and> (\<exists>j < n. hot_at w \<lparr>hot_bits = bs\<rparr> j)"
      using bs(1) j(1) by auto
  qed
qed

lemma lcv_weighted:
  "lcv w (fold (\<lambda>(j, b) sum. lc_add sum (lc_scale (lc_bit b) (of_nat j))) ps s)
    = lcv w s + sum_list (map (\<lambda>(j, b). of_nat j * ev w (bool_lc b)) ps)"
  by (induction ps arbitrary: s) (auto simp: add.assoc)

lemma sum_list_single:
  "j < length xs \<Longrightarrow> (\<And>i. i < length xs \<Longrightarrow> i \<noteq> j \<Longrightarrow> xs ! i = (0 :: 'a::comm_monoid_add)) \<Longrightarrow> sum_list xs = xs ! j"
proof (induction xs arbitrary: j)
  case (Cons x xs)
  show ?case
  proof (cases j)
    case 0
    have "xs ! i = 0" if "i < length xs" for i using Cons.prems(2) [of "Suc i"] 0 that by simp
    then have "\<forall>y \<in> set xs. y = 0" by (auto simp: in_set_conv_nth)
    then have "sum_list xs = 0" by (induction xs) auto
    then show ?thesis using 0 by simp
  next
    case (Suc k)
    have "xs ! i = 0" if "i < length xs" "i \<noteq> k" for i using Cons.prems(2) [of "Suc i"] that Suc by simp
    moreover have "x = 0" using Cons.prems(2) [of 0] Suc by simp
    ultimately show ?thesis using Cons.IH [of k] Cons.prems(1) Suc by simp
  qed
qed simp

lemma lcv_hot_index:
  assumes "hot_at w h j"
  shows "lcv w (hot_index h) = of_nat j"
proof -
  let ?xs = "map (\<lambda>(j, b). of_nat j * ev w (bool_lc b)) (zip [0..<length (hot_bits h)] (hot_bits h))"
  have "sum_list ?xs = ?xs ! j"
    using assms by (intro sum_list_single) (auto simp: hot_at_def)
  then show ?thesis using assms by (simp add: hot_index_def lcv_weighted hot_at_def)
qed

lemma sound_hot_select:
  assumes "hot_at w h j"
  shows "sound w (hot_select h entries)
    (\<lambda>r. length entries = length (hot_bits h) \<and> lcv w r = lcv w (entries ! j))"
  unfolding hot_select_def
proof (rule sound_sbind [OF sound_sassert], assumption)
  assume len: "length entries = length (hot_bits h) \<and> entries \<noteq> []"
  let ?n = "length (hot_bits h)"
  let ?ps = "tl (zip [0..<?n] (zip (hot_bits h) entries))"
  let ?t = "\<lambda>i. of_bool (i = j) * (lcv w (entries ! i) - lcv w (entries ! 0))"
  let ?I = "\<lambda>k s. lcv w s = lcv w (entries ! 0) + sum_list (map ?t [1..<Suc k])"
  have pos: "0 < ?n" using len by auto
  have ps: "length ?ps = ?n - 1" "\<And>k. k < ?n - 1 \<Longrightarrow> ?ps ! k = (Suc k, hot_bits h ! Suc k, entries ! Suc k)"
    using len by (simp_all add: nth_tl)
  have "sound w (sfold (select_step (entries ! 0)) ?ps (entries ! 0)) (?I (length ?ps))"
  proof (rule sound_sfold [where I = ?I])
    fix k s assume "k < length ?ps" and I: "?I k s"
    then have k: "k < ?n - 1" using ps(1) by simp
    have bit: "ev w (bool_lc (hot_bits h ! Suc k)) = of_bool (Suc k = j)"
      using assms k by (simp add: hot_at_def)
    show "sound w (select_step (entries ! 0) (?ps ! k) s) (?I (Suc k))"
      unfolding ps(2) [OF k] select_step_def prod.case
      by (rule sound_sbind [OF sound_ns [OF sound_mul]], rule sound_sret) (use I bit in simp)
  qed simp
  then show "sound w (sfold (select_step (entries ! 0)) ?ps (entries ! 0))
      (\<lambda>r. length entries = length (hot_bits h) \<and> lcv w r = lcv w (entries ! j))"
  proof (rule sound_mono)
    fix r assume I: "?I (length ?ps) r"
    have "sum_list (map ?t [1..<Suc (?n - 1)]) = (lcv w (entries ! j) - lcv w (entries ! 0))"
    proof (cases "j = 0")
      case True
      then have "map ?t [1..<Suc (?n - 1)] = map (\<lambda>_. 0) [1..<Suc (?n - 1)]" by auto
      then have "sum_list (map ?t [1..<Suc (?n - 1)]) = 0" by (simp only: sum_list_0)
      then show ?thesis using True by simp
    next
      case False
      have "sum_list (map ?t [1..<Suc (?n - 1)]) = map ?t [1..<Suc (?n - 1)] ! (j - 1)"
        using assms False by (intro sum_list_single) (auto simp: hot_at_def simp del: upt_Suc)
      moreover have "j - 1 < length [1..<Suc (?n - 1)]" using assms False by (simp add: hot_at_def del: upt_Suc) linarith
      moreover from this have "[1..<Suc (?n - 1)] ! (j - 1) = j" using False by (simp del: upt_Suc)
      ultimately show ?thesis by (simp del: upt_Suc)
    qed
    then show "length entries = length (hot_bits h) \<and> lcv w r = lcv w (entries ! j)"
      using I ps(1) len by simp
  qed
qed

section \<open>Properties\<close>

text \<open>
  A selector whose rules hold has one index: the sum \<open>index()\<close> is that index, and every \<open>select\<close>
  whose rules hold reads the entry there, for any number of entries below the field modulus.
\<close>

theorem select_reads_entry:
  assumes "scalar_repr (repr :: 'f::field \<Rightarrow> nat)" "bellpepper_sound L" "assignment (w :: var \<Rightarrow> 'f)" "n < modulus"
    and "m \<noteq> Witness" "one_hot_alloc L n index m cs = (Inr h, cs1, rs1)" "satisfied w rs1"
    and "hot_select h entries m cs2 = (Inr r, cs3, rs2)" "satisfied w rs2"
  shows "\<exists>j < n. lcv w (hot_index h) = of_nat j \<and> length entries = n \<and> lcv w r = lcv w (entries ! j)"
proof -
  obtain j where j: "length (hot_bits h) = n" "j < n" "hot_at w h j"
    using soundD [OF sound_one_hot_alloc [OF assms(1-4)] assms(5-7)] by blast
  then show ?thesis
    using lcv_hot_index soundD [OF sound_hot_select [OF j(3)] assms(5,8,9)] by blast
qed

text \<open>A selector of two entries with its bit at the second.\<close>

definition second_hot :: "var \<Rightarrow> rat" where
  "second_hot v = (if v = Aux 0 then 0 else if v = Aux 2 then 4 else 1)"

lemma second_hot_run:
  "\<exists>h cs1 rs1 r cs3 rs2. one_hot_alloc plain_bellpepper 2 None Shape blank_cs = (Inr h, cs1, rs1) \<and>
     satisfied second_hot rs1 \<and>
     hot_select h [lc_constant 3, lc_constant 7] Shape cs1 = (Inr r, cs3, rs2) \<and> satisfied second_hot rs2"
  by (simp add: one_hot_alloc_def hot_select_def select_step_def synth_simps blank_cs_def second_hot_def one_def
    lc_add_def lc_bit_def lc_zero_def lc_sub_def lc_constant_def upt_rec val2_def numeral_2_eq_2)

theorem select_reads_entry_witness:
  "\<exists>h r. \<exists>j < 2. lcv second_hot (hot_index h) = of_nat j \<and>
    length [lc_constant 3, lc_constant (7 :: rat)] = 2 \<and>
    lcv second_hot r = lcv second_hot ([lc_constant 3, lc_constant 7] ! j)"
proof -
  obtain h cs1 rs1 r cs3 rs2 where
    run: "one_hot_alloc plain_bellpepper 2 None Shape blank_cs = (Inr h, cs1, rs1)" "satisfied second_hot rs1"
      "hot_select h [lc_constant 3, lc_constant 7] Shape cs1 = (Inr r, cs3, rs2)" "satisfied second_hot rs2"
    using second_hot_run by blast
  have "assignment second_hot" by (simp add: assignment_def second_hot_def)
  moreover have "2 < modulus" by (simp add: modulus_def)
  ultimately show ?thesis
    using select_reads_entry [OF scalar_repr_rat plain_bellpepper_sound _ _ _ run] by blast
qed

end
