(* ===== verification/Sha256.thy ===== *)
theory Sha256
  imports Scalar
begin

text \<open>
  SHA-256 as the program uses it: the native compression of \<open>gadgets/sha256.rs\<close>, which records the
  values of bellpepper's gadget, and the padding, the initial value and the chaining of
  \<open>table.rs\<close>. A \<open>u32\<close> is a \<open>32 word\<close>, a \<open>u64\<close> a \<open>64 word\<close>. The crate \<open>sha2\<close> is a parameter: its
  block function \<open>compress256\<close> and its \<open>digest\<close>, with the laws of the locale \<open>sha2\<close>. The
  compression of \<open>gadgets/sha256.rs\<close> satisfies them, and it is the function of FIPS 180-4.
\<close>

type_synonym u32 = "32 word"
type_synonym u64 = "64 word"

abbreviation u64_from :: "u32 \<Rightarrow> u64" where "u64_from x \<equiv> ucast x"
abbreviation as_u32 :: "u64 \<Rightarrow> u32" where "as_u32 x \<equiv> ucast x"

section \<open>The native compression\<close>

definition ROUND_CONSTANTS :: "u32 list" where
  "ROUND_CONSTANTS = concat [
    [0x428a2f98, 0x71374491, 0xb5c0fbcf, 0xe9b5dba5],
    [0x3956c25b, 0x59f111f1, 0x923f82a4, 0xab1c5ed5],
    [0xd807aa98, 0x12835b01, 0x243185be, 0x550c7dc3],
    [0x72be5d74, 0x80deb1fe, 0x9bdc06a7, 0xc19bf174],
    [0xe49b69c1, 0xefbe4786, 0x0fc19dc6, 0x240ca1cc],
    [0x2de92c6f, 0x4a7484aa, 0x5cb0a9dc, 0x76f988da],
    [0x983e5152, 0xa831c66d, 0xb00327c8, 0xbf597fc7],
    [0xc6e00bf3, 0xd5a79147, 0x06ca6351, 0x14292967],
    [0x27b70a85, 0x2e1b2138, 0x4d2c6dfc, 0x53380d13],
    [0x650a7354, 0x766a0abb, 0x81c2c92e, 0x92722c85],
    [0xa2bfe8a1, 0xa81a664b, 0xc24b8b70, 0xc76c51a3],
    [0xd192e819, 0xd6990624, 0xf40e3585, 0x106aa070],
    [0x19a4c116, 0x1e376c08, 0x2748774c, 0x34b0bcb5],
    [0x391c0cb3, 0x4ed8aa4a, 0x5b9cca4f, 0x682e6ff3],
    [0x748f82ee, 0x78a5636f, 0x84c87814, 0x8cc70208],
    [0x90befffa, 0xa4506ceb, 0xbef9a3f7, 0xc67178f2]]"

text \<open>The schedule's loop, which fills \<open>w[16..64]\<close>.\<close>

definition schedule_step :: "nat \<Rightarrow> 'f::field list \<times> u32 list \<Rightarrow> 'f list \<times> u32 list" where
  "schedule_step i = (\<lambda>(values, w).
    let x = w ! (i - 15);
        first = word_rotr 7 x XOR word_rotr 18 x;
        values = low_bits values (u64_from first) 32;
        s0 = first XOR drop_bit 3 x;
        values = low_bits values (u64_from s0) 29;
        y = w ! (i - 2);
        first = word_rotr 17 y XOR word_rotr 19 y;
        values = low_bits values (u64_from first) 32;
        s1 = first XOR drop_bit 10 y;
        values = low_bits values (u64_from s1) 22;
        sum = u64_from (w ! (i - 16)) + u64_from s0 + u64_from (w ! (i - 7)) + u64_from s1;
        values = low_bits values sum 34
    in (values, w[i := as_u32 sum]))"

text \<open>
  The working variables of the rounds. \<open>deferred\<close> holds the sums that give \<open>e\<close> and \<open>a\<close>, which the
  next round, or the new state, reads.
\<close>

record working =
  wa :: u32  wb :: u32  wc :: u32  wd :: u32
  we :: u32  wf :: u32  wg :: u32  wh :: u32
  deferred :: "(u64 \<times> u64) option"

text \<open>The bits of Maj and of the AND of \<open>b\<close> and \<open>c\<close>, interleaved.\<close>

definition maj_bits :: "'f::field list \<Rightarrow> u32 \<Rightarrow> u32 \<Rightarrow> 'f list" where
  "maj_bits values maj bc =
     fold (\<lambda>k values. values_bit (values_bit values (bit maj k)) (bit bc k)) [0..<32] values"

definition round_step ::
  "u32 list \<Rightarrow> nat \<Rightarrow> 'f::field list \<times> working \<Rightarrow> 'f list \<times> working" where
  "round_step w i = (\<lambda>(values, s).
    let (values, e) = (case deferred s of
          Some (e_sum, _) \<Rightarrow> (low_bits values e_sum 35, as_u32 e_sum)
        | None \<Rightarrow> (values, we s));
        first = word_rotr 6 e XOR word_rotr 11 e;
        values = low_bits values (u64_from first) 32;
        s1 = first XOR word_rotr 25 e;
        values = low_bits values (u64_from s1) 32;
        ch = (e AND wf s) XOR (NOT e AND wg s);
        values = low_bits values (u64_from ch) 32;
        temp1 = u64_from (wh s) + u64_from s1 + u64_from ch
          + u64_from (ROUND_CONSTANTS ! i) + u64_from (w ! i);
        (values, a) = (case deferred s of
          Some (_, a_sum) \<Rightarrow> (low_bits values a_sum 35, as_u32 a_sum)
        | None \<Rightarrow> (values, wa s));
        first = word_rotr 2 a XOR word_rotr 13 a;
        values = low_bits values (u64_from first) 32;
        s0 = first XOR word_rotr 22 a;
        values = low_bits values (u64_from s0) 32;
        maj = (a AND wb s) XOR (a AND wc s) XOR (wb s AND wc s);
        bc = wb s AND wc s;
        values = maj_bits values maj bc;
        temp2 = u64_from s0 + u64_from maj;
        e_sum = u64_from (wd s) + temp1
    in (values,
        \<lparr>wa = a, wb = a, wc = wb s, wd = wc s, we = e, wf = e, wg = wf s, wh = wg s,
         deferred = Some (e_sum, temp1 + temp2)\<rparr>))"

definition start_rounds :: "u32 list \<Rightarrow> working" where
  "start_rounds state =
     \<lparr>wa = state ! 0, wb = state ! 1, wc = state ! 2, wd = state ! 3,
      we = state ! 4, wf = state ! 5, wg = state ! 6, wh = state ! 7, deferred = None\<rparr>"

definition final_sums :: "working \<Rightarrow> u64 \<times> u64 \<Rightarrow> u32 list \<Rightarrow> (u64 \<times> nat) list" where
  "final_sums s = (\<lambda>(e_sum, a_sum) state.
    [(a_sum + u64_from (state ! 0), 35),
     (u64_from (state ! 1) + u64_from (wb s), 33),
     (u64_from (state ! 2) + u64_from (wc s), 33),
     (u64_from (state ! 3) + u64_from (wd s), 33),
     (e_sum + u64_from (state ! 4), 35),
     (u64_from (state ! 5) + u64_from (wf s), 33),
     (u64_from (state ! 6) + u64_from (wg s), 33),
     (u64_from (state ! 7) + u64_from (wh s), 33)])"

text \<open>
  \<open>compression\<close>: the values pushed, and the state after the block. \<open>deferred.expect(..)\<close> never
  fails, since the 64 rounds set it; \<open>None\<close> is that panic.
\<close>

definition compression ::
  "'f::field list \<Rightarrow> u32 list \<Rightarrow> u32 list \<Rightarrow> ('f list \<times> u32 list) option" where
  "compression values block state =
    (let (values, w) = fold schedule_step [16..<64] (values, block @ replicate 48 0);
         (values, s) = fold (round_step w) [0..<64] (values, start_rounds state)
     in case deferred s of
          None \<Rightarrow> None
        | Some d \<Rightarrow>
            let totals = final_sums s d state
            in Some (fold (\<lambda>(sum, n) values. low_bits values sum n) totals values,
                     map (\<lambda>(sum, n). as_u32 sum) totals))"

section \<open>The compression of FIPS 180-4\<close>

definition small_sigma0 :: "u32 \<Rightarrow> u32" where
  "small_sigma0 x = word_rotr 7 x XOR word_rotr 18 x XOR drop_bit 3 x"

definition small_sigma1 :: "u32 \<Rightarrow> u32" where
  "small_sigma1 x = word_rotr 17 x XOR word_rotr 19 x XOR drop_bit 10 x"

definition big_sigma0 :: "u32 \<Rightarrow> u32" where
  "big_sigma0 x = word_rotr 2 x XOR word_rotr 13 x XOR word_rotr 22 x"

definition big_sigma1 :: "u32 \<Rightarrow> u32" where
  "big_sigma1 x = word_rotr 6 x XOR word_rotr 11 x XOR word_rotr 25 x"

function fips_w :: "u32 list \<Rightarrow> nat \<Rightarrow> u32" where
  "fips_w block t =
    (if t < 16 then block ! t
     else small_sigma1 (fips_w block (t - 2)) + fips_w block (t - 7)
        + small_sigma0 (fips_w block (t - 15)) + fips_w block (t - 16))"
  by pat_completeness auto
termination
  by (relation "measure snd") auto

declare fips_w.simps [simp del]

type_synonym fips_state = "u32 \<times> u32 \<times> u32 \<times> u32 \<times> u32 \<times> u32 \<times> u32 \<times> u32"

definition fips_round :: "u32 list \<Rightarrow> nat \<Rightarrow> fips_state \<Rightarrow> fips_state" where
  "fips_round block t = (\<lambda>(a, b, c, d, e, f, g, h).
    let t1 = h + big_sigma1 e + ((e AND f) XOR (NOT e AND g)) + ROUND_CONSTANTS ! t + fips_w block t;
        t2 = big_sigma0 a + ((a AND b) XOR (a AND c) XOR (b AND c))
    in (t1 + t2, a, b, c, d + t1, e, f, g))"

definition fips_compress :: "u32 list \<Rightarrow> u32 list \<Rightarrow> u32 list" where
  "fips_compress block state =
    (let (a, b, c, d, e, f, g, h) =
           fold (fips_round block) [0..<64]
             (state ! 0, state ! 1, state ! 2, state ! 3, state ! 4, state ! 5, state ! 6, state ! 7)
     in [state ! 0 + a, state ! 1 + b, state ! 2 + c, state ! 3 + d,
         state ! 4 + e, state ! 5 + f, state ! 6 + g, state ! 7 + h])"

section \<open>The native compression computes the standard's\<close>

lemma as_u32_add: "as_u32 (x + y) = as_u32 x + as_u32 y"
proof transfer
  fix x y :: int
  have "take_bit 32 (take_bit 64 x + take_bit 64 y) = take_bit 32 (take_bit 32 (take_bit 64 x) + take_bit 32 (take_bit 64 y))"
    by (simp only: take_bit_add)
  then show "take_bit LENGTH(32) (take_bit LENGTH(64) (x + y))
      = take_bit LENGTH(32) (take_bit LENGTH(64) x + take_bit LENGTH(64) y)"
    by (simp add: take_bit_add)
qed

lemma as_u32_from [simp]: "as_u32 (u64_from x) = x"
  by transfer simp

lemma fold_upt_snoc: "m \<le> n \<Longrightarrow> fold f [m..<Suc n] x = f n (fold f [m..<n] x)"
  by simp

lemma schedule_step_word:
  assumes "16 \<le> i" "i < 64" "length w = 64" "\<And>j. j < i \<Longrightarrow> w ! j = fips_w block j"
  shows "snd (schedule_step i (vs, w)) ! i = fips_w block i"
    and "\<And>j. j < i \<Longrightarrow> snd (schedule_step i (vs, w)) ! j = fips_w block j"
    and "length (snd (schedule_step i (vs, w))) = 64"
proof -
  have "fips_w block i = small_sigma1 (fips_w block (i - 2)) + fips_w block (i - 7)
        + small_sigma0 (fips_w block (i - 15)) + fips_w block (i - 16)"
    using assms(1) by (simp add: fips_w.simps [of block i])
  then show "snd (schedule_step i (vs, w)) ! i = fips_w block i"
    using assms by (simp add: schedule_step_def Let_def as_u32_add small_sigma0_def small_sigma1_def
      xor.assoc add.commute)
qed (use assms in \<open>auto simp: schedule_step_def Let_def\<close>)

lemma schedule_loop:
  assumes "length block = 16" "16 \<le> n" "n \<le> 64"
  shows "length (snd (fold schedule_step [16..<n] (vs, block @ replicate 48 0))) = 64 \<and>
    (\<forall>j < n. snd (fold schedule_step [16..<n] (vs, block @ replicate 48 0)) ! j = fips_w block j)"
  using assms(2,3)
proof (induction n rule: nat_induct_at_least)
  case base
  then show ?case using assms(1) by (auto simp: nth_append fips_w.simps)
next
  case (Suc n)
  obtain v w where vw: "fold schedule_step [16..<n] (vs, block @ replicate 48 0) = (v, w)"
    by fastforce
  have w: "length w = 64" "\<And>j. j < n \<Longrightarrow> w ! j = fips_w block j"
    using Suc vw by auto
  note step = schedule_step_word [where vs = v, OF Suc.hyps(1) _ w]
  have "fold schedule_step [16..<Suc n] (vs, block @ replicate 48 0) = schedule_step n (v, w)"
    using Suc.hyps vw by simp
  then show ?case using step Suc.prems by (auto simp: less_Suc_eq)
qed

text \<open>The state the working variables stand for once the deferred sums are read.\<close>

definition settled :: "working \<Rightarrow> fips_state" where
  "settled s =
    (case deferred s of
       None \<Rightarrow> (wa s, wb s, wc s, wd s, we s, wf s, wg s, wh s)
     | Some (e_sum, a_sum) \<Rightarrow>
         (as_u32 a_sum, wb s, wc s, wd s, as_u32 e_sum, wf s, wg s, wh s))"

lemma round_step_refines:
  assumes "w ! i = fips_w block i"
  shows "settled (snd (round_step w i (vs, s))) = fips_round block i (settled s)"
    and "deferred (snd (round_step w i (vs, s))) \<noteq> None"
  using assms
  by (cases "deferred s")
     (auto simp: round_step_def settled_def fips_round_def Let_def as_u32_add big_sigma0_def
       big_sigma1_def split_def xor.assoc add_ac)

lemma round_loop:
  assumes "\<And>j. j < n \<Longrightarrow> w ! j = fips_w block j"
  shows "settled (snd (fold (round_step w) [0..<n] (vs, s))) = fold (fips_round block) [0..<n] (settled s)"
    and "0 < n \<Longrightarrow> deferred (snd (fold (round_step w) [0..<n] (vs, s))) \<noteq> None"
proof -
  have "settled (snd (fold (round_step w) [0..<n] (vs, s))) = fold (fips_round block) [0..<n] (settled s)
      \<and> (0 < n \<longrightarrow> deferred (snd (fold (round_step w) [0..<n] (vs, s))) \<noteq> None)"
    using assms
  proof (induction n)
    case (Suc n)
    obtain v t where vt: "fold (round_step w) [0..<n] (vs, s) = (v, t)" by fastforce
    have "settled t = fold (fips_round block) [0..<n] (settled s)" using Suc vt by auto
    then show ?case using round_step_refines [of w n block v t] Suc.prems vt by simp
  qed simp
  then show "settled (snd (fold (round_step w) [0..<n] (vs, s))) = fold (fips_round block) [0..<n] (settled s)"
    and "0 < n \<Longrightarrow> deferred (snd (fold (round_step w) [0..<n] (vs, s))) \<noteq> None" by auto
qed

lemma compression_eq:
  assumes "length block = 16"
  shows "\<exists>pushed. compression vs block state = Some (pushed, fips_compress block state)"
proof -
  obtain v w where vw: "fold schedule_step [16..<64] (vs, block @ replicate 48 0) = (v, w)"
    by fastforce
  obtain u s where us: "fold (round_step w) [0..<64] (v, start_rounds state) = (u, s)" by fastforce
  have w: "\<And>j. j < 64 \<Longrightarrow> w ! j = fips_w block j"
    using schedule_loop [OF assms, of 64 vs] vw by auto
  note loop = round_loop [where n = 64 and vs = v and s = "start_rounds state", OF w, unfolded us]
  have "settled (start_rounds state)
      = (state ! 0, state ! 1, state ! 2, state ! 3, state ! 4, state ! 5, state ! 6, state ! 7)"
    by (simp add: settled_def start_rounds_def)
  moreover obtain es as' where d: "deferred s = Some (es, as')" using loop(2) by auto
  ultimately have "fold (fips_round block) [0..<64]
      (state ! 0, state ! 1, state ! 2, state ! 3, state ! 4, state ! 5, state ! 6, state ! 7)
      = (as_u32 as', wb s, wc s, wd s, as_u32 es, wf s, wg s, wh s)"
    using loop(1) by (simp add: settled_def del: upt_rec_numeral)
  then show ?thesis
    by (simp add: compression_def vw us d final_sums_def fips_compress_def as_u32_add add.commute
      del: upt_rec_numeral)
qed


subsection \<open>The values it records\<close>

definition bit_values :: "'f::field list \<Rightarrow> bool" where
  "bit_values vs \<longleftrightarrow> (\<forall>v \<in> set vs. v = 0 \<or> v = 1)"

text \<open>\<open>vs\<close> grows by \<open>n\<close> bits.\<close>

definition grows :: "nat \<Rightarrow> 'f::field list \<Rightarrow> 'f list \<Rightarrow> bool" where
  "grows n vs vs' \<longleftrightarrow> (\<exists>new. vs' = vs @ new \<and> length new = n \<and> bit_values new)"

lemma grows_refl: "grows 0 vs vs"
  by (simp add: grows_def bit_values_def)

lemma grows_trans: "grows m vs us \<Longrightarrow> grows n us ws \<Longrightarrow> grows (m + n) vs ws"
  by (fastforce simp: grows_def bit_values_def)

lemma grows_low_bits: "grows n vs (low_bits vs v n)"
  by (auto simp: grows_def low_bits_def bit_values_def)

lemma grows_low_bits': "grows m vs us \<Longrightarrow> grows (m + n) vs (low_bits us v n)"
  by (rule grows_trans [OF _ grows_low_bits])

lemma grows_values_bit: "grows m vs us \<Longrightarrow> grows (Suc m) vs (values_bit us b)"
  using grows_trans [of m vs us 1 "values_bit us b"]
  by (simp add: values_bit_def grows_def bit_values_def)

lemma grows_fold:
  assumes "\<And>i us. i \<in> set is \<Longrightarrow> grows n (fst us) (fst (f i us))"
  shows "grows (n * length is) (fst us) (fst (fold f is us))"
  using assms
proof (induction "is" arbitrary: us)
  case (Cons i "is")
  then have "grows n (fst us) (fst (f i us))" "grows (n * length is) (fst (f i us)) (fst (fold f is (f i us)))"
    by auto
  then show ?case using grows_trans by fastforce
qed (simp add: grows_refl)

lemma grows_maj_bits: "grows m vs us \<Longrightarrow> grows (m + 64) vs (maj_bits us x y)"
proof -
  assume base: "grows m vs us"
  have "grows (m + 2 * n) vs (fold (\<lambda>k us. values_bit (values_bit us (bit x k)) (bit y k)) [0..<n] us)" for n
    by (induction n) (simp_all add: base grows_values_bit)
  from this [of 32] show ?thesis by (simp add: maj_bits_def del: upt_rec_numeral)
qed

lemmas grows_intros = grows_refl grows_low_bits grows_low_bits' grows_maj_bits

lemma grows_schedule_step: "grows 149 (fst us) (fst (schedule_step i us))"
proof -
  have "grows (0 + 32 + 29 + 32 + 22 + 34) (fst us) (fst (schedule_step i us))"
    by (simp only: schedule_step_def split_def Let_def fst_conv grows_intros)
  then show ?thesis by simp
qed

lemma grows_first_round:
  assumes "deferred (snd us) = None"
  shows "grows 224 (fst us) (fst (round_step w i us))"
proof -
  have "grows (0 + 32 + 32 + 32 + 32 + 32 + 64) (fst us) (fst (round_step w i us))"
    by (simp only: round_step_def split_def Let_def fst_conv snd_conv assms option.case grows_intros)
  then show ?thesis by simp
qed

lemma grows_next_round:
  assumes "deferred (snd us) \<noteq> None"
  shows "grows 294 (fst us) (fst (round_step w i us))"
proof -
  obtain d where d: "deferred (snd us) = Some d" using assms by auto
  have "grows (0 + 35 + 32 + 32 + 32 + 35 + 32 + 32 + 64) (fst us) (fst (round_step w i us))"
    by (simp only: round_step_def split_def Let_def fst_conv snd_conv d option.case grows_intros)
  then show ?thesis by simp
qed

lemma round_step_defers: "deferred (snd (round_step w i us)) \<noteq> None"
  by (simp add: round_step_def split_def Let_def)

lemma grows_next_rounds:
  "deferred (snd us) \<noteq> None \<Longrightarrow> grows (294 * length is) (fst us) (fst (fold (round_step w) is us))"
proof (induction "is" arbitrary: us)
  case (Cons i "is")
  have "grows (294 * length is) (fst (round_step w i us)) (fst (fold (round_step w) is (round_step w i us)))"
    by (rule Cons.IH) (rule round_step_defers)
  then show ?case
    using grows_trans [OF grows_next_round [OF Cons.prems]] by (fastforce simp del: mult_Suc)
qed (simp add: grows_refl)

lemma grows_rounds:
  assumes "deferred (snd us) = None"
  shows "grows 18746 (fst us) (fst (fold (round_step w) [0..<64] us))"
proof -
  have "[0..<64] = 0 # [1..<64]" by (simp add: upt_rec)
  moreover have "grows (224 + 294 * length [1..<64]) (fst us) (fst (fold (round_step w) [1..<64] (round_step w 0 us)))"
    by (rule grows_trans [OF grows_first_round [OF assms] grows_next_rounds]) (rule round_step_defers)
  ultimately show ?thesis by (simp del: upt_rec_numeral)
qed

lemma grows_final_sums:
  "grows 268 vs (fold (\<lambda>(sum, n) us. low_bits us sum n) (final_sums s d state) vs)"
proof -
  have "grows (0 + 35 + 33 + 33 + 33 + 35 + 33 + 33 + 33) vs
      (fold (\<lambda>(sum, n) us. low_bits us sum n) (final_sums s d state) vs)"
    by (simp only: final_sums_def split_def fold_simps id_o o_apply comp_def id_apply fst_conv snd_conv grows_intros)
  then show ?thesis by simp
qed

definition COMPRESSION_VALUES :: nat where "COMPRESSION_VALUES = 26166"

lemma compression_grows:
  assumes "compression vs block state = Some (us, after)"
  shows "grows COMPRESSION_VALUES vs us"
proof -
  obtain v w where vw: "fold schedule_step [16..<64] (vs, block @ replicate 48 0) = (v, w)" by fastforce
  obtain u s where us: "fold (round_step w) [0..<64] (v, start_rounds state) = (u, s)" by fastforce
  have "grows (149 * length [16..<64]) vs v"
    using grows_fold [of "[16..<64]" 149 schedule_step "(vs, block @ replicate 48 0)", OF grows_schedule_step] vw
    by (simp del: upt_rec_numeral)
  moreover have "grows 18746 v u"
    using grows_rounds [of "(v, start_rounds state)" w] us by (simp add: start_rounds_def del: upt_rec_numeral)
  moreover obtain d where "deferred s = Some d" and
    "us = fold (\<lambda>(sum, n) us. low_bits us sum n) (final_sums s d state) u"
    using assms by (auto simp: compression_def vw us Let_def simp del: upt_rec_numeral split: option.splits)
  ultimately have "grows (149 * length [16..<64] + 18746 + 268) vs us"
    using grows_trans grows_final_sums by blast
  then show ?thesis by (simp add: COMPRESSION_VALUES_def del: upt_rec_numeral)
qed

section \<open>Padding, words and chaining\<close>

definition IV :: "u32 list" where
  "IV = [0x6a09e667, 0xbb67ae85, 0x3c6ef372, 0xa54ff53a, 0x510e527f, 0x9b05688c, 0x1f83d9ab, 0x5be0cd19]"

definition last_block :: "nat \<Rightarrow> nat" where
  "last_block len = (len + 8) div 64"

definition blocks_before :: "nat \<Rightarrow> nat" where
  "blocks_before offset = offset div 64"

definition words_to_bytes :: "u32 list \<Rightarrow> bytes" where
  "words_to_bytes ws = concat (map (\<lambda>w. be_bytes 4 (unat w)) ws)"

text \<open>\<open>words::<N>\<close> of \<open>step.rs\<close>: the first \<open>N\<close> big-endian words of bytes.\<close>

definition be_words :: "nat \<Rightarrow> bytes \<Rightarrow> u32 list" where
  "be_words n bs = map (\<lambda>i. word_of_nat (be_val (take 4 (drop (4 * i) bs)))) [0..<n]"

definition bytes_to_words :: "bytes \<Rightarrow> u32 list" where
  "bytes_to_words bs = be_words 8 bs"

definition iv_bytes :: bytes where
  "iv_bytes = words_to_bytes IV"

function pad_zeros :: "bytes \<Rightarrow> bytes" where
  "pad_zeros padded = (if length padded mod 64 = 56 then padded else pad_zeros (padded @ [0]))"
  by pat_completeness auto
termination
proof (relation "measure (\<lambda>padded. if length padded mod 64 \<le> 56 then 56 - length padded mod 64
      else 120 - length padded mod 64)")
  fix padded :: bytes
  assume "length padded mod 64 \<noteq> 56"
  moreover have "length padded mod 64 < 64" by simp
  moreover have "Suc (length padded) mod 64 = (if length padded mod 64 = 63 then 0 else Suc (length padded mod 64))"
    by (simp add: mod_Suc)
  ultimately show "(padded @ [0], padded) \<in> measure (\<lambda>padded.
      if length padded mod 64 \<le> 56 then 56 - length padded mod 64 else 120 - length padded mod 64)"
    unfolding in_measure length_append_singleton by (auto split: if_splits)
qed simp

declare pad_zeros.simps [simp del]

definition pad :: "bytes \<Rightarrow> bytes" where
  "pad message = pad_zeros (message @ [0x80]) @ be_bytes 8 (8 * length message)"

definition compress :: "(u32 list \<Rightarrow> bytes \<Rightarrow> u32 list) \<Rightarrow> u32 list \<Rightarrow> bytes \<Rightarrow> u32 list" where
  "compress compress256 state blocks = fold (\<lambda>block state. compress256 state block) (chunks 64 blocks) state"

subsection \<open>Padding\<close>

lemma pad_zeros_spec:
  "\<exists>k < 64. pad_zeros padded = padded @ replicate k 0 \<and> (length padded + k) mod 64 = 56"
proof -
  define k where "k = (if length padded mod 64 \<le> 56 then 56 - length padded mod 64 else 120 - length padded mod 64)"
  have "pad_zeros padded = padded @ replicate k 0 \<and> (length padded + k) mod 64 = 56"
    using k_def
  proof (induction k arbitrary: padded)
    case 0
    have "length padded mod 64 < 64" by simp
    with 0 have "length padded mod 64 = 56" by (auto split: if_splits)
    then show ?case by (simp add: pad_zeros.simps)
  next
    case (Suc k)
    have m: "length padded mod 64 < 64" by simp
    have ne: "length padded mod 64 \<noteq> 56" using Suc.prems by auto
    have "Suc (length padded) mod 64 = (if length padded mod 64 = 63 then 0 else Suc (length padded mod 64))"
      by (simp add: mod_Suc)
    then have "k = (if length (padded @ [0]) mod 64 \<le> 56 then 56 - length (padded @ [0]) mod 64
        else 120 - length (padded @ [0]) mod 64)"
      using Suc.prems ne m by (auto split: if_splits)
    from Suc.IH [OF this] show ?case
      using ne by (simp add: pad_zeros.simps [of padded] replicate_app_Cons_same)
  qed
  moreover have "length padded mod 64 < 64" by simp
  then have "k < 64" by (simp add: k_def) linarith
  ultimately show ?thesis by blast
qed

lemma pad_spec:
  "\<exists>k < 64. pad m = m @ [0x80] @ replicate k 0 @ be_bytes 8 (8 * length m) \<and>
    (length m + 1 + k) mod 64 = 56"
  using pad_zeros_spec [of "m @ [0x80]"] by (auto simp: pad_def)

lemma length_pad: "length (pad m) = 64 * Suc (last_block (length m))"
proof -
  obtain k where k: "k < 64" "length (pad m) = length m + 9 + k" "(length m + 1 + k) mod 64 = 56"
    using pad_spec [of m] by auto
  have "(length m + 9 + k) mod 64 = ((length m + 1 + k) mod 64 + 8) mod 64"
    by presburger
  then have "64 dvd (length m + 9 + k)" using k(3) by (simp add: dvd_eq_mod_eq_0)
  then obtain q where q: "length m + 9 + k = 64 * q" by (elim dvdE)
  have "(length m + 8) div 64 = q - 1"
    using q k(1) by (intro div_nat_eqI) auto
  then show ?thesis using q k(2) by (cases q) (auto simp: last_block_def)
qed

lemma pad_prefix: "take (length m) (pad m) = m"
  using pad_spec [of m] by auto

lemma pad_inj:
  assumes "pad m = pad n" "8 * length m < 2 ^ 64" "8 * length n < 2 ^ 64"
  shows "m = n"
proof -
  have tail: "drop (length (pad x) - 8) (pad x) = be_bytes 8 (8 * length x)" for x
    using pad_spec [of x] by auto
  have "be_bytes 8 (8 * length m) = be_bytes 8 (8 * length n)"
    using tail [of m] tail [of n] assms(1) by simp
  moreover have "8 * length m < 256 ^ 8" "8 * length n < 256 ^ 8" using assms(2,3) by simp_all
  ultimately have "length m = length n" using be_bytes_inj [of "8 * length m" 8 "8 * length n"] by simp
  then show ?thesis using pad_prefix assms(1) by metis
qed

subsection \<open>Words\<close>

lemma length_words_to_bytes [simp]: "length (words_to_bytes ws) = 4 * length ws"
  by (induction ws) (simp_all add: words_to_bytes_def)

lemma length_be_words [simp]: "length (be_words n bs) = n"
  by (simp add: be_words_def)

lemma be_words_Suc: "be_words (Suc n) bs = word_of_nat (be_val (take 4 bs)) # be_words n (drop 4 bs)"
  by (simp add: be_words_def upt_conv_Cons map_Suc_upt [symmetric] del: upt_Suc)
     (simp add: comp_def add.commute)

lemma be_words_of_words: "be_words (length ws) (words_to_bytes ws) = ws"
proof (induction ws)
  case (Cons w ws)
  have "be_val (be_bytes 4 (unat w)) = unat w"
    by (rule be_val_be_bytes_less, rule order.strict_trans2 [OF unsigned_less]) simp
  then show ?case using Cons by (simp add: words_to_bytes_def be_words_Suc)
qed (simp add: be_words_def)

lemma words_of_be_words: "length bs = 4 * n \<Longrightarrow> words_to_bytes (be_words n bs) = bs"
proof (induction n arbitrary: bs)
  case (Suc n)
  let ?v = "be_val (take 4 bs)"
  have "?v < 256 ^ 4" using be_val_less [of "take 4 bs"] Suc.prems by simp
  then have "be_bytes 4 (unat (word_of_nat ?v :: u32)) = take 4 bs"
    using be_bytes_be_val [of "take 4 bs" 4] Suc.prems by (simp add: unat_of_nat)
  moreover have "words_to_bytes (be_words n (drop 4 bs)) = drop 4 bs"
    using Suc by simp
  ultimately show ?case by (simp add: be_words_Suc words_to_bytes_def)
qed (simp add: words_to_bytes_def be_words_def)

lemma bytes_to_words_to_bytes: "length ws = 8 \<Longrightarrow> bytes_to_words (words_to_bytes ws) = ws"
  using be_words_of_words [of ws] by (simp add: bytes_to_words_def)

lemma words_to_bytes_to_words: "length bs = 32 \<Longrightarrow> words_to_bytes (bytes_to_words bs) = bs"
  by (simp add: bytes_to_words_def words_of_be_words)

lemma length_IV [simp]: "length IV = 8"
  by (simp add: IV_def)

lemma length_iv_bytes [simp]: "length iv_bytes = 32"
  by (simp add: iv_bytes_def)

subsection \<open>Chaining\<close>

lemma compress_Nil [simp]: "compress c state [] = state"
  by (simp add: compress_def)

lemma compress_block: "length b = 64 \<Longrightarrow> compress c state b = c state b"
  using chunks_append [of 64 b "[]"] by (simp add: compress_def)

lemma compress_append:
  assumes "length as = 64 * n"
  shows "compress c state (as @ bs) = compress c (compress c state as) bs"
  using chunks_append_mult [OF _ assms] by (simp add: compress_def)

section \<open>The interface to the hash\<close>

text \<open>
  The crate \<open>sha2\<close>: \<open>compress256\<close> maps a state and a block to a state of eight words, and \<open>digest\<close>
  is the chain of \<open>compress256\<close> from the initial value over the padded message.
\<close>

locale sha2 =
  fixes compress256 :: "u32 list \<Rightarrow> bytes \<Rightarrow> u32 list" and digest :: "bytes \<Rightarrow> bytes"
  assumes compress256_length: "length state = 8 \<Longrightarrow> length block = 64 \<Longrightarrow> length (compress256 state block) = 8"
    and digest_chain: "digest m = words_to_bytes (compress compress256 IV (pad m))"
begin

lemma compress_length:
  "length bs = 64 * n \<Longrightarrow> length state = 8 \<Longrightarrow> length (compress compress256 state bs) = 8"
proof (induction n arbitrary: bs state)
  case (Suc n)
  have "compress compress256 state (take 64 bs @ drop 64 bs)
      = compress compress256 (compress compress256 state (take 64 bs)) (drop 64 bs)"
    by (rule compress_append [where n = 1]) (use Suc.prems in simp)
  then have "compress compress256 state bs = compress compress256 (compress256 state (take 64 bs)) (drop 64 bs)"
    using Suc.prems by (simp add: compress_block)
  then show ?case using Suc compress256_length by simp
qed simp

lemma length_digest: "length (digest m) = 32"
  by (simp add: digest_chain compress_length [OF length_pad])

lemma digest_skip:
  assumes "64 * n \<le> length (pad m)"
  shows "digest m = words_to_bytes
    (compress compress256 (compress compress256 IV (take (64 * n) (pad m))) (drop (64 * n) (pad m)))"
  using compress_append [of "take (64 * n) (pad m)" n compress256 IV "drop (64 * n) (pad m)"] assms
  by (simp add: digest_chain)

end

text \<open>
  The native compression of \<open>gadgets/sha256.rs\<close>, at a block of bytes, is such a function. The
  values it records do not matter here.
\<close>

definition native_compress256 :: "u32 list \<Rightarrow> bytes \<Rightarrow> u32 list" where
  "native_compress256 state block =
     (case compression ([] :: rat list) (be_words 16 block) state of
        Some (_, after) \<Rightarrow> after
      | None \<Rightarrow> [])"

definition native_digest :: "bytes \<Rightarrow> bytes" where
  "native_digest m = words_to_bytes (compress native_compress256 IV (pad m))"

lemma native_compress256_fips: "native_compress256 state block = fips_compress (be_words 16 block) state"
  using compression_eq [of "be_words 16 block" "[] :: rat list" state]
  by (auto simp: native_compress256_def)

lemma length_fips_compress [simp]: "length (fips_compress block state) = 8"
  by (simp add: fips_compress_def split_def Let_def del: upt_rec_numeral)

interpretation native: sha2 native_compress256 native_digest
  by unfold_locales (simp_all add: native_compress256_fips native_digest_def)

section \<open>Properties\<close>

text \<open>
  C17. The native compression never panics. It returns the state that the compression of FIPS 180-4
  gives for the block, although it defers two of its sums and adds in 64 bits, and it appends exactly
  26166 values to the list, each a bit.
\<close>

theorem compression_is_fips:
  assumes "length block = 16"
  shows "\<exists>new. compression vs block state = Some (vs @ new, fips_compress block state) \<and>
    length new = 26166 \<and> (\<forall>v \<in> set new. v = 0 \<or> v = 1)"
proof -
  obtain us where us: "compression vs block state = Some (us, fips_compress block state)"
    using compression_eq [OF assms] by blast
  from compression_grows [OF this] show ?thesis
    using us by (auto simp: grows_def bit_values_def COMPRESSION_VALUES_def)
qed

theorem compression_is_fips_witness:
  "\<exists>new. compression [1 :: rat] (replicate 16 0) IV
      = Some ([1] @ new, fips_compress (replicate 16 0) IV) \<and>
    length new = 26166 \<and> (\<forall>v \<in> set new. v = 0 \<or> v = 1)"
  by (rule compression_is_fips) simp

text \<open>
  \<open>pad\<close> fills whole blocks, the last of which \<open>last_block\<close> names, keeps the message at the
  front, and is injective on messages whose bit length fits in 64 bits.
\<close>

theorem pad_blocks_injective:
  assumes "8 * length m < 2 ^ 64" "8 * length n < 2 ^ 64"
  shows "length (pad m) = 64 * (last_block (length m) + 1) \<and> take (length m) (pad m) = m \<and>
    (pad m = pad n \<longleftrightarrow> m = n)"
  using pad_inj [OF _ assms] length_pad [of m] pad_prefix [of m] by auto

theorem pad_blocks_injective_witness:
  "length (pad [1, 2]) = 64 * (last_block (length [1, 2 :: byte]) + 1) \<and>
    take (length [1, 2 :: byte]) (pad [1, 2]) = [1, 2] \<and> (pad [1, 2] = pad [2] \<longleftrightarrow> [1, 2] = [2 :: byte])"
  by (rule pad_blocks_injective) simp_all

end
