(* ===== verification/Table.thy ===== *)
theory Table
  imports Sha256 Circuit
begin

text \<open>
  The shared table (\<open>src/nymauth_vega/engine/table.rs\<close>): where each message sits (\<open>Layout\<close>), the
  blocks and the hash states (\<open>Table\<close>), and the segment that the step and the core circuits allocate
  and read (\<open>allocate\<close>, \<open>Cells\<close>). The block function \<open>compress256\<close> of the crate \<open>sha2\<close> is a
  parameter. The wiping of dropped buffers has no value and is not modelled, nor is the counter
  \<open>SYNTHESES\<close>, which nothing reads.
\<close>

section \<open>Layouts\<close>

definition POSITIONS :: nat where "POSITIONS = 32"
definition OFFSET_BITS :: nat where "OFFSET_BITS = 11"
definition CHUNK_BYTES :: nat where "CHUNK_BYTES = 16"
definition CHUNKS_PER_BLOCK :: nat where "CHUNKS_PER_BLOCK = 4"
definition CELLS_PER_POSITION :: nat where "CELLS_PER_POSITION = CHUNKS_PER_BLOCK + 2"
definition START :: nat where "START = CELLS_PER_POSITION * POSITIONS"

lemmas table_consts = POSITIONS_def OFFSET_BITS_def CHUNK_BYTES_def CHUNKS_PER_BLOCK_def
  CELLS_PER_POSITION_def START_def

record Region =
  first :: nat
  blocks :: nat

record PseudonymRegions =
  ssc :: Region
  seed :: Region
  nym :: Region

record Layout =
  signed_region :: Region
  attribute_region :: Region
  pseudonym :: "PseudonymRegions option"
  per_instance :: nat
  budget :: nat

definition SIGNED :: Region where "SIGNED = \<lparr>first = 0, blocks = 30\<rparr>"

definition ATTRIBUTE :: Region where "ATTRIBUTE = \<lparr>first = 30, blocks = 2\<rparr>"

definition AGE :: Layout where
  "AGE = \<lparr>signed_region = SIGNED, attribute_region = ATTRIBUTE, pseudonym = None, per_instance = 1, budget = 2 ^ 15\<rparr>"

definition FULL_REGIONS :: PseudonymRegions where
  "FULL_REGIONS = \<lparr>ssc = \<lparr>first = 24, blocks = 3\<rparr>, seed = \<lparr>first = 30, blocks = 1\<rparr>, nym = \<lparr>first = 28, blocks = 2\<rparr>\<rparr>"

definition FULL_MDOC :: Layout where
  "FULL_MDOC = \<lparr>signed_region = \<lparr>first = 0, blocks = 22\<rparr>, attribute_region = \<lparr>first = 22, blocks = 2\<rparr>,
     pseudonym = Some FULL_REGIONS, per_instance = 1, budget = 2 ^ 15\<rparr>"

definition instances :: "Layout \<Rightarrow> nat" where
  "instances layout = POSITIONS div per_instance layout"

definition starts_from_iv :: "Layout \<Rightarrow> nat \<Rightarrow> bool" where
  "starts_from_iv layout j \<longleftrightarrow>
     j = first (attribute_region layout) \<or>
     (case pseudonym layout of
        None \<Rightarrow> False
      | Some p \<Rightarrow> j = first (ssc p) \<or> j = first (seed p) \<or> j = first (nym p))"

section \<open>Tables\<close>

definition state_half :: "bytes \<Rightarrow> nat \<Rightarrow> 'f::field" where
  "state_half state h = from_be (take CHUNK_BYTES (drop (CHUNK_BYTES * h) state))"

record Table =
  tblocks :: "bytes list"
  tstates :: "bytes list"
  tstart :: bytes
  tlayout :: Layout

datatype table_error = DoesNotFit nat nat

fun chain_states ::
  "(u32 list \<Rightarrow> bytes \<Rightarrow> u32 list) \<Rightarrow> Layout \<Rightarrow> bytes \<Rightarrow> nat \<Rightarrow> u32 list \<Rightarrow> bytes list \<Rightarrow> bytes list" where
  "chain_states c layout start j state [] = []"
| "chain_states c layout start j state (block # rest) =
    (let state = (if j = first (signed_region layout) then bytes_to_words start else state);
         state = (if starts_from_iv layout j then IV else state);
         state = compress c state block
     in words_to_bytes state # chain_states c layout start (Suc j) state rest)"

text \<open>
  The code asserts that there are \<open>POSITIONS\<close> blocks. Its caller, \<open>with_messages\<close>, passes the \<open>POSITIONS\<close> empty blocks over
  which it has placed the messages, so the assertion holds (\<open>with_messages_positions\<close>).
\<close>

definition from_blocks_in :: "(u32 list \<Rightarrow> bytes \<Rightarrow> u32 list) \<Rightarrow> Layout \<Rightarrow> bytes list \<Rightarrow> bytes \<Rightarrow> Table" where
  "from_blocks_in c layout bs start =
     \<lparr>tblocks = bs, tstates = chain_states c layout start 0 IV bs, tstart = start, tlayout = layout\<rparr>"

text \<open>The loop of \<open>with_messages\<close>: each message's blocks go to its region, if they fit.\<close>

definition put_blocks :: "nat \<Rightarrow> bytes list \<Rightarrow> bytes list \<Rightarrow> bytes list" where
  "put_blocks pos new bs = fold (\<lambda>(j, block) bs. bs[pos + j := block]) (zip [0..<length new] new) bs"

fun place :: "(Region \<times> bytes) list \<Rightarrow> bytes list \<Rightarrow> table_error + bytes list" where
  "place [] bs = Inr bs"
| "place ((region, padded) # rest) bs =
    (if length padded > 64 * blocks region then Inl (DoesNotFit (length padded div 64) (blocks region))
     else place rest (put_blocks (first region) (chunks 64 padded) bs))"

definition with_messages ::
  "(u32 list \<Rightarrow> bytes \<Rightarrow> u32 list) \<Rightarrow> Layout \<Rightarrow> bytes \<Rightarrow> nat \<Rightarrow> (Region \<times> bytes) list \<Rightarrow> table_error + Table" where
  "with_messages c layout signed_message skipped messages =
    (let padded = pad signed_message;
         k = min (64 * skipped) (length padded);
         start = compress c IV (take k padded)
     in rbind (place ((signed_region layout, drop k padded) # map (\<lambda>(region, message). (region, pad message)) messages)
          (replicate POSITIONS (replicate 64 0))) (\<lambda>bs.
        Inr (from_blocks_in c layout bs (words_to_bytes start))))"

definition chunk_value :: "Table \<Rightarrow> nat \<Rightarrow> 'f::field" where
  "chunk_value t c =
    (if c < CHUNKS_PER_BLOCK * POSITIONS then
       from_be (take CHUNK_BYTES (drop (CHUNK_BYTES * (c mod CHUNKS_PER_BLOCK)) (tblocks t ! (c div CHUNKS_PER_BLOCK))))
     else 0)"

definition state_value :: "Table \<Rightarrow> nat \<Rightarrow> nat \<Rightarrow> 'f::field" where
  "state_value t j h = state_half (tstates t ! j) h"

definition state_before_value :: "Table \<Rightarrow> Layout \<Rightarrow> nat \<Rightarrow> nat \<Rightarrow> 'f::field" where
  "state_before_value t layout j h =
    (if j = first (signed_region layout) then state_half (tstart t) h
     else if starts_from_iv layout j then state_half iv_bytes h
     else state_value t (j - 1) h)"

section \<open>The shared segment\<close>

definition allocate_position ::
  "'f::field bellpepper \<Rightarrow> Table option \<Rightarrow> nat \<Rightarrow> ('f AllocatedNum list, 'f) synth" where
  "allocate_position L table j =
     sbind (smap (\<lambda>k. ns (''block '' @ show_nat j @ '' chunk '' @ show_nat k)
         (alloc_num L (ok_or AssignmentMissing (map_option (\<lambda>t.
           from_be (take CHUNK_BYTES (drop (CHUNK_BYTES * k) (tblocks t ! j)))) table)))) [0..<CHUNKS_PER_BLOCK]) (\<lambda>chunks.
     sbind (smap (\<lambda>h. ns (''state '' @ show_nat j @ '' half '' @ show_nat h)
         (alloc_num L (ok_or AssignmentMissing (map_option (\<lambda>t. state_half (tstates t ! j) h) table)))) [0..<2]) (\<lambda>halves.
     sret (chunks @ halves)))"

definition allocate :: "'f::field bellpepper \<Rightarrow> Table option \<Rightarrow> ('f AllocatedNum list, 'f) synth" where
  "allocate L table =
     sbind (smap (allocate_position L table) [0..<POSITIONS]) (\<lambda>cells.
     sbind (smap (\<lambda>h. ns (''start state half '' @ show_nat h)
         (alloc_num L (ok_or AssignmentMissing (map_option (\<lambda>t. state_half (tstart t) h) table)))) [0..<2]) (\<lambda>start.
     sret (concat cells @ start)))"

type_synonym 'f Cells = "'f AllocatedNum list"

definition cells_chunk :: "'f::field Cells \<Rightarrow> nat \<Rightarrow> 'f Lc" where
  "cells_chunk cells c =
    (if c < CHUNKS_PER_BLOCK * POSITIONS then
       lc_num (cells ! (CELLS_PER_POSITION * (c div CHUNKS_PER_BLOCK) + c mod CHUNKS_PER_BLOCK))
     else lc_zero)"

definition cells_state :: "'f::field Cells \<Rightarrow> nat \<Rightarrow> nat \<Rightarrow> 'f Lc" where
  "cells_state cells j h = lc_num (cells ! (CELLS_PER_POSITION * j + CHUNKS_PER_BLOCK + h))"

definition cells_state_before :: "'f::field Cells \<Rightarrow> Layout \<Rightarrow> nat \<Rightarrow> nat \<Rightarrow> 'f Lc" where
  "cells_state_before cells layout j h =
    (if j = first (signed_region layout) then lc_num (cells ! (START + h))
     else if starts_from_iv layout j then lc_constant (state_half iv_bytes h)
     else cells_state cells (j - 1) h)"

section \<open>Well-formed layouts\<close>

definition region_list :: "Layout \<Rightarrow> Region list" where
  "region_list layout = signed_region layout # attribute_region layout #
     (case pseudonym layout of None \<Rightarrow> [] | Some p \<Rightarrow> [ssc p, seed p, nym p])"

definition disjoint_regions :: "Region \<Rightarrow> Region \<Rightarrow> bool" where
  "disjoint_regions r s \<longleftrightarrow> first r + blocks r \<le> first s \<or> first s + blocks s \<le> first r"

fun pairwise_disjoint :: "Region list \<Rightarrow> bool" where
  "pairwise_disjoint [] = True"
| "pairwise_disjoint (r # rs) = (list_all (disjoint_regions r) rs \<and> pairwise_disjoint rs)"

definition layout_ok :: "Layout \<Rightarrow> bool" where
  "layout_ok layout \<longleftrightarrow> pairwise_disjoint (region_list layout) \<and>
     list_all (\<lambda>r. 0 < blocks r \<and> first r + blocks r \<le> POSITIONS) (region_list layout)"

lemma layout_ok_AGE: "layout_ok AGE"
  by (simp add: layout_ok_def AGE_def SIGNED_def ATTRIBUTE_def region_list_def disjoint_regions_def POSITIONS_def)

lemma layout_ok_FULL_MDOC: "layout_ok FULL_MDOC"
  by (simp add: layout_ok_def FULL_MDOC_def FULL_REGIONS_def region_list_def disjoint_regions_def POSITIONS_def)

lemma pairwise_disjointD:
  "pairwise_disjoint rs \<Longrightarrow> i < length rs \<Longrightarrow> j < length rs \<Longrightarrow> i \<noteq> j \<Longrightarrow> disjoint_regions (rs ! i) (rs ! j)"
proof (induction rs arbitrary: i j)
  case (Cons r rs)
  then show ?case by (cases i; cases j) (auto simp: disjoint_regions_def list_all_length)
qed simp

lemma starts_in_regions: "starts_from_iv layout j \<longleftrightarrow> (\<exists>r \<in> set (tl (region_list layout)). j = first r)"
  by (auto simp: starts_from_iv_def region_list_def split: option.splits)

text \<open>Inside a region, only its first position starts a chain.\<close>

lemma no_start_inside:
  assumes "layout_ok layout" "r \<in> set (region_list layout)" "0 < k" "k < blocks r"
  shows "first r + k \<noteq> first (signed_region layout) \<and> \<not> starts_from_iv layout (first r + k)"
proof -
  have "first r + k \<noteq> first s" if s: "s \<in> set (region_list layout)" for s
  proof -
    obtain i j where ij: "i < length (region_list layout)" "region_list layout ! i = r"
      "j < length (region_list layout)" "region_list layout ! j = s"
      using assms(2) s by (metis in_set_conv_nth)
    have pos: "0 < blocks s" using s assms(1) by (auto simp: layout_ok_def list_all_iff)
    show ?thesis
    proof (cases "i = j")
      case False
      then have "disjoint_regions r s" using pairwise_disjointD assms(1) ij by (metis layout_ok_def)
      then show ?thesis using assms(4) pos by (auto simp: disjoint_regions_def)
    qed (use ij assms(3) in auto)
  qed
  then show ?thesis
    by (auto simp: starts_in_regions) (auto simp: region_list_def)
qed

section \<open>Chains\<close>

lemma length_chain_states [simp]: "length (chain_states c layout start j state bs) = length bs"
  by (induction bs arbitrary: j state) (simp_all add: Let_def)

text \<open>The hash state from which position \<open>j\<close> is compressed, given the table's states.\<close>

definition before_words :: "Layout \<Rightarrow> bytes \<Rightarrow> bytes list \<Rightarrow> nat \<Rightarrow> u32 list" where
  "before_words layout start states j =
    (if starts_from_iv layout j then IV
     else if j = first (signed_region layout) then bytes_to_words start
     else if j = 0 then IV else bytes_to_words (states ! (j - 1)))"

lemma chain_states_nth:
  assumes "\<forall>s b. length s = 8 \<longrightarrow> length b = 64 \<longrightarrow> length (c s b) = 8"
    and "list_all (\<lambda>b. length b = 64) bs" "length start = 32" "length state = 8" "k < length bs"
  shows "chain_states c layout start j state bs ! k = words_to_bytes (c
    (if starts_from_iv layout (j + k) then IV
     else if j + k = first (signed_region layout) then bytes_to_words start
     else if k = 0 then state else bytes_to_words (chain_states c layout start j state bs ! (k - 1))) (bs ! k))"
  using assms(2,4,5)
proof (induction bs arbitrary: j state k)
  case (Cons b bs)
  define s where "s = (if starts_from_iv layout j then IV
    else if j = first (signed_region layout) then bytes_to_words start else state)"
  have s8: "length s = 8" using Cons.prems by (simp add: s_def bytes_to_words_def)
  have b: "length b = 64" using Cons.prems by simp
  have head: "chain_states c layout start j state (b # bs) =
      words_to_bytes (c s b) # chain_states c layout start (Suc j) (c s b) bs"
    by (simp add: s_def Let_def compress_block [OF b])
  show ?case
  proof (cases k)
    case 0
    then show ?thesis using head by (simp add: s_def)
  next
    case (Suc i)
    have "length (c s b) = 8" using assms(1) s8 b by simp
    note IH = Cons.IH [OF _ this, of i "Suc j"]
    show ?thesis
    proof (cases i)
      case 0
      have "bytes_to_words (words_to_bytes (c s b)) = c s b"
        using assms(1) s8 b by (intro bytes_to_words_to_bytes) simp
      then show ?thesis using IH Cons.prems head Suc 0 by simp
    next
      case (Suc i')
      then show ?thesis using IH Cons.prems head \<open>k = Suc i\<close> by simp
    qed
  qed
qed simp

context sha2
begin

lemma chain_run:
  assumes "layout_ok layout" "r \<in> set (region_list layout)" "list_all (\<lambda>b. length b = 64) bs"
    "length bs = POSITIONS" "length start = 32" "k < blocks r"
  shows "chain_states compress256 layout start 0 IV bs ! (first r + k) = words_to_bytes (compress compress256
    (if starts_from_iv layout (first r) then IV else bytes_to_words start)
    (concat (take (Suc k) (drop (first r) bs))))"
  using assms(6)
proof (induction k)
  have c8: "\<forall>s b. length s = 8 \<longrightarrow> length b = 64 \<longrightarrow> length (compress256 s b) = 8"
    using compress256_length by blast
  note nth = chain_states_nth [OF c8 assms(3,5) length_IV]
  have fits: "first r + blocks r \<le> POSITIONS" using assms(1,2) by (auto simp: layout_ok_def list_all_iff)
  {
    case 0
    have b: "bs ! first r \<in> set bs" "first r < length bs" using assms(4) fits 0 by simp_all
    then have "length (bs ! first r) = 64" using assms(3) by (simp add: list_all_iff)
    moreover have "take (Suc 0) (drop (first r) bs) = [bs ! first r]"
      using b(2) by (simp add: take_Suc_conv_app_nth)
    moreover have "starts_from_iv layout (first r) \<or> first r = first (signed_region layout)"
      using assms(2) by (auto simp: starts_in_regions region_list_def)
    ultimately show ?case using nth [where k = "first r" and layout = layout and j = 0] b(2) by (auto simp: compress_block)
  next
    case (Suc k)
    let ?st = "chain_states compress256 layout start 0 IV bs"
    let ?init = "if starts_from_iv layout (first r) then IV else bytes_to_words start"
    let ?run = "concat (take (Suc k) (drop (first r) bs))"
    have i: "first r + Suc k < length bs" using Suc.prems fits assms(4) by simp
    have b: "length (bs ! (first r + Suc k)) = 64" using i assms(3) by (simp add: list_all_length)
    have len: "length ?run = 64 * Suc k"
    proof -
      have "length (concat xs) = 64 * length xs" if "list_all (\<lambda>b. length b = 64) xs" for xs :: "bytes list"
        using that by (induction xs) simp_all
      moreover have "list_all (\<lambda>b. length b = 64) (take (Suc k) (drop (first r) bs))"
        using assms(3) by (auto simp: list_all_iff dest: in_set_takeD in_set_dropD)
      ultimately show ?thesis using i by simp
    qed
    have run8: "length (compress compress256 ?init ?run) = 8"
      using compress_length [OF len] by (simp add: bytes_to_words_def)
    have "?st ! (first r + Suc k) = words_to_bytes (compress256 (bytes_to_words (?st ! (first r + k))) (bs ! (first r + Suc k)))"
      using nth [where layout = layout and j = 0, OF i] no_start_inside [OF assms(1,2), of "Suc k"] Suc.prems by simp
    also have "\<dots> = words_to_bytes (compress256 (compress compress256 ?init ?run) (bs ! (first r + Suc k)))"
      using Suc run8 by (simp add: bytes_to_words_to_bytes)
    also have "\<dots> = words_to_bytes (compress compress256 ?init (?run @ bs ! (first r + Suc k)))"
      using compress_append [OF len] b by (simp add: compress_block)
    also have "?run @ bs ! (first r + Suc k) = concat (take (Suc (Suc k)) (drop (first r) bs))"
      using i by (simp add: take_Suc_conv_app_nth [of "Suc k"])
    finally show ?case .
  }
qed

end

section \<open>Placing the messages\<close>

lemma length_put_blocks [simp]: "length (put_blocks p new bs) = length bs"
proof -
  have "length (fold (\<lambda>(j, block) bs. bs[p + j := block]) ps bs) = length bs" for ps and bs :: "bytes list"
    by (induction ps arbitrary: bs) auto
  then show ?thesis by (simp add: put_blocks_def)
qed

lemma put_blocks_snoc: "put_blocks p (new @ [b]) bs = (put_blocks p new bs)[p + length new := b]"
  by (simp add: put_blocks_def zip_append1)

lemma put_blocks_nth:
  assumes "p + length new \<le> length bs"
  shows "put_blocks p new bs ! i = (if p \<le> i \<and> i < p + length new then new ! (i - p) else bs ! i)"
  using assms
proof (induction new rule: rev_induct)
  case (snoc b new)
  have "i = p + length new \<or> i \<noteq> p + length new" by simp
  then show ?case
    using snoc by (auto simp: put_blocks_snoc nth_list_update nth_append)
qed (auto simp: put_blocks_def)

lemma chunks_fit: "length p \<le> 64 * n \<Longrightarrow> length (chunks 64 p) \<le> n"
  by (simp add: length_chunks)

lemma place_length: "place ms bs = Inr bs' \<Longrightarrow> length bs' = length bs"
  by (induction ms bs rule: place.induct) (auto split: if_splits)

lemma with_messages_positions:
  assumes "with_messages c layout m skipped ms = Inr t"
  shows "length (tblocks t) = POSITIONS"
  using assms place_length by (fastforce simp: with_messages_def from_blocks_in_def Let_def rbind_eq_Inr simp del: place.simps)

lemma place_fits: "place ms bs = Inr bs' \<Longrightarrow> (r, p) \<in> set ms \<Longrightarrow> length p \<le> 64 * blocks r"
  by (induction ms bs rule: place.induct) (auto split: if_splits)

lemma place_keeps:
  assumes "place ms bs = Inr bs'" "\<forall>m \<in> set ms. first (fst m) + blocks (fst m) \<le> length bs"
    "\<forall>m \<in> set ms. i < first (fst m) \<or> first (fst m) + blocks (fst m) \<le> i"
  shows "bs' ! i = bs ! i"
  using assms
proof (induction ms bs rule: place.induct)
  case (2 region padded rest bs)
  then have fit: "length (chunks 64 padded) \<le> blocks region" by (intro chunks_fit) (auto split: if_splits)
  have "bs' ! i = put_blocks (first region) (chunks 64 padded) bs ! i" using 2 by (auto split: if_splits)
  also have "\<dots> = bs ! i" using 2 fit by (subst put_blocks_nth) auto
  finally show ?case .
qed simp

lemma place_at:
  assumes "place ms bs = Inr bs'" "pairwise_disjoint (map fst ms)"
    "\<forall>m \<in> set ms. first (fst m) + blocks (fst m) \<le> length bs" "(r, p) \<in> set ms" "k < length (chunks 64 p)"
  shows "bs' ! (first r + k) = chunks 64 p ! k"
  using assms
proof (induction ms bs rule: place.induct)
  case (2 region padded rest bs)
  have place: "place rest (put_blocks (first region) (chunks 64 padded) bs) = Inr bs'"
    and padded: "length padded \<le> 64 * blocks region" using 2 by (auto split: if_splits)
  show ?case
  proof (cases "(r, p) = (region, padded)")
    case True
    have k: "k < blocks r" using chunks_fit [OF padded] 2 True by simp
    have "first r + k < first (fst m) \<or> first (fst m) + blocks (fst m) \<le> first r + k" if "m \<in> set rest" for m
      using 2 that k True by (auto simp: disjoint_regions_def list_all_iff)
    then have "bs' ! (first r + k) = put_blocks (first region) (chunks 64 padded) bs ! (first r + k)"
      using place_keeps [OF place] 2 by simp
    also have "\<dots> = chunks 64 p ! k"
      using 2 True chunks_fit [OF padded] by (subst put_blocks_nth) auto
    finally show ?thesis .
  qed (use 2 padded in auto)
qed simp

lemma place_block_length:
  assumes "place ms bs = Inr bs'" "\<forall>m \<in> set ms. 64 dvd length (snd m)"
    "\<forall>m \<in> set ms. first (fst m) + blocks (fst m) \<le> length bs" "list_all (\<lambda>b. length b = 64) bs"
  shows "list_all (\<lambda>b. length b = 64) bs'"
  using assms
proof (induction ms bs rule: place.induct)
  case (2 region padded rest bs)
  have padded: "length padded \<le> 64 * blocks region" using 2 by (auto split: if_splits)
  have "length (put_blocks (first region) (chunks 64 padded) bs ! i) = 64" if "i < length bs" for i
    using that 2 chunks_fit [OF padded] chunks_length [of 64 _ padded]
    by (subst put_blocks_nth) (auto simp: list_all_length)
  then show ?case using 2 padded by (auto simp: list_all_length)
qed simp

lemma regions_disjoint:
  assumes "layout_ok layout" "r \<in> set (region_list layout)" "s \<in> set (region_list layout)" "r \<noteq> s"
  shows "disjoint_regions r s"
proof -
  obtain i j where "i < length (region_list layout)" "region_list layout ! i = r"
      "j < length (region_list layout)" "region_list layout ! j = s"
    using assms(2,3) by (metis in_set_conv_nth)
  then show ?thesis using pairwise_disjointD assms(1,4) by (metis layout_ok_def)
qed

lemma distinct_regions_disjoint:
  "layout_ok layout \<Longrightarrow> distinct rs \<Longrightarrow> set rs \<subseteq> set (region_list layout) \<Longrightarrow> pairwise_disjoint rs"
proof (induction rs)
  case (Cons r rs)
  have "disjoint_regions r s" if "s \<in> set rs" for s
    using that Cons.prems by (intro regions_disjoint) auto
  then show ?case using Cons by (simp add: list_all_iff)
qed simp

lemma signed_not_among_others:
  assumes "layout_ok layout"
  shows "signed_region layout \<notin> set (tl (region_list layout))" "\<not> starts_from_iv layout (first (signed_region layout))"
proof -
  let ?s = "signed_region layout"
  have s: "region_list layout = ?s # tl (region_list layout)" by (simp add: region_list_def)
  then have disj: "list_all (disjoint_regions ?s) (tl (region_list layout))"
    using assms by (metis layout_ok_def pairwise_disjoint.simps(2))
  have pos: "0 < blocks r" if "r \<in> set (region_list layout)" for r
    using that assms by (auto simp: layout_ok_def list_all_iff)
  have "disjoint_regions ?s r \<and> 0 < blocks r \<and> 0 < blocks ?s" if "r \<in> set (tl (region_list layout))" for r
    using that disj pos s by (auto simp: list_all_iff) (metis list.set_intros)+
  then show "?s \<notin> set (tl (region_list layout))" "\<not> starts_from_iv layout (first ?s)"
    by (fastforce simp: disjoint_regions_def starts_in_regions)+
qed

text \<open>The messages a caller may place: each in its own region, none in the signed message's.\<close>

definition messages_ok :: "Layout \<Rightarrow> (Region \<times> bytes) list \<Rightarrow> bool" where
  "messages_ok layout messages \<longleftrightarrow>
     distinct (map fst messages) \<and> set (map fst messages) \<subseteq> set (tl (region_list layout))"

lemma with_messages_Inr:
  assumes "with_messages c layout m skipped messages = Inr t"
  shows "\<exists>bs. place ((signed_region layout, drop (min (64 * skipped) (length (pad m))) (pad m))
        # map (\<lambda>(region, message). (region, pad message)) messages)
        (replicate POSITIONS (replicate 64 0)) = Inr bs \<and>
      t = from_blocks_in c layout bs (words_to_bytes (compress c IV (take (min (64 * skipped) (length (pad m))) (pad m))))"
  using assms unfolding with_messages_def Let_def rbind_eq_Inr by (fastforce simp del: place.simps)

lemma take_nth_chunks:
  assumes "length (chunks 64 p) \<le> length xs - a" "\<And>k. k < length (chunks 64 p) \<Longrightarrow> xs ! (a + k) = chunks 64 p ! k"
  shows "take (length (chunks 64 p)) (drop a xs) = chunks 64 p"
  using assms by (intro nth_equalityI) simp_all

text \<open>A message of the table: its padded blocks sit in its region, and the state after the last is its digest.\<close>

definition holds_message :: "Table \<Rightarrow> nat \<Rightarrow> nat \<Rightarrow> bytes \<Rightarrow> bytes \<Rightarrow> bool" where
  "holds_message t b n padded dig \<longleftrightarrow>
     concat (take (Suc n) (drop b (tblocks t))) = padded \<and> tstates t ! (b + n) = dig"

context sha2
begin

lemma region_digest:
  assumes "layout_ok layout" "r \<in> set (region_list layout)" "list_all (\<lambda>b. length b = 64) bs"
    "length bs = POSITIONS" "length start = 32" "length p = 64 * Suc n" "length p \<le> 64 * blocks r"
    "\<And>k. k < length (chunks 64 p) \<Longrightarrow> bs ! (first r + k) = chunks 64 p ! k"
  shows "holds_message (from_blocks_in compress256 layout bs start) (first r) n p
    (words_to_bytes (compress compress256
      (if starts_from_iv layout (first r) then IV else bytes_to_words start) p))"
proof -
  have fits: "first r + blocks r \<le> POSITIONS" using assms(1,2) by (auto simp: layout_ok_def list_all_iff)
  have "length (chunks 64 p) = Suc n" using assms(6) by (simp add: length_chunks)
  moreover have "take (length (chunks 64 p)) (drop (first r) bs) = chunks 64 p"
    using assms(4,7,8) fits chunks_fit [OF assms(7)] by (intro take_nth_chunks) linarith+
  ultimately have p: "concat (take (Suc n) (drop (first r) bs)) = p" by (simp add: concat_chunks)
  have "n < blocks r" using assms(6,7) by simp
  from chain_run [OF assms(1-5) this] p show ?thesis
    by (simp add: holds_message_def from_blocks_in_def)
qed

lemma with_messages_holds:
  assumes "layout_ok layout" "messages_ok layout messages"
    "with_messages compress256 layout m skipped messages = Inr t"
  shows "(r, x) \<in> set messages \<Longrightarrow> holds_message t (first r) (last_block (length x)) (pad x) (digest x)"
    and "skipped \<le> last_block (length m) \<Longrightarrow> holds_message t (first (signed_region layout))
      (last_block (length m) - skipped) (drop (64 * skipped) (pad m)) (digest m)"
proof -
  define k where "k = min (64 * skipped) (length (pad m))"
  let ?s = "signed_region layout"
  let ?ms = "(?s, drop k (pad m)) # map (\<lambda>(region, message). (region, pad message)) messages"
  let ?start = "words_to_bytes (compress compress256 IV (take k (pad m)))"
  let ?bs0 = "replicate POSITIONS (replicate 64 (0 :: byte))"
  obtain bs where bs: "place ?ms ?bs0 = Inr bs" and t: "t = from_blocks_in compress256 layout bs ?start"
    using with_messages_Inr [OF assms(3), folded k_def] by blast
  have k64: "64 dvd k" by (simp add: k_def min_def length_pad)
  then obtain j where j: "k = 64 * j" by (elim dvdE)
  have "k \<le> length (pad m)" by (simp add: k_def)
  then have len_take: "length (take k (pad m)) = 64 * j" using j by simp
  have start: "length ?start = 32" using compress_length [OF len_take] by simp
  have fsts: "map fst ?ms = ?s # map fst messages" by (simp add: comp_def split_def)
  have sub: "set (map fst ?ms) \<subseteq> set (region_list layout)"
    using assms(2) unfolding fsts by (auto simp: messages_ok_def region_list_def)
  have pd: "pairwise_disjoint (map fst ?ms)"
  proof (rule distinct_regions_disjoint [OF assms(1) _ sub])
    show "distinct (map fst ?ms)"
      unfolding fsts using assms(2) signed_not_among_others(1) [OF assms(1)] by (auto simp: messages_ok_def)
  qed
  have fit: "\<forall>e \<in> set ?ms. first (fst e) + blocks (fst e) \<le> length ?bs0"
  proof
    fix e assume "e \<in> set ?ms"
    then have "fst e \<in> set (map fst ?ms)" unfolding set_map by (rule imageI)
    then have "fst e \<in> set (region_list layout)" by (rule subsetD [OF sub])
    then show "first (fst e) + blocks (fst e) \<le> length ?bs0"
      using assms(1) by (simp add: layout_ok_def list_all_iff)
  qed
  have "64 dvd length (drop k (pad m))" using k64 unfolding length_drop length_pad by (intro dvd_diff_nat) simp_all
  moreover have "64 dvd length (pad x)" for x by (simp add: length_pad)
  ultimately have mult: "\<forall>e \<in> set ?ms. 64 dvd length (snd e)" by auto
  have blocks64: "list_all (\<lambda>b. length b = 64) bs"
    by (rule place_block_length [OF bs mult fit]) (simp add: list_all_iff)
  have lbs: "length bs = POSITIONS" using place_length [OF bs] by simp
  note digest = region_digest [OF assms(1) _ blocks64 lbs start]
  have at: "bs ! (first r + i) = chunks 64 p ! i" if "(r, p) \<in> set ?ms" "i < length (chunks 64 p)" for r p i
    by (rule place_at [OF bs pd fit that])
  show "holds_message t (first r) (last_block (length x)) (pad x) (digest x)" if "(r, x) \<in> set messages"
  proof -
    have e: "(r, pad x) \<in> set ?ms"
      using imageI [OF that, of "\<lambda>(region, message). (region, pad message)"] by simp
    have "r \<in> set (tl (region_list layout))" using assms(2) that by (force simp: messages_ok_def)
    moreover from this have "r \<in> set (region_list layout)"
      by (rule list.set_sel(2) [rotated]) (simp add: region_list_def)
    ultimately have "starts_from_iv layout (first r)" "r \<in> set (region_list layout)"
      by (auto simp: starts_in_regions)
    then show ?thesis
      using digest [OF _ length_pad place_fits [OF bs e] at [OF e]] t by (simp add: digest_chain)
  qed
  show "holds_message t (first ?s) (last_block (length m) - skipped) (drop (64 * skipped) (pad m)) (digest m)"
    if le: "skipped \<le> last_block (length m)"
  proof -
    have k: "k = 64 * skipped" using le by (simp add: k_def length_pad)
    have e: "(?s, drop k (pad m)) \<in> set ?ms" by simp
    have "length (drop k (pad m)) = 64 * Suc (last_block (length m) - skipped)"
      using le k by (simp add: length_pad Suc_diff_le)
    then have "holds_message t (first ?s) (last_block (length m) - skipped) (drop k (pad m))
      (words_to_bytes (compress compress256 (bytes_to_words ?start) (drop k (pad m))))"
      using digest [OF _ _ place_fits [OF bs e] at [OF e]] t signed_not_among_others(2) [OF assms(1)]
      by (simp add: region_list_def)
    moreover have "bytes_to_words ?start = compress compress256 IV (take k (pad m))"
      using compress_length [OF len_take] by (simp add: bytes_to_words_to_bytes)
    moreover have "digest m = words_to_bytes (compress compress256 (compress compress256 IV (take k (pad m))) (drop k (pad m)))"
      using digest_skip [of skipped m] k le by (simp add: length_pad)
    ultimately show ?thesis using k by simp
  qed
qed

end

section \<open>Properties\<close>

text \<open>
  C18. The table's states are digests. When \<open>with_messages\<close> succeeds for messages in different regions
  of the full layout, each message's padded blocks sit in its region, and the state after its last
  block is its SHA-256 digest. The same holds of the signed message, of which the table holds the
  blocks after the skipped ones: its chain starts from the start state and still ends at the digest
  of the whole message.
\<close>

theorem table_holds_digests:
  assumes "sha2 compress256 digest" "messages_ok FULL_MDOC messages"
    and "with_messages compress256 FULL_MDOC m skipped messages = Inr t" "skipped \<le> last_block (length m)"
  shows "(\<forall>(r, x) \<in> set messages. holds_message t (first r) (last_block (length x)) (pad x) (digest x)) \<and>
    holds_message t (first (signed_region FULL_MDOC)) (last_block (length m) - skipped)
      (drop (64 * skipped) (pad m)) (digest m)"
proof -
  note holds = sha2.with_messages_holds [OF assms(1) layout_ok_FULL_MDOC assms(2,3)]
  show ?thesis using holds(1) holds(2) [OF assms(4)] by blast
qed

lemma place_small:
  "length p \<le> 64 * blocks r \<Longrightarrow> length q \<le> 64 * blocks s \<Longrightarrow> \<exists>bs'. place [(r, p), (s, q)] bs = Inr bs'"
  by simp

lemma with_messages_small:
  "\<exists>t. with_messages c FULL_MDOC [7] 0 [(attribute_region FULL_MDOC, [1, 2])] = Inr t"
proof -
  have "length (drop 0 (pad [7])) \<le> 64 * blocks (signed_region FULL_MDOC)"
    "length (pad [1, 2]) \<le> 64 * blocks (attribute_region FULL_MDOC)"
    by (simp_all add: length_pad last_block_def FULL_MDOC_def)
  from place_small [OF this] show ?thesis
    unfolding with_messages_def Let_def rbind_eq_Inr by (simp del: place.simps)
qed

theorem table_holds_digests_witness:
  "\<exists>t. with_messages native_compress256 FULL_MDOC [7] 0 [(attribute_region FULL_MDOC, [1, 2])] = Inr t \<and>
    (\<forall>(r, x) \<in> set [(attribute_region FULL_MDOC, [1, 2])].
       holds_message t (first r) (last_block (length x)) (pad x) (native_digest x)) \<and>
    holds_message t (first (signed_region FULL_MDOC)) (last_block (length [7 :: byte]) - 0)
      (drop (64 * 0) (pad [7])) (native_digest [7])"
proof -
  obtain t where t: "with_messages native_compress256 FULL_MDOC [7] 0 [(attribute_region FULL_MDOC, [1, 2])] = Inr t"
    using with_messages_small by blast
  have "messages_ok FULL_MDOC [(attribute_region FULL_MDOC, [1, 2])]"
    by (simp add: messages_ok_def region_list_def)
  from table_holds_digests [OF native.sha2_axioms this t] t show ?thesis by (simp del: place.simps)
qed

end
