(* ===== verification/Window.thy ===== *)
theory Window
  imports Select Table
begin

text \<open>
  Reading the bytes of a message at a private offset (\<open>gadgets/window.rs\<close>). Under an assignment
  \<open>w\<close> the cells of the shared segment determine a byte at every place of the table
  (\<open>table_byte\<close>). The rules of \<open>Message::open\<close> fix the message's last block, and the rules of
  \<open>Message::read\<close> force the returned bytes to be the table's bytes at an offset whose window ends
  within the last block, whatever the prover supplied.
\<close>

section \<open>The gadgets\<close>

datatype find_error = NotFound string

definition find_bytes :: "bytes \<Rightarrow> bytes \<Rightarrow> string \<Rightarrow> find_error + nat" where
  "find_bytes bs pattern what = ok_or (NotFound what) (find_at 0 bs pattern)"

record 'f Message =
  msg_cells :: "'f Cells"
  msg_region :: Region
  msg_last :: "'f OneHot"

record 'f Window =
  win_bytes :: "'f Lc list"
  win_offset :: "'f Lc"

definition message_open ::
  "'f::field bellpepper \<Rightarrow> 'f Cells \<Rightarrow> Region \<Rightarrow> nat option \<Rightarrow> ('f Message \<times> 'f Lc \<times> 'f Lc, 'f) synth" where
  "message_open L cells region last_index =
     sbind (ns ''last block'' (one_hot_alloc L (blocks region) last_index)) (\<lambda>hot.
     sbind (smap (\<lambda>h. ns (''digest half '' @ show_nat h)
         (hot_select hot (map (\<lambda>j. cells_state cells (first region + j) h) [0..<blocks region]))) [0..<2]) (\<lambda>digest.
     sret (\<lparr>msg_cells = cells, msg_region = region, msg_last = hot\<rparr>, digest ! 0, digest ! 1)))"

definition window_chunks :: "nat \<Rightarrow> nat" where
  "window_chunks len = (len + CHUNK_BYTES - 1 + CHUNK_BYTES - 1) div CHUNK_BYTES"

definition window_offset :: "'f::field OneHot \<Rightarrow> 'f OneHot \<Rightarrow> 'f Boolean list \<Rightarrow> 'f Lc" where
  "window_offset block chunk shift =
     lc_add (lc_add (lc_scale (hot_index block) 64) (lc_scale (hot_index chunk) (of_nat CHUNK_BYTES))) (pack shift)"

definition window_room :: "'f::field Message \<Rightarrow> 'f Lc \<Rightarrow> nat \<Rightarrow> 'f Lc" where
  "window_room msg offset len =
     lc_sub (lc_sub (lc_scale (lc_add (hot_index (msg_last msg)) (lc_constant 1)) 64) offset) (lc_small len)"

definition read_reached :: "'f::field Message \<Rightarrow> 'f OneHot \<Rightarrow> nat \<Rightarrow> ('f Lc list, 'f) synth" where
  "read_reached msg block count =
     smap (\<lambda>r. ns (''reached '' @ show_nat r) (hot_select block
       (map (\<lambda>b. cells_chunk (msg_cells msg) (CHUNKS_PER_BLOCK * (first (msg_region msg) + b) + r))
         [0..<blocks (msg_region msg)]))) [0..<count]"

definition read_chunks ::
  "'f::field bellpepper \<Rightarrow> ('f \<Rightarrow> nat) \<Rightarrow> 'f OneHot \<Rightarrow> 'f Lc list \<Rightarrow> nat \<Rightarrow> ('f Lc list, 'f) synth" where
  "read_chunks L repr chunk reached n =
     sbind (smap (\<lambda>k.
         sbind (ns (''chunk '' @ show_nat k) (hot_select chunk (take CHUNKS_PER_BLOCK (drop k reached)))) (\<lambda>value.
         sbind (ns (''chunk '' @ show_nat k @ '' bits'') (bits L repr value (8 * CHUNK_BYTES))) (\<lambda>chunk_bits.
         sret (bytes_of_bits chunk_bits)))) [0..<n]) (\<lambda>parts. sret (concat parts))"

definition shift_stage ::
  "nat \<Rightarrow> nat \<times> 'f::field Boolean \<times> nat \<Rightarrow> 'f Lc list \<Rightarrow> ('f Lc list, 'f) synth" where
  "shift_stage len = (\<lambda>(stage, bit, step) window.
     smap (\<lambda>t. ns (''shift '' @ show_nat stage @ '' byte '' @ show_nat t)
       (mux (lc_bit bit) (window ! t) (window ! (t + step)))) [0..<len + step - 1])"

text \<open>The witness generator's branch: the values computed natively, in the order of the rules.\<close>

definition reached_value :: "'f::field Message \<Rightarrow> nat \<Rightarrow> nat \<Rightarrow> synth_error + 'f" where
  "reached_value msg b r =
     ok_or AssignmentMissing
       (val (cells_chunk (msg_cells msg) (CHUNKS_PER_BLOCK * (first (msg_region msg) + b) + r)))"

fun reached_values :: "'f::field Message \<Rightarrow> nat \<Rightarrow> nat list \<Rightarrow> 'f list \<times> 'f list \<Rightarrow> synth_error + 'f list \<times> 'f list" where
  "reached_values msg block [] (vs, reached) = Inr (vs, reached)"
| "reached_values msg block (r # rs) (vs, reached) =
     rbind (reached_value msg 0 r) (\<lambda>first.
     rbind (if block < blocks (msg_region msg) then reached_value msg block r else Inr first) (\<lambda>chosen.
       let (vs, v) = select_values vs (blocks (msg_region msg)) block (\<lambda>b. if b = 0 then first else chosen)
       in reached_values msg block rs (vs, reached @ [v])))"

definition chunk_values :: "('f::field \<Rightarrow> nat) \<Rightarrow> nat \<Rightarrow> 'f list \<Rightarrow> nat list \<Rightarrow> 'f list \<times> 'f list \<Rightarrow> 'f list \<times> 'f list" where
  "chunk_values repr chunk reached ks st =
     fold (\<lambda>k (vs, window).
       let (vs, value) = select_values vs CHUNKS_PER_BLOCK chunk (\<lambda>j. reached ! (k + j));
           vs = field_bits repr vs value (8 * CHUNK_BYTES)
       in (vs, window @ map (\<lambda>b. of_nat (unat b)) (low_bytes repr value))) ks st"

definition shift_values :: "nat \<Rightarrow> nat \<Rightarrow> 'f::field list \<times> 'f list \<Rightarrow> 'f list \<times> 'f list" where
  "shift_values len at_offset st =
     fold (\<lambda>(stage, bit, step) (vs, window).
       let window = map (\<lambda>t. window ! (if bit then t + step else t)) [0..<len + step - 1]
       in (if stage < 3 then vs @ window else vs, window))
     (zip [0..<4] (zip (small_bits (at_offset mod CHUNK_BYTES) 4) [8, 4, 2, 1])) st"

definition read_values ::
  "('f::field \<Rightarrow> nat) \<Rightarrow> 'f Message \<Rightarrow> nat \<Rightarrow> nat \<Rightarrow> nat \<Rightarrow> ('f Lc list, 'f) synth" where
  "read_values repr msg at_offset len n =
     sbind (of_result (reached_values msg (at_offset div 64) [0..<n + CHUNKS_PER_BLOCK - 1] ([], []))) (\<lambda>(vs, reached).
       let (vs, window) = chunk_values repr (at_offset mod 64 div CHUNK_BYTES) reached [0..<n] (vs, []);
           (vs, window) = shift_values len at_offset (vs, window)
       in sbind (extend_aux vs) (\<lambda>_. smap (\<lambda>byte. lc_alloc (Some byte)) window))"

definition message_read ::
  "'f::field bellpepper \<Rightarrow> ('f \<Rightarrow> nat) \<Rightarrow> 'f Message \<Rightarrow> nat option \<Rightarrow> nat \<Rightarrow> ('f Window, 'f) synth" where
  "message_read L repr msg at_offset len =
    (let n = window_chunks len in
     sbind (ns ''block'' (one_hot_alloc L (blocks (msg_region msg)) (map_option (\<lambda>a. a div 64) at_offset))) (\<lambda>block.
     sbind (ns ''chunk'' (one_hot_alloc L CHUNKS_PER_BLOCK (map_option (\<lambda>a. a mod 64 div CHUNK_BYTES) at_offset))) (\<lambda>chunk.
     sbind (ns ''shift'' (alloc_bits L (map_option (\<lambda>a. small_bits (a mod CHUNK_BYTES) 4) at_offset) 4)) (\<lambda>shift.
     let offset = window_offset block chunk shift in
     sbind (ns ''inside the signed blocks'' (range_check L repr (window_room msg offset len) OFFSET_BITS)) (\<lambda>_.
     sbind is_witness_generator (\<lambda>witness.
     if witness then
       sbind (of_result (ok_or AssignmentMissing at_offset)) (\<lambda>a.
       sbind (read_values repr msg a len n) (\<lambda>bs. sret \<lparr>win_bytes = bs, win_offset = offset\<rparr>))
     else
       sbind (read_reached msg block (n + CHUNKS_PER_BLOCK - 1)) (\<lambda>reached.
       sbind (read_chunks L repr chunk reached n) (\<lambda>window.
       sbind (sfold (shift_stage len) (zip [0..<4] (zip shift [8, 4, 2, 1])) window) (\<lambda>bs.
       sret \<lparr>win_bytes = bs, win_offset = offset\<rparr>)))))))))"

section \<open>The table's bytes under an assignment\<close>

definition cell_bytes :: "('f::field \<Rightarrow> nat) \<Rightarrow> (var \<Rightarrow> 'f) \<Rightarrow> 'f Cells \<Rightarrow> nat \<Rightarrow> bytes" where
  "cell_bytes repr w cells c = be_bytes 16 (repr (lcv w (cells_chunk cells c)))"

definition table_byte :: "('f::field \<Rightarrow> nat) \<Rightarrow> (var \<Rightarrow> 'f) \<Rightarrow> 'f Cells \<Rightarrow> nat \<Rightarrow> byte" where
  "table_byte repr w cells i = cell_bytes repr w cells (i div 16) ! (i mod 16)"

definition table_bytes :: "('f::field \<Rightarrow> nat) \<Rightarrow> (var \<Rightarrow> 'f) \<Rightarrow> 'f Cells \<Rightarrow> nat \<Rightarrow> nat \<Rightarrow> bytes" where
  "table_bytes repr w cells i n = map (table_byte repr w cells) [i..<i + n]"

lemma length_table_bytes [simp]: "length (table_bytes repr w cells i n) = n"
  by (simp add: table_bytes_def)

lemma take_drop_table_bytes:
  "d + k \<le> n \<Longrightarrow> take k (drop d (table_bytes repr w cells i n)) = table_bytes repr w cells (i + d) k"
  by (rule nth_equalityI) (simp_all add: table_bytes_def add.assoc)

lemma table_bytes_append:
  "table_bytes repr w cells i m @ table_bytes repr w cells (i + m) n = table_bytes repr w cells i (m + n)"
proof (rule nth_equalityI)
  fix j assume "j < length (table_bytes repr w cells i m @ table_bytes repr w cells (i + m) n)"
  then show "(table_bytes repr w cells i m @ table_bytes repr w cells (i + m) n) ! j = table_bytes repr w cells i (m + n) ! j"
    by (simp add: table_bytes_def nth_append)
qed simp

lemma cell_bytes_table: "cell_bytes repr w cells c = table_bytes repr w cells (16 * c) 16"
proof (rule nth_equalityI)
  show "length (cell_bytes repr w cells c) = length (table_bytes repr w cells (16 * c) 16)"
    by (simp add: cell_bytes_def)
  fix i assume "i < length (cell_bytes repr w cells c)"
  then have "i < 16" by (simp add: cell_bytes_def)
  then show "cell_bytes repr w cells c ! i = table_bytes repr w cells (16 * c) 16 ! i"
    by (simp add: table_bytes_def table_byte_def)
qed

lemma concat_cell_bytes:
  "concat (map (\<lambda>k. cell_bytes repr w cells (q + k)) [0..<n]) = table_bytes repr w cells (16 * q) (16 * n)"
proof (induction n)
  case (Suc n)
  have "16 * (q + n) = 16 * q + 16 * n" by simp
  then show ?case
    using Suc table_bytes_append [of repr w cells "16 * q" "16 * n" 16]
    by (simp add: cell_bytes_table add.commute)
qed (simp add: table_bytes_def)

section \<open>What the rules force\<close>

lemma sound_message_open:
  assumes "scalar_repr (repr :: 'f::field \<Rightarrow> nat)" "bellpepper_sound L" "assignment (w :: var \<Rightarrow> 'f)"
    "blocks region \<le> POSITIONS"
  shows "sound w (message_open L cells region last_index) (\<lambda>(msg, high, low).
    msg_cells msg = cells \<and> msg_region msg = region \<and> length (hot_bits (msg_last msg)) = blocks region \<and>
    (\<exists>l < blocks region. hot_at w (msg_last msg) l \<and>
       lcv w high = lcv w (cells_state cells (first region + l) 0) \<and>
       lcv w low = lcv w (cells_state cells (first region + l) 1)))"
proof -
  have "blocks region < modulus" using assms(4) modulus_bounds(1) by (simp add: POSITIONS_def)
  note alloc = sound_ns [OF sound_one_hot_alloc [OF assms(1-3) this]]
  show ?thesis
    unfolding message_open_def
  proof (rule sound_sbind [OF alloc], elim conjE exE)
    fix hot l assume hot: "length (hot_bits hot) = blocks region" "hot_at w hot l" "l < blocks region"
    show "sound w (sbind (smap (\<lambda>h. ns (''digest half '' @ show_nat h)
         (hot_select hot (map (\<lambda>j. cells_state cells (first region + j) h) [0..<blocks region]))) [0..<2]) (\<lambda>digest.
       sret (\<lparr>msg_cells = cells, msg_region = region, msg_last = hot\<rparr>, digest ! 0, digest ! 1)))
      (\<lambda>(msg, high, low). msg_cells msg = cells \<and> msg_region msg = region \<and> length (hot_bits (msg_last msg)) = blocks region \<and>
        (\<exists>l < blocks region. hot_at w (msg_last msg) l \<and>
           lcv w high = lcv w (cells_state cells (first region + l) 0) \<and>
           lcv w low = lcv w (cells_state cells (first region + l) 1)))"
    proof (rule sound_sbind [OF sound_smap [where R = "\<lambda>h r. lcv w r = lcv w (cells_state cells (first region + l) h)"]])
      fix h show "sound w (ns (''digest half '' @ show_nat h)
         (hot_select hot (map (\<lambda>j. cells_state cells (first region + j) h) [0..<blocks region])))
         (\<lambda>r. lcv w r = lcv w (cells_state cells (first region + l) h))"
        by (rule sound_ns, rule sound_mono [OF sound_hot_select [OF hot(2)]]) (simp add: hot(3))
    next
      fix digest assume "list_all2 (\<lambda>h r. lcv w r = lcv w (cells_state cells (first region + l) h)) [0..<2] digest"
      then have "lcv w (digest ! 0) = lcv w (cells_state cells (first region + l) 0)"
        "lcv w (digest ! 1) = lcv w (cells_state cells (first region + l) 1)"
        by (auto simp: list_all2_conv_all_nth)
      then show "sound w (sret (\<lparr>msg_cells = cells, msg_region = region, msg_last = hot\<rparr>, digest ! 0, digest ! 1))
        (\<lambda>(msg, high, low). msg_cells msg = cells \<and> msg_region msg = region \<and> length (hot_bits (msg_last msg)) = blocks region \<and>
          (\<exists>l < blocks region. hot_at w (msg_last msg) l \<and>
             lcv w high = lcv w (cells_state cells (first region + l) 0) \<and>
             lcv w low = lcv w (cells_state cells (first region + l) 1)))"
        using hot by (intro sound_sret) auto
    qed
  qed
qed

lemma sound_read_reached:
  assumes "hot_at w block b" "length (hot_bits block) = blocks (msg_region msg)"
  shows "sound w (read_reached msg block count) (\<lambda>reached. length reached = count \<and>
    (\<forall>r < count. lcv w (reached ! r) = lcv w (cells_chunk (msg_cells msg) (4 * (first (msg_region msg) + b) + r))))"
proof -
  have b: "b < blocks (msg_region msg)" using assms by (simp add: hot_at_def)
  have "sound w (read_reached msg block count) (list_all2 (\<lambda>r x.
      lcv w x = lcv w (cells_chunk (msg_cells msg) (4 * (first (msg_region msg) + b) + r))) [0..<count])"
    unfolding read_reached_def
    by (rule sound_smap, rule sound_ns, rule sound_mono [OF sound_hot_select [OF assms(1)]])
       (simp add: b CHUNKS_PER_BLOCK_def)
  then show ?thesis by (rule sound_mono) (auto simp: list_all2_conv_all_nth)
qed

lemma bits_bytes_of_nat:
  assumes "length bs = 128" "bin_val bs = v"
  shows "bits_bytes bs = be_bytes 16 v"
  using be_val_bits_bytes [of bs 16] assms be_bytes_be_val [of "bits_bytes bs" 16] by simp

lemma sound_read_chunks:
  assumes "scalar_repr (repr :: 'f::field \<Rightarrow> nat)" "bellpepper_sound L" "assignment (w :: var \<Rightarrow> 'f)"
    and "hot_at w chunk c" "length (hot_bits chunk) = 4" "length reached = n + 3"
    and "\<forall>r < n + 3. lcv w (reached ! r) = lcv w (cells_chunk cells (q + r))"
  shows "sound w (read_chunks L repr chunk reached n)
    (\<lambda>window. bytes_are w window (table_bytes repr w cells (16 * (q + c)) (16 * n)))"
proof -
  have c: "c < 4" using assms(4,5) by (simp add: hot_at_def)
  have part: "sound w (sbind (ns (''chunk '' @ show_nat k) (hot_select chunk (take CHUNKS_PER_BLOCK (drop k reached)))) (\<lambda>value.
      sbind (ns (''chunk '' @ show_nat k @ '' bits'') (bits L repr value (8 * CHUNK_BYTES))) (\<lambda>chunk_bits.
      sret (bytes_of_bits chunk_bits)))) (\<lambda>part. bytes_are w part (cell_bytes repr w cells (q + c + k)))"
    if k: "k < n" for k
  proof (rule sound_sbind [OF sound_ns [OF sound_hot_select [OF assms(4)]]],
      rule sound_sbind [OF sound_ns [OF sound_bits [OF assms(2,3)]]], rule sound_sret, elim conjE)
    fix v bs assume v: "lcv w v = lcv w (take CHUNKS_PER_BLOCK (drop k reached) ! c)"
      and bs: "length bs = 8 * CHUNK_BYTES" "list_all (is_bit w) bs" "lcv w v = of_nat (bin_val (bvals w bs))"
    have "lcv w v = lcv w (cells_chunk cells (q + c + k))"
      using v c k assms(6,7) by (simp add: CHUNKS_PER_BLOCK_def add.commute add.left_commute)
    moreover have "repr (of_nat (bin_val (bvals w bs))) = bin_val (bvals w bs)"
    proof (rule scalar_reprD(2) [OF assms(1)])
      have "bin_val (bvals w bs) < 2 ^ 128" using bin_val_less [of "bvals w bs"] bs(1) by (simp add: CHUNK_BYTES_def)
      then show "bin_val (bvals w bs) < modulus" by (simp add: modulus_def)
    qed
    ultimately have "bits_bytes (bvals w bs) = cell_bytes repr w cells (q + c + k)"
      using bs(1,3) bits_bytes_of_nat [of "bvals w bs"] by (simp add: cell_bytes_def CHUNK_BYTES_def)
    then show "bytes_are w (bytes_of_bits bs) (cell_bytes repr w cells (q + c + k))"
      using bytes_of_bits_are [OF bs(2), of 16] bs(1) by (simp add: CHUNK_BYTES_def)
  qed
  show ?thesis
    unfolding read_chunks_def
  proof (rule sound_sbind [OF sound_smap [where R = "\<lambda>k part. bytes_are w part (cell_bytes repr w cells (q + c + k))"]])
    fix parts assume all: "list_all2 (\<lambda>k part. bytes_are w part (cell_bytes repr w cells (q + c + k))) [0..<n] parts"
    have "bytes_are w (concat ps) (concat (map (\<lambda>k. cell_bytes repr w cells (q + c + k)) ks))"
      if "list_all2 (\<lambda>k part. bytes_are w part (cell_bytes repr w cells (q + c + k))) ks ps" for ks ps
      using that by (induction rule: list_all2_induct) (simp_all add: bytes_are_append, simp add: bytes_are_def)
    from this [OF all] show "sound w (sret (concat parts))
        (\<lambda>window. bytes_are w window (table_bytes repr w cells (16 * (q + c)) (16 * n)))"
      using concat_cell_bytes [of repr w cells "q + c" n] by (intro sound_sret) simp
  qed (use part in simp)
qed

lemma sound_shift_stage:
  assumes "bytes_are w window bs" "is_bit w b" "len + 2 * step - 1 \<le> length bs" "0 < step"
  shows "sound w (shift_stage len (stage, b, step) window)
    (\<lambda>out. bytes_are w out (take (len + step - 1) (drop (if bval w b then step else 0) bs)))"
proof -
  have "sound w (shift_stage len (stage, b, step) window) (list_all2 (\<lambda>t x.
      lcv w x = of_nat (unat (drop (if bval w b then step else 0) bs ! t))) [0..<len + step - 1])"
    unfolding shift_stage_def prod.case
  proof (rule sound_smap, rule sound_ns)
    fix t assume "t \<in> set [0..<len + step - 1]"
    then have t: "t + step < length bs" using assms(3,4) by simp
    have bit: "lcv w (lc_bit b) = 0 \<or> lcv w (lc_bit b) = 1" using assms(2) by (simp add: is_bit_def)
    show "sound w (mux (lc_bit b) (window ! t) (window ! (t + step)))
        (\<lambda>x. lcv w x = of_nat (unat (drop (if bval w b then step else 0) bs ! t)))"
      by (rule sound_mono [OF sound_mux [OF bit]])
         (use t bytes_are_nth [OF assms(1)] in \<open>auto simp: bval_def add.commute\<close>)
  qed
  then show ?thesis
    by (rule sound_mono) (use assms(3,4) in \<open>auto simp: bytes_are_def list_all2_conv_all_nth\<close>)
qed

lemma sound_shift_table:
  assumes "bytes_are w window (table_bytes repr w cells i N)" "is_bit w b" "len + 2 * step - 1 \<le> N" "0 < step"
  shows "sound w (shift_stage len (stage, b, step) window)
    (\<lambda>out. bytes_are w out (table_bytes repr w cells (i + step * of_bool (bval w b)) (len + step - 1)))"
proof -
  have N: "len + 2 * step - 1 \<le> length (table_bytes repr w cells i N)" using assms(3) by simp
  have "take (len + step - 1) (drop (if bval w b then step else 0) (table_bytes repr w cells i N))
      = table_bytes repr w cells (i + (if bval w b then step else 0)) (len + step - 1)"
    by (rule take_drop_table_bytes) (use assms(3,4) in auto)
  then show ?thesis using sound_shift_stage [OF assms(1,2) N assms(4), of stage] by (auto split: if_splits)
qed

lemma sound_shift:
  assumes window: "bytes_are w window (table_bytes repr w cells i N)" and N: "len + 15 \<le> N"
    and shift: "length shift = 4" "list_all (is_bit w) shift"
  shows "sound w (sfold (shift_stage len) (zip [0..<4] (zip shift [8, 4, 2, 1])) window)
    (\<lambda>out. bytes_are w out (table_bytes repr w cells (i + bin_val (bvals w shift)) len))"
proof -
  obtain b0 b1 b2 b3 where bs: "shift = [b0, b1, b2, b3]"
    using shift(1) by (auto simp: eval_nat_numeral length_Suc_conv)
  then have bits: "is_bit w b0" "is_bit w b1" "is_bit w b2" "is_bit w b3" using shift(2) by auto
  have four: "[0..<4] = [0, 1, 2, 3 :: nat]" by (simp add: upt_rec)
  have weights: "i + bin_val (bvals w shift) = i + 8 * of_bool (bval w b0) + 4 * of_bool (bval w b1)
      + 2 * of_bool (bval w b2) + 1 * of_bool (bval w b3)"
    by (simp add: bs bin_val_def)
  show ?thesis
    unfolding weights unfolding bs four zip_Cons_Cons zip_Nil sfold.simps
  proof (rule sound_sbind [OF sound_shift_table [OF window bits(1)]])
    show "len + 2 * 8 - 1 \<le> N" using N by simp
    fix s assume s: "bytes_are w s (table_bytes repr w cells (i + 8 * of_bool (bval w b0)) (len + 8 - 1))"
    show "sound w (sbind (shift_stage len (1, b1, 4) s) (\<lambda>s. sbind (shift_stage len (2, b2, 2) s)
        (\<lambda>s. sbind (shift_stage len (3, b3, 1) s) sret)))
        (\<lambda>out. bytes_are w out (table_bytes repr w cells (i + 8 * of_bool (bval w b0) + 4 * of_bool (bval w b1)
          + 2 * of_bool (bval w b2) + 1 * of_bool (bval w b3)) len))"
      by (rule sound_sbind [OF sound_shift_table [OF s bits(2)]], simp, simp,
          rule sound_sbind [OF sound_shift_table [OF _ bits(3)]], assumption, simp, simp,
          rule sound_sbind [OF sound_shift_table [OF _ bits(4)]], assumption, simp, simp, rule sound_sret) simp
  qed simp
qed

lemma read_offset:
  assumes "scalar_repr (repr :: 'f::field \<Rightarrow> nat)" "assignment w" "blocks (msg_region msg) \<le> POSITIONS" "len \<le> 2 ^ 64"
    and last: "hot_at w (msg_last msg) l" "length (hot_bits (msg_last msg)) = blocks (msg_region msg)"
    and block: "hot_at w block b" "length (hot_bits block) = blocks (msg_region msg)"
    and chunk: "hot_at w chunk c" "length (hot_bits chunk) = CHUNKS_PER_BLOCK"
    and shift: "length shift = 4" "list_all (is_bit w) shift"
    and room: "lcv w (window_room msg (window_offset block chunk shift) len) = (of_nat v :: 'f)" "v < 2 ^ OFFSET_BITS"
  defines "off \<equiv> 64 * b + 16 * c + bin_val (bvals w shift)"
  shows "lcv w (window_offset block chunk shift) = of_nat off" "off + len \<le> 64 * (l + 1)"
proof -
  have bounds: "l < 32" "b < 32" "c < 4" "bin_val (bvals w shift) < 16"
    using assms(3) last block chunk bin_val_less [of "bvals w shift"] shift(1) by (auto simp: hot_at_def table_consts)
  show off: "lcv w (window_offset block chunk shift) = of_nat off"
    using lcv_hot_index [OF block(1)] lcv_hot_index [OF chunk(1)] lcv_pack [OF shift(2)]
    by (simp add: window_offset_def off_def CHUNK_BYTES_def mult.commute)
  have "of_nat (64 * (l + 1)) = (of_nat (off + len + v) :: 'f)"
    using room(1) lcv_hot_index [OF last(1)] off assms(2) by (simp add: window_room_def algebra_simps)
  then have "64 * (l + 1) = off + len + v"
  proof (rule scalar_of_nat_inj [OF assms(1), rotated 2])
    show "64 * (l + 1) < modulus" using bounds modulus_bounds(1) by simp
    show "off + len + v < modulus"
      using bounds room(2) assms(4) modulus_bounds(1) by (simp add: off_def OFFSET_BITS_def)
  qed
  then show "off + len \<le> 64 * (l + 1)" by simp
qed

definition window_in :: "('f::field \<Rightarrow> nat) \<Rightarrow> (var \<Rightarrow> 'f) \<Rightarrow> 'f Message \<Rightarrow> nat \<Rightarrow> nat \<Rightarrow> 'f Window \<Rightarrow> nat \<Rightarrow> bool" where
  "window_in repr w msg l len win off \<longleftrightarrow>
     lcv w (win_offset win) = of_nat off \<and> off + len \<le> 64 * (l + 1) \<and>
     bytes_are w (win_bytes win) (table_bytes repr w (msg_cells msg) (64 * first (msg_region msg) + off) len)"

lemma sound_message_read:
  assumes "scalar_repr (repr :: 'f::field \<Rightarrow> nat)" "bellpepper_sound L" "assignment (w :: var \<Rightarrow> 'f)"
    and region: "blocks (msg_region msg) \<le> POSITIONS" and len: "len \<le> 2 ^ 64"
    and last: "hot_at w (msg_last msg) l" "length (hot_bits (msg_last msg)) = blocks (msg_region msg)"
  shows "sound w (message_read L repr msg at_offset len) (\<lambda>win. \<exists>off. window_in repr w msg l len win off)"
proof -
  have small: "blocks (msg_region msg) < modulus" "CHUNKS_PER_BLOCK < modulus"
    using region modulus_bounds(1) by (simp_all add: table_consts)
  let ?n = "window_chunks len"
  have n: "len + 15 \<le> 16 * ?n" by (simp add: window_chunks_def CHUNK_BYTES_def)
  show ?thesis
    unfolding message_read_def Let_def
  proof (rule sound_sbind [OF sound_ns [OF sound_one_hot_alloc [OF assms(1-3) small(1)]]],
      rule sound_sbind [OF sound_ns [OF sound_one_hot_alloc [OF assms(1-3) small(2)]]],
      rule sound_sbind [OF sound_ns [OF sound_alloc_bits [OF assms(2,3)]]],
      rule sound_sbind [OF sound_ns [OF sound_range_check [OF assms(2,3)]]],
      rule sound_unless_witness, elim conjE exE, unfold if_False)
    fix block chunk shift b c v
    assume block: "hot_at w block b" "length (hot_bits block) = blocks (msg_region msg)"
      and chunk: "hot_at w chunk c" "length (hot_bits chunk) = CHUNKS_PER_BLOCK"
      and shift: "length shift = 4" "list_all (is_bit w) shift"
      and room: "lcv w (window_room msg (window_offset block chunk shift) len) = of_nat v" "v < 2 ^ OFFSET_BITS"
    note offset = read_offset [OF assms(1,3) region len last block chunk shift room]
    have chunk4: "length (hot_bits chunk) = 4" using chunk(2) by (simp add: CHUNKS_PER_BLOCK_def)
    show "sound w (sbind (read_reached msg block (?n + CHUNKS_PER_BLOCK - 1)) (\<lambda>reached.
        sbind (read_chunks L repr chunk reached ?n) (\<lambda>window.
        sbind (sfold (shift_stage len) (zip [0..<4] (zip shift [8, 4, 2, 1])) window) (\<lambda>bs.
        sret \<lparr>win_bytes = bs, win_offset = window_offset block chunk shift\<rparr>))))
        (\<lambda>win. \<exists>off. window_in repr w msg l len win off)"
    proof (rule sound_sbind [OF sound_read_reached [OF block]],
        rule sound_sbind [OF sound_read_chunks [OF assms(1-3) chunk(1) chunk4,
          where cells = "msg_cells msg" and q = "4 * (first (msg_region msg) + b)"]])
      fix window bs
      assume "bytes_are w window (table_bytes repr w (msg_cells msg) (16 * (4 * (first (msg_region msg) + b) + c)) (16 * ?n))"
      note window = sound_shift [OF this n shift]
      show "sound w (sbind (sfold (shift_stage len) (zip [0..<4] (zip shift [8, 4, 2, 1])) window) (\<lambda>bs.
          sret \<lparr>win_bytes = bs, win_offset = window_offset block chunk shift\<rparr>))
          (\<lambda>win. \<exists>off. window_in repr w msg l len win off)"
        by (rule sound_sbind [OF window], rule sound_sret,
            rule exI [where x = "64 * b + 16 * c + bin_val (bvals w shift)"])
           (use offset in \<open>simp add: window_in_def algebra_simps\<close>)
    qed (simp_all add: CHUNKS_PER_BLOCK_def)
  qed
qed

end
