(* ===== verification/Pseudonym.thy ===== *)
theory Pseudonym
  imports Window
begin

text \<open>
  The pseudonym of the full statement (\<open>pseudonym.rs\<close>): its message, the verifier's public values, and
  the rules. \<open>seed_and_nym\<close> reads the seed's and the pseudonym's blocks at fixed positions of the
  table, \<open>nym_check\<close> compares them with the public values. Together they force the pseudonym's blocks
  to be the padded message of the committed seed and the verifier's input.
\<close>

section \<open>The message and the public values\<close>

definition FUNCTION :: string where "FUNCTION = ''pseudonym-v1-sha256''"
definition CONFIG :: string where "CONFIG = ''known-offender-matching-ssc''"
definition DST :: bytes where "DST = ascii ''nym_auth/v1/known-offender-matching-ssc''"
definition PROVER_INPUT :: bytes where "PROVER_INPUT = replicate 32 0"
definition SEED_BYTES :: nat where "SEED_BYTES = 16"
definition SSC_BYTES :: nat where "SSC_BYTES = 32"
definition MDOC_IDENTIFIER :: bytes where "MDOC_IDENTIFIER = 0x71 # ascii ''elementIdentifier'' @ 0x63 # ascii ''ssc''"
definition MDOC_VALUE :: bytes where "MDOC_VALUE = 0x6c # ascii ''elementValue'' @ [0x58, 0x20]"
definition VALUES :: nat where "VALUES = 5"

definition nym_message :: "bytes \<Rightarrow> bytes \<Rightarrow> bytes" where
  "nym_message secret vi = concat [DST, secret, PROVER_INPUT, vi]"

definition pseudonym :: "(bytes \<Rightarrow> bytes) \<Rightarrow> bytes \<Rightarrow> bytes \<Rightarrow> bytes" where
  "pseudonym sha secret vi = sha (nym_message secret vi)"

record NymMessages =
  nm_ssc :: bytes
  nm_secret_seed :: bytes
  nm_verifier_input :: bytes

definition table_messages :: "NymMessages \<Rightarrow> PseudonymRegions \<Rightarrow> (Region \<times> bytes) list" where
  "table_messages n regions =
     [(ssc regions, nm_ssc n), (seed regions, nm_secret_seed n),
      (nym regions, nym_message (nm_secret_seed n) (nm_verifier_input n))]"

record NymPublic =
  np_verifier_input :: bytes
  np_pseudonym :: bytes

definition verifier_values :: "bytes \<Rightarrow> 'f::field list" where
  "verifier_values vi = [from_be (take 9 vi), from_be (take 16 (drop 9 vi)), from_be (drop 25 vi)]"

definition nym_values :: "NymPublic \<Rightarrow> 'f::field list" where
  "nym_values n = verifier_values (np_verifier_input n)
     @ [from_be (take 16 (np_pseudonym n)), from_be (drop 16 (np_pseudonym n))]"

definition pseudonym_of :: "('f::field \<Rightarrow> nat) \<Rightarrow> 'f list \<Rightarrow> bytes option" where
  "pseudonym_of repr vs =
    (if length vs < 2 then None
     else let high = to_be repr (vs ! (length vs - 2)); low = to_be repr (vs ! (length vs - 1)) in
       if list_ex (\<lambda>b. b \<noteq> 0) (take 16 high @ take 16 low) then None
       else Some (drop 16 high @ drop 16 low))"

section \<open>The rules\<close>

definition two_72 :: "'f::field" where
  "two_72 = of_nat (2 ^ 36) * of_nat (2 ^ 36)"

definition chunk_constant :: "bytes \<Rightarrow> 'f::field Lc" where
  "chunk_constant bs = lc_constant (from_be bs)"

definition last_chunk_padding :: "'f::field" where
  "last_chunk_padding = from_be (0x80 # be_bytes 8 (8 * 119))"

definition seed_padding :: "bytes list" where
  "seed_padding = [0x80 # replicate 15 0, replicate 16 0, replicate 15 0 @ [0x80]]"

definition block_chunk :: "'f::field Cells \<Rightarrow> nat \<Rightarrow> nat \<Rightarrow> 'f Lc" where
  "block_chunk cells j c = cells_chunk cells (CHUNKS_PER_BLOCK * j + c)"

definition seed_low_bits :: "('f::field \<Rightarrow> nat) \<Rightarrow> 'f Lc \<Rightarrow> bool list option" where
  "seed_low_bits repr secret = map_option (\<lambda>v. small_bits (be_val (0 # drop 25 (to_be repr v))) 56) (val secret)"

definition seed_and_nym ::
  "'f::field bellpepper \<Rightarrow> ('f \<Rightarrow> nat) \<Rightarrow> 'f Cells \<Rightarrow> PseudonymRegions \<Rightarrow> (('f Lc \<times> 'f Lc) \<times> 'f Lc list, 'f) synth" where
  "seed_and_nym L repr cells regions =
    (let s = first (seed regions); secret = block_chunk cells s 0; n = first (nym regions) in
     sbind (smap (\<lambda>(c, bs). ns (''seed padding '' @ show_nat (c + 1)) (equal (block_chunk cells s (c + 1)) (chunk_constant bs)))
       (zip [0..<3] seed_padding)) (\<lambda>_.
     sbind (ns ''pseudonym dst 0'' (equal (block_chunk cells n 0) (chunk_constant (take 16 DST)))) (\<lambda>_.
     sbind (ns ''pseudonym dst 1'' (equal (block_chunk cells n 1) (chunk_constant (take 16 (drop 16 DST))))) (\<lambda>_.
     sbind (ns ''seed low bytes'' (alloc_bits L (seed_low_bits repr secret) 56)) (\<lambda>low_bits.
     let low = pack low_bits in
     sbind (ns ''pseudonym seed low'' (equal (block_chunk cells n 3) (lc_scale low two_72))) (\<lambda>_.
     let high = lc_scale (lc_sub secret low) (inverse (of_nat (2 ^ 56)));
         dst_end = lc_constant (from_be (drop 32 DST) * two_72) in
     sbind (ns ''pseudonym seed high'' (equal (block_chunk cells n 2) (lc_add dst_end high))) (\<lambda>_.
     sbind (ns ''pseudonym prover input'' (equal (block_chunk cells (n + 1) 0) lc_zero)) (\<lambda>_.
     sret ((cells_state cells s 0, cells_state cells s 1),
       [block_chunk cells (n + 1) 1, block_chunk cells (n + 1) 2, block_chunk cells (n + 1) 3,
        cells_state cells (n + 1) 0, cells_state cells (n + 1) 1])))))))))"

definition nym_names :: "string list" where
  "nym_names = [''verifier input high'', ''verifier input middle'', ''verifier input low'', ''pseudonym high'', ''pseudonym low'']"

definition nym_into_slots :: "'f::field bellpepper \<Rightarrow> 'f Lc list \<Rightarrow> ('f AllocatedNum list, 'f) synth" where
  "nym_into_slots L facts = smap (\<lambda>(name, fact). ns name (to_num L fact)) (zip nym_names facts)"

definition commitment_and_slots ::
  "'f::field bellpepper \<Rightarrow> ('f \<Rightarrow> nat) \<Rightarrow> 'f Cells \<Rightarrow> PseudonymRegions \<Rightarrow> 'f Lc \<times> 'f Lc \<Rightarrow> ('f AllocatedNum list, 'f) synth" where
  "commitment_and_slots L repr cells regions commitment =
     sbind (ns ''seed and pseudonym'' (seed_and_nym L repr cells regions)) (\<lambda>((digest_high, digest_low), facts).
     sbind (smap (\<lambda>(h, seed_half, ssc_half). ns (''seed digest half '' @ show_nat h @ '' is ssc'') (equal seed_half ssc_half))
       [(0, digest_high, fst commitment), (1, digest_low, snd commitment)]) (\<lambda>_.
     ns ''facts'' (nym_into_slots L facts)))"

definition nym_check :: "'f::field bellpepper \<Rightarrow> 'f AllocatedNum list \<Rightarrow> NymPublic option \<Rightarrow> (unit, 'f) synth" where
  "nym_check L facts n =
    (let vs = map_option nym_values n in
     sbind (smap (\<lambda>(i, name). ns (''public '' @ name)
         (alloc_input_num L (ok_or AssignmentMissing (map_option (\<lambda>v. v ! i) vs)))) (zip [0..<5] nym_names)) (\<lambda>nums.
     let public = map lc_num nums in
     sbind (if length facts = VALUES then sret () else sfail AssignmentMissing) (\<lambda>_.
     let padded = lc_add (lc_scale (public ! 2) two_72) (lc_constant last_chunk_padding);
         expected = [public ! 0, public ! 1, padded, public ! 3, public ! 4] in
     sbind (smap (\<lambda>((name, fact), e). ns name (equal (lc_num fact) e)) (zip (zip nym_names facts) expected)) (\<lambda>_. sret ()))))"

section \<open>Public values\<close>

lemma DST_length [simp]: "length DST = 39"
  by (simp add: DST_def)

lemma nym_message_length: "length secret = 16 \<Longrightarrow> length vi = 32 \<Longrightarrow> length (nym_message secret vi) = 119"
  by (simp add: nym_message_def PROVER_INPUT_def)

lemma pseudonym_of_values:
  assumes "scalar_repr (repr :: 'f::field \<Rightarrow> nat)" "length (np_pseudonym n) = 32"
  shows "pseudonym_of repr (vs @ nym_values n) = Some (np_pseudonym n)"
proof -
  let ?p = "np_pseudonym n"
  have half: "to_be repr (from_be bs :: 'f) = replicate 16 0 @ bs" if "length bs = 16" for bs
  proof -
    have "be_val bs < modulus" using that by (intro be_val_short) simp
    then have "to_be repr (from_be bs :: 'f) = be_bytes 32 (be_val (replicate 16 0 @ bs))"
      by (simp add: to_be_def repr_from_be [OF assms(1)])
    also have "\<dots> = replicate 16 0 @ bs" by (rule be_bytes_be_val) (simp add: that)
    finally show ?thesis .
  qed
  have last2: "(vs @ nym_values n) ! (length (vs @ nym_values n) - 2) = (from_be (take 16 ?p) :: 'f)"
    "(vs @ nym_values n) ! (length (vs @ nym_values n) - 1) = (from_be (drop 16 ?p) :: 'f)"
    "2 \<le> length (vs @ nym_values n :: 'f list)"
    by (simp_all add: nym_values_def verifier_values_def nth_append)
  show ?thesis
    unfolding pseudonym_of_def Let_def last2 half [of "take 16 ?p", simplified assms(2)]
    using last2(3) assms(2) by (simp add: half list_ex_iff)
qed

section \<open>What the rules force\<close>

text \<open>Every chunk is below \<open>2^128\<close>, which the step instances check.\<close>

definition chunks_small :: "(var \<Rightarrow> 'f::field) \<Rightarrow> 'f Cells \<Rightarrow> bool" where
  "chunks_small w cells \<longleftrightarrow> (\<forall>c. \<exists>v < 2 ^ 128. lcv w (cells_chunk cells c) = of_nat v)"

lemma pad_seed: "length m = 16 \<Longrightarrow> pad m = m @ concat seed_padding"
proof -
  assume m: "length m = 16"
  obtain k where k: "k < 64" "pad m = m @ [0x80] @ replicate k 0 @ be_bytes 8 (8 * length m)" "(length m + 1 + k) mod 64 = 56"
    using pad_spec by blast
  then have "(17 + k) mod 64 = 56" using m by simp
  then have "k = 39" using k(1) by (cases "17 + k < 64") (simp_all add: le_mod_geq)
  moreover have "be_bytes 8 (be_val (replicate 7 0 @ [0x80])) = replicate 7 0 @ [0x80]" by (rule be_bytes_be_val) simp
  then have "be_bytes 8 128 = replicate 7 0 @ [0x80]" using be_val_replicate_0 [of 7 "[]"] by simp
  moreover have "replicate 39 (0 :: byte) = replicate 15 0 @ replicate 16 0 @ replicate 8 0"
    "replicate 15 (0 :: byte) = replicate 8 0 @ replicate 7 0" by (simp_all flip: replicate_add)
  ultimately show ?thesis using k(2) m by (simp add: seed_padding_def)
qed

lemma pad_nym: "length m = 119 \<Longrightarrow> pad m = m @ 0x80 # be_bytes 8 (8 * 119)"
proof -
  assume m: "length m = 119"
  obtain k where k: "k < 64" "pad m = m @ [0x80] @ replicate k 0 @ be_bytes 8 (8 * length m)" "(length m + 1 + k) mod 64 = 56"
    using pad_spec by blast
  then have "(120 + k) mod 64 = 56" using m by simp
  then have "k = 0" using k(1) by (cases "56 + k < 64") (simp_all add: le_mod_geq)
  then show ?thesis using k(2) m by simp
qed

lemma cell_bytes_from_be:
  assumes "scalar_repr (repr :: 'f::field \<Rightarrow> nat)" "lcv w (cells_chunk cells c) = (from_be bs :: 'f)" "length bs = 16"
  shows "cell_bytes repr w cells c = bs"
proof -
  have "be_val bs < modulus" using assms(3) by (intro be_val_short) simp
  then have "repr (from_be bs) = be_val bs" by (rule repr_from_be [OF assms(1)])
  then show ?thesis using assms(2) be_bytes_be_val [OF assms(3)] by (simp add: cell_bytes_def)
qed

lemma cell_bytes_value:
  assumes "scalar_repr (repr :: 'f::field \<Rightarrow> nat)" "chunks_small w cells"
  shows "lcv w (cells_chunk cells c) = (from_be (cell_bytes repr w cells c) :: 'f)"
proof -
  obtain v where v: "v < 2 ^ 128" "lcv w (cells_chunk cells c) = of_nat v" using assms(2) by (auto simp: chunks_small_def)
  have "repr (of_nat v) = v" using v(1) modulus_bounds(1) by (intro scalar_reprD(2) [OF assms(1)]) simp
  then show ?thesis using v by (simp add: cell_bytes_def from_be_def)
qed

lemma two_72_value: "two_72 = (of_nat (256 ^ 9) :: 'f::field)"
  by (simp add: two_72_def)

text \<open>The seed split at its ninth byte: the low seven bytes in one chunk, the rest beside the tag's end.\<close>

lemma quotient_unique:
  fixes m :: nat
  assumes "c * m + a = x * m + b" "a < m" "b < m"
  shows "c = x" "a = b"
  using arg_cong [OF assms(1), of "\<lambda>n. n div m"] arg_cong [OF assms(1), of "\<lambda>n. n mod m"] assms(2,3) by simp_all

lemma seed_split:
  assumes repr: "scalar_repr (repr :: 'f::field \<Rightarrow> nat)"
    and lens: "length secret = 16" "length tag = 7" "length chunk = 16"
    and low: "low < 2 ^ 56"
    and high: "from_be chunk = from_be tag * two_72 + inverse (of_nat (2 ^ 56)) * (from_be secret - of_nat low :: 'f)"
  shows "chunk = tag @ take 9 secret" "low = be_val (drop 9 secret)"
proof -
  have "(of_nat (2 ^ 56) :: 'f) \<noteq> of_nat 0"
    using scalar_of_nat_inj [OF repr, of "2 ^ 56" 0] modulus_bounds(1) by fastforce
  then have "from_be chunk * of_nat (2 ^ 56) + of_nat low = (from_be tag * two_72 * of_nat (2 ^ 56) + from_be secret :: 'f)"
    unfolding high by (simp add: field_simps)
  then have "of_nat (be_val chunk * 2 ^ 56 + low) = (of_nat (be_val tag * 2 ^ 128 + be_val secret) :: 'f)"
    by (simp add: from_be_def two_72_value algebra_simps)
  moreover have bounds: "be_val chunk < 2 ^ 128" "be_val tag < 2 ^ 56" "be_val secret < 2 ^ 128"
    using be_val_less [of chunk] be_val_less [of tag] be_val_less [of secret] lens by simp_all
  have "be_val chunk * 2 ^ 56 + low < modulus" "be_val tag * 2 ^ 128 + be_val secret < modulus"
    using bounds low modulus_bounds(1) by simp_all
  ultimately have eq: "be_val chunk * 2 ^ 56 + low = be_val tag * 2 ^ 128 + be_val secret"
    by (intro scalar_of_nat_inj [OF repr])
  have secret: "be_val secret = be_val (take 9 secret) * 2 ^ 56 + be_val (drop 9 secret)"
    using be_val_append [of "take 9 secret" "drop 9 secret"] lens(1) by simp
  have "be_val (drop 9 secret) < 2 ^ 56" using be_val_less [of "drop 9 secret"] lens(1) by simp
  moreover have "be_val chunk * 2 ^ 56 + low = (be_val tag * 2 ^ 72 + be_val (take 9 secret)) * 2 ^ 56 + be_val (drop 9 secret)"
    using eq secret by simp
  ultimately have parts: "be_val chunk = be_val tag * 2 ^ 72 + be_val (take 9 secret)" "low = be_val (drop 9 secret)"
    using low by (blast dest: quotient_unique)+
  then show "low = be_val (drop 9 secret)" by simp
  show "chunk = tag @ take 9 secret"
    by (rule be_val_inj) (use lens parts in \<open>simp_all add: be_val_append\<close>)
qed

text \<open>The table's bytes of the seed's block and of the pseudonym's message up to the verifier's input.\<close>

definition nym_blocks :: "('f::field \<Rightarrow> nat) \<Rightarrow> (var \<Rightarrow> 'f) \<Rightarrow> 'f Cells \<Rightarrow> PseudonymRegions \<Rightarrow> bytes \<Rightarrow> bool" where
  "nym_blocks repr w cells regions secret \<longleftrightarrow> length secret = 16 \<and>
     table_bytes repr w cells (64 * first (seed regions)) 64 = pad secret \<and>
     table_bytes repr w cells (64 * first (nym regions)) 80 = DST @ secret @ replicate 25 0"

lemma four_cells:
  "table_bytes repr w cells (64 * j) 64 = cell_bytes repr w cells (4 * j) @ cell_bytes repr w cells (4 * j + 1)
     @ cell_bytes repr w cells (4 * j + 2) @ cell_bytes repr w cells (4 * j + 3)"
proof -
  have "[0..<4] = [0, 1, 2, 3 :: nat]" by (simp add: upt_rec)
  then show ?thesis using concat_cell_bytes [of repr w cells "4 * j" 4] by (simp del: upt_rec_numeral)
qed

lemma seed_block:
  assumes "\<And>i. i < 3 \<Longrightarrow> cell_bytes repr w cells (4 * s + Suc i) = seed_padding ! i"
  shows "table_bytes repr w cells (64 * s) 64 = pad (cell_bytes repr w cells (4 * s))"
proof -
  have "concat seed_padding = seed_padding ! 0 @ seed_padding ! 1 @ seed_padding ! 2"
    by (simp add: seed_padding_def)
  then show ?thesis
    using assms [of 0] assms [of 1] assms [of 2]
    by (simp add: four_cells pad_seed cell_bytes_def numeral_2_eq_2 numeral_3_eq_3)
qed

lemma low_chunk:
  assumes "scalar_repr (repr :: 'f::field \<Rightarrow> nat)" "length bs = 7"
    and "lcv w (cells_chunk cells c) = (two_72 * of_nat (be_val bs) :: 'f)"
  shows "cell_bytes repr w cells c = bs @ replicate 9 0"
proof (rule cell_bytes_from_be [OF assms(1)])
  have "be_val (replicate 9 0) = 0" using be_val_replicate_0 [of 9 "[]"] by simp
  then show "lcv w (cells_chunk cells c) = (from_be (bs @ replicate 9 0) :: 'f)"
    by (simp add: assms(3) two_72_value from_be_def be_val_append)
qed (simp add: assms(2))

lemma cell_bytes_chunk:
  assumes "scalar_repr (repr :: 'f::field \<Rightarrow> nat)" "lcv w (block_chunk cells j c) = (from_be bs :: 'f)" "length bs = 16"
  shows "cell_bytes repr w cells (4 * j + c) = bs"
  using cell_bytes_from_be [OF assms(1) _ assms(3)] assms(2) by (simp add: block_chunk_def CHUNKS_PER_BLOCK_def)

lemma block_chunk_value:
  assumes "scalar_repr (repr :: 'f::field \<Rightarrow> nat)" "chunks_small w cells"
  shows "lcv w (block_chunk cells j c) = (from_be (cell_bytes repr w cells (4 * j + c)) :: 'f)"
  using cell_bytes_value [OF assms] by (simp add: block_chunk_def CHUNKS_PER_BLOCK_def)

lemma length_cell_bytes [simp]: "length (cell_bytes repr w cells c) = 16"
  by (simp add: cell_bytes_def)

lemma nym_message_head:
  assumes repr: "scalar_repr (repr :: 'f::field \<Rightarrow> nat)" and w: "assignment (w :: var \<Rightarrow> 'f)" and small: "chunks_small w cells"
    and dst: "lcv w (block_chunk cells n 0) = from_be (take 16 DST)" "lcv w (block_chunk cells n 1) = from_be (take 16 (drop 16 DST))"
    and low: "length lb = 56" "list_all (is_bit w) lb"
    and c3: "lcv w (block_chunk cells n 3) = lcv w (lc_scale (pack lb) two_72)"
    and c2: "lcv w (block_chunk cells n 2) = lcv w (lc_add (lc_constant (from_be (drop 32 DST) * two_72))
        (lc_scale (lc_sub (block_chunk cells s 0) (pack lb)) (inverse (of_nat (2 ^ 56)))))"
    and zero: "lcv w (block_chunk cells (n + 1) 0) = 0"
  shows "table_bytes repr w cells (64 * n) 80 = DST @ cell_bytes repr w cells (4 * s) @ replicate 25 0"
proof -
  let ?sec = "cell_bytes repr w cells (4 * s)" and ?c2 = "cell_bytes repr w cells (4 * n + 2)"
  have l: "bin_val (bvals w lb) < 2 ^ 56" using bin_val_less [of "bvals w lb"] low(1) by simp
  have "from_be ?c2 = from_be (drop 32 DST) * two_72
      + inverse (of_nat (2 ^ 56)) * (from_be ?sec - of_nat (bin_val (bvals w lb)) :: 'f)"
    using c2 block_chunk_value [OF repr small, of n 2] block_chunk_value [OF repr small, of s 0] lcv_pack [OF low(2)] w by simp
  from seed_split [OF repr _ _ _ l this]
  have c2b: "?c2 = drop 32 DST @ take 9 ?sec" and lowb: "bin_val (bvals w lb) = be_val (drop 9 ?sec)" by simp_all
  have "lcv w (cells_chunk cells (4 * n + 3)) = two_72 * of_nat (be_val (drop 9 ?sec))"
    using c3 lcv_pack [OF low(2)] lowb by (simp add: block_chunk_def CHUNKS_PER_BLOCK_def)
  then have c3b: "cell_bytes repr w cells (4 * n + 3) = drop 9 ?sec @ replicate 9 0" by (intro low_chunk [OF repr]) simp_all
  have "be_val (replicate 16 0) = 0" using be_val_replicate_0 [of 16 "[]"] by simp
  then have "cell_bytes repr w cells (4 * (n + 1) + 0) = replicate 16 0"
    using zero by (intro cell_bytes_chunk [OF repr]) (simp_all add: from_be_def)
  then have second: "table_bytes repr w cells (64 * n + 64) 16 = replicate 16 0"
    using cell_bytes_table [of repr w cells "4 * (n + 1)"] by (simp add: algebra_simps)
  have "take 16 DST @ take 16 (drop 16 DST) @ drop 32 DST = DST"
    by (simp add: DST_def ascii_def)
  then have "table_bytes repr w cells (64 * n) 64 = DST @ ?sec @ replicate 9 0"
    using cell_bytes_chunk [OF repr dst(1)] cell_bytes_chunk [OF repr dst(2)] c2b c3b
    by (simp add: four_cells)
  then show ?thesis
    using table_bytes_append [of repr w cells "64 * n" 64 16] second by (simp flip: replicate_add)
qed

lemma sound_seed_and_nym:
  assumes repr: "scalar_repr (repr :: 'f::field \<Rightarrow> nat)" and L: "bellpepper_sound L" and w: "assignment (w :: var \<Rightarrow> 'f)"
    and small: "chunks_small w cells" and s: "s = first (seed regions)" and n: "n = first (nym regions)"
  shows "sound w (seed_and_nym L repr cells regions) (\<lambda>((high, low), facts).
    high = cells_state cells s 0 \<and> low = cells_state cells s 1 \<and>
    facts = [block_chunk cells (n + 1) 1, block_chunk cells (n + 1) 2, block_chunk cells (n + 1) 3,
        cells_state cells (n + 1) 0, cells_state cells (n + 1) 1] \<and>
    nym_blocks repr w cells regions (cell_bytes repr w cells (4 * s)))"
proof -
  have pad_lens: "length (seed_padding ! i) = 16" if "i < 3" for i
    using that by (auto simp: seed_padding_def less_Suc_eq numeral_3_eq_3)
  have three: "length seed_padding = 3" by (simp add: seed_padding_def)
  let ?pads = "smap (\<lambda>(c, bs). ns (''seed padding '' @ show_nat (c + 1)) (equal (block_chunk cells s (c + 1)) (chunk_constant bs)))
       (zip [0..<3] seed_padding)"
  have pads: "sound w ?pads (list_all2 (\<lambda>(c, bs) _. lcv w (block_chunk cells s (c + 1)) = from_be bs) (zip [0..<3] seed_padding))"
    by (rule sound_smap) (auto intro!: sound_ns sound_mono [OF sound_equal [OF w]] simp: chunk_constant_def w)
  show ?thesis
    unfolding seed_and_nym_def Let_def s [symmetric] n [symmetric]
  proof (rule sound_sbind [OF pads], (rule sound_sbind [OF sound_ns [OF sound_equal [OF w]]])+,
      rule sound_sbind [OF sound_ns [OF sound_alloc_bits [OF L w]]],
      (rule sound_sbind [OF sound_ns [OF sound_equal [OF w]]])+, rule sound_sret, unfold prod.case, elim conjE)
    fix us :: "unit list" and lb
    assume us: "list_all2 (\<lambda>(c, bs) _. lcv w (block_chunk cells s (c + 1)) = from_be bs) (zip [0..<3] seed_padding) us"
      and dst: "lcv w (block_chunk cells n 0) = lcv w (chunk_constant (take 16 DST))"
        "lcv w (block_chunk cells n 1) = lcv w (chunk_constant (take 16 (drop 16 DST)))"
      and low: "length lb = 56" "list_all (is_bit w) lb"
      and c3: "lcv w (block_chunk cells n 3) = lcv w (lc_scale (pack lb) two_72)"
      and c2: "lcv w (block_chunk cells n 2) = lcv w (lc_add (lc_constant (from_be (drop 32 DST) * two_72))
        (lc_scale (lc_sub (block_chunk cells s 0) (pack lb)) (inverse (of_nat (2 ^ 56)))))"
      and zero: "lcv w (block_chunk cells (n + 1) 0) = lcv w lc_zero"
    have "cell_bytes repr w cells (4 * s + Suc i) = seed_padding ! i" if "i < 3" for i
      using list_all2_nthD [OF us, of i] that three pad_lens [OF that]
      by (intro cell_bytes_chunk [OF repr]) (simp_all del: upt_rec_numeral)
    then have "table_bytes repr w cells (64 * s) 64 = pad (cell_bytes repr w cells (4 * s))" by (rule seed_block)
    moreover have "table_bytes repr w cells (64 * n) 80 = DST @ cell_bytes repr w cells (4 * s) @ replicate 25 0"
      by (rule nym_message_head [OF repr w small _ _ low c3 c2]) (use dst zero w in \<open>simp_all add: chunk_constant_def\<close>)
    ultimately show "cells_state cells s 0 = cells_state cells s 0 \<and> cells_state cells s 1 = cells_state cells s 1 \<and>
      [block_chunk cells (n + 1) 1, block_chunk cells (n + 1) 2, block_chunk cells (n + 1) 3,
        cells_state cells (n + 1) 0, cells_state cells (n + 1) 1] =
      [block_chunk cells (n + 1) 1, block_chunk cells (n + 1) 2, block_chunk cells (n + 1) 3,
        cells_state cells (n + 1) 0, cells_state cells (n + 1) 1] \<and>
      nym_blocks repr w cells regions (cell_bytes repr w cells (4 * s))"
      by (simp add: nym_blocks_def s n)
  qed
qed

text \<open>The slots that the rest segment reads hold the pseudonym's second block and the state after it.\<close>

definition nym_slots :: "(var \<Rightarrow> 'f::field) \<Rightarrow> 'f Cells \<Rightarrow> PseudonymRegions \<Rightarrow> 'f AllocatedNum list \<Rightarrow> bool" where
  "nym_slots w cells regions slots \<longleftrightarrow>
    (let n = first (nym regions) in map (\<lambda>x. w (num_var x)) slots = map (lcv w)
       [block_chunk cells (n + 1) 1, block_chunk cells (n + 1) 2, block_chunk cells (n + 1) 3,
        cells_state cells (n + 1) 0, cells_state cells (n + 1) 1])"

lemma sound_nym_into_slots:
  assumes "assignment w" "length facts = 5"
  shows "sound w (nym_into_slots L facts) (\<lambda>slots. map (\<lambda>x. w (num_var x)) slots = map (lcv w) facts)"
proof -
  have names: "length nym_names = 5" by (simp add: nym_names_def)
  have "sound w (nym_into_slots L facts) (list_all2 (\<lambda>(name, fact) x. w (num_var x) = lcv w fact) (zip nym_names facts))"
    unfolding nym_into_slots_def
    by (rule sound_smap) (auto intro!: sound_ns sound_to_num assms(1))
  then show ?thesis
  proof (rule sound_mono)
    fix slots assume "list_all2 (\<lambda>(name, fact) x. w (num_var x) = lcv w fact) (zip nym_names facts) slots"
    then show "map (\<lambda>x. w (num_var x)) slots = map (lcv w) facts"
      using assms(2) names by (intro nth_equalityI) (auto simp: list_all2_conv_all_nth)
  qed
qed

lemma sound_commitment_and_slots:
  assumes repr: "scalar_repr (repr :: 'f::field \<Rightarrow> nat)" and L: "bellpepper_sound L" and w: "assignment (w :: var \<Rightarrow> 'f)"
    and small: "chunks_small w cells"
  shows "sound w (commitment_and_slots L repr cells regions commitment) (\<lambda>slots.
    nym_slots w cells regions slots \<and> (\<exists>secret. nym_blocks repr w cells regions secret) \<and>
    lcv w (cells_state cells (first (seed regions)) 0) = lcv w (fst commitment) \<and>
    lcv w (cells_state cells (first (seed regions)) 1) = lcv w (snd commitment))"
  unfolding commitment_and_slots_def
proof (rule sound_sbind [OF sound_ns [OF sound_seed_and_nym [OF repr L w small refl refl]]], unfold split_paired_all prod.case)
  fix high low facts
  assume r: "high = cells_state cells (first (seed regions)) 0 \<and> low = cells_state cells (first (seed regions)) 1 \<and>
    facts = [block_chunk cells (first (nym regions) + 1) 1, block_chunk cells (first (nym regions) + 1) 2,
      block_chunk cells (first (nym regions) + 1) 3, cells_state cells (first (nym regions) + 1) 0, cells_state cells (first (nym regions) + 1) 1] \<and>
    nym_blocks repr w cells regions (cell_bytes repr w cells (4 * first (seed regions)))"
  have pair: "sound w (smap (\<lambda>(h, a, b). ns (''seed digest half '' @ show_nat h @ '' is ssc'') (equal a b)) xs)
      (list_all2 (\<lambda>(h, a, b) _. lcv w a = lcv w b) xs)" for xs
    by (rule sound_smap) (auto intro!: sound_ns sound_equal w)
  have len: "length facts = 5" using r by simp
  show "sound w (sbind (smap (\<lambda>(h, seed_half, ssc_half). ns (''seed digest half '' @ show_nat h @ '' is ssc'') (equal seed_half ssc_half))
       [(0, high, fst commitment), (1, low, snd commitment)]) (\<lambda>_. ns ''facts'' (nym_into_slots L facts)))
    (\<lambda>slots. nym_slots w cells regions slots \<and> (\<exists>secret. nym_blocks repr w cells regions secret) \<and>
      lcv w (cells_state cells (first (seed regions)) 0) = lcv w (fst commitment) \<and>
      lcv w (cells_state cells (first (seed regions)) 1) = lcv w (snd commitment))"
    by (rule sound_sbind [OF pair], rule sound_ns, rule sound_mono [OF sound_nym_into_slots [OF w len]])
       (use r in \<open>auto simp: nym_slots_def Let_def list_all2_Cons1\<close>)
qed

lemma sound_at_nym_check:
  assumes L: "bellpepper_inputs L" and w: "assignment w"
    and public: "\<And>j. j < 5 \<Longrightarrow> w (Input (i + j)) = nym_values n ! j"
  shows "sound_at w i (nym_check L facts vals) (i + 5) (\<lambda>_.
    map (\<lambda>x. w (num_var x)) facts = [nym_values n ! 0, nym_values n ! 1, two_72 * (nym_values n ! 2) + last_chunk_padding,
      nym_values n ! 3, nym_values n ! 4])"
proof -
  let ?f = "\<lambda>(k :: nat, name). ns (''public '' @ name) (alloc_input_num L (ok_or AssignmentMissing (map_option (\<lambda>v. v ! k) (map_option nym_values vals))))"
  have "sound_at w i (?f x) (Suc i) (\<lambda>r. num_var r = Input i)" for x i
    by (cases x) (auto intro!: sound_at_ns sound_at_input L)
  note inputs = sound_at_smap_inputs [of w ?f i "zip [0..<5] nym_names", OF this]
  have five: "length (zip [0..<5] nym_names) = 5" by (simp add: nym_names_def)
  note inputs = inputs [unfolded five]
  have eqs: "sound w (smap (\<lambda>((name, fact), e). ns name (equal (lc_num fact) e)) zs)
      (list_all2 (\<lambda>((name, fact), e) _. w (num_var fact) = lcv w e) zs)" for zs
    by (rule sound_smap) (auto intro!: sound_ns sound_mono [OF sound_equal [OF w]])
  show ?thesis
    unfolding nym_check_def Let_def
  proof (rule sound_at_sbind [OF inputs], rule sound_at_sbind [OF sound_at_keeps [where Q = "\<lambda>_. length facts = 5"]])
    show "sound w (if length facts = VALUES then sret () else sfail AssignmentMissing) (\<lambda>_. length facts = 5)"
      by (simp add: VALUES_def sound_sret sound_sfail)
    show "keeps (if length facts = VALUES then sret () else sfail AssignmentMissing)" by (intro keeps_intros)
    fix nums :: "'a AllocatedNum list"
    assume nums: "map num_var nums = map Input [i..<i + 5]" and five: "length facts = 5"
    have ln: "length nums = 5" using map_eq_imp_length_eq [OF nums] by simp
    have v: "w (num_var (nums ! j)) = nym_values n ! j" if "j < 5" for j
      using arg_cong [OF nums, of "\<lambda>l. w (l ! j)"] that ln public [OF that] by simp
    let ?public = "map lc_num nums"
    let ?zs = "zip (zip nym_names facts) [?public ! 0, ?public ! 1,
      lc_add (lc_scale (?public ! 2) two_72) (lc_constant last_chunk_padding), ?public ! 3, ?public ! 4]"
    have names: "length nym_names = 5" by (simp add: nym_names_def)
    have "map (\<lambda>x. w (num_var x)) facts = [nym_values n ! 0, nym_values n ! 1, two_72 * (nym_values n ! 2) + last_chunk_padding,
        nym_values n ! 3, nym_values n ! 4]"
      if all: "list_all2 (\<lambda>((name, fact), e) _. w (num_var fact) = lcv w e) ?zs (us :: unit list)" for us
    proof (rule nth_equalityI)
      fix j assume "j < length (map (\<lambda>x. w (num_var x)) facts)"
      then have j: "j = 0 \<or> j = 1 \<or> j = 2 \<or> j = 3 \<or> j = 4" using five by auto
      have "(case ?zs ! j of ((name, x), e) \<Rightarrow> w (num_var x) = lcv w e)"
        using list_all2_nthD [OF all, of j] j five names by auto
      then show "map (\<lambda>x. w (num_var x)) facts ! j = [nym_values n ! 0, nym_values n ! 1, two_72 * (nym_values n ! 2) + last_chunk_padding,
          nym_values n ! 3, nym_values n ! 4] ! j"
        using j five names ln w v by (elim disjE) simp_all
    qed (simp add: five)
    then show "sound_at w (i + 5) (sbind (smap (\<lambda>((name, fact), e). ns name (equal (lc_num fact) e)) ?zs) (\<lambda>_. sret ())) (i + 5)
        (\<lambda>_. map (\<lambda>x. w (num_var x)) facts = [nym_values n ! 0, nym_values n ! 1, two_72 * (nym_values n ! 2) + last_chunk_padding,
          nym_values n ! 3, nym_values n ! 4])"
      by (intro sound_at_keeps sound_sbind [OF eqs] sound_sret keeps_intros)
         (auto split: prod.splits intro!: keeps_intros)
  qed
qed

text \<open>With the verifier's values, the pseudonym's two blocks are its padded message.\<close>

lemma nym_message_blocks:
  assumes repr: "scalar_repr (repr :: 'f::field \<Rightarrow> nat)"
    and blocks: "nym_blocks repr w cells regions secret" and slots: "nym_slots w cells regions slots"
    and lens: "length (np_verifier_input n) = 32"
    and vals: "map (\<lambda>x. w (num_var x)) slots = [nym_values n ! 0, nym_values n ! 1,
      two_72 * (nym_values n ! 2) + last_chunk_padding, nym_values n ! 3, nym_values n ! (4::nat) :: 'f]"
  shows "table_bytes repr w cells (64 * first (nym regions)) 128 = pad (nym_message secret (np_verifier_input n))"
    "lcv w (cells_state cells (first (nym regions) + 1) 0) = from_be (take 16 (np_pseudonym n))"
    "lcv w (cells_state cells (first (nym regions) + 1) 1) = from_be (drop 16 (np_pseudonym n))"
proof -
  let ?n = "first (nym regions)" and ?vi = "np_verifier_input n"
  have eqs: "lcv w (block_chunk cells (?n + 1) 1) = from_be (take 9 ?vi)"
    "lcv w (block_chunk cells (?n + 1) 2) = from_be (take 16 (drop 9 ?vi))"
    "lcv w (block_chunk cells (?n + 1) 3) = two_72 * from_be (drop 25 ?vi) + last_chunk_padding"
    "lcv w (cells_state cells (?n + 1) 0) = from_be (take 16 (np_pseudonym n))"
    "lcv w (cells_state cells (?n + 1) 1) = from_be (drop 16 (np_pseudonym n))"
    using slots vals by (simp_all add: nym_slots_def Let_def nym_values_def verifier_values_def numeral_3_eq_3 numeral_eq_Suc)
  show "lcv w (cells_state cells (?n + 1) 0) = from_be (take 16 (np_pseudonym n))"
    "lcv w (cells_state cells (?n + 1) 1) = from_be (drop 16 (np_pseudonym n))" by (fact eqs(4), fact eqs(5))
  let ?pad = "0x80 # be_bytes 8 (8 * 119) :: bytes"
  have "cell_bytes repr w cells (4 * (?n + 1) + 1) = replicate 7 0 @ take 9 ?vi"
    by (rule cell_bytes_chunk [OF repr], unfold eqs(1)) (simp_all add: from_be_def lens)
  moreover have "cell_bytes repr w cells (4 * (?n + 1) + 2) = take 16 (drop 9 ?vi)"
    by (rule cell_bytes_chunk [OF repr], unfold eqs(2)) (simp_all add: lens)
  moreover have "cell_bytes repr w cells (4 * (?n + 1) + 3) = drop 25 ?vi @ ?pad"
  proof (rule cell_bytes_chunk [OF repr])
    have "(from_be (drop 25 ?vi @ ?pad) :: 'f) = from_be (drop 25 ?vi) * of_nat (256 ^ length ?pad) + from_be ?pad"
      unfolding from_be_def be_val_append by simp
    then show "lcv w (block_chunk cells (?n + 1) 3) = from_be (drop 25 ?vi @ ?pad)"
      unfolding eqs(3) by (simp add: two_72_value last_chunk_padding_def mult.commute)
  qed (simp add: lens)
  moreover have "[0..<3] = [0, 1, 2 :: nat]" by (simp add: upt_rec)
  moreover have "take 9 ?vi @ take 16 (drop 9 ?vi) @ drop 25 ?vi = ?vi"
    using append_take_drop_id [of 16 "drop 9 ?vi"] by simp
  ultimately have "table_bytes repr w cells (64 * ?n + 80) 48 = replicate 7 0 @ ?vi @ ?pad"
    using concat_cell_bytes [of repr w cells "4 * (?n + 1) + 1" 3]
    by (simp add: algebra_simps del: upt_rec_numeral) (metis append.assoc)
  then show "table_bytes repr w cells (64 * ?n) 128 = pad (nym_message secret ?vi)"
    using table_bytes_append [of repr w cells "64 * ?n" 80 48] blocks lens
      replicate_add [of 25 7 "0 :: byte"]
    by (simp add: nym_blocks_def pad_nym nym_message_length) (simp add: nym_message_def PROVER_INPUT_def)
qed

section \<open>Properties\<close>

text \<open>
  The verifier reads the pseudonym back: from the public values of a presentation, whatever
  values come before them, \<open>pseudonym_of\<close> returns the pseudonym that the prover put there.
\<close>

theorem pseudonym_values_roundtrip:
  assumes "scalar_repr (repr :: 'f::field \<Rightarrow> nat)" "length (np_pseudonym n) = 32"
  shows "pseudonym_of repr (vs @ nym_values n) = Some (np_pseudonym n)"
  using assms by (rule pseudonym_of_values)

theorem pseudonym_values_roundtrip_witness:
  "pseudonym_of rat_repr ([7] @ nym_values \<lparr>np_verifier_input = replicate 32 1, np_pseudonym = replicate 32 9\<rparr>)
     = Some (replicate 32 9)"
  using pseudonym_values_roundtrip [OF scalar_repr_rat, of "\<lparr>np_verifier_input = replicate 32 1, np_pseudonym = replicate 32 9\<rparr>" "[7]"]
  by simp

end
