(* ===== verification/Mdoc.thy ===== *)
theory Mdoc
  imports Presentation Pseudonym
begin

text \<open>
  The core circuit for an mdoc (\<open>mdoc.rs\<close>): the witness that the prover builds from the credential's
  bytes, and the rules of the three segments. \<open>credential_facts\<close> says what the precommitted rules
  force of the table's bytes: the issuer's signature covers the state after the signed message, the
  item's digest is listed there, and the birth date, the device key and the validity are read from
  beside their keys.
\<close>

section \<open>The witness\<close>

definition WINDOWS :: "PatternWindow \<times> PatternWindow" where "WINDOWS = (DOC_TYPE_WINDOW, IDENTIFIER_WINDOW)"
definition DIGEST :: bytes where "DIGEST = [0x58, 0x20]"
definition VALUE :: bytes where "VALUE = 0x6c # ascii ''elementValue'' @ [0xd9, 0x03, 0xec, 0x6a]"
definition DEVICE_KEY :: bytes where
  "DEVICE_KEY = 0x69 # ascii ''deviceKey'' @ [0xa4, 0x01, 0x02, 0x20, 0x01, 0x21, 0x58, 0x20]"
definition DEVICE_KEY_Y :: bytes where "DEVICE_KEY_Y = [0x22, 0x58, 0x20]"
definition VALID_FROM :: bytes where "VALID_FROM = 0x69 # ascii ''validFrom'' @ [0xc0, 0x74]"
definition VALID_UNTIL :: bytes where "VALID_UNTIL = 0x6a # ascii ''validUntil'' @ [0xc0, 0x74]"

record MdocNym =
  mn_last :: nat
  mn_digest_at :: nat
  mn_identifier_at :: nat
  mn_value_at :: nat

record MdocWitness =
  mw_table :: Table
  mw_issuer_key :: PublicKey
  mw_issuer_signature :: Signature
  mw_skipped :: nat
  mw_signed_last :: nat
  mw_attribute_last :: nat
  mw_doc_type_at :: nat
  mw_digest_at :: nat
  mw_device_key_at :: nat
  mw_valid_from_at :: nat
  mw_valid_until_at :: nat
  mw_identifier_at :: nat
  mw_value_at :: nat
  mw_nym :: "MdocNym option"

datatype witness_error =
    Missing find_error
  | NoValue string
  | CutShort string
  | NotShortText string
  | NearStart string nat
  | StatementDisagrees
  | TableError table_error

definition find_in :: "bytes \<Rightarrow> bytes \<Rightarrow> string \<Rightarrow> witness_error + nat" where
  "find_in bs pattern what = map_err Missing (find_bytes bs pattern what)"

definition window_at :: "bytes \<Rightarrow> bytes \<Rightarrow> nat \<Rightarrow> string \<Rightarrow> witness_error + nat" where
  "window_at bs key len what =
     rbind (find_in bs key what) (\<lambda>found.
     let pos = found + length key in
     rbind (if pos < length bs then Inr (bs ! pos) else Inl (NoValue what)) (\<lambda>head.
     rbind (if 0x60 \<le> head \<and> head < 0x78 then Inr (1, unat (head - 0x60))
            else if head = 0x78 then
              (if pos + 1 < length bs then Inr (2, unat (bs ! (pos + 1))) else Inl (CutShort what))
            else Inl (NotShortText what)) (\<lambda>(head_len, text_len).
     let last_pos = pos + head_len + text_len in
     if last_pos > length bs then Inl (CutShort what)
     else if last_pos < len then Inl (NearStart what len) else Inr (last_pos - len))))"

text \<open>The offsets of the values in the signed message, before the skipped blocks are taken off.\<close>

definition signed_offsets :: "(bytes \<Rightarrow> bytes) \<Rightarrow> bytes \<Rightarrow> bytes \<Rightarrow> NymMessages option \<Rightarrow> witness_error + nat list" where
  "signed_offsets sha sig_structure item n =
     rbind (window_at sig_structure DOC_TYPE_KEY (pw_len DOC_TYPE_WINDOW) ''docType'') (\<lambda>doc_type.
     rbind (find_in sig_structure (DIGEST @ sha item) ''the item's digest'') (\<lambda>digest.
     rbind (find_in sig_structure DEVICE_KEY ''deviceKey'') (\<lambda>device_key.
     rbind (find_in sig_structure VALID_FROM ''validFrom'') (\<lambda>valid_from.
     rbind (find_in sig_structure VALID_UNTIL ''validUntil'') (\<lambda>valid_until.
     let offsets = [doc_type, digest, device_key, valid_from, valid_until] in
     case n of
       None \<Rightarrow> Inr offsets
     | Some n \<Rightarrow> rbind (find_in sig_structure (DIGEST @ sha (nm_ssc n)) ''the ssc item's digest'') (\<lambda>at_ssc.
         Inr (offsets @ [at_ssc])))))))"

definition nym_witness :: "NymMessages option \<Rightarrow> PseudonymRegions option \<Rightarrow> nat list \<Rightarrow>
    witness_error + (Region \<times> bytes) list \<times> MdocNym option" where
  "nym_witness n regions offsets =
    (case (n, regions) of
       (Some n, Some regions) \<Rightarrow>
         rbind (find_in (nm_ssc n) MDOC_IDENTIFIER ''the ssc identifier'') (\<lambda>identifier_at.
         rbind (find_in (nm_ssc n) MDOC_VALUE ''the ssc value'') (\<lambda>value_at.
         Inr (table_messages n regions,
           Some \<lparr>mn_last = last_block (length (nm_ssc n)), mn_digest_at = offsets ! 5,
                 mn_identifier_at = identifier_at, mn_value_at = value_at\<rparr>)))
     | (None, None) \<Rightarrow> Inr ([], None)
     | _ \<Rightarrow> Inl StatementDisagrees)"

definition build ::
  "(bytes \<Rightarrow> bytes) \<Rightarrow> (u32 list \<Rightarrow> bytes \<Rightarrow> u32 list) \<Rightarrow> Layout \<Rightarrow> bytes \<Rightarrow> bytes \<Rightarrow> PublicKey \<Rightarrow> Signature \<Rightarrow>
    NymMessages option \<Rightarrow> witness_error + MdocWitness" where
  "build sha c layout sig_structure item issuer_key issuer_signature n =
     rbind (signed_offsets sha sig_structure item n) (\<lambda>found.
     let skipped = blocks_before (Min (set found)); offsets = map (\<lambda>a. a - 64 * skipped) found in
     rbind (nym_witness n (Layout.pseudonym layout) offsets) (\<lambda>(more, mdoc_nym).
     rbind (map_err TableError (with_messages c layout sig_structure skipped ((attribute_region layout, item) # more))) (\<lambda>table.
     rbind (window_at item IDENTIFIER_KEY (pw_len IDENTIFIER_WINDOW) ''the identifier'') (\<lambda>identifier_at.
     rbind (find_in item VALUE ''elementValue'') (\<lambda>value_at.
     Inr \<lparr>mw_table = table, mw_issuer_key = issuer_key, mw_issuer_signature = issuer_signature, mw_skipped = skipped,
       mw_signed_last = last_block (length sig_structure) - skipped, mw_attribute_last = last_block (length item),
       mw_doc_type_at = offsets ! 0, mw_digest_at = offsets ! 1, mw_device_key_at = offsets ! 2,
       mw_valid_from_at = offsets ! 3, mw_valid_until_at = offsets ! 4, mw_identifier_at = identifier_at,
       mw_value_at = value_at, mw_nym = mdoc_nym\<rparr>)))))"

definition full ::
  "(bytes \<Rightarrow> bytes) \<Rightarrow> (u32 list \<Rightarrow> bytes \<Rightarrow> u32 list) \<Rightarrow> bytes \<Rightarrow> bytes \<Rightarrow> NymMessages \<Rightarrow> PublicKey \<Rightarrow> Signature \<Rightarrow>
    witness_error + MdocWitness" where
  "full sha c sig_structure item n issuer_key issuer_signature =
     build sha c FULL_MDOC sig_structure item issuer_key issuer_signature (Some n)"

section \<open>The precommitted rules\<close>

definition date_time ::
  "'f::field bellpepper \<Rightarrow> ('f \<Rightarrow> nat) \<Rightarrow> 'f Message \<Rightarrow> nat option \<Rightarrow> bytes \<Rightarrow> ('f Lc, 'f) synth" where
  "date_time L repr message at_offset key =
     sbind (ns ''window'' (message_read L repr message at_offset (length key + 20))) (\<lambda>window.
     sbind (ns ''key'' (expect (take (length key) (win_bytes window)) key)) (\<lambda>_.
     let time = drop (length key) (win_bytes window) in sret (decimal (map (\<lambda>i. time ! i) DATE_TIME_DIGITS))))"

text \<open>A digest listed in the signed message, beside the digest of an item.\<close>

definition listed_digest ::
  "'f::field bellpepper \<Rightarrow> ('f \<Rightarrow> nat) \<Rightarrow> string \<Rightarrow> 'f Message \<Rightarrow> nat option \<Rightarrow> 'f Lc \<times> 'f Lc \<Rightarrow> (unit, 'f) synth" where
  "listed_digest L repr name signed_msg at_offset digest =
     sbind (ns (name @ '' digest'') (message_read L repr signed_msg at_offset 34)) (\<lambda>listed.
     sbind (ns (name @ '' digest head'') (expect (take 2 (win_bytes listed)) DIGEST)) (\<lambda>_.
     sbind (smap (\<lambda>(h, half_digest). ns (name @ '' digest half '' @ show_nat h)
         (equal (pack_bytes (take 16 (drop (2 + 16 * h) (win_bytes listed)))) half_digest))
       [(0, fst digest), (1, snd digest)]) (\<lambda>_. sret ())))"

text \<open>The parts of \<open>age_part\<close>: the messages and the issuer's signature, the birth date, the device key.\<close>

definition signed_part ::
  "'f::field bellpepper \<Rightarrow> ('f \<Rightarrow> nat) \<Rightarrow> 'f Constants \<Rightarrow> 'f Cells \<Rightarrow> MdocWitness option \<Rightarrow> Layout \<Rightarrow>
    ('f Message \<times> 'f Message \<times> ('f Lc \<times> 'f Lc) \<times> 'f Point, 'f) synth" where
  "signed_part L repr K cells wit layout =
     sbind (ns ''Sig_structure'' (message_open L cells (signed_region layout) (map_option mw_signed_last wit))) (\<lambda>(signed_msg, signed_high, signed_low).
     sbind (ns ''item'' (message_open L cells (attribute_region layout) (map_option mw_attribute_last wit))) (\<lambda>(item, item_digest).
     sbind (ns ''issuer key'' (point_alloc (map_option mw_issuer_key wit))) (\<lambda>issuer_key.
     sbind (ns ''Sig_structure digest bits'' (digest_bits L repr signed_high signed_low)) (\<lambda>digest.
     sbind (ns ''issuer signature'' (verify L K digest issuer_key (map_option mw_issuer_signature wit))) (\<lambda>_.
     sret (signed_msg, item, item_digest, issuer_key))))))"

definition birth_date_part ::
  "'f::field bellpepper \<Rightarrow> ('f \<Rightarrow> nat) \<Rightarrow> 'f Message \<Rightarrow> MdocWitness option \<Rightarrow> ('f Lc, 'f) synth" where
  "birth_date_part L repr item wit =
     sbind (ns ''element value'' (message_read L repr item (map_option mw_value_at wit) (length VALUE + 10))) (\<lambda>value.
     sbind (ns ''element value head'' (expect (take (length VALUE) (win_bytes value)) VALUE)) (\<lambda>_.
     let date = drop (length VALUE) (win_bytes value) in sret (decimal (map (\<lambda>i. date ! i) DATE_DIGITS))))"

definition device_key_part ::
  "'f::field bellpepper \<Rightarrow> ('f \<Rightarrow> nat) \<Rightarrow> 'f Message \<Rightarrow> MdocWitness option \<Rightarrow> ('f Point, 'f) synth" where
  "device_key_part L repr signed_msg wit =
    (let key_len = length DEVICE_KEY + 32 + length DEVICE_KEY_Y + 32;
         x_at = length DEVICE_KEY;
         y_at = x_at + 32 + length DEVICE_KEY_Y in
     sbind (ns ''device key'' (message_read L repr signed_msg (map_option mw_device_key_at wit) key_len)) (\<lambda>key.
     sbind (ns ''device key head'' (expect (take x_at (win_bytes key)) DEVICE_KEY)) (\<lambda>_.
     sbind (ns ''device key y head'' (expect (take (length DEVICE_KEY_Y) (drop (x_at + 32) (win_bytes key))) DEVICE_KEY_Y)) (\<lambda>_.
     sret \<lparr>px = pack_bytes (take 32 (drop x_at (win_bytes key))), py = pack_bytes (take 32 (drop y_at (win_bytes key)))\<rparr>))))"

definition age_part ::
  "'f::field bellpepper \<Rightarrow> ('f \<Rightarrow> nat) \<Rightarrow> 'f Constants \<Rightarrow> 'f Cells \<Rightarrow> MdocWitness option \<Rightarrow> Layout \<Rightarrow>
    ('f Message \<times> 'f Facts, 'f) synth" where
  "age_part L repr K cells wit layout =
     sbind (signed_part L repr K cells wit layout) (\<lambda>(signed_msg, item, item_digest, issuer_key).
     sbind (ns ''doc type'' (message_read L repr signed_msg (map_option mw_doc_type_at wit) (pw_len DOC_TYPE_WINDOW))) (\<lambda>doc_type.
     sbind (listed_digest L repr ''item'' signed_msg (map_option mw_digest_at wit) item_digest) (\<lambda>_.
     sbind (ns ''element identifier'' (message_read L repr item (map_option mw_identifier_at wit) (pw_len IDENTIFIER_WINDOW))) (\<lambda>identifier.
     sbind (birth_date_part L repr item wit) (\<lambda>birth_date.
     sbind (device_key_part L repr signed_msg wit) (\<lambda>device_key.
     sbind (ns ''valid from'' (date_time L repr signed_msg (map_option mw_valid_from_at wit) VALID_FROM)) (\<lambda>valid_from.
     sbind (ns ''valid until'' (date_time L repr signed_msg (map_option mw_valid_until_at wit) VALID_UNTIL)) (\<lambda>valid_until.
     sbind (ns ''type'' (window_slots L (win_bytes doc_type))) (\<lambda>type_slots.
     sbind (ns ''attribute'' (window_slots L (win_bytes identifier))) (\<lambda>attribute_slots.
     sret (signed_msg, \<lparr>fact_issuer_key = issuer_key, fact_birth_date = birth_date, fact_valid_from = valid_from,
       fact_valid_until = valid_until, fact_device_key = device_key, fact_windows = [type_slots, attribute_slots]\<rparr>)))))))))))"

definition nym_part ::
  "'f::field bellpepper \<Rightarrow> ('f \<Rightarrow> nat) \<Rightarrow> 'f Cells \<Rightarrow> 'f Message \<Rightarrow> MdocWitness option \<Rightarrow> Layout \<Rightarrow>
    ('f AllocatedNum list, 'f) synth" where
  "nym_part L repr cells signed_msg wit layout =
     sbind (of_result (ok_or Unsatisfiable (Layout.pseudonym layout))) (\<lambda>regions.
     sbind (of_result (case wit of None \<Rightarrow> Inr None
       | Some wt \<Rightarrow> rbind (ok_or AssignmentMissing (mw_nym wt)) (\<lambda>n. Inr (Some n)))) (\<lambda>n.
     sbind (ns ''ssc item'' (message_open L cells (ssc regions) (map_option mn_last n))) (\<lambda>(item, item_digest).
     sbind (listed_digest L repr ''ssc'' signed_msg (map_option mn_digest_at n) item_digest) (\<lambda>_.
     sbind (ns ''ssc identifier'' (message_read L repr item (map_option mn_identifier_at n) (length MDOC_IDENTIFIER))) (\<lambda>identifier.
     sbind (ns ''ssc identifier bytes'' (expect (win_bytes identifier) MDOC_IDENTIFIER)) (\<lambda>_.
     sbind (ns ''ssc value'' (message_read L repr item (map_option mn_value_at n) (length MDOC_VALUE + SSC_BYTES))) (\<lambda>value.
     let head = length MDOC_VALUE in
     sbind (ns ''ssc value head'' (expect (take head (win_bytes value)) MDOC_VALUE)) (\<lambda>_.
     commitment_and_slots L repr cells regions
       (pack_bytes (take 16 (drop head (win_bytes value))), pack_bytes (take 16 (drop (head + 16) (win_bytes value)))))))))))) "

section \<open>The core\<close>

record MdocCore =
  age_witness :: "MdocWitness option"
  age_presentation :: "Presentation option"

record MdocNymCore =
  core_witness :: "MdocWitness option"
  core_presentation :: "Presentation option"
  core_nym :: "NymPublic option"

definition blank :: MdocNymCore where
  "blank = \<lparr>core_witness = None, core_presentation = None, core_nym = None\<rparr>"

definition LAYOUT :: Layout where "LAYOUT = FULL_MDOC"

definition core_public_values :: "MdocNymCore \<Rightarrow> synth_error + 'f::field list" where
  "core_public_values core =
     rbind (ok_or AssignmentMissing (core_presentation core)) (\<lambda>presentation.
     rbind (ok_or AssignmentMissing (core_nym core)) (\<lambda>n.
     Inr (public_values Digits (pres_public presentation) @ nym_values n)))"

definition core_shared :: "'f::field bellpepper \<Rightarrow> MdocNymCore \<Rightarrow> ('f AllocatedNum list, 'f) synth" where
  "core_shared L core = ns ''table'' (allocate L (map_option mw_table (core_witness core)))"

definition core_precommitted ::
  "'f::field bellpepper \<Rightarrow> ('f \<Rightarrow> nat) \<Rightarrow> 'f Constants \<Rightarrow> MdocNymCore \<Rightarrow> 'f Cells \<Rightarrow> ('f AllocatedNum list, 'f) synth" where
  "core_precommitted L repr K core cells =
     sbind (age_part L repr K cells (core_witness core) FULL_MDOC) (\<lambda>(signed_msg, facts).
     sbind (ns ''facts'' (facts_into_slots L facts)) (\<lambda>slots.
     sbind (ns ''pseudonym'' (nym_part L repr cells signed_msg (core_witness core) FULL_MDOC)) (\<lambda>more.
     sret (slots @ more))))"

definition num_challenges :: nat where "num_challenges = 0"

definition core_synthesize ::
  "'f::field bellpepper \<Rightarrow> ('f \<Rightarrow> nat) \<Rightarrow> 'f Constants \<Rightarrow> MdocNymCore \<Rightarrow> 'f AllocatedNum list \<Rightarrow> (unit, 'f) synth" where
  "core_synthesize L repr K core facts =
    (let age = BASE_VALUES + pw_len (fst WINDOWS) + pw_len (snd WINDOWS) in
     if length facts \<noteq> age + VALUES then sfail AssignmentMissing
     else
       sbind (ns ''presentation'' (presentation_check L repr K (take age facts) (core_presentation core) Digits WINDOWS)) (\<lambda>_.
       ns ''pseudonym check'' (nym_check L (drop age facts) (core_nym core))))"

section \<open>What the precommitted rules force\<close>

definition occurs :: "'a list \<Rightarrow> 'a list \<Rightarrow> bool" where
  "occurs bs m \<longleftrightarrow> (\<exists>a b. m = a @ bs @ b)"

definition message_bytes :: "('f::field \<Rightarrow> nat) \<Rightarrow> (var \<Rightarrow> 'f) \<Rightarrow> 'f Cells \<Rightarrow> Region \<Rightarrow> nat \<Rightarrow> bytes" where
  "message_bytes repr w cells region l = table_bytes repr w cells (64 * first region) (64 * (l + 1))"

lemma occurs_table:
  assumes "off + n \<le> 64 * (l + 1)"
  shows "occurs (table_bytes repr w cells (64 * first region + off) n) (message_bytes repr w cells region l)"
proof -
  have "off + (n + (64 * (l + 1) - off - n)) = 64 * (l + 1)" using assms by simp
  then have "message_bytes repr w cells region l = table_bytes repr w cells (64 * first region) off
      @ table_bytes repr w cells (64 * first region + off) n
      @ table_bytes repr w cells (64 * first region + off + n) (64 * (l + 1) - off - n)"
    unfolding message_bytes_def table_bytes_append by simp
  then show ?thesis unfolding occurs_def by blast
qed

text \<open>A message that the rules opened: the selector of its last block and where its bytes are.\<close>

definition opened :: "(var \<Rightarrow> 'f::field) \<Rightarrow> 'f Cells \<Rightarrow> Region \<Rightarrow> nat \<Rightarrow> 'f Message \<Rightarrow> bool" where
  "opened w cells region l msg \<longleftrightarrow> msg_cells msg = cells \<and> msg_region msg = region \<and> blocks region \<le> POSITIONS \<and>
     hot_at w (msg_last msg) l \<and> length (hot_bits (msg_last msg)) = blocks region"

lemma sound_open:
  assumes "scalar_repr (repr :: 'f::field \<Rightarrow> nat)" "bellpepper_sound L" "assignment (w :: var \<Rightarrow> 'f)" "blocks region \<le> POSITIONS"
  shows "sound w (message_open L cells region last_index) (\<lambda>(msg, high, low). \<exists>l < blocks region. opened w cells region l msg \<and>
    lcv w high = lcv w (cells_state cells (first region + l) 0) \<and> lcv w low = lcv w (cells_state cells (first region + l) 1))"
  by (rule sound_mono [OF sound_message_open [OF assms]]) (use assms(4) in \<open>auto simp: opened_def\<close>)

lemma sound_read:
  assumes "scalar_repr (repr :: 'f::field \<Rightarrow> nat)" "bellpepper_sound L" "assignment (w :: var \<Rightarrow> 'f)"
    and "opened w cells region l msg" "len \<le> 2 ^ 64"
  shows "sound w (message_read L repr msg at_offset len) (\<lambda>win. \<exists>bs. length bs = len \<and> bytes_are w (win_bytes win) bs \<and>
    occurs bs (message_bytes repr w cells region l))"
proof -
  have o: "msg_cells msg = cells" "msg_region msg = region" "blocks (msg_region msg) \<le> POSITIONS" "hot_at w (msg_last msg) l"
    "length (hot_bits (msg_last msg)) = blocks (msg_region msg)"
    using assms(4) by (auto simp: opened_def)
  show ?thesis
  proof (rule sound_mono [OF sound_message_read [OF assms(1-3) o(3) assms(5) o(4,5)]], elim exE)
    fix win off assume "window_in repr w msg l len win off"
    then have "off + len \<le> 64 * (l + 1)"
      and b: "bytes_are w (win_bytes win) (table_bytes repr w cells (64 * first region + off) len)"
      using o(1,2) by (simp_all add: window_in_def)
    then show "\<exists>bs. length bs = len \<and> bytes_are w (win_bytes win) bs \<and> occurs bs (message_bytes repr w cells region l)"
      using occurs_table [of off len l repr w cells region] by (intro exI [of _ "table_bytes repr w cells (64 * first region + off) len"]) simp
  qed
qed

lemma sound_key:
  assumes "scalar_repr (repr :: 'f::field \<Rightarrow> nat)" "assignment (w :: var \<Rightarrow> 'f)" "bytes_are w as bs"
  shows "sound w (expect (take n (drop d as)) key) (\<lambda>_. take n (drop d bs) = key)"
  using sound_expect [OF assms(1,2) bytes_are_take [OF bytes_are_drop [OF assms(3)]]] .

lemma decimal_weights:
  "list_all2 (\<lambda>a b. lcv w a = of_nat (unat b)) as bs \<Longrightarrow> list_all is_ascii_digit bs \<Longrightarrow> assignment w \<Longrightarrow>
    lcv w (fst (fold (\<lambda>digit (sum, weight). (lc_add sum (lc_scale (lc_sub digit (lc_small 48)) weight), weight * 10)) as (s, c)))
      = lcv w s + c * of_nat (dec_val (rev bs))"
proof (induction as bs arbitrary: s c rule: list_all2_induct)
  case (Cons a as b bs)
  have b: "48 \<le> unat b" using Cons.prems(1) by (simp add: is_ascii_digit_def word_le_nat_alt)
  have "dec_val (rev (b # bs)) = 10 * dec_val (rev bs) + (unat b - 48)" by (simp add: dec_val_def)
  then show ?case
    using Cons b by (simp add: of_nat_diff algebra_simps)
qed (simp add: dec_val_def)

lemma lcv_decimal:
  "bytes_are w as bs \<Longrightarrow> list_all is_ascii_digit bs \<Longrightarrow> assignment w \<Longrightarrow> lcv w (decimal as) = of_nat (dec_val bs)"
  using decimal_weights [of w "rev as" "rev bs" lc_zero 1]
  by (simp add: decimal_def bytes_are_def list_all_iff)

definition digits_at :: "nat list \<Rightarrow> bytes \<Rightarrow> bytes" where
  "digits_at positions t = map (\<lambda>i. t ! i) positions"

lemma digits_are:
  assumes "bytes_are w as t" "list_all (\<lambda>i. i < length t) positions"
  shows "bytes_are w (map (\<lambda>i. as ! i) positions) (digits_at positions t)"
  using assms by (auto simp: bytes_are_def digits_at_def list_all2_conv_all_nth list_all_length)

text \<open>The value after a key: the bytes after \<open>key\<close> are \<open>t\<close>, and the digits at \<open>positions\<close> write \<open>x\<close>.\<close>

definition keyed_number :: "bytes \<Rightarrow> nat \<Rightarrow> nat list \<Rightarrow> bytes \<Rightarrow> 'f::field \<Rightarrow> bool" where
  "keyed_number key n positions m x \<longleftrightarrow> (\<exists>t. length t = n \<and> occurs (key @ t) m \<and>
     (list_all is_ascii_digit (digits_at positions t) \<longrightarrow> x = of_nat (dec_val (digits_at positions t))))"

lemma sound_keyed_number:
  assumes "scalar_repr (repr :: 'f::field \<Rightarrow> nat)" "bellpepper_sound L" "assignment (w :: var \<Rightarrow> 'f)"
    and "opened w cells region l msg" "length key + n \<le> 2 ^ 64" "list_all (\<lambda>i. i < n) positions"
  shows "sound w (sbind (ns name (message_read L repr msg at_offset (length key + n))) (\<lambda>window.
      sbind (ns name2 (expect (take (length key) (win_bytes window)) key)) (\<lambda>_.
      sret (decimal (map (\<lambda>i. drop (length key) (win_bytes window) ! i) positions)))))
    (\<lambda>r. keyed_number key n positions (message_bytes repr w cells region l) (lcv w r))"
proof (rule sound_sbind [OF sound_ns [OF sound_read [OF assms(1-5)]]], elim exE conjE)
  fix win bs assume bs: "length bs = length key + n" "bytes_are w (win_bytes win) bs" "occurs bs (message_bytes repr w cells region l)"
  note key = sound_key [OF assms(1,3) bs(2), of "length key" 0 key, unfolded drop_0]
  let ?t = "drop (length key) bs"
  have t: "bytes_are w (drop (length key) (win_bytes win)) ?t" "length ?t = n"
    using bytes_are_drop [OF bs(2)] bs(1) by simp_all
  have "bytes_are w (map (\<lambda>i. drop (length key) (win_bytes win) ! i) positions) (digits_at positions ?t)"
    by (rule digits_are [OF t(1)]) (use t(2) assms(6) in simp)
  note dec = lcv_decimal [OF this _ assms(3)]
  have found: "keyed_number key n positions (message_bytes repr w cells region l)
      (lcv w (decimal (map (\<lambda>i. drop (length key) (win_bytes win) ! i) positions)))"
    if "take (length key) bs = key"
    unfolding keyed_number_def using that t(2) dec bs(3) by (intro exI [of _ ?t]) (metis append_take_drop_id)
  show "sound w (sbind (ns name2 (expect (take (length key) (win_bytes win)) key)) (\<lambda>_.
      sret (decimal (map (\<lambda>i. drop (length key) (win_bytes win) ! i) positions))))
    (\<lambda>r. keyed_number key n positions (message_bytes repr w cells region l) (lcv w r))"
    by (rule sound_sbind [OF sound_ns [OF key]], rule sound_sret, rule found)
qed

lemma sound_date_time:
  assumes "scalar_repr (repr :: 'f::field \<Rightarrow> nat)" "bellpepper_sound L" "assignment (w :: var \<Rightarrow> 'f)"
    and "opened w cells region l msg" "length key \<le> 100"
  shows "sound w (date_time L repr msg at_offset key)
    (\<lambda>r. keyed_number key 20 DATE_TIME_DIGITS (message_bytes repr w cells region l) (lcv w r))"
  unfolding date_time_def Let_def
  by (rule sound_keyed_number [OF assms(1-4)]) (use assms(5) in \<open>simp_all add: DATE_TIME_DIGITS_def\<close>)

lemma sound_birth_date_part:
  assumes "scalar_repr (repr :: 'f::field \<Rightarrow> nat)" "bellpepper_sound L" "assignment (w :: var \<Rightarrow> 'f)"
    and "opened w cells region l msg"
  shows "sound w (birth_date_part L repr msg wit)
    (\<lambda>r. keyed_number VALUE 10 DATE_DIGITS (message_bytes repr w cells region l) (lcv w r))"
  unfolding birth_date_part_def Let_def
  by (rule sound_keyed_number [OF assms(1-4)]) (simp_all add: DATE_DIGITS_def VALUE_def)

text \<open>The device key that the signed message holds.\<close>

definition device_key_in :: "bytes \<Rightarrow> 'f::field \<Rightarrow> 'f \<Rightarrow> bool" where
  "device_key_in m x y \<longleftrightarrow> (\<exists>xb yb. length xb = 32 \<and> length yb = 32 \<and> occurs (DEVICE_KEY @ xb @ DEVICE_KEY_Y @ yb) m \<and>
     x = from_be xb \<and> y = from_be yb)"

lemma split_key:
  assumes "length bs = length k + 32 + length k2 + 32" "take (length k) bs = k"
    "take (length k2) (drop (length k + 32) bs) = k2"
  shows "bs = k @ take 32 (drop (length k) bs) @ k2 @ take 32 (drop (length k + 32 + length k2) bs)"
proof -
  let ?x = "drop (length k) bs" and ?y = "drop (length k + 32) bs" and ?z = "drop (length k + 32 + length k2) bs"
  have "bs = take (length k) bs @ ?x" "?x = take 32 ?x @ ?y" "?y = take (length k2) ?y @ ?z" "?z = take 32 ?z"
    using assms(1) append_take_drop_id [of 32 ?x] append_take_drop_id [of "length k2" ?y]
    by (simp_all add: add.commute add.left_commute)
  then show ?thesis using assms(2,3) by metis
qed

lemma sound_device_key_part:
  assumes "scalar_repr (repr :: 'f::field \<Rightarrow> nat)" "bellpepper_sound L" "assignment (w :: var \<Rightarrow> 'f)"
    and "opened w cells region l msg"
  shows "sound w (device_key_part L repr msg wit)
    (\<lambda>r. device_key_in (message_bytes repr w cells region l) (lcv w (px r)) (lcv w (py r)))"
  unfolding device_key_part_def Let_def
proof (rule sound_sbind [OF sound_ns [OF sound_read [OF assms]]], (simp add: DEVICE_KEY_def DEVICE_KEY_Y_def; fail), elim exE conjE)
  let ?k = "length DEVICE_KEY" and ?k2 = "length DEVICE_KEY_Y"
  fix win bs assume bs: "length bs = ?k + 32 + ?k2 + 32" "bytes_are w (win_bytes win) bs" "occurs bs (message_bytes repr w cells region l)"
  note key = sound_key [OF assms(1,3) bs(2), of ?k 0 DEVICE_KEY, unfolded drop_0] sound_key [OF assms(1,3) bs(2), of ?k2 "?k + 32" DEVICE_KEY_Y]
  have part: "lcv w (pack_bytes (take n (drop d (win_bytes win)))) = from_be (take n (drop d bs))" for n d
    using lcv_pack_bytes [OF bytes_are_take [OF bytes_are_drop [OF bs(2)]]] .
  have found: "device_key_in (message_bytes repr w cells region l) (from_be (take 32 (drop ?k bs))) (from_be (take 32 (drop (?k + 32 + ?k2) bs)))"
    if "take ?k bs = DEVICE_KEY" "take ?k2 (drop (?k + 32) bs) = DEVICE_KEY_Y"
    unfolding device_key_in_def
    by (intro exI [of _ "take 32 (drop ?k bs)"] exI [of _ "take 32 (drop (?k + 32 + ?k2) bs)"] conjI refl)
       (use split_key [OF bs(1) that] bs in simp_all)
  show "sound w (sbind (ns ''device key head'' (expect (take ?k (win_bytes win)) DEVICE_KEY)) (\<lambda>_.
     sbind (ns ''device key y head'' (expect (take ?k2 (drop (?k + 32) (win_bytes win))) DEVICE_KEY_Y)) (\<lambda>_.
     sret \<lparr>px = pack_bytes (take 32 (drop ?k (win_bytes win))), py = pack_bytes (take 32 (drop (?k + 32 + ?k2) (win_bytes win)))\<rparr>)))
     (\<lambda>r. device_key_in (message_bytes repr w cells region l) (lcv w (px r)) (lcv w (py r)))"
    by (rule sound_sbind [OF sound_ns [OF key(1)]], rule sound_sbind [OF sound_ns [OF key(2)]], rule sound_sret, unfold Point.simps part, rule found)
qed

lemma sound_listed_digest:
  assumes "scalar_repr (repr :: 'f::field \<Rightarrow> nat)" "bellpepper_sound L" "assignment (w :: var \<Rightarrow> 'f)"
    and "opened w cells region l msg"
  shows "sound w (listed_digest L repr name msg at_offset (high, low)) (\<lambda>_. \<exists>d. length d = 32 \<and>
    occurs (DIGEST @ d) (message_bytes repr w cells region l) \<and>
    lcv w high = from_be (take 16 d) \<and> lcv w low = from_be (drop 16 d))"
  unfolding listed_digest_def
proof (rule sound_sbind [OF sound_ns [OF sound_read [OF assms]]], simp, elim exE conjE)
  fix win bs assume bs: "length bs = 34" "bytes_are w (win_bytes win) bs" "occurs bs (message_bytes repr w cells region l)"
  note key = sound_key [OF assms(1,3) bs(2), of 2 0 DIGEST, unfolded drop_0]
  let ?d = "drop 2 bs"
  have half: "lcv w (pack_bytes (take 16 (drop (2 + 16 * h) (win_bytes win)))) = from_be (take 16 (drop (16 * h) ?d))" for h
    using lcv_pack_bytes [OF bytes_are_take [OF bytes_are_drop [OF bs(2)]]] by (simp add: add.commute)
  let ?halves = "smap (\<lambda>(h, half_digest). ns (name @ '' digest half '' @ show_nat h)
         (equal (pack_bytes (take 16 (drop (2 + 16 * h) (win_bytes win)))) half_digest)) [(0, fst (high, low)), (1, snd (high, low))]"
  have halves: "sound w ?halves (list_all2 (\<lambda>(h, x) _. from_be (take 16 (drop (16 * h) ?d)) = lcv w x) [(0, high), (1, low)])"
    unfolding fst_conv snd_conv
    by (rule sound_smap, unfold split_paired_all prod.case, rule sound_ns, rule sound_mono [OF sound_equal [OF assms(3)]])
       (simp only: half)
  have found: "\<exists>d. length d = 32 \<and> occurs (DIGEST @ d) (message_bytes repr w cells region l) \<and>
      lcv w high = from_be (take 16 d) \<and> lcv w low = from_be (drop 16 d)"
    if "take 2 bs = DIGEST" "list_all2 (\<lambda>(h, x) _. from_be (take 16 (drop (16 * h) ?d)) = lcv w x) [(0, high), (1, low)] (us :: unit list)" for us
    using that bs(1,3) append_take_drop_id [of 2 bs] by (intro exI [of _ ?d]) (auto simp: list_all2_Cons1 numeral_2_eq_2)
  show "sound w (sbind (ns (name @ '' digest head'') (expect (take 2 (win_bytes win)) DIGEST)) (\<lambda>_. sbind ?halves (\<lambda>_. sret ())))
      (\<lambda>_. \<exists>d. length d = 32 \<and> occurs (DIGEST @ d) (message_bytes repr w cells region l) \<and>
        lcv w high = from_be (take 16 d) \<and> lcv w low = from_be (drop 16 d))"
    by (rule sound_sbind [OF sound_ns [OF key]], rule sound_sbind [OF halves], rule sound_sret, rule found)
qed

section \<open>The facts of a credential\<close>

text \<open>
  \<open>issuer_signed\<close>: the state after the last block of the signed message, as two halves, is a digest
  that the issuer key signed. \<open>credential_facts\<close>: what the facts say of the bytes in the table.
\<close>

definition state_is :: "(var \<Rightarrow> 'f::field) \<Rightarrow> 'f Cells \<Rightarrow> nat \<Rightarrow> nat \<Rightarrow> bool" where
  "state_is w cells j d \<longleftrightarrow> (\<exists>hi < 2 ^ 128. \<exists>lo < 2 ^ 128. d = hi * 2 ^ 128 + lo \<and>
     lcv w (cells_state cells j 0) = of_nat hi \<and> lcv w (cells_state cells j 1) = of_nat lo)"

definition issuer_signed :: "('g::ab_group_add, 'f::field) curve \<Rightarrow> (var \<Rightarrow> 'f) \<Rightarrow> 'f Cells \<Rightarrow> nat \<Rightarrow> 'f Point \<Rightarrow> bool" where
  "issuer_signed C w cells j key \<longleftrightarrow> (\<exists>d. state_is w cells j d \<and>
     (\<forall>Q. point_is C w key Q \<longrightarrow> (\<exists>r s_inv. ecdsa_accepts C Q d r s_inv)))"

definition item_listed :: "(var \<Rightarrow> 'f::field) \<Rightarrow> 'f Cells \<Rightarrow> nat \<Rightarrow> bytes \<Rightarrow> bool" where
  "item_listed w cells j m \<longleftrightarrow> (\<exists>d. length d = 32 \<and> occurs (DIGEST @ d) m \<and>
     lcv w (cells_state cells j 0) = from_be (take 16 d) \<and> lcv w (cells_state cells j 1) = from_be (drop 16 d))"

definition credential_facts ::
  "('g::ab_group_add, 'f::field) curve \<Rightarrow> ('f \<Rightarrow> nat) \<Rightarrow> (var \<Rightarrow> 'f) \<Rightarrow> 'f Cells \<Rightarrow> Layout \<Rightarrow> nat \<Rightarrow> nat \<Rightarrow>
    'f Facts \<Rightarrow> bytes \<Rightarrow> bytes \<Rightarrow> bool" where
  "credential_facts C repr w cells layout ls li facts tb ab \<longleftrightarrow>
    (let m = message_bytes repr w cells (signed_region layout) ls; item = message_bytes repr w cells (attribute_region layout) li in
     ls < blocks (signed_region layout) \<and> li < blocks (attribute_region layout) \<and>
     issuer_signed C w cells (first (signed_region layout) + ls) (fact_issuer_key facts) \<and>
     length tb = pw_len DOC_TYPE_WINDOW \<and> occurs tb m \<and>
     item_listed w cells (first (attribute_region layout) + li) m \<and>
     length ab = pw_len IDENTIFIER_WINDOW \<and> occurs ab item \<and>
     keyed_number VALUE 10 DATE_DIGITS item (lcv w (fact_birth_date facts)) \<and>
     device_key_in m (lcv w (px (fact_device_key facts))) (lcv w (py (fact_device_key facts))) \<and>
     keyed_number VALID_FROM 20 DATE_TIME_DIGITS m (lcv w (fact_valid_from facts)) \<and>
     keyed_number VALID_UNTIL 20 DATE_TIME_DIGITS m (lcv w (fact_valid_until facts)) \<and>
     (\<exists>type_slots attribute_slots. fact_windows facts = [type_slots, attribute_slots] \<and>
       bytes_are w (map lc_num type_slots) tb \<and> bytes_are w (map lc_num attribute_slots) ab))"

lemma sound_issuer_signature:
  assumes L: "bellpepper_sound L" and w: "assignment (w :: var \<Rightarrow> 'f::field)" and C: "curve_law C"
    and K: "constants_of C K A offsets" "constants_regular C A offsets"
    and high: "lcv w high = lcv w (cells_state cells j 0)" and low: "lcv w low = lcv w (cells_state cells j 1)"
    and Q: "\<And>x. issuer_signed C w cells j key \<Longrightarrow> sound w (k x) Q"
  shows "sound w (sbind (ns n1 (digest_bits L repr high low)) (\<lambda>digest. sbind (ns n2 (verify L K digest key signature)) k)) Q"
proof (rule sound_sbind [OF sound_ns [OF sound_digest_bits [OF L w]]], elim exE conjE)
  fix bs hi lo
  assume bs: "bs = hi @ lo" "length hi = 128" "length lo = 128" "list_all (is_bit w) bs"
    and v: "lcv w high = of_nat (bin_val (bvals w hi))" "lcv w low = of_nat (bin_val (bvals w lo))"
  have "bin_val (bvals w hi) < 2 ^ 128" "bin_val (bvals w lo) < 2 ^ 128"
    using bin_val_less [of "bvals w hi"] bin_val_less [of "bvals w lo"] bs(2,3) by simp_all
  then have d: "state_is w cells j (bin_val (bvals w bs))"
    unfolding state_is_def using v high low bs
    by (intro exI [of _ "bin_val (bvals w hi)"] exI [of _ "bin_val (bvals w lo)"]) (simp add: bin_val_append)
  have "sound w (verify L K bs key signature) (\<lambda>_. \<forall>P. point_is C w key P \<longrightarrow> (\<exists>r s_inv. ecdsa_accepts C P (bin_val (bvals w bs)) r s_inv))"
    by (rule sound_all_imp, rule sound_verify [OF L C w K bs(4)])
  then have "sound w (verify L K bs key signature) (\<lambda>_. issuer_signed C w cells j key)"
    by (rule sound_mono) (use d in \<open>auto simp: issuer_signed_def\<close>)
  note signed = sound_ns [OF this]
  show "sound w (sbind (ns n2 (verify L K bs key signature)) k) Q"
    by (rule sound_sbind [OF signed]) (rule Q)
qed

lemma sound_signed_part:
  assumes repr: "scalar_repr (repr :: 'f::field \<Rightarrow> nat)" and L: "bellpepper_sound L" and w: "assignment (w :: var \<Rightarrow> 'f)"
    and C: "curve_law C" and K: "constants_of C K A offsets" "constants_regular C A offsets"
    and regions: "blocks (signed_region layout) \<le> POSITIONS" "blocks (attribute_region layout) \<le> POSITIONS"
  shows "sound w (signed_part L repr K cells wit layout) (\<lambda>(signed_msg, item, (high, low), key). \<exists>ls li.
    ls < blocks (signed_region layout) \<and> li < blocks (attribute_region layout) \<and>
    opened w cells (signed_region layout) ls signed_msg \<and> opened w cells (attribute_region layout) li item \<and>
    issuer_signed C w cells (first (signed_region layout) + ls) key \<and>
    lcv w high = lcv w (cells_state cells (first (attribute_region layout) + li) 0) \<and>
    lcv w low = lcv w (cells_state cells (first (attribute_region layout) + li) 1))"
  unfolding signed_part_def
  by (rule sound_sbind [OF sound_ns [OF sound_open [OF repr L w regions(1)]]], unfold split_paired_all prod.case, elim exE conjE,
      rule sound_sbind [OF sound_ns [OF sound_open [OF repr L w regions(2)]]], unfold split_paired_all prod.case, elim exE conjE,
      rule sound_sbind [OF sound_True], rule sound_issuer_signature [OF L w C K], assumption, assumption, rule sound_sret) auto

lemma sound_age_part:
  assumes repr: "scalar_repr (repr :: 'f::field \<Rightarrow> nat)" and L: "bellpepper_sound L" and w: "assignment (w :: var \<Rightarrow> 'f)"
    and C: "curve_law C" and K: "constants_of C K A offsets" "constants_regular C A offsets"
    and regions: "blocks (signed_region layout) \<le> POSITIONS" "blocks (attribute_region layout) \<le> POSITIONS"
  shows "sound w (age_part L repr K cells wit layout) (\<lambda>(signed_msg, facts). \<exists>ls li tb ab.
    opened w cells (signed_region layout) ls signed_msg \<and> credential_facts C repr w cells layout ls li facts tb ab)"
  unfolding age_part_def
proof (rule sound_sbind [OF sound_signed_part [OF repr L w C K regions]], unfold split_paired_all prod.case, elim exE conjE)
  fix m item high low key ls li
  assume *: "ls < blocks (signed_region layout)" "li < blocks (attribute_region layout)"
    and o: "opened w cells (signed_region layout) ls m" "opened w cells (attribute_region layout) li item"
    and s: "issuer_signed C w cells (first (signed_region layout) + ls) key"
    and d: "lcv w high = lcv w (cells_state cells (first (attribute_region layout) + li) 0)"
      "lcv w low = lcv w (cells_state cells (first (attribute_region layout) + li) 1)"
  have lens: "pw_len DOC_TYPE_WINDOW \<le> 2 ^ 64" "pw_len IDENTIFIER_WINDOW \<le> 2 ^ 64" "length VALID_FROM \<le> 100" "length VALID_UNTIL \<le> 100"
    by (simp_all add: DOC_TYPE_WINDOW_def IDENTIFIER_WINDOW_def VALID_FROM_def VALID_UNTIL_def)
  let ?m = "message_bytes repr w cells (signed_region layout) ls" and ?i = "message_bytes repr w cells (attribute_region layout) li"
  have goal: "\<exists>ls li tb ab. opened w cells (signed_region layout) ls m \<and> credential_facts C repr w cells layout ls li
      \<lparr>fact_issuer_key = key, fact_birth_date = birth, fact_valid_from = from, fact_valid_until = until, fact_device_key = device,
       fact_windows = [ts, as]\<rparr> tb ab"
    if "bytes_are w (map lc_num ts) tb" "bytes_are w (map lc_num as) ab" "length tb = pw_len DOC_TYPE_WINDOW" "occurs tb ?m"
      "length ab = pw_len IDENTIFIER_WINDOW" "occurs ab ?i" "item_listed w cells (first (attribute_region layout) + li) ?m"
      "keyed_number VALUE 10 DATE_DIGITS ?i (lcv w birth)" "device_key_in ?m (lcv w (px device)) (lcv w (py device))"
      "keyed_number VALID_FROM 20 DATE_TIME_DIGITS ?m (lcv w from)" "keyed_number VALID_UNTIL 20 DATE_TIME_DIGITS ?m (lcv w until)"
    for birth "from" until device ts as tb ab
    by (rule exI [of _ ls], rule exI [of _ li], rule exI [of _ tb], rule exI [of _ ab])
       (use that o * s in \<open>simp add: credential_facts_def Let_def\<close>)
  have listed: "sound w (listed_digest L repr ''item'' m (map_option mw_digest_at wit) (high, low))
      (\<lambda>_. item_listed w cells (first (attribute_region layout) + li) ?m)"
    by (rule sound_mono [OF sound_listed_digest [OF repr L w o(1)]]) (use d in \<open>auto simp: item_listed_def\<close>)
  note rd = sound_read [OF repr L w]
  show "sound w (sbind (ns ''doc type'' (message_read L repr m (map_option mw_doc_type_at wit) (pw_len DOC_TYPE_WINDOW))) (\<lambda>doc_type.
     sbind (listed_digest L repr ''item'' m (map_option mw_digest_at wit) (high, low)) (\<lambda>_.
     sbind (ns ''element identifier'' (message_read L repr item (map_option mw_identifier_at wit) (pw_len IDENTIFIER_WINDOW))) (\<lambda>identifier.
     sbind (birth_date_part L repr item wit) (\<lambda>birth_date.
     sbind (device_key_part L repr m wit) (\<lambda>device_key.
     sbind (ns ''valid from'' (date_time L repr m (map_option mw_valid_from_at wit) VALID_FROM)) (\<lambda>valid_from.
     sbind (ns ''valid until'' (date_time L repr m (map_option mw_valid_until_at wit) VALID_UNTIL)) (\<lambda>valid_until.
     sbind (ns ''type'' (window_slots L (win_bytes doc_type))) (\<lambda>type_slots.
     sbind (ns ''attribute'' (window_slots L (win_bytes identifier))) (\<lambda>attribute_slots.
     sret (m, \<lparr>fact_issuer_key = key, fact_birth_date = birth_date, fact_valid_from = valid_from,
       fact_valid_until = valid_until, fact_device_key = device_key, fact_windows = [type_slots, attribute_slots]\<rparr>)))))))))))
    (\<lambda>(signed_msg, facts). \<exists>ls li tb ab.
      opened w cells (signed_region layout) ls signed_msg \<and> credential_facts C repr w cells layout ls li facts tb ab)"
    by (rule sound_sbind [OF sound_ns [OF rd [OF o(1) lens(1)]]], elim exE conjE,
        rule sound_sbind [OF listed],
        rule sound_sbind [OF sound_ns [OF rd [OF o(2) lens(2)]]], elim exE conjE,
        rule sound_sbind [OF sound_birth_date_part [OF repr L w o(2)]],
        rule sound_sbind [OF sound_device_key_part [OF repr L w o(1)]],
        rule sound_sbind [OF sound_ns [OF sound_date_time [OF repr L w o(1) lens(3)]]],
        rule sound_sbind [OF sound_ns [OF sound_date_time [OF repr L w o(1) lens(4)]]],
        rule sound_sbind [OF sound_ns [OF sound_window_slots [OF w]]], assumption,
        rule sound_sbind [OF sound_ns [OF sound_window_slots [OF w]]], assumption, rule sound_sret, unfold prod.case, rule goal)
qed

text \<open>
  \<open>nym_facts\<close>: the \<open>ssc\<close> item is listed in the signed message, its value is the digest of the seed's
  block, and the pseudonym's blocks hold that seed.
\<close>

definition nym_facts ::
  "('f::field \<Rightarrow> nat) \<Rightarrow> (var \<Rightarrow> 'f) \<Rightarrow> 'f Cells \<Rightarrow> PseudonymRegions \<Rightarrow> bytes \<Rightarrow> nat \<Rightarrow> bytes \<Rightarrow> bool" where
  "nym_facts repr w cells regions m l secret \<longleftrightarrow>
    (let item = message_bytes repr w cells (ssc regions) l in
     l < blocks (ssc regions) \<and> item_listed w cells (first (ssc regions) + l) m \<and> occurs MDOC_IDENTIFIER item \<and>
     (\<exists>c. length c = 32 \<and> occurs (MDOC_VALUE @ c) item \<and>
       lcv w (cells_state cells (first (seed regions)) 0) = from_be (take 16 c) \<and>
       lcv w (cells_state cells (first (seed regions)) 1) = from_be (drop 16 c)) \<and>
     nym_blocks repr w cells regions secret)"

lemma sound_nym_part:
  assumes repr: "scalar_repr (repr :: 'f::field \<Rightarrow> nat)" and L: "bellpepper_sound L" and w: "assignment (w :: var \<Rightarrow> 'f)"
    and small: "chunks_small w cells" and m: "opened w cells region ls m"
    and regions: "Layout.pseudonym layout = Some regions" "blocks (ssc regions) \<le> POSITIONS"
  shows "sound w (nym_part L repr cells m wit layout) (\<lambda>slots. nym_slots w cells regions slots \<and>
    (\<exists>l secret. nym_facts repr w cells regions (message_bytes repr w cells region ls) l secret))"
  unfolding nym_part_def regions(1) Let_def
proof (rule sound_sbind [where R = "\<lambda>r. r = regions"], rule sound_of_result, simp add: ok_or_def, hypsubst,
    rule sound_sbind [OF sound_True], rule sound_sbind [OF sound_ns [OF sound_open [OF repr L w regions(2)]]],
    unfold split_paired_all prod.case, elim exE conjE)
  fix n item high low l
  assume l: "l < blocks (ssc regions)" and o: "opened w cells (ssc regions) l item"
    and d: "lcv w high = lcv w (cells_state cells (first (ssc regions) + l) 0)" "lcv w low = lcv w (cells_state cells (first (ssc regions) + l) 1)"
  let ?m = "message_bytes repr w cells region ls" and ?i = "message_bytes repr w cells (ssc regions) l" and ?h = "length MDOC_VALUE"
  have listed: "sound w (listed_digest L repr ''ssc'' m (map_option mn_digest_at n) (high, low))
      (\<lambda>_. item_listed w cells (first (ssc regions) + l) ?m)"
    by (rule sound_mono [OF sound_listed_digest [OF repr L w m]]) (use d in \<open>auto simp: item_listed_def\<close>)
  have lens: "length MDOC_IDENTIFIER \<le> 2 ^ 64" "length MDOC_VALUE + SSC_BYTES \<le> 2 ^ 64"
    by (simp_all add: MDOC_IDENTIFIER_def MDOC_VALUE_def SSC_BYTES_def)
  have ssc_value: "sound w (sbind (ns ''ssc value head'' (expect (take ?h (win_bytes win)) MDOC_VALUE)) (\<lambda>_.
      commitment_and_slots L repr cells regions
       (pack_bytes (take 16 (drop ?h (win_bytes win))), pack_bytes (take 16 (drop (?h + 16) (win_bytes win))))))
      (\<lambda>slots. nym_slots w cells regions slots \<and> (\<exists>l secret. nym_facts repr w cells regions ?m l secret))"
    if id: "occurs MDOC_IDENTIFIER ?i" "item_listed w cells (first (ssc regions) + l) ?m"
      and bs: "length bs = ?h + SSC_BYTES" "bytes_are w (win_bytes win) bs" "occurs bs ?i" for win bs
  proof -
    note key = sound_key [OF repr w bs(2), of ?h 0 MDOC_VALUE, unfolded drop_0]
    have part: "lcv w (pack_bytes (take k (drop j (win_bytes win)))) = from_be (take k (drop j bs))" for k j
      using lcv_pack_bytes [OF bytes_are_take [OF bytes_are_drop [OF bs(2)]]] .
    have found: "nym_slots w cells regions slots \<and> (\<exists>l secret. nym_facts repr w cells regions ?m l secret)"
      if "take ?h bs = MDOC_VALUE" and c: "nym_slots w cells regions slots \<and> (\<exists>secret. nym_blocks repr w cells regions secret) \<and>
        lcv w (cells_state cells (first (seed regions)) 0) = lcv w (fst (pack_bytes (take 16 (drop ?h (win_bytes win))), pack_bytes (take 16 (drop (?h + 16) (win_bytes win))))) \<and>
        lcv w (cells_state cells (first (seed regions)) 1) = lcv w (snd (pack_bytes (take 16 (drop ?h (win_bytes win))), pack_bytes (take 16 (drop (?h + 16) (win_bytes win)))))" for slots
    proof -
      have "occurs (MDOC_VALUE @ drop ?h bs) ?i" using that(1) bs(3) append_take_drop_id [of ?h bs] by simp
      moreover have "take 16 (drop (?h + 16) bs) = drop 16 (drop ?h bs)" using bs(1) by (simp add: SSC_BYTES_def add.commute)
      ultimately show ?thesis
        using c bs(1) id l unfolding fst_conv snd_conv part nym_facts_def Let_def
        by (auto simp: SSC_BYTES_def intro!: exI [of _ l] exI [of _ "drop ?h bs"])
    qed
    show ?thesis
      by (rule sound_sbind [OF sound_ns [OF key]], rule sound_mono [OF sound_commitment_and_slots [OF repr L w small]], rule found)
  qed
  have ident: "sound w (expect (win_bytes win) MDOC_IDENTIFIER) (\<lambda>_. bs = MDOC_IDENTIFIER)" if "bytes_are w (win_bytes win) bs" for win bs
    using sound_expect [OF repr w that] .
  show "sound w (sbind (listed_digest L repr ''ssc'' m (map_option mn_digest_at n) (high, low)) (\<lambda>_.
     sbind (ns ''ssc identifier'' (message_read L repr item (map_option mn_identifier_at n) (length MDOC_IDENTIFIER))) (\<lambda>identifier.
     sbind (ns ''ssc identifier bytes'' (expect (win_bytes identifier) MDOC_IDENTIFIER)) (\<lambda>_.
     sbind (ns ''ssc value'' (message_read L repr item (map_option mn_value_at n) (length MDOC_VALUE + SSC_BYTES))) (\<lambda>value.
     sbind (ns ''ssc value head'' (expect (take ?h (win_bytes value)) MDOC_VALUE)) (\<lambda>_.
     commitment_and_slots L repr cells regions
       (pack_bytes (take 16 (drop ?h (win_bytes value))), pack_bytes (take 16 (drop (?h + 16) (win_bytes value))))))))))
    (\<lambda>slots. nym_slots w cells regions slots \<and> (\<exists>l secret. nym_facts repr w cells regions ?m l secret))"
    by (rule sound_sbind [OF listed], rule sound_sbind [OF sound_ns [OF sound_read [OF repr L w o lens(1)]]], elim exE conjE,
        rule sound_sbind [OF sound_ns [OF ident]], assumption, hypsubst,
        rule sound_sbind [OF sound_ns [OF sound_read [OF repr L w o lens(2)]]], elim exE conjE, rule ssc_value)
qed

section \<open>The whole core\<close>

lemma keeps_prod_arg [keeps_intros]: "(\<And>x y. keeps (h x y z)) \<Longrightarrow> keeps ((case p of (x, y) \<Rightarrow> h x y) z)"
  by (cases p) auto

lemma keeps_prod_args [keeps_intros]: "(\<And>x y u. keeps (h x y u z)) \<Longrightarrow> keeps ((case p of (x, y, u) \<Rightarrow> h x y u) z)"
  by (cases p) auto

lemma keeps_hot [keeps_intros]:
  "bellpepper_inputs L \<Longrightarrow> keeps (one_hot_alloc L n i)" "keeps (hot_select h entries)"
  unfolding one_hot_alloc_def hot_select_def select_step_def by (intro keeps_intros; (assumption | simp))+

lemma keeps_message [keeps_intros]:
  assumes L: "bellpepper_inputs L"
  shows "keeps (message_open L cells region last_index)" "keeps (message_read L repr msg at_offset len)"
proof -
  show "keeps (message_open L cells region last_index)" unfolding message_open_def by (intro keeps_intros L)
  have stage: "keeps (shift_stage len x window)" for x and window :: "'a Lc list"
    unfolding shift_stage_def by (intro keeps_intros)
  have native: "keeps (read_values repr msg a len n)" for a n
    unfolding read_values_def Let_def by (intro keeps_intros)
  show "keeps (message_read L repr msg at_offset len)"
    unfolding message_read_def read_reached_def read_chunks_def Let_def by (intro keeps_intros stage native L)
qed

lemma keeps_point_alloc [keeps_intros]: "keeps (point_alloc key)"
  unfolding point_alloc_def by (intro keeps_intros)

lemma keeps_parts [keeps_intros]:
  assumes "bellpepper_inputs L"
  shows "keeps (date_time L repr m at_offset key)" "keeps (listed_digest L repr name m at_offset d)"
    "keeps (signed_part L repr K cells wit layout)" "keeps (birth_date_part L repr m wit)" "keeps (device_key_part L repr m wit)"
  unfolding date_time_def listed_digest_def signed_part_def birth_date_part_def device_key_part_def Let_def
  by (intro keeps_intros assms)+

lemma keeps_core_precommitted [keeps_intros]: "bellpepper_inputs L \<Longrightarrow> keeps (core_precommitted L repr K core cells)"
  unfolding core_precommitted_def age_part_def nym_part_def facts_into_slots_def window_slots_def
    commitment_and_slots_def seed_and_nym_def nym_into_slots_def Let_def
  by (intro keeps_intros)

text \<open>
  \<open>core_facts\<close>: the slots that the precommitted segment hands on. Seven numbers, the two windows'
  bytes and the five values of the pseudonym's blocks.
\<close>

definition core_facts ::
  "('g::ab_group_add, 'f::field) curve \<Rightarrow> ('f \<Rightarrow> nat) \<Rightarrow> (var \<Rightarrow> 'f) \<Rightarrow> 'f Cells \<Rightarrow> 'f Facts \<Rightarrow> bytes \<Rightarrow> bytes \<Rightarrow> bytes \<Rightarrow> bool" where
  "core_facts C repr w cells facts tb ab secret \<longleftrightarrow> (\<exists>ls li l.
     credential_facts C repr w cells FULL_MDOC ls li facts tb ab \<and>
     nym_facts repr w cells FULL_REGIONS (message_bytes repr w cells (signed_region FULL_MDOC) ls) l secret)"

definition core_slots :: "(var \<Rightarrow> 'f::field) \<Rightarrow> 'f Cells \<Rightarrow> 'f Facts \<Rightarrow> bytes \<Rightarrow> bytes \<Rightarrow> 'f AllocatedNum list \<Rightarrow> bool" where
  "core_slots w cells facts tb ab slots \<longleftrightarrow> (\<exists>seven ts as five. slots = seven @ ts @ as @ five \<and>
     map (\<lambda>x. w (num_var x)) seven = map (\<lambda>(name, l). lcv w l) (facts_named facts) \<and>
     bytes_are w (map lc_num ts) tb \<and> bytes_are w (map lc_num as) ab \<and> nym_slots w cells FULL_REGIONS five)"

lemma full_mdoc_regions:
  "blocks (signed_region FULL_MDOC) \<le> POSITIONS" "blocks (attribute_region FULL_MDOC) \<le> POSITIONS"
  "Layout.pseudonym FULL_MDOC = Some FULL_REGIONS" "blocks (ssc FULL_REGIONS) \<le> POSITIONS"
  by (simp_all add: FULL_MDOC_def FULL_REGIONS_def POSITIONS_def)

lemma sound_core_precommitted:
  assumes repr: "scalar_repr (repr :: 'f::field \<Rightarrow> nat)" and L: "bellpepper_sound L" and w: "assignment (w :: var \<Rightarrow> 'f)"
    and C: "curve_law C" and K: "constants_of C K A offsets" "constants_regular C A offsets" and small: "chunks_small w cells"
  shows "sound w (core_precommitted L repr K core cells) (\<lambda>slots. \<exists>facts tb ab secret.
    core_facts C repr w cells facts tb ab secret \<and> core_slots w cells facts tb ab slots)"
  unfolding core_precommitted_def
proof (rule sound_sbind [OF sound_age_part [OF repr L w C K full_mdoc_regions(1,2)]], unfold split_paired_all prod.case, elim exE conjE)
  fix m facts ls li tb ab
  assume m: "opened w cells (signed_region FULL_MDOC) ls m" and f: "credential_facts C repr w cells FULL_MDOC ls li facts tb ab"
  have goal: "\<exists>facts tb ab secret. core_facts C repr w cells facts tb ab secret \<and> core_slots w cells facts tb ab (slots @ more)"
    if "slots = seven @ concat (fact_windows facts)" "map (\<lambda>x. w (num_var x)) seven = map (\<lambda>(name, l). lcv w l) (facts_named facts)"
      "nym_slots w cells FULL_REGIONS more" "nym_facts repr w cells FULL_REGIONS (message_bytes repr w cells (signed_region FULL_MDOC) ls) l secret"
    for seven slots more l secret
  proof (intro exI conjI)
    show "core_facts C repr w cells facts tb ab secret" unfolding core_facts_def using f that(4) by blast
    from f obtain ts as where "fact_windows facts = [ts, as]" "bytes_are w (map lc_num ts) tb" "bytes_are w (map lc_num as) ab"
      unfolding credential_facts_def Let_def by blast
    then show "core_slots w cells facts tb ab (slots @ more)"
      unfolding core_slots_def using that(1-3) by (intro exI [of _ seven] exI [of _ ts] exI [of _ as] exI [of _ more]) simp
  qed
  show "sound w (sbind (ns ''facts'' (facts_into_slots L facts)) (\<lambda>slots.
      sbind (ns ''pseudonym'' (nym_part L repr cells m (core_witness core) FULL_MDOC)) (\<lambda>more. sret (slots @ more))))
      (\<lambda>slots. \<exists>facts tb ab secret. core_facts C repr w cells facts tb ab secret \<and> core_slots w cells facts tb ab slots)"
    by (rule sound_sbind [OF sound_ns [OF sound_facts_into_slots [OF w]]], elim exE conjE,
        rule sound_sbind [OF sound_ns [OF sound_nym_part [OF repr L w small m full_mdoc_regions(3,4)]]], elim exE conjE,
        rule sound_sret, rule goal)
qed

text \<open>
  \<open>statement_holds\<close>: what the core proves to a verifier with public values \<open>p\<close> and \<open>n\<close>, of the table's
  bytes and states.
\<close>

definition statement_holds ::
  "('g::ab_group_add, 'f::field) curve \<Rightarrow> ('f \<Rightarrow> nat) \<Rightarrow> (var \<Rightarrow> 'f) \<Rightarrow> 'f Cells \<Rightarrow> Public \<Rightarrow> NymPublic \<Rightarrow> bool" where
  "statement_holds C repr w cells p n \<longleftrightarrow> (\<exists>facts tb ab secret.
     core_facts C repr w cells facts tb ab secret \<and>
     presented C Digits p (map (\<lambda>(name, l). lcv w l) (facts_named facts)) tb ab \<and>
     table_bytes repr w cells (64 * first (nym FULL_REGIONS)) 128 = pad (nym_message secret (np_verifier_input n)) \<and>
     lcv w (cells_state cells (first (nym FULL_REGIONS) + 1) 0) = from_be (take 16 (np_pseudonym n)) \<and>
     lcv w (cells_state cells (first (nym FULL_REGIONS) + 1) 1) = from_be (drop 16 (np_pseudonym n)))"

lemma sound_at_core_rest:
  assumes repr: "scalar_repr (repr :: 'f::field \<Rightarrow> nat)" and L: "bellpepper_sound L" "bellpepper_inputs L"
    and w: "assignment (w :: var \<Rightarrow> 'f)" and C: "curve_law C" and K: "constants_of C K A offsets" "constants_regular C A offsets"
    and p: "public_ok Digits p" "length (np_verifier_input n) = 32"
    and windows: "WINDOWS = (pat_window (credential_type (pub_request p)), pat_window (attribute (pub_request p)))"
    and public: "\<And>j. j < length (public_values Digits p @ nym_values n :: 'f list) \<Longrightarrow>
      w (Input (i + j)) = (public_values Digits p @ nym_values n) ! j"
    and f: "core_facts C repr w cells facts tb ab secret" "core_slots w cells facts tb ab slots"
  shows "sound_at w i (core_synthesize L repr K core slots)
    (i + length (public_values Digits p @ nym_values n :: 'f list)) (\<lambda>_. statement_holds C repr w cells p n)"
proof -
  from f(2) obtain seven ts as five where slots: "slots = seven @ ts @ as @ five"
    and seven: "map (\<lambda>x. w (num_var x)) seven = map (\<lambda>(name, l). lcv w l) (facts_named facts)"
    and b: "bytes_are w (map lc_num ts) tb" "bytes_are w (map lc_num as) ab" and five: "nym_slots w cells FULL_REGIONS five"
    unfolding core_slots_def by blast
  have "length seven = 7" using arg_cong [OF seven, of length] by (simp add: facts_named_def)
  moreover have "length ts = pw_len (fst WINDOWS)" "length as = pw_len (snd WINDOWS)"
    using f(1) b by (auto simp: core_facts_def credential_facts_def Let_def bytes_are_def WINDOWS_def dest!: list_all2_lengthD)
  ultimately have lens: "length seven = 7" "length ts = pw_len (fst WINDOWS)" "length as = pw_len (snd WINDOWS)" by simp_all
  let ?age = "BASE_VALUES + pw_len (fst WINDOWS) + pw_len (snd WINDOWS)"
  have parts: "take ?age slots = seven @ ts @ as" "drop ?age slots = five"
    using lens by (simp_all add: slots BASE_VALUES_def)
  have nym5: "length (nym_values n :: 'f list) = 5" by (simp add: nym_values_def verifier_values_def)
  have pub1: "w (Input (i + j)) = public_values Digits p ! j" if "j < length (public_values Digits p :: 'f list)" for j
    using public [of j] that by (simp add: nth_append)
  have pub2: "w (Input (i + length (public_values Digits p :: 'f list) + j)) = nym_values n ! j" if "j < 5" for j
    using public [of "length (public_values Digits p :: 'f list) + j"] that nym5 by (simp add: nth_append add.assoc)
  have tb: "bytes_are w (map lc_num (take (pw_len (fst WINDOWS)) (drop 7 (seven @ ts @ as)))) tb"
    "bytes_are w (map lc_num (drop (pw_len (fst WINDOWS)) (drop 7 (seven @ ts @ as)))) ab"
    using b lens by simp_all
  have seven': "map (\<lambda>x. w (num_var x)) (take 7 (seven @ ts @ as)) = map (\<lambda>(name, l). lcv w l) (facts_named facts)"
    using lens seven by simp
  note presentation = sound_at_ns [OF sound_at_presentation_check [OF repr L w C K p(1) windows pub1 tb], unfolded seven']
  note nym_rules = sound_at_ns [OF sound_at_nym_check [OF L(2) w pub2]]
  have goal: "statement_holds C repr w cells p n"
    if "presented C Digits p (map (\<lambda>(name, l). lcv w l) (facts_named facts)) tb ab"
      "map (\<lambda>x. w (num_var x)) five = [nym_values n ! 0, nym_values n ! 1, two_72 * (nym_values n ! 2) + last_chunk_padding,
        nym_values n ! 3, nym_values n ! 4]"
  proof -
    have "nym_blocks repr w cells FULL_REGIONS secret" using f(1) by (auto simp: core_facts_def nym_facts_def Let_def)
    note nym = nym_message_blocks [OF repr this five p(2) that(2)]
    show ?thesis unfolding statement_holds_def using f(1) that(1) nym by blast
  qed
  have len: "i + length (public_values Digits p @ nym_values n :: 'f list) = i + length (public_values Digits p :: 'f list) + 5"
    using nym5 by simp
  show "sound_at w i (core_synthesize L repr K core slots) (i + length (public_values Digits p @ nym_values n :: 'f list))
      (\<lambda>_. statement_holds C repr w cells p n)"
    unfolding core_synthesize_def Let_def parts len
    by (split if_split, intro conjI impI sound_at_sfail, rule sound_at_sbind [OF presentation], assumption,
        rule sound_at_mono [OF nym_rules], assumption, rule goal)
qed

text \<open>Both segments, also under the namespaces that the prover opens for them.\<close>

lemma sound_at_core:
  assumes repr: "scalar_repr (repr :: 'f::field \<Rightarrow> nat)" and L: "bellpepper_sound L" "bellpepper_inputs L"
    and w: "assignment (w :: var \<Rightarrow> 'f)" and C: "curve_law C" and K: "constants_of C K A offsets" "constants_regular C A offsets"
    and small: "chunks_small w cells" and p: "public_ok Digits p" "length (np_verifier_input n) = 32"
    and windows: "WINDOWS = (pat_window (credential_type (pub_request p)), pat_window (attribute (pub_request p)))"
    and public: "\<And>j. j < length (public_values Digits p @ nym_values n :: 'f list) \<Longrightarrow>
      w (Input (i + j)) = (public_values Digits p @ nym_values n) ! j"
  shows "sound_at w i (sbind (core_precommitted L repr K core cells) (core_synthesize L repr K core))
      (i + length (public_values Digits p @ nym_values n :: 'f list)) (\<lambda>_. statement_holds C repr w cells p n)"
    and "sound_at w i (sbind (ns a (core_precommitted L repr K core cells)) (\<lambda>slots. ns b (core_synthesize L repr K core slots)))
      (i + length (public_values Digits p @ nym_values n :: 'f list)) (\<lambda>_. statement_holds C repr w cells p n)"
proof -
  note pre = sound_at_keeps [OF sound_core_precommitted [OF repr L(1) w C K small] keeps_core_precommitted [OF L(2)]]
  note rest = sound_at_core_rest [OF repr L w C K p windows public]
  show "sound_at w i (sbind (core_precommitted L repr K core cells) (core_synthesize L repr K core))
      (i + length (public_values Digits p @ nym_values n :: 'f list)) (\<lambda>_. statement_holds C repr w cells p n)"
    by (rule sound_at_sbind [OF pre], elim exE conjE, rule rest)
  show "sound_at w i (sbind (ns a (core_precommitted L repr K core cells)) (\<lambda>slots. ns b (core_synthesize L repr K core slots)))
      (i + length (public_values Digits p @ nym_values n :: 'f list)) (\<lambda>_. statement_holds C repr w cells p n)"
    by (rule sound_at_sbind [OF sound_at_ns [OF pre]], elim exE conjE, rule sound_at_ns, rule rest)
qed

section \<open>Properties\<close>

lemma window_at_text:
  assumes found: "find_at 0 bs key = Some k" and rest: "drop (k + length key) bs = head @ t @ post" "text_head (length t) = Inr head"
  shows "window_at bs key len what =
    (let stop = k + length key + length head + length t in if stop < len then Inl (NearStart what len) else Inr (stop - len))"
proof -
  have k: "k + length key \<le> length bs" using find_at_Some [OF found] by simp
  have stop: "k + length key + (length head + length t) \<le> length bs"
    using arg_cong [OF rest(1), of length] k by simp
  have at_i: "bs ! (k + length key + i) = (head @ t @ post) ! i" for i
    using k rest(1) nth_drop [of "k + length key" bs i] by simp
  have sub: "find_in bs key what = Inr k" by (simp add: find_in_def find_bytes_def found ok_or_def)
  show ?thesis
  proof (cases "length t < 24")
    case True
    then have h: "head = [0x60 + word_of_nat (length t)]" using rest(2) by (simp add: text_head_def)
    have u: "unat (0x60 + word_of_nat (length t) :: byte) = 0x60 + length t"
      using True by (simp add: unat_add_lem [THEN iffD1] unat_of_nat unat_word_ariths)
    then have "0x60 \<le> (0x60 + word_of_nat (length t) :: byte)" "(0x60 + word_of_nat (length t) :: byte) < 0x78"
      "unat (0x60 + word_of_nat (length t) - 0x60 :: byte) = length t"
      using True by (simp_all add: word_le_nat_alt word_less_nat_alt unat_of_nat)
    then show ?thesis using sub stop at_i [of 0] h by (simp add: window_at_def Let_def)
  next
    case False
    then have n: "length t < 256" and h: "head = [0x78, word_of_nat (length t)]" using rest(2) by (auto simp: text_head_def split: if_splits)
    have "unat (word_of_nat (length t) :: byte) = length t" using n by (simp add: unat_of_nat)
    then show ?thesis using sub stop at_i [of 0] at_i [of 1] h by (simp add: window_at_def Let_def)
  qed
qed

text \<open>
  The prover's window and the verifier's pattern agree. If the document type's text follows the first
  occurrence of its key and a pattern can be built for that text, then \<open>window_at\<close> finds the window, unless it
  would start before the message, and the window's bytes end in the pattern's bytes.
\<close>

theorem window_ends_in_pattern:
  assumes "find_at 0 bs DOC_TYPE_KEY = Some k" "pattern_doc_type t = Inr p"
    and "text_head (length t) = Inr head" "drop (k + length DOC_TYPE_KEY) bs = head @ t @ post"
    and "pw_len DOC_TYPE_WINDOW \<le> k + length DOC_TYPE_KEY + length head + length t"
  shows "\<exists>s. window_at bs DOC_TYPE_KEY (pw_len DOC_TYPE_WINDOW) what = Inr s \<and>
    at_its_end p (take (pw_len DOC_TYPE_WINDOW) (drop s bs))"
proof -
  let ?len = "pw_len DOC_TYPE_WINDOW" and ?pat = "DOC_TYPE_KEY @ head @ t"
  have p: "pat_window p = DOC_TYPE_WINDOW" "pat_bytes p = ?pat" "length ?pat \<le> ?len"
    using assms(2,3) pattern_new_ok [of DOC_TYPE_WINDOW ?pat p] by (auto simp: pattern_doc_type_def pattern_ok_def)
  have k: "k + length DOC_TYPE_KEY \<le> length bs" "take (length DOC_TYPE_KEY) (drop k bs) = DOC_TYPE_KEY"
    using find_at_Some [OF assms(1)] by simp_all
  have at_k: "drop k bs = ?pat @ post"
    using append_take_drop_id [of "length DOC_TYPE_KEY" "drop k bs"] k(2) assms(4) by (simp add: add.commute)
  let ?s = "k + length ?pat - ?len"
  have "take ?len (drop ?s bs) = take (?len - length ?pat) (drop ?s bs) @ take (length ?pat) (drop (?s + (?len - length ?pat)) bs)"
    using take_add [of "?len - length ?pat" "length ?pat" "drop ?s bs"] p(3) by (simp add: add.commute)
  moreover have "?s + (?len - length ?pat) = k" using p(3) assms(5) by simp
  ultimately have win: "take ?len (drop ?s bs) = take (?len - length ?pat) (drop ?s bs) @ ?pat" using at_k by simp
  have "?len - length ?pat \<le> length (drop ?s bs)" using k(1) p(3) assms(5) by simp
  then have "at_its_end p (take ?len (drop ?s bs))"
    unfolding win using p by (simp add: at_its_end_def DOC_TYPE_WINDOW_def)
  moreover have "window_at bs DOC_TYPE_KEY ?len what = Inr ?s"
    using window_at_text [OF assms(1,4,3), of ?len what] assms(5) by (simp add: Let_def add.assoc)
  ultimately show ?thesis by blast
qed

theorem window_ends_in_pattern_witness:
  "\<exists>p s. pattern_doc_type (ascii ''mdl'') = Inr p \<and>
     window_at (replicate 60 0 @ DOC_TYPE_KEY @ [0x63] @ ascii ''mdl'' @ [1]) DOC_TYPE_KEY (pw_len DOC_TYPE_WINDOW) ''docType'' = Inr s \<and>
     at_its_end p (take (pw_len DOC_TYPE_WINDOW) (drop s (replicate 60 0 @ DOC_TYPE_KEY @ [0x63] @ ascii ''mdl'' @ [1])))"
proof -
  let ?bs = "replicate 60 0 @ DOC_TYPE_KEY @ [0x63] @ ascii ''mdl'' @ [1] :: bytes"
  have skip: "find_at i (replicate n 0 @ xs) (p # ps) = find_at (i + n) xs (p # ps)" if "p \<noteq> 0" for i n and xs ps :: bytes and p
    using that by (induction n arbitrary: i) auto
  have f: "find_at 0 ?bs DOC_TYPE_KEY = Some 60" unfolding DOC_TYPE_KEY_def ascii_def by (subst skip) simp_all
  have h: "text_head (length (ascii ''mdl'')) = Inr [0x63]" by (simp add: text_head_def ascii_def)
  obtain p where p: "pattern_doc_type (ascii ''mdl'') = Inr p"
    by (simp add: pattern_doc_type_def text_head_def pattern_new_def DOC_TYPE_WINDOW_def DOC_TYPE_KEY_def window_fixed_def ascii_def)
  have d: "drop (60 + length DOC_TYPE_KEY) ?bs = [0x63] @ ascii ''mdl'' @ [1]" by (simp add: DOC_TYPE_KEY_def ascii_def)
  have "pw_len DOC_TYPE_WINDOW \<le> 60 + length DOC_TYPE_KEY + length [0x63 :: byte] + length (ascii ''mdl'')"
    by (simp add: DOC_TYPE_WINDOW_def)
  from window_ends_in_pattern [OF f p h d this] p show ?thesis by blast
qed

text \<open>
  What the core proves: if the rules of the precommitted and of the rest segment hold, over a table whose
  chunks are below \<open>2^128\<close>, and the public inputs are the verifier's values, then there are a credential and
  a seed in the table such that the issuer signed the state after the message, the item's digest is listed
  there, the facts are read beside their keys and satisfy the verifier's request, the \<open>ssc\<close> item commits to
  the seed's digest, and the pseudonym's blocks hold the padded message of that seed and the verifier's input.
\<close>

theorem core_rules_sound:
  assumes "scalar_repr (repr :: 'f::field \<Rightarrow> nat)" "bellpepper_sound L" "bellpepper_inputs L"
    and "assignment (w :: var \<Rightarrow> 'f)" "curve_law C" "constants_of C K A offsets" "constants_regular C A offsets"
    and "chunks_small w cells" "public_ok Digits p" "length (np_verifier_input n) = 32"
    and "WINDOWS = (pat_window (credential_type (pub_request p)), pat_window (attribute (pub_request p)))"
    and "\<And>j. j < length (public_values Digits p @ nym_values n :: 'f list) \<Longrightarrow>
      w (Input (i + j)) = (public_values Digits p @ nym_values n) ! j"
  shows "sound_at w i (sbind (core_precommitted L repr K core cells) (core_synthesize L repr K core))
    (i + length (public_values Digits p @ nym_values n :: 'f list)) (\<lambda>_. statement_holds C repr w cells p n)"
  using assms by (rule sound_at_core(1))

definition mdoc_public :: Public where
  "mdoc_public = some_public\<lparr>pub_request := \<lparr>credential_type = \<lparr>pat_window = DOC_TYPE_WINDOW, pat_bytes = DOC_TYPE_KEY @ [0x60]\<rparr>,
     attribute = \<lparr>pat_window = IDENTIFIER_WINDOW, pat_bytes = IDENTIFIER_KEY @ [0x60]\<rparr>\<rparr>\<rparr>"

definition some_nym :: NymPublic where
  "some_nym = \<lparr>np_verifier_input = replicate 32 0, np_pseudonym = replicate 32 0\<rparr>"

definition mdoc_assignment :: "var \<Rightarrow> rat" where
  "mdoc_assignment v = (case v of Input k \<Rightarrow> (1 # public_values Digits mdoc_public @ nym_values some_nym) ! k | Aux _ \<Rightarrow> 0)"

definition zero_cells :: "rat Cells" where
  "zero_cells = replicate 194 \<lparr>num_var = Aux 0, num_value = None\<rparr>"

lemma mdoc_public_ok: "public_ok Digits mdoc_public"
  using some_public_ok
  by (simp add: public_ok_def mdoc_public_def pattern_ok_def born_from_digits_def DOC_TYPE_KEY_def IDENTIFIER_KEY_def
      DOC_TYPE_WINDOW_def IDENTIFIER_WINDOW_def window_fixed_def window_ok_def)

lemma zero_cells_small: "chunks_small mdoc_assignment zero_cells"
proof -
  have "lcv mdoc_assignment (cells_chunk zero_cells c) = 0" for c
  proof (cases "c < CHUNKS_PER_BLOCK * POSITIONS")
    case True
    then have "c div 4 < 32" "c mod 4 < 4" by (simp_all add: CHUNKS_PER_BLOCK_def POSITIONS_def)
    then have "6 * (c div 4) + c mod 4 < 194" by linarith
    then show ?thesis
      using True by (simp add: cells_chunk_def zero_cells_def CHUNKS_PER_BLOCK_def CELLS_PER_POSITION_def mdoc_assignment_def)
  qed (simp add: cells_chunk_def)
  then show ?thesis unfolding chunks_small_def by (intro allI exI [of _ 0]) simp
qed

theorem core_rules_sound_witness:
  "\<exists>K. sound_at mdoc_assignment 1
     (sbind (core_precommitted plain_bellpepper rat_repr K blank zero_cells) (core_synthesize plain_bellpepper rat_repr K blank))
     (1 + length (public_values Digits mdoc_public @ nym_values some_nym :: rat list))
     (\<lambda>_. statement_holds three_curve rat_repr mdoc_assignment zero_cells mdoc_public some_nym)"
proof -
  obtain K offsets where K: "constants_of three_curve K Plus offsets" "constants_regular three_curve Plus offsets"
    using three_constants by blast
  have w: "assignment mdoc_assignment" by (simp add: assignment_def mdoc_assignment_def)
  have n: "length (np_verifier_input some_nym) = 32" by (simp add: some_nym_def)
  have win: "WINDOWS = (pat_window (credential_type (pub_request mdoc_public)), pat_window (attribute (pub_request mdoc_public)))"
    by (simp add: WINDOWS_def mdoc_public_def)
  have public: "mdoc_assignment (Input (1 + j)) = (public_values Digits mdoc_public @ nym_values some_nym) ! j" for j
    by (simp add: mdoc_assignment_def)
  from core_rules_sound [OF scalar_repr_rat plain_bellpepper_sound plain_bellpepper_inputs w three_curve_law K
      zero_cells_small mdoc_public_ok n win public, where core = blank]
  show ?thesis by blast
qed

end
