(* ===== verification/Step.thy ===== *)
theory Step
  imports Mdoc
begin

text \<open>
  The step circuit (\<open>step.rs\<close>): one SHA-256 compression per position of the table, read through the
  one-hot selector whose index is the public position. The compression gadget of \<open>bellpepper\<close> and its
  \<open>UInt32\<close> are parameters, the record \<open>sha_gadget\<close>, with \<open>gadget_sound\<close> what the crate documents of
  them. If the rules of all instances hold, every position of the table is one link of a hash chain
  (\<open>linked\<close>).
\<close>

section \<open>The step circuit\<close>

record ('u, 'f) sha_gadget =
  sha256_compression_function :: "'f Boolean list \<Rightarrow> 'u list \<Rightarrow> ('u list, 'f) synth"
  from_bits_be :: "'f Boolean list \<Rightarrow> 'u"
  into_bits_be :: "'u \<Rightarrow> 'f Boolean list"

record 'f Segment =
  seg_private :: "'f list"
  seg_public :: "'f list"

record 'f Instance =
  inst_precommitted :: "'f Segment"
  inst_rest :: "'f Segment"
  inst_public :: "'f list"

record Step =
  step_position :: nat
  step_table :: "Table option"
  step_layout :: Layout

definition blank_in :: "Layout \<Rightarrow> nat \<Rightarrow> Step" where
  "blank_in layout pos = \<lparr>step_position = pos, step_table = None, step_layout = layout\<rparr>"

definition step_new :: "nat \<Rightarrow> Table \<Rightarrow> Step" where
  "step_new pos table = \<lparr>step_position = pos, step_table = Some table, step_layout = tlayout table\<rparr>"

text \<open>The values of one compression, in the order of the rules; \<open>None\<close> is the panic of \<open>sha256::compression\<close>.\<close>

definition selected_bytes :: "('f::field \<Rightarrow> nat) \<Rightarrow> nat \<Rightarrow> nat \<Rightarrow> (nat \<Rightarrow> 'f) \<Rightarrow> 'f list \<times> bytes \<Rightarrow> 'f list \<times> bytes" where
  "selected_bytes repr n index entry = (\<lambda>(vs, bs).
    (let (vs, v) = select_values vs n index entry; b = low_bytes repr v in (byte_bits vs b, bs @ b)))"

definition compression_values ::
  "('f::field \<Rightarrow> nat) \<Rightarrow> 'f list \<Rightarrow> Table \<Rightarrow> Layout \<Rightarrow> nat \<Rightarrow> nat \<Rightarrow> u32 list option \<Rightarrow> ('f list \<times> bytes \<times> u32 list) option" where
  "compression_values repr vs table layout index k before =
    (let n = instances layout; pos = (\<lambda>i. per_instance layout * i + k);
         (vs, block) = fold (\<lambda>c. selected_bytes repr n index (\<lambda>i. chunk_value table (CHUNKS_PER_BLOCK * pos i + c)))
           [0..<CHUNKS_PER_BLOCK] (vs, []);
         (vs, state) = (case before of
             Some words \<Rightarrow> (vs, words)
           | None \<Rightarrow> (let (vs, state) = fold (\<lambda>h. selected_bytes repr n index (\<lambda>i. state_before_value table layout (pos i) h))
               [0..<2] (vs, []) in (vs, be_words 8 state)))
     in map_option (\<lambda>(vs, after).
          (fold (\<lambda>h vs. fst (select_values vs n index (\<lambda>i. state_value table (pos i) h))) [0..<2] vs, block, after))
        (compression vs (be_words 16 block) state))"

fun compressions :: "('f::field \<Rightarrow> nat) \<Rightarrow> Table \<Rightarrow> Layout \<Rightarrow> nat \<Rightarrow> nat list \<Rightarrow> 'f list \<Rightarrow> u32 list option \<Rightarrow> 'f list option" where
  "compressions repr table layout index [] vs result = Some vs"
| "compressions repr table layout index (k # ks) vs result =
    (case compression_values repr vs table layout index k result of
       None \<Rightarrow> None
     | Some (vs, block, words) \<Rightarrow> compressions repr table layout index ks vs (Some words))"

definition precommitted_values :: "('f::field \<Rightarrow> nat) \<Rightarrow> Step \<Rightarrow> synth_error + 'f list" where
  "precommitted_values repr step =
    (let layout = step_layout step in
     rbind (ok_or AssignmentMissing (step_table step)) (\<lambda>table.
     ok_or Panicked (compressions repr table layout (step_position step) [0..<per_instance layout]
       (one_hot_values [] (instances layout) (step_position step)) None)))"

definition step_assignment :: "('f::field \<Rightarrow> nat) \<Rightarrow> Step \<Rightarrow> synth_error + 'f Instance" where
  "step_assignment repr step =
    (let pos = of_nat (step_position step) in
     rbind (precommitted_values repr step) (\<lambda>vs.
     Inr \<lparr>inst_precommitted = \<lparr>seg_private = vs, seg_public = [pos]\<rparr>, inst_rest = \<lparr>seg_private = [], seg_public = []\<rparr>, inst_public = [pos]\<rparr>))"

text \<open>The rules of one compression.\<close>

definition select_bits ::
  "'f::field bellpepper \<Rightarrow> ('f \<Rightarrow> nat) \<Rightarrow> 'f OneHot \<Rightarrow> string \<Rightarrow> 'f Lc list \<Rightarrow> ('f Boolean list, 'f) synth" where
  "select_bits L repr selector name entries =
     sbind (ns name (hot_select selector entries)) (\<lambda>v. ns (name @ '' bits'') (bits L repr v 128))"

definition step_compression ::
  "('u, 'f::field) sha_gadget \<Rightarrow> 'f bellpepper \<Rightarrow> ('f \<Rightarrow> nat) \<Rightarrow> 'f Cells \<Rightarrow> Layout \<Rightarrow> 'f OneHot \<Rightarrow> nat \<Rightarrow> 'u list option \<Rightarrow>
    ('f Boolean list \<times> 'u list, 'f) synth" where
  "step_compression G L repr cells layout selector k before =
    (let positions = map (\<lambda>i. per_instance layout * i + k) [0..<instances layout] in
     sbind (smap (\<lambda>c. select_bits L repr selector (''chunk '' @ show_nat c)
         (map (\<lambda>j. cells_chunk cells (CHUNKS_PER_BLOCK * j + c)) positions)) [0..<CHUNKS_PER_BLOCK]) (\<lambda>chunk_bits.
     let block = concat chunk_bits in
     sbind (case before of
         Some words \<Rightarrow> sret words
       | None \<Rightarrow> sbind (smap (\<lambda>h. select_bits L repr selector (''state before half '' @ show_nat h)
             (map (\<lambda>j. cells_state_before cells layout j h) positions)) [0..<2]) (\<lambda>halves.
           sret (map (from_bits_be G) (chunks 32 (concat halves))))) (\<lambda>words.
     sbind (ns ''compression'' (sha256_compression_function G block words)) (\<lambda>words.
     let after = concat (map (into_bits_be G) words) in
     sbind (smap (\<lambda>h.
         sbind (ns (''state after half '' @ show_nat h) (hot_select selector (map (\<lambda>j. cells_state cells j h) positions))) (\<lambda>half.
         ns (''state after half '' @ show_nat h @ '' matches'') (equal (pack (take 128 (drop (128 * h) after))) half))) [0..<2]) (\<lambda>_.
     sret (block, words))))))"

definition step_public_values :: "Step \<Rightarrow> 'f::field list" where
  "step_public_values step = [of_nat (step_position step)]"

definition step_shared :: "'f::field bellpepper \<Rightarrow> Step \<Rightarrow> ('f AllocatedNum list, 'f) synth" where
  "step_shared L step = ns ''table'' (allocate L (step_table step))"

definition step_precommitted ::
  "('u, 'f::field) sha_gadget \<Rightarrow> 'f bellpepper \<Rightarrow> ('f \<Rightarrow> nat) \<Rightarrow> Step \<Rightarrow> 'f Cells \<Rightarrow> ('f AllocatedNum list, 'f) synth" where
  "step_precommitted G L repr step cells =
     sbind is_witness_generator (\<lambda>witness.
     if witness then
       sbind (extend_inputs [of_nat (step_position step)]) (\<lambda>_.
       sbind (of_result (precommitted_values repr step)) (\<lambda>vs.
       sbind (extend_aux vs) (\<lambda>_. sret [])))
     else
       let layout = step_layout step in
       sbind (ns ''position'' (alloc_input_num L (Inr (of_nat (step_position step))))) (\<lambda>pos.
       sbind (ns ''selector'' (one_hot_alloc L (instances layout) (Some (step_position step)))) (\<lambda>selector.
       sbind (ns ''selected position'' (equal (hot_index selector) (lc_num pos))) (\<lambda>_.
       sbind (sfold (\<lambda>k result. ns (''compression '' @ show_nat k)
           (sbind (step_compression G L repr cells layout selector k result) (\<lambda>(block, words). sret (Some words))))
         [0..<per_instance layout] None) (\<lambda>_. sret [])))))"

definition step_num_challenges :: nat where "step_num_challenges = 0"

definition step_synthesize :: "Step \<Rightarrow> 'f::field AllocatedNum list \<Rightarrow> (unit, 'f) synth" where
  "step_synthesize step facts = sret ()"

section \<open>Bits, bytes and words\<close>

lemma bits_bytes_append: "length as = 8 * n \<Longrightarrow> bits_bytes (as @ bs) = bits_bytes as @ bits_bytes bs"
  by (simp add: bits_bytes_def chunks_append_mult [of 8 as n])

lemma length_bits_bytes: "length bs = 8 * n \<Longrightarrow> length (bits_bytes bs) = n"
  using be_val_bits_bytes [of bs n] by simp

lemma bits_bytes_take: "length bs = 8 * n \<Longrightarrow> bits_bytes (take (8 * m) bs) = take m (bits_bytes bs)"
proof (cases "m \<le> n")
  case True
  assume "length bs = 8 * n"
  then have "length (take (8 * m) bs) = 8 * m" using True by simp
  then show ?thesis
    using bits_bytes_append [of "take (8 * m) bs" m "drop (8 * m) bs"] length_bits_bytes [of "take (8 * m) bs" m] by simp
qed (simp add: length_bits_bytes)

lemma bits_bytes_drop: "length bs = 8 * n \<Longrightarrow> bits_bytes (drop (8 * m) bs) = drop m (bits_bytes bs)"
proof (cases "m \<le> n")
  case True
  assume "length bs = 8 * n"
  then have "length (take (8 * m) bs) = 8 * m" using True by simp
  then show ?thesis
    using bits_bytes_append [of "take (8 * m) bs" m "drop (8 * m) bs"] length_bits_bytes [of "take (8 * m) bs" m] by simp
qed (simp add: bits_bytes_def length_chunks)

lemma bits_bytes_slice:
  assumes "length bs = 8 * n"
  shows "take m (drop k (bits_bytes bs)) = bits_bytes (take (8 * m) (drop (8 * k) bs))"
proof -
  have "length (drop (8 * k) bs) = 8 * (n - k)" using assms by simp
  then show ?thesis using bits_bytes_take bits_bytes_drop [OF assms, of k] by metis
qed

lemma from_be_slice:
  assumes "length bs = 8 * n" "k + m \<le> n"
  shows "from_be (take m (drop k (bits_bytes bs))) = of_nat (bin_val (take (8 * m) (drop (8 * k) bs)))"
proof -
  have "length (take (8 * m) (drop (8 * k) bs)) = 8 * m" using assms by simp
  then show ?thesis using bits_bytes_slice [OF assms(1)] be_val_bits_bytes by (simp add: from_be_def)
qed

lemma be_words_bits:
  assumes "length bs = 32 * n"
  shows "be_words n (bits_bytes bs) = map (\<lambda>i. word_of_nat (bin_val (take 32 (drop (32 * i) bs)))) [0..<n]"
proof -
  have "be_val (take 4 (drop (4 * i) (bits_bytes bs))) = bin_val (take 32 (drop (32 * i) bs))" if "i < n" for i
  proof -
    have "length bs = 8 * (4 * n)" "length (take 32 (drop (32 * i) bs)) = 8 * 4" using assms that by simp_all
    then show ?thesis using bits_bytes_slice [of bs "4 * n" 4 "4 * i"] be_val_bits_bytes [of "take 32 (drop (32 * i) bs)" 4] by simp
  qed
  then show ?thesis by (simp add: be_words_def)
qed

lemma word_bits_bytes:
  assumes "length bs = 32"
  shows "be_bytes 4 (unat (word_of_nat (bin_val bs) :: u32)) = bits_bytes bs"
proof -
  have "bin_val bs < 2 ^ 32" using bin_val_less [of bs] assms by simp
  then have "unat (word_of_nat (bin_val bs) :: u32) = bin_val bs" by (simp add: unat_of_nat)
  moreover have "bin_val bs = be_val (bits_bytes bs)" "length (bits_bytes bs) = 4" using be_val_bits_bytes [of bs 4] assms by simp_all
  ultimately show ?thesis using be_bytes_be_val by metis
qed

lemma words_to_bytes_bits:
  "list_all (\<lambda>bs. length bs = 32) bss \<Longrightarrow>
    words_to_bytes (map (\<lambda>bs. word_of_nat (bin_val bs)) bss) = bits_bytes (concat bss)"
proof (induction bss)
  case (Cons b bss)
  then show ?case
    using bits_bytes_append [of b 4 "concat bss"] word_bits_bytes [of b] by (simp add: words_to_bytes_def)
qed (simp_all add: words_to_bytes_def bits_bytes_def)

lemma chunks_slices: "0 < k \<Longrightarrow> length xs = k * n \<Longrightarrow> chunks k xs = map (\<lambda>i. take k (drop (k * i) xs)) [0..<n]"
proof (induction n arbitrary: xs)
  case (Suc n)
  have "xs \<noteq> []" using Suc.prems by auto
  moreover have "chunks k (drop k xs) = map (\<lambda>i. take k (drop (k * Suc i) xs)) [0..<n]"
    using Suc.IH [of "drop k xs"] Suc.prems by (simp add: add.commute)
  ultimately show ?case
    using Suc.prems(1) by (simp add: chunks_rec upt_conv_Cons map_Suc_upt [symmetric] del: upt_Suc map_Suc_upt)
qed simp

section \<open>What the rules force\<close>

definition uint32_ok :: "('u, 'f::field) sha_gadget \<Rightarrow> (var \<Rightarrow> 'f) \<Rightarrow> 'u \<Rightarrow> bool" where
  "uint32_ok G w u \<longleftrightarrow> length (into_bits_be G u) = 32 \<and> list_all (is_bit w) (into_bits_be G u)"

definition uint32_value :: "('u, 'f::field) sha_gadget \<Rightarrow> (var \<Rightarrow> 'f) \<Rightarrow> 'u \<Rightarrow> u32" where
  "uint32_value G w u = word_of_nat (bin_val (bvals w (into_bits_be G u)))"

text \<open>What the crate documents of its gadget: the words that it returns are the compression of the block.\<close>

definition gadget_sound :: "('u, 'f::field) sha_gadget \<Rightarrow> bool" where
  "gadget_sound G \<longleftrightarrow>
     (\<forall>bs. length bs = 32 \<longrightarrow> into_bits_be G (from_bits_be G bs) = bs) \<and>
     (\<forall>w block words. assignment w \<longrightarrow> length block = 512 \<longrightarrow> list_all (is_bit w) block \<longrightarrow>
        length words = 8 \<longrightarrow> list_all (uint32_ok G w) words \<longrightarrow>
        sound w (sha256_compression_function G block words) (\<lambda>r. length r = 8 \<and> list_all (uint32_ok G w) r \<and>
          map (uint32_value G w) r = fips_compress (be_words 16 (bits_bytes (bvals w block))) (map (uint32_value G w) words)))"

definition gadget_keeps :: "('u, 'f::field) sha_gadget \<Rightarrow> bool" where
  "gadget_keeps G \<longleftrightarrow> (\<forall>block words. keeps (sha256_compression_function G block words))"

text \<open>The state after a block, and one link of a hash chain of the table.\<close>

definition state_after :: "bytes \<Rightarrow> bytes \<Rightarrow> bytes" where
  "state_after s b = words_to_bytes (native_compress256 (bytes_to_words s) b)"

definition halves_are :: "(var \<Rightarrow> 'f::field) \<Rightarrow> (nat \<Rightarrow> 'f Lc) \<Rightarrow> bytes \<Rightarrow> bool" where
  "halves_are w half s \<longleftrightarrow> (\<forall>h < 2. lcv w (half h) = state_half s h)"

definition block_is :: "(var \<Rightarrow> 'f::field) \<Rightarrow> 'f Cells \<Rightarrow> nat \<Rightarrow> bytes \<Rightarrow> bool" where
  "block_is w cells j b \<longleftrightarrow> length b = 64 \<and>
     (\<forall>c < CHUNKS_PER_BLOCK. lcv w (cells_chunk cells (CHUNKS_PER_BLOCK * j + c)) = from_be (take CHUNK_BYTES (drop (CHUNK_BYTES * c) b)))"

definition linked :: "(var \<Rightarrow> 'f::field) \<Rightarrow> 'f Cells \<Rightarrow> Layout \<Rightarrow> nat \<Rightarrow> bool" where
  "linked w cells layout j \<longleftrightarrow> (\<exists>b s. block_is w cells j b \<and> length s = 32 \<and>
     halves_are w (cells_state_before cells layout j) s \<and> halves_are w (cells_state cells j) (state_after s b))"

lemma sound_select_bits:
  assumes "bellpepper_sound L" "assignment w" "hot_at w selector i"
  shows "sound w (select_bits L repr selector name entries) (\<lambda>bs. length entries = length (hot_bits selector) \<and>
    length bs = 128 \<and> list_all (is_bit w) bs \<and> lcv w (entries ! i) = of_nat (bin_val (bvals w bs)))"
  unfolding select_bits_def
  by (rule sound_sbind [OF sound_ns [OF sound_hot_select [OF assms(3)]]], rule sound_ns,
      rule sound_mono [OF sound_bits [OF assms(1,2)]]) simp

lemma slice_concat:
  assumes "\<And>x. x \<in> set xss \<Longrightarrow> length x = n" "c < length xss"
  shows "take n (drop (n * c) (concat xss)) = xss ! c"
  using assms
proof (induction xss arbitrary: c)
  case (Cons x xss)
  then show ?case by (cases c) simp_all
qed simp

text \<open>The selected entries, 128 bits each, are sixteen bytes each of one byte list.\<close>

lemma sound_select_all:
  assumes "bellpepper_sound L" "assignment (w :: var \<Rightarrow> 'f::field)" "hot_at w selector i" "i < N"
  shows "sound w (smap (\<lambda>c. select_bits L repr selector (name c) (map (\<lambda>i. entry c i) [0..<N])) [0..<n])
    (\<lambda>parts. length (concat parts) = 128 * n \<and> list_all (is_bit w) (concat parts) \<and>
      (\<forall>c < n. lcv w (entry c i) = from_be (take 16 (drop (16 * c) (bits_bytes (bvals w (concat parts)))))))"
proof (rule sound_mono [OF sound_smap [where R = "\<lambda>c bs. length bs = 128 \<and> list_all (is_bit w) bs \<and> lcv w (entry c i) = of_nat (bin_val (bvals w bs))"]])
  show "sound w (select_bits L repr selector (name c) (map (entry c) [0..<N]))
      (\<lambda>bs. length bs = 128 \<and> list_all (is_bit w) bs \<and> lcv w (entry c i) = of_nat (bin_val (bvals w bs)))" for c
    by (rule sound_mono [OF sound_select_bits [OF assms(1-3)]]) (use assms(4) in simp)
next
  fix parts assume p: "list_all2 (\<lambda>c bs. length bs = 128 \<and> list_all (is_bit w) bs \<and> lcv w (entry c i) = of_nat (bin_val (bvals w bs))) [0..<n] parts"
  then have len: "length parts = n" by (auto dest: list_all2_lengthD)
  have each: "length (parts ! c) = 128" "list_all (is_bit w) (parts ! c)" "lcv w (entry c i) = of_nat (bin_val (bvals w (parts ! c)))" if "c < n" for c
    using list_all2_nthD [OF p, of c] that len by auto
  have all: "length x = 128" "list_all (is_bit w) x" if "x \<in> set parts" for x
    using that each len by (auto simp: in_set_conv_nth)
  have total: "length (concat parts) = 128 * n"
    using all(1) len by (induction parts arbitrary: n) auto
  moreover have "list_all (is_bit w) (concat parts)" using all(2) by (auto simp: list_all_iff)
  moreover have "lcv w (entry c i) = from_be (take 16 (drop (16 * c) (bits_bytes (bvals w (concat parts)))))" if "c < n" for c
  proof -
    have "take 128 (drop (128 * c) (concat parts)) = parts ! c" using slice_concat [of parts 128 c] all(1) that len by simp
    then have "take 128 (drop (128 * c) (bvals w (concat parts))) = bvals w (parts ! c)" by (simp add: take_map drop_map)
    moreover have "(from_be (take 16 (drop (16 * c) (bits_bytes (bvals w (concat parts))))) :: 'f)
        = of_nat (bin_val (take (8 * 16) (drop (8 * (16 * c)) (bvals w (concat parts)))))"
      by (rule from_be_slice [of _ "16 * n"]) (use total that in simp_all)
    ultimately show ?thesis using each(3) [OF that] by simp
  qed
  ultimately show "length (concat parts) = 128 * n \<and> list_all (is_bit w) (concat parts) \<and>
      (\<forall>c < n. lcv w (entry c i) = from_be (take 16 (drop (16 * c) (bits_bytes (bvals w (concat parts))))))" by blast
qed

text \<open>The result of a compression: eight words whose bytes are the state after the position.\<close>

definition result_ok :: "('u, 'f::field) sha_gadget \<Rightarrow> (var \<Rightarrow> 'f) \<Rightarrow> 'u list \<Rightarrow> bytes \<Rightarrow> bool" where
  "result_ok G w words s \<longleftrightarrow> length words = 8 \<and> list_all (uint32_ok G w) words \<and>
     s = words_to_bytes (map (uint32_value G w) words)"

lemma result_bits:
  assumes "result_ok G w words s"
  shows "length (concat (map (into_bits_be G) words)) = 256" "list_all (is_bit w) (concat (map (into_bits_be G) words))"
    "s = bits_bytes (bvals w (concat (map (into_bits_be G) words)))"
proof -
  let ?bss = "map (\<lambda>u. bvals w (into_bits_be G u)) words"
  have each: "length (into_bits_be G u) = 32" "list_all (is_bit w) (into_bits_be G u)" if "u \<in> set words" for u
    using assms that by (auto simp: result_ok_def list_all_iff uint32_ok_def)
  have "length (concat (map (into_bits_be G) us)) = 32 * length us" if "set us \<subseteq> set words" for us
    using that each(1) by (induction us) auto
  then show "length (concat (map (into_bits_be G) words)) = 256" using assms by (simp add: result_ok_def)
  show "list_all (is_bit w) (concat (map (into_bits_be G) words))" using each(2) by (auto simp: list_all_iff)
  have "words_to_bytes (map (\<lambda>bs. word_of_nat (bin_val bs)) ?bss) = bits_bytes (concat ?bss)"
    by (rule words_to_bytes_bits) (use each(1) in \<open>auto simp: list_all_iff\<close>)
  moreover have "map (\<lambda>bs. word_of_nat (bin_val bs)) ?bss = map (uint32_value G w) words"
    by (simp add: uint32_value_def)
  moreover have "concat ?bss = bvals w (concat (map (into_bits_be G) words))" by (simp add: map_concat comp_def)
  ultimately show "s = bits_bytes (bvals w (concat (map (into_bits_be G) words)))" using assms unfolding result_ok_def by metis
qed

lemma result_from_bits:
  assumes "\<And>bs. length bs = 32 \<Longrightarrow> into_bits_be G (from_bits_be G bs) = bs" "length bs = 256" "list_all (is_bit w) bs"
  shows "result_ok G w (map (from_bits_be G) (chunks 32 bs)) (bits_bytes (bvals w bs))"
proof -
  have eq: "chunks 32 bs = map (\<lambda>i. take 32 (drop (32 * i) bs)) [0..<8]" by (rule chunks_slices) (simp_all add: assms(2))
  have len: "length c = 32" if "c \<in> set (chunks 32 bs)" for c
    using chunks_length [OF _ that] assms(2) by simp
  have again: "into_bits_be G (from_bits_be G c) = c" if "c \<in> set (chunks 32 bs)" for c
    using assms(1) len [OF that] by (simp add: gadget_sound_def)
  have bits: "list_all (is_bit w) c" if "c \<in> set (chunks 32 bs)" for c
    using that assms(3) unfolding eq by (auto simp: list_all_iff dest!: in_set_takeD in_set_dropD)
  have "map (into_bits_be G) (map (from_bits_be G) (chunks 32 bs)) = chunks 32 bs"
    using again by (simp add: list.map_ident_strong)
  then have cat: "concat (map (into_bits_be G) (map (from_bits_be G) (chunks 32 bs))) = bs"
    using concat_chunks [of 32 bs] by simp
  have "result_ok G w (map (from_bits_be G) (chunks 32 bs)) (words_to_bytes (map (uint32_value G w) (map (from_bits_be G) (chunks 32 bs))))"
    unfolding result_ok_def using again len bits by (auto simp: list_all_iff uint32_ok_def length_chunks assms(2))
  moreover note result_bits(3) [OF this, unfolded cat]
  ultimately show ?thesis by simp
qed

lemma sound_gadget:
  assumes "gadget_sound G" "assignment w" "length block = 512" "list_all (is_bit w) block" "result_ok G w words s"
  shows "sound w (sha256_compression_function G block words) (\<lambda>r. result_ok G w r (state_after s (bits_bytes (bvals w block))))"
proof -
  have "length (map (uint32_value G w) words) = 8" using assms(5) by (simp add: result_ok_def)
  then have s: "bytes_to_words s = map (uint32_value G w) words"
    using assms(5) bytes_to_words_to_bytes by (simp add: result_ok_def)
  have "sound w (sha256_compression_function G block words) (\<lambda>r. length r = 8 \<and> list_all (uint32_ok G w) r \<and>
      map (uint32_value G w) r = fips_compress (be_words 16 (bits_bytes (bvals w block))) (map (uint32_value G w) words))"
    using assms by (simp add: gadget_sound_def result_ok_def)
  then show ?thesis
    by (rule sound_mono) (simp add: result_ok_def state_after_def native_compress256_fips s)
qed

lemma sound_state_before:
  assumes "gadget_sound G" "bellpepper_sound L" "assignment (w :: var \<Rightarrow> 'f::field)" "hot_at w selector i" "i < N"
  shows "sound w (sbind (smap (\<lambda>h. select_bits L repr selector (name h) (map (\<lambda>i. half h i) [0..<N])) [0..<2]) (\<lambda>halves.
      sret (map (from_bits_be G) (chunks 32 (concat halves)))))
    (\<lambda>words. \<exists>s. result_ok G w words s \<and> (\<forall>h < 2. lcv w (half h i) = state_half s h))"
proof (rule sound_sbind [OF sound_select_all [OF assms(2-5)]], rule sound_sret)
  fix halves
  assume "length (concat halves) = 128 * 2 \<and> list_all (is_bit w) (concat halves) \<and>
      (\<forall>c < 2. lcv w (half c i) = from_be (take 16 (drop (16 * c) (bits_bytes (bvals w (concat halves))))))"
  then show "\<exists>s. result_ok G w (map (from_bits_be G) (chunks 32 (concat halves))) s \<and> (\<forall>h < 2. lcv w (half h i) = state_half s h)"
    using result_from_bits [of G] assms(1) [unfolded gadget_sound_def] by (intro exI [of _ "bits_bytes (bvals w (concat halves))"]) (simp add: state_half_def CHUNK_BYTES_def)
qed

lemma sound_state_after:
  assumes "assignment (w :: var \<Rightarrow> 'f::field)" "hot_at w selector i" "i < N" "result_ok G w words s"
  shows "sound w (smap (\<lambda>h.
      sbind (ns (n1 h) (hot_select selector (map (\<lambda>i. half h i) [0..<N]))) (\<lambda>v.
      ns (n2 h) (equal (pack (take 128 (drop (128 * h) (concat (map (into_bits_be G) words))))) v))) [0..<2])
    (\<lambda>_. \<forall>h < 2. lcv w (half h i) = state_half s h)"
proof -
  let ?after = "concat (map (into_bits_be G) words)"
  note bits = result_bits [OF assms(4)]
  have "lcv w (pack (take 128 (drop (128 * h) ?after))) = state_half s h" if "h < 2" for h
  proof -
    have "list_all (is_bit w) (take 128 (drop (128 * h) ?after))"
      using bits(2) by (auto simp: list_all_iff dest!: in_set_takeD in_set_dropD)
    then have "lcv w (pack (take 128 (drop (128 * h) ?after))) = of_nat (bin_val (take 128 (drop (128 * h) (bvals w ?after))))"
      by (simp add: lcv_pack take_map drop_map)
    moreover have "(from_be (take 16 (drop (16 * h) (bits_bytes (bvals w ?after)))) :: 'f)
        = of_nat (bin_val (take (8 * 16) (drop (8 * (16 * h)) (bvals w ?after))))"
      by (rule from_be_slice [of _ 32]) (use bits(1) that in simp_all)
    ultimately show ?thesis using bits(3) by (simp add: state_half_def CHUNK_BYTES_def)
  qed
  then have half: "sound w (sbind (ns (n1 h) (hot_select selector (map (half h) [0..<N]))) (\<lambda>v.
      ns (n2 h) (equal (pack (take 128 (drop (128 * h) ?after))) v))) (\<lambda>_. lcv w (half h i) = state_half s h)" if "h < 2" for h
    using that assms(3) by (intro sound_sbind [OF sound_ns [OF sound_hot_select [OF assms(2)]]] sound_ns
        sound_mono [OF sound_equal [OF assms(1)]]) simp
  have "sound w (smap (\<lambda>h. sbind (ns (n1 h) (hot_select selector (map (half h) [0..<N]))) (\<lambda>v.
      ns (n2 h) (equal (pack (take 128 (drop (128 * h) ?after))) v))) [0..<2]) (list_all2 (\<lambda>h _. lcv w (half h i) = state_half s h) [0..<2])"
    by (rule sound_smap, rule half) simp
  then show ?thesis
    by (rule sound_mono) (auto simp: list_all2_conv_all_nth simp del: upt_rec_numeral)
qed

definition before_ok ::
  "('u, 'f::field) sha_gadget \<Rightarrow> (var \<Rightarrow> 'f) \<Rightarrow> 'f Cells \<Rightarrow> Layout \<Rightarrow> nat \<Rightarrow> 'u list option \<Rightarrow> bool" where
  "before_ok G w cells layout j before \<longleftrightarrow> (case before of None \<Rightarrow> True
     | Some words \<Rightarrow> \<exists>s. result_ok G w words s \<and> halves_are w (cells_state_before cells layout j) s)"

lemma sound_step_compression:
  assumes G: "gadget_sound G" and L: "bellpepper_sound L" and w: "assignment (w :: var \<Rightarrow> 'f::field)"
    and i: "hot_at w selector i" "i < instances layout" and j: "j = per_instance layout * i + k"
    and before: "before_ok G w cells layout j before"
  shows "sound w (step_compression G L repr cells layout selector k before) (\<lambda>(block, words). linked w cells layout j \<and>
    (\<exists>s. result_ok G w words s \<and> halves_are w (cells_state cells j) s))"
proof -
  let ?N = "instances layout" and ?j = "\<lambda>i. per_instance layout * i + k"
  have positions: "map f (map ?j [0..<?N]) = map (\<lambda>i. f (?j i)) [0..<?N]" for f :: "nat \<Rightarrow> 'f Lc" by simp
  have words: "sound w (case before of Some words \<Rightarrow> sret words
      | None \<Rightarrow> sbind (smap (\<lambda>h. select_bits L repr selector (''state before half '' @ show_nat h)
           (map (\<lambda>i. cells_state_before cells layout (?j i) h) [0..<?N])) [0..<2]) (\<lambda>halves.
         sret (map (from_bits_be G) (chunks 32 (concat halves)))))
      (\<lambda>words. \<exists>s. result_ok G w words s \<and> halves_are w (cells_state_before cells layout j) s)"
  proof (cases before)
    case None
    then show ?thesis
      using sound_state_before [OF G L w i, where half = "\<lambda>h i. cells_state_before cells layout (?j i) h"]
      by (simp add: halves_are_def j)
  next
    case (Some ws)
    then show ?thesis using before by (auto simp: before_ok_def intro!: sound_sret)
  qed
  have four: "CHUNKS_PER_BLOCK = 4" by (simp add: CHUNKS_PER_BLOCK_def)
  show ?thesis
    unfolding step_compression_def Let_def positions
  proof (rule sound_sbind [OF sound_select_all [OF L w i]], rule sound_sbind [OF words], elim exE conjE)
    fix parts :: "'f Boolean list list" and ws s
    let ?block = "concat parts" and ?b = "bits_bytes (bvals w (concat parts))"
    assume parts: "length ?block = 128 * CHUNKS_PER_BLOCK" "list_all (is_bit w) ?block"
        "\<forall>c < CHUNKS_PER_BLOCK. lcv w (cells_chunk cells (CHUNKS_PER_BLOCK * ?j i + c)) = from_be (take 16 (drop (16 * c) ?b))"
      and s: "result_ok G w ws s" "halves_are w (cells_state_before cells layout j) s"
    have b: "block_is w cells j ?b"
      using parts length_bits_bytes [of "bvals w ?block" 64] by (simp add: block_is_def four j CHUNK_BYTES_def)
    have len: "length s = 32" using s(1) by (auto simp: result_ok_def)
    note gadget = sound_ns [OF sound_gadget [OF G w _ parts(2) s(1)]]
    have goal: "linked w cells layout j \<and> (\<exists>s. result_ok G w r s \<and> halves_are w (cells_state cells j) s)"
      if "result_ok G w r (state_after s ?b)" "\<forall>h < 2. lcv w (cells_state cells (?j i) h) = state_half (state_after s ?b) h" for r
      using that b s len unfolding linked_def halves_are_def j by blast
    show "sound w (sbind (ns ''compression'' (sha256_compression_function G ?block ws)) (\<lambda>words.
        sbind (smap (\<lambda>h. sbind (ns (''state after half '' @ show_nat h) (hot_select selector (map (\<lambda>i. cells_state cells (?j i) h) [0..<?N]))) (\<lambda>half.
           ns (''state after half '' @ show_nat h @ '' matches'')
             (equal (pack (take 128 (drop (128 * h) (concat (map (into_bits_be G) words))))) half))) [0..<2]) (\<lambda>_.
        sret (?block, words))))
      (\<lambda>(block, words). linked w cells layout j \<and> (\<exists>s. result_ok G w words s \<and> halves_are w (cells_state cells j) s))"
      by (rule sound_sbind [OF gadget], use parts(1) in \<open>simp add: four\<close>, rule sound_sbind [OF sound_state_after [OF w i]], assumption,
          rule sound_sret, unfold prod.case, rule goal)
  qed
qed

text \<open>No message starts at a position after an instance's first.\<close>

definition inner_follow :: "Layout \<Rightarrow> bool" where
  "inner_follow layout \<longleftrightarrow> (\<forall>i < instances layout. \<forall>k < per_instance layout. 0 < k \<longrightarrow>
     per_instance layout * i + k \<noteq> first (signed_region layout) \<and> \<not> starts_from_iv layout (per_instance layout * i + k))"

lemma inner_before:
  assumes "inner_follow layout" "i < instances layout" "Suc k < per_instance layout" "j = per_instance layout * i + k"
  shows "cells_state_before cells layout (Suc j) = cells_state cells j"
proof -
  have "Suc j \<noteq> first (signed_region layout) \<and> \<not> starts_from_iv layout (Suc j)"
    using assms(1) [unfolded inner_follow_def, rule_format, OF assms(2,3)] assms(4) by simp
  then show ?thesis by (auto simp: cells_state_before_def)
qed

lemma sound_compressions:
  assumes G: "gadget_sound G" and L: "bellpepper_sound L" and w: "assignment (w :: var \<Rightarrow> 'f::field)"
    and i: "hot_at w selector i" "i < instances layout" and layout: "inner_follow layout"
  shows "k0 \<le> per_instance layout \<Longrightarrow>
    (k0 < per_instance layout \<longrightarrow> before_ok G w cells layout (per_instance layout * i + k0) before) \<Longrightarrow>
    sound w (sfold (\<lambda>k result. ns (''compression '' @ show_nat k)
        (sbind (step_compression G L repr cells layout selector k result) (\<lambda>(block, words). sret (Some words))))
      [k0..<per_instance layout] before) (\<lambda>_. \<forall>k. k0 \<le> k \<longrightarrow> k < per_instance layout \<longrightarrow> linked w cells layout (per_instance layout * i + k))"
proof (induction "per_instance layout - k0" arbitrary: k0 before)
  case 0
  then show ?case by (simp add: sound_sret)
next
  case (Suc n)
  let ?p = "per_instance layout" and ?j = "per_instance layout * i + k0"
  let ?f = "\<lambda>k result. ns (''compression '' @ show_nat k)
        (sbind (step_compression G L repr cells layout selector k result) (\<lambda>(block, words). sret (Some words)))"
  have k0: "k0 < ?p" using Suc.hyps(2) by simp
  have before: "before_ok G w cells layout ?j before" using Suc.prems(2) k0 by simp
  have first_one: "sound w (?f k0 before) (\<lambda>r. linked w cells layout ?j \<and>
      (Suc k0 < ?p \<longrightarrow> before_ok G w cells layout (?p * i + Suc k0) r))"
    using inner_before [OF layout i(2) _ refl, of k0 cells]
    by (intro sound_ns sound_sbind [OF sound_step_compression [OF G L w i refl before]])
       (auto simp: before_ok_def split: prod.splits intro!: sound_sret)
  have rest: "sound w (sfold ?f [Suc k0..<?p] r) (\<lambda>_. \<forall>k. k0 \<le> k \<longrightarrow> k < ?p \<longrightarrow> linked w cells layout (?p * i + k))"
    if r: "linked w cells layout ?j \<and> (Suc k0 < ?p \<longrightarrow> before_ok G w cells layout (?p * i + Suc k0) r)" for r
  proof (rule sound_mono [OF Suc.hyps(1) [of "Suc k0" r]], goal_cases)
    case (4 _)
    show ?case
    proof (intro allI impI)
      fix k assume "k0 \<le> k" "k < ?p"
      then show "linked w cells layout (?p * i + k)" using 4 r by (cases "k = k0") auto
    qed
  qed (use Suc.hyps(2) k0 r in auto)
  have "[k0..<?p] = k0 # [Suc k0..<?p]" using k0 by (simp add: upt_conv_Cons)
  then show ?case using sound_sbind [OF first_one rest] by simp
qed

lemma sound_at_step:
  assumes repr: "scalar_repr (repr :: 'f::field \<Rightarrow> nat)" and G: "gadget_sound G" "gadget_keeps G"
    and L: "bellpepper_sound L" "bellpepper_inputs L" and w: "assignment (w :: var \<Rightarrow> 'f)"
    and layout: "inner_follow layout" "instances layout < modulus" "step_layout step = layout"
    and pos: "w (Input n) = of_nat p" "p < instances layout"
  shows "sound_at w n (step_precommitted G L repr step cells) (Suc n)
    (\<lambda>_. \<forall>k < per_instance layout. linked w cells layout (per_instance layout * p + k))"
proof -
  let ?f = "\<lambda>selector k result. ns (''compression '' @ show_nat k)
        (sbind (step_compression G L repr cells layout selector k result) (\<lambda>(block, words). sret (Some words)))"
  have keeps_f: "keeps (?f selector k result)" for selector k result
    unfolding step_compression_def select_bits_def Let_def using G(2)
    by (intro keeps_intros L(2)) (simp add: gadget_keeps_def)
  have rules: "sound w (sbind (ns ''selector'' (one_hot_alloc L (instances layout) (Some (step_position step)))) (\<lambda>selector.
       sbind (ns ''selected position'' (equal (hot_index selector) (lc_num num))) (\<lambda>_.
       sbind (sfold (?f selector) [0..<per_instance layout] None) (\<lambda>_. sret []))))
      (\<lambda>_. \<forall>k < per_instance layout. linked w cells layout (per_instance layout * p + k))"
    if "num_var num = Input n" for num :: "'f AllocatedNum"
  proof (rule sound_sbind [OF sound_ns [OF sound_one_hot_alloc [OF repr L(1) w layout(2)]]], elim conjE exE)
    fix selector i assume i: "i < instances layout" "hot_at w selector i"
    have same: "i = p" if "lcv w (hot_index selector) = lcv w (lc_num num)"
    proof (rule scalar_of_nat_inj [OF repr])
      show "of_nat i = (of_nat p :: 'f)" using that lcv_hot_index [OF i(2)] pos(1) \<open>num_var num = Input n\<close> by simp
    qed (use i(1) pos(2) layout(2) in simp_all)
    have all: "sound w (sfold (?f selector) [0..<per_instance layout] None)
        (\<lambda>_. \<forall>k. 0 \<le> k \<longrightarrow> k < per_instance layout \<longrightarrow> linked w cells layout (per_instance layout * i + k))"
      by (rule sound_compressions [OF G(1) L(1) w i(2,1) layout(1)]) (simp_all add: before_ok_def)
    have goal: "sound w (sbind (sfold (?f selector) [0..<per_instance layout] None) (\<lambda>_. sret []))
        (\<lambda>_. \<forall>k < per_instance layout. linked w cells layout (per_instance layout * p + k))"
      if "lcv w (hot_index selector) = lcv w (lc_num num)"
      by (rule sound_sbind [OF all], rule sound_sret) (use same [OF that] in simp)
    show "sound w (sbind (ns ''selected position'' (equal (hot_index selector) (lc_num num))) (\<lambda>_.
       sbind (sfold (?f selector) [0..<per_instance layout] None) (\<lambda>_. sret [])))
      (\<lambda>_. \<forall>k < per_instance layout. linked w cells layout (per_instance layout * p + k))"
      by (rule sound_sbind [OF sound_ns [OF sound_equal [OF w]]], rule goal)
  qed
  have keeps_rules: "keeps (sbind (ns ''selector'' (one_hot_alloc L (instances layout) (Some (step_position step)))) (\<lambda>selector.
       sbind (ns ''selected position'' (equal (hot_index selector) (lc_num num))) (\<lambda>_.
       sbind (sfold (?f selector) [0..<per_instance layout] None) (\<lambda>_. sret []))))" for num :: "'f AllocatedNum"
    by (intro keeps_intros keeps_f L(2))
  have body: "sound_at w n (sbind (ns ''position'' (alloc_input_num L (Inr (of_nat (step_position step))))) (\<lambda>num.
       sbind (ns ''selector'' (one_hot_alloc L (instances layout) (Some (step_position step)))) (\<lambda>selector.
       sbind (ns ''selected position'' (equal (hot_index selector) (lc_num num))) (\<lambda>_.
       sbind (sfold (?f selector) [0..<per_instance layout] None) (\<lambda>_. sret []))))) (Suc n)
      (\<lambda>_. \<forall>k < per_instance layout. linked w cells layout (per_instance layout * p + k))"
    by (rule sound_at_sbind [OF sound_at_ns [OF sound_at_input [OF L(2)]]], rule sound_at_keeps [OF rules keeps_rules])
  then show ?thesis
    unfolding step_precommitted_def Let_def layout(3)
    by (auto simp: sound_at_def sbind_def is_witness_generator_def split: prod.splits)
qed

section \<open>An instance of the gadget\<close>

text \<open>
  The gadget's interface can be met: \<open>truth_table\<close> forces a number to be any function of bits, one
  choice per bit, and a compression is 256 such functions of its 768 bits.
\<close>

primrec truth_table :: "'f::field Boolean list \<Rightarrow> (bool list \<Rightarrow> bool) \<Rightarrow> ('f Lc, 'f) synth" where
  "truth_table [] f = sret (lc_constant (of_bool (f [])))"
| "truth_table (b # bs) f =
     sbind (truth_table bs (\<lambda>x. f (False # x))) (\<lambda>if0.
     sbind (truth_table bs (\<lambda>x. f (True # x))) (\<lambda>if1. mux (lc_bit b) if0 if1))"

lemma sound_truth_table:
  assumes "assignment w"
  shows "list_all (is_bit w) bs \<Longrightarrow> sound w (truth_table bs f) (\<lambda>r. lcv w r = of_bool (f (bvals w bs)))"
proof (induction bs arbitrary: f)
  case Nil
  then show ?case using assms by (simp add: sound_sret)
next
  case (Cons b bs)
  have b: "is_bit w b" and bs: "list_all (is_bit w) bs" using Cons.prems by simp_all
  note choice = sound_mux [of w "lc_bit b"]
  have bit: "lcv w (lc_bit b) = 0 \<or> lcv w (lc_bit b) = 1" using b by (simp add: is_bit_def)
  show ?case
    unfolding truth_table.simps
    by (rule sound_sbind [OF Cons.IH [OF bs]], rule sound_sbind [OF Cons.IH [OF bs]], rule sound_mono [OF choice [OF bit]])
       (use b in \<open>auto simp: bval_def is_bit_def\<close>)
qed

lemma keeps_truth_table [keeps_intros]: "keeps (truth_table bs f)"
  by (induction bs arbitrary: f) (auto intro!: keeps_intros)

definition compress_bits :: "bool list \<Rightarrow> bool list" where
  "compress_bits x = be_bits (words_to_bytes (fips_compress (be_words 16 (bits_bytes (take 512 x))) (be_words 8 (bits_bytes (drop 512 x)))))"

definition boolean_of :: "'f Lc \<Rightarrow> 'f Boolean" where
  "boolean_of r = \<lparr>bool_lc = terms r, bool_value = None\<rparr>"

definition table_gadget :: "('f::field Boolean list, 'f) sha_gadget" where
  "table_gadget =
     \<lparr>sha256_compression_function = (\<lambda>block words.
        sbind (smap (\<lambda>i. truth_table (block @ concat words) (\<lambda>x. compress_bits x ! i)) [0..<256]) (\<lambda>r.
        sret (chunks 32 (map boolean_of r)))),
      from_bits_be = (\<lambda>bs. bs), into_bits_be = (\<lambda>u. u)\<rparr>"

lemma length_compress_bits [simp]: "length (compress_bits x) = 256"
  by (simp add: compress_bits_def)

lemma bits_bytes_be_bits: "bits_bytes (be_bits bs) = bs"
proof (induction bs)
  case (Cons b bs)
  have "be_bits (b # bs) = small_bits (unat b) 8 @ be_bits bs"
    using byte_bits_small [of b] by (simp add: be_bits_def del: upt_rec_numeral)
  moreover have "unat b mod 256 = unat b" using unsigned_less [of b] by (simp add: mod_less)
  ultimately show ?case
    using Cons chunks_append [of 8 "small_bits (unat b) 8" "[]"]
    by (simp add: bits_bytes_append [of _ 1]) (simp add: bits_bytes_def bin_val_small_bits)
qed (simp add: be_bits_def bits_bytes_def)

lemma table_gadget_sound: "gadget_sound (table_gadget :: ('f::field Boolean list, 'f) sha_gadget)"
proof -
  let ?G = "table_gadget :: ('f Boolean list, 'f) sha_gadget"
  have id: "into_bits_be ?G = (\<lambda>u. u)" "from_bits_be ?G = (\<lambda>u. u)" by (simp_all add: table_gadget_def)
  have "sound w (sha256_compression_function ?G block words) (\<lambda>r. length r = 8 \<and> list_all (uint32_ok ?G w) r \<and>
      map (uint32_value ?G w) r = fips_compress (be_words 16 (bits_bytes (bvals w block))) (map (uint32_value ?G w) words))"
    if w: "assignment w" and block: "length block = 512" "list_all (is_bit w) block"
      and words: "length words = 8" "list_all (uint32_ok ?G w) words" for w block words
  proof -
    let ?in = "block @ concat words" and ?s = "words_to_bytes (map (uint32_value ?G w) words)"
    have ok: "result_ok ?G w words ?s" using words by (simp add: result_ok_def)
    note rb = result_bits [OF ok, unfolded id list.map_ident]
    have bits: "list_all (is_bit w) ?in" using block rb(2) by simp
    let ?after = "fips_compress (be_words 16 (bits_bytes (bvals w block))) (map (uint32_value ?G w) words)"
    have "be_words 8 ?s = map (uint32_value ?G w) words" using be_words_of_words [of "map (uint32_value ?G w) words"] words(1) by simp
    then have cb: "compress_bits (bvals w ?in) = be_bits (words_to_bytes ?after)"
      using block rb(3) by (simp add: compress_bits_def)
    have goal: "result_ok ?G w (chunks 32 (map boolean_of r)) (words_to_bytes ?after)"
      if "list_all2 (\<lambda>i r. lcv w r = of_bool (compress_bits (bvals w ?in) ! i)) [0..<256] r" for r
    proof -
      have len: "length r = 256" using that by (auto dest: list_all2_lengthD)
      have each: "ev w (terms (r ! i)) = of_bool (compress_bits (bvals w ?in) ! i)" if "i < 256" for i
        using list_all2_nthD [OF \<open>list_all2 _ _ r\<close>, of i] that len by (simp del: upt_rec_numeral)
      have "list_all (is_bit w) (map boolean_of r)"
        using each len by (auto simp: list_all_length is_bit_def boolean_of_def)
      moreover have "bvals w (map boolean_of r) = compress_bits (bvals w ?in)"
        by (rule nth_equalityI) (use each len in \<open>auto simp: bval_def boolean_of_def\<close>)
      ultimately show ?thesis
        using result_from_bits [of ?G "map boolean_of r" w] len cb by (simp add: id bits_bytes_be_bits)
    qed
    have "length r = 8 \<and> list_all (uint32_ok ?G w) r \<and> map (uint32_value ?G w) r = ?after"
      if "result_ok ?G w r (words_to_bytes ?after)" for r
      using that be_words_of_words [of ?after] be_words_of_words [of "map (uint32_value ?G w) r"] by (simp add: result_ok_def)
    note fin = this [OF goal]
    have f: "sha256_compression_function ?G block words = sbind (smap (\<lambda>i. truth_table ?in (\<lambda>x. compress_bits x ! i)) [0..<256])
        (\<lambda>r. sret (chunks 32 (map boolean_of r)))" by (simp add: table_gadget_def)
    show ?thesis
      unfolding f by (rule sound_sbind [OF sound_smap [OF sound_truth_table [OF w bits]]], rule sound_sret, rule fin)
  qed
  then show ?thesis unfolding gadget_sound_def using id by simp
qed

lemma table_gadget_keeps: "gadget_keeps table_gadget"
  unfolding gadget_keeps_def table_gadget_def by (auto intro!: keeps_intros)

lemma inner_follow_FULL_MDOC: "inner_follow FULL_MDOC"
  by (simp add: inner_follow_def FULL_MDOC_def)

section \<open>The native values\<close>

lemma length_select_values [simp]: "length (fst (select_values vs n i entry)) = length vs + (n - 1)"
  by (simp add: select_values_def Let_def)

lemma selected_bytes_lengths:
  "length (fst (selected_bytes repr n i entry s)) = length (fst s) + (n - 1) + 128 \<and>
    length (snd (selected_bytes repr n i entry s)) = length (snd s) + 16"
proof (cases s)
  case (Pair vs bs)
  have "length (fst (select_values vs n i entry)) = length vs + (n - 1)" by simp
  then show ?thesis
    by (cases "select_values vs n i entry") (simp add: Pair selected_bytes_def Let_def low_bytes_def)
qed

lemma selected_fold_lengths:
  "length (fst (fold (\<lambda>c. selected_bytes repr n i (entry c)) cs s)) = length (fst s) + length cs * (n - 1 + 128) \<and>
    length (snd (fold (\<lambda>c. selected_bytes repr n i (entry c)) cs s)) = length (snd s) + 16 * length cs"
  by (induction cs arbitrary: s) (simp_all add: selected_bytes_lengths)

lemma compression_values_length:
  "\<exists>vs' block after. compression_values repr vs table layout i k before = Some (vs', block, after) \<and>
    length vs' = length vs + 4 * (instances layout - 1 + 128) + (if before = None then 2 * (instances layout - 1 + 128) else 0)
      + 26166 + 2 * (instances layout - 1)"
proof -
  let ?n = "instances layout" and ?pos = "\<lambda>i. per_instance layout * i + k"
  let ?blk = "fold (\<lambda>c. selected_bytes repr ?n i (\<lambda>i. chunk_value table (CHUNKS_PER_BLOCK * ?pos i + c))) [0..<CHUNKS_PER_BLOCK] (vs, [])"
  obtain vs1 block where blk: "?blk = (vs1, block)" by (cases ?blk)
  have l1: "length vs1 = length vs + 4 * (?n - 1 + 128)"
    using selected_fold_lengths [of repr ?n i "\<lambda>c i. chunk_value table (CHUNKS_PER_BLOCK * ?pos i + c)" "[0..<CHUNKS_PER_BLOCK]" "(vs, [])"] blk
    by (simp add: CHUNKS_PER_BLOCK_def del: upt_rec_numeral)
  let ?st = "fold (\<lambda>h. selected_bytes repr ?n i (\<lambda>i. state_before_value table layout (?pos i) h)) [0..<2] (vs1, [])"
  obtain vs2 state where st: "(case before of Some words \<Rightarrow> (vs1, words)
      | None \<Rightarrow> (let (vs, state) = ?st in (vs, be_words 8 state))) = (vs2, state)"
    by (cases "case before of Some words \<Rightarrow> (vs1, words) | None \<Rightarrow> (let (vs, state) = ?st in (vs, be_words 8 state))")
  have l2: "length vs2 = length vs1 + (if before = None then 2 * (?n - 1 + 128) else 0)"
    using st selected_fold_lengths [of repr ?n i "\<lambda>h i. state_before_value table layout (?pos i) h" "[0..<2]" "(vs1, [])"]
    by (cases before; cases ?st) (auto simp del: upt_rec_numeral)
  obtain new after where c: "compression vs2 (be_words 16 block) state = Some (vs2 @ new, after)" "length new = 26166"
  proof -
    obtain us where us: "compression vs2 (be_words 16 block) state = Some (us, fips_compress (be_words 16 block) state)"
      using compression_eq [of "be_words 16 block" vs2 state] by (auto simp: be_words_def)
    from compression_grows [OF this] show ?thesis using that us by (auto simp: grows_def COMPRESSION_VALUES_def)
  qed
  have "length (fold (\<lambda>h vs. fst (select_values vs ?n i (\<lambda>i. state_value table (?pos i) h))) hs us) = length us + length hs * (?n - 1)"
    for hs and us :: "'a list"
    by (induction hs arbitrary: us) simp_all
  note l3 = this [of "[0..<2]" "vs2 @ new"]
  show ?thesis
    unfolding compression_values_def Let_def blk prod.case st [unfolded Let_def] c(1) option.map
    using l1 l2 l3 c(2) by (auto simp del: upt_rec_numeral)
qed

section \<open>Properties\<close>

text \<open>
  C29. What a step proves: if the rules of the step at a public position hold, then every position of the
  table that the instance covers is a link of a hash chain. The state after it is the SHA-256
  compression of its block from the state before it, which is the start state, the initial value or the
  state at the position before, as the layout says.
\<close>

theorem step_rules_link:
  assumes "scalar_repr (repr :: 'f::field \<Rightarrow> nat)" "gadget_sound G" "gadget_keeps G"
    and "bellpepper_sound L" "bellpepper_inputs L" "assignment (w :: var \<Rightarrow> 'f)"
    and "inner_follow layout" "instances layout < modulus" "step_layout step = layout"
    and "w (Input n) = of_nat p" "p < instances layout"
  shows "sound_at w n (step_precommitted G L repr step cells) (Suc n)
    (\<lambda>_. \<forall>k < per_instance layout. linked w cells layout (per_instance layout * p + k))"
  using assms by (rule sound_at_step)

definition at_three :: "var \<Rightarrow> rat" where
  "at_three v = (if v = Input 0 then 1 else if v = Input 1 then 3 else 0)"

theorem step_rules_link_witness:
  "sound_at at_three 1 (step_precommitted table_gadget plain_bellpepper rat_repr (blank_in FULL_MDOC 3) zero_cells) (Suc 1)
    (\<lambda>_. \<forall>k < per_instance FULL_MDOC. linked at_three zero_cells FULL_MDOC (per_instance FULL_MDOC * 3 + k))"
  by (rule step_rules_link [OF scalar_repr_rat table_gadget_sound table_gadget_keeps plain_bellpepper_sound
      plain_bellpepper_inputs _ inner_follow_FULL_MDOC])
     (simp_all add: assignment_def at_three_def instances_def FULL_MDOC_def POSITIONS_def blank_in_def modulus_bounds(1) [THEN less_trans [rotated]])

text \<open>
  C30. The step's native witness: on any table, at any position, \<open>Step::assignment\<close> of the mdoc layout
  returns without a panic. It records exactly 27214 private values, within the layout's budget, and the
  position as the one public value.
\<close>

theorem step_values_within_budget:
  assumes "step_layout step = FULL_MDOC" "step_table step = Some table"
  shows "\<exists>inst. step_assignment repr step = Inr inst \<and> length (seg_private (inst_precommitted inst)) = 27214 \<and>
    27214 \<le> budget FULL_MDOC \<and> seg_public (inst_precommitted inst) = [of_nat (step_position step)] \<and>
    inst_public inst = (step_public_values step :: 'f::field list) \<and> seg_private (inst_rest inst) = []"
proof -
  let ?p = "step_position step"
  have inst: "instances FULL_MDOC = 32" "per_instance FULL_MDOC = 1" by (simp_all add: instances_def FULL_MDOC_def POSITIONS_def)
  obtain vs block words where vs: "compression_values repr (one_hot_values [] 32 ?p :: 'f list) table FULL_MDOC ?p 0 None = Some (vs, block, words)"
    "length vs = 32 + 27182"
    using compression_values_length [of repr "one_hot_values [] 32 ?p :: 'f list" table FULL_MDOC ?p 0 None]
    by (auto simp: inst one_hot_values_def)
  then have "precommitted_values repr step = Inr vs"
    by (simp add: precommitted_values_def assms inst ok_or_def)
  then show ?thesis
    using vs(2) by (simp add: step_assignment_def step_public_values_def FULL_MDOC_def Let_def)
qed

theorem step_values_within_budget_witness:
  "\<exists>inst. step_assignment rat_repr (step_new 5 (from_blocks_in native_compress256 FULL_MDOC (replicate 32 (replicate 64 0)) iv_bytes)) = Inr inst \<and>
    length (seg_private (inst_precommitted inst)) = 27214 \<and> 27214 \<le> budget FULL_MDOC \<and>
    seg_public (inst_precommitted inst) = [of_nat (step_position (step_new 5 (from_blocks_in native_compress256 FULL_MDOC (replicate 32 (replicate 64 0)) iv_bytes)))] \<and>
    inst_public inst = (step_public_values (step_new 5 (from_blocks_in native_compress256 FULL_MDOC (replicate 32 (replicate 64 0)) iv_bytes)) :: rat list) \<and>
    seg_private (inst_rest inst) = []"
  by (rule step_values_within_budget) (simp_all add: step_new_def from_blocks_in_def)

end
