(* ===== verification/Tame.thy ===== *)
theory Tame
  imports Step
begin

text \<open>
  What every gadget does to the constraint system: it appends values, known ones when it generates a
  witness, leaves the open namespaces as they were, and in the checking system records the path of the
  first rule that does not hold, and nothing else. \<open>tame\<close> states it, and the rules of
  \<open>tame_intros\<close> carry it through the gadgets to both circuits.
\<close>

named_theorems tame_intros

definition extends :: "'f cs \<Rightarrow> 'f cs \<Rightarrow> bool" where
  "extends cs cs' \<longleftrightarrow> (\<exists>a. aux cs' = aux cs @ a) \<and> (\<exists>i. inputs cs' = inputs cs @ i)"

definition known_after :: "'f cs \<Rightarrow> 'f cs \<Rightarrow> bool" where
  "known_after cs cs' \<longleftrightarrow> None \<notin> set (drop (length (aux cs)) (aux cs')) \<and> None \<notin> set (drop (length (inputs cs)) (inputs cs'))"

definition holds_in :: "'f::field cs \<Rightarrow> 'f rule \<Rightarrow> bool" where
  "holds_in cs r \<longleftrightarrow> check_value cs (rule_a r) * check_value cs (rule_b r) = check_value cs (rule_c r)"

text \<open>A rule that held, or did not, at some moment up to a state.\<close>

definition held_by :: "'f::field cs \<Rightarrow> 'f rule \<Rightarrow> bool" where
  "held_by cs' r \<longleftrightarrow> (\<exists>cs. extends cs cs' \<and> holds_in cs r)"

definition failed_by :: "'f::field cs \<Rightarrow> 'f rule \<Rightarrow> bool" where
  "failed_by cs' r \<longleftrightarrow> (\<exists>cs. extends cs cs' \<and> \<not> holds_in cs r)"

text \<open>In the checking system: no rule broken, or the path of the first rule that did not hold when it was added.\<close>

definition first_failed :: "'f::field cs \<Rightarrow> 'f rule list \<Rightarrow> string list \<Rightarrow> bool" where
  "first_failed cs' rs p \<longleftrightarrow>
    (\<exists>before r after. rs = before @ r # after \<and> p = rule_path r \<and> failed_by cs' r \<and> (\<forall>q \<in> set before. held_by cs' q))"

definition checked :: "'f::field cs \<Rightarrow> 'f cs \<Rightarrow> 'f rule list \<Rightarrow> bool" where
  "checked cs cs' rs \<longleftrightarrow>
    (if broken cs \<noteq> None then broken cs' = broken cs
     else case broken cs' of None \<Rightarrow> \<forall>r \<in> set rs. held_by cs' r | Some p \<Rightarrow> first_failed cs' rs p)"

definition tame :: "('a, 'f::field) synth \<Rightarrow> bool" where
  "tame g \<longleftrightarrow> (\<forall>m cs r cs' rs. g m cs = (r, cs', rs) \<longrightarrow>
     extends cs cs' \<and> path cs' = path cs \<and> (m = Witness \<longrightarrow> known_after cs cs') \<and> (m = Checking \<longrightarrow> checked cs cs' rs))"

lemma extends_refl [simp]: "extends cs cs"
  by (simp add: extends_def)

lemma extends_trans: "extends cs cs' \<Longrightarrow> extends cs' cs'' \<Longrightarrow> extends cs cs''"
  by (auto simp: extends_def)

lemma by_mono:
  "held_by cs r \<Longrightarrow> extends cs cs' \<Longrightarrow> held_by cs' r" "failed_by cs r \<Longrightarrow> extends cs cs' \<Longrightarrow> failed_by cs' r"
  unfolding held_by_def failed_by_def by (blast intro: extends_trans)+

lemma by_now: "holds_in cs r \<Longrightarrow> held_by cs r" "\<not> holds_in cs r \<Longrightarrow> extends cs cs' \<Longrightarrow> failed_by cs' r"
  unfolding held_by_def failed_by_def using extends_refl [of cs] by blast+

lemma first_failed_one: "failed_by cs' r \<Longrightarrow> first_failed cs' [r] (rule_path r)"
  unfolding first_failed_def by (intro exI [of _ "[]"] exI [of _ r]) simp

lemma first_failed_before:
  assumes "first_failed cs' rs p" "\<forall>q \<in> set qs. held_by cs' q"
  shows "first_failed cs' (qs @ rs) p"
proof -
  obtain before r after where "rs = before @ r # after" "p = rule_path r" "failed_by cs' r" "\<forall>q \<in> set before. held_by cs' q"
    using assms(1) unfolding first_failed_def by blast
  then show ?thesis
    unfolding first_failed_def using assms(2) by (intro exI [of _ "qs @ before"] exI [of _ r] exI [of _ after]) auto
qed

lemma first_failed_after:
  assumes "first_failed cs' rs p" "extends cs' cs''"
  shows "first_failed cs'' (rs @ qs) p"
proof -
  obtain before r after where "rs = before @ r # after" "p = rule_path r" "failed_by cs' r" "\<forall>q \<in> set before. held_by cs' q"
    using assms(1) unfolding first_failed_def by blast
  then show ?thesis
    unfolding first_failed_def using by_mono [OF _ assms(2)]
    by (intro exI [of _ before] exI [of _ r] exI [of _ "after @ qs"]) auto
qed

lemma known_after_trans:
  assumes "extends cs cs'" "extends cs' cs''" "known_after cs cs'" "known_after cs' cs''"
  shows "known_after cs cs''"
  using assms by (auto simp: extends_def known_after_def)

lemma checked_trans:
  assumes "checked cs cs' rs" "checked cs' cs'' rs'" "extends cs' cs''"
  shows "checked cs cs'' (rs @ rs')"
proof -
  note mono = by_mono [OF _ assms(3)]
  show ?thesis
  proof (cases "broken cs")
    case None
    then show ?thesis
      using assms mono first_failed_after [OF _ assms(3), of rs _ rs'] first_failed_before [of cs'' rs' _ rs]
      by (auto simp: checked_def split: option.splits)
  qed (use assms(1,2) in \<open>auto simp: checked_def\<close>)
qed

lemma tameI:
  "(\<And>m cs r cs' rs. g m cs = (r, cs', rs) \<Longrightarrow> extends cs cs' \<and> path cs' = path cs \<and>
     (m = Witness \<longrightarrow> known_after cs cs') \<and> (m = Checking \<longrightarrow> checked cs cs' rs)) \<Longrightarrow> tame g"
  unfolding tame_def by blast

lemma tameD:
  "tame g \<Longrightarrow> g m cs = (r, cs', rs) \<Longrightarrow> extends cs cs' \<and> path cs' = path cs \<and>
     (m = Witness \<longrightarrow> known_after cs cs') \<and> (m = Checking \<longrightarrow> checked cs cs' rs)"
  unfolding tame_def by blast

lemma tame_still: "(\<And>m cs. \<exists>r. g m cs = (r, cs, [])) \<Longrightarrow> tame g"
proof (rule tameI)
  fix m cs r cs' rs assume "\<And>m cs. \<exists>r. g m cs = (r, cs, [])" "g m cs = (r, cs', rs)"
  then have "cs' = cs" "rs = []" by (metis Pair_inject)+
  then show "extends cs cs' \<and> path cs' = path cs \<and> (m = Witness \<longrightarrow> known_after cs cs') \<and> (m = Checking \<longrightarrow> checked cs cs' rs)"
    by (simp add: known_after_def checked_def)
qed

lemma tame_basic [tame_intros]:
  "tame (sret x)" "tame (sfail e)" "tame (sassert b)" "tame (of_result r)" "tame is_witness_generator"
  by (auto intro!: tame_still simp: sret_def sfail_def sassert_def of_result_def is_witness_generator_def)

lemma tame_alloc [tame_intros]: "tame (alloc f)"
  by (rule tameI) (auto simp: alloc_def refused_def extends_def known_after_def checked_def split: if_splits sum.splits)

lemma tame_alloc_input [tame_intros]: "tame (alloc_input f)"
  by (rule tameI) (auto simp: alloc_input_def refused_def extends_def known_after_def checked_def split: if_splits sum.splits)

lemma tame_extend [tame_intros]: "tame (extend_aux vs)" "tame (extend_inputs vs)"
  by (rule tameI, auto simp: extend_aux_def extend_inputs_def extends_def known_after_def checked_def)+

lemma tame_enforce [tame_intros]: "tame (enforce name a b c)"
proof (rule tameI)
  fix m cs r cs' rs assume run: "enforce name a b c m cs = (r, cs', rs)"
  let ?r = "\<lparr>rule_path = path cs @ [name], rule_a = a, rule_b = b, rule_c = c\<rparr>"
  have cs': "cs' = (if m = Checking \<and> broken cs = None \<and> \<not> holds_in cs ?r then cs\<lparr>broken := Some (path cs @ [name])\<rparr> else cs)"
    and rs: "rs = [?r]"
    using run by (auto simp: enforce_def Let_def holds_in_def)
  have "extends cs cs'" using cs' by (simp add: extends_def)
  moreover from this have "first_failed cs' [?r] (path cs @ [name])" if "\<not> holds_in cs ?r"
    using first_failed_one [OF by_now(2) [OF that]] by simp
  ultimately show "extends cs cs' \<and> path cs' = path cs \<and> (m = Witness \<longrightarrow> known_after cs cs') \<and> (m = Checking \<longrightarrow> checked cs cs' rs)"
    using cs' rs by (auto simp: known_after_def checked_def intro: by_now)
qed

lemma tame_sbind [tame_intros]:
  assumes "tame g" "\<And>x. tame (k x)"
  shows "tame (sbind g k)"
proof (rule tameI)
  fix m cs r cs' rs assume run: "sbind g k m cs = (r, cs', rs)"
  obtain x cs1 rs1 where g: "g m cs = (x, cs1, rs1)" by (metis prod_cases3)
  note t1 = tameD [OF assms(1) g]
  show "extends cs cs' \<and> path cs' = path cs \<and> (m = Witness \<longrightarrow> known_after cs cs') \<and> (m = Checking \<longrightarrow> checked cs cs' rs)"
  proof (cases x)
    case (Inl e)
    then show ?thesis using run g t1 by (simp add: sbind_def)
  next
    case (Inr y)
    obtain rs2 where k: "k y m cs1 = (r, cs', rs2)" "rs = rs1 @ rs2"
      using run g Inr by (auto simp: sbind_def split: prod.splits)
    note t2 = tameD [OF assms(2) k(1)]
    show ?thesis
      using t1 t2 extends_trans [of cs cs1 cs'] known_after_trans [of cs cs1 cs'] checked_trans [of cs cs1 rs1 cs' rs2] k(2) by auto
  qed
qed

lemma tame_ns [tame_intros]:
  assumes "tame g"
  shows "tame (ns name g)"
proof (rule tameI)
  fix m cs r cs' rs assume "ns name g m cs = (r, cs', rs)"
  then obtain cs1 where g: "g m (cs\<lparr>path := path cs @ [name]\<rparr>) = (r, cs1, rs)" "cs' = cs1\<lparr>path := butlast (path cs1)\<rparr>"
    by (auto simp: ns_def split: prod.splits)
  have "extends cs'' (cs1\<lparr>path := q\<rparr>) \<longleftrightarrow> extends cs'' cs1" for cs'' q by (simp add: extends_def)
  then have same: "held_by (cs1\<lparr>path := q\<rparr>) = held_by cs1" "failed_by (cs1\<lparr>path := q\<rparr>) = failed_by cs1" for q
    by (simp_all add: held_by_def failed_by_def fun_eq_iff)
  have first: "first_failed (cs1\<lparr>path := q\<rparr>) = first_failed cs1" for q by (simp add: first_failed_def fun_eq_iff same)
  show "extends cs cs' \<and> path cs' = path cs \<and> (m = Witness \<longrightarrow> known_after cs cs') \<and> (m = Checking \<longrightarrow> checked cs cs' rs)"
    using tameD [OF assms g(1)] g(2) by (auto simp: known_after_def checked_def same first extends_def split: option.splits)
qed

lemma tame_control [tame_intros]:
  "tame g \<Longrightarrow> tame h \<Longrightarrow> tame (if b then g else h)"
  "tame g1 \<Longrightarrow> (\<And>x. tame (h1 x)) \<Longrightarrow> tame (case o' of None \<Rightarrow> g1 | Some x \<Rightarrow> h1 x)"
  "(\<And>x y. tame (h2 x y)) \<Longrightarrow> tame (case p of (x, y) \<Rightarrow> h2 x y)"
  "(\<And>x y. tame (h3 x y z)) \<Longrightarrow> tame ((case p of (x, y) \<Rightarrow> h3 x y) z)"
  "(\<And>x y u. tame (h4 x y u z)) \<Longrightarrow> tame ((case q of (x, y, u) \<Rightarrow> h4 x y u) z)"
  by (auto split: option.splits prod.splits)

lemma tame_smap [tame_intros]: "(\<And>x. tame (f x)) \<Longrightarrow> tame (smap f xs)"
  by (induction xs) (auto intro!: tame_intros)

lemma tame_sfold [tame_intros]: "(\<And>x s. tame (f x s)) \<Longrightarrow> tame (sfold f xs s)"
  by (induction xs arbitrary: s) (auto intro!: tame_intros)

section \<open>Through the gadgets\<close>

definition bellpepper_tame :: "'f::field bellpepper \<Rightarrow> bool" where
  "bellpepper_tame L \<longleftrightarrow> (\<forall>v. tame (alloc_bit L v)) \<and> (\<forall>v. tame (alloc_num L v)) \<and> (\<forall>v. tame (alloc_input_num L v))"

lemma tame_bellpepper [tame_intros]:
  "bellpepper_tame L \<Longrightarrow> tame (alloc_bit L b)" "bellpepper_tame L \<Longrightarrow> tame (alloc_num L v)"
  "bellpepper_tame L \<Longrightarrow> tame (alloc_input_num L v)"
  by (simp_all add: bellpepper_tame_def)

lemma plain_bellpepper_tame: "bellpepper_tame plain_bellpepper"
  unfolding bellpepper_tame_def plain_bellpepper_def plain_alloc_bit_def bellpepper.simps by (intro conjI allI tame_intros)

lemma tame_lc [tame_intros]:
  "tame (lc_alloc v)" "tame (product a b c)" "tame (equal a b)" "tame (mul a b)" "tame (mux a b c)" "tame (nonzero a)"
  unfolding lc_alloc_def product_def equal_def mul_def mux_def nonzero_def by (intro tame_intros)+

lemma tame_to_num [tame_intros]: "bellpepper_tame L \<Longrightarrow> tame (to_num L a)"
  unfolding to_num_def by (intro tame_intros)

lemma tame_bits [tame_intros]:
  assumes "bellpepper_tame L"
  shows "tame (alloc_bits L v n)" "tame (bits L repr x n)" "tame (digest_bits L repr high low)" "tame (range_check L repr x n)"
  unfolding alloc_bits_def bits_def digest_bits_def range_check_def by (intro tame_intros assms)+

lemma tame_less_than [tame_intros]: "tame (less_than bs c)"
  unfolding less_than_def less_step_def by (intro tame_intros)

lemma tame_expect [tame_intros]: "tame (expect bs pattern)"
  unfolding expect_def by (intro tame_intros)

lemma tame_hot [tame_intros]: "bellpepper_tame L \<Longrightarrow> tame (one_hot_alloc L n i)" "tame (hot_select h entries)"
  unfolding one_hot_alloc_def hot_select_def select_step_def by (intro tame_intros; (assumption | simp))+

lemma tame_message [tame_intros]:
  assumes L: "bellpepper_tame L"
  shows "tame (message_open L cells region last_index)" "tame (message_read L repr msg at_offset len)"
  unfolding message_open_def message_read_def read_reached_def read_chunks_def read_values_def shift_stage_def Let_def
  by (intro tame_intros L)+

lemma tame_points [tame_intros]:
  "tame (point_alloc key)" "tame (point_add p q)" "tame (point_double p)" "tame (point_choose b p q)"
  unfolding point_alloc_def point_add_def point_double_def point_choose_def from_slope_def Let_def by (intro tame_intros)+

lemma tame_multiply [tame_intros]: "tame (multiply K bs p)" "tame (multiply_generator K bs)"
  unfolding multiply_def multiply_generator_def multiply_bit_def generator_window_def Let_def by (intro tame_intros)+

lemma tame_verify [tame_intros]: "bellpepper_tame L \<Longrightarrow> tame (verify L K digest key signature)"
  unfolding verify_def by (intro tame_intros)

lemma tame_allocate [tame_intros]: "bellpepper_tame L \<Longrightarrow> tame (allocate L table)"
  unfolding allocate_def allocate_position_def by (intro tame_intros)

lemma tame_core [tame_intros]:
  assumes "bellpepper_tame L"
  shows "tame (core_shared L core)" "tame (core_precommitted L repr K core cells)" "tame (core_synthesize L repr K core facts)"
  unfolding core_shared_def core_precommitted_def core_synthesize_def age_part_def nym_part_def facts_into_slots_def window_slots_def
    commitment_and_slots_def seed_and_nym_def nym_into_slots_def presentation_check_def public_inputs_def compare_facts_def
    pattern_check_def pattern_inputs_def compare_bytes_def compare_limbs_def nym_check_def
    date_time_def listed_digest_def signed_part_def birth_date_part_def device_key_part_def Let_def
  by (intro tame_intros assms)+

definition gadget_tame :: "('u, 'f::field) sha_gadget \<Rightarrow> bool" where
  "gadget_tame G \<longleftrightarrow> (\<forall>block words. tame (sha256_compression_function G block words))"

lemma tame_step [tame_intros]:
  assumes "bellpepper_tame L" "gadget_tame G"
  shows "tame (step_shared L step)" "tame (step_precommitted G L repr step cells)" "tame (step_synthesize step facts)"
  unfolding step_shared_def step_precommitted_def step_synthesize_def step_compression_def select_bits_def Let_def
  using assms(2) by (intro tame_intros assms; simp add: gadget_tame_def)+

lemma tame_truth_table [tame_intros]: "tame (truth_table bs f)"
  by (induction bs arbitrary: f) (auto intro!: tame_intros)

lemma table_gadget_tame: "gadget_tame table_gadget"
  unfolding gadget_tame_def table_gadget_def sha_gadget.simps by (intro allI tame_intros)

end
