(* ===== verification/App.thy ===== *)
theory App
  imports Tame
begin

text \<open>
  What the application does around the prover (\<open>app.rs\<close>): the shapes and their validation, the circuits
  as values and as replays of recorded values, the search for the first broken rule, and the verifier's
  acceptance. The prover's crate is a parameter: its setup, its proofs and its serialization.
\<close>

section \<open>Circuits\<close>

text \<open>The trait \<open>VegaCircuit\<close>, as a record of its methods, and its instances for the step and the core.\<close>

record 'f circuit =
  circuit_public_values :: "synth_error + 'f list"
  circuit_shared :: "('f AllocatedNum list, 'f) synth"
  circuit_precommitted :: "'f AllocatedNum list \<Rightarrow> ('f AllocatedNum list, 'f) synth"
  circuit_num_challenges :: nat
  circuit_synthesize :: "'f AllocatedNum list \<Rightarrow> 'f AllocatedNum list \<Rightarrow> (unit, 'f) synth"

definition step_circuit :: "('u, 'f::field) sha_gadget \<Rightarrow> 'f bellpepper \<Rightarrow> ('f \<Rightarrow> nat) \<Rightarrow> Step \<Rightarrow> 'f circuit" where
  "step_circuit G L repr step =
     \<lparr>circuit_public_values = Inr (step_public_values step), circuit_shared = step_shared L step,
      circuit_precommitted = step_precommitted G L repr step, circuit_num_challenges = step_num_challenges,
      circuit_synthesize = (\<lambda>_. step_synthesize step)\<rparr>"

definition core_circuit :: "'f::field bellpepper \<Rightarrow> ('f \<Rightarrow> nat) \<Rightarrow> 'f Constants \<Rightarrow> MdocNymCore \<Rightarrow> 'f circuit" where
  "core_circuit L repr K core =
     \<lparr>circuit_public_values = core_public_values core, circuit_shared = core_shared L core,
      circuit_precommitted = core_precommitted L repr K core, circuit_num_challenges = num_challenges,
      circuit_synthesize = (\<lambda>_. core_synthesize L repr K core)\<rparr>"

section \<open>Shapes\<close>

type_synonym usize = nat

definition checked_add :: "usize \<Rightarrow> usize \<Rightarrow> usize option" where
  "checked_add a b = (if a + b < 2 ^ 64 then Some (a + b) else None)"

text \<open>\<open>+\<close> of a release build, which wraps.\<close>

definition wrapping_add :: "usize \<Rightarrow> usize \<Rightarrow> usize" where
  "wrapping_add a b = (a + b) mod 2 ^ 64"

datatype 'e vega_error = InternalError string | ProverError 'e

definition BUDGET :: nat where "BUDGET = budget AGE"

definition SMALL_VALUES :: bool where "SMALL_VALUES = False"

definition within_budget :: "string \<Rightarrow> usize \<Rightarrow> usize \<Rightarrow> usize \<Rightarrow> 'e vega_error + unit" where
  "within_budget circuit rules vals limit =
    (if rules > limit \<or> vals > limit
     then Inl (InternalError (''the '' @ circuit @ '' has '' @ show_nat rules @ '' rules and '' @ show_nat vals @
       '' values, past '' @ show_nat limit))
     else Inr ())"

record 'f StoredMatrix =
  entries :: "'f list"
  indices :: "usize list"
  indptr :: "usize list"
  cols :: usize

record 'f StoredShape =
  num_cons :: usize
  num_cons_unpadded :: usize
  num_shared_unpadded :: usize
  num_precommitted_unpadded :: usize
  num_rest_unpadded :: usize
  num_shared :: usize
  num_precommitted :: usize
  num_rest :: usize
  num_public :: usize
  shape_challenges :: usize
  shape_a :: "'f StoredMatrix"
  shape_b :: "'f StoredMatrix"
  shape_c :: "'f StoredMatrix"

datatype shape_error =
    WrongColumns string nat nat
  | WrongIndices string nat nat
  | WrongRowPointers string nat nat
  | NotSpanning string
  | Decreasing string
  | PastColumns string nat
  | Exceeds nat string nat
  | SizesOverflow

definition validate_matrix :: "string \<Rightarrow> usize \<Rightarrow> usize \<Rightarrow> 'f StoredMatrix \<Rightarrow> shape_error + unit" where
  "validate_matrix name rows ncols m =
    (let n = length (entries m) in
     if cols m \<noteq> ncols then Inl (WrongColumns name (cols m) ncols)
     else if length (indices m) \<noteq> n then Inl (WrongIndices name (length (indices m)) n)
     else if checked_add rows 1 \<noteq> Some (length (indptr m)) then Inl (WrongRowPointers name (length (indptr m)) rows)
     else if \<not> (indptr m \<noteq> [] \<and> hd (indptr m) = 0 \<and> List.last (indptr m) = n) then Inl (NotSpanning name)
     else if list_ex (\<lambda>(a, b). a > b) (zip (indptr m) (tl (indptr m))) then Inl (Decreasing name)
     else if list_ex (\<lambda>c. c \<ge> ncols) (indices m) then Inl (PastColumns name ncols)
     else Inr ())"

fun check_pairs :: "(string \<times> usize \<times> usize) list \<Rightarrow> shape_error + unit" where
  "check_pairs [] = Inr ()"
| "check_pairs ((what, unpadded, padded) # rest) =
    (if unpadded > padded then Inl (Exceeds unpadded what padded) else check_pairs rest)"

definition obind :: "'a option \<Rightarrow> ('a \<Rightarrow> 'b option) \<Rightarrow> 'b option" where
  "obind m f = (case m of None \<Rightarrow> None | Some x \<Rightarrow> f x)"

definition shape_cols :: "'f StoredShape \<Rightarrow> usize option" where
  "shape_cols s =
     obind (checked_add (num_shared s) (num_precommitted s)) (\<lambda>n.
     obind (checked_add n (num_rest s)) (\<lambda>n.
     obind (checked_add n (wrapping_add 1 (shape_challenges s))) (\<lambda>n.
     checked_add n (num_public s))))"

definition validate_shape :: "'f StoredShape \<Rightarrow> shape_error + unit" where
  "validate_shape s =
     rbind (check_pairs
       [(''constraints'', num_cons_unpadded s, num_cons s), (''shared values'', num_shared_unpadded s, num_shared s),
        (''precommitted values'', num_precommitted_unpadded s, num_precommitted s), (''rest values'', num_rest_unpadded s, num_rest s)]) (\<lambda>_.
     rbind (ok_or SizesOverflow (shape_cols s)) (\<lambda>ncols.
     rbind (validate_matrix ''A'' (num_cons s) ncols (shape_a s)) (\<lambda>_.
     rbind (validate_matrix ''B'' (num_cons s) ncols (shape_b s)) (\<lambda>_.
     validate_matrix ''C'' (num_cons s) ncols (shape_c s)))))"

definition shape_variable :: "'f StoredShape \<Rightarrow> usize \<Rightarrow> var" where
  "shape_variable s column =
    (let pre_at = num_shared s; rest_at = pre_at + num_precommitted s; inputs_at = rest_at + num_rest s in
     if column < pre_at then Aux column
     else if column < rest_at then Aux (num_shared_unpadded s + column - pre_at)
     else if column < inputs_at then Aux (num_shared_unpadded s + num_precommitted_unpadded s + column - rest_at)
     else Input (column - inputs_at))"

definition shape_row :: "'f StoredShape \<Rightarrow> 'f StoredMatrix \<Rightarrow> nat \<Rightarrow> 'f lincomb" where
  "shape_row s m r =
     fold (\<lambda>i l. l @ [(shape_variable s (indices m ! i), entries m ! i)]) [indptr m ! r..<indptr m ! (r + 1)] []"

definition replay_allocate :: "nat \<Rightarrow> (unit, 'f::field) synth" where
  "replay_allocate count =
     sbind is_witness_generator (\<lambda>witness.
     if witness then sfail AssignmentMissing
     else sbind (smap (\<lambda>_. alloc (Inl AssignmentMissing)) [0..<count]) (\<lambda>_. sret ()))"

definition shape_replay :: "'f::field StoredShape \<Rightarrow> 'f circuit" where
  "shape_replay s =
     \<lparr>circuit_public_values = Inl AssignmentMissing,
      circuit_shared = sbind (replay_allocate (num_shared_unpadded s)) (\<lambda>_. sret []),
      circuit_precommitted = (\<lambda>_. sbind (replay_allocate (num_precommitted_unpadded s)) (\<lambda>_. sret [])),
      circuit_num_challenges = shape_challenges s,
      circuit_synthesize = (\<lambda>_ _.
        sbind (replay_allocate (num_rest_unpadded s)) (\<lambda>_.
        sbind (smap (\<lambda>_. alloc_input (Inl AssignmentMissing)) [0..<wrapping_add (shape_challenges s) (num_public s)]) (\<lambda>_.
        sbind (smap (\<lambda>r. enforce (''row '' @ show_nat r) (shape_row s (shape_a s) r) (shape_row s (shape_b s) r) (shape_row s (shape_c s) r))
          [0..<num_cons_unpadded s]) (\<lambda>_. sret ()))))\<rparr>"

section \<open>Setup and proofs\<close>

text \<open>
  What the application uses of the prover's crate: shapes, setup, proofs, verification and the serialization
  of shapes and proofs.
\<close>

record ('f, 'pk, 'vk, 'prep, 'proof, 'shape, 'e) vega =
  r1cs_shape :: "'f circuit \<Rightarrow> 'e + 'shape"
  sizes :: "'shape \<Rightarrow> usize list"
  serialize_shapes :: "'shape \<Rightarrow> 'shape \<Rightarrow> string + bytes"
  deserialize_shapes :: "bytes \<Rightarrow> string + 'f StoredShape \<times> 'f StoredShape"
  vega_setup :: "'f circuit \<Rightarrow> 'f circuit \<Rightarrow> nat \<Rightarrow> 'e + 'pk \<times> 'vk"
  prep_prove :: "'pk \<Rightarrow> 'f circuit list \<Rightarrow> 'f circuit \<Rightarrow> bool \<Rightarrow> 'e + 'prep"
  vega_prove :: "'pk \<Rightarrow> 'f circuit list \<Rightarrow> 'f circuit \<Rightarrow> 'prep \<Rightarrow> bool \<Rightarrow> 'e + 'proof \<times> 'prep"
  vega_verify :: "'proof \<Rightarrow> 'vk \<Rightarrow> nat \<Rightarrow> 'e + 'f list list \<times> 'f list"
  serialize_proof :: "'proof \<Rightarrow> string + bytes"
  deserialize_proof :: "bytes \<Rightarrow> string + 'proof"
  serialized_size :: "'proof \<Rightarrow> string + nat"

definition shapes ::
  "('f::field, 'pk, 'vk, 'prep, 'proof, 'shape, 'e) vega \<Rightarrow> 'f circuit \<Rightarrow> 'f circuit \<Rightarrow> Layout \<Rightarrow> 'e vega_error + bytes" where
  "shapes V step core layout =
     rbind (map_err ProverError (r1cs_shape V step)) (\<lambda>step.
     rbind (map_err ProverError (r1cs_shape V core)) (\<lambda>core.
     let check = (\<lambda>circuit shape. within_budget circuit (sizes V shape ! 4)
       (sizes V shape ! 5 + sizes V shape ! 6 + sizes V shape ! 7) (budget layout)) in
     rbind (check ''step'' step) (\<lambda>_.
     rbind (check ''core'' core) (\<lambda>_.
     map_err (\<lambda>e. InternalError (''serializing the shapes: '' @ e)) (serialize_shapes V step core)))))"

definition setup_from_shapes_in ::
  "(shape_error \<Rightarrow> string) \<Rightarrow> ('f::field, 'pk, 'vk, 'prep, 'proof, 'shape, 'e) vega \<Rightarrow> Layout \<Rightarrow> bytes \<Rightarrow> 'e vega_error + 'pk \<times> 'vk" where
  "setup_from_shapes_in reason V layout bs =
     rbind (map_err (\<lambda>e. InternalError (''reading the shapes: '' @ e)) (deserialize_shapes V bs)) (\<lambda>(step, core).
     let valid = (\<lambda>circuit s. map_err (\<lambda>e. InternalError (''the '' @ circuit @ '' shape is inconsistent: '' @ reason e)) (validate_shape s));
         fits = (\<lambda>circuit s. within_budget circuit (num_cons s) (num_shared s + num_precommitted s + num_rest s) (budget layout)) in
     rbind (valid ''step'' step) (\<lambda>_.
     rbind (valid ''core'' core) (\<lambda>_.
     rbind (fits ''step'' step) (\<lambda>_.
     rbind (fits ''core'' core) (\<lambda>_.
     map_err ProverError (vega_setup V (shape_replay step) (shape_replay core) (instances layout)))))))"

definition app_steps :: "Table \<Rightarrow> Step list" where
  "app_steps table = map (\<lambda>position. step_new position table) [0..<instances (tlayout table)]"

definition prepare ::
  "('f, 'pk, 'vk, 'prep, 'proof, 'shape, 'e) vega \<Rightarrow> 'pk \<Rightarrow> 'f circuit list \<Rightarrow> 'f circuit \<Rightarrow> 'e + 'prep" where
  "prepare V pk steps core = prep_prove V pk steps core SMALL_VALUES"

definition app_prove ::
  "('f, 'pk, 'vk, 'prep, 'proof, 'shape, 'e) vega \<Rightarrow> 'pk \<Rightarrow> 'f circuit list \<Rightarrow> 'f circuit \<Rightarrow> 'prep \<Rightarrow> 'e + 'proof \<times> 'prep" where
  "app_prove V pk steps core prepared = vega_prove V pk steps core prepared SMALL_VALUES"

datatype ('f, 'e) Rejection =
    Invalid 'e
  | Position nat "'f list"
  | PublicValues "'f list"

fun check_positions :: "nat \<Rightarrow> 'f::field list list \<Rightarrow> ('f, 'e) Rejection + unit" where
  "check_positions i [] = Inr ()"
| "check_positions i (reported # rest) =
    (if reported \<noteq> [of_nat i] then Inl (Position i reported) else check_positions (Suc i) rest)"

definition verified ::
  "('f::field, 'pk, 'vk, 'prep, 'proof, 'shape, 'e) vega \<Rightarrow> Layout \<Rightarrow> 'vk \<Rightarrow> 'proof \<Rightarrow> ('f, 'e) Rejection + 'f list" where
  "verified V layout vk proof =
     rbind (map_err Invalid (vega_verify V proof vk (instances layout))) (\<lambda>(steps, core).
     rbind (check_positions 0 steps) (\<lambda>_. Inr core))"

definition accept_pseudonym ::
  "('f::field \<Rightarrow> nat) \<Rightarrow> ('f, 'pk, 'vk, 'prep, 'proof, 'shape, 'e) vega \<Rightarrow> Layout \<Rightarrow> 'vk \<Rightarrow> 'proof \<Rightarrow> 'f list \<Rightarrow>
    ('f, 'e) Rejection + bytes" where
  "accept_pseudonym repr V layout vk proof expected =
     rbind (verified V layout vk proof) (\<lambda>core.
     ok_or (PublicValues core)
       (if length core = length expected + 2 \<and> take (length expected) core = expected then pseudonym_of repr core else None))"

section \<open>The first broken rule\<close>

definition join_path :: "string list \<Rightarrow> string" where
  "join_path p = (case p of [] \<Rightarrow> [] | x # xs \<Rightarrow> x @ concat (map (\<lambda>y. ''/'' @ y) xs))"

definition circuit_run :: "'f circuit \<Rightarrow> (unit, 'f) synth" where
  "circuit_run c =
     sbind (ns ''shared'' (circuit_shared c)) (\<lambda>shared.
     sbind (ns ''precommitted'' (circuit_precommitted c shared)) (\<lambda>pre.
     ns ''rest'' (circuit_synthesize c shared pre)))"

definition check_start :: "'f::field cs" where
  "check_start = \<lparr>aux = [], inputs = [Some 1], path = [], broken = None\<rparr>"

definition first_broken :: "'f::field circuit \<Rightarrow> synth_error + string option" where
  "first_broken c =
    (case circuit_run c Checking check_start of (synthesis, cs', _) \<Rightarrow>
       if synthesis = Inl Panicked then Inl Panicked
       else case broken cs' of
          Some p \<Rightarrow> Inr (Some (join_path p))
        | None \<Rightarrow> rbind synthesis (\<lambda>_. Inr None))"

section \<open>Witnesses and replays\<close>

record 'f Assignment =
  asg_shared :: "'f Segment"
  asg_steps :: "'f Instance list"
  asg_core :: "'f Instance"

text \<open>The witness generator starts with the constant one among its inputs; every value it holds is known.\<close>

definition known :: "'f::field option list \<Rightarrow> 'f list" where
  "known vs = map (\<lambda>v. case v of Some x \<Rightarrow> x | None \<Rightarrow> 0) vs"

definition segment_mark :: "'f cs \<Rightarrow> nat \<times> nat" where
  "segment_mark cs = (length (aux cs), length (inputs cs))"

definition segment_since :: "'f::field cs \<Rightarrow> nat \<times> nat \<Rightarrow> 'f Segment" where
  "segment_since cs m = \<lparr>seg_private = known (drop (fst m) (aux cs)), seg_public = known (drop (snd m) (inputs cs))\<rparr>"

definition segment_replay :: "'f Segment \<Rightarrow> (unit, 'f) synth" where
  "segment_replay s =
     sbind is_witness_generator (\<lambda>witness.
     if \<not> witness then sfail AssignmentMissing
     else sbind (extend_inputs (seg_public s)) (\<lambda>_. extend_aux (seg_private s)))"

definition replay :: "'f Segment \<Rightarrow> 'f Instance \<Rightarrow> 'f circuit" where
  "replay shared inst =
     \<lparr>circuit_public_values = Inr (inst_public inst),
      circuit_shared = sbind (segment_replay shared) (\<lambda>_. sret []),
      circuit_precommitted = (\<lambda>_. sbind (segment_replay (inst_precommitted inst)) (\<lambda>_. sret [])),
      circuit_num_challenges = 0,
      circuit_synthesize = (\<lambda>_ _. segment_replay (inst_rest inst))\<rparr>"

definition replay_steps :: "'f Assignment \<Rightarrow> 'f circuit list" where
  "replay_steps a = map (replay (asg_shared a)) (asg_steps a)"

definition replay_core :: "'f Assignment \<Rightarrow> 'f circuit" where
  "replay_core a = replay (asg_shared a) (asg_core a)"

definition circuit_instance :: "'f::field circuit \<Rightarrow> 'f AllocatedNum list \<Rightarrow> synth_error + 'f Instance" where
  "circuit_instance c shared =
    (case circuit_precommitted c shared Witness check_start of
       (Inl e, _) \<Rightarrow> Inl e
     | (Inr pre, cs, _) \<Rightarrow>
         (case circuit_synthesize c shared pre Witness cs of
            (Inl e, _) \<Rightarrow> Inl e
          | (Inr _, cs', _) \<Rightarrow>
              rbind (circuit_public_values c) (\<lambda>vs.
              Inr \<lparr>inst_precommitted = segment_since cs (segment_mark (check_start :: 'f cs)), inst_rest = segment_since cs' (segment_mark cs),
                inst_public = vs\<rparr>)))"

fun collect :: "('e + 'a) list \<Rightarrow> 'e + 'a list" where
  "collect [] = Inr []"
| "collect (r # rs) = rbind r (\<lambda>x. rbind (collect rs) (\<lambda>xs. Inr (x # xs)))"

definition witness :: "'f::field bellpepper \<Rightarrow> ('f \<Rightarrow> nat) \<Rightarrow> Step list \<Rightarrow> 'f circuit \<Rightarrow> synth_error + 'f Assignment" where
  "witness L repr steps core =
    (case steps of
       [] \<Rightarrow> Inl AssignmentMissing
     | first_step # _ \<Rightarrow>
         (case step_shared L first_step Witness check_start of
            (Inl e, _) \<Rightarrow> Inl e
          | (Inr shared_values, cs, _) \<Rightarrow>
              rbind (collect (map (step_assignment repr) steps)) (\<lambda>step_insts.
              rbind (circuit_instance core shared_values) (\<lambda>core_inst.
              Inr \<lparr>asg_shared = segment_since cs (segment_mark (check_start :: 'f cs)), asg_steps = step_insts, asg_core = core_inst\<rparr>))))"

section \<open>Validated shapes\<close>

lemma rbind_unit: "rbind r (\<lambda>_. s) = Inr y \<longleftrightarrow> (\<exists>x. r = Inr x) \<and> s = Inr y"
  by (cases r) simp_all

definition matrix_ok :: "usize \<Rightarrow> usize \<Rightarrow> 'f StoredMatrix \<Rightarrow> bool" where
  "matrix_ok rows ncols m \<longleftrightarrow> length (indptr m) = rows + 1 \<and> length (indices m) = length (entries m) \<and>
     (\<forall>r < rows. indptr m ! r \<le> indptr m ! (r + 1) \<and> indptr m ! (r + 1) \<le> length (entries m)) \<and>
     (\<forall>c \<in> set (indices m). c < ncols)"

lemma pointers_rise:
  assumes "\<not> list_ex (\<lambda>(a, b). a > b) (zip ps (tl ps))" "i \<le> j" "j < length ps"
  shows "ps ! i \<le> (ps ! j :: nat)"
  using assms(2,3)
proof (induction j rule: dec_induct)
  case (step j)
  have "zip ps (tl ps) ! j = (ps ! j, ps ! Suc j)" "j < length (zip ps (tl ps))" using step.prems by (simp_all add: nth_tl)
  then have "ps ! j \<le> ps ! Suc j" using assms(1) by (fastforce simp: list_ex_length)
  then show ?case using step by simp
qed simp

lemma validate_matrix_ok:
  assumes "validate_matrix name rows ncols m = Inr u"
  shows "matrix_ok rows ncols m"
proof -
  have v: "length (indices m) = length (entries m)" "checked_add rows 1 = Some (length (indptr m))" "indptr m \<noteq> []"
    "hd (indptr m) = 0" "List.last (indptr m) = length (entries m)"
    "\<not> list_ex (\<lambda>(a, b). a > b) (zip (indptr m) (tl (indptr m)))" "\<not> list_ex (\<lambda>c. c \<ge> ncols) (indices m)"
    using assms by (auto simp: validate_matrix_def Let_def split: if_splits)
  have len: "length (indptr m) = rows + 1" using v(2) by (auto simp: checked_add_def split: if_splits)
  have "indptr m ! (r + 1) \<le> length (entries m)" if "r < rows" for r
    using pointers_rise [OF v(6), of "r + 1" rows] that len v(3,5) by (simp add: last_conv_nth)
  moreover have "indptr m ! r \<le> indptr m ! (r + 1)" if "r < rows" for r
    using pointers_rise [OF v(6), of r "r + 1"] that len by simp
  ultimately show ?thesis using len v(1,7) by (auto simp: matrix_ok_def list_ex_iff not_le)
qed

lemma validate_shape_ok:
  assumes "validate_shape s = Inr u"
  shows "num_cons_unpadded s \<le> num_cons s" "num_shared_unpadded s \<le> num_shared s"
    "num_precommitted_unpadded s \<le> num_precommitted s" "num_rest_unpadded s \<le> num_rest s"
    "\<exists>ncols. shape_cols s = Some ncols \<and> (\<forall>m \<in> {shape_a s, shape_b s, shape_c s}. matrix_ok (num_cons s) ncols m)"
  using assms validate_matrix_ok
  by (fastforce simp: validate_shape_def rbind_unit rbind_eq_Inr ok_or_def split: if_splits option.splits)+

text \<open>The columns that are not padding.\<close>

definition real_column :: "'f StoredShape \<Rightarrow> usize \<Rightarrow> bool" where
  "real_column s c \<longleftrightarrow>
     (let pre_at = num_shared s; rest_at = pre_at + num_precommitted s; inputs_at = rest_at + num_rest s in
      c < num_shared_unpadded s \<or> pre_at \<le> c \<and> c < pre_at + num_precommitted_unpadded s \<or>
      rest_at \<le> c \<and> c < rest_at + num_rest_unpadded s \<or> inputs_at \<le> c)"

text \<open>The variables that a constraint system has allocated, and the terms of a row.\<close>

fun allocated :: "'f cs \<Rightarrow> var \<Rightarrow> bool" where
  "allocated cs (Aux v) \<longleftrightarrow> v < length (aux cs)"
| "allocated cs (Input i) \<longleftrightarrow> i < length (inputs cs)"

definition row_terms :: "'f StoredShape \<Rightarrow> 'f StoredMatrix \<Rightarrow> nat \<Rightarrow> 'f lincomb" where
  "row_terms s m r = map (\<lambda>i. (shape_variable s (indices m ! i), entries m ! i)) [indptr m ! r..<indptr m ! (r + 1)]"

lemma shape_row_terms: "shape_row s m r = row_terms s m r"
proof -
  have "fold (\<lambda>i l. l @ [f i]) xs l = l @ map f xs" for f :: "nat \<Rightarrow> var \<times> 'a" and xs l by (induction xs arbitrary: l) simp_all
  then show ?thesis by (simp add: shape_row_def row_terms_def)
qed

lemma matrix_ok_row:
  assumes "matrix_ok rows ncols m" "r < rows"
  shows "r + 1 < length (indptr m) \<and> (\<forall>i. indptr m ! r \<le> i \<longrightarrow> i < indptr m ! (r + 1) \<longrightarrow>
    i < length (entries m) \<and> i < length (indices m) \<and> indices m ! i < ncols)"
proof -
  have "indptr m ! (r + 1) \<le> length (entries m)" "length (indptr m) = rows + 1" "length (indices m) = length (entries m)"
    using assms by (simp_all add: matrix_ok_def)
  moreover have "indices m ! i < ncols" if "i < length (indices m)" for i
    using assms(1) nth_mem [OF that] by (simp add: matrix_ok_def)
  ultimately show ?thesis using assms(2) by auto
qed

lemma smap_alloc_shape:
  fixes cs :: "'f::field cs"
  shows "\<exists>vs. smap (\<lambda>_. alloc (Inl AssignmentMissing)) xs Shape cs = (Inr vs, cs\<lparr>aux := aux cs @ replicate (length xs) None\<rparr>, [])"
proof (induction xs arbitrary: cs)
  case (Cons x xs)
  obtain vs where "smap (\<lambda>_. alloc (Inl AssignmentMissing)) xs Shape (cs\<lparr>aux := aux cs @ [None]\<rparr>) =
      (Inr vs, cs\<lparr>aux := aux cs @ None # replicate (length xs) None\<rparr>, [])"
    using Cons [of "cs\<lparr>aux := aux cs @ [None]\<rparr>"] by auto
  moreover have "alloc (Inl AssignmentMissing) Shape cs = (Inr (Aux (length (aux cs))), cs\<lparr>aux := aux cs @ [None]\<rparr>, [])"
    by (simp add: alloc_def)
  ultimately show ?case by (simp add: sbind_def sret_def)
qed (simp add: sret_def)

lemma replay_allocate_shape: "replay_allocate n Shape cs = (Inr (), cs\<lparr>aux := aux cs @ replicate n None\<rparr>, [])"
proof -
  obtain vs where "smap (\<lambda>_. alloc (Inl AssignmentMissing)) [0..<n] Shape cs = (Inr vs, cs\<lparr>aux := aux cs @ replicate n None\<rparr>, [])"
    using smap_alloc_shape [of "[0..<n]" cs] by auto
  then show ?thesis by (simp add: replay_allocate_def sbind_def is_witness_generator_def sret_def)
qed

lemma smap_inputs_shape:
  fixes cs :: "'f::field cs"
  shows "\<exists>vs. smap (\<lambda>_. alloc_input (Inl AssignmentMissing)) xs Shape cs = (Inr vs, cs\<lparr>inputs := inputs cs @ replicate (length xs) None\<rparr>, [])"
proof (induction xs arbitrary: cs)
  case (Cons x xs)
  obtain vs where "smap (\<lambda>_. alloc_input (Inl AssignmentMissing)) xs Shape (cs\<lparr>inputs := inputs cs @ [None]\<rparr>) =
      (Inr vs, cs\<lparr>inputs := inputs cs @ None # replicate (length xs) None\<rparr>, [])"
    using Cons [of "cs\<lparr>inputs := inputs cs @ [None]\<rparr>"] by auto
  moreover have "alloc_input (Inl AssignmentMissing) Shape cs = (Inr (Input (length (inputs cs))), cs\<lparr>inputs := inputs cs @ [None]\<rparr>, [])"
    by (simp add: alloc_input_def)
  ultimately show ?case by (simp add: sbind_def sret_def)
qed (simp add: sret_def)

lemma smap_enforce_shape:
  "\<exists>us. smap (\<lambda>r. enforce (name r) (a r) (b r) (c r)) xs Shape cs =
     (Inr us, cs, map (\<lambda>r. \<lparr>rule_path = path cs @ [name r], rule_a = a r, rule_b = b r, rule_c = c r\<rparr>) xs)"
  by (induction xs) (auto simp: sbind_def sret_def enforce_def Let_def)

lemma shape_replay_run:
  "\<exists>cs'. circuit_run (shape_replay s) Shape check_start = (Inr (), cs', map (\<lambda>r. \<lparr>rule_path = [''rest'', ''row '' @ show_nat r],
      rule_a = shape_row s (shape_a s) r, rule_b = shape_row s (shape_b s) r, rule_c = shape_row s (shape_c s) r\<rparr>) [0..<num_cons_unpadded s]) \<and>
    length (aux cs') = num_shared_unpadded s + num_precommitted_unpadded s + num_rest_unpadded s \<and>
    length (inputs cs') = 1 + wrapping_add (shape_challenges s) (num_public s)"
proof -
  let ?n = "wrapping_add (shape_challenges s) (num_public s)"
  let ?cs = "check_start\<lparr>path := [''rest''], aux := replicate (num_shared_unpadded s + num_precommitted_unpadded s + num_rest_unpadded s) None\<rparr> :: 'a cs"
  obtain vs where "smap (\<lambda>_. alloc_input (Inl AssignmentMissing)) [0..<?n] Shape ?cs = (Inr vs, ?cs\<lparr>inputs := inputs ?cs @ replicate ?n None\<rparr>, [])"
    using smap_inputs_shape [of "[0..<?n]" ?cs] by auto
  then show ?thesis
    using smap_enforce_shape [of "\<lambda>r. ''row '' @ show_nat r" "shape_row s (shape_a s)" "shape_row s (shape_b s)" "shape_row s (shape_c s)" "[0..<num_cons_unpadded s]"
        "?cs\<lparr>inputs := inputs ?cs @ replicate ?n None\<rparr>"]
    by (auto simp: circuit_run_def shape_replay_def sbind_def ns_def sret_def replay_allocate_shape check_start_def replicate_add)
qed

lemma shape_inputs:
  assumes "shape_cols s = Some ncols"
  shows "ncols \<le> num_shared s + num_precommitted s + num_rest s + (1 + wrapping_add (shape_challenges s) (num_public s))"
proof -
  let ?c = "shape_challenges s mod 2 ^ 64"
  have sum: "num_public s < 2 ^ 64" "ncols = num_shared s + num_precommitted s + num_rest s + wrapping_add 1 (shape_challenges s) + num_public s"
    "wrapping_add 1 (shape_challenges s) + num_public s < 2 ^ 64"
    using assms by (auto simp: shape_cols_def obind_def checked_add_def split: option.splits if_splits)
  have wrap: "wrapping_add 1 (shape_challenges s) = (1 + ?c) mod 2 ^ 64" "wrapping_add (shape_challenges s) (num_public s) = (?c + num_public s) mod 2 ^ 64"
    unfolding wrapping_add_def by (simp_all only: mod_add_right_eq mod_add_left_eq)
  have c: "?c < 2 ^ 64" by simp
  show ?thesis
  proof (cases "1 + ?c < 2 ^ 64")
    case True
    then show ?thesis using sum unfolding wrap by simp
  next
    case False
    then have "?c = 2 ^ 64 - 1" using c by linarith
    then have "wrapping_add 1 (shape_challenges s) = 0" "num_public s \<le> 1 + wrapping_add (shape_challenges s) (num_public s)"
      unfolding wrap using sum(1) by (cases "num_public s"; simp)+
    then show ?thesis using sum(2) by simp
  qed
qed

text \<open>A circuit whose methods are tame.\<close>

definition circuit_tame :: "'f::field circuit \<Rightarrow> bool" where
  "circuit_tame c \<longleftrightarrow> tame (circuit_shared c) \<and> (\<forall>sh. tame (circuit_precommitted c sh)) \<and>
     (\<forall>sh pre. tame (circuit_synthesize c sh pre))"

lemma core_circuit_tame: "bellpepper_tame L \<Longrightarrow> circuit_tame (core_circuit L repr K core)"
  by (simp add: circuit_tame_def core_circuit_def tame_core)

lemma step_circuit_tame: "bellpepper_tame L \<Longrightarrow> gadget_tame G \<Longrightarrow> circuit_tame (step_circuit G L repr step)"
  by (simp add: circuit_tame_def step_circuit_def tame_step)

lemma tame_circuit_run: "circuit_tame c \<Longrightarrow> tame (circuit_run c)"
  unfolding circuit_run_def circuit_tame_def by (intro tame_intros) simp_all

lemma known_map_Some: "None \<notin> set vs \<Longrightarrow> map Some (known vs) = vs"
proof (induction vs)
  case (Cons a vs)
  then show ?case by (cases a) (auto simp: known_def)
qed (simp add: known_def)

lemma ok_or_if: "ok_or e (if P then o' else None) = Inr x \<longleftrightarrow> P \<and> o' = Some x"
  by (auto simp: ok_or_def split: option.splits)

text \<open>The verifier's acceptance: positions in order, the expected values, then the pseudonym's two.\<close>

lemma accept_pseudonym_iff:
  "accept_pseudonym repr V layout vk proof expected = Inr ps \<longleftrightarrow>
    (\<exists>steps h l. vega_verify V proof vk (instances layout) = Inr (steps, expected @ [h, l]) \<and>
       steps = map (\<lambda>i. [of_nat i]) [0..<length steps] \<and> pseudonym_of repr (expected @ [h, l]) = Some ps)"
proof -
  have pos: "check_positions i ss = Inr () \<longleftrightarrow> ss = map (\<lambda>j. [of_nat j]) [i..<i + length ss]" for i and ss :: "'a list list"
  proof (induction ss arbitrary: i)
    case (Cons x ss)
    have "[i..<i + length (x # ss)] = i # [Suc i..<Suc i + length ss]" by (simp add: upt_conv_Cons del: upt_Suc)
    then show ?case using Cons [of "Suc i"] by (simp del: upt_Suc)
  qed simp
  have two: "length core = length expected + 2 \<and> take (length expected) core = expected \<longleftrightarrow> (\<exists>h l. core = expected @ [h, l])" for core :: "'a list"
  proof
    assume c: "length core = length expected + 2 \<and> take (length expected) core = expected"
    then have "length (drop (length expected) core) = Suc (Suc 0)" by simp
    then obtain h l where "drop (length expected) core = [h, l]" by (auto simp: length_Suc_conv simp del: length_drop)
    then show "\<exists>h l. core = expected @ [h, l]" using c append_take_drop_id [of "length expected" core] by metis
  qed auto
  have ver: "verified V layout vk proof = Inr core \<longleftrightarrow> (\<exists>steps. vega_verify V proof vk (instances layout) = Inr (steps, core) \<and>
      steps = map (\<lambda>i. [of_nat i]) [0..<length steps])" for core
    using pos [of 0] by (cases "vega_verify V proof vk (instances layout)") (auto simp: verified_def rbind_unit split: prod.splits)
  show ?thesis unfolding accept_pseudonym_def rbind_eq_Inr ok_or_if two ver by blast
qed

section \<open>Properties\<close>

text \<open>
  C38. A validated shape replays within its bounds. The replay of the shape, run by the builder of shapes, succeeds and
  adds one rule for each unpadded row, whose three sums are the entries of that row under their columns' variables. The
  entries of a row lie within the matrix, with columns of the shape, so replaying never reads out of range. Every
  column that is not padding is a variable that the replay has allocated, private or public, and different ones are
  different variables.
\<close>

theorem validated_shape_in_bounds:
  assumes "validate_shape s = Inr u"
  shows "\<exists>ncols cs' rs. shape_cols s = Some ncols \<and> circuit_run (shape_replay s) Shape check_start = (Inr (), cs', rs) \<and>
    length rs = num_cons_unpadded s \<and>
    (\<forall>r < num_cons_unpadded s. rule_a (rs ! r) = row_terms s (shape_a s) r \<and> rule_b (rs ! r) = row_terms s (shape_b s) r \<and> rule_c (rs ! r) = row_terms s (shape_c s) r) \<and>
    (\<forall>m \<in> {shape_a s, shape_b s, shape_c s}. \<forall>r < num_cons_unpadded s. r + 1 < length (indptr m) \<and>
      (\<forall>i. indptr m ! r \<le> i \<longrightarrow> i < indptr m ! (r + 1) \<longrightarrow> i < length (entries m) \<and> i < length (indices m) \<and> indices m ! i < ncols)) \<and>
    (\<forall>c < ncols. real_column s c \<longrightarrow> allocated cs' (shape_variable s c)) \<and>
    (\<forall>c d. real_column s c \<longrightarrow> real_column s d \<longrightarrow> shape_variable s c = shape_variable s d \<longrightarrow> c = d)"
proof -
  note ok = validate_shape_ok [OF assms]
  obtain ncols where n: "shape_cols s = Some ncols" "\<And>m. m \<in> {shape_a s, shape_b s, shape_c s} \<Longrightarrow> matrix_ok (num_cons s) ncols m"
    using ok(5) by blast
  have rows: "r + 1 < length (indptr m) \<and> (\<forall>i. indptr m ! r \<le> i \<longrightarrow> i < indptr m ! (r + 1) \<longrightarrow>
      i < length (entries m) \<and> i < length (indices m) \<and> indices m ! i < ncols)"
    if "m \<in> {shape_a s, shape_b s, shape_c s}" "r < num_cons_unpadded s" for m r
    using matrix_ok_row [OF n(2) [OF that(1)], of r] that(2) ok(1) by simp
  have inj: "c = d" if "real_column s c" "real_column s d" "shape_variable s c = shape_variable s d" for c d
    using that ok(2-4) by (auto simp: real_column_def shape_variable_def Let_def split: if_splits)
  obtain cs' where run: "circuit_run (shape_replay s) Shape check_start = (Inr (), cs', map (\<lambda>r. \<lparr>rule_path = [''rest'', ''row '' @ show_nat r],
      rule_a = shape_row s (shape_a s) r, rule_b = shape_row s (shape_b s) r, rule_c = shape_row s (shape_c s) r\<rparr>) [0..<num_cons_unpadded s])"
    and len: "length (aux cs') = num_shared_unpadded s + num_precommitted_unpadded s + num_rest_unpadded s"
      "length (inputs cs') = 1 + wrapping_add (shape_challenges s) (num_public s)"
    using shape_replay_run [of s] by blast
  have alloc: "allocated cs' (shape_variable s c)" if "c < ncols" "real_column s c" for c
    using that ok(2-4) shape_inputs [OF n(1)] len by (auto simp: real_column_def shape_variable_def Let_def split: if_splits)
  show ?thesis
    by (rule exI [of _ ncols], rule exI [of _ cs'], rule exI, intro conjI, rule n(1), rule run)
      (use rows inj alloc in \<open>auto simp: shape_row_terms\<close>)
qed

definition one_entry :: "rat StoredMatrix" where
  "one_entry = \<lparr>entries = [1], indices = [1], indptr = [0, 1], cols = 3\<rparr>"

definition one_rule :: "rat StoredShape" where
  "one_rule = \<lparr>num_cons = 1, num_cons_unpadded = 1, num_shared_unpadded = 0, num_precommitted_unpadded = 0,
     num_rest_unpadded = 1, num_shared = 0, num_precommitted = 0, num_rest = 2, num_public = 0, shape_challenges = 0,
     shape_a = one_entry, shape_b = one_entry, shape_c = one_entry\<rparr>"

lemma one_rule_valid: "validate_shape one_rule = Inr ()"
  by (simp add: validate_shape_def one_rule_def one_entry_def validate_matrix_def shape_cols_def checked_add_def wrapping_add_def obind_def ok_or_def)

theorem validated_shape_in_bounds_witness:
  "\<exists>ncols cs' rs. shape_cols one_rule = Some ncols \<and> circuit_run (shape_replay one_rule) Shape check_start = (Inr (), cs', rs) \<and>
    length rs = 1 \<and> rule_a (rs ! 0) = row_terms one_rule one_entry 0 \<and>
    (\<forall>c < ncols. real_column one_rule c \<longrightarrow> allocated cs' (shape_variable one_rule c))"
proof -
  have "num_cons_unpadded one_rule = 1" "shape_a one_rule = one_entry" by (simp_all add: one_rule_def)
  with validated_shape_in_bounds [OF one_rule_valid] show ?thesis by (metis less_one)
qed

text \<open>
  C36. \<open>first_broken\<close> reports the first broken rule of the circuit: a path it returns is the path of a rule that did not
  hold when the synthesis added it, and every rule added before it held; when it returns none the synthesis succeeded and
  every rule held when it was added. An error is the synthesis's own, and unless it is a panic no rule broke before it.
\<close>

theorem first_broken_reports:
  assumes "circuit_tame (c :: 'f::field circuit)" "circuit_run c Checking check_start = (synthesis, cs', rs)"
  shows "case first_broken c of
      Inr (Some p) \<Rightarrow> \<exists>before r after. rs = before @ r # after \<and> p = join_path (rule_path r) \<and> failed_by cs' r \<and> (\<forall>q \<in> set before. held_by cs' q)
    | Inr None \<Rightarrow> synthesis = Inr () \<and> (\<forall>r \<in> set rs. held_by cs' r)
    | Inl e \<Rightarrow> synthesis = Inl e \<and> (e \<noteq> Panicked \<longrightarrow> (\<forall>r \<in> set rs. held_by cs' r))"
proof -
  have ch: "checked check_start cs' rs" using tameD [OF tame_circuit_run [OF assms(1)] assms(2)] by simp
  show ?thesis
  proof (cases "synthesis = Inl Panicked")
    case True
    then show ?thesis by (simp add: first_broken_def assms(2))
  next
    case False
    then have "first_broken c = (case broken cs' of Some p \<Rightarrow> Inr (Some (join_path p)) | None \<Rightarrow> rbind synthesis (\<lambda>_. Inr None))"
      by (simp add: first_broken_def assms(2))
    then show ?thesis
      using ch False by (cases "broken cs'"; cases synthesis) (auto simp: checked_def check_start_def first_failed_def)
  qed
qed

definition two_rules :: "rat circuit" where
  "two_rules = \<lparr>circuit_public_values = Inr [], circuit_shared = sret [], circuit_precommitted = (\<lambda>_. sret []), circuit_num_challenges = 0,
     circuit_synthesize = (\<lambda>_ _. sbind (alloc (Inr 2)) (\<lambda>x.
       sbind (enforce ''is two'' [(x, 1)] [(one, 1)] [(one, 2)]) (\<lambda>_.
       sbind (enforce ''is three'' [(x, 1)] [(one, 1)] [(one, 3)]) (\<lambda>_. enforce ''is four'' [(x, 1)] [(one, 1)] [(one, 4)]))))\<rparr>"

theorem first_broken_reports_witness:
  "\<exists>before r after cs'. first_broken two_rules = Inr (Some ''rest/is three'') \<and>
     snd (snd (circuit_run two_rules Checking check_start)) = before @ r # after \<and>
     rule_path r = [''rest'', ''is three''] \<and> failed_by cs' r \<and> length before = 1 \<and> (\<forall>q \<in> set before. held_by cs' q)"
proof -
  have t: "circuit_tame two_rules"
    unfolding circuit_tame_def two_rules_def by (auto intro!: tame_intros)
  obtain synthesis cs' rs where run: "circuit_run two_rules Checking check_start = (synthesis, cs', rs)" by (metis prod_cases3)
  have report: "first_broken two_rules = Inr (Some ''rest/is three'')"
    by (simp add: first_broken_def circuit_run_def two_rules_def synth_simps check_start_def check_value_def join_path_def refused_def one_def Let_def)
  have rs: "map rule_path rs = [[''rest'', ''is two''], [''rest'', ''is three''], [''rest'', ''is four'']]"
    using run by (auto simp: circuit_run_def two_rules_def synth_simps check_start_def check_value_def refused_def one_def Let_def)
  obtain before r after where r: "rs = before @ r # after" "join_path (rule_path r) = ''rest/is three''" "failed_by cs' r" "\<forall>q \<in> set before. held_by cs' q"
    using first_broken_reports [OF t run] report by auto
  have "rule_path r \<in> set (map rule_path rs)" using r(1) by simp
  then have p: "rule_path r = [''rest'', ''is three'']" unfolding rs using r(2) by (auto simp: join_path_def)
  have "map rule_path before @ rule_path r # map rule_path after = [[''rest'', ''is two''], [''rest'', ''is three''], [''rest'', ''is four'']]"
    using rs r(1) by simp
  then have "length before = 1" unfolding p by (auto simp: append_eq_Cons_conv Cons_eq_append_conv)
  then show ?thesis using report run r p by auto
qed

text \<open>
  C37. A replay commits to what the circuit commits to. If \<open>instance\<close> recorded a circuit's values, then
  the replay of the record, run by a witness generator from the same start, leaves after each of its two
  segments exactly the private and public values that the circuit leaves, and reports its public values.
\<close>

theorem replay_records_same:
  assumes "circuit_tame c" "circuit_instance c shared = Inr inst"
  shows "\<exists>pre cs rs cs' rs' cs1 cs2. circuit_precommitted c shared Witness check_start = (Inr pre, cs, rs) \<and>
    circuit_synthesize c shared pre Witness cs = (Inr (), cs', rs') \<and>
    circuit_precommitted (replay seg inst) [] Witness check_start = (Inr [], cs1, []) \<and>
    circuit_synthesize (replay seg inst) [] [] Witness cs1 = (Inr (), cs2, []) \<and>
    aux cs1 = aux cs \<and> inputs cs1 = inputs cs \<and> aux cs2 = aux cs' \<and> inputs cs2 = inputs cs' \<and>
    circuit_public_values (replay seg inst) = circuit_public_values c"
proof -
  obtain pre cs rs where p: "circuit_precommitted c shared Witness check_start = (Inr pre, cs, rs)"
    using assms(2) by (auto simp: circuit_instance_def split: prod.splits sum.splits)
  obtain cs' rs' where s: "circuit_synthesize c shared pre Witness cs = (Inr (), cs', rs')"
    using assms(2) by (auto simp: circuit_instance_def p split: prod.splits sum.splits)
  obtain vs where vs: "circuit_public_values c = Inr vs"
    and inst: "inst = \<lparr>inst_precommitted = segment_since cs (segment_mark (check_start :: 'a cs)), inst_rest = segment_since cs' (segment_mark cs), inst_public = vs\<rparr>"
    using assms(2) by (auto simp: circuit_instance_def p s rbind_eq_Inr)
  have t1: "extends check_start cs" "known_after check_start cs" and t2: "extends cs cs'" "known_after cs cs'"
    using tameD [of "circuit_precommitted c shared", OF _ p] tameD [of "circuit_synthesize c shared pre", OF _ s] assms(1) by (auto simp: circuit_tame_def)
  have start: "aux cs = map Some (known (aux cs))" "inputs cs = Some 1 # map Some (known (drop 1 (inputs cs)))"
    using t1 known_map_Some [of "aux cs"] known_map_Some [of "drop 1 (inputs cs)"]
    by (auto simp: extends_def known_after_def check_start_def)
  have later: "aux cs' = aux cs @ map Some (known (drop (length (aux cs)) (aux cs')))"
    "inputs cs' = inputs cs @ map Some (known (drop (length (inputs cs)) (inputs cs')))"
    using t2 by (auto simp: extends_def known_after_def known_map_Some)
  let ?cs1 = "check_start\<lparr>inputs := inputs cs, aux := aux cs\<rparr>" and ?cs2 = "check_start\<lparr>inputs := inputs cs', aux := aux cs'\<rparr>"
  have r1: "circuit_precommitted (replay seg inst) [] Witness check_start = (Inr [], ?cs1, [])"
    using start by (simp add: replay_def segment_replay_def sbind_def is_witness_generator_def extend_inputs_def extend_aux_def sret_def
        inst segment_since_def segment_mark_def check_start_def)
  have r2: "circuit_synthesize (replay seg inst) [] [] Witness ?cs1 = (Inr (), ?cs2, [])"
    using later by (simp add: replay_def segment_replay_def sbind_def is_witness_generator_def extend_inputs_def extend_aux_def sret_def
        inst segment_since_def segment_mark_def check_start_def)
  show ?thesis
    by (rule exI [of _ pre], rule exI [of _ cs], rule exI [of _ rs], rule exI [of _ cs'], rule exI [of _ rs'],
        rule exI [of _ ?cs1], rule exI [of _ ?cs2])
       (use p s r1 r2 vs inst in \<open>simp add: replay_def\<close>)
qed

definition zero_table :: Table where
  "zero_table = from_blocks_in native_compress256 FULL_MDOC (replicate 32 (replicate 64 0)) iv_bytes"

theorem replay_records_same_witness:
  "\<exists>inst. circuit_instance (step_circuit table_gadget plain_bellpepper rat_repr (step_new 5 zero_table)) [] = Inr inst \<and>
   (\<exists>pre cs rs cs' rs' cs1 cs2.
    circuit_precommitted (step_circuit table_gadget plain_bellpepper rat_repr (step_new 5 zero_table)) [] Witness check_start = (Inr pre, cs, rs) \<and>
    circuit_synthesize (step_circuit table_gadget plain_bellpepper rat_repr (step_new 5 zero_table)) [] pre Witness cs = (Inr (), cs', rs') \<and>
    circuit_precommitted (replay \<lparr>seg_private = [], seg_public = []\<rparr> inst) [] Witness check_start = (Inr [], cs1, []) \<and>
    circuit_synthesize (replay \<lparr>seg_private = [], seg_public = []\<rparr> inst) [] [] Witness cs1 = (Inr (), cs2, []) \<and>
    aux cs1 = aux cs \<and> inputs cs1 = inputs cs \<and> aux cs2 = aux cs' \<and> inputs cs2 = inputs cs' \<and>
    circuit_public_values (replay \<lparr>seg_private = [], seg_public = []\<rparr> inst)
      = circuit_public_values (step_circuit table_gadget plain_bellpepper rat_repr (step_new 5 zero_table)))"
proof -
  let ?step = "step_new 5 zero_table"
  let ?c = "step_circuit table_gadget plain_bellpepper rat_repr ?step"
  have t: "circuit_tame ?c" by (rule step_circuit_tame [OF plain_bellpepper_tame table_gadget_tame])
  obtain vs block words where vs: "compression_values rat_repr (one_hot_values [] 32 5) zero_table FULL_MDOC 5 0 None = Some (vs, block, words)"
    using compression_values_length [of rat_repr "one_hot_values [] 32 5" zero_table FULL_MDOC 5 0 None] by blast
  have "precommitted_values rat_repr ?step = Inr vs"
    using vs by (simp add: precommitted_values_def step_new_def zero_table_def from_blocks_in_def ok_or_def Let_def instances_def FULL_MDOC_def POSITIONS_def)
  then have "\<exists>inst. circuit_instance ?c [] = Inr inst"
    by (simp add: circuit_instance_def step_circuit_def step_precommitted_def step_synthesize_def sbind_def is_witness_generator_def
        extend_inputs_def extend_aux_def of_result_def sret_def)
  then obtain inst where inst: "circuit_instance ?c [] = Inr inst" by blast
  from replay_records_same [OF t inst] inst show ?thesis by blast
qed

end
