(* ===== verification/Chain.thy ===== *)
theory Chain
  imports Step
begin

text \<open>
  The composition of the step circuit and the core: from the links at every position to the digests
  of the messages, and from the rules of both circuits to a statement about byte strings and
  signatures only (\<open>credential_shown\<close>).
\<close>

section \<open>Byte strings and their halves\<close>

lemma halves_unique:
  assumes repr: "scalar_repr (repr :: 'f::field \<Rightarrow> nat)" and "length s = 32" "length t = 32"
    and "\<forall>h < 2. (state_half s h :: 'f) = state_half t h"
  shows "s = t"
proof -
  have half: "a = b" if "length a = 16" "length b = 16" "from_be a = (from_be b :: 'f)" for a b
  proof (rule be_val_inj)
    have "be_val a < modulus" "be_val b < modulus" using that(1,2) by (simp_all add: be_val_short)
    then show "be_val a = be_val b"
      using that(3) by (intro scalar_of_nat_inj [OF repr]) (simp_all add: from_be_def)
  qed (simp add: that)
  have "take 16 s = take 16 t" "take 16 (drop 16 s) = take 16 (drop 16 t)"
    using assms(2,3) assms(4) [rule_format, of 0] assms(4) [rule_format, of 1]
    by (auto intro!: half simp: state_half_def CHUNK_BYTES_def)
  then show ?thesis
    using append_take_drop_id [of 16 s] append_take_drop_id [of 16 t] assms(2,3) by (metis diff_add_inverse length_drop numeral_Bit0 take_all_iff order_refl)
qed

lemma block_bytes:
  assumes repr: "scalar_repr (repr :: 'f::field \<Rightarrow> nat)" and "block_is w cells j b"
  shows "table_bytes repr w cells (64 * j) 64 = b"
proof -
  have len: "length b = 64" using assms(2) by (simp add: block_is_def)
  have cell: "cell_bytes repr w cells (4 * j + c) = take 16 (drop (16 * c) b)" if "c < 4" for c
    by (rule cell_bytes_from_be [OF repr]) (use assms(2) that len in \<open>simp_all add: block_is_def CHUNKS_PER_BLOCK_def CHUNK_BYTES_def\<close>)
  have "b = take 16 b @ take 16 (drop 16 b) @ take 16 (drop 32 b) @ take 16 (drop 48 b)"
    using len append_take_drop_id [of 16 b] append_take_drop_id [of 16 "drop 16 b"] append_take_drop_id [of 16 "drop 32 b"] by simp
  then show ?thesis
    using cell [of 0] cell [of 1] cell [of 2] cell [of 3] by (simp add: four_cells)
qed

section \<open>Chains\<close>

definition chain :: "bytes \<Rightarrow> bytes \<Rightarrow> bytes" where
  "chain start m = words_to_bytes (compress native_compress256 (bytes_to_words start) m)"

lemma length_chain: "length m = 64 * n \<Longrightarrow> length (chain start m) = 32"
  using native.compress_length [of m n "bytes_to_words start"] by (simp add: chain_def bytes_to_words_def be_words_def)

lemma chain_snoc:
  assumes "length m = 64 * n" "length b = 64"
  shows "chain start (m @ b) = state_after (chain start m) b"
proof -
  have "length (compress native_compress256 (bytes_to_words start) m) = 8"
    using native.compress_length [OF assms(1)] by (simp add: bytes_to_words_def be_words_def)
  then show ?thesis
    using compress_append [of m n native_compress256 "bytes_to_words start" b] assms
    by (simp add: chain_def state_after_def bytes_to_words_to_bytes compress_block)
qed

lemma chain_pad: "chain iv_bytes (pad m) = native_digest m"
  by (simp add: chain_def native_digest_def iv_bytes_def bytes_to_words_to_bytes IV_def)

text \<open>A run of links that starts at a known state: the state after it is the chain over its blocks.\<close>

lemma chain_of_links:
  assumes repr: "scalar_repr (repr :: 'f::field \<Rightarrow> nat)"
    and links: "\<And>i. i \<le> l \<Longrightarrow> linked w cells layout (f + i)"
    and inner: "\<And>i. 0 < i \<Longrightarrow> i \<le> l \<Longrightarrow> cells_state_before cells layout (f + i) = cells_state cells (f + i - 1)"
    and start: "length start = 32" "halves_are w (cells_state_before cells layout f) start"
  shows "halves_are w (cells_state cells (f + l)) (chain start (table_bytes repr w cells (64 * f) (64 * (l + 1))))"
  using links inner
proof (induction l)
  case 0
  obtain b s where *: "block_is w cells f b" "length s = 32" "halves_are w (cells_state_before cells layout f) s"
    "halves_are w (cells_state cells f) (state_after s b)"
    using 0(1) [of 0] by (auto simp: linked_def)
  have "s = start" by (rule halves_unique [OF repr *(2) start(1)]) (use *(3) start(2) in \<open>simp add: halves_are_def\<close>)
  moreover have "chain start b = state_after start b"
    using chain_snoc [of "[]" 0 b start] *(1) start(1)
    by (simp add: block_is_def chain_def compress_def words_to_bytes_to_words)
  ultimately show ?case using *(4) block_bytes [OF repr *(1)] by simp
next
  case (Suc l)
  obtain b s where *: "block_is w cells (f + Suc l) b" "length s = 32"
    "halves_are w (cells_state_before cells layout (f + Suc l)) s" "halves_are w (cells_state cells (f + Suc l)) (state_after s b)"
    using Suc.prems(1) [of "Suc l"] by (auto simp: linked_def)
  let ?m = "table_bytes repr w cells (64 * f) (64 * (l + 1))"
  have IH: "halves_are w (cells_state cells (f + l)) (chain start ?m)" using Suc by simp
  have "s = chain start ?m"
    by (rule halves_unique [OF repr *(2)]) (use *(3) IH Suc.prems(2) [of "Suc l"] length_chain [of ?m "l + 1"] in \<open>simp_all add: halves_are_def table_bytes_def\<close>)
  moreover have "table_bytes repr w cells (64 * f) (64 * (Suc l + 1)) = ?m @ b"
    using table_bytes_append [of repr w cells "64 * f" "64 * (l + 1)" 64] block_bytes [OF repr *(1)] by (simp add: algebra_simps)
  ultimately show ?case
    using *(1,4) chain_snoc [of ?m "l + 1" b start] by (simp add: block_is_def table_bytes_def)
qed

section \<open>Links and the shared segment\<close>

text \<open>The cells of the shared segment: six per position and two for the start state.\<close>

definition CELLS :: nat where "CELLS = CELLS_PER_POSITION * POSITIONS + 2"

lemma cells_chunk_cong:
  assumes "length cells = CELLS" "\<forall>x \<in> set cells. w' (num_var x) = w (num_var x)"
  shows "lcv w' (cells_chunk cells c) = lcv w (cells_chunk cells c)"
proof (cases "c < CHUNKS_PER_BLOCK * POSITIONS")
  case True
  then have "c div 4 < 32" "c mod 4 < 4" by (simp_all add: CHUNKS_PER_BLOCK_def POSITIONS_def)
  then have "6 * (c div 4) + c mod 4 < 194" by linarith
  then have "cells ! (6 * (c div 4) + c mod 4) \<in> set cells"
    using assms(1) by (simp add: CELLS_def CELLS_PER_POSITION_def CHUNKS_PER_BLOCK_def POSITIONS_def)
  then show ?thesis using True assms(2) by (simp add: cells_chunk_def CELLS_PER_POSITION_def CHUNKS_PER_BLOCK_def)
qed (simp add: cells_chunk_def)

lemma cells_state_cong:
  assumes "length cells = CELLS" "\<forall>x \<in> set cells. w' (num_var x) = w (num_var x)" "j < POSITIONS" "h < 2"
  shows "lcv w' (cells_state cells j h) = lcv w (cells_state cells j h)"
proof -
  have "6 * j + 4 + h < length cells" using assms by (simp add: CELLS_def CELLS_PER_POSITION_def CHUNKS_PER_BLOCK_def POSITIONS_def)
  then show ?thesis using assms(2) by (simp add: cells_state_def CELLS_PER_POSITION_def CHUNKS_PER_BLOCK_def)
qed

lemma cells_before_cong:
  assumes "length cells = CELLS" "\<forall>x \<in> set cells. w' (num_var x) = w (num_var x)" "j < POSITIONS" "h < 2"
    and "assignment w" "assignment w'"
  shows "lcv w' (cells_state_before cells layout j h) = lcv w (cells_state_before cells layout j h)"
proof -
  have "192 + h < length cells" using assms by (simp add: CELLS_def CELLS_PER_POSITION_def CHUNKS_PER_BLOCK_def POSITIONS_def)
  then have "w' (num_var (cells ! (START + h))) = w (num_var (cells ! (START + h)))"
    using assms(2) by (simp add: START_def CELLS_PER_POSITION_def CHUNKS_PER_BLOCK_def POSITIONS_def)
  then show ?thesis
    using cells_state_cong [OF assms(1,2) _ assms(4), of "j - 1"] assms by (simp add: cells_state_before_def)
qed

lemma linked_cong:
  assumes "length cells = CELLS" "\<forall>x \<in> set cells. w' (num_var x) = w (num_var x)" "j < POSITIONS"
    and "assignment w" "assignment w'" "linked w' cells layout j"
  shows "linked w cells layout j"
  using assms(6) cells_chunk_cong [OF assms(1,2)] cells_state_cong [OF assms(1-3)] cells_before_cong [OF assms(1-3) _ assms(4,5)]
  by (simp add: linked_def block_is_def halves_are_def)

lemma linked_chunks_small:
  assumes "\<forall>j < POSITIONS. linked w cells layout j"
  shows "chunks_small w cells"
  unfolding chunks_small_def
proof
  fix c
  show "\<exists>v < 2 ^ 128. lcv w (cells_chunk cells c) = of_nat v"
  proof (cases "c < CHUNKS_PER_BLOCK * POSITIONS")
    case True
    then have "c div 4 < POSITIONS" by (simp add: CHUNKS_PER_BLOCK_def POSITIONS_def)
    then obtain b where b: "length b = 64" "\<forall>k < 4. lcv w (cells_chunk cells (4 * (c div 4) + k)) = from_be (take 16 (drop (16 * k) b))"
      using assms unfolding linked_def block_is_def CHUNKS_PER_BLOCK_def CHUNK_BYTES_def by blast
    let ?x = "take 16 (drop (16 * (c mod 4)) b)"
    have "lcv w (cells_chunk cells c) = of_nat (be_val ?x)" using b(2) [rule_format, of "c mod 4"] by (simp add: from_be_def)
    moreover have "be_val ?x < 256 ^ length ?x" by (rule be_val_less)
    moreover have "(256::nat) ^ length ?x \<le> 256 ^ 16" by (rule power_increasing) simp_all
    ultimately show ?thesis by (intro exI [of _ "be_val ?x"]) simp
  qed (auto simp: cells_chunk_def intro!: exI [of _ 0])
qed

text \<open>
  The step at a position, checked under an assignment of its own that gives the shared cells the values
  they have under \<open>w\<close>, links that position under \<open>w\<close>.
\<close>

lemma step_links_shared:
  assumes "scalar_repr (repr :: 'f::field \<Rightarrow> nat)" "gadget_sound G" "gadget_keeps G"
    and "bellpepper_sound L" "bellpepper_inputs L" "assignment (w :: var \<Rightarrow> 'f)" "assignment w'"
    and "length cells = CELLS" "\<forall>x \<in> set cells. w' (num_var x) = w (num_var x)"
    and "step_layout step = FULL_MDOC" "w' (Input n) = of_nat p" "p < POSITIONS"
  shows "sound_at w' n (step_precommitted G L repr step cells) (Suc n) (\<lambda>_. linked w cells FULL_MDOC p)"
proof -
  have layout: "instances FULL_MDOC = POSITIONS" "per_instance FULL_MDOC = 1"
    by (simp_all add: instances_def FULL_MDOC_def)
  have "instances FULL_MDOC < modulus" using modulus_bounds(1) by (simp add: layout POSITIONS_def)
  then have "sound_at w' n (step_precommitted G L repr step cells) (Suc n) (\<lambda>_. linked w' cells FULL_MDOC p)"
    using sound_at_step [OF assms(1-5,7) inner_follow_FULL_MDOC _ assms(10,11), of cells] assms(12) by (simp add: layout)
  then show ?thesis by (rule sound_at_mono) (rule linked_cong [OF assms(8,9,12,6,7)])
qed

section \<open>The statement over bytes\<close>

definition signs :: "('g::ab_group_add, 'f::field) curve \<Rightarrow> 'f \<Rightarrow> 'f \<Rightarrow> bytes \<Rightarrow> bool" where
  "signs C x y d \<longleftrightarrow> (\<forall>Q. Q \<noteq> 0 \<longrightarrow> x = ax (to_affine C Q) \<longrightarrow> y = ay (to_affine C Q) \<longrightarrow>
     (\<exists>r s_inv. ecdsa_accepts C Q (be_val d) r s_inv))"

text \<open>The number that digits after a key write, with a condition on it; the digits are the issuer's.\<close>

definition number_in :: "bytes \<Rightarrow> nat \<Rightarrow> nat list \<Rightarrow> bytes \<Rightarrow> (nat \<Rightarrow> bool) \<Rightarrow> bool" where
  "number_in key n positions m cond \<longleftrightarrow> (\<exists>t. length t = n \<and> occurs (key @ t) m \<and>
     (list_all is_ascii_digit (digits_at positions t) \<longrightarrow> cond (dec_val (digits_at positions t))))"

definition mso_shown ::
  "('g::ab_group_add, 'f::field) curve \<Rightarrow> Public \<Rightarrow> bytes \<Rightarrow> bytes \<Rightarrow> bytes \<Rightarrow> bytes \<Rightarrow> bytes \<Rightarrow> bool" where
  "mso_shown C p start m item tb ab \<longleftrightarrow>
     length start = 32 \<and>
     signs C (from_be (key_x (pub_issuer_key p)) :: 'f) (from_be (key_y (pub_issuer_key p))) (chain start m) \<and>
     occurs tb m \<and> at_its_end (credential_type (pub_request p)) tb \<and>
     occurs (DIGEST @ chain iv_bytes item) m \<and>
     occurs ab item \<and> at_its_end (attribute (pub_request p)) ab \<and>
     number_in VALUE 10 DATE_DIGITS item (\<lambda>d. born_from_digits p \<le> d \<and> d \<le> date_digits (pub_born_by p)) \<and>
     number_in VALID_FROM 20 DATE_TIME_DIGITS m (\<lambda>t. t \<le> time_encode Digits (pub_now p)) \<and>
     number_in VALID_UNTIL 20 DATE_TIME_DIGITS m (\<lambda>t. time_encode Digits (pub_now p) < t) \<and>
     (\<exists>xb yb. length xb = 32 \<and> length yb = 32 \<and> occurs (DEVICE_KEY @ xb @ DEVICE_KEY_Y @ yb) m \<and>
        signs C (from_be xb :: 'f) (from_be yb) (pub_challenge p))"

definition nym_shown :: "NymPublic \<Rightarrow> bytes \<Rightarrow> bytes \<Rightarrow> bytes \<Rightarrow> bool" where
  "nym_shown n m ssc_item secret \<longleftrightarrow>
     length secret = 16 \<and> occurs (DIGEST @ chain iv_bytes ssc_item) m \<and> occurs MDOC_IDENTIFIER ssc_item \<and>
     occurs (MDOC_VALUE @ native_digest secret) ssc_item \<and>
     np_pseudonym n = pseudonym native_digest secret (np_verifier_input n)"

definition credential_shown :: "('g::ab_group_add, 'f::field) curve \<Rightarrow> Public \<Rightarrow> NymPublic \<Rightarrow> bool" where
  "credential_shown C p n \<longleftrightarrow> (\<exists>start m item ssc_item tb ab secret.
     mso_shown C p start m item tb ab \<and> nym_shown n m ssc_item secret)"

lemma keyed_number_in:
  assumes "keyed_number key n positions m x" "length positions \<le> 19" "\<And>d. d < 2 ^ 64 \<Longrightarrow> x = of_nat d \<Longrightarrow> cond d"
  shows "number_in key n positions m cond"
proof -
  obtain t where t: "length t = n" "occurs (key @ t) m"
    "list_all is_ascii_digit (digits_at positions t) \<longrightarrow> x = of_nat (dec_val (digits_at positions t))"
    using assms(1) by (auto simp: keyed_number_def)
  have "dec_val (digits_at positions t) < 2 ^ 64" if "list_all is_ascii_digit (digits_at positions t)"
  proof -
    have "dec_val (digits_at positions t) < 10 ^ length positions" using dec_val_less [OF that] by (simp add: digits_at_def)
    also have "\<dots> \<le> (10::nat) ^ 19" using assms(2) by (intro power_increasing) simp_all
    finally show ?thesis by simp
  qed
  then show ?thesis using t assms(3) unfolding number_in_def by blast
qed

text \<open>The chain from the initial value over a message of the full layout other than the signed one.\<close>

lemma region_chain:
  assumes repr: "scalar_repr (repr :: 'f::field \<Rightarrow> nat)" and w: "assignment (w :: var \<Rightarrow> 'f)"
    and links: "\<forall>j < POSITIONS. linked w cells FULL_MDOC j"
    and region: "region \<in> {\<lparr>first = 22, blocks = 2\<rparr>, \<lparr>first = 24, blocks = 3\<rparr>, \<lparr>first = 28, blocks = 2\<rparr>, \<lparr>first = 30, blocks = 1\<rparr>}"
    and l: "l < blocks region"
  shows "halves_are w (cells_state cells (first region + l)) (chain iv_bytes (message_bytes repr w cells region l))"
  unfolding message_bytes_def
proof (rule chain_of_links [OF repr])
  have lim: "first region + l < POSITIONS" using region l by (auto simp: POSITIONS_def)
  show "linked w cells FULL_MDOC (first region + i)" if "i \<le> l" for i using links lim that by simp
  show "cells_state_before cells FULL_MDOC (first region + i) = cells_state cells (first region + i - 1)" if "0 < i" "i \<le> l" for i
    using that region l by (auto simp: cells_state_before_def FULL_MDOC_def FULL_REGIONS_def starts_from_iv_def)
  show "length iv_bytes = 32" by (simp add: iv_bytes_def IV_def)
  have "cells_state_before cells FULL_MDOC (first region) = (\<lambda>h. lc_constant (state_half iv_bytes h))"
    using region by (auto simp: cells_state_before_def FULL_MDOC_def FULL_REGIONS_def starts_from_iv_def)
  then show "halves_are w (cells_state_before cells FULL_MDOC (first region)) iv_bytes"
    using w by (simp add: halves_are_def)
qed

lemma signed_chain:
  assumes repr: "scalar_repr (repr :: 'f::field \<Rightarrow> nat)" and links: "\<forall>j < POSITIONS. linked w cells FULL_MDOC j" and l: "l < 22"
  obtains start where "length start = 32"
    "halves_are w (cells_state cells (first (signed_region FULL_MDOC) + l))
      (chain start (message_bytes repr w cells (signed_region FULL_MDOC) l))"
proof -
  obtain start where start: "length start = 32" "halves_are w (cells_state_before cells FULL_MDOC 0) start"
  proof -
    have "linked w cells FULL_MDOC 0" using links by (simp add: POSITIONS_def)
    then show ?thesis using that by (auto simp: linked_def)
  qed
  have "halves_are w (cells_state cells (0 + l)) (chain start (table_bytes repr w cells (64 * 0) (64 * (l + 1))))"
  proof (rule chain_of_links [OF repr _ _ start])
    show "linked w cells FULL_MDOC (0 + i)" if "i \<le> l" for i using links l that by (simp add: POSITIONS_def)
    show "cells_state_before cells FULL_MDOC (0 + i) = cells_state cells (0 + i - 1)" if "0 < i" "i \<le> l" for i
      using that l by (auto simp: cells_state_before_def FULL_MDOC_def FULL_REGIONS_def starts_from_iv_def)
  qed
  then show thesis using that start(1) by (simp add: message_bytes_def FULL_MDOC_def)
qed

lemma length_chain_message [simp]: "length (chain start (message_bytes repr w cells region l)) = 32"
  by (rule length_chain [of _ "l + 1"]) (simp add: message_bytes_def)

lemma state_is_value:
  assumes repr: "scalar_repr (repr :: 'f::field \<Rightarrow> nat)"
    and d: "state_is (w :: var \<Rightarrow> 'f) cells j d" and s: "halves_are w (cells_state cells j) s" "length s = 32"
  shows "d = be_val s"
proof -
  obtain hi lo where *: "hi < 2 ^ 128" "lo < 2 ^ 128" "d = hi * 2 ^ 128 + lo"
    "lcv w (cells_state cells j 0) = (of_nat hi :: 'f)" "lcv w (cells_state cells j 1) = (of_nat lo :: 'f)"
    using d by (auto simp: state_is_def)
  have half: "v = be_val b" if "v < 2 ^ 128" "of_nat v = (from_be b :: 'f)" "length b = 16" for v b
    using that modulus_bounds(1) by (intro scalar_of_nat_inj [OF repr]) (simp_all add: from_be_def be_val_short)
  have "hi = be_val (take 16 s)" "lo = be_val (drop 16 s)"
    using half * s by (auto simp: halves_are_def state_half_def CHUNK_BYTES_def)
  then show ?thesis
    using *(3) be_val_append [of "take 16 s" "drop 16 s"] s(2) by simp
qed

lemma halves_value:
  assumes "scalar_repr (repr :: 'f::field \<Rightarrow> nat)" "halves_are (w :: var \<Rightarrow> 'f) (cells_state cells j) s" "length s = 32" "length d = 32"
    and "lcv w (cells_state cells j 0) = (from_be (take 16 d) :: 'f)" "lcv w (cells_state cells j 1) = (from_be (drop 16 d) :: 'f)"
  shows "d = s"
proof (rule halves_unique [OF assms(1,4,3)], intro allI impI)
  fix h :: nat assume "h < 2"
  then have "h = 0 \<or> h = 1" by auto
  then show "(state_half d h :: 'f) = state_half s h"
    using assms(2) [unfolded halves_are_def, rule_format, OF \<open>h < 2\<close>] assms(4-6) by (auto simp: state_half_def CHUNK_BYTES_def)
qed

lemma item_listed_digest:
  assumes "scalar_repr (repr :: 'f::field \<Rightarrow> nat)" "halves_are (w :: var \<Rightarrow> 'f) (cells_state cells j) s" "length s = 32" "item_listed w cells j m"
  shows "occurs (DIGEST @ s) m"
  using assms(4) halves_value [OF assms(1-3)] unfolding item_listed_def by auto

lemma mso_shown_of_facts:
  assumes repr: "scalar_repr (repr :: 'f::field \<Rightarrow> nat)" and w: "assignment (w :: var \<Rightarrow> 'f)"
    and links: "\<forall>j < POSITIONS. linked w cells FULL_MDOC j"
    and f: "credential_facts C repr w cells FULL_MDOC ls li facts tb ab"
    and p: "presented C Digits p (map (\<lambda>(name, l). lcv w l) (facts_named facts)) tb ab"
  shows "\<exists>start. mso_shown C p start (message_bytes repr w cells (signed_region FULL_MDOC) ls)
    (message_bytes repr w cells (attribute_region FULL_MDOC) li) tb ab"
proof -
  let ?m = "message_bytes repr w cells (signed_region FULL_MDOC) ls" and ?i = "message_bytes repr w cells (attribute_region FULL_MDOC) li"
  note f = f [unfolded credential_facts_def Let_def]
  have ls: "ls < 22" and li: "li < 2" using f by (simp_all add: FULL_MDOC_def)
  obtain start where start: "length start = 32" "halves_are w (cells_state cells (first (signed_region FULL_MDOC) + ls)) (chain start ?m)"
    using signed_chain [OF repr links ls] .
  have item: "halves_are w (cells_state cells (first (attribute_region FULL_MDOC) + li)) (chain iv_bytes ?i)"
    by (rule region_chain [OF repr w links]) (use li in \<open>simp_all add: FULL_MDOC_def\<close>)
  have lens: "length (chain start ?m) = 32" "length (chain iv_bytes ?i) = 32"
    by simp_all
  obtain d where d: "state_is w cells (first (signed_region FULL_MDOC) + ls) d"
    "\<And>Q. point_is C w (fact_issuer_key facts) Q \<Longrightarrow> \<exists>r s_inv. ecdsa_accepts C Q d r s_inv"
    using f unfolding issuer_signed_def by blast
  have "d = be_val (chain start ?m)" by (rule state_is_value [OF repr d(1) start(2) lens(1)])
  then have signed: "signs C (from_be (key_x (pub_issuer_key p)) :: 'f) (from_be (key_y (pub_issuer_key p))) (chain start ?m)"
    using d(2) p by (simp add: signs_def point_is_def presented_def facts_named_def)
  have listed: "occurs (DIGEST @ chain iv_bytes ?i) ?m"
    using item_listed_digest [OF repr item lens(2)] f by blast
  have birth: "number_in VALUE 10 DATE_DIGITS ?i (\<lambda>d. born_from_digits p \<le> d \<and> d \<le> date_digits (pub_born_by p))"
    by (rule keyed_number_in) (use f p in \<open>auto simp: presented_def facts_named_def DATE_DIGITS_def\<close>)
  have from_t: "number_in VALID_FROM 20 DATE_TIME_DIGITS ?m (\<lambda>t. t \<le> time_encode Digits (pub_now p))"
    by (rule keyed_number_in [where x = "lcv w (fact_valid_from facts)"])
       (use f p in \<open>auto simp: presented_def facts_named_def DATE_TIME_DIGITS_def numeral_3_eq_3\<close>)
  have until_t: "number_in VALID_UNTIL 20 DATE_TIME_DIGITS ?m (\<lambda>t. time_encode Digits (pub_now p) < t)"
    by (rule keyed_number_in [where x = "lcv w (fact_valid_until facts)"])
       (use f p in \<open>auto simp: presented_def facts_named_def DATE_TIME_DIGITS_def\<close>)
  obtain xb yb where key: "length xb = 32" "length yb = 32" "occurs (DEVICE_KEY @ xb @ DEVICE_KEY_Y @ yb) ?m"
    "lcv w (px (fact_device_key facts)) = from_be xb" "lcv w (py (fact_device_key facts)) = from_be yb"
    using f by (auto simp: device_key_in_def)
  have "signs C (from_be xb :: 'f) (from_be yb) (pub_challenge p)"
    using p key(4,5) by (simp add: signs_def presented_def facts_named_def)
  then show ?thesis
    using start(1) signed listed birth from_t until_t key f p unfolding mso_shown_def presented_def by blast
qed

lemma nym_shown_of_facts:
  assumes repr: "scalar_repr (repr :: 'f::field \<Rightarrow> nat)" and w: "assignment (w :: var \<Rightarrow> 'f)"
    and links: "\<forall>j < POSITIONS. linked w cells FULL_MDOC j"
    and f: "nym_facts repr w cells FULL_REGIONS m l secret" and lens: "length (np_pseudonym n) = 32"
    and nym_table: "table_bytes repr w cells (64 * first (nym FULL_REGIONS)) 128 = pad (nym_message secret (np_verifier_input n))"
    and nym_state: "lcv w (cells_state cells (first (nym FULL_REGIONS) + 1) 0) = from_be (take 16 (np_pseudonym n))"
      "lcv w (cells_state cells (first (nym FULL_REGIONS) + 1) 1) = from_be (drop 16 (np_pseudonym n))"
  shows "nym_shown n m (message_bytes repr w cells (ssc FULL_REGIONS) l) secret"
proof -
  let ?i = "message_bytes repr w cells (ssc FULL_REGIONS) l"
  note f = f [unfolded nym_facts_def Let_def]
  have l: "l < 3" using f by (simp add: FULL_REGIONS_def)
  have item: "halves_are w (cells_state cells (first (ssc FULL_REGIONS) + l)) (chain iv_bytes ?i)"
    by (rule region_chain [OF repr w links]) (use l in \<open>simp_all add: FULL_REGIONS_def\<close>)
  have "length (chain iv_bytes ?i) = 32" by simp
  then have listed: "occurs (DIGEST @ chain iv_bytes ?i) m"
    using item_listed_digest [OF repr item] f by blast
  have secret: "length secret = 16" "table_bytes repr w cells (64 * first (seed FULL_REGIONS)) 64 = pad secret"
    using f by (simp_all add: nym_blocks_def)
  have "halves_are w (cells_state cells (first (seed FULL_REGIONS) + 0)) (chain iv_bytes (message_bytes repr w cells (seed FULL_REGIONS) 0))"
    by (rule region_chain [OF repr w links]) (simp_all add: FULL_REGIONS_def)
  then have seed: "halves_are w (cells_state cells (first (seed FULL_REGIONS))) (native_digest secret)"
    using secret(2) by (simp add: message_bytes_def chain_pad)
  obtain c where c: "length c = 32" "occurs (MDOC_VALUE @ c) ?i"
    "lcv w (cells_state cells (first (seed FULL_REGIONS)) 0) = from_be (take 16 c)"
    "lcv w (cells_state cells (first (seed FULL_REGIONS)) 1) = from_be (drop 16 c)"
    using f by blast
  have "c = native_digest secret" by (rule halves_value [OF repr seed native.length_digest c(1,3,4)])
  moreover have "halves_are w (cells_state cells (first (nym FULL_REGIONS) + 1)) (chain iv_bytes (message_bytes repr w cells (nym FULL_REGIONS) 1))"
    by (rule region_chain [OF repr w links]) (simp_all add: FULL_REGIONS_def)
  then have nym: "halves_are w (cells_state cells (first (nym FULL_REGIONS) + 1)) (native_digest (nym_message secret (np_verifier_input n)))"
    using nym_table by (simp add: message_bytes_def chain_pad)
  have "np_pseudonym n = native_digest (nym_message secret (np_verifier_input n))"
    by (rule halves_value [OF repr nym native.length_digest lens nym_state])
  ultimately show ?thesis
    using listed f secret(1) c(2) by (simp add: nym_shown_def pseudonym_def)
qed

lemma credential_shown_of_statement:
  assumes "scalar_repr (repr :: 'f::field \<Rightarrow> nat)" "assignment (w :: var \<Rightarrow> 'f)" "\<forall>j < POSITIONS. linked w cells FULL_MDOC j"
    and "statement_holds C repr w cells p n" "length (np_pseudonym n) = 32"
  shows "credential_shown C p n"
  using assms(4) mso_shown_of_facts [OF assms(1-3)] nym_shown_of_facts [OF assms(1-3) _ assms(5)]
  unfolding statement_holds_def core_facts_def credential_shown_def by metis

section \<open>Tables give links\<close>

text \<open>The values that \<open>allocate\<close> gives the cells: the table's chunks, states and start state.\<close>

definition cells_hold :: "(var \<Rightarrow> 'f::field) \<Rightarrow> 'f Cells \<Rightarrow> Table \<Rightarrow> bool" where
  "cells_hold w cells t \<longleftrightarrow>
     (\<forall>c < CHUNKS_PER_BLOCK * POSITIONS. lcv w (cells_chunk cells c) = chunk_value t c) \<and>
     (\<forall>j < POSITIONS. halves_are w (cells_state cells j) (tstates t ! j)) \<and>
     (\<forall>h < 2. w (num_var (cells ! (START + h))) = state_half (tstart t) h)"

lemma table_links:
  assumes w: "assignment (w :: var \<Rightarrow> 'f::field)" and t: "t = from_blocks_in native_compress256 FULL_MDOC bs start"
    and bs: "length bs = POSITIONS" "list_all (\<lambda>b. length b = 64) bs" "length start = 32"
    and hold: "cells_hold w cells t" and j: "j < POSITIONS"
  shows "linked w cells FULL_MDOC j"
proof -
  let ?before = "if starts_from_iv FULL_MDOC j then iv_bytes else if j = 0 then start else tstates t ! (j - 1)"
  have b: "length (bs ! j) = 64" using bs j by (simp add: list_all_length)
  have c8: "\<forall>s b. length s = 8 \<longrightarrow> length b = 64 \<longrightarrow> length (native_compress256 s b) = 8" by (simp add: native_compress256_fips)
  have nth: "tstates t ! k = words_to_bytes (native_compress256 (if starts_from_iv FULL_MDOC k then IV
      else if k = 0 then bytes_to_words start else bytes_to_words (tstates t ! (k - 1))) (bs ! k))" if "k < POSITIONS" for k
    using chain_states_nth [OF c8 bs(2,3), of IV k FULL_MDOC 0] that bs(1)
    by (simp add: t from_blocks_in_def IV_def FULL_MDOC_def split: if_splits)
  have len: "length (tstates t ! k) = 32" if "k < POSITIONS" for k
    using nth [OF that] by (simp add: native_compress256_fips)
  have block: "block_is w cells j (bs ! j)"
    unfolding block_is_def
  proof (intro conjI b allI impI)
    fix c assume "c < CHUNKS_PER_BLOCK"
    then have "(CHUNKS_PER_BLOCK * j + c) div CHUNKS_PER_BLOCK = j" "(CHUNKS_PER_BLOCK * j + c) mod CHUNKS_PER_BLOCK = c"
      "CHUNKS_PER_BLOCK * j + c < CHUNKS_PER_BLOCK * POSITIONS"
      using j by (simp_all add: CHUNKS_PER_BLOCK_def POSITIONS_def)
    then show "lcv w (cells_chunk cells (CHUNKS_PER_BLOCK * j + c)) = from_be (take CHUNK_BYTES (drop (CHUNK_BYTES * c) (bs ! j)))"
      using hold by (simp add: cells_hold_def chunk_value_def t from_blocks_in_def)
  qed
  have j1: "j - 1 < POSITIONS" using j by simp
  have start: "halves_are w (cells_state_before cells FULL_MDOC j) ?before"
    using hold w j1 unfolding halves_are_def cells_hold_def
    by (auto simp: cells_state_before_def FULL_MDOC_def FULL_REGIONS_def starts_from_iv_def t from_blocks_in_def)
  have "state_after ?before (bs ! j) = tstates t ! j"
    using nth [OF j] by (simp add: state_after_def iv_bytes_def bytes_to_words_to_bytes IV_def)
  moreover have "length ?before = 32" using bs(3) len [OF j1] by (simp add: iv_bytes_def IV_def)
  moreover have "halves_are w (cells_state cells j) (tstates t ! j)" using hold j by (simp add: cells_hold_def)
  ultimately show ?thesis unfolding linked_def using block start by metis
qed

lemma with_messages_blocks:
  assumes "messages_ok FULL_MDOC messages" "with_messages native_compress256 FULL_MDOC m skipped messages = Inr t"
  shows "\<exists>bs start. t = from_blocks_in native_compress256 FULL_MDOC bs start \<and> length bs = POSITIONS \<and>
    list_all (\<lambda>b. length b = 64) bs \<and> length start = 32"
proof -
  define k where "k = min (64 * skipped) (length (pad m))"
  let ?ms = "(signed_region FULL_MDOC, drop k (pad m)) # map (\<lambda>(region, message). (region, pad message)) messages"
  obtain bs where bs: "place ?ms (replicate POSITIONS (replicate 64 0)) = Inr bs"
    and t: "t = from_blocks_in native_compress256 FULL_MDOC bs (words_to_bytes (compress native_compress256 IV (take k (pad m))))"
    using with_messages_Inr [OF assms(2), folded k_def] by blast
  have dvd: "64 dvd length (pad x)" for x by (simp add: length_pad)
  have k: "64 dvd k" "k \<le> length (pad m)" using dvd [of m] by (simp_all add: k_def min_def)
  then obtain j where "length (take k (pad m)) = 64 * j" by (auto elim!: dvdE)
  from native.compress_length [OF this] have start: "length (words_to_bytes (compress native_compress256 IV (take k (pad m)))) = 32"
    by (simp add: IV_def)
  have mult: "\<forall>e \<in> set ?ms. 64 dvd length (snd e)"
    using dvd k dvd_diff_nat [OF dvd [of m] k(1)] by auto
  have regions: "fst e \<in> set (region_list FULL_MDOC)" if "e \<in> set ?ms" for e
    using assms(1) that by (auto simp: messages_ok_def region_list_def image_iff split: option.splits)
  have fit: "\<forall>e \<in> set ?ms. first (fst e) + blocks (fst e) \<le> length (replicate POSITIONS (replicate 64 (0 :: byte)))"
    using regions layout_ok_FULL_MDOC by (auto simp: layout_ok_def list_all_iff)
  have "list_all (\<lambda>b. length b = 64) bs"
    by (rule place_block_length [OF bs mult fit]) (simp add: list_all_iff)
  moreover have "length bs = POSITIONS" using place_length [OF bs] by simp
  ultimately show ?thesis using t start by blast
qed

text \<open>Cells with a variable each, and the assignment that gives them a table's values.\<close>

definition plain_cells :: "'f Cells" where
  "plain_cells = map (\<lambda>i. \<lparr>num_var = Aux i, num_value = None\<rparr>) [0..<CELLS]"

definition table_cell :: "Table \<Rightarrow> nat \<Rightarrow> 'f::field" where
  "table_cell t i =
    (if i < START then
       (if i mod 6 < 4 then chunk_value t (4 * (i div 6) + i mod 6) else state_half (tstates t ! (i div 6)) (i mod 6 - 4))
     else state_half (tstart t) (i - START))"

lemma plain_cells_hold:
  assumes "\<And>i. w (Aux i) = table_cell t i"
  shows "cells_hold w plain_cells t"
  unfolding cells_hold_def
proof (intro conjI allI impI)
  fix c assume "c < CHUNKS_PER_BLOCK * POSITIONS"
  then have c: "c < 128" by (simp add: table_consts)
  then have "c div 4 < 32" "c mod 4 < 4" by simp_all
  then have i: "6 * (c div 4) + c mod 4 < 192" by linarith
  have "(6 * (c div 4) + c mod 4) div 6 = c div 4" "(6 * (c div 4) + c mod 4) mod 6 = c mod 4" by simp_all
  then show "lcv w (cells_chunk plain_cells c) = chunk_value t c"
    using c i assms by (simp add: cells_chunk_def plain_cells_def CELLS_def table_consts table_cell_def del: upt_rec_numeral)
next
  fix j assume "j < POSITIONS"
  then have j: "j < 32" by (simp add: table_consts)
  show "halves_are w (cells_state plain_cells j) (tstates t ! j)"
    unfolding halves_are_def
  proof (intro allI impI)
    fix h :: nat assume h: "h < 2"
    have i: "(6 * j + 4 + h) div 6 = j" "(6 * j + 4 + h) mod 6 = 4 + h" "6 * j + 4 + h < 192"
      using h j mod_mult_self2 [of "4 + h" 6 j] by (simp_all add: algebra_simps)
    have "lcv w (cells_state plain_cells j h) = table_cell t (6 * j + 4 + h)"
      using i(3) assms by (simp add: cells_state_def plain_cells_def CELLS_def table_consts del: upt_rec_numeral)
    then show "lcv w (cells_state plain_cells j h) = state_half (tstates t ! j) h"
      using i by (simp add: table_cell_def table_consts)
  qed
next
  fix h :: nat assume "h < 2"
  then show "w (num_var (plain_cells ! (START + h))) = state_half (tstart t) h"
    using assms by (simp add: plain_cells_def CELLS_def table_consts table_cell_def del: upt_rec_numeral)
qed

section \<open>Properties\<close>

text \<open>
  C31. The table that the prover builds keeps the invariant that the steps check: when \<open>with_messages\<close>
  succeeds for messages in different regions of the full layout, and the shared cells hold the table's
  values, every position is a link of a hash chain, also the positions between the messages.
\<close>

theorem tables_are_linked:
  assumes "messages_ok FULL_MDOC messages" "with_messages native_compress256 FULL_MDOC m skipped messages = Inr t"
    and "assignment (w :: var \<Rightarrow> 'f::field)" "cells_hold w cells t"
  shows "\<forall>j < POSITIONS. linked w cells FULL_MDOC j"
  using with_messages_blocks [OF assms(1,2)] table_links [OF assms(3) _ _ _ _ assms(4)] by blast

definition table_assignment :: "Table \<Rightarrow> var \<Rightarrow> rat" where
  "table_assignment t v = (case v of Input _ \<Rightarrow> 1 | Aux i \<Rightarrow> table_cell t i)"

theorem tables_are_linked_witness:
  "\<exists>t. with_messages native_compress256 FULL_MDOC [7] 0 [(attribute_region FULL_MDOC, [1, 2])] = Inr t \<and>
     (\<forall>j < POSITIONS. linked (table_assignment t) plain_cells FULL_MDOC j)"
proof -
  obtain t where t: "with_messages native_compress256 FULL_MDOC [7] 0 [(attribute_region FULL_MDOC, [1, 2])] = Inr t"
    using with_messages_small by blast
  have ok: "messages_ok FULL_MDOC [(attribute_region FULL_MDOC, [1, 2])]"
    by (simp add: messages_ok_def region_list_def)
  have "assignment (table_assignment t)" "cells_hold (table_assignment t) plain_cells t"
    by (simp_all add: assignment_def table_assignment_def plain_cells_hold)
  from tables_are_linked [OF ok t this] t show ?thesis by blast
qed

end
