(* ===== verification/Cbor.thy ===== *)
theory Cbor
  imports Prelude
begin

text \<open>
  The CBOR encoder and reader (\<open>src/nymauth_vega/engine/fixtures/cbor.rs\<close>): \<open>Value::encode\<close>,
  \<open>Item::read\<close> and the accessors \<open>children\<close>, \<open>at\<close>, \<open>get\<close> and \<open>embedded\<close>. Lengths and
  arguments are natural numbers; a \<open>u64\<close> or \<open>usize\<close> bound (64 bits) is written out where the
  code checks it. An error text of the code is a constructor that carries its interpolated values.
\<close>

section \<open>Values and their encoding\<close>

datatype val =
    Unsigned nat
  | Negative nat
  | Bytes bytes
  | Text str
  | Array "val list"
  | VMap "(val \<times> val) list"
  | Tag nat val
  | VBool bool
  | Encoded bytes

definition vtext :: "str \<Rightarrow> val" where
  "vtext s = Text s"

definition vint :: "int \<Rightarrow> val" where
  "vint i = (if i \<ge> 0 then Unsigned (nat i) else Negative (nat (-1 - i)))"

definition vtag :: "nat \<Rightarrow> val \<Rightarrow> val" where
  "vtag number v = Tag number v"

definition vrecord :: "(str \<times> val) list \<Rightarrow> val" where
  "vrecord entries = VMap (map (\<lambda>(k, v). (vtext k, v)) entries)"

definition head :: "byte \<Rightarrow> nat \<Rightarrow> bytes" where
  "head major n =
    (let m = push_bit 5 major in
     if n \<le> 23 then [m OR word_of_nat n]
     else if n \<le> 0xff then [m OR 24, word_of_nat n]
     else if n \<le> 0xffff then (m OR 25) # be_bytes 2 n
     else if n \<le> 0xffffffff then (m OR 26) # be_bytes 4 n
     else (m OR 27) # be_bytes 8 n)"

lemma size_entry:
  "e \<in> set (entries :: (val \<times> val) list) \<Longrightarrow>
   size (fst e) < Suc (size_list (size_prod size size) entries) \<and>
   size (snd e) < Suc (size_list (size_prod size size) entries)"
  by (induction entries) auto

function encode :: "val \<Rightarrow> bytes" where
  "encode (Unsigned n) = head 0 n"
| "encode (Negative n) = head 1 n"
| "encode (Bytes b) = head 2 (length b) @ b"
| "encode (Text t) = head 3 (length t) @ t"
| "encode (Array items) = head 4 (length items) @ concat (map encode items)"
| "encode (VMap entries) =
     head 5 (length entries) @ concat (map (\<lambda>e. encode (fst e) @ encode (snd e)) entries)"
| "encode (Tag number v) = head 6 number @ encode v"
| "encode (VBool b) = [if b then 0xf5 else 0xf4]"
| "encode (Encoded bs) = bs"
  by pat_completeness auto
termination
  by (relation "measure size")
    (auto simp: less_Suc_eq_le dest!: size_entry dest: size_list_estimation' [where y = "size x" for x])

section \<open>The reader\<close>

datatype cbor_error =
    TooManyBytes nat
  | NestedTooDeep
  | NoDataItem
  | HeadCutShort
  | NoDefiniteLength byte
  | LongSimpleValue
  | StringTooLong
  | MapTooLong
  | MoreItemsThanBytes
  | ItemCutShort
  | NotUtf8
  | NotContainer
  | NotArray
  | NoElement nat
  | NotMap
  | NoKey bytes
  | NotTag24
  | EmptyTag
  | NotByteString

record item =
  ibytes :: bytes
  imajor :: nat
  iargument :: nat
  content_at :: nat

definition MAX_DEPTH :: nat where "MAX_DEPTH = 32"

definition MAX_INPUT :: nat where "MAX_INPUT = 2 ^ 20"

text \<open>The head of a data item: its major type, its argument and the length of the head.\<close>

definition read_head :: "bytes \<Rightarrow> cbor_error + nat \<times> nat \<times> nat" where
  "read_head bs =
    (case bs of
       [] \<Rightarrow> Inl NoDataItem
     | initial # _ \<Rightarrow>
       (let major = unat (drop_bit 5 initial); info = unat (initial AND 31) in
        rbind (if info \<le> 23 then Inr (info, 1)
               else if info \<le> 27 then
                 (let n = 2 ^ (info - 24) in
                  if 1 + n \<le> length bs then Inr (be_val (take n (drop 1 bs)), 1 + n)
                  else Inl HeadCutShort)
               else Inl (NoDefiniteLength initial))
          (\<lambda>(argument, content).
             if major = 7 \<and> info = 24 \<and> 1 < length bs \<and> unat (bs ! 1) < 32 then Inl LongSimpleValue
             else Inr (major, argument, content))))"

text \<open>The number of data items inside an array, a map or a tag.\<close>

definition child_count :: "nat \<Rightarrow> nat \<Rightarrow> cbor_error + nat" where
  "child_count major argument =
    (if major = 4 then Inr argument
     else if major = 5 then (if argument * 2 < 2 ^ 64 then Inr (argument * 2) else Inl MapTooLong)
     else Inr 1)"

definition finish_item :: "bytes \<Rightarrow> nat \<Rightarrow> nat \<Rightarrow> nat \<Rightarrow> nat \<Rightarrow> cbor_error + item" where
  "finish_item bs major argument content end =
    (if end \<le> length bs then
       (if major = 3 \<and> \<not> utf8_valid (drop content (take end bs)) then Inl NotUtf8
        else Inr \<lparr>ibytes = take end bs, imajor = major, iargument = argument, content_at = content\<rparr>)
     else Inl ItemCutShort)"

function read_at :: "bytes \<Rightarrow> nat \<Rightarrow> cbor_error + item"
  and read_items :: "bytes \<Rightarrow> nat \<Rightarrow> nat \<Rightarrow> nat \<Rightarrow> cbor_error + nat" where
  "read_at bs depth =
    (if depth > MAX_DEPTH then Inl NestedTooDeep
     else rbind (read_head bs) (\<lambda>(major, argument, content).
       rbind (if major = 2 \<or> major = 3 then
                (if content + argument < 2 ^ 64 then Inr (content + argument) else Inl StringTooLong)
              else if 4 \<le> major \<and> major \<le> 6 then
                rbind (child_count major argument) (\<lambda>children.
                  if children > length bs - content then Inl MoreItemsThanBytes
                  else read_items bs content children (depth + 1))
              else Inr content)
         (finish_item bs major argument content)))"
| "read_items bs end 0 depth = Inr end"
| "read_items bs end (Suc k) depth =
    (if end \<le> length bs
     then rbind (read_at (drop end bs) depth) (\<lambda>it. read_items bs (end + length (ibytes it)) k depth)
     else Inl ItemCutShort)"
  by pat_completeness auto
termination
  by (relation "measures
      [\<lambda>x. (case x of Inl (bs, d) \<Rightarrow> MAX_DEPTH + 2 - d | Inr (bs, e, k, d) \<Rightarrow> MAX_DEPTH + 2 - d),
       \<lambda>x. (case x of Inl (bs, d) \<Rightarrow> 0 | Inr (bs, e, k, d) \<Rightarrow> k)]") auto

declare read_at.simps [simp del]

definition read :: "bytes \<Rightarrow> cbor_error + item" where
  "read bs = (if length bs > MAX_INPUT then Inl (TooManyBytes (length bs)) else read_at bs 0)"

definition content :: "item \<Rightarrow> bytes" where
  "content it = drop (content_at it) (ibytes it)"

text \<open>Facts of every item the reader returns, which the loop of \<open>children\<close> rests on.\<close>

lemma be_val_take_u64:
  assumes "n \<le> 8"
  shows "be_val (take n bs) < 2 ^ 64"
proof -
  have "be_val (take n bs) < 256 ^ length (take n bs)" by (rule be_val_less)
  also have "\<dots> \<le> 256 ^ 8" using assms by (intro power_increasing) auto
  finally show ?thesis by simp
qed

lemma pow_info_le: "i \<le> 27 \<Longrightarrow> 2 ^ (i - 24) \<le> (8::nat)"
  using power_increasing [of "i - 24" 3 "2::nat"] by simp

lemma read_head_bounds:
  assumes "read_head bs = Inr (mj, a, c)"
  shows "1 \<le> c \<and> c \<le> 9 \<and> c \<le> length bs \<and> mj < 8 \<and> a < 2 ^ 64"
proof -
  obtain b bs' where bs: "bs = b # bs'" using assms by (cases bs) (auto simp: read_head_def)
  have "unat (drop_bit 5 b) < 8"
    by (simp only: unat_drop_bit_eq, simp only: drop_bit_eq_div) (simp add: less_mult_imp_div_less)
  then have mj: "mj < 8"
    using assms by (auto simp: read_head_def bs Let_def result_simps split: if_splits)
  show ?thesis
    using assms mj be_val_take_u64 [OF pow_info_le] pow_info_le [of "unat (b AND 31)"]
    by (auto simp: read_head_def bs Let_def result_simps split: if_splits)
qed

lemma read_head_take:
  assumes h: "read_head bs = Inr (mj, a, c)" and t: "take c bs' = take c bs" and c: "c \<le> length bs'"
  shows "read_head bs' = Inr (mj, a, c)"
proof -
  obtain b cs where bs: "bs = b # cs" using h by (cases bs) (auto simp: read_head_def)
  have c1: "1 \<le> c" "c \<le> length bs" using read_head_bounds [OF h] by auto
  then obtain cs' where bs': "bs' = b # cs'" using t c by (cases bs'; cases c) (auto simp: bs)
  have tl: "take (c - 1) cs' = take (c - 1) cs" using t c1 by (cases c) (auto simp: bs bs')
  have len: "c - 1 \<le> length cs'" "c - 1 \<le> length cs" using c c1 by (auto simp: bs bs')
  show ?thesis
  proof (cases "unat (b AND 31) \<le> 23")
    case True
    then show ?thesis using h by (auto simp: read_head_def bs bs' Let_def)
  next
    case False
    let ?n = "2 ^ (unat (b AND 31) - 24) :: nat"
    have i: "unat (b AND 31) \<le> 27" "c = 1 + ?n" "a = be_val (take ?n cs)" "mj = unat (drop_bit 5 b)"
      using h False by (auto simp: read_head_def bs Let_def result_simps split: if_splits)
    have n: "take ?n cs' = take ?n cs" "?n \<le> length cs'" "?n \<le> length cs" using tl len i(2) by auto
    have "cs' ! 0 = cs ! 0" using n by (metis nth_take zero_less_numeral zero_less_power)
    moreover have "1 < length bs \<and> 1 < length bs'" using n by (auto simp: bs bs' intro: Suc_le_lessD order.trans [rotated])
    ultimately show ?thesis
      using h False i n by (auto simp: read_head_def bs bs' Let_def split: if_splits)
  qed
qed

text \<open>The end of an item, and the reader as head, end and finish.\<close>

definition item_end :: "bytes \<Rightarrow> nat \<Rightarrow> nat \<Rightarrow> nat \<Rightarrow> nat \<Rightarrow> cbor_error + nat" where
  "item_end bs depth mj a c =
    (if mj = 2 \<or> mj = 3 then (if c + a < 2 ^ 64 then Inr (c + a) else Inl StringTooLong)
     else if 4 \<le> mj \<and> mj \<le> 6 then
       rbind (child_count mj a) (\<lambda>n.
         if n > length bs - c then Inl MoreItemsThanBytes else read_items bs c n (depth + 1))
     else Inr c)"

lemma read_at_eq:
  "read_at bs depth =
    (if depth > MAX_DEPTH then Inl NestedTooDeep
     else rbind (read_head bs) (\<lambda>(mj, a, c). rbind (item_end bs depth mj a c) (finish_item bs mj a c)))"
  by (subst read_at.simps) (simp add: item_end_def)

lemma read_at_Inr:
  "read_at bs depth = Inr it \<longleftrightarrow>
    depth \<le> MAX_DEPTH \<and> (\<exists>mj a c e. read_head bs = Inr (mj, a, c) \<and>
      item_end bs depth mj a c = Inr e \<and> finish_item bs mj a c e = Inr it)"
  by (subst read_at_eq) (auto simp: result_simps)

lemma item_end_Inr:
  "item_end bs depth mj a c = Inr e \<longleftrightarrow>
    (if mj = 2 \<or> mj = 3 then e = c + a \<and> c + a < 2 ^ 64
     else if 4 \<le> mj \<and> mj \<le> 6 then
       (\<exists>n. child_count mj a = Inr n \<and> n \<le> length bs - c \<and> read_items bs c n (depth + 1) = Inr e)
     else e = c)"
  by (cases "child_count mj a"; simp add: item_end_def; metis)

lemma finish_item_Inr:
  "finish_item bs mj a c e = Inr it \<longleftrightarrow>
    e \<le> length bs \<and> (mj = 3 \<longrightarrow> utf8_valid (drop c (take e bs))) \<and>
    it = \<lparr>ibytes = take e bs, imajor = mj, iargument = a, content_at = c\<rparr>"
  by (auto simp: finish_item_def)

text \<open>Induction over a successful read: arrays, maps and tags descend into their items.\<close>

lemma read_induct [consumes 1, case_names item none more]:
  assumes "read_at bs d = Inr it"
    and item: "\<And>bs d it mj a c e. \<lbrakk>d \<le> MAX_DEPTH; read_head bs = Inr (mj, a, c);
        item_end bs d mj a c = Inr e; finish_item bs mj a c e = Inr it;
        \<And>n. \<lbrakk>4 \<le> mj; mj \<le> 6; child_count mj a = Inr n; n \<le> length bs - c;
          read_items bs c n (d + 1) = Inr e\<rbrakk> \<Longrightarrow> Q bs c n (d + 1) e\<rbrakk> \<Longrightarrow> P bs d it"
    and items: "\<And>bs e d. Q bs e 0 d e"
      "\<And>bs e k d it e'. \<lbrakk>e \<le> length bs; read_at (drop e bs) d = Inr it; P (drop e bs) d it;
        read_items bs (e + length (ibytes it)) k d = Inr e'; Q bs (e + length (ibytes it)) k d e'\<rbrakk>
        \<Longrightarrow> Q bs e (Suc k) d e'"
  shows "P bs d it"
proof -
  have "(read_at bs d = Inr it \<longrightarrow> P bs d it)"
    and "(read_items bs e k d = Inr e' \<longrightarrow> Q bs e k d e')" for e k e' d bs it
  proof (induction bs d and bs e k d arbitrary: it and e' rule: read_at_read_items.induct)
    case (1 bs depth)
    show ?case
    proof
      assume "read_at bs depth = Inr it"
      then obtain mj a c e where h: "depth \<le> MAX_DEPTH" "read_head bs = Inr (mj, a, c)"
        "item_end bs depth mj a c = Inr e" "finish_item bs mj a c e = Inr it"
        by (auto simp: read_at_Inr)
      show "P bs depth it"
        using h by (rule item) (use 1 h in \<open>auto\<close>)
    qed
  next
    case (2 bs e d)
    then show ?case using items(1) by simp
  next
    case (3 bs e k d)
    then show ?case using items(2) by (auto simp: result_simps split: if_splits)
  qed
  then show ?thesis using assms(1) by blast
qed

lemma read_at_bounds:
  assumes "read_at bs d = Inr it"
  shows "1 \<le> content_at it \<and> content_at it \<le> length (ibytes it) \<and>
    length (ibytes it) \<le> length bs \<and> take (length (ibytes it)) bs = ibytes it"
  using assms
proof (induction rule: read_induct [where Q = "\<lambda>bs e k d e'. e \<le> e'"])
  case (item bs d it mj a c e)
  have "c \<le> e" using item(3,5) by (auto simp: item_end_Inr split: if_splits)
  then show ?case using read_head_bounds [OF item(2)] item(4) by (auto simp: finish_item_Inr)
qed auto

lemma read_at_nonempty: "read_at bs d = Inr it \<Longrightarrow> 1 \<le> length (ibytes it)"
  using read_at_bounds order.trans by blast

lemma read_items_bounds: "read_items bs e k d = Inr e' \<Longrightarrow> e + k \<le> e'"
proof (induction k arbitrary: e)
  case (Suc k)
  then obtain it where it: "read_at (drop e bs) d = Inr it"
    "read_items bs (e + length (ibytes it)) k d = Inr e'"
    by (auto simp: rbind_eq_Inr split: if_splits)
  from Suc.IH [OF it(2)] read_at_nonempty [OF it(1)] show ?case by simp
qed simp

lemma read_items_le: "read_items bs e k d = Inr e' \<Longrightarrow> e \<le> length bs \<Longrightarrow> e' \<le> length bs"
proof (induction k arbitrary: e)
  case (Suc k)
  then obtain it where it: "read_at (drop e bs) d = Inr it"
    "read_items bs (e + length (ibytes it)) k d = Inr e'"
    by (auto simp: rbind_eq_Inr split: if_splits)
  have "e + length (ibytes it) \<le> length bs" using read_at_bounds [OF it(1)] Suc.prems(2) by auto
  with Suc.IH it(2) show ?case by blast
qed simp

lemma item_end_ge: "item_end bs d mj a c = Inr e \<Longrightarrow> c \<le> e"
  by (auto simp: item_end_Inr dest: read_items_bounds split: if_splits)

text \<open>
  The reader depends on the item's own bytes only: an item read inside a longer input, or at a
  greater depth, is read again from its own bytes followed by anything.
\<close>

lemma take_drop_agree:
  "take e' bs' = take e' bs \<Longrightarrow> e + l \<le> e' \<Longrightarrow> take l (drop e bs') = take l (drop e bs)"
  by (metis (no_types, lifting) add.commute min.absorb1 take_drop take_take)

lemma read_at_local:
  assumes "read_at bs d = Inr it"
  shows "\<forall>bs' d'. d' \<le> d \<longrightarrow> take (length (ibytes it)) bs' = ibytes it \<longrightarrow> read_at bs' d' = Inr it"
  using assms
proof (induction rule: read_induct [where Q = "\<lambda>bs e k d e'. \<forall>bs' d'. d' \<le> d \<longrightarrow> e' \<le> length bs \<longrightarrow>
    e' \<le> length bs' \<longrightarrow> take e' bs' = take e' bs \<longrightarrow> read_items bs' e k d' = Inr e'"])
  case (item bs d it mj a c e)
  show ?case
  proof (intro allI impI)
    fix bs' d' assume d': "d' \<le> d" and t: "take (length (ibytes it)) bs' = ibytes it"
    have it: "e \<le> length bs" "mj = 3 \<longrightarrow> utf8_valid (drop c (take e bs))"
      "it = \<lparr>ibytes = take e bs, imajor = mj, iargument = a, content_at = c\<rparr>"
      using item(4) by (auto simp: finish_item_Inr)
    have ib: "ibytes it = take e bs" using it(3) by simp
    have "length (take e bs) = e" using it(1) by simp
    then have "take e bs' = take e bs" using t by (simp only: ib)
    moreover from this have "length (take e bs') = e" using it(1) by simp
    then have "e \<le> length bs'" by simp
    ultimately have l: "e \<le> length bs'" "take e bs' = take e bs" by blast+
    have ce: "c \<le> e" using item(3) by (rule item_end_ge)
    then have "take c bs' = take c bs" using l(2) by (metis min.absorb1 take_take)
    then have h: "read_head bs' = Inr (mj, a, c)"
      by (rule read_head_take [OF item(2)]) (rule order.trans [OF ce l(1)])
    have e': "item_end bs' d' mj a c = Inr e"
    proof (cases "4 \<le> mj \<and> mj \<le> 6")
      case True
      then obtain n where n: "child_count mj a = Inr n" "n \<le> length bs - c" "read_items bs c n (d + 1) = Inr e"
        using item(3) by (auto simp: item_end_Inr)
      have "read_items bs' c n (d' + 1) = Inr e"
        using item(5) True n d' it(1) l by auto
      moreover have "n \<le> length bs' - c" using read_items_bounds [OF n(3)] l(1) by simp
      ultimately show ?thesis using True n(1) by (auto simp: item_end_Inr)
    qed (use item(3) in \<open>auto simp: item_end_Inr\<close>)
    have "finish_item bs' mj a c e = Inr it" using it l by (simp only: finish_item_Inr)
    with h e' d' item(1) show "read_at bs' d' = Inr it"
      unfolding read_at_Inr by (blast intro: order.trans)
  qed
next
  case (more bs e k d it e')
  show ?case
  proof (intro allI impI)
    fix bs' d' assume d': "d' \<le> d" and l: "e' \<le> length bs" "e' \<le> length bs'" "take e' bs' = take e' bs"
    have e': "e + length (ibytes it) \<le> e'" using read_items_bounds [OF more(3)] by simp
    have "take (length (ibytes it)) (drop e bs') = take (length (ibytes it)) (drop e bs)"
      using l(3) e' by (rule take_drop_agree)
    also have "\<dots> = ibytes it" using read_at_bounds [OF more(2)] by blast
    finally have "read_at (drop e bs') d' = Inr it" by (rule more(5) [rule_format, OF d'])
    moreover have "read_items bs' (e + length (ibytes it)) k d' = Inr e'"
      by (rule more(4) [rule_format, OF d' l])
    ultimately show "read_items bs' e (Suc k) d' = Inr e'" using e' l by simp
  qed
qed simp

lemma read_at_again: "read_at bs d = Inr it \<Longrightarrow> d' \<le> d \<Longrightarrow> read_at (ibytes it @ rest) d' = Inr it"
  using read_at_local by (metis append_eq_conv_conj)

lemma read_items_local:
  assumes "read_items bs e k d = Inr e'" "d' \<le> d" "e \<le> length bs" "take e' bs' = take e' bs" "e' \<le> length bs'"
  shows "read_items bs' e k d' = Inr e'"
  using assms
proof (induction k arbitrary: e)
  case (Suc k)
  then obtain it where it: "read_at (drop e bs) d = Inr it" "read_items bs (e + length (ibytes it)) k d = Inr e'"
    by (auto simp: rbind_eq_Inr split: if_splits)
  have e': "e + length (ibytes it) \<le> e'" using read_items_bounds [OF it(2)] by simp
  have "take (length (ibytes it)) (drop e bs') = ibytes it"
    using take_drop_agree [OF Suc.prems(4) e'] read_at_bounds [OF it(1)] by metis
  then have "read_at (drop e bs') d' = Inr it"
    by (rule read_at_local [OF it(1), rule_format, OF Suc.prems(2)])
  moreover have "read_items bs' (e + length (ibytes it)) k d' = Inr e'"
    using Suc.prems read_at_bounds [OF it(1)] by (intro Suc.IH [OF it(2)]) auto
  ultimately show ?case using e' Suc.prems(5) by simp
qed simp

section \<open>Accessors\<close>

text \<open>The loop of \<open>Item::children\<close> from the offset \<open>at\<close>: it ends at the item's end, or at bytes
  that hold no data item.\<close>

function children_from :: "bytes \<Rightarrow> nat \<Rightarrow> item list" where
  "children_from bs at =
    (if at < length bs then
       (case read_at (drop at bs) 0 of
          Inl _ \<Rightarrow> []
        | Inr child \<Rightarrow> child # children_from bs (at + length (ibytes child)))
     else [])"
  by pat_completeness auto
termination
  by (relation "measure (\<lambda>(bs, at). length bs - at)")
    (auto dest: read_at_nonempty simp: diff_less_mono2)

declare children_from.simps [simp del]

definition children :: "item \<Rightarrow> item list" where
  "children it = (if 4 \<le> imajor it \<and> imajor it \<le> 6 then children_from (ibytes it) (content_at it) else [])"

definition try_children :: "item \<Rightarrow> cbor_error + item list" where
  "try_children it = (if 4 \<le> imajor it \<and> imajor it \<le> 6 then Inr (children it) else Inl NotContainer)"

definition at :: "item \<Rightarrow> nat \<Rightarrow> cbor_error + item" where
  "at it i =
    (if imajor it \<noteq> 4 then Inl NotArray
     else if i < length (children it) then Inr (children it ! i) else Inl (NoElement i))"

text \<open>\<open>as_chunks::<2>().0\<close>: the keys and values in pairs, without a remainder.\<close>

fun pairs :: "'a list \<Rightarrow> ('a \<times> 'a) list" where
  "pairs (k # v # xs) = (k, v) # pairs xs"
| "pairs _ = []"

definition get :: "item \<Rightarrow> val \<Rightarrow> cbor_error + item" where
  "get it key =
    (if imajor it \<noteq> 5 then Inl NotMap
     else case find (\<lambda>(k, v). ibytes k = encode key) (pairs (children it)) of
         None \<Rightarrow> Inl (NoKey (encode key))
       | Some (k, v) \<Rightarrow> Inr v)"

definition embedded :: "item \<Rightarrow> cbor_error + item" where
  "embedded it =
    (if imajor it \<noteq> 6 \<or> iargument it \<noteq> 24 then Inl NotTag24
     else case children it of
         [] \<Rightarrow> Inl EmptyTag
       | inner # _ \<Rightarrow> if imajor inner \<noteq> 2 then Inl NotByteString else read (content inner))"

section \<open>Reading back what was encoded\<close>

lemma and_31: "(x :: byte) AND 31 = take_bit 5 x"
  by (simp add: take_bit_eq_mask mask_eq_exp_minus_1)

lemma unat_take_bit_byte: "unat (x :: byte) < 32 \<Longrightarrow> take_bit 5 x = x"
  by (simp add: word_unat_eq_iff unsigned_take_bit_eq take_bit_nat_eq_self)

lemma drop_bit_small_byte: "unat (x :: byte) < 32 \<Longrightarrow> drop_bit 5 x = 0"
  by (subst word_unat_eq_iff, simp only: unat_drop_bit_eq, simp only: drop_bit_eq_div) simp

lemma drop_push_byte: "unat (m :: byte) < 8 \<Longrightarrow> drop_bit 5 (push_bit 5 m) = m"
  by (subst word_unat_eq_iff, simp only: unat_drop_bit_eq unsigned_push_bit_eq)
    (simp add: drop_bit_eq_div push_bit_eq_mult take_bit_eq_mod)
lemma head_major: "unat (m :: byte) < 8 \<Longrightarrow> unat x < 32 \<Longrightarrow> drop_bit 5 (push_bit 5 m OR x) = m"
  by (simp add: drop_push_byte drop_bit_small_byte)

lemma head_info: "unat (m :: byte) < 8 \<Longrightarrow> unat x < 32 \<Longrightarrow> (push_bit 5 m OR x) AND 31 = x"
  by (simp only: and_31) (simp add: unat_take_bit_byte take_bit_push_bit)

lemma read_head_head:
  assumes m: "unat m < 7" and n: "n < 2 ^ 64"
  shows "read_head (head m n @ rest) = Inr (unat m, n, length (head m n))"
proof -
  note hd = head_major [of m] head_info [of m]
  have m8: "unat m < 8" "unat m \<noteq> 7" using m by auto
  consider "n \<le> 23" | "23 < n" "n \<le> 0xff" | "0xff < n" "n \<le> 0xffff"
    | "0xffff < n" "n \<le> 0xffffffff" | "0xffffffff < n" by linarith
  then show ?thesis
  proof cases
    case 1
    then have "unat (word_of_nat n :: byte) = n" by (simp add: unat_of_nat)
    then show ?thesis using 1 hd [of "word_of_nat n"] m8 by (simp add: head_def read_head_def Let_def)
  next
    case 2
    then have "be_val [word_of_nat n] = n" by (simp add: be_val_def unat_of_nat)
    then show ?thesis using 2 hd [of 24] m8 by (simp add: head_def read_head_def Let_def)
  next
    case 3
    then show ?thesis using hd [of 25] m8 by (simp add: head_def read_head_def Let_def)
  next
    case 4
    then show ?thesis using hd [of 26] m8 by (simp add: head_def read_head_def Let_def)
  next
    case 5
    then show ?thesis using hd [of 27] m8 n by (simp add: head_def read_head_def Let_def)
  qed
qed

lemma length_head: "1 \<le> length (head m n)" "length (head m n) \<le> 9"
  by (auto simp: head_def Let_def)

text \<open>The values the reader takes back from depth \<open>d\<close>: arguments of 64 bits, text in UTF-8, nesting
  within the cap, and an encoded item that is one data item.\<close>

function wf_val :: "nat \<Rightarrow> val \<Rightarrow> bool" where
  "wf_val d (Unsigned n) = (d \<le> MAX_DEPTH \<and> n < 2 ^ 64)"
| "wf_val d (Negative n) = (d \<le> MAX_DEPTH \<and> n < 2 ^ 64)"
| "wf_val d (Bytes b) = (d \<le> MAX_DEPTH \<and> length b < 2 ^ 64 - 9)"
| "wf_val d (Text t) = (d \<le> MAX_DEPTH \<and> length t < 2 ^ 64 - 9 \<and> utf8_valid t)"
| "wf_val d (Array xs) = (d \<le> MAX_DEPTH \<and> length xs < 2 ^ 64 \<and> list_all (wf_val (d + 1)) xs)"
| "wf_val d (VMap es) =
     (d \<le> MAX_DEPTH \<and> 2 * length es < 2 ^ 64 \<and>
      list_all (\<lambda>e. wf_val (d + 1) (fst e) \<and> wf_val (d + 1) (snd e)) es)"
| "wf_val d (Tag n v) = (d \<le> MAX_DEPTH \<and> n < 2 ^ 64 \<and> wf_val (d + 1) v)"
| "wf_val d (VBool b) = (d \<le> MAX_DEPTH)"
| "wf_val d (Encoded bs) = (case read_at bs d of Inl _ \<Rightarrow> False | Inr it \<Rightarrow> ibytes it = bs)"
  by pat_completeness auto
termination
  by (relation "measure (\<lambda>(d, v). size v)")
    (auto simp: less_Suc_eq_le dest!: size_entry dest: size_list_estimation' [where y = "size x" for x])

text \<open>An item list written one after the other reads as that many items.\<close>

lemma read_items_concat:
  assumes "\<forall>x \<in> set xs. \<forall>rest. \<exists>it. read_at (x @ rest) d = Inr it \<and> ibytes it = x"
  shows "read_items (pre @ concat xs @ rest) (length pre) (length xs) d = Inr (length pre + length (concat xs))"
  using assms
proof (induction xs arbitrary: pre)
  case (Cons x xs)
  obtain it where it: "read_at (x @ concat xs @ rest) d = Inr it" "ibytes it = x"
    using Cons.prems by fastforce
  have "read_items ((pre @ x) @ concat xs @ rest) (length (pre @ x)) (length xs) d
      = Inr (length (pre @ x) + length (concat xs))"
    using Cons.prems by (intro Cons.IH) simp
  then show ?case using it by (simp add: add.assoc)
qed simp

lemma length_concat_nonempty: "\<forall>x \<in> set xs. x \<noteq> [] \<Longrightarrow> length xs \<le> length (concat xs)"
proof (induction xs)
  case (Cons x xs)
  then show ?case by (cases x) auto
qed simp

abbreviation reads_as :: "bytes \<Rightarrow> nat \<Rightarrow> bool" where
  "reads_as bs d \<equiv> \<forall>rest. \<exists>it. read_at (bs @ rest) d = Inr it \<and> ibytes it = bs"

lemma read_at_plain:
  assumes "d \<le> MAX_DEPTH" "read_head (h @ rest) = Inr (mj, a, length h)" "mj < 2 \<or> 6 < mj"
  shows "read_at (h @ rest) d = Inr \<lparr>ibytes = h, imajor = mj, iargument = a, content_at = length h\<rparr>"
  using assms by (auto simp: read_at_Inr item_end_Inr finish_item_Inr)

lemma read_at_string:
  assumes "d \<le> MAX_DEPTH" "unat m = 2 \<or> unat m = 3" "length b < 2 ^ 64 - 9" "unat m = 3 \<longrightarrow> utf8_valid b"
  shows "read_at (head m (length b) @ b @ rest) d =
    Inr \<lparr>ibytes = head m (length b) @ b, imajor = unat m, iargument = length b,
      content_at = length (head m (length b))\<rparr>"
proof -
  have h: "read_head (head m (length b) @ b @ rest) = Inr (unat m, length b, length (head m (length b)))"
    using assms by (intro read_head_head) auto
  have "length (head m (length b)) + length b < 2 ^ 64"
    using assms(3) length_head(2) [of m "length b"] by simp
  then have e: "item_end (head m (length b) @ b @ rest) d (unat m) (length b) (length (head m (length b)))
      = Inr (length (head m (length b)) + length b)"
    using assms(2) by (simp only: item_end_Inr) simp
  show ?thesis
    unfolding read_at_Inr using assms(1) h e assms(4)
    by (intro conjI exI) (auto simp: finish_item_Inr)
qed

lemma read_at_container:
  assumes d: "d \<le> MAX_DEPTH" and m: "4 \<le> unat m" "unat m \<le> 6" and n: "n < 2 ^ 64"
    and k: "child_count (unat m) n = Inr (length xs)" and xs: "\<forall>x \<in> set xs. reads_as x (d + 1)"
  shows "read_at (head m n @ concat xs @ rest) d =
    Inr \<lparr>ibytes = head m n @ concat xs, imajor = unat m, iargument = n, content_at = length (head m n)\<rparr>"
proof -
  let ?bs = "head m n @ concat xs @ rest" and ?c = "length (head m n)"
  have h: "read_head ?bs = Inr (unat m, n, ?c)"
    using m n by (intro read_head_head) auto
  have "\<forall>x \<in> set xs. x \<noteq> []" using xs read_at_nonempty by fastforce
  then have len: "length xs \<le> length (concat xs)" by (rule length_concat_nonempty)
  have "read_items ?bs ?c (length xs) (d + 1) = Inr (?c + length (concat xs))"
    using xs by (intro read_items_concat) blast
  then have e: "item_end ?bs d (unat m) n ?c = Inr (?c + length (concat xs))"
    using m k len by (auto simp: item_end_Inr)
  show ?thesis
    unfolding read_at_Inr using d h e m by (intro conjI exI) (auto simp: finish_item_Inr)
qed

lemma encode_reads: "wf_val d v \<Longrightarrow> reads_as (encode v) d"
proof (induction d v rule: wf_val.induct)
  case (1 d n)
  then show ?case using read_at_plain [OF _ read_head_head] by fastforce
next
  case (2 d n)
  then show ?case using read_at_plain [OF _ read_head_head] by fastforce
next
  case (3 d b)
  then show ?case using read_at_string [of d 2 b] by simp
next
  case (4 d t)
  then show ?case using read_at_string [of d 3 t] by simp
next
  case (5 d xs)
  then have "\<forall>x \<in> set (map encode xs). reads_as x (d + 1)" by (auto simp: list_all_iff)
  then show ?case
    using 5 read_at_container [of d 4 "length xs" "map encode xs"] by (simp add: child_count_def)
next
  case (6 d es)
  let ?xs = "concat (map (\<lambda>e. [encode (fst e), encode (snd e)]) es)"
  have "\<forall>x \<in> set ?xs. reads_as x (d + 1)" using 6 by (auto simp: list_all_iff)
  moreover have "length ?xs = 2 * length es" by (induction es) auto
  moreover have "concat ?xs = concat (map (\<lambda>e. encode (fst e) @ encode (snd e)) es)"
    by (induction es) auto
  ultimately show ?case
    using 6 read_at_container [of d 5 "length es" ?xs] by (simp add: child_count_def mult.commute)
next
  case (7 d n v)
  then show ?case using read_at_container [of d 6 n "[encode v]"] by (simp add: child_count_def)
next
  case (8 d b)
  have "read_head ([if b then 0xf5 else 0xf4] @ rest) = Inr (7, if b then 21 else 20, 1)" for rest
    by (simp add: read_head_def)
  then show ?case using 8 read_at_plain [of d "[if b then 0xf5 else 0xf4]"] by fastforce
next
  case (9 d bs)
  then show ?case using read_at_again by (fastforce split: sum.splits)
qed

section \<open>The accessors on an item\<close>

lemma children_from_items:
  assumes "read_items bs e k 0 = Inr (length bs)"
  shows "length (children_from bs e) = k \<and> concat (map ibytes (children_from bs e)) = drop e bs"
  using assms
proof (induction k arbitrary: e)
  case 0
  then show ?case by (simp add: children_from.simps)
next
  case (Suc k)
  then obtain it where it: "read_at (drop e bs) 0 = Inr it"
    "read_items bs (e + length (ibytes it)) k 0 = Inr (length bs)"
    by (auto simp: rbind_eq_Inr split: if_splits)
  have "e < length bs" using read_items_bounds [OF Suc.prems] by simp
  moreover have "drop e bs = ibytes it @ drop (e + length (ibytes it)) bs"
    using read_at_bounds [OF it(1)] by (metis add.commute append_take_drop_id drop_drop)
  ultimately show ?case using Suc.IH [OF it(2)] it(1) by (simp add: children_from.simps [of bs e])
qed

lemma children_complete:
  assumes r: "read_at bs d = Inr it" and m: "4 \<le> imajor it" "imajor it \<le> 6"
    and n: "child_count (imajor it) (iargument it) = Inr n"
  shows "length (children it) = n \<and> concat (map ibytes (children it)) = content it"
proof -
  have r': "read_at (ibytes it) 0 = Inr it" using read_at_again [OF r, of 0 "[]"] by simp
  then obtain mj a c e where h: "read_head (ibytes it) = Inr (mj, a, c)"
    "item_end (ibytes it) 0 mj a c = Inr e" "finish_item (ibytes it) mj a c e = Inr it"
    by (auto simp: read_at_Inr)
  then have it: "imajor it = mj" "iargument it = a" "content_at it = c" "ibytes it = take e (ibytes it)"
    "e \<le> length (ibytes it)"
    by (auto simp: finish_item_Inr dest: arg_cong [where f = ibytes] arg_cong [where f = imajor]
        arg_cong [where f = iargument] arg_cong [where f = content_at])
  then have e: "e = length (ibytes it)" by (metis length_take min.absorb2)
  have "read_items (ibytes it) c n 1 = Inr e" using h(2) m n it by (auto simp: item_end_Inr)
  then have "read_items (ibytes it) c n 0 = Inr (length (ibytes it))"
    using read_items_local [of "ibytes it" c n 1 e 0 "ibytes it"] read_at_bounds [OF r] it e by simp
  from children_from_items [OF this] show ?thesis
    using m it by (simp add: children_def content_def)
qed

lemma reads_as_0: "reads_as bs d \<Longrightarrow> reads_as bs 0"
  by (metis le0 read_at_again)

lemma children_from_concat:
  assumes "\<forall>x \<in> set xs. reads_as x 0"
  shows "map Inr (children_from (pre @ concat xs) (length pre)) = map (\<lambda>x. read_at x 0) xs"
  using assms
proof (induction xs arbitrary: pre)
  case Nil
  then show ?case by (simp add: children_from.simps)
next
  case (Cons x xs)
  obtain it where it: "read_at (x @ concat xs) 0 = Inr it" "ibytes it = x" using Cons.prems by fastforce
  then have "read_at x 0 = Inr it" using read_at_again [OF it(1), of 0 "[]"] by simp
  moreover have "x \<noteq> []" using read_at_nonempty [OF it(1)] it(2) by auto
  moreover have "map Inr (children_from ((pre @ x) @ concat xs) (length (pre @ x))) = map (\<lambda>x. read_at x 0) xs"
    using Cons.prems by (intro Cons.IH) simp
  ultimately show ?case using it by (simp add: children_from.simps [of _ "length pre"])
qed

lemma children_container:
  assumes "\<forall>x \<in> set xs. reads_as x d" "4 \<le> imajor it" "imajor it \<le> 6"
    "ibytes it = pre @ concat xs" "content_at it = length pre"
  shows "map Inr (children it) = map (\<lambda>x. read_at x 0) xs"
proof -
  have "\<forall>x \<in> set xs. reads_as x 0" using assms(1) by (intro ballI reads_as_0 [of _ d]) blast
  from children_from_concat [OF this, of pre] show ?thesis using assms by (simp add: children_def)
qed

lemma read_array:
  assumes "wf_val d (Array xs)"
  shows "\<exists>it. read_at (encode (Array xs) @ rest) d = Inr it \<and> ibytes it = encode (Array xs) \<and>
    imajor it = 4 \<and> iargument it = length xs \<and>
    map Inr (children it) = map (\<lambda>x. read_at (encode x) 0) xs"
proof -
  have xs: "\<forall>x \<in> set (map encode xs). reads_as x (d + 1)"
    using assms encode_reads by (auto simp: list_all_iff)
  let ?it = "\<lparr>ibytes = head 4 (length xs) @ concat (map encode xs), imajor = 4, iargument = length xs,
    content_at = length (head 4 (length xs))\<rparr>"
  have "read_at (encode (Array xs) @ rest) d = Inr ?it"
    using assms xs read_at_container [of d 4 "length xs" "map encode xs" rest]
    by (simp add: child_count_def)
  moreover have "map Inr (children ?it) = map (\<lambda>x. read_at x 0) (map encode xs)"
    using xs by (rule children_container) simp_all
  ultimately show ?thesis by (intro exI [of _ ?it]) (simp add: comp_def)
qed

lemma read_map:
  assumes "wf_val d (VMap es)"
  shows "\<exists>it. read_at (encode (VMap es) @ rest) d = Inr it \<and> ibytes it = encode (VMap es) \<and>
    imajor it = 5 \<and> iargument it = length es \<and>
    map Inr (children it) = concat (map (\<lambda>(k, v). [read_at (encode k) 0, read_at (encode v) 0]) es)"
proof -
  let ?xs = "concat (map (\<lambda>e. [encode (fst e), encode (snd e)]) es)"
  have xs: "\<forall>x \<in> set ?xs. reads_as x (d + 1)" using assms encode_reads by (auto simp: list_all_iff)
  have len: "length ?xs = 2 * length es" by (induction es) auto
  have cc: "concat ?xs = concat (map (\<lambda>e. encode (fst e) @ encode (snd e)) es)" by (induction es) auto
  let ?it = "\<lparr>ibytes = head 5 (length es) @ concat ?xs, imajor = 5, iargument = length es,
    content_at = length (head 5 (length es))\<rparr>"
  have "read_at (encode (VMap es) @ rest) d = Inr ?it"
    using assms xs len cc read_at_container [of d 5 "length es" ?xs rest]
    by (simp add: child_count_def mult.commute)
  moreover have "map Inr (children ?it) = map (\<lambda>x. read_at x 0) ?xs"
    using xs by (rule children_container) simp_all
  moreover have "map (\<lambda>x. read_at x 0) ?xs =
      concat (map (\<lambda>(k, v). [read_at (encode k) 0, read_at (encode v) 0]) es)"
    by (induction es) auto
  ultimately show ?thesis by (intro exI [of _ ?it]) (simp add: cc)
qed

lemma read_tag:
  assumes "wf_val d (Tag n v)"
  shows "\<exists>it. read_at (encode (Tag n v) @ rest) d = Inr it \<and> ibytes it = encode (Tag n v) \<and>
    imajor it = 6 \<and> iargument it = n \<and> map Inr (children it) = [read_at (encode v) 0]"
proof -
  have xs: "\<forall>x \<in> set [encode v]. reads_as x (d + 1)" using assms encode_reads by simp
  let ?it = "\<lparr>ibytes = head 6 n @ concat [encode v], imajor = 6, iargument = n,
    content_at = length (head 6 n)\<rparr>"
  have "read_at (encode (Tag n v) @ rest) d = Inr ?it"
    using assms xs read_at_container [of d 6 n "[encode v]" rest] by (simp add: child_count_def)
  moreover have "map Inr (children ?it) = map (\<lambda>x. read_at x 0) [encode v]"
    using xs by (rule children_container) simp_all
  ultimately show ?thesis by (intro exI [of _ ?it]) simp
qed


lemma pairs_concat: "pairs (concat (map (\<lambda>(k, v). [f k, f v]) es)) = map (\<lambda>(k, v). (f k, f v)) es"
  by (induction es) auto

lemma map_Inr_eq_concat:
  "map Inr cs = concat (map (\<lambda>(k, v). [f k, f v]) es) \<Longrightarrow>
    map (\<lambda>(k, v). (Inr k, Inr v)) (pairs cs) = map (\<lambda>(k, v). (f k, f v)) es"
proof (induction es arbitrary: cs)
  case (Cons e es)
  then obtain k v cs' where "cs = k # v # cs'" by (cases e; cases cs; cases "tl cs") auto
  with Cons show ?case by (cases e) auto
qed simp

lemma find_pairs:
  assumes "map (\<lambda>(k, v). (Inr k, Inr v)) ps = map (\<lambda>(k, v). (f k, f v)) es"
    and "\<And>k v it. (k, v) \<in> set es \<Longrightarrow> f k = Inr it \<Longrightarrow> ibytes it = g k"
  shows "(case find (\<lambda>(k, v). ibytes k = b) ps of None \<Rightarrow> Inl x | Some (k, v) \<Rightarrow> Inr v) =
    (case find (\<lambda>(k, v). g k = b) es of None \<Rightarrow> Inl x | Some (k, v) \<Rightarrow> f v)"
  using assms
proof (induction es arbitrary: ps)
  case (Cons e es)
  then obtain k v ps' where ps: "ps = (k, v) # ps'" by (cases e; cases ps) auto
  obtain k' v' where e: "e = (k', v')" by (cases e)
  have h: "Inr k = f k'" "Inr v = f v'" using Cons.prems(1) by (auto simp: ps e)
  then have "ibytes k = g k'" using Cons.prems(2) [of k' v' k] by (simp add: e)
  moreover have "(case find (\<lambda>(k, v). ibytes k = b) ps' of None \<Rightarrow> Inl x | Some (k, v) \<Rightarrow> Inr v) =
    (case find (\<lambda>(k, v). g k = b) es of None \<Rightarrow> Inl x | Some (k, v) \<Rightarrow> f v)"
    using Cons.prems by (intro Cons.IH) (auto simp: ps)
  ultimately show ?case using h by (simp add: ps e)
qed simp

lemma get_read:
  assumes "wf_val 0 (VMap es)" "read_at (encode (VMap es)) 0 = Inr it"
  shows "get it key = (case find (\<lambda>(k, v). encode k = encode key) es of
      None \<Rightarrow> Inl (NoKey (encode key)) | Some (k, v) \<Rightarrow> read_at (encode v) 0)"
proof -
  note r = assms(2)
  have it: "imajor it = 5"
    "map Inr (children it) = concat (map (\<lambda>(k, v). [read_at (encode k) 0, read_at (encode v) 0]) es)"
    using read_map [OF assms(1), of "[]"] r by auto
  have k: "ibytes i = encode k" if "(k, v) \<in> set es" "read_at (encode k) 0 = Inr i" for k v i
  proof -
    have "reads_as (encode k) 1" using assms(1) that(1) encode_reads by (auto simp: list_all_iff)
    from reads_as_0 [OF this] have "\<exists>i. read_at (encode k @ []) 0 = Inr i \<and> ibytes i = encode k" by blast
    with that(2) show ?thesis by simp
  qed
  from map_Inr_eq_concat [OF it(2)]
  have "map (\<lambda>(k, v). (Inr k, Inr v)) (pairs (children it)) =
      map (\<lambda>(k, v). (read_at (encode k) 0, read_at (encode v) 0)) es" .
  from find_pairs [OF this k, where b = "encode key" and x = "NoKey (encode key)"] it(1)
  show ?thesis by (simp add: get_def)
qed

section \<open>The value of an item\<close>

text \<open>
  An item is the data item of a value, by the major types of RFC 8949: what the accessors read of it, down through its
  children, is the value. The bytes of an \<open>Encoded\<close> value are an item of their own, so only values without one are
  determined by their item.
\<close>

inductive denotes :: "item \<Rightarrow> val \<Rightarrow> bool" where
  den_unsigned: "imajor it = 0 \<Longrightarrow> iargument it = n \<Longrightarrow> denotes it (Unsigned n)"
| den_negative: "imajor it = 1 \<Longrightarrow> iargument it = n \<Longrightarrow> denotes it (Negative n)"
| den_bytes: "imajor it = 2 \<Longrightarrow> content it = b \<Longrightarrow> denotes it (Bytes b)"
| den_text: "imajor it = 3 \<Longrightarrow> content it = t \<Longrightarrow> denotes it (Text t)"
| den_array: "imajor it = 4 \<Longrightarrow> list_all2 denotes (children it) xs \<Longrightarrow> denotes it (Array xs)"
| den_map: "imajor it = 5 \<Longrightarrow> list_all2 (\<lambda>p e. denotes (fst p) (fst e) \<and> denotes (snd p) (snd e)) (pairs (children it)) es \<Longrightarrow> denotes it (VMap es)"
| den_tag: "imajor it = 6 \<Longrightarrow> iargument it = n \<Longrightarrow> children it = [c] \<Longrightarrow> denotes c v \<Longrightarrow> denotes it (Tag n v)"
| den_bool: "imajor it = 7 \<Longrightarrow> iargument it = (if b then 21 else 20) \<Longrightarrow> denotes it (VBool b)"
| den_encoded: "ibytes it = bs \<Longrightarrow> denotes it (Encoded bs)"

inductive_cases denotesE: "denotes it (Unsigned n)" "denotes it (Negative n)" "denotes it (Bytes b)" "denotes it (Text t)" "denotes it (Array xs)"
  "denotes it (VMap es)" "denotes it (Tag n v)" "denotes it (VBool b)"

primrec plain_val :: "val \<Rightarrow> bool" where
  "plain_val (Unsigned n) = True"
| "plain_val (Negative n) = True"
| "plain_val (Bytes b) = True"
| "plain_val (Text t) = True"
| "plain_val (Array xs) = list_all (\<lambda>p. p) (map plain_val xs)"
| "plain_val (VMap es) = list_all (\<lambda>(p, q). p \<and> q) (map (map_prod plain_val plain_val) es)"
| "plain_val (Tag n v) = plain_val v"
| "plain_val (VBool b) = True"
| "plain_val (Encoded bs) = False"

lemma list_all2_unique:
  "list_all2 (\<lambda>x y. P y \<longrightarrow> (\<forall>y'. P y' \<longrightarrow> R x y' \<longrightarrow> y' = y)) xs ys \<Longrightarrow> list_all P ys \<Longrightarrow> list_all P ys' \<Longrightarrow> list_all2 R xs ys' \<Longrightarrow> ys' = ys"
proof (induction arbitrary: ys' rule: list_all2_induct)
  case (Cons x xs y ys)
  then show ?case by (cases ys') auto
qed simp

lemma denotes_unique: "denotes it v \<Longrightarrow> plain_val v \<Longrightarrow> plain_val v' \<Longrightarrow> denotes it v' \<Longrightarrow> v' = v"
proof (induction arbitrary: v' rule: denotes.induct)
  case (den_array it xs)
  from den_array.prems(3,2) den_array.hyps(1) obtain ys where v': "v' = Array ys" "list_all2 denotes (children it) ys" by cases auto
  have "ys = xs"
    using den_array.IH den_array.prems v'
    by (intro list_all2_unique [where P = plain_val and R = denotes and xs = "children it"]) (auto simp: list_all_iff elim!: list_all2_mono)
  then show ?case using v' by simp
next
  case (den_map it es)
  from den_map.prems(3,2) den_map.hyps(1) obtain fs where v': "v' = VMap fs" "list_all2 (\<lambda>p e. denotes (fst p) (fst e) \<and> denotes (snd p) (snd e)) (pairs (children it)) fs" by cases auto
  let ?P = "\<lambda>e. plain_val (fst e) \<and> plain_val (snd e)" and ?R = "\<lambda>p e. denotes (fst p) (fst e) \<and> denotes (snd p) (snd e)"
  have "list_all2 (\<lambda>p e. ?P e \<longrightarrow> (\<forall>e'. ?P e' \<longrightarrow> ?R p e' \<longrightarrow> e' = e)) (pairs (children it)) es"
    using den_map.IH by (rule list_all2_mono) (auto simp: prod_eq_iff)
  moreover have "list_all ?P es" "list_all ?P fs" using den_map.prems v'(1) by (auto simp: list_all_iff)
  ultimately have "fs = es" using v'(2) by (rule list_all2_unique)
  then show ?case using v' by simp
next
  case (den_tag it n c v)
  from den_tag.prems(3,2) den_tag.hyps(1,2,3) den_tag.IH den_tag.prems(1) show ?case by cases auto
qed (erule denotes.cases; simp split: if_splits)+

lemma read_encode_0:
  assumes "wf_val d v" "read_at (encode v) 0 = Inr c"
  shows "read_at (encode v @ []) d = Inr c"
proof -
  obtain it where "read_at (encode v @ []) d = Inr it" "ibytes it = encode v" using encode_reads [OF assms(1)] by blast
  then show ?thesis using read_at_again [of "encode v @ []" d it 0 "[]"] assms(2) by simp
qed

lemma read_denotes: "wf_val d v \<Longrightarrow> read_at (encode v @ rest) d = Inr it \<Longrightarrow> denotes it v"
proof (induction d v arbitrary: it rest rule: wf_val.induct)
  case (1 d n)
  then show ?case using read_at_plain [OF _ read_head_head, of d 0 n] by (auto intro: denotes.intros)
next
  case (2 d n)
  then show ?case using read_at_plain [OF _ read_head_head, of d 1 n] by (auto intro: denotes.intros)
next
  case (3 d b)
  then show ?case using read_at_string [of d 2 b] by (auto simp: content_def intro: denotes.intros)
next
  case (4 d t)
  then show ?case using read_at_string [of d 3 t] by (auto simp: content_def intro: denotes.intros)
next
  case (5 d xs)
  have it: "imajor it = 4" "map Inr (children it) = map (\<lambda>x. read_at (encode x) 0) xs" using read_array [OF "5.prems"(1), of rest] "5.prems"(2) by auto
  have len: "length (children it) = length xs" using arg_cong [OF it(2), of length] by simp
  have "denotes (children it ! i) (xs ! i)" if i: "i < length xs" for i
  proof -
    have w: "wf_val (d + 1) (xs ! i)" using "5.prems"(1) i by (simp add: list_all_length)
    have "read_at (encode (xs ! i)) 0 = Inr (children it ! i)" using arg_cong [OF it(2), of "\<lambda>l. l ! i"] i len by simp
    from "5.IH" [OF _ w read_encode_0 [OF w this]] show ?thesis using i by simp
  qed
  then show ?case using it(1) len by (auto simp: list_all2_conv_all_nth intro: den_array)
next
  case (6 d es)
  have it: "imajor it = 5" "map Inr (children it) = concat (map (\<lambda>(k, v). [read_at (encode k) 0, read_at (encode v) 0]) es)"
    using read_map [OF "6.prems"(1), of rest] "6.prems"(2) by auto
  have ps: "map (\<lambda>(k, v). (Inr k, Inr v)) (pairs (children it)) = map (\<lambda>(k, v). (read_at (encode k) 0, read_at (encode v) 0)) es"
    by (rule map_Inr_eq_concat [OF it(2)])
  have len: "length (pairs (children it)) = length es" using arg_cong [OF ps, of length] by simp
  have "denotes (fst (pairs (children it) ! i)) (fst (es ! i)) \<and> denotes (snd (pairs (children it) ! i)) (snd (es ! i))" if i: "i < length es" for i
  proof -
    have w: "wf_val (d + 1) (fst (es ! i))" "wf_val (d + 1) (snd (es ! i))" using "6.prems"(1) i by (simp_all add: list_all_length)
    have "read_at (encode (fst (es ! i))) 0 = Inr (fst (pairs (children it) ! i))" "read_at (encode (snd (es ! i))) 0 = Inr (snd (pairs (children it) ! i))"
      using arg_cong [OF ps, of "\<lambda>l. l ! i"] i len by (simp_all split: prod.splits)
    then show ?thesis using "6.IH"(1) [OF _ w(1) read_encode_0 [OF w(1)]] "6.IH"(2) [OF _ w(2) read_encode_0 [OF w(2)]] i by simp
  qed
  then show ?case using it(1) len by (auto simp: list_all2_conv_all_nth intro!: den_map)
next
  case (7 d n v)
  have w: "wf_val (d + 1) v" using "7.prems"(1) by simp
  have it: "imajor it = 6" "iargument it = n" "map Inr (children it) = [read_at (encode v) 0]" using read_tag [OF "7.prems"(1), of rest] "7.prems"(2) by auto
  then obtain c where c: "children it = [c]" "read_at (encode v) 0 = Inr c" by auto
  from "7.IH" [OF w read_encode_0 [OF w c(2)]] show ?case using it c by (auto intro: den_tag)
next
  case (8 d b)
  have "read_head ([if b then 0xf5 else 0xf4] @ rest) = Inr (7, if b then 21 else 20, 1)" by (simp add: read_head_def)
  then show ?case using 8 read_at_plain [of d "[if b then 0xf5 else 0xf4]" rest] by (auto intro: denotes.intros)
next
  case (9 d bs)
  then have "ibytes it = bs" using encode_reads [of d "Encoded bs"] by (metis encode.simps(9) sum.inject(2))
  then show ?case by (rule den_encoded)
qed

section \<open>Properties\<close>

text \<open>
  C22. Round trip of the encoder and the reader: for every value whose arguments fit 64 bits, whose texts are UTF-8, whose
  nesting is within the cap and whose encoding is within the input cap, \<open>Item::read\<close> accepts what \<open>Value::encode\<close> writes,
  the item has exactly those bytes, and it is the data item of the value: major type, argument, content and children all
  the way down. A value without pre-encoded parts is the only one that its item can stand for.
\<close>

theorem cbor_roundtrip:
  assumes "wf_val 0 v" "length (encode v) \<le> MAX_INPUT"
  shows "\<exists>it. read (encode v) = Inr it \<and> ibytes it = encode v \<and> denotes it v \<and>
    (plain_val v \<longrightarrow> (\<forall>v'. plain_val v' \<and> denotes it v' \<longrightarrow> v' = v))"
proof -
  obtain it where it: "read_at (encode v @ []) 0 = Inr it" "ibytes it = encode v"
    using encode_reads [OF assms(1)] by blast
  then have "denotes it v" using read_denotes [OF assms(1)] by blast
  then show ?thesis using assms(2) it denotes_unique by (auto simp: read_def)
qed

theorem cbor_roundtrip_witness:
  "\<exists>it. read (encode (Array [Text (ascii ''ab''), VMap [(Unsigned 500, VBool True)], Tag 24 (Bytes [1, 2])])) = Inr it \<and>
    denotes it (Array [Text (ascii ''ab''), VMap [(Unsigned 500, VBool True)], Tag 24 (Bytes [1, 2])]) \<and>
    \<not> denotes it (Array [Text (ascii ''ab''), VMap [(Negative 500, VBool True)], Tag 24 (Bytes [1, 2])])"
proof -
  let ?v = "Array [Text (ascii ''ab''), VMap [(Unsigned 500, VBool True)], Tag 24 (Bytes [1, 2])]"
    and ?v' = "Array [Text (ascii ''ab''), VMap [(Negative 500, VBool True)], Tag 24 (Bytes [1, 2])]"
  have "wf_val 0 ?v" "length (encode ?v) \<le> MAX_INPUT" by (simp_all add: ascii_def MAX_DEPTH_def MAX_INPUT_def head_def)
  from cbor_roundtrip [OF this] obtain it where "read (encode ?v) = Inr it" "denotes it ?v" "\<forall>v'. plain_val v' \<and> denotes it v' \<longrightarrow> v' = ?v"
    by (auto simp del: encode.simps)
  moreover have "\<not> denotes it ?v'" using calculation(3) [rule_format, of ?v'] by auto
  ultimately show ?thesis by blast
qed

text \<open>
  The reader consumes a prefix and depends on nothing after it: the item's bytes are a nonempty
  prefix of the input, and reading those bytes alone gives the same item.
\<close>

theorem cbor_read_prefix:
  assumes "read bs = Inr it"
  shows "ibytes it \<noteq> [] \<and> take (length (ibytes it)) bs = ibytes it \<and> read (ibytes it) = Inr it"
proof -
  have r: "read_at bs 0 = Inr it" and l: "length bs \<le> MAX_INPUT"
    using assms by (auto simp: read_def split: if_splits)
  have "read_at (ibytes it) 0 = Inr it" using read_at_again [OF r, of 0 "[]"] by simp
  moreover have "length (ibytes it) \<le> MAX_INPUT" using read_at_bounds [OF r] l by (meson order.trans)
  ultimately have "read (ibytes it) = Inr it" by (simp add: read_def)
  moreover have "ibytes it \<noteq> []" using read_at_nonempty [OF r] by auto
  ultimately show ?thesis using read_at_bounds [OF r] by blast
qed

theorem cbor_read_prefix_witness:
  "\<exists>it. read (encode (Array [Unsigned 1, Bytes [7]]) @ [9, 9]) = Inr it \<and>
    ibytes it \<noteq> [] \<and> read (ibytes it) = Inr it"
proof -
  have w: "wf_val 0 (Array [Unsigned 1, Bytes [7]])" by (simp add: MAX_DEPTH_def)
  obtain it where "read_at (encode (Array [Unsigned 1, Bytes [7]]) @ [9, 9]) 0 = Inr it"
    using encode_reads [OF w] by blast
  then have r: "read (encode (Array [Unsigned 1, Bytes [7]]) @ [9, 9]) = Inr it"
    by (simp add: read_def head_def MAX_INPUT_def)
  with cbor_read_prefix [OF r] show ?thesis by blast
qed

text \<open>
  \<open>children\<close> of an array, a map or a tag that the reader accepted returns every declared item
  (its loop never stops early), and their encodings make up the whole content.
\<close>

theorem cbor_children_exact:
  assumes "read bs = Inr it" "4 \<le> imajor it" "imajor it \<le> 6"
    "child_count (imajor it) (iargument it) = Inr n"
  shows "length (children it) = n \<and> concat (map ibytes (children it)) = content it"
  using assms children_complete by (auto simp: read_def split: if_splits)

theorem cbor_children_exact_witness:
  "\<exists>it. read (encode (Array [Unsigned 1, Bytes [7]])) = Inr it \<and> length (children it) = 2 \<and>
    concat (map ibytes (children it)) = content it"
proof -
  have w: "wf_val 0 (Array [Unsigned 1, Bytes [7]])" by (simp add: MAX_DEPTH_def)
  obtain it where it: "read_at (encode (Array [Unsigned 1, Bytes [7]])) 0 = Inr it" "imajor it = 4" "iargument it = 2"
    using read_array [OF w, of "[]"] by auto
  then have r: "read (encode (Array [Unsigned 1, Bytes [7]])) = Inr it"
    by (simp add: read_def head_def MAX_INPUT_def)
  with cbor_children_exact [OF r, of 2] it show ?thesis by (auto simp: child_count_def)
qed

text \<open>
  Insert and look up: \<open>get\<close> on a map that was encoded returns the value of the first entry whose
  key has the same encoding, as the reader reads that value, and reports the key when there is none.
\<close>

theorem cbor_get_encoded:
  assumes "wf_val 0 (VMap es)" "read (encode (VMap es)) = Inr it"
  shows "get it key = (case find (\<lambda>(k, v). encode k = encode key) es of
      None \<Rightarrow> Inl (NoKey (encode key)) | Some (k, v) \<Rightarrow> read_at (encode v) 0)"
  using assms by (intro get_read) (simp_all add: read_def split: if_splits)

theorem cbor_get_encoded_witness:
  "\<exists>it. read (encode (VMap [(Text [97], Unsigned 1), (Text [98], Unsigned 2)])) = Inr it \<and>
    get it (Text [98]) = read_at [2] 0 \<and> get it (Text [99]) = Inl (NoKey [0x61, 99])"
proof -
  let ?es = "[(Text [97], Unsigned 1), (Text [98], Unsigned 2)]"
  have w: "wf_val 0 (VMap ?es)" by (simp add: MAX_DEPTH_def)
  obtain it where it: "read_at (encode (VMap ?es) @ []) 0 = Inr it" using encode_reads [OF w] by blast
  then have r: "read (encode (VMap ?es)) = Inr it" by (simp add: read_def head_def MAX_INPUT_def)
  show ?thesis using r cbor_get_encoded [OF w r, of "Text [98]"] cbor_get_encoded [OF w r, of "Text [99]"]
    by (intro exI [of _ it]) (simp add: head_def)
qed

end
