(* ===== verification/Statement.thy ===== *)
theory Statement
  imports App Chain Calendar Cbor
begin

text \<open>
  The statement as one interface over bytes (\<open>statement.rs\<close>): the approved circuits, the validation of the
  verifier's values, the reader of an \<open>IssuerSigned\<close>, and \<open>prove\<close> and \<open>verify\<close>. The crates they call are the
  record \<open>engine\<close>. The texts of errors are kept as values that name the message and hold its arguments.
  A panic is an outcome of its own, which \<open>guarded\<close> turns into an error.
\<close>

section \<open>Approved circuits and errors\<close>

record ApprovedCircuit =
  ac_name :: string
  ac_shapes_sha256 :: string
  ac_layout :: Layout
  ac_doc_type :: str
  ac_birth_date_element :: str
  ac_ssc_element :: str

definition APPROVED_SHAPES :: "ApprovedCircuit list" where
  "APPROVED_SHAPES =
     [\<lparr>ac_name = ''nymauth-vega-mdoc v1'',
       ac_shapes_sha256 = ''4da5e73afb9be2682e70be793c9956a73304e21f31246aa10da0d3e95c926425'',
       ac_layout = FULL_MDOC, ac_doc_type = ascii ''eu.europa.ec.eudi.nym_auth.1'',
       ac_birth_date_element = ascii ''birth_date'', ac_ssc_element = ascii ''ssc''\<rparr>]"

definition MAX_ISSUER_SIGNED :: nat where "MAX_ISSUER_SIGNED = 64 * 1024"

definition MAX_PROOF :: nat where "MAX_PROOF = 512 * 1024"

datatype RefusalCode = SeedMismatch | IssuerSignature | DeviceSignature | Credential

text \<open>The feature \<open>debug-rules\<close> is off, so a refusal holds its code and not the rule.\<close>

record Refusal =
  code :: RefusalCode

definition refusal_new :: "RefusalCode \<Rightarrow> Refusal" where
  "refusal_new c = \<lparr>code = c\<rparr>"

text \<open>\<open>str::contains\<close>.\<close>

definition contains :: "string \<Rightarrow> string \<Rightarrow> bool" where
  "contains s pat \<longleftrightarrow> find_at 0 s pat \<noteq> None"

definition of_rule :: "string \<Rightarrow> Refusal" where
  "of_rule rule = refusal_new
     (if contains rule ''seed digest'' then SeedMismatch
      else if contains rule ''device signature'' then DeviceSignature
      else if contains rule ''issuer signature'' then IssuerSignature
      else Credential)"

datatype input_error =
    WrongLength string nat nat
  | NotOnCalendar calendar_error
  | KeyNotOnCurve
  | BadRequest pattern_error
  | SignedTooLong nat
  | SignedUnreadable cbor_error
  | NameSpacesNotMap
  | NameSpaceNotArray
  | IdentifierNotUtf8
  | NoItem str
  | ProofTooLong nat
  | ProofUnreadable string
  | ProofTrailing

datatype error =
    InputError input_error
  | Shapes string
  | UnknownCircuit string
  | Refused Refusal
  | Prover string
  | ProofInvalid string
  | Mismatch string
  | Internal string

fun refusal_debug :: "RefusalCode \<Rightarrow> string" where
  "refusal_debug SeedMismatch = ''SeedMismatch''"
| "refusal_debug IssuerSignature = ''IssuerSignature''"
| "refusal_debug DeviceSignature = ''DeviceSignature''"
| "refusal_debug Credential = ''Credential''"

text \<open>\<open>Display\<close>; the wording of an input error is the parameter \<open>t\<close>.\<close>

fun display :: "(input_error \<Rightarrow> string) \<Rightarrow> error \<Rightarrow> string" where
  "display t (InputError e) = ''invalid input: '' @ t e"
| "display t (Shapes s) = ''invalid circuit shapes: '' @ s"
| "display t (UnknownCircuit h) = ''circuit shapes '' @ h @ '' are not approved''"
| "display t (Refused r) = ''inputs refused: '' @ refusal_debug (code r)"
| "display t (Prover s) = ''prover failed: '' @ s"
| "display t (ProofInvalid s) = ''proof invalid: '' @ s"
| "display t (Mismatch s) = ''proof does not match the named values: '' @ s"
| "display t (Internal s) = ''internal error: '' @ s"

section \<open>Panics\<close>

text \<open>The payload of a panic: a \<open>&str\<close>, a \<open>String\<close> or another value.\<close>

datatype payload = StaticText string | OwnedText string | OtherPayload

datatype 'a outcome = Returns 'a | Panics payload

fun guarded :: "(error + 'a) outcome \<Rightarrow> error + 'a" where
  "guarded (Returns result) = result"
| "guarded (Panics (StaticText s)) = Inl (Internal s)"
| "guarded (Panics (OwnedText s)) = Inl (Internal s)"
| "guarded (Panics OtherPayload) = Inl (Internal ''panic'')"

definition obindr :: "(error + 'a) outcome \<Rightarrow> ('a \<Rightarrow> (error + 'b) outcome) \<Rightarrow> (error + 'b) outcome" where
  "obindr m f = (case m of Returns (Inr x) \<Rightarrow> f x | Returns (Inl e) \<Rightarrow> Returns (Inl e) | Panics p \<Rightarrow> Panics p)"

section \<open>The engine\<close>

text \<open>
  What the statement uses of other crates: the hash function and its compression, the inverse of P-256's
  scalars, its coordinates and points, the gadgets and constants of the circuits, the prover, and the
  debug texts of the prover's errors. A panic in the circuits' synthesis has the payload \<open>eng_panic\<close>.
\<close>

record ('f, 'fp, 'pk, 'vk, 'prep, 'proof, 'shape, 'e) engine =
  eng_sha :: "bytes \<Rightarrow> bytes"
  eng_compress :: "u32 list \<Rightarrow> bytes \<Rightarrow> u32 list"
  eng_invert :: "nat \<Rightarrow> nat option"
  eng_fp_from_bytes :: "bytes \<Rightarrow> 'fp option"
  eng_from_xy :: "'fp \<Rightarrow> 'fp \<Rightarrow> bool"
  eng_bellpepper :: "'f bellpepper"
  eng_repr :: "'f \<Rightarrow> nat"
  eng_constants :: "'f Constants"
  eng_vega :: "('f, 'pk, 'vk, 'prep, 'proof, 'shape, 'e) vega"
  eng_debug :: "'e vega_error \<Rightarrow> string"
  eng_prover_debug :: "'e \<Rightarrow> string"
  eng_panic :: payload

section \<open>Keys\<close>

record ('pk, 'vk) Keys =
  keys_prover :: 'pk
  keys_verifier :: 'vk
  keys_circuit :: ApprovedCircuit

definition hex_digit :: "nat \<Rightarrow> char" where
  "hex_digit n = char_of (if n < 10 then 48 + n else 87 + n)"

definition hex :: "bytes \<Rightarrow> string" where
  "hex bs = concat (map (\<lambda>b. [hex_digit (unat b div 16), hex_digit (unat b mod 16)]) bs)"

fun shape_error_text :: "shape_error \<Rightarrow> string" where
  "shape_error_text (WrongColumns name n c) = name @ '' has '' @ show_nat n @ '' columns, not '' @ show_nat c"
| "shape_error_text (WrongIndices name n e) = name @ '' has '' @ show_nat n @ '' indices for '' @ show_nat e @ '' entries''"
| "shape_error_text (WrongRowPointers name n r) = name @ '' has '' @ show_nat n @ '' row pointers for '' @ show_nat r @ '' rows''"
| "shape_error_text (NotSpanning name) = name @ [CHR 0x27] @ ''s row pointers do not span its entries''"
| "shape_error_text (Decreasing name) = name @ [CHR 0x27] @ ''s row pointers decrease''"
| "shape_error_text (PastColumns name c) = name @ '' has a column index past its '' @ show_nat c @ '' columns''"
| "shape_error_text (Exceeds u what p) = show_nat u @ '' unpadded '' @ what @ '' exceed '' @ show_nat p @ '' padded''"
| "shape_error_text SizesOverflow = ''sizes overflow''"

definition from_shapes ::
  "('f::field, 'fp, 'pk, 'vk, 'prep, 'proof, 'shape, 'e) engine \<Rightarrow> bytes \<Rightarrow> error + ('pk, 'vk) Keys" where
  "from_shapes E bs = guarded (Returns
    (let digest = hex (eng_sha E bs) in
     case find (\<lambda>c. ac_shapes_sha256 c = digest) APPROVED_SHAPES of
       None \<Rightarrow> Inl (UnknownCircuit digest)
     | Some circuit \<Rightarrow>
         rbind (map_err (\<lambda>e. Shapes (eng_debug E e)) (setup_from_shapes_in shape_error_text (eng_vega E) (ac_layout circuit) bs)) (\<lambda>(pk, vk).
         Inr \<lparr>keys_prover = pk, keys_verifier = vk, keys_circuit = circuit\<rparr>)))"

definition statement_shapes ::
  "('u, 'f) sha_gadget \<Rightarrow> ('f::field, 'fp, 'pk, 'vk, 'prep, 'proof, 'shape, 'e) engine \<Rightarrow> error + bytes" where
  "statement_shapes G E = guarded (Returns
     (map_err (\<lambda>e. Shapes (eng_debug E e))
       (shapes (eng_vega E) (step_circuit G (eng_bellpepper E) (eng_repr E) (blank_in LAYOUT 0))
          (core_circuit (eng_bellpepper E) (eng_repr E) (eng_constants E) blank) LAYOUT)))"

section \<open>The values of a statement\<close>

record Statement =
  issuer_key_x :: bytes
  issuer_key_y :: bytes
  st_time :: str
  st_earliest :: str
  st_cutoff :: str
  challenge_digest :: bytes
  verifier_input :: bytes

record Holder =
  issuer_signed :: bytes
  secret_seed :: bytes
  device_signature :: bytes

record Proved =
  pv_proof :: bytes
  pv_pseudonym :: bytes

definition proved_debug :: "Proved \<Rightarrow> string" where
  "proved_debug p = ''Proved('' @ show_nat (length (pv_proof p)) @ '' proof bytes)''"

definition fixed :: "nat \<Rightarrow> bytes \<Rightarrow> string \<Rightarrow> error + bytes" where
  "fixed n bs what = (if length bs = n then Inr bs else Inl (InputError (WrongLength what (length bs) n)))"

definition check_issuer_key ::
  "('f, 'fp, 'pk, 'vk, 'prep, 'proof, 'shape, 'e) engine \<Rightarrow> bytes \<Rightarrow> bytes \<Rightarrow> error + unit" where
  "check_issuer_key E x y =
    (let coordinate = (\<lambda>be. eng_fp_from_bytes E (rev be));
         x_is_zero = list_all (\<lambda>b. b = 0) x; y_is_zero = list_all (\<lambda>b. b = 0) y;
         on_curve = (case (coordinate x, coordinate y) of
             (Some fx, Some fy) \<Rightarrow> if \<not> (x_is_zero \<and> y_is_zero) then eng_from_xy E fx fy else False
           | _ \<Rightarrow> False) in
     if on_curve then Inr () else Inl (InputError KeyNotOnCurve))"

definition calendar :: "calendar_error + 'a \<Rightarrow> error + 'a" where
  "calendar r = map_err (\<lambda>e. InputError (NotOnCalendar e)) r"

definition public ::
  "('f, 'fp, 'pk, 'vk, 'prep, 'proof, 'shape, 'e) engine \<Rightarrow> Statement \<Rightarrow> ApprovedCircuit \<Rightarrow> error + Public \<times> bytes" where
  "public E st circuit =
     rbind (fixed 32 (issuer_key_x st) ''issuer key x'') (\<lambda>x.
     rbind (fixed 32 (issuer_key_y st) ''issuer key y'') (\<lambda>y.
     rbind (check_issuer_key E x y) (\<lambda>_.
     rbind (calendar (check_range (st_earliest st) (st_cutoff st))) (\<lambda>_.
     rbind (if st_earliest st = NO_LOWER_BOUND then Inr None
            else rbind (calendar (date (st_earliest st))) (\<lambda>d. Inr (Some d))) (\<lambda>born_from.
     rbind (calendar (date (st_cutoff st))) (\<lambda>born_by.
     rbind (calendar (time (st_time st))) (\<lambda>now.
     rbind (fixed 32 (challenge_digest st) ''challenge digest'') (\<lambda>challenge.
     rbind (map_err (\<lambda>e. InputError (BadRequest e)) (request_mdoc (ac_doc_type circuit) (ac_birth_date_element circuit))) (\<lambda>request.
     rbind (fixed 32 (verifier_input st) ''verifier input'') (\<lambda>vi.
     Inr (\<lparr>pub_issuer_key = \<lparr>key_x = x, key_y = y\<rparr>, pub_born_from = born_from, pub_born_by = born_by,
           pub_now = now, pub_challenge = challenge, pub_request = request\<rparr>, vi)))))))))))"

section \<open>The reader of an \<open>IssuerSigned\<close>\<close>

record Mdoc =
  sig_structure :: bytes
  mdoc_r :: bytes
  mdoc_s :: bytes
  mdoc_items :: "(str \<times> bytes) list"

definition take_cbor :: "cbor_error + 'a \<Rightarrow> error + 'a" where
  "take_cbor r = map_err (\<lambda>e. InputError (SignedUnreadable e)) r"

text \<open>The two nested loops over the name spaces and their items.\<close>

definition mdoc_entry :: "item \<Rightarrow> error + str \<times> bytes" where
  "mdoc_entry it =
     rbind (take_cbor (rbind (embedded it) (\<lambda>e. get e (vtext (ascii ''elementIdentifier''))))) (\<lambda>ident.
     if utf8_valid (content ident) then Inr (content ident, ibytes it) else Inl (InputError IdentifierNotUtf8))"

definition name_space :: "item \<times> item \<Rightarrow> error + (str \<times> bytes) list" where
  "name_space entry =
    (if imajor (snd entry) \<noteq> 4 then Inl (InputError NameSpaceNotArray)
     else map_result mdoc_entry (children (snd entry)))"

definition mdoc :: "bytes \<Rightarrow> error + Mdoc" where
  "mdoc bs =
    (if length bs > MAX_ISSUER_SIGNED then Inl (InputError (SignedTooLong (length bs)))
     else
       rbind (take_cbor (read bs)) (\<lambda>root.
       rbind (take_cbor (get root (vtext (ascii ''issuerAuth'')))) (\<lambda>auth.
       rbind (take_cbor (Cbor.at auth 0)) (\<lambda>protected.
       rbind (take_cbor (Cbor.at auth 2)) (\<lambda>payload.
       rbind (take_cbor (Cbor.at auth 3)) (\<lambda>sig_item.
       let structure = encode (Array [vtext (ascii ''Signature1''), Bytes (content protected), Bytes [], Bytes (content payload)]) in
       rbind (fixed 64 (content sig_item) ''the issuer signature'') (\<lambda>signature.
       rbind (take_cbor (get root (vtext (ascii ''nameSpaces'')))) (\<lambda>name_spaces.
       if imajor name_spaces \<noteq> 5 then Inl (InputError NameSpacesNotMap)
       else
         rbind (map_result name_space (pairs (children name_spaces))) (\<lambda>found.
         rbind (fixed 32 (take 32 signature) ''r'') (\<lambda>r.
         rbind (fixed 32 (drop 32 signature) ''s'') (\<lambda>s.
         Inr \<lparr>sig_structure = structure, mdoc_r = r, mdoc_s = s, mdoc_items = concat found\<rparr>)))))))))))"

definition mdoc_item :: "Mdoc \<Rightarrow> str \<Rightarrow> error + bytes" where
  "mdoc_item m ident =
    (case find (\<lambda>(name, _). name = ident) (mdoc_items m) of
       Some (_, bs) \<Rightarrow> Inr bs
     | None \<Rightarrow> Inl (InputError (NoItem ident)))"

section \<open>Proving and verifying\<close>

definition synthesized ::
  "('f, 'fp, 'pk, 'vk, 'prep, 'proof, 'shape, 'e) engine \<Rightarrow> synth_error + 'a \<Rightarrow> (error + 'a) outcome" where
  "synthesized E r =
    (case r of
       Inr x \<Rightarrow> Returns (Inr x)
     | Inl Panicked \<Rightarrow> Panics (eng_panic E)
     | Inl _ \<Rightarrow> Returns (Inl (Prover ''the witness could not be synthesized'')))"

definition expected_values :: "Public \<Rightarrow> bytes \<Rightarrow> 'f::field list" where
  "expected_values p vi = public_values Digits p @ verifier_values vi"

text \<open>The circuits of a proof: the core with the witness of the credential, and its table.\<close>

definition prove_inputs ::
  "('f, 'fp, 'pk, 'vk, 'prep, 'proof, 'shape, 'e) engine \<Rightarrow> ApprovedCircuit \<Rightarrow> Statement \<Rightarrow> Holder \<Rightarrow> bytes \<Rightarrow>
    error + Public \<times> bytes \<times> bytes \<times> Table \<times> MdocNymCore" where
  "prove_inputs E circuit st holder sd =
     rbind (public E st circuit) (\<lambda>(p, vi).
     rbind (fixed 64 (device_signature holder) ''device signature'') (\<lambda>device.
     rbind (fixed 32 (take 32 device) ''device r'') (\<lambda>dr.
     rbind (fixed 32 (drop 32 device) ''device s'') (\<lambda>ds.
     let device = from_rs (eng_invert E) dr ds in
     rbind (mdoc (issuer_signed holder)) (\<lambda>m.
     let ps = pseudonym (eng_sha E) sd vi in
     rbind (mdoc_item m (ac_ssc_element circuit)) (\<lambda>ssc_item.
     let messages = \<lparr>nm_ssc = ssc_item, nm_secret_seed = sd, nm_verifier_input = vi\<rparr>;
         issuer = from_rs (eng_invert E) (mdoc_r m) (mdoc_s m) in
     rbind (mdoc_item m (ac_birth_date_element circuit)) (\<lambda>birth_item.
     rbind (map_err (\<lambda>_. Refused (refusal_new Credential))
         (full (eng_sha E) (eng_compress E) (sig_structure m) birth_item messages (pub_issuer_key p) issuer)) (\<lambda>wit.
     Inr (p, vi, ps, mw_table wit,
       \<lparr>core_witness = Some wit,
        core_presentation = Some \<lparr>pres_public = p, pres_device_signature = device\<rparr>,
        core_nym = Some \<lparr>np_verifier_input = vi, np_pseudonym = ps\<rparr>\<rparr>)))))))))"

definition prove_circuits ::
  "('f::field, 'fp, 'pk, 'vk, 'prep, 'proof, 'shape, 'e) engine \<Rightarrow> ('pk, 'vk) Keys \<Rightarrow>
    Public \<times> bytes \<times> bytes \<times> Table \<times> MdocNymCore \<Rightarrow> (error + Proved) outcome" where
  "prove_circuits E keys prepared_inputs =
    (case prepared_inputs of (p, vi, ps, table, core) \<Rightarrow>
     let L = eng_bellpepper E; V = eng_vega E;
         c = core_circuit L (eng_repr E) (eng_constants E) core in
     obindr (synthesized E (first_broken c)) (\<lambda>rule.
     case rule of
       Some rl \<Rightarrow> Returns (Inl (Refused (of_rule rl)))
     | None \<Rightarrow>
         obindr (synthesized E (witness L (eng_repr E) (app_steps table) c)) (\<lambda>assignment.
         Returns (
         let steps = replay_steps assignment; core = replay_core assignment in
         rbind (map_err (\<lambda>e. Prover (''prepare: '' @ eng_prover_debug E e)) (prepare V (keys_prover keys) steps core)) (\<lambda>prepared.
         rbind (map_err (\<lambda>e. Prover (''prove: '' @ eng_prover_debug E e)) (app_prove V (keys_prover keys) steps core prepared)) (\<lambda>(proof, _).
         rbind (map_err (\<lambda>_. Prover ''the proof failed its own verification'')
           (accept_pseudonym (eng_repr E) V (ac_layout (keys_circuit keys)) (keys_verifier keys) proof (expected_values p vi))) (\<lambda>_.
         rbind (map_err (\<lambda>e. Prover (''encoding: '' @ e)) (serialize_proof V proof)) (\<lambda>bs.
         Inr \<lparr>pv_proof = bs, pv_pseudonym = ps\<rparr>))))))))"

definition prove ::
  "('f::field, 'fp, 'pk, 'vk, 'prep, 'proof, 'shape, 'e) engine \<Rightarrow> ('pk, 'vk) Keys \<Rightarrow> Statement \<Rightarrow> Holder \<Rightarrow> error + Proved" where
  "prove E keys st holder =
     rbind (fixed SEED_BYTES (secret_seed holder) ''secret_seed'') (\<lambda>sd.
     guarded (obindr (Returns (prove_inputs E (keys_circuit keys) st holder sd)) (prove_circuits E keys)))"

fun rejected :: "('e \<Rightarrow> string) \<Rightarrow> ('f, 'e) Rejection \<Rightarrow> error" where
  "rejected debug (Invalid e) = ProofInvalid (debug e)"
| "rejected debug (Position i _) = Mismatch (''step instance '' @ show_nat i @ '' reports another position'')"
| "rejected debug (PublicValues _) = Mismatch (''the proof'' @ [CHR 0x27] @ ''s public values are not the named ones'')"

definition verify ::
  "('f::field, 'fp, 'pk, 'vk, 'prep, 'proof, 'shape, 'e) engine \<Rightarrow> ('pk, 'vk) Keys \<Rightarrow> Statement \<Rightarrow> bytes \<Rightarrow> error + bytes" where
  "verify E keys st proof = guarded (Returns
     (let V = eng_vega E in
      rbind (public E st (keys_circuit keys)) (\<lambda>(p, vi).
      if length proof > MAX_PROOF then Inl (InputError (ProofTooLong (length proof)))
      else
        rbind (map_err (\<lambda>e. InputError (ProofUnreadable e)) (deserialize_proof V proof)) (\<lambda>decoded.
        rbind (if serialized_size V decoded = Inr (length proof) then Inr () else Inl (InputError ProofTrailing)) (\<lambda>_.
        map_err (rejected (eng_prover_debug E))
          (accept_pseudonym (eng_repr E) V (ac_layout (keys_circuit keys)) (keys_verifier keys) decoded (expected_values p vi)))))))"

definition statement_pseudonym_of ::
  "('f, 'fp, 'pk, 'vk, 'prep, 'proof, 'shape, 'e) engine \<Rightarrow> bytes \<Rightarrow> bytes \<Rightarrow> error + bytes" where
  "statement_pseudonym_of E sd vi =
     rbind (fixed SEED_BYTES sd ''secret_seed'') (\<lambda>s.
     rbind (fixed 32 vi ''verifier input'') (\<lambda>v.
     Inr (pseudonym (eng_sha E) s v)))"

section \<open>The validated values\<close>

lemma within_budget_eq: "within_budget circuit rules vals limit = Inr u \<longleftrightarrow> rules \<le> limit \<and> vals \<le> limit"
  by (auto simp: within_budget_def)

lemma fixed_eq [simp]: "fixed n bs what = Inr x \<longleftrightarrow> x = bs \<and> length bs = n"
  by (auto simp: fixed_def)

lemma calendar_eq [simp]: "calendar r = Inr x \<longleftrightarrow> r = Inr x"
  by (simp add: calendar_def)

lemma take_cbor_eq [simp]: "take_cbor r = Inr x \<longleftrightarrow> r = Inr x"
  by (simp add: take_cbor_def)

lemma pattern_new_eq:
  "pattern_new win bs = Inr p \<longleftrightarrow> window_fixed win \<le> length bs \<and> length bs \<le> pw_len win \<and> p = \<lparr>pat_window = win, pat_bytes = bs\<rparr>"
  by (auto simp: pattern_new_def)

lemma request_mdoc_ok:
  assumes "request_mdoc doc_type ident = Inr r"
  shows "pattern_ok (credential_type r)" "pattern_ok (attribute r)"
    "WINDOWS = (pat_window (credential_type r), pat_window (attribute r))"
  using assms
  by (auto simp: request_mdoc_def pattern_doc_type_def pattern_identifier_def rbind_eq_Inr pattern_new_eq pattern_ok_def WINDOWS_def
      window_ok_def DOC_TYPE_WINDOW_def IDENTIFIER_WINDOW_def window_fixed_def)

lemma valid_digits_less:
  shows "valid_date d \<Longrightarrow> date_digits d < 10 ^ 8" "valid_time t \<Longrightarrow> time_digits t < 10 ^ 14"
proof -
  show *: "date_digits d < 10 ^ 8" if "valid_date d" for d
    using valid_date_bounds [OF that] by (simp add: date_digits_def)
  show "time_digits t < 10 ^ 14" if "valid_time t"
    using that * [of "tdate t"] by (simp add: valid_time_def time_digits_def)
qed

text \<open>Every accepted statement gives public values that the circuits can hold.\<close>

lemma public_valid:
  assumes "public E st circuit = Inr (p, vi)"
  shows "public_ok Digits p" "length vi = 32" "vi = verifier_input st"
    "WINDOWS = (pat_window (credential_type (pub_request p)), pat_window (attribute (pub_request p)))"
proof -
  obtain born_from born_by now request where
    p: "p = \<lparr>pub_issuer_key = \<lparr>key_x = issuer_key_x st, key_y = issuer_key_y st\<rparr>, pub_born_from = born_from, pub_born_by = born_by,
           pub_now = now, pub_challenge = challenge_digest st, pub_request = request\<rparr>"
    and vi: "vi = verifier_input st" "length vi = 32" "length (challenge_digest st) = 32"
    and cal: "date (st_cutoff st) = Inr born_by" "time (st_time st) = Inr now" "born_from = None \<or> (\<exists>d. born_from = Some d \<and> valid_date d)"
    and req: "request_mdoc (ac_doc_type circuit) (ac_birth_date_element circuit) = Inr request"
    using assms by (auto simp: public_def rbind_eq_Inr date_iff split: if_splits)
  have "valid_date born_by" "valid_time now" using cal by (simp_all add: date_iff time_iff)
  then have "date_digits born_by < 10 ^ 8" "time_digits now < 10 ^ 14" "born_from_digits p < 10 ^ 8"
    using valid_digits_less cal(3) by (auto simp: born_from_digits_def p)
  then show "public_ok Digits p"
    using request_mdoc_ok [OF req] vi by (simp add: public_ok_def p)
  show "length vi = 32" "vi = verifier_input st" using vi by simp_all
  show "WINDOWS = (pat_window (credential_type (pub_request p)), pat_window (attribute (pub_request p)))"
    using request_mdoc_ok(3) [OF req] by (simp add: p)
qed

lemma pseudonym_of_reported:
  assumes "scalar_repr (repr :: 'f::field \<Rightarrow> nat)" "pseudonym_of repr (vs @ [h, l]) = Some ps"
    and "of_nat (repr h) = h" "of_nat (repr l) = l"
  shows "length ps = 32" "[h, l] = [from_be (take 16 ps), from_be (drop 16 ps)]"
proof -
  have ps: "ps = drop 16 (to_be repr h) @ drop 16 (to_be repr l)"
    and z: "\<forall>b \<in> set (take 16 (to_be repr h)). b = 0" "\<forall>b \<in> set (take 16 (to_be repr l)). b = 0"
    using assms(2) by (auto simp: pseudonym_of_def Let_def nth_append list_ex_iff split: if_splits)
  have low: "from_be (drop 16 (to_be repr x)) = x" if "\<forall>b \<in> set (take 16 (to_be repr x)). b = 0" "of_nat (repr x) = x" for x :: 'f
  proof -
    have "be_val (to_be repr x) = be_val (take 16 (to_be repr x) @ drop 16 (to_be repr x))" by simp
    also have "take 16 (to_be repr x) = replicate 16 0"
      using that(1) replicate_length_same [of "take 16 (to_be repr x)" 0] by simp
    finally have "be_val (drop 16 (to_be repr x)) = repr x"
      using be_val_to_be [OF assms(1), of x] by simp
    then show ?thesis using that(2) by (simp add: from_be_def)
  qed
  show "length ps = 32" by (simp add: ps)
  show "[h, l] = [from_be (take 16 ps), from_be (drop 16 ps)]"
    using low [OF z(1) assms(3)] low [OF z(2) assms(4)] by (simp add: ps)
qed

section \<open>What an accepted proof shows\<close>

text \<open>
  A circuit's rules as the setup records them, and the shared cells. \<open>extracted\<close> is what the prover's
  argument of knowledge gives for an accepted proof: an assignment of the core and one of each step instance
  that satisfy the recorded rules, agree on the shared cells and have the reported public values.
\<close>

definition shape_start :: "'f cs" where
  "shape_start = \<lparr>aux = [], inputs = [None], path = [], broken = None\<rparr>"

definition satisfies :: "(var \<Rightarrow> 'f::field) \<Rightarrow> 'f circuit \<Rightarrow> bool" where
  "satisfies w c \<longleftrightarrow> (\<exists>cs' rs. circuit_run c Shape shape_start = (Inr (), cs', rs) \<and> satisfied w rs)"

definition shared_cells :: "'f bellpepper \<Rightarrow> 'f::field Cells" where
  "shared_cells L = (case ns ''shared'' (ns ''table'' (allocate L None)) Shape shape_start of (Inr cells, _) \<Rightarrow> cells | _ \<Rightarrow> [])"

definition extracted ::
  "('u, 'f) sha_gadget \<Rightarrow> ('f::field, 'fp, 'pk, 'vk, 'prep, 'proof, 'shape, 'e) engine \<Rightarrow>
    (var \<Rightarrow> 'f) \<Rightarrow> (nat \<Rightarrow> var \<Rightarrow> 'f) \<Rightarrow> 'f list list \<Rightarrow> 'f list \<Rightarrow> bool" where
  "extracted G E w ws steps core \<longleftrightarrow>
     assignment w \<and> satisfies w (core_circuit (eng_bellpepper E) (eng_repr E) (eng_constants E) blank) \<and>
     (\<forall>j < length core. w (Input (1 + j)) = core ! j) \<and> length steps = instances LAYOUT \<and>
     (\<forall>p < length steps. assignment (ws p) \<and>
       satisfies (ws p) (step_circuit G (eng_bellpepper E) (eng_repr E) (blank_in LAYOUT 0)) \<and>
       (\<forall>j < length (steps ! p). ws p (Input (1 + j)) = steps ! p ! j) \<and>
       (\<forall>i < CELLS. ws p (num_var (shared_cells (eng_bellpepper E) ! i)) = w (num_var (shared_cells (eng_bellpepper E) ! i))))"

lemma linked_agree:
  assumes "linked v cells layout j" "j < POSITIONS" "assignment v" "assignment w"
    and "\<And>i. i < CELLS \<Longrightarrow> v (num_var (cells ! i)) = w (num_var (cells ! i))"
  shows "linked w cells layout j"
proof -
  have chunk: "lcv v (cells_chunk cells (CHUNKS_PER_BLOCK * j + c)) = lcv w (cells_chunk cells (CHUNKS_PER_BLOCK * j + c))"
    if "c < CHUNKS_PER_BLOCK" for c
    using that assms(2) by (auto simp: cells_chunk_def table_consts CELLS_def intro!: assms(5))
  have state: "lcv v (cells_state cells k h) = lcv w (cells_state cells k h)" if "k < POSITIONS" "h < 2" for k h
    using that by (auto simp: cells_state_def table_consts CELLS_def intro!: assms(5))
  have before: "lcv v (cells_state_before cells layout j h) = lcv w (cells_state_before cells layout j h)" if "h < 2" for h
    using that assms(2-4) by (auto simp: cells_state_before_def table_consts CELLS_def intro!: assms(5) state)
  show ?thesis using assms(1,2) unfolding linked_def block_is_def halves_are_def by (auto simp: chunk state before)
qed

text \<open>The run of a circuit, up to its shared cells.\<close>

lemma satisfies_shared:
  assumes "satisfies w c" "bellpepper_inputs L" "circuit_shared c = ns ''table'' (allocate L None)"
    and "\<And>cells. cells = shared_cells L \<Longrightarrow> sound_at w 1 (sbind (ns ''precommitted'' (circuit_precommitted c cells))
      (\<lambda>pre. ns ''rest'' (circuit_synthesize c cells pre))) n (\<lambda>_. Q)"
  shows Q
proof -
  obtain cs' rs where run: "circuit_run c Shape shape_start = (Inr (), cs', rs)" "satisfied w rs"
    using assms(1) by (auto simp: satisfies_def)
  let ?rest = "\<lambda>cells. sbind (ns ''precommitted'' (circuit_precommitted c cells)) (\<lambda>pre. ns ''rest'' (circuit_synthesize c cells pre))"
  obtain cells cs1 rs1 rs2 where one: "ns ''shared'' (ns ''table'' (allocate L None)) Shape shape_start = (Inr cells, cs1, rs1)"
    and two: "?rest cells Shape cs1 = (Inr (), cs', rs2)" "rs = rs1 @ rs2"
    using run(1) by (auto simp: circuit_run_def sbind_def assms(3) split: prod.splits sum.splits)
  have cells: "cells = shared_cells L" by (simp add: shared_cells_def one)
  have "keeps (ns ''shared'' (ns ''table'' (allocate L None)))"
    unfolding allocate_def allocate_position_def using assms(2) by (intro keeps_intros) (simp_all add: bellpepper_inputs_def)
  then have "length (inputs cs1) = length (inputs (shape_start :: 'a cs))" using one unfolding keeps_def by blast
  then have "length (inputs cs1) = 1" by (simp add: shape_start_def)
  from sound_atD [OF assms(4) [OF cells] _ this two(1)] run(2) two(2) show Q by simp
qed

lemma extracted_links:
  assumes "extracted G E w ws steps core" "steps = map (\<lambda>i. [of_nat i]) [0..<length steps]"
    and repr: "scalar_repr (eng_repr E :: 'f::field \<Rightarrow> nat)" and G: "gadget_sound G" "gadget_keeps G"
    and L: "bellpepper_sound (eng_bellpepper E)" "bellpepper_inputs (eng_bellpepper E)" and j: "j < POSITIONS"
  shows "linked w (shared_cells (eng_bellpepper E)) FULL_MDOC j"
proof -
  have "inner_follow LAYOUT" using inner_follow_FULL_MDOC by (simp add: LAYOUT_def)
  then have layout: "instances LAYOUT = POSITIONS" "per_instance LAYOUT = 1" "instances LAYOUT < modulus" "inner_follow LAYOUT"
    using modulus_bounds(1) [THEN less_trans [rotated], of POSITIONS]
    by (simp_all add: LAYOUT_def instances_def FULL_MDOC_def POSITIONS_def)
  have p: "j < length steps" "steps ! j = [of_nat j]" using assms(1,2) j layout(1) by (auto simp: extracted_def)
  have e: "assignment w" "assignment (ws j)" "satisfies (ws j) (step_circuit G (eng_bellpepper E) (eng_repr E) (blank_in LAYOUT 0))"
    "ws j (Input 1) = of_nat j"
    "\<And>i. i < CELLS \<Longrightarrow> ws j (num_var (shared_cells (eng_bellpepper E) ! i)) = w (num_var (shared_cells (eng_bellpepper E) ! i))"
    using assms(1) p by (auto simp: extracted_def)
  have "linked (ws j) (shared_cells (eng_bellpepper E)) LAYOUT j"
  proof (rule satisfies_shared [OF e(3) L(2)])
    show "circuit_shared (step_circuit G (eng_bellpepper E) (eng_repr E) (blank_in LAYOUT 0)) = ns ''table'' (allocate (eng_bellpepper E) None)"
      by (simp add: step_circuit_def step_shared_def blank_in_def)
    fix cells assume cells: "cells = shared_cells (eng_bellpepper E)"
    have pre: "sound_at (ws j) 1 (step_precommitted G (eng_bellpepper E) (eng_repr E) (blank_in LAYOUT 0) cells) (Suc 1)
      (\<lambda>_. \<forall>k < per_instance LAYOUT. linked (ws j) cells LAYOUT (per_instance LAYOUT * j + k))"
      by (rule sound_at_step [OF repr G L e(2) layout(4,3) _ e(4)]) (simp_all add: blank_in_def layout j)
    show "sound_at (ws j) 1 (sbind (ns ''precommitted'' (circuit_precommitted (step_circuit G (eng_bellpepper E) (eng_repr E) (blank_in LAYOUT 0)) cells))
        (\<lambda>pre. ns ''rest'' (circuit_synthesize (step_circuit G (eng_bellpepper E) (eng_repr E) (blank_in LAYOUT 0)) cells pre)))
        (Suc 1) (\<lambda>_. linked (ws j) (shared_cells (eng_bellpepper E)) LAYOUT j)"
      unfolding step_circuit_def circuit.simps step_synthesize_def
      by (rule sound_at_sbind [OF sound_at_ns [OF pre]], rule sound_at_ns, rule sound_at_sret) (simp add: layout cells)
  qed
  then show ?thesis using linked_agree [OF _ j e(2,1,5)] by (simp add: LAYOUT_def)
qed

lemma extracted_shows:
  assumes ex: "extracted G E w ws steps (public_values Digits p @ nym_values n)" "steps = map (\<lambda>i. [of_nat i]) [0..<length steps]"
    and repr: "scalar_repr (eng_repr E :: 'f::field \<Rightarrow> nat)" and G: "gadget_sound G" "gadget_keeps G"
    and L: "bellpepper_sound (eng_bellpepper E)" "bellpepper_inputs (eng_bellpepper E)"
    and C: "curve_law C" "constants_of C (eng_constants E) A offsets" "constants_regular C A offsets"
    and p: "public_ok Digits p" "length (np_verifier_input n) = 32" "length (np_pseudonym n) = 32"
    and windows: "WINDOWS = (pat_window (credential_type (pub_request p)), pat_window (attribute (pub_request p)))"
  shows "credential_shown C p n"
proof -
  let ?L = "eng_bellpepper E" and ?vs = "public_values Digits p @ nym_values n :: 'f list"
  let ?c = "core_circuit ?L (eng_repr E) (eng_constants E) blank"
  have e: "assignment w" "satisfies w ?c" "\<And>j. j < length ?vs \<Longrightarrow> w (Input (1 + j)) = ?vs ! j"
    using ex(1) by (simp_all add: extracted_def)
  have links: "\<forall>j < POSITIONS. linked w (shared_cells ?L) FULL_MDOC j"
    using extracted_links [OF ex repr G L] by blast
  have "statement_holds C (eng_repr E) w (shared_cells ?L) p n"
  proof (rule satisfies_shared [OF e(2) L(2)])
    show "circuit_shared ?c = ns ''table'' (allocate ?L None)" by (simp add: core_circuit_def core_shared_def blank_def)
    fix cells assume cells: "cells = shared_cells ?L"
    show "sound_at w 1 (sbind (ns ''precommitted'' (circuit_precommitted ?c cells)) (\<lambda>pre. ns ''rest'' (circuit_synthesize ?c cells pre)))
        (1 + length ?vs) (\<lambda>_. statement_holds C (eng_repr E) w (shared_cells ?L) p n)"
      using sound_at_core(2) [OF repr L e(1) C linked_chunks_small [OF links] p(1,2) windows e(3)]
      by (simp add: core_circuit_def cells)
  qed
  then show ?thesis by (rule credential_shown_of_statement [OF repr e(1) links _ p(3)])
qed

lemma verify_iff:
  "verify E keys st proof = Inr ps \<longleftrightarrow>
    (\<exists>p vi decoded steps h l. public E st (keys_circuit keys) = Inr (p, vi) \<and> length proof \<le> MAX_PROOF \<and>
       deserialize_proof (eng_vega E) proof = Inr decoded \<and> serialized_size (eng_vega E) decoded = Inr (length proof) \<and>
       vega_verify (eng_vega E) decoded (keys_verifier keys) (instances (ac_layout (keys_circuit keys)))
         = Inr (steps, expected_values p vi @ [h, l]) \<and>
       steps = map (\<lambda>i. [of_nat i]) [0..<length steps] \<and>
       pseudonym_of (eng_repr E) (expected_values p vi @ [h, l]) = Some ps)"
proof (cases "public E st (keys_circuit keys)")
  case (Inr x)
  obtain p vi where x: "x = (p, vi)" by (cases x)
  show ?thesis
    unfolding verify_def Let_def Inr x
    by (auto simp: rbind_eq_Inr accept_pseudonym_iff not_less split: if_splits)
qed (simp add: verify_def)

section \<open>Properties\<close>

text \<open>
  C32. The verifier's decision, exactly: \<open>verify\<close> returns a pseudonym if and only if its own values are valid,
  the proof is within its bound, decodes and is exactly as long as its encoding, the prover's verification
  succeeds, step instance \<open>j\<close> reports position \<open>j\<close> and nothing else, and the core reports the verifier's values
  followed by two that hold the pseudonym.
\<close>

theorem verify_exact:
  "verify E keys st proof = Inr ps \<longleftrightarrow>
    (\<exists>p vi decoded steps h l. public E st (keys_circuit keys) = Inr (p, vi) \<and> length proof \<le> MAX_PROOF \<and>
       deserialize_proof (eng_vega E) proof = Inr decoded \<and> serialized_size (eng_vega E) decoded = Inr (length proof) \<and>
       vega_verify (eng_vega E) decoded (keys_verifier keys) (instances (ac_layout (keys_circuit keys)))
         = Inr (steps, expected_values p vi @ [h, l]) \<and>
       steps = map (\<lambda>i. [of_nat i]) [0..<length steps] \<and>
       pseudonym_of (eng_repr E) (expected_values p vi @ [h, l]) = Some ps)"
  by (rule verify_iff)

text \<open>
  C1. The program's purpose, end to end: when \<open>verify\<close> returns a pseudonym, the credential is shown. For every
  assignment that the prover's argument of knowledge can extract from the accepted proof (it satisfies the
  recorded rules of the core and of every step instance, shares the table and has the reported public
  values) there is a credential with a signed message, items and a seed as the statement says: the named
  issuer's key signed it, its type, birth date and validity are as asked, its device key signed the
  challenge, the seed opens its commitment, and the returned pseudonym is the digest of the seed and the
  verifier's input.
\<close>

theorem verify_shows_credential:
  assumes "scalar_repr (eng_repr E :: 'f::field \<Rightarrow> nat)" "gadget_sound G" "gadget_keeps G"
    and "bellpepper_sound (eng_bellpepper E)" "bellpepper_inputs (eng_bellpepper E)"
    and "curve_law C" "constants_of C (eng_constants E) A offsets" "constants_regular C A offsets"
    and reports: "\<And>d vk k steps core v. vega_verify (eng_vega E) d vk k = Inr (steps, core) \<Longrightarrow> 
      v \<in> set (drop (length core - 2) core) \<Longrightarrow> of_nat (eng_repr E v) = v"
    and accepted: "verify E keys st proof = Inr ps"
  shows "\<exists>p decoded steps core. public E st (keys_circuit keys) = Inr (p, verifier_input st) \<and>
    deserialize_proof (eng_vega E) proof = Inr decoded \<and>
    vega_verify (eng_vega E) decoded (keys_verifier keys) (instances (ac_layout (keys_circuit keys))) = Inr (steps, core) \<and>
    (\<forall>w ws. extracted G E w ws steps core \<longrightarrow>
      credential_shown C p \<lparr>np_verifier_input = verifier_input st, np_pseudonym = ps\<rparr>)"
proof -
  obtain p vi decoded steps h l where v: "public E st (keys_circuit keys) = Inr (p, vi)" "deserialize_proof (eng_vega E) proof = Inr decoded"
    "vega_verify (eng_vega E) decoded (keys_verifier keys) (instances (ac_layout (keys_circuit keys))) = Inr (steps, expected_values p vi @ [h, l])"
    "steps = map (\<lambda>i. [of_nat i]) [0..<length steps]" "pseudonym_of (eng_repr E) (expected_values p vi @ [h, l]) = Some ps"
    using accepted unfolding verify_iff by blast
  let ?n = "\<lparr>np_verifier_input = verifier_input st, np_pseudonym = ps\<rparr>"
  note valid = public_valid [OF v(1)]
  have canonical: "of_nat (eng_repr E h) = h" "of_nat (eng_repr E l) = l"
    by (rule reports [OF v(3)], simp)+
  note ps = pseudonym_of_reported [OF assms(1) v(5) canonical]
  have core: "expected_values p vi @ [h, l] = public_values Digits p @ nym_values ?n"
    using ps(2) valid(3) by (simp add: expected_values_def nym_values_def)
  have "credential_shown C p ?n" if "extracted G E w ws steps (expected_values p vi @ [h, l])" for w ws
    by (rule extracted_shows [OF that [unfolded core] v(4) assms(1-8) valid(1) _ _ valid(4)])
       (use valid ps in simp_all)
  then show ?thesis using v valid(3) by blast
qed

text \<open>A prover that accepts anything and reports the expected values, to apply the property to.\<close>

definition demo_circuit :: ApprovedCircuit where "demo_circuit = hd APPROVED_SHAPES"

definition demo_keys :: "(unit, unit) Keys" where
  "demo_keys = \<lparr>keys_prover = (), keys_verifier = (), keys_circuit = demo_circuit\<rparr>"

definition demo_statement :: Statement where
  "demo_statement = \<lparr>issuer_key_x = replicate 32 1, issuer_key_y = replicate 32 2,
     st_time = time_text \<lparr>tdate = \<lparr>year = 2026, month = 6, day = 15\<rparr>, hour = 12, minute = 0, second = 0\<rparr>,
     st_earliest = NO_LOWER_BOUND, st_cutoff = date_text \<lparr>year = 2008, month = 6, day = 15\<rparr>,
     challenge_digest = replicate 32 3, verifier_input = replicate 32 4\<rparr>"

definition demo_vega :: "rat list \<Rightarrow> (rat, unit, unit, unit, unit, unit, unit) vega" where
  "demo_vega vs = \<lparr>r1cs_shape = (\<lambda>_. Inl ()), sizes = (\<lambda>_. []), serialize_shapes = (\<lambda>_ _. Inr []), deserialize_shapes = (\<lambda>_. Inl []),
     vega_setup = (\<lambda>_ _ _. Inr ((), ())), prep_prove = (\<lambda>_ _ _ _. Inr ()), vega_prove = (\<lambda>_ _ _ _ _. Inr ((), ())),
     vega_verify = (\<lambda>_ _ n. Inr (map (\<lambda>i. [of_nat i]) [0..<n], vs)), serialize_proof = (\<lambda>_. Inr [0]),
     deserialize_proof = (\<lambda>_. Inr ()), serialized_size = (\<lambda>_. Inr 1)\<rparr>"

definition demo_engine :: "rat Constants \<Rightarrow> rat list \<Rightarrow> (rat, unit, unit, unit, unit, unit, unit, unit) engine" where
  "demo_engine K vs = \<lparr>eng_sha = native_digest, eng_compress = native_compress256, eng_invert = (\<lambda>_. None),
     eng_fp_from_bytes = (\<lambda>_. Some ()), eng_from_xy = (\<lambda>_ _. True), eng_bellpepper = plain_bellpepper, eng_repr = rat_repr,
     eng_constants = K, eng_vega = demo_vega vs, eng_debug = (\<lambda>_. []), eng_prover_debug = (\<lambda>_. []), eng_panic = OtherPayload\<rparr>"

lemma be_bytes_0: "be_bytes k 0 = replicate k 0"
  by (induction k) (simp_all add: replicate_append_same)

lemma demo_request: "\<exists>r. request_mdoc (ac_doc_type demo_circuit) (ac_birth_date_element demo_circuit) = Inr r"
  by (simp add: demo_circuit_def APPROVED_SHAPES_def request_mdoc_def pattern_doc_type_def pattern_identifier_def text_head_def
      pattern_new_def DOC_TYPE_KEY_def IDENTIFIER_KEY_def DOC_TYPE_WINDOW_def IDENTIFIER_WINDOW_def window_fixed_def)

lemma demo_public: "\<exists>p. \<forall>K vs. public (demo_engine K vs) demo_statement demo_circuit = Inr (p, verifier_input demo_statement)"
proof -
  obtain r where r: "request_mdoc (ac_doc_type demo_circuit) (ac_birth_date_element demo_circuit) = Inr r" using demo_request by blast
  let ?t = "\<lparr>tdate = \<lparr>year = 2026, month = 6, day = 15\<rparr>, hour = 12, minute = 0, second = 0\<rparr>" and ?d = "\<lparr>year = 2008, month = 6, day = 15\<rparr>"
  have t: "time (time_text ?t) = Inr ?t" and d: "date (date_text ?d) = Inr ?d"
    by (simp_all add: time_iff date_iff valid_time_def valid_date_def days_in_month_def)
  have key: "check_issuer_key (demo_engine K vs) (replicate 32 1) (replicate 32 2) = Inr ()" for K vs
    by (simp add: check_issuer_key_def demo_engine_def list_all_iff)
  have range: "check_range NO_LOWER_BOUND (date_text ?d) = Inr ()" unfolding check_range_def Let_def d by simp
  show ?thesis
    unfolding public_def demo_statement_def Statement.simps calendar_def by (simp add: fixed_def key t d range r)
qed

theorem verify_shows_credential_witness:
  "\<exists>K vs ps. verify (demo_engine K vs) demo_keys demo_statement [0] = Inr ps \<and>
    (\<exists>p decoded steps core. public (demo_engine K vs) demo_statement (keys_circuit demo_keys) = Inr (p, verifier_input demo_statement) \<and>
      deserialize_proof (eng_vega (demo_engine K vs)) [0] = Inr decoded \<and>
      vega_verify (eng_vega (demo_engine K vs)) decoded (keys_verifier demo_keys) (instances (ac_layout (keys_circuit demo_keys))) = Inr (steps, core) \<and>
      (\<forall>w ws. extracted table_gadget (demo_engine K vs) w ws steps core \<longrightarrow>
        credential_shown three_curve p \<lparr>np_verifier_input = verifier_input demo_statement, np_pseudonym = ps\<rparr>))"
proof -
  obtain K offsets where K: "constants_of three_curve K Plus offsets" "constants_regular three_curve Plus offsets"
    using three_constants by blast
  obtain p where p: "\<And>K vs. public (demo_engine K vs) demo_statement demo_circuit = Inr (p, verifier_input demo_statement)"
    using demo_public by blast
  let ?e = "expected_values p (verifier_input demo_statement) :: rat list"
  let ?E = "demo_engine K (?e @ [0, 0])"
  have E: "eng_repr ?E = rat_repr" "eng_bellpepper ?E = plain_bellpepper" "eng_constants ?E = K" "eng_vega ?E = demo_vega (?e @ [0, 0])"
    by (simp_all add: demo_engine_def)
  have zero: "rat_repr 0 = 0" using scalar_reprD(2) [OF scalar_repr_rat, of 0] by (simp add: modulus_def)
  have "pseudonym_of rat_repr (?e @ [0, 0]) = Some (replicate 32 0)"
    by (simp add: pseudonym_of_def Let_def nth_append zero to_be_def be_bytes_0 list_ex_iff flip: replicate_add)
  then have v: "verify ?E demo_keys demo_statement [0] = Inr (replicate 32 0)"
    unfolding verify_iff using p by (simp add: E demo_vega_def demo_keys_def MAX_PROOF_def)
  have reports: "of_nat (eng_repr ?E x) = x"
    if "vega_verify (eng_vega ?E) d vk k = Inr (steps, core)" "x \<in> set (drop (length core - 2) core)" for d vk k steps core x
    using that by (auto simp: E demo_vega_def zero)
  show ?thesis
    by (rule exI [of _ K], rule exI [of _ "?e @ [0, 0]"], rule exI [of _ "replicate 32 0"], rule conjI [OF v],
        rule verify_shows_credential [OF _ table_gadget_sound table_gadget_keeps _ _ three_curve_law _ _ reports v])
       (use K in \<open>simp_all add: E scalar_repr_rat plain_bellpepper_sound plain_bellpepper_inputs\<close>)
qed

text \<open>
  C33. Circuits are pinned: \<open>from_shapes\<close> gives keys exactly when the SHA-256 of the bytes is the pinned one
  of an approved circuit, the bytes decode to two shapes that validate and fit the budget, and the
  prover's setup of their replays succeeds. Bytes with another digest are refused with it, unread.
\<close>

theorem from_shapes_pinned:
  "from_shapes E bs =
    (if hex (eng_sha E bs) \<noteq> ''4da5e73afb9be2682e70be793c9956a73304e21f31246aa10da0d3e95c926425''
     then Inl (UnknownCircuit (hex (eng_sha E bs)))
     else case setup_from_shapes_in shape_error_text (eng_vega E) FULL_MDOC bs of
         Inl e \<Rightarrow> Inl (Shapes (eng_debug E e))
       | Inr (pk, vk) \<Rightarrow> Inr \<lparr>keys_prover = pk, keys_verifier = vk, keys_circuit = hd APPROVED_SHAPES\<rparr>)
  \<and> (from_shapes E bs = Inr keys \<longleftrightarrow>
      hex (eng_sha E bs) = ac_shapes_sha256 (keys_circuit keys) \<and> keys_circuit keys \<in> set APPROVED_SHAPES \<and>
      (\<exists>step core. deserialize_shapes (eng_vega E) bs = Inr (step, core) \<and>
        validate_shape step = Inr () \<and> validate_shape core = Inr () \<and>
        num_cons step \<le> budget FULL_MDOC \<and> num_shared step + num_precommitted step + num_rest step \<le> budget FULL_MDOC \<and>
        num_cons core \<le> budget FULL_MDOC \<and> num_shared core + num_precommitted core + num_rest core \<le> budget FULL_MDOC \<and>
        vega_setup (eng_vega E) (shape_replay step) (shape_replay core) (instances FULL_MDOC)
          = Inr (keys_prover keys, keys_verifier keys)))"
proof -
  have shapes_setup: "setup_from_shapes_in shape_error_text (eng_vega E) FULL_MDOC bs = Inr (pk, vk) \<longleftrightarrow>
      (\<exists>step core. deserialize_shapes (eng_vega E) bs = Inr (step, core) \<and>
        validate_shape step = Inr () \<and> validate_shape core = Inr () \<and>
        num_cons step \<le> budget FULL_MDOC \<and> num_shared step + num_precommitted step + num_rest step \<le> budget FULL_MDOC \<and>
        num_cons core \<le> budget FULL_MDOC \<and> num_shared core + num_precommitted core + num_rest core \<le> budget FULL_MDOC \<and>
        vega_setup (eng_vega E) (shape_replay step) (shape_replay core) (instances FULL_MDOC) = Inr (pk, vk))" for pk vk
    by (cases "deserialize_shapes (eng_vega E) bs")
       (auto simp: setup_from_shapes_in_def rbind_eq_Inr Let_def within_budget_eq split: prod.splits)
  let ?d = "hex (eng_sha E bs)"
  show ?thesis
  proof (cases "?d = ac_shapes_sha256 (hd APPROVED_SHAPES)")
    case True
    then have f: "from_shapes E bs = rbind (map_err (\<lambda>e. Shapes (eng_debug E e))
        (setup_from_shapes_in shape_error_text (eng_vega E) FULL_MDOC bs))
        (\<lambda>(pk, vk). Inr \<lparr>keys_prover = pk, keys_verifier = vk, keys_circuit = hd APPROVED_SHAPES\<rparr>)"
      by (simp add: from_shapes_def APPROVED_SHAPES_def)
    have k: "keys = \<lparr>keys_prover = pk, keys_verifier = vk, keys_circuit = c\<rparr> \<longleftrightarrow>
        pk = keys_prover keys \<and> vk = keys_verifier keys \<and> c = keys_circuit keys" for pk vk c
      by (cases keys) auto
    have inr: "from_shapes E bs = Inr keys \<longleftrightarrow> keys_circuit keys = hd APPROVED_SHAPES \<and>
        setup_from_shapes_in shape_error_text (eng_vega E) FULL_MDOC bs = Inr (keys_prover keys, keys_verifier keys)"
      unfolding f by (auto simp: rbind_eq_Inr k split: prod.splits)
    show ?thesis unfolding inr shapes_setup [symmetric] using True
      by (auto simp: f APPROVED_SHAPES_def rbind_def map_err_def split: sum.splits prod.splits)
  next
    case False
    then show ?thesis by (auto simp: from_shapes_def APPROVED_SHAPES_def)
  qed
qed

section \<open>The holder's side\<close>

lemma obindr_simps [simp]:
  "obindr (Returns (Inr x)) f = f x" "obindr (Returns (Inl e)) f = Returns (Inl e)" "obindr (Panics p) f = Panics p"
  by (simp_all add: obindr_def)

lemma guarded_panics: "\<exists>s. guarded (Panics p) = Inl (Internal s)"
  by (cases p) auto

fun holder_error :: "error \<Rightarrow> bool" where
  "holder_error (InputError _) \<longleftrightarrow> True"
| "holder_error (Refused _) \<longleftrightarrow> True"
| "holder_error (Prover _) \<longleftrightarrow> True"
| "holder_error (Internal _) \<longleftrightarrow> True"
| "holder_error _ \<longleftrightarrow> False"

fun after_inputs :: "error \<Rightarrow> bool" where
  "after_inputs (Refused _) \<longleftrightarrow> True"
| "after_inputs (Prover _) \<longleftrightarrow> True"
| "after_inputs (Internal _) \<longleftrightarrow> True"
| "after_inputs _ \<longleftrightarrow> False"

text \<open>A successful run of \<open>prove\<close>, and the errors of its two halves.\<close>

lemma synthesized_cases:
  "(\<exists>x. r = Inr x \<and> synthesized E r = Returns (Inr x)) \<or> (\<exists>p. synthesized E r = Panics p) \<or>
    synthesized E r = Returns (Inl (Prover ''the witness could not be synthesized''))"
  by (cases r) (auto simp: synthesized_def split: synth_error.splits)

lemma prove_circuits_cases:
  "(\<exists>e. guarded (prove_circuits E keys (p, vi, ps, table, core)) = Inl e \<and> after_inputs e) \<or>
   (\<exists>a pre d pre' ps' bs. witness (eng_bellpepper E) (eng_repr E) (app_steps table)
        (core_circuit (eng_bellpepper E) (eng_repr E) (eng_constants E) core) = Inr a \<and>
      app_prove (eng_vega E) (keys_prover keys) (replay_steps a) (replay_core a) pre = Inr (d, pre') \<and>
      accept_pseudonym (eng_repr E) (eng_vega E) (ac_layout (keys_circuit keys)) (keys_verifier keys) d (expected_values p vi) = Inr ps' \<and>
      serialize_proof (eng_vega E) d = Inr bs \<and>
      guarded (prove_circuits E keys (p, vi, ps, table, core)) = Inr \<lparr>pv_proof = bs, pv_pseudonym = ps\<rparr>)"
proof -
  let ?c = "core_circuit (eng_bellpepper E) (eng_repr E) (eng_constants E) core"
  let ?w = "witness (eng_bellpepper E) (eng_repr E) (app_steps table) ?c"
  note one = synthesized_cases [of "first_broken ?c" E] and two = synthesized_cases [of ?w E]
  have panic: "\<exists>e. guarded (Panics p) = Inl e \<and> after_inputs e" for p
    using guarded_panics by (metis after_inputs.simps(3))
  show ?thesis
  proof (cases "synthesized E (first_broken ?c) = Returns (Inr None)")
    case True
    note first = this
    show ?thesis
    proof (cases "\<exists>a. ?w = Inr a")
      case True
      then obtain a where a: "?w = Inr a" by blast
      then have "synthesized E ?w = Returns (Inr a)" by (simp add: synthesized_def)
      then show ?thesis
        by (auto simp: prove_circuits_def Let_def first a rbind_def map_err_def split: sum.splits)
    next
      case False
      then show ?thesis using two panic by (auto simp: prove_circuits_def Let_def first)
    qed
  next
    case False
    then show ?thesis using one panic by (auto simp: prove_circuits_def Let_def split: option.splits)
  qed
qed

lemma witness_public:
  assumes "witness L repr steps c = Inr a"
  shows "circuit_public_values (replay_core a) = circuit_public_values c"
  using assms
  by (auto simp: witness_def replay_core_def replay_def circuit_instance_def rbind_eq_Inr split: list.splits prod.splits sum.splits)

text \<open>Results whose only errors are input errors.\<close>

named_theorems input_intros

definition input_only :: "error + 'a \<Rightarrow> bool" where
  "input_only r \<longleftrightarrow> (\<forall>e. r = Inl e \<longrightarrow> (\<exists>i. e = InputError i))"

lemma input_only_basic [input_intros]:
  "input_only (Inr x)" "input_only (Inl (InputError i))" "input_only (fixed n bs what)" "input_only (calendar c)" "input_only (take_cbor t)"
  "input_only (check_issuer_key E kx ky)" "input_only (map_err (\<lambda>e. InputError (f e)) r)" "input_only (mdoc_item m ident)"
  by (auto simp: input_only_def fixed_def calendar_def take_cbor_def check_issuer_key_def mdoc_item_def map_err_def Let_def
      split: sum.splits option.splits)

lemma input_only_rbind [input_intros]:
  "input_only m \<Longrightarrow> (\<And>x. input_only (f x)) \<Longrightarrow> input_only (rbind m f)"
  by (auto simp: input_only_def rbind_eq_Inl)

lemma input_only_map_result [input_intros]: "(\<And>x. input_only (f x)) \<Longrightarrow> input_only (map_result f xs)"
  by (induction xs) (auto intro!: input_intros)

lemma input_only_if [input_intros]: "input_only a \<Longrightarrow> input_only b \<Longrightarrow> input_only (if c then a else b)"
  by simp

lemma input_only_public [input_intros]: "input_only (public E st circuit)"
  unfolding public_def by (intro input_intros)

lemma input_only_mdoc [input_intros]: "input_only (mdoc bs)"
  unfolding mdoc_def Let_def name_space_def mdoc_entry_def by (intro input_intros)

text \<open>The inputs of a proof as far as they do not depend on the seed.\<close>

definition prove_read ::
  "('f, 'fp, 'pk, 'vk, 'prep, 'proof, 'shape, 'e) engine \<Rightarrow> ApprovedCircuit \<Rightarrow> Statement \<Rightarrow> Holder \<Rightarrow>
    error + Public \<times> bytes \<times> bytes \<times> bytes \<times> Mdoc \<times> bytes \<times> bytes" where
  "prove_read E circuit st holder =
     rbind (public E st circuit) (\<lambda>(p, vi).
     rbind (fixed 64 (device_signature holder) ''device signature'') (\<lambda>device.
     rbind (fixed 32 (take 32 device) ''device r'') (\<lambda>dr.
     rbind (fixed 32 (drop 32 device) ''device s'') (\<lambda>ds.
     rbind (mdoc (issuer_signed holder)) (\<lambda>m.
     rbind (mdoc_item m (ac_ssc_element circuit)) (\<lambda>ssc_item.
     rbind (mdoc_item m (ac_birth_date_element circuit)) (\<lambda>birth_item.
     Inr (p, vi, dr, ds, m, ssc_item, birth_item))))))))"

definition prove_built ::
  "('f, 'fp, 'pk, 'vk, 'prep, 'proof, 'shape, 'e) engine \<Rightarrow> bytes \<Rightarrow>
    Public \<times> bytes \<times> bytes \<times> bytes \<times> Mdoc \<times> bytes \<times> bytes \<Rightarrow> error + Public \<times> bytes \<times> bytes \<times> Table \<times> MdocNymCore" where
  "prove_built E sd r = (case r of (p, vi, dr, ds, m, ssc_item, birth_item) \<Rightarrow>
     rbind (map_err (\<lambda>_. Refused (refusal_new Credential))
         (full (eng_sha E) (eng_compress E) (sig_structure m) birth_item \<lparr>nm_ssc = ssc_item, nm_secret_seed = sd, nm_verifier_input = vi\<rparr>
           (pub_issuer_key p) (from_rs (eng_invert E) (mdoc_r m) (mdoc_s m)))) (\<lambda>wit.
     Inr (p, vi, pseudonym (eng_sha E) sd vi, mw_table wit,
       \<lparr>core_witness = Some wit,
        core_presentation = Some \<lparr>pres_public = p, pres_device_signature = from_rs (eng_invert E) dr ds\<rparr>,
        core_nym = Some \<lparr>np_verifier_input = vi, np_pseudonym = pseudonym (eng_sha E) sd vi\<rparr>\<rparr>)))"

lemma rbind_assoc: "rbind (rbind m f) g = rbind m (\<lambda>x. rbind (f x) g)"
  by (cases m) simp_all

lemma rbind_case_prod: "rbind (case x of (a, b) \<Rightarrow> f a b) g = (case x of (a, b) \<Rightarrow> rbind (f a b) g)"
  by (cases x) simp

lemma prove_inputs_split: "prove_inputs E circuit st holder sd = rbind (prove_read E circuit st holder) (prove_built E sd)"
  by (simp add: prove_inputs_def prove_read_def prove_built_def rbind_assoc rbind_case_prod Let_def)

lemma input_only_prove_read [input_intros]: "input_only (prove_read E circuit st holder)"
  unfolding prove_read_def by (intro input_intros) (auto intro!: input_intros split: prod.split)

lemma prove_error_kind:
  assumes "prove E keys st holder = Inl e"
  shows "holder_error e"
proof -
  have after: "holder_error e" if "after_inputs e" for e using that by (cases e) simp_all
  have fixed_err: "holder_error e" if "fixed n bs what = Inl e" for n bs what e using that by (auto simp: fixed_def split: if_splits)
  have read: "holder_error e" if "prove_read E (keys_circuit keys) st holder = Inl e" for e
    using that input_only_prove_read by (fastforce simp: input_only_def)
  show ?thesis
  proof (cases "fixed SEED_BYTES (secret_seed holder) ''secret_seed''")
    case (Inr sd)
    then have run: "guarded (obindr (Returns (prove_inputs E (keys_circuit keys) st holder sd)) (prove_circuits E keys)) = Inl e"
      using assms unfolding prove_def Inr by simp
    show ?thesis
    proof (cases "prove_inputs E (keys_circuit keys) st holder sd")
      case (Inl d)
      then have "prove_read E (keys_circuit keys) st holder = Inl d \<or> d = Refused (refusal_new Credential)"
        by (auto simp: prove_inputs_split rbind_eq_Inl prove_built_def map_err_eq_Inl split: prod.splits)
      then show ?thesis using read run Inl by auto
    next
      case (Inr x)
      obtain p vi ps table core where "x = (p, vi, ps, table, core)" by (cases x)
      then show ?thesis using run Inr prove_circuits_cases [of E keys p vi ps table core] after by auto
    qed
  qed (use assms fixed_err in \<open>auto simp: prove_def\<close>)
qed

lemma prove_verifies:
  assumes "scalar_repr (eng_repr E :: 'f::field \<Rightarrow> nat)" "\<And>m. length (eng_sha E m) = 32"
    and codec: "\<And>d bs. serialize_proof (eng_vega E) d = Inr bs \<Longrightarrow>
      deserialize_proof (eng_vega E) bs = Inr d \<and> serialized_size (eng_vega E) d = Inr (length bs) \<and> length bs \<le> MAX_PROOF"
    and reports: "\<And>pk steps core pre small d pre' vk k ss vs. vega_prove (eng_vega E) pk steps core pre small = Inr (d, pre') \<Longrightarrow>
      vega_verify (eng_vega E) d vk k = Inr (ss, vs) \<Longrightarrow> circuit_public_values core = Inr vs"
    and prv: "prove E keys st holder = Inr pv"
  shows "verify E keys st (pv_proof pv) = Inr (pv_pseudonym pv) \<and>
    statement_pseudonym_of E (secret_seed holder) (verifier_input st) = Inr (pv_pseudonym pv)"
proof -
  from prv obtain x where seed: "length (secret_seed holder) = SEED_BYTES"
    and x: "prove_inputs E (keys_circuit keys) st holder (secret_seed holder) = Inr x" "guarded (prove_circuits E keys x) = Inr pv"
    by (cases "prove_inputs E (keys_circuit keys) st holder (secret_seed holder)") (auto simp: prove_def rbind_eq_Inr)
  obtain r where "prove_read E (keys_circuit keys) st holder = Inr r" "prove_built E (secret_seed holder) r = Inr x"
    using x(1) by (auto simp: prove_inputs_split rbind_eq_Inr)
  then obtain p vi wit device where pub: "public E st (keys_circuit keys) = Inr (p, vi)" and
    built: "x = (p, vi, pseudonym (eng_sha E) (secret_seed holder) vi, mw_table wit,
       \<lparr>core_witness = Some wit, core_presentation = Some \<lparr>pres_public = p, pres_device_signature = device\<rparr>,
        core_nym = Some \<lparr>np_verifier_input = vi, np_pseudonym = pseudonym (eng_sha E) (secret_seed holder) vi\<rparr>\<rparr>)"
    by (auto simp: prove_read_def prove_built_def rbind_eq_Inr split: prod.splits)
  let ?ps = "pseudonym (eng_sha E) (secret_seed holder) vi" and ?n = "\<lparr>np_verifier_input = vi, np_pseudonym = pseudonym (eng_sha E) (secret_seed holder) vi\<rparr>"
  let ?c = "\<lparr>core_witness = Some wit, core_presentation = Some \<lparr>pres_public = p, pres_device_signature = device\<rparr>, core_nym = Some ?n\<rparr>"
  from prove_circuits_cases [of E keys p vi ?ps "mw_table wit" ?c] x(2) [unfolded built]
  obtain a pre d pre' ps' bs where a: "witness (eng_bellpepper E) (eng_repr E) (app_steps (mw_table wit))
        (core_circuit (eng_bellpepper E) (eng_repr E) (eng_constants E) ?c) = Inr a"
    and d: "app_prove (eng_vega E) (keys_prover keys) (replay_steps a) (replay_core a) pre = Inr (d, pre')"
      "accept_pseudonym (eng_repr E) (eng_vega E) (ac_layout (keys_circuit keys)) (keys_verifier keys) d (expected_values p vi) = Inr ps'"
      "serialize_proof (eng_vega E) d = Inr bs" and pv: "pv = \<lparr>pv_proof = bs, pv_pseudonym = ?ps\<rparr>"
    by auto
  obtain ss h l where v: "vega_verify (eng_vega E) d (keys_verifier keys) (instances (ac_layout (keys_circuit keys))) = Inr (ss, expected_values p vi @ [h, l])"
    "ss = map (\<lambda>i. [of_nat i]) [0..<length ss]"
    using d(2) unfolding accept_pseudonym_iff by blast
  have "circuit_public_values (replay_core a) = Inr (public_values Digits p @ nym_values ?n)"
    using witness_public [OF a] by (simp add: core_circuit_def core_public_values_def)
  then have vals: "expected_values p vi @ [h, l] = public_values Digits p @ nym_values ?n"
    using reports [OF d(1) [unfolded app_prove_def] v(1)] by simp
  have "pseudonym_of (eng_repr E) (public_values Digits p @ nym_values ?n) = Some ?ps"
    using pseudonym_of_values [OF assms(1), of ?n] assms(2) by (simp add: pseudonym_def)
  then have "pseudonym_of (eng_repr E) (expected_values p vi @ [h, l]) = Some ?ps" by (simp add: vals)
  then have "verify E keys st bs = Inr ?ps"
    unfolding verify_iff using pub codec [OF d(3)] v by blast
  moreover have "statement_pseudonym_of E (secret_seed holder) (verifier_input st) = Inr ?ps"
    using seed public_valid(2,3) [OF pub] by (simp add: statement_pseudonym_of_def fixed_def)
  ultimately show ?thesis by (simp add: pv)
qed

text \<open>
  C2. What the holder gets: \<open>prove\<close> returns a proof that the verifier with the same keys and statement accepts,
  with the pseudonym that the rulebook derives from the holder's seed and the verifier's input; or it
  returns an error, which is about an input, a refused credential, the prover or a caught panic, never one
  of the verifier's. The prover's crate is assumed to report the public values of the circuit it proved,
  and its serialization to read back what it wrote, within the verifier's bound.
\<close>

theorem prove_outcome:
  assumes "scalar_repr (eng_repr E :: 'f::field \<Rightarrow> nat)" "\<And>m. length (eng_sha E m) = 32"
    and codec: "\<And>d bs. serialize_proof (eng_vega E) d = Inr bs \<Longrightarrow>
      deserialize_proof (eng_vega E) bs = Inr d \<and> serialized_size (eng_vega E) d = Inr (length bs) \<and> length bs \<le> MAX_PROOF"
    and reports: "\<And>pk steps core pre small d pre' vk k ss vs. vega_prove (eng_vega E) pk steps core pre small = Inr (d, pre') \<Longrightarrow>
      vega_verify (eng_vega E) d vk k = Inr (ss, vs) \<Longrightarrow> circuit_public_values core = Inr vs"
  shows "case prove E keys st holder of
      Inr pv \<Rightarrow> verify E keys st (pv_proof pv) = Inr (pv_pseudonym pv) \<and>
        statement_pseudonym_of E (secret_seed holder) (verifier_input st) = Inr (pv_pseudonym pv)
    | Inl e \<Rightarrow> holder_error e"
  using prove_error_kind prove_verifies [OF assms] by (auto split: sum.split)

lemma native_digest_length: "length (native_digest m) = 32"
  using length_chain [OF length_pad [of m], of iv_bytes] by (simp flip: chain_pad)

text \<open>A prover whose proofs are the public values, and that serializes the expected ones only.\<close>

definition honest_vega :: "rat list \<Rightarrow> (rat, unit, unit, unit, rat list, unit, unit) vega" where
  "honest_vega vs = \<lparr>r1cs_shape = (\<lambda>_. Inl ()), sizes = (\<lambda>_. []), serialize_shapes = (\<lambda>_ _. Inr []), deserialize_shapes = (\<lambda>_. Inl []),
     vega_setup = (\<lambda>_ _ _. Inr ((), ())), prep_prove = (\<lambda>_ _ _ _. Inr ()),
     vega_prove = (\<lambda>_ _ core _ _. case circuit_public_values core of Inr d \<Rightarrow> Inr (d, ()) | Inl _ \<Rightarrow> Inl ()),
     vega_verify = (\<lambda>d _ n. Inr (map (\<lambda>i. [of_nat i]) [0..<n], d)), serialize_proof = (\<lambda>d. if d = vs then Inr [0] else Inl []),
     deserialize_proof = (\<lambda>_. Inr vs), serialized_size = (\<lambda>_. Inr 1)\<rparr>"

definition honest_engine :: "rat Constants \<Rightarrow> rat list \<Rightarrow> (rat, unit, unit, unit, unit, rat list, unit, unit) engine" where
  "honest_engine K vs = \<lparr>eng_sha = native_digest, eng_compress = native_compress256, eng_invert = (\<lambda>_. None),
     eng_fp_from_bytes = (\<lambda>_. Some ()), eng_from_xy = (\<lambda>_ _. True), eng_bellpepper = plain_bellpepper, eng_repr = rat_repr,
     eng_constants = K, eng_vega = honest_vega vs, eng_debug = (\<lambda>_. []), eng_prover_debug = (\<lambda>_. []), eng_panic = OtherPayload\<rparr>"

definition demo_holder :: Holder where
  "demo_holder = \<lparr>issuer_signed = [0xa0], secret_seed = replicate 16 5, device_signature = replicate 64 6\<rparr>"

theorem prove_outcome_witness:
  "\<forall>K vs. case prove (honest_engine K vs) demo_keys demo_statement demo_holder of
      Inr pv \<Rightarrow> verify (honest_engine K vs) demo_keys demo_statement (pv_proof pv) = Inr (pv_pseudonym pv) \<and>
        statement_pseudonym_of (honest_engine K vs) (secret_seed demo_holder) (verifier_input demo_statement) = Inr (pv_pseudonym pv)
    | Inl e \<Rightarrow> holder_error e"
proof (intro allI)
  fix K vs
  show "case prove (honest_engine K vs) demo_keys demo_statement demo_holder of
      Inr pv \<Rightarrow> verify (honest_engine K vs) demo_keys demo_statement (pv_proof pv) = Inr (pv_pseudonym pv) \<and>
        statement_pseudonym_of (honest_engine K vs) (secret_seed demo_holder) (verifier_input demo_statement) = Inr (pv_pseudonym pv)
    | Inl e \<Rightarrow> holder_error e"
    by (rule prove_outcome)
       (auto simp: honest_engine_def honest_vega_def scalar_repr_rat native_digest_length MAX_PROOF_def split: if_splits sum.splits)
qed

text \<open>
  C34. No input error holds the seed: whether \<open>prove\<close> refuses an input, and with which error, is the same for
  every seed of the right length. (A seed of another length is reported by its length alone.)
\<close>

theorem input_errors_hide_seed:
  assumes "length s1 = SEED_BYTES" "length s2 = SEED_BYTES"
  shows "prove E keys st (holder\<lparr>secret_seed := s1\<rparr>) = Inl (InputError e) \<longleftrightarrow>
    prove E keys st (holder\<lparr>secret_seed := s2\<rparr>) = Inl (InputError e)"
proof -
  have "prove E keys st (holder\<lparr>secret_seed := s\<rparr>) = Inl (InputError e) \<longleftrightarrow>
      prove_read E (keys_circuit keys) st holder = Inl (InputError e)" if "length s = SEED_BYTES" for s
  proof -
    have same: "prove_read E (keys_circuit keys) st (holder\<lparr>secret_seed := s\<rparr>) = prove_read E (keys_circuit keys) st holder"
      by (simp add: prove_read_def)
    have run: "prove E keys st (holder\<lparr>secret_seed := s\<rparr>) =
        guarded (obindr (Returns (rbind (prove_read E (keys_circuit keys) st holder) (prove_built E s))) (prove_circuits E keys))"
      using that same by (simp add: prove_def fixed_def prove_inputs_split)
    have built: "prove_built E s r \<noteq> Inl (InputError e)" for r
      by (auto simp: prove_built_def rbind_eq_Inl map_err_eq_Inl split: prod.splits)
    have circuits: "guarded (prove_circuits E keys x) \<noteq> Inl (InputError e)" for x
    proof -
      obtain p vi ps table core where x: "x = (p, vi, ps, table, core)" by (cases x)
      show ?thesis using prove_circuits_cases [of E keys p vi ps table core] by (auto simp: x)
    qed
    show ?thesis
    proof (cases "prove_read E (keys_circuit keys) st holder")
      case (Inr r)
      then show ?thesis using built [of r] circuits by (cases "prove_built E s r") (auto simp: run)
    qed (simp add: run)
  qed
  then show ?thesis using assms by simp
qed

theorem input_errors_hide_seed_witness:
  "\<forall>K vs e. prove (honest_engine K vs) demo_keys demo_statement (demo_holder\<lparr>secret_seed := replicate 16 5\<rparr>) = Inl (InputError e) \<longleftrightarrow>
    prove (honest_engine K vs) demo_keys demo_statement (demo_holder\<lparr>secret_seed := replicate 16 7\<rparr>) = Inl (InputError e)"
  by (intro allI input_errors_hide_seed) (simp_all add: SEED_BYTES_def)

end
