(* ===== verification/Issued.thy ===== *)
theory Issued
  imports Statement
begin

text \<open>
  The reader of an \<open>IssuerSigned\<close> against what an issuer encodes: \<open>issued\<close> is the CBOR value of a credential
  with its name spaces, and \<open>mdoc\<close> of its encoding gives back the parts that the prover uses.
\<close>

section \<open>Items of encoded values\<close>

lemma wf_val_mono: "wf_val d v \<Longrightarrow> d' \<le> d \<Longrightarrow> wf_val d' v"
proof (induction d v arbitrary: d' rule: wf_val.induct)
  case (5 d xs)
  then show ?case by (fastforce simp: list_all_iff)
next
  case (6 d es)
  then show ?case by (fastforce simp: list_all_iff)
next
  case (9 d bs)
  then show ?case using read_at_again [of bs d _ d' "[]"] by (auto split: sum.splits)
qed auto

definition item_of :: "val \<Rightarrow> item" where
  "item_of v = (case read_at (encode v) 0 of Inr it \<Rightarrow> it | Inl _ \<Rightarrow> \<lparr>ibytes = [], imajor = 0, iargument = 0, content_at = 0\<rparr>)"

lemma read_item_of:
  assumes "wf_val d v"
  shows "read_at (encode v) 0 = Inr (item_of v)" "ibytes (item_of v) = encode v"
proof -
  obtain it where "read_at (encode v @ []) 0 = Inr it" "ibytes it = encode v"
    using encode_reads [OF wf_val_mono [OF assms, of 0]] by blast
  then show "read_at (encode v) 0 = Inr (item_of v)" "ibytes (item_of v) = encode v" by (simp_all add: item_of_def)
qed

lemma map_Inr_read: "map Inr cs = map (\<lambda>x. read_at (encode x) 0) xs \<Longrightarrow> cs = map item_of xs"
  by (induction xs arbitrary: cs) (auto simp: item_of_def split: sum.splits)

lemma item_of_array:
  assumes "wf_val d (Array xs)"
  shows "imajor (item_of (Array xs)) = 4" "children (item_of (Array xs)) = map item_of xs"
  using read_array [OF wf_val_mono [OF assms, of 0], of "[]"] read_item_of [OF assms] map_Inr_read by auto

lemma map_pairs_read:
  "map (\<lambda>(k, v). (Inr k, Inr v)) ps = map (\<lambda>(k, v). (read_at (encode k) 0, read_at (encode v) 0)) es \<Longrightarrow>
    ps = map (\<lambda>(k, v). (item_of k, item_of v)) es"
  by (induction es arbitrary: ps) (auto simp: item_of_def split: sum.splits)

lemma item_of_map:
  assumes "wf_val d (VMap es)"
  shows "imajor (item_of (VMap es)) = 5" "pairs (children (item_of (VMap es))) = map (\<lambda>(k, v). (item_of k, item_of v)) es"
proof -
  have it: "imajor (item_of (VMap es)) = 5"
    "map Inr (children (item_of (VMap es))) = concat (map (\<lambda>(k, v). [read_at (encode k) 0, read_at (encode v) 0]) es)"
    using read_map [OF wf_val_mono [OF assms, of 0], of "[]"] read_item_of [OF assms] by auto
  show "imajor (item_of (VMap es)) = 5" by (rule it)
  show "pairs (children (item_of (VMap es))) = map (\<lambda>(k, v). (item_of k, item_of v)) es"
    by (rule map_pairs_read [OF map_Inr_eq_concat [OF it(2)]])
qed

lemma find_mem: "find P xs = Some x \<Longrightarrow> x \<in> set xs"
  by (auto simp: find_Some_iff)

lemma wf_entry: "wf_val d (VMap es) \<Longrightarrow> (k, v) \<in> set es \<Longrightarrow> wf_val (d + 1) v"
  by (fastforce simp: list_all_iff)

lemma get_item_of:
  assumes "wf_val d (VMap es)" "find (\<lambda>(k, v). encode k = encode key) es = Some (k, v)"
  shows "get (item_of (VMap es)) key = Inr (item_of v)"
proof -
  note v = wf_entry [OF assms(1) find_mem [OF assms(2)]]
  have "wf_val 0 (VMap es)" using assms(1) by (rule wf_val_mono) simp
  from get_read [OF this read_item_of(1) [OF assms(1)]] show ?thesis
    using assms(2) read_item_of(1) [OF v] by simp
qed

lemma content_item_of:
  shows "wf_val d (Bytes b) \<Longrightarrow> content (item_of (Bytes b)) = b" "wf_val d (Text t) \<Longrightarrow> content (item_of (Text t)) = t"
    "wf_val d (Bytes b) \<Longrightarrow> imajor (item_of (Bytes b)) = 2"
  using read_at_string [of 0 2 b "[]"] read_at_string [of 0 3 t "[]"]
  by (simp_all add: item_of_def content_def MAX_DEPTH_def)

lemma embedded_item_of:
  assumes "wf_val d (Tag 24 (Bytes b))"
  shows "embedded (item_of (Tag 24 (Bytes b))) = read b"
proof -
  have b: "wf_val (d + 1) (Bytes b)" using assms by simp
  have it: "imajor (item_of (Tag 24 (Bytes b))) = 6" "iargument (item_of (Tag 24 (Bytes b))) = 24"
    "map Inr (children (item_of (Tag 24 (Bytes b)))) = [read_at (encode (Bytes b)) 0]"
    using read_tag [OF wf_val_mono [OF assms, of 0], of "[]"] read_item_of [OF assms] by auto
  have "children (item_of (Tag 24 (Bytes b))) = [item_of (Bytes b)]"
    using it(3) by (simp only: read_item_of(1) [OF b]) auto
  then show ?thesis using it(1,2) content_item_of(1,3) [OF b] by (simp add: embedded_def)
qed

section \<open>Issued credentials\<close>

definition issued_item :: "val \<Rightarrow> val" where
  "issued_item v = Tag 24 (Bytes (encode v))"

definition issued :: "bytes \<Rightarrow> val \<Rightarrow> bytes \<Rightarrow> bytes \<Rightarrow> (str \<times> val list) list \<Rightarrow> val" where
  "issued prot unprot payload sig nss =
     VMap [(Text (ascii ''nameSpaces''), VMap (map (\<lambda>(n, its). (Text n, Array (map issued_item its))) nss)),
           (Text (ascii ''issuerAuth''), Array [Bytes prot, unprot, Bytes payload, Bytes sig])]"

text \<open>The name of an item: the text beside its first \<open>elementIdentifier\<close>.\<close>

definition item_name :: "val \<Rightarrow> str option" where
  "item_name v = (case v of
       VMap es \<Rightarrow> (case find (\<lambda>(k, _). encode k = encode (vtext (ascii ''elementIdentifier''))) es of
           Some (_, Text t) \<Rightarrow> Some t | _ \<Rightarrow> None)
     | _ \<Rightarrow> None)"

lemma mdoc_entry_issued:
  assumes "wf_val d (issued_item v)" "wf_val 0 v" "length (encode v) \<le> MAX_INPUT" "item_name v = Some name"
  shows "mdoc_entry (item_of (issued_item v)) = Inr (name, encode (issued_item v))"
proof -
  obtain es k where v: "v = VMap es" and f: "find (\<lambda>(k, _). encode k = encode (vtext (ascii ''elementIdentifier''))) es = Some (k, Text name)"
    using assms(4) by (auto simp: item_name_def split: val.splits option.splits)
  have t: "wf_val 1 (Text name)" using wf_entry [OF assms(2) [unfolded v] find_mem [OF f]] by simp
  have "embedded (item_of (issued_item v)) = Inr (item_of v)"
    using embedded_item_of [OF assms(1) [unfolded issued_item_def]] read_item_of(1) [OF assms(2)] assms(3)
    by (simp add: issued_item_def read_def)
  then show ?thesis
    using get_item_of [OF assms(2) [unfolded v] f] content_item_of(2) [OF t] t read_item_of(2) [OF assms(1)]
    by (simp add: mdoc_entry_def take_cbor_def v)
qed

lemma name_space_issued:
  assumes "wf_val d (Array (map issued_item its))"
    and "\<And>v. v \<in> set its \<Longrightarrow> wf_val 0 v \<and> length (encode v) \<le> MAX_INPUT \<and> item_name v = Some (name v)"
  shows "name_space (k, item_of (Array (map issued_item its))) = Inr (map (\<lambda>v. (name v, encode (issued_item v))) its)"
proof -
  have "mdoc_entry (item_of (issued_item v)) = Inr (name v, encode (issued_item v))" if "v \<in> set its" for v
    using assms(1) assms(2) [OF that] that by (intro mdoc_entry_issued [of "d + 1"]) (auto simp: list_all_iff)
  then have "map_result mdoc_entry (map (item_of \<circ> issued_item) its) = Inr (map (\<lambda>v. (name v, encode (issued_item v))) its)"
    by (induction its) simp_all
  then show ?thesis using item_of_array [OF assms(1)] by (simp add: name_space_def)
qed

text \<open>
  C35. Round trip of issuer and reader: \<open>mdoc\<close> of an encoded \<open>IssuerSigned\<close> returns the \<open>Sig_structure\<close> that the
  issuer signed (over the protected header and the payload), the two halves of its signature, and every
  item of every name space in order, each with its element identifier and its exact tagged bytes.
\<close>

theorem mdoc_reads_issued:
  assumes "wf_val 0 (issued prot unprot payload sig nss)" "length (encode (issued prot unprot payload sig nss)) \<le> MAX_ISSUER_SIGNED"
    and "length sig = 64"
    and "\<And>n its v. (n, its) \<in> set nss \<Longrightarrow> v \<in> set its \<Longrightarrow>
      wf_val 0 v \<and> length (encode v) \<le> MAX_INPUT \<and> item_name v = Some (name v)"
  shows "mdoc (encode (issued prot unprot payload sig nss)) = Inr
    \<lparr>sig_structure = encode (Array [vtext (ascii ''Signature1''), Bytes prot, Bytes [], Bytes payload]),
     mdoc_r = take 32 sig, mdoc_s = drop 32 sig,
     mdoc_items = concat (map (\<lambda>(n, its). map (\<lambda>v. (name v, encode (issued_item v))) its) nss)\<rparr>"
proof -
  let ?v = "issued prot unprot payload sig nss"
  let ?spaces = "VMap (map (\<lambda>(n, its). (Text n, Array (map issued_item its))) nss)"
  let ?auth = "Array [Bytes prot, unprot, Bytes payload, Bytes sig]"
  have wf: "wf_val 1 ?spaces" "wf_val 1 ?auth" using assms(1) unfolding issued_def by simp_all
  have read: "read (encode ?v) = Inr (item_of ?v)"
    using read_item_of(1) [OF assms(1)] assms(2) by (simp add: read_def MAX_INPUT_def MAX_ISSUER_SIGNED_def)
  have keys: "encode (Text (ascii ''nameSpaces'')) \<noteq> encode (Text (ascii ''issuerAuth''))"
    by (simp add: ascii_def head_def)
  have get: "get (item_of ?v) (vtext (ascii ''issuerAuth'')) = Inr (item_of ?auth)"
    "get (item_of ?v) (vtext (ascii ''nameSpaces'')) = Inr (item_of ?spaces)"
    unfolding issued_def using keys
    by (intro get_item_of [OF assms(1) [unfolded issued_def]], simp add: vtext_def)+
  have spaces: "map_result name_space (pairs (children (item_of ?spaces))) =
      Inr (map (\<lambda>(n, its). map (\<lambda>v. (name v, encode (issued_item v))) its) nss)"
  proof -
    have "name_space (item_of (Text n), item_of (Array (map issued_item its))) = Inr (map (\<lambda>v. (name v, encode (issued_item v))) its)"
      if "(n, its) \<in> set nss" for n its
    proof (rule name_space_issued [OF _ assms(4) [OF that]])
      show "wf_val (1 + 1) (Array (map issued_item its))" by (rule wf_entry [OF wf(1), of "Text n"]) (use that in force)
    qed
    then show ?thesis
      unfolding item_of_map(2) [OF wf(1)] by (induction nss) auto
  qed
  have "wf_val 2 (Bytes prot)" "wf_val 2 (Bytes payload)" "wf_val 2 (Bytes sig)" using wf(2) by simp_all
  note parts = content_item_of(1) [OF this(1)] content_item_of(1) [OF this(2)] content_item_of(1) [OF this(3)]
  show ?thesis
    using assms(2,3) read get spaces item_of_array [OF wf(2)] item_of_map(1) [OF wf(1)]
    by (simp add: mdoc_def take_cbor_def Cbor.at_def parts fixed_def)
qed

definition some_item :: val where
  "some_item = VMap [(Text (ascii ''digestID''), Unsigned 3), (Text (ascii ''elementIdentifier''), Text (ascii ''ssc'')),
     (Text (ascii ''elementValue''), Bytes (replicate 32 7))]"

lemma some_item_ok: "wf_val 0 some_item" "length (encode some_item) \<le> 100" "item_name some_item = Some (ascii ''ssc'')"
  by (simp_all add: some_item_def item_name_def vtext_def ascii_def head_def MAX_DEPTH_def)

theorem mdoc_reads_issued_witness:
  "mdoc (encode (issued [1] (VMap []) [2] (replicate 64 3) [(ascii ''ns'', [some_item])])) = Inr
    \<lparr>sig_structure = encode (Array [vtext (ascii ''Signature1''), Bytes [1], Bytes [], Bytes [2]]),
     mdoc_r = take 32 (replicate 64 3), mdoc_s = drop 32 (replicate 64 3),
     mdoc_items = concat (map (\<lambda>(n, its). map (\<lambda>v. (ascii ''ssc'', encode (issued_item v))) its) [(ascii ''ns'', [some_item])])\<rparr>"
proof (rule mdoc_reads_issued)
  show "wf_val 0 (issued [1] (VMap []) [2] (replicate 64 3) [(ascii ''ns'', [some_item])])"
    using some_item_ok(2) by (simp add: issued_def issued_item_def ascii_def MAX_DEPTH_def)
  have "length (encode (Bytes (encode some_item))) \<le> 109" using some_item_ok(2) length_head(2) [of 2 "length (encode some_item)"] by simp
  then show "length (encode (issued [1] (VMap []) [2] (replicate 64 3) [(ascii ''ns'', [some_item])])) \<le> MAX_ISSUER_SIGNED"
    by (simp add: issued_def issued_item_def ascii_def head_def MAX_ISSUER_SIGNED_def)
qed (use some_item_ok in \<open>auto simp: MAX_INPUT_def\<close>)

end
