(* ===== verification/Challenge.thy ===== *)
theory Challenge
  imports Cbor Sha256
begin

text \<open>
  The challenge the device key signs (\<open>src/nymauth_vega/engine/challenge.rs\<close>): the Sig_structure of
  DeviceAuthentication, the SessionTranscript of the Digital Credentials API, and the checked entry
  points \<open>derive\<close>, \<open>digest_of_transcript\<close> and \<open>verifier_input\<close>. The hash \<open>sha256\<close> of \<open>table.rs\<close>
  calls the crate \<open>sha2\<close>, so it is the parameter \<open>digest\<close>. An error text is a constructor with its
  interpolated values.

  Each CBOR string of the messages is self-delimiting. The locale \<open>prefix_code\<close> states what that
  gives, and the binding of the challenge to the request follows from its instances.
\<close>

section \<open>The messages\<close>

definition ES256_HEADER :: bytes where
  "ES256_HEADER = [0xa1, 0x01, 0x26]"

definition item_head :: "byte \<Rightarrow> nat \<Rightarrow> bytes" where
  "item_head major n =
    (let m = push_bit 5 major in
     if n < 24 then [m OR word_of_nat n]
     else if n < 0x100 then [m OR 24, word_of_nat n]
     else if n < 0x10000 then (m OR 25) # be_bytes 2 n
     else if n < 0x100000000 then (m OR 26) # be_bytes 4 n
     else (m OR 27) # be_bytes 8 n)"

definition byte_string :: "bytes \<Rightarrow> bytes" where
  "byte_string c = item_head 2 (length c) @ c"

definition text_string :: "str \<Rightarrow> bytes" where
  "text_string c = item_head 3 (length c) @ c"

definition embedded_item :: "bytes \<Rightarrow> bytes" where
  "embedded_item encoded = item_head 6 24 @ byte_string encoded"

definition device_authentication :: "bytes \<Rightarrow> str \<Rightarrow> bytes" where
  "device_authentication session_transcript doc_type =
    (let name_spaces = embedded_item [0xa0];
         authentication = item_head 4 4 @ text_string (ascii ''DeviceAuthentication'')
           @ session_transcript @ text_string doc_type @ name_spaces;
         payload = embedded_item authentication
     in item_head 4 4 @ text_string (ascii ''Signature1'') @ byte_string ES256_HEADER
          @ byte_string [] @ byte_string payload)"

definition mdoc_challenge :: "(bytes \<Rightarrow> bytes) \<Rightarrow> bytes \<Rightarrow> str \<Rightarrow> bytes" where
  "mdoc_challenge digest session_transcript doc_type =
     digest (device_authentication session_transcript doc_type)"

definition handover_info :: "str \<Rightarrow> str \<Rightarrow> bytes option \<Rightarrow> bytes" where
  "handover_info origin nonce jwk_thumbprint =
    (let thumbprint = (case jwk_thumbprint of None \<Rightarrow> [0xf6] | Some t \<Rightarrow> byte_string t)
     in item_head 4 3 @ text_string origin @ text_string nonce @ thumbprint)"

definition dc_api_session_transcript ::
  "(bytes \<Rightarrow> bytes) \<Rightarrow> str \<Rightarrow> str \<Rightarrow> bytes option \<Rightarrow> bytes" where
  "dc_api_session_transcript digest origin nonce jwk_thumbprint =
    (let info = handover_info origin nonce jwk_thumbprint;
         handover = item_head 4 2 @ text_string (ascii ''OpenID4VPDCAPIHandover'') @ byte_string (digest info)
     in item_head 4 3 @ [0xf6, 0xf6] @ handover)"

section \<open>The entry points\<close>

datatype field_name = ClientId | Origin | Nonce | DocType

datatype challenge_error =
    FieldEmpty field_name
  | FieldTooLong field_name
  | NonceTooShort
  | ThumbprintLength nat
  | TranscriptUnreadable cbor_error
  | TranscriptTrailing
  | TranscriptNotThree

definition MIN_NONCE_CHARS :: nat where "MIN_NONCE_CHARS = 16"

definition MAX_FIELD_BYTES :: nat where "MAX_FIELD_BYTES = 4096"

definition field :: "field_name \<Rightarrow> str \<Rightarrow> challenge_error + unit" where
  "field name v =
    (if v = [] then Inl (FieldEmpty name)
     else if length v > MAX_FIELD_BYTES then Inl (FieldTooLong name)
     else Inr ())"

definition verifier_input :: "(bytes \<Rightarrow> bytes) \<Rightarrow> str \<Rightarrow> challenge_error + bytes" where
  "verifier_input digest client_id =
     rbind (field ClientId client_id) (\<lambda>_. Inr (digest client_id))"

record challenge =
  session_transcript :: bytes
  challenge_digest :: bytes

definition derive ::
  "(bytes \<Rightarrow> bytes) \<Rightarrow> str \<Rightarrow> str \<Rightarrow> str \<Rightarrow> bytes option \<Rightarrow> challenge_error + challenge" where
  "derive digest origin nonce doc_type jwk_thumbprint =
     rbind (field Origin origin) (\<lambda>_.
     rbind (field Nonce nonce) (\<lambda>_.
     rbind (field DocType doc_type) (\<lambda>_.
     rbind (if char_count nonce < MIN_NONCE_CHARS then Inl NonceTooShort else Inr ()) (\<lambda>_.
     rbind (case jwk_thumbprint of
              None \<Rightarrow> Inr None
            | Some t \<Rightarrow> if length t = 32 then Inr (Some t) else Inl (ThumbprintLength (length t)))
       (\<lambda>thumbprint.
         let transcript = dc_api_session_transcript digest origin nonce thumbprint
         in Inr \<lparr>session_transcript = transcript,
                 challenge_digest = mdoc_challenge digest transcript doc_type\<rparr>)))))"

definition digest_of_transcript :: "(bytes \<Rightarrow> bytes) \<Rightarrow> bytes \<Rightarrow> str \<Rightarrow> challenge_error + bytes" where
  "digest_of_transcript digest transcript doc_type =
     rbind (field DocType doc_type) (\<lambda>_.
     rbind (map_err TranscriptUnreadable (read transcript)) (\<lambda>it.
       if length (ibytes it) \<noteq> length transcript then Inl TranscriptTrailing
       else if imajor it \<noteq> 4 \<or> iargument it \<noteq> 3 then Inl TranscriptNotThree
       else Inr (mdoc_challenge digest transcript doc_type)))"

section \<open>The strings are the CBOR encoder's\<close>

lemma item_head_eq: "item_head m n = head m n"
  by (auto simp: item_head_def head_def Let_def)

lemma byte_string_encode: "byte_string c = encode (Bytes c)"
  by (simp add: byte_string_def item_head_eq)

lemma text_string_encode: "text_string c = encode (Text c)"
  by (simp add: text_string_def item_head_eq)

lemma embedded_item_encode: "embedded_item c = encode (Tag 24 (Bytes c))"
  by (simp add: embedded_item_def byte_string_def item_head_eq)

lemmas encodings = byte_string_encode text_string_encode embedded_item_encode item_head_eq

lemma field_Inr: "field name v = Inr u \<longleftrightarrow> v \<noteq> [] \<and> length v \<le> MAX_FIELD_BYTES"
  by (auto simp: field_def)

lemma derive_Inr:
  "derive digest origin nonce doc_type thumb = Inr c \<longleftrightarrow>
     origin \<noteq> [] \<and> length origin \<le> MAX_FIELD_BYTES \<and>
     nonce \<noteq> [] \<and> length nonce \<le> MAX_FIELD_BYTES \<and>
     doc_type \<noteq> [] \<and> length doc_type \<le> MAX_FIELD_BYTES \<and>
     MIN_NONCE_CHARS \<le> char_count nonce \<and> (\<forall>t. thumb = Some t \<longrightarrow> length t = 32) \<and>
     c = \<lparr>session_transcript = dc_api_session_transcript digest origin nonce thumb,
          challenge_digest = mdoc_challenge digest
            (dc_api_session_transcript digest origin nonce thumb) doc_type\<rparr>"
  by (cases thumb) (auto simp: derive_def Let_def result_simps field_Inr split: if_splits)

lemma digest_of_transcript_Inr:
  "digest_of_transcript digest transcript doc_type = Inr e \<longleftrightarrow>
     doc_type \<noteq> [] \<and> length doc_type \<le> MAX_FIELD_BYTES \<and>
     (\<exists>it. read transcript = Inr it \<and> ibytes it = transcript \<and> imajor it = 4 \<and> iargument it = 3) \<and>
     e = mdoc_challenge digest transcript doc_type"
proof -
  have "ibytes it = transcript" if "read transcript = Inr it" "length (ibytes it) = length transcript" for it
    using that read_at_bounds [of transcript 0 it] by (simp add: read_def split: if_splits)
  then show ?thesis
    unfolding digest_of_transcript_def rbind_eq_Inr field_Inr map_err_simps by (fastforce split: if_splits)
qed

section \<open>Prefix codes\<close>

text \<open>
  An interface of self-delimiting encodings: a code word followed by anything determines the value
  and what follows.
\<close>

locale prefix_code =
  fixes code :: "'a \<Rightarrow> bytes" and ok :: "'a \<Rightarrow> bool"
  assumes code_split: "ok x \<Longrightarrow> ok y \<Longrightarrow> code x @ u = code y @ v \<Longrightarrow> x = y \<and> u = v"
begin

lemma code_inj: "ok x \<Longrightarrow> ok y \<Longrightarrow> code x = code y \<Longrightarrow> x = y"
  using code_split [of x y "[]" "[]"] by simp

end

locale prefix_code_pair = first: prefix_code code1 ok1 + second: prefix_code code2 ok2
  for code1 :: "'a \<Rightarrow> bytes" and ok1 and code2 :: "'b \<Rightarrow> bytes" and ok2
begin

lemma pair_split:
  assumes "ok1 a" "ok1 b" "ok2 x" "ok2 y" "code1 a @ code2 x @ u = code1 b @ code2 y @ v"
  shows "a = b \<and> x = y \<and> u = v"
  using first.code_split [OF assms(1,2,5)] second.code_split [OF assms(3,4)] by blast

end

sublocale prefix_code_pair \<subseteq> pair: prefix_code "\<lambda>(a, x). code1 a @ code2 x" "\<lambda>(a, x). ok1 a \<and> ok2 x"
proof
  fix x y :: "'a \<times> 'b" and u v
  assume "case x of (a, x) \<Rightarrow> ok1 a \<and> ok2 x" "case y of (a, x) \<Rightarrow> ok1 a \<and> ok2 x"
    "(case x of (a, x) \<Rightarrow> code1 a @ code2 x) @ u = (case y of (a, x) \<Rightarrow> code1 a @ code2 x) @ v"
  then show "x = y \<and> u = v"
    using pair_split [of "fst x" "fst y" "snd x" "snd y" u v] by (simp add: split_def prod_eq_iff)
qed

text \<open>Whole CBOR items, as bytes the reader takes in full.\<close>

definition whole_item :: "bytes \<Rightarrow> bool" where
  "whole_item bs = (case read_at bs 0 of Inl _ \<Rightarrow> False | Inr it \<Rightarrow> ibytes it = bs)"

lemma whole_item_prefix:
  assumes "whole_item as" "whole_item bs" "as @ u = bs @ v"
  shows "as = bs \<and> u = v"
proof -
  obtain i j where i: "read_at as 0 = Inr i" "ibytes i = as" and j: "read_at bs 0 = Inr j" "ibytes j = bs"
    using assms by (auto simp: whole_item_def split: sum.splits)
  have "read_at (as @ u) 0 = Inr i" "read_at (bs @ v) 0 = Inr j"
    using read_at_again [OF i(1)] read_at_again [OF j(1)] i(2) j(2) by auto
  then show ?thesis using assms(3) i(2) j(2) by auto
qed

interpretation items: prefix_code id whole_item
  by unfold_locales (simp only: id_apply, rule whole_item_prefix)

lemma string_split:
  assumes "unat m < 7" "length a < 2 ^ 64" "length b < 2 ^ 64"
    "head m (length a) @ a @ u = head m (length b) @ b @ v"
  shows "a = b \<and> u = v"
proof -
  have "Inr (unat m, length a, length (head m (length a))) = read_head (head m (length a) @ a @ u)"
    by (rule read_head_head [OF assms(1,2), symmetric])
  also have "\<dots> = Inr (unat m, length b, length (head m (length b)))"
    unfolding assms(4) by (rule read_head_head [OF assms(1,3)])
  finally have "length a = length b" by simp
  then show ?thesis using assms(4) by simp
qed

interpretation byte_strings: prefix_code byte_string "\<lambda>b. length b < 2 ^ 64"
  by unfold_locales (rule string_split [of 2], simp_all add: byte_string_def item_head_eq)

interpretation text_strings: prefix_code text_string "\<lambda>b. length b < 2 ^ 64"
  by unfold_locales (rule string_split [of 3], simp_all add: text_string_def item_head_eq)

interpretation transcript_doc_type: prefix_code_pair id whole_item text_string "\<lambda>b. length b < 2 ^ 64"
  by unfold_locales

interpretation origin_nonce:
  prefix_code_pair text_string "\<lambda>b. length b < 2 ^ 64" text_string "\<lambda>b. length b < 2 ^ 64"
  by unfold_locales

section \<open>Binding\<close>

lemma length_byte_string: "length (byte_string b) \<le> length b + 9"
  using length_head(2) [of 2 "length b"] by (simp add: byte_string_def item_head_eq)

lemma length_text_string: "length (text_string b) \<le> length b + 9"
  using length_head(2) [of 3 "length b"] by (simp add: text_string_def item_head_eq)

lemma length_embedded_item: "length (embedded_item b) \<le> length b + 18"
  using length_head(2) [of 6 24] length_byte_string [of b]
  by (simp add: embedded_item_def item_head_eq)

text \<open>A transcript and a docType that the entry points let through.\<close>

definition bindable :: "bytes \<Rightarrow> str \<Rightarrow> bool" where
  "bindable transcript doc_type \<longleftrightarrow>
     whole_item transcript \<and> length transcript \<le> MAX_INPUT \<and> length doc_type \<le> MAX_FIELD_BYTES"

lemma device_authentication_inj:
  assumes "bindable t d" "bindable t' d'" "device_authentication t d = device_authentication t' d'"
  shows "t = t' \<and> d = d'"
proof -
  define auth where "auth = (\<lambda>t d. item_head 4 4 @ text_string (ascii ''DeviceAuthentication'') @ t @
    text_string d @ embedded_item [0xa0])"
  have len: "length (auth t d) \<le> 2 ^ 22" if "bindable t d" for t d
    using that length_text_string [of d] length_text_string [of "ascii ''DeviceAuthentication''"]
      length_embedded_item [of "[0xa0]"] length_head(2) [of 4 4]
    by (simp add: auth_def bindable_def MAX_INPUT_def MAX_FIELD_BYTES_def item_head_eq)
  then have pay: "length (embedded_item (auth t d)) \<le> 2 ^ 23" if "bindable t d" for t d
    using that length_embedded_item [of "auth t d"] by fastforce
  have "byte_string (embedded_item (auth t d)) = byte_string (embedded_item (auth t' d'))"
    using assms(3) by (simp add: device_authentication_def auth_def)
  then have "embedded_item (auth t d) = embedded_item (auth t' d')"
    by (rule byte_strings.code_inj [rotated 2])
       (use pay [OF assms(1)] pay [OF assms(2)] in simp_all)
  then have "auth t d = auth t' d'"
    unfolding embedded_item_def same_append_eq
    by (rule byte_strings.code_inj [rotated 2])
       (use len [OF assms(1)] len [OF assms(2)] in simp_all)
  then have "id t @ text_string d @ embedded_item [0xa0] = id t' @ text_string d' @ embedded_item [0xa0]"
    by (simp add: auth_def)
  from transcript_doc_type.pair_split [OF _ _ _ _ this] show ?thesis
    using assms(1,2) by (simp add: bindable_def MAX_FIELD_BYTES_def)
qed

lemma handover_info_inj:
  assumes "length origin \<le> MAX_FIELD_BYTES" "length nonce \<le> MAX_FIELD_BYTES"
    "length origin' \<le> MAX_FIELD_BYTES" "length nonce' \<le> MAX_FIELD_BYTES"
    "\<forall>t. thumb = Some t \<longrightarrow> length t = 32" "\<forall>t. thumb' = Some t \<longrightarrow> length t = 32"
    "handover_info origin nonce thumb = handover_info origin' nonce' thumb'"
  shows "origin = origin' \<and> nonce = nonce' \<and> thumb = thumb'"
proof -
  let ?code = "\<lambda>opt. case opt of None \<Rightarrow> [0xf6] | Some t \<Rightarrow> byte_string t"
  have "text_string origin @ text_string nonce @ ?code thumb = text_string origin' @ text_string nonce' @ ?code thumb'"
    using assms(7) by (simp add: handover_info_def)
  then have eq: "origin = origin'" "nonce = nonce'" "?code thumb = ?code thumb'"
    using origin_nonce.pair_split [of origin origin' nonce nonce'] assms(1-4)
    by (auto simp: MAX_FIELD_BYTES_def)
  have not: "byte_string t \<noteq> [0xf6]" if "length t = 32" for t
    using that by (auto simp: byte_string_def item_head_def)
  have "thumb = thumb'"
  proof (cases thumb; cases thumb')
    fix t t' assume "thumb = Some t" "thumb' = Some t'"
    then show ?thesis using eq(3) assms(5,6) byte_strings.code_inj [of t t'] by simp
  qed (use eq(3) not assms(5,6) in force)+
  then show ?thesis using eq by simp
qed

lemma transcript_encode:
  "dc_api_session_transcript digest origin nonce thumb =
    encode (Array [Encoded [0xf6], Encoded [0xf6],
      Array [Text (ascii ''OpenID4VPDCAPIHandover''), Bytes (digest (handover_info origin nonce thumb))]])"
  by (simp add: dc_api_session_transcript_def encodings Let_def numeral_2_eq_2 numeral_3_eq_3)

lemma null_item: "d \<le> MAX_DEPTH \<Longrightarrow> read_at [0xf6] d =
    Inr \<lparr>ibytes = [0xf6], imajor = 7, iargument = 22, content_at = 1\<rparr>"
  using read_at_plain [of d "[0xf6]" "[]" 7 22] by (simp add: read_head_def Let_def)

lemma transcript_item:
  assumes "\<And>m. length (digest m) = 32"
  shows "\<exists>it. read (dc_api_session_transcript digest origin nonce thumb) = Inr it \<and>
    ibytes it = dc_api_session_transcript digest origin nonce thumb \<and> imajor it = 4 \<and> iargument it = 3"
proof -
  let ?t = "dc_api_session_transcript digest origin nonce thumb"
  let ?items = "[Encoded [0xf6], Encoded [0xf6],
      Array [Text (ascii ''OpenID4VPDCAPIHandover''), Bytes (digest (handover_info origin nonce thumb))]]"
  have "utf8_valid (ascii ''OpenID4VPDCAPIHandover'')"
    by (rule utf8_valid_ascii_bytes) (simp add: ascii_def)
  then have wf: "wf_val 0 (Array ?items)"
    by (simp add: null_item MAX_DEPTH_def assms)
  have "length ?t \<le> MAX_INPUT"
    using length_head(2) [of 4 2] length_head(2) [of 4 3] assms
      length_text_string [of "ascii ''OpenID4VPDCAPIHandover''"]
      length_byte_string [of "digest (handover_info origin nonce thumb)"]
    by (simp add: dc_api_session_transcript_def MAX_INPUT_def item_head_eq)
  moreover obtain it where it: "read_at (?t @ []) 0 = Inr it" "ibytes it = ?t"
    using encode_reads [OF wf] unfolding transcript_encode by blast
  moreover have "read_head ?t = Inr (4, 3, length (head 4 3))"
    using read_head_head [of 4 3] by (simp add: dc_api_session_transcript_def item_head_eq Let_def)
  ultimately show ?thesis by (auto simp: read_def read_at_Inr finish_item_Inr)
qed

lemma derive_bindable:
  assumes "\<And>m. length (digest m) = 32" "derive digest origin nonce doc_type thumb = Inr c"
  shows "bindable (session_transcript c) doc_type"
proof -
  have "session_transcript c = dc_api_session_transcript digest origin nonce thumb" "length doc_type \<le> MAX_FIELD_BYTES"
    using assms(2) by (auto simp: derive_Inr)
  with transcript_item [of digest origin nonce thumb] assms(1) show ?thesis
    by (auto simp: bindable_def whole_item_def read_def split: if_splits)
qed

text \<open>Two different messages with one digest.\<close>

definition collision :: "(bytes \<Rightarrow> bytes) \<Rightarrow> bytes \<Rightarrow> bytes \<Rightarrow> bool" where
  "collision digest m n \<longleftrightarrow> m \<noteq> n \<and> digest m = digest n"

section \<open>Properties\<close>

text \<open>
  What the verifier derives, the wallet accepts: the SessionTranscript of \<open>derive\<close> passes
  every check of \<open>digest_of_transcript\<close>, which computes the same challenge digest from it.
\<close>

theorem derived_transcript_accepted:
  assumes "sha2 compress256 digest" "derive digest origin nonce doc_type thumb = Inr c"
  shows "digest_of_transcript digest (session_transcript c) doc_type = Inr (challenge_digest c)"
proof -
  have "\<And>m. length (digest m) = 32" by (rule sha2.length_digest [OF assms(1)])
  then show ?thesis
    using assms(2) transcript_item [of digest origin nonce thumb]
    by (auto simp: derive_Inr digest_of_transcript_Inr)
qed

text \<open>A request that passes the checks: nine bytes of origin, a nonce of sixteen characters.\<close>

lemma derive_example:
  "derive digest (ascii ''https://a'') (ascii ''0123456789abcdef'') (ascii ''d'') None =
    Inr \<lparr>session_transcript = dc_api_session_transcript digest (ascii ''https://a'') (ascii ''0123456789abcdef'') None,
      challenge_digest = mdoc_challenge digest
        (dc_api_session_transcript digest (ascii ''https://a'') (ascii ''0123456789abcdef'') None) (ascii ''d'')\<rparr>"
  by (simp add: derive_Inr MAX_FIELD_BYTES_def MIN_NONCE_CHARS_def char_count_def ascii_def)

theorem derived_transcript_accepted_witness:
  "\<exists>c. derive native_digest (ascii ''https://a'') (ascii ''0123456789abcdef'') (ascii ''d'') None = Inr c \<and>
    digest_of_transcript native_digest (session_transcript c) (ascii ''d'') = Inr (challenge_digest c)"
  using derived_transcript_accepted [OF native.sha2_axioms derive_example] derive_example by blast

text \<open>
  C19. The challenge digest binds the whole request. Two requests with the same challenge digest are
  the same origin, nonce, docType and thumbprint, unless the hash collides on their handover
  infos or on their device-authentication messages, which the statement names.
\<close>

theorem challenge_binds_request:
  assumes "sha2 compress256 digest"
    and "derive digest origin nonce doc_type thumb = Inr c"
    and "derive digest origin' nonce' doc_type' thumb' = Inr c'"
    and "challenge_digest c = challenge_digest c'"
  shows "(origin, nonce, doc_type, thumb) = (origin', nonce', doc_type', thumb') \<or>
    collision digest (handover_info origin nonce thumb) (handover_info origin' nonce' thumb') \<or>
    collision digest (device_authentication (session_transcript c) doc_type)
      (device_authentication (session_transcript c') doc_type')"
proof -
  have len: "\<And>m. length (digest m) = 32" by (rule sha2.length_digest [OF assms(1)])
  let ?i = "handover_info origin nonce thumb" and ?i' = "handover_info origin' nonce' thumb'"
  have c: "challenge_digest c = digest (device_authentication (session_transcript c) doc_type)"
    "challenge_digest c' = digest (device_authentication (session_transcript c') doc_type')"
    using assms(2,3) by (auto simp: derive_Inr mdoc_challenge_def)
  show ?thesis
  proof (cases "device_authentication (session_transcript c) doc_type
      = device_authentication (session_transcript c') doc_type'")
    case True
    then have eq: "session_transcript c = session_transcript c'" "doc_type = doc_type'"
      using device_authentication_inj derive_bindable [of digest, OF len] assms(2,3) by blast+
    then have "byte_string (digest ?i) = byte_string (digest ?i')"
      using assms(2,3) by (auto simp: derive_Inr dc_api_session_transcript_def)
    then have "digest ?i = digest ?i'"
      by (rule byte_strings.code_inj [rotated 2]) (simp_all add: len)
    moreover have "?i = ?i' \<Longrightarrow> origin = origin' \<and> nonce = nonce' \<and> thumb = thumb'"
      using assms(2,3) by (intro handover_info_inj) (auto simp: derive_Inr)
    ultimately show ?thesis using eq(2) by (auto simp: collision_def)
  qed (use assms(4) c in \<open>simp add: collision_def\<close>)
qed

theorem challenge_binds_request_witness:
  "\<exists>c. derive native_digest (ascii ''https://a'') (ascii ''0123456789abcdef'') (ascii ''d'') None = Inr c \<and>
    challenge_digest c = challenge_digest c \<and>
    ((ascii ''https://a'', ascii ''0123456789abcdef'', ascii ''d'', None :: bytes option)
       = (ascii ''https://a'', ascii ''0123456789abcdef'', ascii ''d'', None) \<or>
     collision native_digest (handover_info (ascii ''https://a'') (ascii ''0123456789abcdef'') None)
       (handover_info (ascii ''https://a'') (ascii ''0123456789abcdef'') None) \<or>
     collision native_digest (device_authentication (session_transcript c) (ascii ''d''))
       (device_authentication (session_transcript c) (ascii ''d'')))"
  using challenge_binds_request [OF native.sha2_axioms derive_example derive_example refl] derive_example
  by blast

text \<open>
  A wallet that is handed a transcript signs for that transcript and that docType only: two
  accepted pairs with one digest are equal, or their two messages collide.
\<close>

theorem transcript_digest_binds:
  assumes "digest_of_transcript digest transcript doc_type = Inr e"
    and "digest_of_transcript digest transcript' doc_type' = Inr e"
  shows "(transcript, doc_type) = (transcript', doc_type') \<or>
    collision digest (device_authentication transcript doc_type) (device_authentication transcript' doc_type')"
proof -
  have "bindable transcript doc_type" "bindable transcript' doc_type'"
    using assms by (auto simp: digest_of_transcript_Inr bindable_def whole_item_def read_def split: if_splits)
  from device_authentication_inj [OF this] show ?thesis
    using assms by (auto simp: digest_of_transcript_Inr mdoc_challenge_def collision_def)
qed

text \<open>The transcript of three small integers, accepted for the docType \<open>d\<close>.\<close>

lemma transcript_example:
  "digest_of_transcript digest [0x83, 1, 2, 3] (ascii ''d'')
    = Inr (mdoc_challenge digest [0x83, 1, 2, 3] (ascii ''d''))"
proof -
  let ?v = "Array [Unsigned 1, Unsigned 2, Unsigned 3]"
  have enc: "encode ?v @ [] = [0x83, 1, 2, 3]" by (simp add: head_def)
  have "wf_val 0 ?v" by (simp add: MAX_DEPTH_def)
  then obtain it where it: "read_at [0x83, 1, 2, 3] 0 = Inr it" "ibytes it = [0x83, 1, 2, 3]"
    using encode_reads enc by (metis append_Nil2)
  have "read_head [0x83, 1, 2, 3] = Inr (4, 3, 1)" by (simp add: read_head_def Let_def)
  then have "imajor it = 4" "iargument it = 3"
    using it(1) by (auto simp: read_at_Inr finish_item_Inr)
  then show ?thesis
    using it by (simp add: digest_of_transcript_Inr read_def MAX_INPUT_def MAX_FIELD_BYTES_def)
      (simp add: ascii_def)
qed

theorem transcript_digest_binds_witness:
  "digest_of_transcript native_digest [0x83, 1, 2, 3] (ascii ''d'')
      = Inr (mdoc_challenge native_digest [0x83, 1, 2, 3] (ascii ''d'')) \<and>
   (([0x83, 1, 2, 3 :: byte], ascii ''d'') = ([0x83, 1, 2, 3], ascii ''d'') \<or>
    collision native_digest (device_authentication [0x83, 1, 2, 3] (ascii ''d''))
      (device_authentication [0x83, 1, 2, 3] (ascii ''d'')))"
  using transcript_digest_binds [OF transcript_example transcript_example, of native_digest]
    transcript_example by blast

end
