(* ===== verification/Ffi.thy ===== *)
theory Ffi
  imports Statement Challenge
begin

text \<open>
  The two layers over the statement: the typed one (\<open>nymauth_vega.rs\<close>) and the C interface
  (\<open>nymauth_go_ffi.rs\<close>).

  The C interface works on the caller's memory, one map per type of cell: bytes, pointers, lengths, the two
  argument structs and the boxed keys. An address is a number and null is zero. Arguments that overlap share cells;
  Rust's aliasing rules for references are not modelled. A function returns \<open>None\<close>
  where the code would touch memory that is not there: that is undefined behaviour, and not an error. The
  allocator is the locale \<open>allocator\<close>. No body modelled here panics, since the statement's functions
  already return a caught panic as an error, so the outer \<open>guarded\<close> has nothing to catch.
\<close>

section \<open>The typed layer\<close>

datatype detail = InputDetail input_error | ChallengeDetail challenge_error

datatype NymAuthVegaError =
    InvalidInput detail
  | InvalidShapes string
  | CircuitUnknown string
  | InputsRefused string
  | ProverFailed string
  | InvalidProof string
  | NoMatch string
  | InternalPanic string

fun from_error :: "error \<Rightarrow> NymAuthVegaError" where
  "from_error (InputError d) = InvalidInput (InputDetail d)"
| "from_error (Shapes d) = InvalidShapes d"
| "from_error (UnknownCircuit d) = CircuitUnknown d"
| "from_error (Refused r) = InputsRefused (refusal_debug (code r))"
| "from_error (Prover d) = ProverFailed d"
| "from_error (ProofInvalid d) = InvalidProof d"
| "from_error (Mismatch d) = NoMatch d"
| "from_error (Internal d) = InternalPanic d"

fun nym_display :: "(detail \<Rightarrow> string) \<Rightarrow> NymAuthVegaError \<Rightarrow> string" where
  "nym_display t (InvalidInput d) = ''invalid input: '' @ t d"
| "nym_display t (InvalidShapes d) = ''invalid circuit shapes: '' @ d"
| "nym_display t (CircuitUnknown d) = ''circuit not approved: '' @ d"
| "nym_display t (InputsRefused d) = ''inputs refused: '' @ d"
| "nym_display t (ProverFailed d) = ''prover failed: '' @ d"
| "nym_display t (InvalidProof d) = ''proof invalid: '' @ d"
| "nym_display t (NoMatch d) = ''proof does not match the named values: '' @ d"
| "nym_display t (InternalPanic d) = ''internal error: '' @ d"

text \<open>The records of the typed layer are the statement's own, owned instead of borrowed.\<close>

definition nymauth_vega_load_keys ::
  "('f::field, 'fp, 'pk, 'vk, 'prep, 'proof, 'shape, 'e) engine \<Rightarrow> bytes \<Rightarrow> NymAuthVegaError + ('pk, 'vk) Keys" where
  "nymauth_vega_load_keys E bs = map_err from_error (from_shapes E bs)"

text \<open>\<open>prove_zeroing\<close> also returns the holder, whose seed it overwrites.\<close>

definition prove_zeroing ::
  "('f::field, 'fp, 'pk, 'vk, 'prep, 'proof, 'shape, 'e) engine \<Rightarrow> ('pk, 'vk) Keys \<Rightarrow> Statement \<Rightarrow> Holder \<Rightarrow>
    (NymAuthVegaError + Proved) \<times> Holder" where
  "prove_zeroing E keys st holder =
    (let result = prove E keys st holder;
         holder = holder\<lparr>secret_seed := replicate (length (secret_seed holder)) 0\<rparr> in
     (rbind (map_err from_error result) (\<lambda>proved. Inr \<lparr>pv_proof = pv_proof proved, pv_pseudonym = pv_pseudonym proved\<rparr>), holder))"

definition nymauth_vega_prove ::
  "('f::field, 'fp, 'pk, 'vk, 'prep, 'proof, 'shape, 'e) engine \<Rightarrow> ('pk, 'vk) Keys \<Rightarrow> Statement \<Rightarrow> Holder \<Rightarrow>
    NymAuthVegaError + Proved" where
  "nymauth_vega_prove E keys st holder = fst (prove_zeroing E keys st holder)"

definition nymauth_vega_verify ::
  "('f::field, 'fp, 'pk, 'vk, 'prep, 'proof, 'shape, 'e) engine \<Rightarrow> ('pk, 'vk) Keys \<Rightarrow> Statement \<Rightarrow> bytes \<Rightarrow>
    NymAuthVegaError + bytes" where
  "nymauth_vega_verify E keys st proof = map_err from_error (verify E keys st proof)"

definition nymauth_derive_challenge ::
  "(bytes \<Rightarrow> bytes) \<Rightarrow> str \<Rightarrow> str \<Rightarrow> str \<Rightarrow> bytes option \<Rightarrow> NymAuthVegaError + challenge" where
  "nymauth_derive_challenge sha origin nonce doc_type thumbprint =
     map_err (\<lambda>d. InvalidInput (ChallengeDetail d)) (derive sha origin nonce doc_type thumbprint)"

definition nymauth_challenge_digest :: "(bytes \<Rightarrow> bytes) \<Rightarrow> bytes \<Rightarrow> str \<Rightarrow> NymAuthVegaError + bytes" where
  "nymauth_challenge_digest sha transcript doc_type =
     map_err (\<lambda>d. InvalidInput (ChallengeDetail d)) (digest_of_transcript sha transcript doc_type)"

definition nymauth_verifier_input :: "(bytes \<Rightarrow> bytes) \<Rightarrow> str \<Rightarrow> NymAuthVegaError + bytes" where
  "nymauth_verifier_input sha client_id =
     map_err (\<lambda>d. InvalidInput (ChallengeDetail d)) (Challenge.verifier_input sha client_id)"

section \<open>The C interface: memory\<close>

type_synonym addr = nat
type_synonym i32 = int

definition ZK_NYM_OK :: i32 where "ZK_NYM_OK = 0"
definition ZK_NYM_INVALID_ARG :: i32 where "ZK_NYM_INVALID_ARG = 1"
definition ZK_NYM_INVALID_INPUT :: i32 where "ZK_NYM_INVALID_INPUT = 2"
definition ZK_NYM_INVALID_SHAPES :: i32 where "ZK_NYM_INVALID_SHAPES = 3"
definition ZK_NYM_UNKNOWN_CIRCUIT :: i32 where "ZK_NYM_UNKNOWN_CIRCUIT = 4"
definition ZK_NYM_PROVER_FAILED :: i32 where "ZK_NYM_PROVER_FAILED = 6"
definition ZK_NYM_PROOF_INVALID :: i32 where "ZK_NYM_PROOF_INVALID = 7"
definition ZK_NYM_MISMATCH :: i32 where "ZK_NYM_MISMATCH = 8"
definition ZK_NYM_INTERNAL :: i32 where "ZK_NYM_INTERNAL = 9"
definition ZK_NYM_REFUSED_SEED_MISMATCH :: i32 where "ZK_NYM_REFUSED_SEED_MISMATCH = 20"
definition ZK_NYM_REFUSED_ISSUER_SIGNATURE :: i32 where "ZK_NYM_REFUSED_ISSUER_SIGNATURE = 21"
definition ZK_NYM_REFUSED_DEVICE_SIGNATURE :: i32 where "ZK_NYM_REFUSED_DEVICE_SIGNATURE = 22"
definition ZK_NYM_REFUSED_CREDENTIAL :: i32 where "ZK_NYM_REFUSED_CREDENTIAL = 23"

lemmas status_defs = ZK_NYM_OK_def ZK_NYM_INVALID_ARG_def ZK_NYM_INVALID_INPUT_def ZK_NYM_INVALID_SHAPES_def
  ZK_NYM_UNKNOWN_CIRCUIT_def ZK_NYM_PROVER_FAILED_def ZK_NYM_PROOF_INVALID_def ZK_NYM_MISMATCH_def ZK_NYM_INTERNAL_def
  ZK_NYM_REFUSED_SEED_MISMATCH_def ZK_NYM_REFUSED_ISSUER_SIGNATURE_def ZK_NYM_REFUSED_DEVICE_SIGNATURE_def
  ZK_NYM_REFUSED_CREDENTIAL_def

definition MAX_SHAPES :: nat where "MAX_SHAPES = 64 * 2 ^ 20"
definition MAX_SMALL :: nat where "MAX_SMALL = 4096"

record ZkNymSlice =
  ptr :: addr
  len :: nat

record ZkNymStatement =
  zs_issuer_key_x :: ZkNymSlice
  zs_issuer_key_y :: ZkNymSlice
  zs_time :: ZkNymSlice
  zs_earliest :: ZkNymSlice
  zs_cutoff :: ZkNymSlice
  zs_challenge_digest :: ZkNymSlice
  zs_verifier_input :: ZkNymSlice

record ZkNymHolder =
  zh_issuer_signed :: ZkNymSlice
  zh_secret_seed :: addr
  zh_secret_seed_len :: nat
  zh_device_signature :: ZkNymSlice

record ('pk, 'vk) memory =
  mem_bytes :: "addr \<Rightarrow> byte option"
  mem_ptrs :: "addr \<Rightarrow> addr option"
  mem_lens :: "addr \<Rightarrow> nat option"
  mem_statements :: "addr \<Rightarrow> ZkNymStatement option"
  mem_holders :: "addr \<Rightarrow> ZkNymHolder option"
  mem_keys :: "addr \<Rightarrow> ('pk, 'vk) Keys option"
  mem_buffers :: "addr \<Rightarrow> nat option"

type_synonym ('a, 'pk, 'vk) act = "('pk, 'vk) memory \<Rightarrow> ('a \<times> ('pk, 'vk) memory) option"

definition aret :: "'a \<Rightarrow> ('a, 'pk, 'vk) act" where
  "aret x = (\<lambda>m. Some (x, m))"

definition abind :: "('a, 'pk, 'vk) act \<Rightarrow> ('a \<Rightarrow> ('b, 'pk, 'vk) act) \<Rightarrow> ('b, 'pk, 'vk) act" where
  "abind g k = (\<lambda>m. case g m of None \<Rightarrow> None | Some (x, m') \<Rightarrow> k x m')"

text \<open>Reads and writes of cells; a cell that is not there makes the access undefined.\<close>

definition cell :: "(('pk, 'vk) memory \<Rightarrow> 'a option) \<Rightarrow> ('a, 'pk, 'vk) act" where
  "cell f = (\<lambda>m. case f m of None \<Rightarrow> None | Some x \<Rightarrow> Some (x, m))"

definition mapped :: "('pk, 'vk) memory \<Rightarrow> addr \<Rightarrow> nat \<Rightarrow> bool" where
  "mapped m p n \<longleftrightarrow> list_all (\<lambda>i. mem_bytes m (p + i) \<noteq> None) [0..<n]"

definition bytes_at :: "('pk, 'vk) memory \<Rightarrow> addr \<Rightarrow> nat \<Rightarrow> bytes" where
  "bytes_at m p n = map (\<lambda>i. the (mem_bytes m (p + i))) [0..<n]"

definition load :: "addr \<Rightarrow> nat \<Rightarrow> (bytes, 'pk, 'vk) act" where
  "load p n = (\<lambda>m. if mapped m p n then Some (bytes_at m p n, m) else None)"

definition put_bytes :: "addr \<Rightarrow> bytes \<Rightarrow> ('pk, 'vk) memory \<Rightarrow> ('pk, 'vk) memory" where
  "put_bytes p bs m = m\<lparr>mem_bytes := (\<lambda>a. if p \<le> a \<and> a < p + length bs then Some (bs ! (a - p)) else mem_bytes m a)\<rparr>"

definition store :: "addr \<Rightarrow> bytes \<Rightarrow> (unit, 'pk, 'vk) act" where
  "store p bs = (\<lambda>m. if mapped m p (length bs) then Some ((), put_bytes p bs m) else None)"

definition store_ptr :: "addr \<Rightarrow> addr \<Rightarrow> (unit, 'pk, 'vk) act" where
  "store_ptr p v = (\<lambda>m. if mem_ptrs m p = None then None else Some ((), m\<lparr>mem_ptrs := (mem_ptrs m)(p := Some v)\<rparr>))"

definition store_len :: "addr \<Rightarrow> nat \<Rightarrow> (unit, 'pk, 'vk) act" where
  "store_len p v = (\<lambda>m. if mem_lens m p = None then None else Some ((), m\<lparr>mem_lens := (mem_lens m)(p := Some v)\<rparr>))"

section \<open>The C interface: functions\<close>

fun status :: "error \<Rightarrow> i32" where
  "status (InputError _) = ZK_NYM_INVALID_INPUT"
| "status (Shapes _) = ZK_NYM_INVALID_SHAPES"
| "status (UnknownCircuit _) = ZK_NYM_UNKNOWN_CIRCUIT"
| "status (Refused r) =
    (case code r of
       SeedMismatch \<Rightarrow> ZK_NYM_REFUSED_SEED_MISMATCH
     | IssuerSignature \<Rightarrow> ZK_NYM_REFUSED_ISSUER_SIGNATURE
     | DeviceSignature \<Rightarrow> ZK_NYM_REFUSED_DEVICE_SIGNATURE
     | Credential \<Rightarrow> ZK_NYM_REFUSED_CREDENTIAL)"
| "status (Prover _) = ZK_NYM_PROVER_FAILED"
| "status (ProofInvalid _) = ZK_NYM_PROOF_INVALID"
| "status (Mismatch _) = ZK_NYM_MISMATCH"
| "status (Internal _) = ZK_NYM_INTERNAL"

definition arg_bytes :: "ZkNymSlice \<Rightarrow> nat \<Rightarrow> (bytes option, 'pk, 'vk) act" where
  "arg_bytes s cap =
    (if len s > cap then aret None
     else if len s = 0 then aret (Some [])
     else if ptr s = 0 then aret None
     else abind (load (ptr s) (len s)) (\<lambda>bs. aret (Some bs)))"

definition arg_text :: "ZkNymSlice \<Rightarrow> (str option, 'pk, 'vk) act" where
  "arg_text s =
     abind (arg_bytes s MAX_SMALL) (\<lambda>bs. aret (case bs of Some t \<Rightarrow> if utf8_valid t then Some t else None | None \<Rightarrow> None))"

text \<open>The operator \<open>?\<close> on an option: the rest runs on a value, and none ends the function.\<close>

definition otherwise :: "'b \<Rightarrow> ('a option, 'pk, 'vk) act \<Rightarrow> ('a \<Rightarrow> ('b, 'pk, 'vk) act) \<Rightarrow> ('b, 'pk, 'vk) act" where
  "otherwise none g k = abind g (\<lambda>x. case x of None \<Rightarrow> aret none | Some y \<Rightarrow> k y)"

definition statement_of :: "addr \<Rightarrow> (Statement option, 'pk, 'vk) act" where
  "statement_of st =
    (if st = 0 then aret None
     else
       abind (cell (\<lambda>m. mem_statements m st)) (\<lambda>s.
       otherwise None (arg_bytes (zs_issuer_key_x s) MAX_SMALL) (\<lambda>x.
       otherwise None (arg_bytes (zs_issuer_key_y s) MAX_SMALL) (\<lambda>y.
       otherwise None (arg_text (zs_time s)) (\<lambda>t.
       otherwise None (arg_text (zs_earliest s)) (\<lambda>e.
       otherwise None (arg_text (zs_cutoff s)) (\<lambda>c.
       otherwise None (arg_bytes (zs_challenge_digest s) MAX_SMALL) (\<lambda>d.
       otherwise None (arg_bytes (zs_verifier_input s) MAX_SMALL) (\<lambda>v.
       aret (Some \<lparr>issuer_key_x = x, issuer_key_y = y, st_time = t, st_earliest = e, st_cutoff = c,
         Statement.challenge_digest = d, verifier_input = v\<rparr>))))))))))"

text \<open>\<open>Box::into_raw\<close> of a byte slice, and of the keys.\<close>

definition box_bytes :: "(('pk, 'vk) memory \<Rightarrow> nat \<Rightarrow> addr) \<Rightarrow> bytes \<Rightarrow> (addr, 'pk, 'vk) act" where
  "box_bytes new bs = (\<lambda>m. let p = new m (length bs) in
     Some (p, put_bytes p bs (m\<lparr>mem_buffers := (mem_buffers m)(p := Some (length bs))\<rparr>)))"

definition box_keys :: "(('pk, 'vk) memory \<Rightarrow> nat \<Rightarrow> addr) \<Rightarrow> ('pk, 'vk) Keys \<Rightarrow> (addr, 'pk, 'vk) act" where
  "box_keys new keys = (\<lambda>m. let p = new m 1 in Some (p, m\<lparr>mem_keys := (mem_keys m)(p := Some keys)\<rparr>))"

definition give ::
  "(('pk, 'vk) memory \<Rightarrow> nat \<Rightarrow> addr) \<Rightarrow> bytes \<Rightarrow> addr \<Rightarrow> addr \<Rightarrow> (unit, 'pk, 'vk) act" where
  "give new bs ptr_out len_out =
     abind (store_len len_out (length bs)) (\<lambda>_.
     abind (box_bytes new bs) (store_ptr ptr_out))"

definition zk_cred_vega_nymauth_load_keys ::
  "('f::field, 'fp, 'pk, 'vk, 'prep, 'proof, 'shape, 'e) engine \<Rightarrow> (('pk, 'vk) memory \<Rightarrow> nat \<Rightarrow> addr) \<Rightarrow>
    addr \<Rightarrow> nat \<Rightarrow> addr \<Rightarrow> (i32, 'pk, 'vk) act" where
  "zk_cred_vega_nymauth_load_keys E new shp shp_len keys_out =
    (if keys_out = 0 then aret ZK_NYM_INVALID_ARG
     else
       abind (store_ptr keys_out 0) (\<lambda>_.
       otherwise ZK_NYM_INVALID_ARG (arg_bytes \<lparr>ptr = shp, len = shp_len\<rparr> MAX_SHAPES) (\<lambda>bs.
       case from_shapes E bs of
         Inr keys \<Rightarrow>
           abind (box_keys new keys) (\<lambda>p.
           abind (store_ptr keys_out p) (\<lambda>_. aret ZK_NYM_OK))
       | Inl e \<Rightarrow> aret (status e))))"

definition zk_cred_vega_nymauth_free_keys :: "addr \<Rightarrow> (unit, 'pk, 'vk) act" where
  "zk_cred_vega_nymauth_free_keys keys =
    (if keys = 0 then aret ()
     else (\<lambda>m. if mem_keys m keys = None then None else Some ((), m\<lparr>mem_keys := (mem_keys m)(keys := None)\<rparr>)))"

definition zk_cred_vega_nymauth_free_buffer :: "addr \<Rightarrow> nat \<Rightarrow> (unit, 'pk, 'vk) act" where
  "zk_cred_vega_nymauth_free_buffer p n =
    (if p = 0 then aret ()
     else (\<lambda>m. if mem_buffers m p \<noteq> Some n then None
       else Some ((), m\<lparr>mem_buffers := (mem_buffers m)(p := None), mem_bytes := (\<lambda>a. if p \<le> a \<and> a < p + n then None else mem_bytes m a)\<rparr>)))"

definition zk_cred_vega_nymauth_verify ::
  "('f::field, 'fp, 'pk, 'vk, 'prep, 'proof, 'shape, 'e) engine \<Rightarrow> addr \<Rightarrow> addr \<Rightarrow> addr \<Rightarrow> nat \<Rightarrow> addr \<Rightarrow> (i32, 'pk, 'vk) act" where
  "zk_cred_vega_nymauth_verify E keys st proof proof_len pseudonym_out =
    (if keys = 0 \<or> pseudonym_out = 0 then aret ZK_NYM_INVALID_ARG
     else
       abind (statement_of st) (\<lambda>s.
       abind (arg_bytes \<lparr>ptr = proof, len = proof_len\<rparr> (MAX_PROOF + 1)) (\<lambda>pf.
       case (s, pf) of
         (Some s, Some pf) \<Rightarrow>
           abind (cell (\<lambda>m. mem_keys m keys)) (\<lambda>k.
           case verify E k s pf of
             Inr ps \<Rightarrow> abind (store pseudonym_out ps) (\<lambda>_. aret ZK_NYM_OK)
           | Inl e \<Rightarrow> aret (status e))
       | _ \<Rightarrow> aret ZK_NYM_INVALID_ARG)))"

text \<open>The closure of \<open>zk_cred_vega_nymauth_prove\<close>, which runs before the seed is overwritten.\<close>

definition zk_prove_body ::
  "('f::field, 'fp, 'pk, 'vk, 'prep, 'proof, 'shape, 'e) engine \<Rightarrow> addr \<Rightarrow> addr \<Rightarrow> ZkNymHolder option \<Rightarrow> (addr \<times> nat) option \<Rightarrow>
    addr \<Rightarrow> addr \<Rightarrow> addr \<Rightarrow> (i32 + Proved, 'pk, 'vk) act" where
  "zk_prove_body E keys st h sd proof_out proof_len_out pseudonym_out =
    (case (h, sd) of
       (Some h, Some (sd_ptr, sd_len)) \<Rightarrow>
         if keys = 0 \<or> proof_out = 0 \<or> proof_len_out = 0 \<or> pseudonym_out = 0 then aret (Inl ZK_NYM_INVALID_ARG)
         else
           abind (store_ptr proof_out 0) (\<lambda>_.
           abind (store_len proof_len_out 0) (\<lambda>_.
           otherwise (Inl ZK_NYM_INVALID_ARG) (statement_of st) (\<lambda>s.
           otherwise (Inl ZK_NYM_INVALID_ARG) (arg_bytes (zh_issuer_signed h) (MAX_ISSUER_SIGNED + 1)) (\<lambda>iss.
           otherwise (Inl ZK_NYM_INVALID_ARG) (arg_bytes (zh_device_signature h) MAX_SMALL) (\<lambda>dev.
           abind (cell (\<lambda>m. mem_keys m keys)) (\<lambda>k.
           abind (load sd_ptr sd_len) (\<lambda>sd.
           aret (map_err status (prove E k s \<lparr>issuer_signed = iss, secret_seed = sd, device_signature = dev\<rparr>)))))))))
     | _ \<Rightarrow> aret (Inl ZK_NYM_INVALID_ARG))"

definition seed_buffer :: "ZkNymHolder option \<Rightarrow> (addr \<times> nat) option" where
  "seed_buffer h = (case h of None \<Rightarrow> None | Some h \<Rightarrow>
     if zh_secret_seed h \<noteq> 0 \<and> zh_secret_seed_len h \<le> MAX_SMALL then Some (zh_secret_seed h, zh_secret_seed_len h) else None)"

definition zk_cred_vega_nymauth_prove ::
  "('f::field, 'fp, 'pk, 'vk, 'prep, 'proof, 'shape, 'e) engine \<Rightarrow> (('pk, 'vk) memory \<Rightarrow> nat \<Rightarrow> addr) \<Rightarrow> addr \<Rightarrow> addr \<Rightarrow> addr \<Rightarrow>
    addr \<Rightarrow> addr \<Rightarrow> addr \<Rightarrow> (i32, 'pk, 'vk) act" where
  "zk_cred_vega_nymauth_prove E new keys st holder proof_out proof_len_out pseudonym_out =
     abind (if holder = 0 then aret None else abind (cell (\<lambda>m. mem_holders m holder)) (\<lambda>h. aret (Some h))) (\<lambda>h.
     abind (zk_prove_body E keys st h (seed_buffer h) proof_out proof_len_out pseudonym_out) (\<lambda>result.
     abind (case seed_buffer h of Some (p, n) \<Rightarrow> store p (replicate n 0) | None \<Rightarrow> aret ()) (\<lambda>_.
     case result of
       Inr proved \<Rightarrow>
         abind (store pseudonym_out (pv_pseudonym proved)) (\<lambda>_.
         abind (give new (pv_proof proved) proof_out proof_len_out) (\<lambda>_. aret ZK_NYM_OK))
     | Inl s \<Rightarrow> aret s)))"

definition zk_cred_vega_nymauth_derive_challenge ::
  "(bytes \<Rightarrow> bytes) \<Rightarrow> (('pk, 'vk) memory \<Rightarrow> nat \<Rightarrow> addr) \<Rightarrow> ZkNymSlice \<Rightarrow> ZkNymSlice \<Rightarrow> ZkNymSlice \<Rightarrow> ZkNymSlice \<Rightarrow>
    addr \<Rightarrow> addr \<Rightarrow> addr \<Rightarrow> (i32, 'pk, 'vk) act" where
  "zk_cred_vega_nymauth_derive_challenge sha new origin nonce doc_type thumbprint transcript_out transcript_len_out e2_out =
    (if e2_out = 0 \<or> transcript_out = 0 \<or> transcript_len_out = 0 then aret ZK_NYM_INVALID_ARG
     else
       abind (store_ptr transcript_out 0) (\<lambda>_.
       abind (store_len transcript_len_out 0) (\<lambda>_.
       abind (arg_text origin) (\<lambda>o'. abind (arg_text nonce) (\<lambda>n. abind (arg_text doc_type) (\<lambda>d. abind (arg_bytes thumbprint MAX_SMALL) (\<lambda>t.
       case (o', n, d, t) of
         (Some o', Some n, Some d, Some t) \<Rightarrow>
           (let t = (if ptr thumbprint = 0 \<and> t = [] then None else Some t) in
            case derive sha o' n d t of
              Inr c \<Rightarrow>
                abind (store e2_out (Challenge.challenge_digest c)) (\<lambda>_.
                abind (give new (session_transcript c) transcript_out transcript_len_out) (\<lambda>_. aret ZK_NYM_OK))
            | Inl _ \<Rightarrow> aret ZK_NYM_INVALID_INPUT)
       | _ \<Rightarrow> aret ZK_NYM_INVALID_ARG)))))))"

definition zk_cred_vega_nymauth_challenge_digest :: "(bytes \<Rightarrow> bytes) \<Rightarrow> ZkNymSlice \<Rightarrow> ZkNymSlice \<Rightarrow> addr \<Rightarrow> (i32, 'pk, 'vk) act" where
  "zk_cred_vega_nymauth_challenge_digest sha transcript doc_type e2_out =
    (if e2_out = 0 then aret ZK_NYM_INVALID_ARG
     else
       abind (arg_bytes transcript MAX_SMALL) (\<lambda>t. abind (arg_text doc_type) (\<lambda>d.
       case (t, d) of
         (Some t, Some d) \<Rightarrow>
           (case digest_of_transcript sha t d of
              Inr e2 \<Rightarrow> abind (store e2_out e2) (\<lambda>_. aret ZK_NYM_OK)
            | Inl _ \<Rightarrow> aret ZK_NYM_INVALID_INPUT)
       | _ \<Rightarrow> aret ZK_NYM_INVALID_ARG)))"

definition zk_cred_vega_nymauth_verifier_input :: "(bytes \<Rightarrow> bytes) \<Rightarrow> ZkNymSlice \<Rightarrow> addr \<Rightarrow> (i32, 'pk, 'vk) act" where
  "zk_cred_vega_nymauth_verifier_input sha client_id out =
    (if out = 0 then aret ZK_NYM_INVALID_ARG
     else
       otherwise ZK_NYM_INVALID_ARG (arg_text client_id) (\<lambda>i.
       case Challenge.verifier_input sha i of
         Inr d \<Rightarrow> abind (store out d) (\<lambda>_. aret ZK_NYM_OK)
       | Inl _ \<Rightarrow> aret ZK_NYM_INVALID_INPUT))"

section \<open>What the arguments are\<close>

lemma abind_simps [simp]:
  "abind (aret x) k = k x" "abind g k m = Some (y, m'') \<longleftrightarrow> (\<exists>x m'. g m = Some (x, m') \<and> k x m' = Some (y, m''))"
  by (auto simp: abind_def aret_def fun_eq_iff split: option.splits)

lemma aret_simps [simp]: "aret x m = Some (x, m)"
  by (simp add: aret_def)

lemma abind_run: "g m = Some (x, m') \<Longrightarrow> abind g k m = k x m'"
  by (simp add: abind_def)

text \<open>Every slice that the code reads after its checks is there.\<close>

definition readable :: "('pk, 'vk) memory \<Rightarrow> ZkNymSlice \<Rightarrow> nat \<Rightarrow> bool" where
  "readable m s cap \<longleftrightarrow> (len s \<le> cap \<longrightarrow> len s \<noteq> 0 \<longrightarrow> ptr s \<noteq> 0 \<longrightarrow> mapped m (ptr s) (len s))"

definition arg_value :: "('pk, 'vk) memory \<Rightarrow> ZkNymSlice \<Rightarrow> nat \<Rightarrow> bytes option" where
  "arg_value m s cap =
    (if len s > cap then None else if len s = 0 then Some [] else if ptr s = 0 then None else Some (bytes_at m (ptr s) (len s)))"

definition text_value :: "('pk, 'vk) memory \<Rightarrow> ZkNymSlice \<Rightarrow> str option" where
  "text_value m s = (case arg_value m s MAX_SMALL of Some t \<Rightarrow> if utf8_valid t then Some t else None | None \<Rightarrow> None)"

lemma arg_bytes_run: "readable m s cap \<Longrightarrow> arg_bytes s cap m = Some (arg_value m s cap, m)"
  by (simp add: arg_bytes_def arg_value_def readable_def load_def abind_def)

lemma arg_text_run: "readable m s MAX_SMALL \<Longrightarrow> arg_text s m = Some (text_value m s, m)"
  by (simp add: arg_text_def text_value_def abind_run [OF arg_bytes_run])

definition statement_valid :: "('pk, 'vk) memory \<Rightarrow> addr \<Rightarrow> bool" where
  "statement_valid m st \<longleftrightarrow> (st \<noteq> 0 \<longrightarrow> (\<exists>s. mem_statements m st = Some s \<and>
     readable m (zs_issuer_key_x s) MAX_SMALL \<and> readable m (zs_issuer_key_y s) MAX_SMALL \<and> readable m (zs_time s) MAX_SMALL \<and>
     readable m (zs_earliest s) MAX_SMALL \<and> readable m (zs_cutoff s) MAX_SMALL \<and> readable m (zs_challenge_digest s) MAX_SMALL \<and>
     readable m (zs_verifier_input s) MAX_SMALL))"

definition statement_value :: "('pk, 'vk) memory \<Rightarrow> addr \<Rightarrow> Statement option" where
  "statement_value m st =
    (if st = 0 then None else
     case mem_statements m st of None \<Rightarrow> None | Some s \<Rightarrow>
       (case (arg_value m (zs_issuer_key_x s) MAX_SMALL, arg_value m (zs_issuer_key_y s) MAX_SMALL, text_value m (zs_time s),
          text_value m (zs_earliest s), text_value m (zs_cutoff s), arg_value m (zs_challenge_digest s) MAX_SMALL,
          arg_value m (zs_verifier_input s) MAX_SMALL) of
          (Some x, Some y, Some t, Some e, Some c, Some d, Some v) \<Rightarrow>
            Some \<lparr>issuer_key_x = x, issuer_key_y = y, st_time = t, st_earliest = e, st_cutoff = c,
              Statement.challenge_digest = d, verifier_input = v\<rparr>
        | _ \<Rightarrow> None))"

lemma otherwise_run:
  "g m = Some (x, m) \<Longrightarrow> otherwise none g k m = (case x of None \<Rightarrow> Some (none, m) | Some y \<Rightarrow> k y m)"
  by (simp add: otherwise_def abind_def split: option.split)

lemma statement_of_run:
  assumes "statement_valid m st"
  shows "statement_of st m = Some (statement_value m st, m)"
proof (cases "st = 0")
  case False
  then obtain s where s: "mem_statements m st = Some s" and
    r: "readable m (zs_issuer_key_x s) MAX_SMALL" "readable m (zs_issuer_key_y s) MAX_SMALL" "readable m (zs_time s) MAX_SMALL"
     "readable m (zs_earliest s) MAX_SMALL" "readable m (zs_cutoff s) MAX_SMALL" "readable m (zs_challenge_digest s) MAX_SMALL"
     "readable m (zs_verifier_input s) MAX_SMALL"
    using assms by (auto simp: statement_valid_def)
  have c: "cell (\<lambda>m. mem_statements m st) m = Some (s, m)" by (simp add: cell_def s)
  show ?thesis
    unfolding statement_of_def statement_value_def if_not_P [OF False] s option.case
    by (subst abind_run, rule c) (simp add: otherwise_run [OF arg_bytes_run] otherwise_run [OF arg_text_run] r split: option.split)
qed (simp add: statement_of_def statement_value_def)

lemma mapped_put [simp]: "mapped m q n \<Longrightarrow> mapped (put_bytes p bs m) q n"
  by (auto simp: mapped_def put_bytes_def list_all_iff)

lemma bytes_at_put:
  "bytes_at (put_bytes p bs m) p (length bs) = bs"
  "p + length bs \<le> q \<or> q + n \<le> p \<Longrightarrow> bytes_at (put_bytes p bs m) q n = bytes_at m q n"
  by (auto simp: bytes_at_def put_bytes_def intro: nth_equalityI)

lemma put_bytes_frame [simp]:
  "mem_ptrs (put_bytes p bs m) = mem_ptrs m" "mem_lens (put_bytes p bs m) = mem_lens m" "mem_keys (put_bytes p bs m) = mem_keys m"
  "mem_statements (put_bytes p bs m) = mem_statements m" "mem_holders (put_bytes p bs m) = mem_holders m"
  "mem_buffers (put_bytes p bs m) = mem_buffers m"
  by (simp_all add: put_bytes_def)

text \<open>The status codes are distinct, and only success is zero.\<close>

lemma status_pos: "status e > 1"
  by (cases e) (auto simp: status_defs split: RefusalCode.split)

lemma verify_length: "verify E k s pf = Inr ps \<Longrightarrow> length ps = 32"
  unfolding verify_iff by (auto simp: pseudonym_of_def Let_def split: if_splits)

section \<open>Sequences of calls\<close>

named_theorems keys_kept_intros

definition keys_kept :: "('a, 'pk, 'vk) act \<Rightarrow> bool" where
  "keys_kept g \<longleftrightarrow> (\<forall>m x m'. g m = Some (x, m') \<longrightarrow> mem_keys m' = mem_keys m)"

lemma keys_kept_basic [keys_kept_intros]:
  "keys_kept (aret x)" "keys_kept (cell f)" "keys_kept (load p n)" "keys_kept (store p bs)" "keys_kept (store_ptr p a)" "keys_kept (store_len p n)"
  by (auto simp: keys_kept_def aret_def cell_def load_def store_def store_ptr_def store_len_def split: option.splits if_splits)

lemma keys_kept_abind [keys_kept_intros]: "keys_kept g \<Longrightarrow> (\<And>x. keys_kept (k x)) \<Longrightarrow> keys_kept (abind g k)"
  by (fastforce simp: keys_kept_def)

lemma keys_kept_split [keys_kept_intros]:
  "keys_kept a \<Longrightarrow> keys_kept b \<Longrightarrow> keys_kept (if c then a else b)"
  "keys_kept n \<Longrightarrow> (\<And>y. keys_kept (f y)) \<Longrightarrow> keys_kept (case x of None \<Rightarrow> n | Some y \<Rightarrow> f y)"
  "(\<And>e. keys_kept (l e)) \<Longrightarrow> (\<And>y. keys_kept (r y)) \<Longrightarrow> keys_kept (case z of Inl e \<Rightarrow> l e | Inr y \<Rightarrow> r y)"
  "(\<And>a b. keys_kept (h a b)) \<Longrightarrow> keys_kept (case p of (a, b) \<Rightarrow> h a b)"
  by (simp_all split: option.split sum.split prod.split)

lemma keys_kept_box_bytes [keys_kept_intros]: "keys_kept (box_bytes new bs)"
  by (simp add: keys_kept_def box_bytes_def Let_def)

lemma keys_kept_arg_bytes [keys_kept_intros]: "keys_kept (arg_bytes s cap)"
  unfolding arg_bytes_def by (intro keys_kept_intros)

lemma keys_kept_arg_text [keys_kept_intros]: "keys_kept (arg_text s)"
  unfolding arg_text_def by (intro keys_kept_intros)

lemma keys_kept_otherwise [keys_kept_intros]: "keys_kept g \<Longrightarrow> (\<And>x. keys_kept (k x)) \<Longrightarrow> keys_kept (otherwise none g k)"
  unfolding otherwise_def by (intro keys_kept_intros)

lemma keys_kept_statement_of [keys_kept_intros]: "keys_kept (statement_of st)"
  unfolding statement_of_def by (intro keys_kept_intros)

lemma keys_kept_give [keys_kept_intros]: "keys_kept (give new bs p q)"
  unfolding give_def by (intro keys_kept_intros)

lemma keys_kept_calls:
  "keys_kept (zk_cred_vega_nymauth_verify E keys st proof n out)" "keys_kept (zk_cred_vega_nymauth_prove E new keys st holder po plo pso)"
  "keys_kept (zk_cred_vega_nymauth_derive_challenge sha new origin nonce doc_type thumbprint tout tlen e2)"
  "keys_kept (zk_cred_vega_nymauth_challenge_digest sha transcript doc_type e2)" "keys_kept (zk_cred_vega_nymauth_verifier_input sha cid out)"
  unfolding zk_cred_vega_nymauth_verify_def zk_cred_vega_nymauth_prove_def zk_prove_body_def zk_cred_vega_nymauth_derive_challenge_def zk_cred_vega_nymauth_challenge_digest_def zk_cred_vega_nymauth_verifier_input_def Let_def
  by (intro keys_kept_intros)+

text \<open>
  The calls that a caller can make, in any order and with any arguments, as long as none is undefined;
  between them it may change its own memory, but not the boxed keys, whose type is opaque.
\<close>

inductive ffi_step ::
  "('f::field, 'fp, 'pk, 'vk, 'prep, 'proof, 'shape, 'e) engine \<Rightarrow> (('pk, 'vk) memory \<Rightarrow> nat \<Rightarrow> addr) \<Rightarrow>
    ('pk, 'vk) memory \<Rightarrow> ('pk, 'vk) memory \<Rightarrow> bool" for E new where
  load_keys: "zk_cred_vega_nymauth_load_keys E new shp n out m = Some (c, m') \<Longrightarrow> ffi_step E new m m'"
| free_keys: "zk_cred_vega_nymauth_free_keys keys m = Some (u, m') \<Longrightarrow> ffi_step E new m m'"
| free_buffer: "zk_cred_vega_nymauth_free_buffer p n m = Some (u, m') \<Longrightarrow> ffi_step E new m m'"
| verify: "zk_cred_vega_nymauth_verify E keys st proof n out m = Some (c, m') \<Longrightarrow> ffi_step E new m m'"
| prove: "zk_cred_vega_nymauth_prove E new keys st holder po plo pso m = Some (c, m') \<Longrightarrow> ffi_step E new m m'"
| derive_challenge: "zk_cred_vega_nymauth_derive_challenge (eng_sha E) new origin nonce doc_type thumbprint tout tlen e2 m = Some (c, m') \<Longrightarrow> ffi_step E new m m'"
| challenge_digest: "zk_cred_vega_nymauth_challenge_digest (eng_sha E) transcript doc_type e2 m = Some (c, m') \<Longrightarrow> ffi_step E new m m'"
| verifier_input: "zk_cred_vega_nymauth_verifier_input (eng_sha E) cid out m = Some (c, m') \<Longrightarrow> ffi_step E new m m'"
| caller: "mem_keys m' = mem_keys m \<Longrightarrow> ffi_step E new m m'"

definition keys_approved :: "('f::field, 'fp, 'pk, 'vk, 'prep, 'proof, 'shape, 'e) engine \<Rightarrow> ('pk, 'vk) memory \<Rightarrow> bool" where
  "keys_approved E m \<longleftrightarrow> (\<forall>a k. mem_keys m a = Some k \<longrightarrow> keys_circuit k \<in> set APPROVED_SHAPES \<and>
     (\<exists>bs. hex (eng_sha E bs) = ac_shapes_sha256 (keys_circuit k) \<and> from_shapes E bs = Inr k))"

lemma from_shapes_approved:
  assumes "from_shapes E bs = Inr k"
  shows "keys_circuit k \<in> set APPROVED_SHAPES" "hex (eng_sha E bs) = ac_shapes_sha256 (keys_circuit k)"
  using assms by (auto simp: from_shapes_def Let_def rbind_eq_Inr find_Some_iff split: option.splits prod.splits)

lemma load_keys_mem:
  assumes "zk_cred_vega_nymauth_load_keys E new shp n out m = Some (c, m')"
  shows "mem_keys m' = mem_keys m \<or> (\<exists>a k bs. mem_keys m' = (mem_keys m)(a := Some k) \<and> from_shapes E bs = Inr k)"
proof (cases "out = 0")
  case False
  then obtain m1 where m1: "store_ptr out 0 m = Some ((), m1)" and rest:
    "otherwise ZK_NYM_INVALID_ARG (arg_bytes \<lparr>ptr = shp, len = n\<rparr> MAX_SHAPES) (\<lambda>bs. case from_shapes E bs of
         Inr keys \<Rightarrow> abind (box_keys new keys) (\<lambda>p. abind (store_ptr out p) (\<lambda>_. aret ZK_NYM_OK))
       | Inl e \<Rightarrow> aret (status e)) m1 = Some (c, m')"
    using assms by (auto simp: zk_cred_vega_nymauth_load_keys_def)
  have k1: "mem_keys m1 = mem_keys m" using m1 keys_kept_basic(5) unfolding keys_kept_def by blast
  obtain a m2 where a: "arg_bytes \<lparr>ptr = shp, len = n\<rparr> MAX_SHAPES m1 = Some (a, m2)" and
    rest2: "(case a of None \<Rightarrow> aret ZK_NYM_INVALID_ARG | Some bs \<Rightarrow> (case from_shapes E bs of
         Inr keys \<Rightarrow> abind (box_keys new keys) (\<lambda>p. abind (store_ptr out p) (\<lambda>_. aret ZK_NYM_OK))
       | Inl e \<Rightarrow> aret (status e))) m2 = Some (c, m')"
    using rest by (auto simp: otherwise_def)
  have k2: "mem_keys m2 = mem_keys m" using a keys_kept_arg_bytes k1 unfolding keys_kept_def by metis
  show ?thesis
  proof (cases "\<exists>bs k. a = Some bs \<and> from_shapes E bs = Inr k")
    case True
    then obtain bs k where b: "a = Some bs" "from_shapes E bs = Inr k" by blast
    then obtain p m3 where "box_keys new k m2 = Some (p, m3)" "store_ptr out p m3 = Some ((), m')" using rest2 by auto
    then have "mem_keys m' = (mem_keys m2)(new m2 1 := Some k)"
      by (auto simp: box_keys_def Let_def store_ptr_def split: if_splits)
    then show ?thesis using b k2 by metis
  next
    case False
    then show ?thesis using rest2 k2 by (auto split: option.splits sum.splits)
  qed
qed (use assms in \<open>simp add: zk_cred_vega_nymauth_load_keys_def\<close>)

lemma keys_keptD: "keys_kept g \<Longrightarrow> g m = Some (x, m') \<Longrightarrow> mem_keys m' = mem_keys m"
  by (auto simp: keys_kept_def)

lemma ffi_step_approved:
  assumes "ffi_step E new m m'" "keys_approved E m"
  shows "keys_approved E m'"
  using assms(1)
proof cases
  case (load_keys shp n out c)
  from load_keys_mem [OF this] assms(2) from_shapes_approved show ?thesis
    by (fastforce simp: keys_approved_def split: if_splits)
next
  case (free_keys keys u)
  then show ?thesis using assms(2) by (auto simp: zk_cred_vega_nymauth_free_keys_def keys_approved_def aret_def split: if_splits)
next
  case (free_buffer p n u)
  then show ?thesis using assms(2) by (auto simp: zk_cred_vega_nymauth_free_buffer_def keys_approved_def aret_def split: if_splits)
qed (use assms(2) in \<open>auto simp: keys_approved_def dest!: keys_keptD [OF keys_kept_calls(1)] keys_keptD [OF keys_kept_calls(2)]
    keys_keptD [OF keys_kept_calls(3)] keys_keptD [OF keys_kept_calls(4)] keys_keptD [OF keys_kept_calls(5)]\<close>)

section \<open>The allocator\<close>

text \<open>
  What \<open>Box::into_raw\<close> gives: an address that is not null, whose bytes and keys nobody holds. A box of no bytes
  has an address too, but not one of its own.
\<close>

definition small_memory :: "('pk, 'vk) memory \<Rightarrow> bool" where
  "small_memory m \<longleftrightarrow> finite {a. mem_bytes m a \<noteq> None} \<and> finite {a. mem_keys m a \<noteq> None} \<and> finite {a. mem_buffers m a \<noteq> None}"

locale allocator =
  fixes new :: "('pk, 'vk) memory \<Rightarrow> nat \<Rightarrow> addr"
  assumes new_nonnull: "small_memory m \<Longrightarrow> new m n \<noteq> 0"
    and new_fresh: "small_memory m \<Longrightarrow> i < n \<Longrightarrow> mem_bytes m (new m n + i) = None"
    and new_keys: "small_memory m \<Longrightarrow> 0 < n \<Longrightarrow> mem_keys m (new m n) = None"
    and new_buffer: "small_memory m \<Longrightarrow> 0 < n \<Longrightarrow> mem_buffers m (new m n) = None"
begin

text \<open>A buffer handed out is fresh and holds its bytes, and the memory that was there is left alone.\<close>

lemma give_run:
  assumes "small_memory m" "mem_ptrs m po \<noteq> None" "mem_lens m plo \<noteq> None"
  shows "\<exists>p m'. give new bs po plo m = Some ((), m') \<and> p \<noteq> 0 \<and> mem_ptrs m' po = Some p \<and> mem_lens m' plo = Some (length bs) \<and>
    bytes_at m' p (length bs) = bs \<and> (\<forall>i < length bs. mem_bytes m (p + i) = None) \<and>
    (bs \<noteq> [] \<longrightarrow> mem_buffers m p = None) \<and> mem_buffers m' = (mem_buffers m)(p := Some (length bs)) \<and>
    (\<forall>b. mem_bytes m b \<noteq> None \<longrightarrow> mem_bytes m' b = mem_bytes m b)"
proof -
  let ?m1 = "m\<lparr>mem_lens := (mem_lens m)(plo := Some (length bs))\<rparr>"
  let ?p = "new ?m1 (length bs)"
  let ?m2 = "put_bytes ?p bs (?m1\<lparr>mem_buffers := (mem_buffers ?m1)(?p := Some (length bs))\<rparr>)"
  let ?m3 = "?m2\<lparr>mem_ptrs := (mem_ptrs ?m2)(po := Some ?p)\<rparr>"
  have sm: "small_memory ?m1" using assms(1) by (simp add: small_memory_def)
  have run: "give new bs po plo m = Some ((), ?m3)"
    using assms(2,3) by (simp add: give_def abind_def store_len_def box_bytes_def Let_def store_ptr_def)
  have fresh: "mem_bytes m (?p + i) = None" if "i < length bs" for i
    using new_fresh [OF sm that] by simp
  have same: "mem_bytes ?m3 b = mem_bytes m b" if "mem_bytes m b \<noteq> None" for b
  proof -
    have "\<not> (?p \<le> b \<and> b < ?p + length bs)"
    proof
      assume "?p \<le> b \<and> b < ?p + length bs"
      then have "b - ?p < length bs" "?p + (b - ?p) = b" by linarith+
      then show False using fresh that by metis
    qed
    then show ?thesis by (auto simp: put_bytes_def)
  qed
  have "bytes_at ?m3 ?p (length bs) = bs" by (auto simp: bytes_at_def put_bytes_def intro: nth_equalityI)
  moreover have "mem_buffers m ?p = None" if "bs \<noteq> []" using new_buffer [OF sm, of "length bs"] that by simp
  ultimately show ?thesis
    using run new_nonnull [OF sm] same fresh by (intro exI [of _ ?p] exI [of _ ?m3]) simp
qed

end

text \<open>An allocator of the model: the first address past everything that is held.\<close>

definition past :: "addr set \<Rightarrow> addr" where
  "past A = Suc (Max (insert 0 A))"

definition bump :: "('pk, 'vk) memory \<Rightarrow> nat \<Rightarrow> addr" where
  "bump m n = past ({a. mem_bytes m a \<noteq> None} \<union> {a. mem_keys m a \<noteq> None} \<union> {a. mem_buffers m a \<noteq> None})"

lemma past_notin: "finite A \<Longrightarrow> past A + i \<notin> A"
proof
  assume "finite A" "past A + i \<in> A"
  then have "past A + i \<le> Max (insert 0 A)" by (intro Max_ge) auto
  then show False by (simp add: past_def)
qed

interpretation bump: allocator bump
proof
  fix m :: "('a, 'b) memory" and n i :: nat
  assume "small_memory m"
  then have f: "finite ({a. mem_bytes m a \<noteq> None} \<union> {a. mem_keys m a \<noteq> None} \<union> {a. mem_buffers m a \<noteq> None})"
    by (simp add: small_memory_def)
  show "bump m n \<noteq> 0" by (simp add: bump_def past_def)
  show "mem_bytes m (bump m n + i) = None" using past_notin [OF f, of i] by (auto simp: bump_def)
  show "mem_keys m (bump m n) = None" "mem_buffers m (bump m n) = None" using past_notin [OF f, of 0] by (auto simp: bump_def)
qed

section \<open>The proving call\<close>












text \<open>What the verifying call decides: the pseudonym, when its arguments are there and the proof is accepted.\<close>

definition verdict ::
  "('f::field, 'fp, 'pk, 'vk, 'prep, 'proof, 'shape, 'e) engine \<Rightarrow> ('pk, 'vk) memory \<Rightarrow> addr \<Rightarrow> addr \<Rightarrow> ZkNymSlice \<Rightarrow> addr \<Rightarrow> bytes option" where
  "verdict E m keys st proof out =
    (if keys = 0 \<or> out = 0 then None
     else case (mem_keys m keys, statement_value m st, arg_value m proof (MAX_PROOF + 1)) of
         (Some k, Some s, Some pf) \<Rightarrow> (case verify E k s pf of Inr ps \<Rightarrow> Some ps | Inl _ \<Rightarrow> None)
       | _ \<Rightarrow> None)"

section \<open>Properties\<close>

text \<open>
  C5. The verifying call touches no memory that it may not and reports faithfully: under the caller's
  contract it is never undefined; its status is zero exactly when the handle, the statement and the proof
  are there within their caps and \<open>verify\<close> accepts them, and then it writes the 32 bytes of the pseudonym and
  nothing else; with every other status it leaves the memory as it was.
\<close>

theorem zk_verify_safe:
  assumes "keys \<noteq> 0 \<Longrightarrow> mem_keys m keys \<noteq> None" "statement_valid m st"
    and "readable m \<lparr>ptr = proof, len = n\<rparr> (MAX_PROOF + 1)" "out \<noteq> 0 \<Longrightarrow> mapped m out 32"
  shows "\<exists>c m'. zk_cred_vega_nymauth_verify E keys st proof n out m = Some (c, m') \<and>
    (case verdict E m keys st \<lparr>ptr = proof, len = n\<rparr> out of
       Some ps \<Rightarrow> c = ZK_NYM_OK \<and> length ps = 32 \<and> m' = put_bytes out ps m
     | None \<Rightarrow> c \<noteq> ZK_NYM_OK \<and> m' = m)"
proof (cases "keys = 0 \<or> out = 0")
  case True
  then show ?thesis by (auto simp: zk_cred_vega_nymauth_verify_def verdict_def status_defs)
next
  case False
  then obtain k where k: "mem_keys m keys = Some k" and out: "mapped m out 32" using assms(1,4) by auto
  note args = statement_of_run [OF assms(2)] arg_bytes_run [OF assms(3)]
  have c: "cell (\<lambda>m. mem_keys m keys) m = Some (k, m)" by (simp add: cell_def k)
  have pos: "status e \<noteq> ZK_NYM_OK" for e using status_pos [of e] by (auto simp: status_defs)
  have st: "store out ps m = Some ((), put_bytes out ps m)" if "length ps = 32" for ps using that out by (simp add: store_def)
  let ?pf = "arg_value m \<lparr>ptr = proof, len = n\<rparr> (MAX_PROOF + 1)"
  show ?thesis
  proof (cases "\<exists>s pf. statement_value m st = Some s \<and> ?pf = Some pf")
    case True
    then obtain s pf where sp: "statement_value m st = Some s" "?pf = Some pf" by blast
    have run: "zk_cred_vega_nymauth_verify E keys st proof n out m = (case verify E k s pf of
        Inr ps \<Rightarrow> abind (store out ps) (\<lambda>_. aret ZK_NYM_OK) m | Inl e \<Rightarrow> Some (status e, m))"
      using False sp by (simp add: zk_cred_vega_nymauth_verify_def abind_def [of "statement_of st"] abind_def [of "arg_bytes a b" for a b] abind_def [of "cell f" for f]
          args [simplified] c split: sum.split)
    have v: "verdict E m keys st \<lparr>ptr = proof, len = n\<rparr> out = (case verify E k s pf of Inr ps \<Rightarrow> Some ps | Inl _ \<Rightarrow> None)"
      using False sp k by (simp add: verdict_def)
    show ?thesis
    proof (cases "verify E k s pf")
      case (Inl e)
      then show ?thesis by (simp add: run v pos)
    next
      case (Inr ps)
      then show ?thesis using verify_length [OF Inr] by (simp add: run v abind_def st)
    qed
  next
    case no: False
    have "zk_cred_vega_nymauth_verify E keys st proof n out m = Some (ZK_NYM_INVALID_ARG, m)"
      using False no by (cases "statement_value m st"; cases ?pf)
        (auto simp: zk_cred_vega_nymauth_verify_def abind_def args [simplified])
    moreover have "verdict E m keys st \<lparr>ptr = proof, len = n\<rparr> out = None"
      using no by (auto simp: verdict_def split: option.splits)
    ultimately show ?thesis by (simp add: status_defs)
  qed
qed


text \<open>
  C6. Only approved keys exist behind the C interface: from a memory without keys, after any sequence of calls
  with any arguments, and whatever the caller does to its own memory in between, every live handle holds
  keys that \<open>from_shapes\<close> built for an approved circuit, from bytes whose SHA-256 is the pinned one.
\<close>

theorem reachable_keys_approved:
  assumes "(ffi_step E new)\<^sup>*\<^sup>* m0 m" "mem_keys m0 = (\<lambda>_. None)"
  shows "keys_approved E m"
  using assms(1)
proof (induction rule: rtranclp_induct)
  case base
  then show ?case by (simp add: keys_approved_def assms(2))
next
  case (step m m')
  then show ?case using ffi_step_approved by blast
qed

section \<open>The properties at work\<close>

definition demo_slice :: ZkNymSlice where "demo_slice = \<lparr>ptr = 1000, len = 32\<rparr>"

definition demo_zk_statement :: ZkNymStatement where
  "demo_zk_statement = \<lparr>zs_issuer_key_x = demo_slice, zs_issuer_key_y = demo_slice, zs_time = demo_slice, zs_earliest = demo_slice,
     zs_cutoff = demo_slice, zs_challenge_digest = demo_slice, zs_verifier_input = demo_slice\<rparr>"

definition demo_zk_holder :: ZkNymHolder where
  "demo_zk_holder = \<lparr>zh_issuer_signed = demo_slice, zh_secret_seed = 1100, zh_secret_seed_len = 16, zh_device_signature = demo_slice\<rparr>"

definition demo_memory :: "(unit, unit) memory" where
  "demo_memory = \<lparr>mem_bytes = (\<lambda>a. if 1000 \<le> a \<and> a < 2000 then Some 7 else None),
     mem_ptrs = (\<lambda>a. if a = 8 then Some 0 else None), mem_lens = (\<lambda>a. if a = 8 then Some 0 else None),
     mem_statements = (\<lambda>a. if a = 32 then Some demo_zk_statement else None), mem_holders = (\<lambda>a. if a = 32 then Some demo_zk_holder else None),
     mem_keys = (\<lambda>a. if a = 16 then Some demo_keys else None), mem_buffers = (\<lambda>_. None)\<rparr>"

lemma demo_mapped: "1000 \<le> p \<Longrightarrow> p + n \<le> 2000 \<Longrightarrow> mapped demo_memory p n"
  by (auto simp: mapped_def list_all_iff demo_memory_def)

lemma demo_readable: "readable demo_memory demo_slice cap"
  by (auto simp: readable_def demo_slice_def intro!: demo_mapped)

lemma demo_statement_valid: "statement_valid demo_memory 32"
  using demo_readable by (auto simp: statement_valid_def demo_memory_def demo_zk_statement_def)


theorem zk_verify_safe_witness:
  "\<forall>K vs. \<exists>c m'. zk_cred_vega_nymauth_verify (honest_engine K vs) 16 32 1200 5 1300 demo_memory = Some (c, m') \<and>
    (case verdict (honest_engine K vs) demo_memory 16 32 \<lparr>ptr = 1200, len = 5\<rparr> 1300 of
       Some ps \<Rightarrow> c = ZK_NYM_OK \<and> length ps = 32 \<and> m' = put_bytes 1300 ps demo_memory
     | None \<Rightarrow> c \<noteq> ZK_NYM_OK \<and> m' = demo_memory)"
  by (intro allI zk_verify_safe demo_statement_valid) (auto simp: demo_memory_def readable_def intro!: demo_mapped [unfolded demo_memory_def])


text \<open>An engine whose hash is the pinned digest, and a memory without keys.\<close>

definition pinned_engine :: "rat Constants \<Rightarrow> (rat, unit, unit, unit, unit, rat list, unit, unit) engine" where
  "pinned_engine K = (honest_engine K [])\<lparr>
     eng_sha := (\<lambda>_. [0x4d, 0xa5, 0xe7, 0x3a, 0xfb, 0x9b, 0xe2, 0x68, 0x2e, 0x70, 0xbe, 0x79, 0x3c, 0x99, 0x56, 0xa7,
       0x33, 0x04, 0xe2, 0x1f, 0x31, 0x24, 0x6a, 0xa1, 0x0d, 0xa0, 0xd3, 0xe9, 0x5c, 0x92, 0x64, 0x25]),
     eng_vega := (honest_vega [])\<lparr>deserialize_shapes := (\<lambda>_. Inr (one_rule, one_rule))\<rparr>\<rparr>"

theorem reachable_keys_approved_witness:
  "\<forall>K. \<exists>m. zk_cred_vega_nymauth_load_keys (pinned_engine K) bump 0 0 8 (demo_memory\<lparr>mem_keys := (\<lambda>_. None)\<rparr>) = Some (ZK_NYM_OK, m) \<and>
    keys_approved (pinned_engine K) m"
proof
  fix K
  let ?E = "pinned_engine K" and ?m0 = "demo_memory\<lparr>mem_keys := (\<lambda>_. None)\<rparr>"
  have "hex (eng_sha ?E []) = ac_shapes_sha256 (hd APPROVED_SHAPES)"
    by (simp add: pinned_engine_def hex_def hex_digit_def APPROVED_SHAPES_def char_of_def bit_numeral_rec bit_0)
  then have "\<exists>k. from_shapes ?E [] = Inr k"
    using one_rule_valid
    by (simp add: from_shapes_def APPROVED_SHAPES_def setup_from_shapes_in_def pinned_engine_def honest_engine_def honest_vega_def
        within_budget_def one_rule_def FULL_MDOC_def)
  then obtain k where k: "from_shapes ?E [] = Inr k" by blast
  then have "\<exists>m. zk_cred_vega_nymauth_load_keys ?E bump 0 0 8 ?m0 = Some (ZK_NYM_OK, m)"
    by (simp add: zk_cred_vega_nymauth_load_keys_def abind_def store_ptr_def demo_memory_def otherwise_def arg_bytes_def box_keys_def Let_def)
  then obtain m where m: "zk_cred_vega_nymauth_load_keys ?E bump 0 0 8 ?m0 = Some (ZK_NYM_OK, m)" by blast
  have "(ffi_step ?E bump)\<^sup>*\<^sup>* ?m0 m" using ffi_step.load_keys [OF m] by (rule r_into_rtranclp)
  from reachable_keys_approved [OF this] have "keys_approved ?E m" by simp
  then show "\<exists>m. zk_cred_vega_nymauth_load_keys ?E bump 0 0 8 ?m0 = Some (ZK_NYM_OK, m) \<and> keys_approved ?E m" using m by blast
qed

end
