(* ===== verification/CborUint.thy ===== *)
theory CborUint
  imports Cbor Sha256
begin

text \<open>
  The CBOR unsigned integers of \<open>digestID\<close> (\<open>cbor_uint.rs\<close>). A \<open>u32\<close> is a \<open>32 word\<close>, and \<open>None\<close> in
  \<open>encode_cbor_uint\<close> and \<open>class_byte_width\<close> is a panic. The encoding is the shortest head of major type 0,
  the one that \<open>Cbor.head\<close> writes, and the decoder takes it back from the front of any byte string.
\<close>

section \<open>The encoding\<close>

definition MAX_DIGEST_ID :: u32 where "MAX_DIGEST_ID = push_bit 31 1 - 1"
definition MAX_CBOR_UINT_BYTES :: nat where "MAX_CBOR_UINT_BYTES = 5"

definition length_class :: "u32 \<Rightarrow> nat" where
  "length_class v = (if v < 24 then 0 else if v < 256 then 1 else if v < 65536 then 2 else 3)"

definition class_byte_width :: "nat \<Rightarrow> nat option" where
  "class_byte_width c = (if c < 4 then Some ([1, 2, 3, MAX_CBOR_UINT_BYTES] ! c) else None)"

definition encode_cbor_uint :: "u32 \<Rightarrow> bytes option" where
  "encode_cbor_uint v =
     (if v \<le> MAX_DIGEST_ID then
        Some (case length_class v of
            0 \<Rightarrow> [ucast v]
          | Suc 0 \<Rightarrow> [0x18, ucast v]
          | Suc (Suc 0) \<Rightarrow> [0x19] @ be_bytes 2 (unat (ucast v :: 16 word))
          | _ \<Rightarrow> [0x1a] @ be_bytes 4 (unat v))
      else None)"

text \<open>\<open>bytes.get(a..b)\<close> is a slice when it is in range.\<close>

definition get_range :: "'a list \<Rightarrow> nat \<Rightarrow> nat \<Rightarrow> 'a list option" where
  "get_range xs a b = (if a \<le> b \<and> b \<le> length xs then Some (take (b - a) (drop a xs)) else None)"

definition decode_cbor_uint :: "bytes \<Rightarrow> (u32 \<times> nat) option" where
  "decode_cbor_uint bs =
     (case bs of [] \<Rightarrow> None
      | marker # _ \<Rightarrow>
        if marker < 0x18 then Some (ucast marker, 1)
        else if marker = 0x18 then map_option (\<lambda>b. (word_of_nat (be_val b), 2)) (get_range bs 1 2)
        else if marker = 0x19 then map_option (\<lambda>b. (word_of_nat (be_val b), 3)) (get_range bs 1 3)
        else if marker = 0x1a then map_option (\<lambda>b. (word_of_nat (be_val b), 5)) (get_range bs 1 5)
        else None)"

section \<open>The encoding is the shortest head\<close>

lemma MAX_DIGEST_ID_unat: "unat MAX_DIGEST_ID = 2 ^ 31 - 1"
  by (simp add: MAX_DIGEST_ID_def push_bit_eq_mult)

lemma digest_id_le: "v \<le> MAX_DIGEST_ID \<longleftrightarrow> unat v < 2 ^ 31"
  by (simp add: word_le_nat_alt MAX_DIGEST_ID_unat) linarith

lemma length_class_unat:
  "length_class v = (if unat v < 24 then 0 else if unat v < 256 then 1 else if unat v < 65536 then 2 else 3)"
  by (simp add: length_class_def word_less_nat_alt)

lemma length_class_less: "length_class v < 4"
  by (simp add: length_class_def)

lemma unat_u8: "unat (v :: u32) < 256 \<Longrightarrow> unat (ucast v :: byte) = unat v"
  by (simp add: unsigned_ucast_eq unsigned_take_bit_eq take_bit_nat_eq_self)

lemma unat_u16: "unat (v :: u32) < 65536 \<Longrightarrow> unat (ucast v :: 16 word) = unat v"
  by (simp add: unsigned_ucast_eq unsigned_take_bit_eq take_bit_nat_eq_self)

lemma encode_cbor_uint_head:
  assumes "v \<le> MAX_DIGEST_ID"
  shows "encode_cbor_uint v = Some (head 0 (unat v))"
proof -
  have v: "unat v \<le> 4294967295" using assms by (simp add: digest_id_le)
  consider "unat v < 24" | "24 \<le> unat v" "unat v < 256" | "256 \<le> unat v" "unat v < 65536" | "65536 \<le> unat v"
    by linarith
  then show ?thesis
  proof cases
    case 1 then show ?thesis using assms by (simp add: encode_cbor_uint_def length_class_unat head_def)
  next
    case 2 then show ?thesis using assms by (simp add: encode_cbor_uint_def length_class_unat head_def)
  next
    case 3
    then have "length_class v = Suc (Suc 0)" by (simp add: length_class_unat)
    with 3 show ?thesis using assms by (simp add: encode_cbor_uint_def head_def unat_u16)
  next
    case 4
    then have "length_class v = Suc (Suc (Suc 0))" by (simp add: length_class_unat)
    with 4 show ?thesis using assms v by (simp add: encode_cbor_uint_def head_def)
  qed
qed

lemma encode_cbor_uint_width:
  "encode_cbor_uint v = Some e \<Longrightarrow> class_byte_width (length_class v) = Some (length e)"
  by (auto simp: encode_cbor_uint_def class_byte_width_def MAX_CBOR_UINT_BYTES_def length_class_def
      split: if_splits)

lemma get_range_front: "get_range (x # e @ rest) 1 (Suc (length e)) = Some e"
  by (simp add: get_range_def)

lemma get_range_be: "k \<le> length rest + k \<Longrightarrow> get_range (x # be_bytes k n @ rest) 1 (Suc k) = Some (be_bytes k n)"
  by (simp add: get_range_def)

lemma decode_encode_cbor_uint:
  assumes "encode_cbor_uint v = Some e"
  shows "decode_cbor_uint (e @ rest) = Some (v, length e)"
proof -
  have v: "v \<le> MAX_DIGEST_ID" and e: "e = head 0 (unat v)"
    using assms encode_cbor_uint_head [of v] by (auto simp: encode_cbor_uint_def split: if_splits)
  then have v: "unat v \<le> 4294967295" by (simp add: digest_id_le)
  consider "unat v < 24" | "24 \<le> unat v" "unat v < 256" | "256 \<le> unat v" "unat v < 65536" | "65536 \<le> unat v"
    by linarith
  then show ?thesis
  proof cases
    case 1
    then have "(ucast v :: byte) < 24" by (simp add: word_less_nat_alt unat_u8)
    moreover have "ucast (ucast v :: byte) = v"
      using 1 by (simp add: word_unat_eq_iff unsigned_ucast_eq unsigned_take_bit_eq take_bit_nat_eq_self)
    ultimately show ?thesis using 1 e by (simp add: decode_cbor_uint_def head_def)
  next
    case 2
    then show ?thesis using e by (simp add: decode_cbor_uint_def head_def get_range_def be_val_Cons unat_u8)
  next
    case 3
    then show ?thesis using e get_range_be [of 2 rest "0x19" "unat v"] by (simp add: decode_cbor_uint_def head_def)
  next
    case 4
    then show ?thesis using e v get_range_be [of 4 rest "0x1a" "unat v"] by (simp add: decode_cbor_uint_def head_def)
  qed
qed

text \<open>
  The encoding of every legal \<open>digestID\<close> is the shortest CBOR head of major type 0, its width is the width
  of its length class, and decoding any bytes that start with it gives the value and the width back. From
  \<open>2 ^ 31\<close> on, encoding panics.
\<close>

theorem cbor_uint_roundtrip:
  "(case encode_cbor_uint v of
      None \<Rightarrow> 2 ^ 31 \<le> unat v
    | Some e \<Rightarrow> unat v < 2 ^ 31 \<and> e = head 0 (unat v) \<and> class_byte_width (length_class v) = Some (length e) \<and>
        length e \<le> MAX_CBOR_UINT_BYTES \<and> decode_cbor_uint (e @ rest) = Some (v, length e))"
proof (cases "v \<le> MAX_DIGEST_ID")
  case True
  then have e: "encode_cbor_uint v = Some (head 0 (unat v))" by (rule encode_cbor_uint_head)
  have "length (head 0 (unat v)) \<le> MAX_CBOR_UINT_BYTES"
    using True by (simp add: head_def MAX_CBOR_UINT_BYTES_def digest_id_le)
  then show ?thesis using True encode_cbor_uint_width [OF e] decode_encode_cbor_uint [OF e] e by (simp add: digest_id_le)
next
  case False
  then show ?thesis by (simp add: encode_cbor_uint_def digest_id_le)
qed

text \<open>The decoder also takes heads that are longer than necessary.\<close>

lemma decode_cbor_uint_overlong: "decode_cbor_uint [0x18, 5] = Some (5, 2)"
  by (simp add: decode_cbor_uint_def get_range_def be_val_Cons)

end
