(* ===== verification/Mso.thy ===== *)
theory Mso
  imports CborUint
begin

text \<open>
  The issuer's \<open>Sig_structure\<close> as a template of bytes (\<open>mso.rs\<close>, and the native part of \<open>mso_splice.rs\<close>).
  Fixed arrays are lists, whose lengths the lemmas assume; \<open>None\<close> is a panic of \<open>assert!\<close>, \<open>expect\<close> or
  \<open>encode_cbor_uint\<close>. The main lemma says that the template is the canonical CBOR encoding of the
  \<open>Sig_structure\<close> of a mobile security object, with the lengths in both headers right.
\<close>

section \<open>The segments\<close>

definition DIGEST_ID_WIDTHS :: "nat list" where "DIGEST_ID_WIDTHS = [1, 2, 3, 5]"
definition ENTRY_TAIL_LEN :: nat where "ENTRY_TAIL_LEN = 2 + 32"
definition NUM_ENTRIES :: nat where "NUM_ENTRIES = 4"
definition MAX_DIGEST_SECTION_BYTES :: nat where
  "MAX_DIGEST_SECTION_BYTES = NUM_ENTRIES * (MAX_CBOR_UINT_BYTES + ENTRY_TAIL_LEN)"

definition TIMESTAMP_LEN :: nat where "TIMESTAMP_LEN = 20"

definition SEG_PREFIX_BASE :: bytes where
  "SEG_PREFIX_BASE = concat [
    [0xa6, 0x67, 0x64, 0x6f, 0x63, 0x54, 0x79, 0x70, 0x65, 0x75, 0x6f, 0x72, 0x67, 0x2e, 0x69, 0x73],
    [0x6f, 0x2e, 0x31, 0x38, 0x30, 0x31, 0x33, 0x2e, 0x35, 0x2e, 0x31, 0x2e, 0x6d, 0x44, 0x4c, 0x67],
    [0x76, 0x65, 0x72, 0x73, 0x69, 0x6f, 0x6e, 0x63, 0x31, 0x2e, 0x30, 0x6c, 0x76, 0x61, 0x6c, 0x69],
    [0x64, 0x69, 0x74, 0x79, 0x49, 0x6e, 0x66, 0x6f, 0xa3, 0x66, 0x73, 0x69, 0x67, 0x6e, 0x65, 0x64],
    [0xc0, 0x74]]"

definition SEG_BETWEEN_SIGNED_VALIDFROM :: bytes where
  "SEG_BETWEEN_SIGNED_VALIDFROM = [0x69, 0x76, 0x61, 0x6c, 0x69, 0x64, 0x46, 0x72, 0x6f, 0x6d, 0xc0, 0x74]"

definition SEG_BETWEEN_VALIDFROM_VALIDUNTIL :: bytes where
  "SEG_BETWEEN_VALIDFROM_VALIDUNTIL = [0x6a, 0x76, 0x61, 0x6c, 0x69, 0x64, 0x55, 0x6e, 0x74, 0x69, 0x6c, 0xc0, 0x74]"

definition SEG_BEFORE_DIGESTS :: bytes where
  "SEG_BEFORE_DIGESTS = concat [
    [0x6c, 0x76, 0x61, 0x6c, 0x75, 0x65, 0x44, 0x69, 0x67, 0x65, 0x73, 0x74, 0x73, 0xa1, 0x71, 0x6f],
    [0x72, 0x67, 0x2e, 0x69, 0x73, 0x6f, 0x2e, 0x31, 0x38, 0x30, 0x31, 0x33, 0x2e, 0x35, 0x2e, 0x31],
    [0xa4]]"

definition SEG_AFTER_DIGESTS :: bytes where
  "SEG_AFTER_DIGESTS = concat [
    [0x6d, 0x64, 0x65, 0x76, 0x69, 0x63, 0x65, 0x4b, 0x65, 0x79, 0x49, 0x6e, 0x66, 0x6f, 0xa1, 0x69],
    [0x64, 0x65, 0x76, 0x69, 0x63, 0x65, 0x4b, 0x65, 0x79, 0xa4, 0x01, 0x02, 0x20, 0x01, 0x21, 0x58],
    [0x20]]"

definition SEG_BETWEEN_XY :: bytes where "SEG_BETWEEN_XY = [0x22, 0x58, 0x20]"

definition SEG_AFTER_DEVICE_KEY :: bytes where
  "SEG_AFTER_DEVICE_KEY = concat [
    [0x6f, 0x64, 0x69, 0x67, 0x65, 0x73, 0x74, 0x41, 0x6c, 0x67, 0x6f, 0x72, 0x69, 0x74, 0x68, 0x6d],
    [0x67, 0x53, 0x48, 0x41, 0x2d, 0x32, 0x35, 0x36]]"

definition PAYLOAD_HEADER_NO_LEN :: bytes where "PAYLOAD_HEADER_NO_LEN = [0xd8, 0x18, 0x59]"
definition PROTECTED_HEADER :: bytes where "PROTECTED_HEADER = [0xa1, 0x01, 0x26]"

definition SIG_STRUCTURE_PREFIX_NO_LEN :: bytes where
  "SIG_STRUCTURE_PREFIX_NO_LEN = concat [
    [0x84, 0x6a, 0x53, 0x69, 0x67, 0x6e, 0x61, 0x74, 0x75, 0x72, 0x65, 0x31, 0x43, 0xa1, 0x01, 0x26],
    [0x40, 0x59]]"

definition prefix_fixed_len :: nat where
  "prefix_fixed_len = length SEG_PREFIX_BASE + TIMESTAMP_LEN + length SEG_BETWEEN_SIGNED_VALIDFROM + TIMESTAMP_LEN
     + length SEG_BETWEEN_VALIDFROM_VALIDUNTIL + TIMESTAMP_LEN + length SEG_BEFORE_DIGESTS"

definition suffix_fixed_len :: nat where
  "suffix_fixed_len = length SEG_AFTER_DIGESTS + 32 + length SEG_BETWEEN_XY + 32 + length SEG_AFTER_DEVICE_KEY"

text \<open>\<open>u16::try_from(n).expect(...)\<close>.\<close>

definition u16_expect :: "nat \<Rightarrow> 16 word option" where
  "u16_expect n = (if n < 65536 then Some (word_of_nat n) else None)"

definition compute_lengths :: "nat \<Rightarrow> (16 word \<times> 16 word) option" where
  "compute_lengths real_digest_section_len =
     (let mso_body_len = prefix_fixed_len + real_digest_section_len + suffix_fixed_len;
          payload_len = length PAYLOAD_HEADER_NO_LEN + 2 + mso_body_len
      in Option.bind (u16_expect mso_body_len) (\<lambda>b. Option.bind (u16_expect payload_len) (\<lambda>p. Some (b, p))))"

definition MAX_SIG_STRUCTURE_BYTES :: nat where
  "MAX_SIG_STRUCTURE_BYTES = length SIG_STRUCTURE_PREFIX_NO_LEN + 2 + length PAYLOAD_HEADER_NO_LEN + 2
     + length SEG_PREFIX_BASE + TIMESTAMP_LEN * 3 + length SEG_BETWEEN_SIGNED_VALIDFROM
     + length SEG_BETWEEN_VALIDFROM_VALIDUNTIL + length SEG_BEFORE_DIGESTS + MAX_DIGEST_SECTION_BYTES
     + length SEG_AFTER_DIGESTS + 32 + length SEG_BETWEEN_XY + 32 + length SEG_AFTER_DEVICE_KEY"

record MsoBodyWitness =
  device_x :: bytes
  device_y :: bytes
  signed_ts :: bytes
  valid_from_ts :: bytes
  valid_until_ts :: bytes

definition make_tail :: "bytes \<Rightarrow> bytes" where
  "make_tail digest = [0x58, 0x20] @ digest"

text \<open>The loop over the entries: each encoded \<open>digestID\<close>, then its tail.\<close>

fun native_entries :: "(u32 \<times> bytes) list \<Rightarrow> bytes option" where
  "native_entries [] = Some []"
| "native_entries ((i, tail) # rest) =
     Option.bind (encode_cbor_uint i) (\<lambda>e. Option.bind (native_entries rest) (\<lambda>out. Some (e @ tail @ out)))"

definition native_mso_sig_structure_bytes :: "bytes \<Rightarrow> u32 list \<Rightarrow> bytes list \<Rightarrow> bytes \<Rightarrow> bytes option" where
  "native_mso_sig_structure_bytes prefix digest_ids tails suffix =
     map_option (\<lambda>out. prefix @ out @ suffix) (native_entries (zip digest_ids tails))"

text \<open>The sum of the widths of the encoded \<open>digestID\<close>s.\<close>

fun encoded_widths :: "u32 list \<Rightarrow> nat option" where
  "encoded_widths [] = Some 0"
| "encoded_widths (i # ids) =
     Option.bind (encode_cbor_uint i) (\<lambda>e. Option.bind (encoded_widths ids) (\<lambda>n. Some (length e + n)))"

definition sig_prefix :: "16 word \<Rightarrow> 16 word \<Rightarrow> MsoBodyWitness \<Rightarrow> bytes" where
  "sig_prefix mso_body_len payload_len body = concat [
     SIG_STRUCTURE_PREFIX_NO_LEN, be_bytes 2 (unat payload_len), PAYLOAD_HEADER_NO_LEN, be_bytes 2 (unat mso_body_len),
     SEG_PREFIX_BASE, signed_ts body, SEG_BETWEEN_SIGNED_VALIDFROM, valid_from_ts body,
     SEG_BETWEEN_VALIDFROM_VALIDUNTIL, valid_until_ts body, SEG_BEFORE_DIGESTS]"

definition sig_suffix :: "MsoBodyWitness \<Rightarrow> bytes" where
  "sig_suffix body = concat [SEG_AFTER_DIGESTS, device_x body, SEG_BETWEEN_XY, device_y body, SEG_AFTER_DEVICE_KEY]"

definition native_sig_structure_bytes :: "u32 list \<Rightarrow> bytes list \<Rightarrow> MsoBodyWitness \<Rightarrow> bytes option" where
  "native_sig_structure_bytes digest_ids claim_digests body =
     (if length claim_digests = NUM_ENTRIES then
        Option.bind (encoded_widths digest_ids) (\<lambda>widths.
        Option.bind (compute_lengths (widths + NUM_ENTRIES * ENTRY_TAIL_LEN)) (\<lambda>(mso_body_len, payload_len).
        native_mso_sig_structure_bytes (sig_prefix mso_body_len payload_len body) digest_ids (map make_tail claim_digests)
          (sig_suffix body)))
      else None)"

section \<open>The template is CBOR\<close>

definition mso_value :: "u32 list \<Rightarrow> bytes list \<Rightarrow> MsoBodyWitness \<Rightarrow> val" where
  "mso_value ids digests body = vrecord [
     (ascii ''docType'', Text (ascii ''org.iso.18013.5.1.mDL'')),
     (ascii ''version'', Text (ascii ''1.0'')),
     (ascii ''validityInfo'', vrecord [
       (ascii ''signed'', Tag 0 (Text (signed_ts body))),
       (ascii ''validFrom'', Tag 0 (Text (valid_from_ts body))),
       (ascii ''validUntil'', Tag 0 (Text (valid_until_ts body)))]),
     (ascii ''valueDigests'', vrecord [
       (ascii ''org.iso.18013.5.1'', VMap (zip (map (\<lambda>i. Unsigned (unat i)) ids) (map Bytes digests)))]),
     (ascii ''deviceKeyInfo'', vrecord [
       (ascii ''deviceKey'', VMap [
         (Unsigned 1, Unsigned 2), (Negative 0, Unsigned 1),
         (Negative 1, Bytes (device_x body)), (Negative 2, Bytes (device_y body))])]),
     (ascii ''digestAlgorithm'', Text (ascii ''SHA-256''))]"

definition sig_structure_value :: "u32 list \<Rightarrow> bytes list \<Rightarrow> MsoBodyWitness \<Rightarrow> val" where
  "sig_structure_value ids digests body = Array [
     Text (ascii ''Signature1''), Bytes PROTECTED_HEADER, Bytes [],
     Bytes (encode (Tag 24 (Bytes (encode (mso_value ids digests body)))))]"

definition mso_inputs_ok :: "u32 list \<Rightarrow> bytes list \<Rightarrow> MsoBodyWitness \<Rightarrow> bool" where
  "mso_inputs_ok ids digests body \<longleftrightarrow>
     length ids = NUM_ENTRIES \<and> length digests = NUM_ENTRIES \<and>
     list_all (\<lambda>i. unat i < 2 ^ 31) ids \<and> list_all (\<lambda>d. length d = 32) digests \<and>
     length (device_x body) = 32 \<and> length (device_y body) = 32 \<and> length (signed_ts body) = TIMESTAMP_LEN \<and>
     length (valid_from_ts body) = TIMESTAMP_LEN \<and> length (valid_until_ts body) = TIMESTAMP_LEN"

lemma segment_bytes:
  "SEG_PREFIX_BASE = head 5 6 @ head 3 7 @ ascii ''docType'' @ head 3 21 @ ascii ''org.iso.18013.5.1.mDL'' @
     head 3 7 @ ascii ''version'' @ head 3 3 @ ascii ''1.0'' @ head 3 12 @ ascii ''validityInfo'' @ head 5 3 @
     head 3 6 @ ascii ''signed'' @ head 6 0 @ head 3 20"
  "SEG_BETWEEN_SIGNED_VALIDFROM = head 3 9 @ ascii ''validFrom'' @ head 6 0 @ head 3 20"
  "SEG_BETWEEN_VALIDFROM_VALIDUNTIL = head 3 10 @ ascii ''validUntil'' @ head 6 0 @ head 3 20"
  "SEG_BEFORE_DIGESTS = head 3 12 @ ascii ''valueDigests'' @ head 5 1 @ head 3 17 @ ascii ''org.iso.18013.5.1'' @ head 5 4"
  "SEG_AFTER_DIGESTS = head 3 13 @ ascii ''deviceKeyInfo'' @ head 5 1 @ head 3 9 @ ascii ''deviceKey'' @ head 5 4 @
     head 0 1 @ head 0 2 @ head 1 0 @ head 0 1 @ head 1 1 @ head 2 32"
  "SEG_BETWEEN_XY = head 1 2 @ head 2 32"
  "SEG_AFTER_DEVICE_KEY = head 3 15 @ ascii ''digestAlgorithm'' @ head 3 7 @ ascii ''SHA-256''"
  "PAYLOAD_HEADER_NO_LEN = head 6 24 @ [0x59]"
  "SIG_STRUCTURE_PREFIX_NO_LEN = head 4 4 @ head 3 10 @ ascii ''Signature1'' @ head 2 3 @ PROTECTED_HEADER @ head 2 0 @ [0x59]"
  by code_simp+

lemma length_segments [simp]:
  "length SEG_PREFIX_BASE = 66" "length SEG_BETWEEN_SIGNED_VALIDFROM = 12" "length SEG_BETWEEN_VALIDFROM_VALIDUNTIL = 13"
  "length SEG_BEFORE_DIGESTS = 33" "length SEG_AFTER_DIGESTS = 33" "length SEG_BETWEEN_XY = 3" "length SEG_AFTER_DEVICE_KEY = 24"
  "length PAYLOAD_HEADER_NO_LEN = 3" "length SIG_STRUCTURE_PREFIX_NO_LEN = 18"
  by code_simp+

lemma fixed_lens: "prefix_fixed_len = 184" "suffix_fixed_len = 124" "MAX_SIG_STRUCTURE_BYTES = 489"
  by (simp_all add: prefix_fixed_len_def suffix_fixed_len_def MAX_SIG_STRUCTURE_BYTES_def TIMESTAMP_LEN_def
      MAX_DIGEST_SECTION_BYTES_def NUM_ENTRIES_def MAX_CBOR_UINT_BYTES_def ENTRY_TAIL_LEN_def)

lemma encoded_entries:
  assumes "list_all (\<lambda>i. unat i < 2 ^ 31) ids" "list_all (\<lambda>d. length d = 32) digests" "length ids = length digests"
  shows "\<exists>n out. encoded_widths ids = Some n \<and> length ids \<le> n \<and> n \<le> 5 * length ids \<and>
    native_entries (zip ids (map make_tail digests)) = Some out \<and> length out = n + 34 * length ids \<and>
    out = concat (map (\<lambda>e. encode (fst e) @ encode (snd e)) (zip (map (\<lambda>i. Unsigned (unat i)) ids) (map Bytes digests)))"
  using assms
proof (induction ids arbitrary: digests)
  case (Cons i ids)
  obtain d ds where d: "digests = d # ds" using Cons.prems by (cases digests) auto
  have e: "encode_cbor_uint i = Some (head 0 (unat i))"
    using Cons.prems by (intro encode_cbor_uint_head) (simp add: digest_id_le)
  have "1 \<le> length (head 0 (unat i))" "length (head 0 (unat i)) \<le> 5"
    using Cons.prems by (simp_all add: head_def)
  moreover have "make_tail d = head 2 32 @ d" by (simp add: make_tail_def head_def)
  moreover have "length d = 32" using Cons.prems d by simp
  moreover obtain n out where "encoded_widths ids = Some n" "length ids \<le> n" "n \<le> 5 * length ids"
    "native_entries (zip ids (map make_tail ds)) = Some out" "length out = n + 34 * length ids"
    "out = concat (map (\<lambda>e. encode (fst e) @ encode (snd e)) (zip (map (\<lambda>i. Unsigned (unat i)) ids) (map Bytes ds)))"
    using Cons.IH [of ds] Cons.prems d by auto
  moreover have "length (head 2 32) = 2" by (simp add: head_def)
  ultimately show ?case using e d by simp
qed simp

lemma mso_body_encoding:
  assumes "mso_inputs_ok ids digests body"
    and "native_entries (zip ids (map make_tail digests)) = Some out"
    and "out = concat (map (\<lambda>e. encode (fst e) @ encode (snd e)) (zip (map (\<lambda>i. Unsigned (unat i)) ids) (map Bytes digests)))"
  shows "encode (mso_value ids digests body) = SEG_PREFIX_BASE @ signed_ts body @ SEG_BETWEEN_SIGNED_VALIDFROM @
    valid_from_ts body @ SEG_BETWEEN_VALIDFROM_VALIDUNTIL @ valid_until_ts body @ SEG_BEFORE_DIGESTS @ out @ sig_suffix body"
proof -
  have l: "length ids = 4" "length digests = 4" "length (device_x body) = 32" "length (device_y body) = 32"
    "length (signed_ts body) = 20" "length (valid_from_ts body) = 20" "length (valid_until_ts body) = 20"
    using assms(1) by (simp_all add: mso_inputs_ok_def NUM_ENTRIES_def TIMESTAMP_LEN_def)
  show ?thesis
    unfolding mso_value_def vrecord_def vtext_def segment_bytes sig_suffix_def assms(3)
    by (simp add: l eval_nat_numeral)
qed

lemma head_two_bytes: "256 \<le> n \<Longrightarrow> n < 65536 \<Longrightarrow> head 2 n = 0x59 # be_bytes 2 n"
  by (simp add: head_def)

lemma u16_expect_small: "n < 65536 \<Longrightarrow> u16_expect n = Some (word_of_nat n) \<and> unat (word_of_nat n :: 16 word) = n"
  by (simp add: u16_expect_def unat_of_nat)

lemma native_sig_structure_encodes:
  assumes "mso_inputs_ok ids digests body"
  shows "native_sig_structure_bytes ids digests body = Some (encode (sig_structure_value ids digests body)) \<and>
    length (encode (sig_structure_value ids digests body)) \<le> MAX_SIG_STRUCTURE_BYTES"
proof -
  have l: "length ids = 4" "length digests = 4" "length (device_x body) = 32" "length (device_y body) = 32"
    "length (signed_ts body) = 20" "length (valid_from_ts body) = 20" "length (valid_until_ts body) = 20"
    using assms by (simp_all add: mso_inputs_ok_def NUM_ENTRIES_def TIMESTAMP_LEN_def)
  obtain n out where n: "encoded_widths ids = Some n" "4 \<le> n" "n \<le> 20"
    and out: "native_entries (zip ids (map make_tail digests)) = Some out" "length out = n + 136"
      "out = concat (map (\<lambda>e. encode (fst e) @ encode (snd e)) (zip (map (\<lambda>i. Unsigned (unat i)) ids) (map Bytes digests)))"
    using encoded_entries [of ids digests] assms l by (auto simp: mso_inputs_ok_def)
  define mso where "mso = encode (mso_value ids digests body)"
  note body = mso_body_encoding [OF assms out(1,3), folded mso_def]
  define L where "L = length mso"
  have len: "L = n + 444" using body out(2) l by (simp add: L_def sig_suffix_def)
  have lens: "compute_lengths (n + NUM_ENTRIES * ENTRY_TAIL_LEN) = Some (word_of_nat L, word_of_nat (L + 5))"
    using n(3) by (simp add: compute_lengths_def fixed_lens u16_expect_small NUM_ENTRIES_def ENTRY_TAIL_LEN_def len)
  have sizes: "unat (word_of_nat L :: 16 word) = L" "unat (word_of_nat (L + 5) :: 16 word) = L + 5"
    using n(3) len u16_expect_small [of L] u16_expect_small [of "L + 5"] by simp_all
  have "native_sig_structure_bytes ids digests body = Some (sig_prefix (word_of_nat L) (word_of_nat (L + 5)) body @ out @ sig_suffix body)"
    using n(1) lens out(1) l by (simp add: native_sig_structure_bytes_def NUM_ENTRIES_def native_mso_sig_structure_bytes_def)
  then have native: "native_sig_structure_bytes ids digests body =
      Some (SIG_STRUCTURE_PREFIX_NO_LEN @ be_bytes 2 (L + 5) @ PAYLOAD_HEADER_NO_LEN @ be_bytes 2 L @ mso)"
    unfolding sig_prefix_def sizes body by simp
  have payload: "encode (Tag 24 (Bytes mso)) = PAYLOAD_HEADER_NO_LEN @ be_bytes 2 L @ mso"
    using len n(2,3) by (simp add: segment_bytes head_two_bytes flip: L_def)
  then have "length (encode (Tag 24 (Bytes mso))) = L + 5" by (simp add: L_def del: encode.simps)
  then have "encode (sig_structure_value ids digests body) =
      SIG_STRUCTURE_PREFIX_NO_LEN @ be_bytes 2 (L + 5) @ encode (Tag 24 (Bytes mso))"
    using len n(2,3) unfolding sig_structure_value_def mso_def [symmetric]
    by (simp add: segment_bytes head_two_bytes PROTECTED_HEADER_def del: encode.simps(7)) (simp add: eval_nat_numeral)
  then show ?thesis using native payload len n(3) by (simp add: fixed_lens del: encode.simps flip: L_def)
qed

section \<open>The bytes determine the credential\<close>

lemma native_entries_inj:
  assumes "native_entries (zip ids (map make_tail ds)) = Some out" "native_entries (zip ids' (map make_tail ds')) = Some out'"
    and "out @ rest = out' @ rest'" "length ids = length ds" "length ids' = length ds'" "length ids = length ids'"
    and "list_all (\<lambda>d. length d = 32) ds" "list_all (\<lambda>d. length d = 32) ds'"
  shows "ids = ids' \<and> ds = ds' \<and> rest = rest'"
  using assms
proof (induction ids arbitrary: ds ids' ds' out out')
  case (Cons i ids)
  obtain d ds1 where d: "ds = d # ds1" using Cons.prems(4) by (cases ds) auto
  obtain i' ids1' where i': "ids' = i' # ids1'" using Cons.prems(6) by (cases ids') auto
  obtain d' ds1' where d': "ds' = d' # ds1'" using Cons.prems(5) i' by (cases ds') auto
  obtain e o1 where e: "encode_cbor_uint i = Some e" "native_entries (zip ids (map make_tail ds1)) = Some o1" "out = e @ make_tail d @ o1"
    using Cons.prems(1) d by (auto simp: bind_eq_Some_conv)
  obtain e' o1' where e': "encode_cbor_uint i' = Some e'" "native_entries (zip ids1' (map make_tail ds1')) = Some o1'" "out' = e' @ make_tail d' @ o1'"
    using Cons.prems(2) d' i' by (auto simp: bind_eq_Some_conv)
  have "i = i' \<and> length e = length e'"
    using decode_encode_cbor_uint [OF e(1), of "make_tail d @ o1 @ rest"]
      decode_encode_cbor_uint [OF e'(1), of "make_tail d' @ o1' @ rest'"] Cons.prems(3) e(3) e'(3) by simp
  moreover from this have "e = e'" using e(1) e'(1) by simp
  moreover have "length (make_tail d) = length (make_tail d')" using Cons.prems d d' by (simp add: make_tail_def)
  ultimately have "i = i'" "make_tail d = make_tail d'" "o1 @ rest = o1' @ rest'" using Cons.prems(3) e(3) e'(3) by auto
  then show ?case using Cons.IH [OF e(2) e'(2)] Cons.prems d d' i' by (simp add: make_tail_def)
qed simp

lemma native_sig_structure_parts:
  assumes "mso_inputs_ok ids ds body"
  obtains b p out where "native_sig_structure_bytes ids ds body = Some (sig_prefix b p body @ out @ sig_suffix body)"
    "native_entries (zip ids (map make_tail ds)) = Some out"
proof -
  obtain s where s: "native_sig_structure_bytes ids ds body = Some s" using native_sig_structure_encodes [OF assms] by blast
  then show ?thesis
    by (auto simp: native_sig_structure_bytes_def native_mso_sig_structure_bytes_def bind_eq_Some_conv split: if_splits intro: that)
qed

lemma native_sig_structure_inj:
  assumes ok: "mso_inputs_ok ids ds body" "mso_inputs_ok ids' ds' body'"
    and eq: "native_sig_structure_bytes ids ds body = native_sig_structure_bytes ids' ds' body'"
  shows "ids = ids' \<and> ds = ds' \<and> body = body'"
proof -
  obtain b p out where out: "native_sig_structure_bytes ids ds body = Some (sig_prefix b p body @ out @ sig_suffix body)"
    "native_entries (zip ids (map make_tail ds)) = Some out" by (rule native_sig_structure_parts [OF ok(1)])
  obtain b' p' out' where out': "native_sig_structure_bytes ids' ds' body' = Some (sig_prefix b' p' body' @ out' @ sig_suffix body')"
    "native_entries (zip ids' (map make_tail ds')) = Some out'" by (rule native_sig_structure_parts [OF ok(2)])
  have l: "length (signed_ts body) = length (signed_ts body')" "length (valid_from_ts body) = length (valid_from_ts body')"
    "length (valid_until_ts body) = length (valid_until_ts body')" "length (device_x body) = length (device_x body')"
    "length (device_y body) = length (device_y body')"
    using ok by (simp_all add: mso_inputs_ok_def)
  have "length (sig_prefix b p body) = length (sig_prefix b' p' body')" by (simp add: sig_prefix_def l)
  then have "sig_prefix b p body = sig_prefix b' p' body'" "out @ sig_suffix body = out' @ sig_suffix body'"
    using out(1) out'(1) eq by simp_all
  moreover from this(2) have "ids = ids' \<and> ds = ds' \<and> sig_suffix body = sig_suffix body'"
    using ok by (intro native_entries_inj [OF out(2) out'(2)]) (simp_all add: mso_inputs_ok_def)
  ultimately show ?thesis by (auto simp: sig_prefix_def sig_suffix_def l intro: MsoBodyWitness.equality)
qed

section \<open>Property\<close>

text \<open>
  C9. For four legal \<open>digestID\<close>s, four digests and a body of the fixed lengths, the template never panics: its
  bytes are the canonical CBOR encoding of the COSE \<open>Sig_structure\<close> around the mobile security object, with
  both lengths right, within the maximum that the circuits reserve. No other identifiers, digests, device key
  or timestamps give the same bytes.
\<close>

theorem sig_structure_is_cose:
  assumes "mso_inputs_ok ids digests body"
  shows "native_sig_structure_bytes ids digests body = Some (encode (sig_structure_value ids digests body)) \<and>
    length (encode (sig_structure_value ids digests body)) \<le> MAX_SIG_STRUCTURE_BYTES \<and>
    (\<forall>ids' digests' body'. mso_inputs_ok ids' digests' body' \<longrightarrow>
       native_sig_structure_bytes ids' digests' body' = native_sig_structure_bytes ids digests body \<longrightarrow>
       ids' = ids \<and> digests' = digests \<and> body' = body)"
  using native_sig_structure_encodes [OF assms] native_sig_structure_inj [OF _ assms] by blast

definition example_body :: MsoBodyWitness where
  "example_body = \<lparr>device_x = replicate 32 1, device_y = replicate 32 2, signed_ts = ascii ''2026-08-20T00:00:00Z'',
     valid_from_ts = ascii ''2026-08-20T00:00:00Z'', valid_until_ts = ascii ''2036-08-20T00:00:00Z''\<rparr>"

lemma example_body_ok: "mso_inputs_ok [0, 24, 256, 70000] (replicate 4 (replicate 32 7)) example_body"
  by (simp add: mso_inputs_ok_def example_body_def NUM_ENTRIES_def TIMESTAMP_LEN_def list_all_iff)

theorem sig_structure_is_cose_witness:
  "native_sig_structure_bytes [0, 24, 256, 70000] (replicate 4 (replicate 32 7)) example_body =
     Some (encode (sig_structure_value [0, 24, 256, 70000] (replicate 4 (replicate 32 7)) example_body)) \<and>
   length (encode (sig_structure_value [0, 24, 256, 70000] (replicate 4 (replicate 32 7)) example_body)) \<le> MAX_SIG_STRUCTURE_BYTES"
  using sig_structure_is_cose [OF example_body_ok] by blast

end
