(* ===== verification/Claims.thy ===== *)
theory Claims
  imports Mso Bits
begin

text \<open>
  Selective disclosure outside the rules (\<open>lib.rs\<close>, and the native part of \<open>mdoc_core.rs\<close>): the claims widened
  to the circuit's width, the public values of both circuits, the calls of the prover, and the verifier's
  check that binds the steps to the core. The hash \<open>sha\<close>, the prover and the source of randomness are
  parameters. A panic is the error \<open>Circuit Panicked\<close>; the lemmas show that the check never gives it.
\<close>

section \<open>Claims and circuits\<close>

definition MAX_CLAIMS_V1 :: nat where "MAX_CLAIMS_V1 = 4"
definition MAX_VAR_MESSAGE_BYTES :: nat where "MAX_VAR_MESSAGE_BYTES = 176"
definition MAX_CLAIM_BYTES_V1 :: nat where "MAX_CLAIM_BYTES_V1 = MAX_VAR_MESSAGE_BYTES"
definition REAL_LEN_BITS :: nat where "REAL_LEN_BITS = 8"
definition BLIND_NONCE_BYTES :: nat where "BLIND_NONCE_BYTES = 23"

lemmas claim_consts = MAX_CLAIMS_V1_def MAX_VAR_MESSAGE_BYTES_def MAX_CLAIM_BYTES_V1_def REAL_LEN_BITS_def BLIND_NONCE_BYTES_def

datatype ('e, 'r) VegaMdocError =
    TooManyClaims nat nat
  | ClaimTooLong nat nat
  | CircuitError synth_error
  | Vega 'e
  | Rng 'r

record ClaimWitness =
  cw_bytes :: bytes
  cw_disclose :: bool
  cw_digest_id :: u32

record ClaimDigestStepCircuit =
  sc_bytes :: bytes
  sc_real_len :: nat
  sc_disclose :: bool
  sc_digest_id :: u32
  sc_nonce :: bytes

definition step_circuit_new :: "bytes \<Rightarrow> nat \<Rightarrow> bool \<Rightarrow> u32 \<Rightarrow> bytes \<Rightarrow> ('e, 'r) VegaMdocError + ClaimDigestStepCircuit" where
  "step_circuit_new bs real_len disclose digest_id nonce =
     rbind (guard (CircuitError Panicked) (length bs = MAX_CLAIM_BYTES_V1)) (\<lambda>_.
     rbind (guard (CircuitError Panicked) (real_len \<le> MAX_CLAIM_BYTES_V1)) (\<lambda>_.
     Inr \<lparr>sc_bytes = bs, sc_real_len = real_len, sc_disclose = disclose, sc_digest_id = digest_id, sc_nonce = nonce\<rparr>))"

definition digest_bytes :: "(bytes \<Rightarrow> bytes) \<Rightarrow> ClaimDigestStepCircuit \<Rightarrow> bytes" where
  "digest_bytes sha c = sha (take (sc_real_len c) (sc_bytes c))"

definition blind_digest_bytes :: "(bytes \<Rightarrow> bytes) \<Rightarrow> bytes \<Rightarrow> bytes \<Rightarrow> bytes" where
  "blind_digest_bytes sha digest nonce = sha (digest @ nonce)"

definition bytes_to_bool_bits :: "bytes \<Rightarrow> bool list" where
  "bytes_to_bool_bits bs = concat (map (\<lambda>b. map (bit b) (rev [0..<8])) bs)"

definition blinded_digest_bits :: "(bytes \<Rightarrow> bytes) \<Rightarrow> ClaimDigestStepCircuit \<Rightarrow> bool list" where
  "blinded_digest_bits sha c = bytes_to_bool_bits (blind_digest_bytes sha (digest_bytes sha c) (sc_nonce c))"

definition native_u32_to_bits :: "u32 \<Rightarrow> 'f::field list" where
  "native_u32_to_bits v = map (\<lambda>i. if bit v (31 - i) then 1 else 0) [0..<32]"

definition native_bytes_to_bits :: "bytes \<Rightarrow> 'f::field list" where
  "native_bytes_to_bits bs = map (\<lambda>b. if b then 1 else 0) (concat (map (\<lambda>b. map (bit b) (rev [0..<8])) bs))"

definition claim_step_public_values :: "(bytes \<Rightarrow> bytes) \<Rightarrow> ClaimDigestStepCircuit \<Rightarrow> 'f::field list" where
  "claim_step_public_values sha c =
     (let len_byte = (if sc_disclose c then word_of_nat (sc_real_len c) else 0) :: byte
      in map (\<lambda>b. if b then 1 else 0) (blinded_digest_bits sha c) @ [if sc_disclose c then 1 else 0] @
         map (\<lambda>i. if bit len_byte i then 1 else 0) (rev [0..<REAL_LEN_BITS]) @ native_u32_to_bits (sc_digest_id c))"

record 'f MdocEcdsaWitness =
  ew_qx :: 'f
  ew_qy :: 'f
  ew_r :: int
  ew_s :: int
  ew_s_inv :: int

record 'f MdocCoreCircuit =
  cc_qx :: 'f
  cc_qy :: 'f
  cc_r :: int
  cc_s :: int
  cc_s_inv :: int
  cc_digest_ids :: "u32 list"
  cc_claim_digests :: "bytes list"
  cc_mso_body :: MsoBodyWitness
  cc_nonce :: bytes

definition core_circuit_new ::
  "'f \<Rightarrow> 'f \<Rightarrow> int \<Rightarrow> int \<Rightarrow> int \<Rightarrow> u32 list \<Rightarrow> bytes list \<Rightarrow> MsoBodyWitness \<Rightarrow> bytes \<Rightarrow> 'f MdocCoreCircuit" where
  "core_circuit_new qx qy r s s_inv digest_ids claim_digests mso_body nonce =
     \<lparr>cc_qx = qx, cc_qy = qy, cc_r = r, cc_s = s, cc_s_inv = s_inv, cc_digest_ids = digest_ids,
      cc_claim_digests = claim_digests, cc_mso_body = mso_body, cc_nonce = nonce\<rparr>"

definition claim_core_public_values :: "(bytes \<Rightarrow> bytes) \<Rightarrow> 'f::field MdocCoreCircuit \<Rightarrow> 'f list" where
  "claim_core_public_values sha c =
     [cc_qx c, cc_qy c] @ native_bytes_to_bits (cc_nonce c) @
     native_bytes_to_bits (device_x (cc_mso_body c)) @ native_bytes_to_bits (device_y (cc_mso_body c)) @
     native_bytes_to_bits (signed_ts (cc_mso_body c)) @ native_bytes_to_bits (valid_from_ts (cc_mso_body c)) @
     native_bytes_to_bits (valid_until_ts (cc_mso_body c)) @
     concat (map native_u32_to_bits (cc_digest_ids c)) @
     concat (map (\<lambda>digest. native_bytes_to_bits (blind_digest_bytes sha digest (cc_nonce c))) (cc_claim_digests c))"

section \<open>Proving\<close>

record PaddedClaim =
  pc_bytes :: bytes
  pc_real_len :: nat
  pc_disclose :: bool
  pc_digest_id :: u32

definition fixed_width_claim_bytes :: "bytes \<Rightarrow> ('e, 'r) VegaMdocError + bytes \<times> nat" where
  "fixed_width_claim_bytes bs =
     (if MAX_CLAIM_BYTES_V1 < length bs then Inl (ClaimTooLong MAX_CLAIM_BYTES_V1 (length bs))
      else Inr (bs @ replicate (MAX_CLAIM_BYTES_V1 - length bs) 0, length bs))"

definition pad_claims :: "ClaimWitness list \<Rightarrow> ('e, 'r) VegaMdocError + PaddedClaim list" where
  "pad_claims claims =
     (if MAX_CLAIMS_V1 < length claims then Inl (TooManyClaims MAX_CLAIMS_V1 (length claims))
      else rbind (map_result (\<lambda>c. rbind (fixed_width_claim_bytes (cw_bytes c)) (\<lambda>(bs, real_len).
              Inr \<lparr>pc_bytes = bs, pc_real_len = real_len, pc_disclose = cw_disclose c, pc_digest_id = cw_digest_id c\<rparr>)) claims)
            (\<lambda>padded. Inr (padded @ replicate (MAX_CLAIMS_V1 - length padded)
              \<lparr>pc_bytes = replicate MAX_CLAIM_BYTES_V1 0, pc_real_len = 0, pc_disclose = False, pc_digest_id = 0\<rparr>)))"

definition claim_digest_bytes :: "(bytes \<Rightarrow> bytes) \<Rightarrow> bytes \<Rightarrow> bytes" where
  "claim_digest_bytes sha bs = sha bs"

definition core_digest_ids :: "ClaimWitness list \<Rightarrow> ('e, 'r) VegaMdocError + u32 list" where
  "core_digest_ids claims = rbind (pad_claims claims) (\<lambda>padded. Inr (map (\<lambda>i. pc_digest_id (padded ! i)) [0..<MAX_CLAIMS_V1]))"

definition core_claim_digests :: "(bytes \<Rightarrow> bytes) \<Rightarrow> ClaimWitness list \<Rightarrow> ('e, 'r) VegaMdocError + bytes list" where
  "core_claim_digests sha claims =
     rbind (pad_claims claims) (\<lambda>padded. Inr (map (\<lambda>c. claim_digest_bytes sha (take (pc_real_len c) (pc_bytes c))) padded))"

text \<open>The circuits that \<open>prep_prove\<close> and \<open>prove\<close> both build.\<close>

definition claim_circuits ::
  "(bytes \<Rightarrow> bytes) \<Rightarrow> ClaimWitness list \<Rightarrow> 'f MdocEcdsaWitness \<Rightarrow> MsoBodyWitness \<Rightarrow> bytes \<Rightarrow>
    ('e, 'r) VegaMdocError + ClaimDigestStepCircuit list \<times> 'f MdocCoreCircuit" where
  "claim_circuits sha claims w mso_body nonce =
     rbind (pad_claims claims) (\<lambda>padded.
     rbind (map_result (\<lambda>c. step_circuit_new (pc_bytes c) (pc_real_len c) (pc_disclose c) (pc_digest_id c) nonce) padded) (\<lambda>steps.
     rbind (core_digest_ids claims) (\<lambda>digest_ids.
     rbind (core_claim_digests sha claims) (\<lambda>claim_digests.
     Inr (steps, core_circuit_new (ew_qx w) (ew_qy w) (ew_r w) (ew_s w) (ew_s_inv w) digest_ids claim_digests mso_body nonce)))))"

text \<open>The prover's crate, as far as the calls use it.\<close>

record ('pk, 'vk, 'prep, 'proof, 'f, 'e) vega_mc =
  mc_setup :: "ClaimDigestStepCircuit \<Rightarrow> 'f MdocCoreCircuit \<Rightarrow> nat \<Rightarrow> 'e + 'pk \<times> 'vk"
  mc_prep_prove :: "'pk \<Rightarrow> ClaimDigestStepCircuit list \<Rightarrow> 'f MdocCoreCircuit \<Rightarrow> 'e + 'prep"
  mc_prove :: "'pk \<Rightarrow> ClaimDigestStepCircuit list \<Rightarrow> 'f MdocCoreCircuit \<Rightarrow> 'prep \<Rightarrow> 'e + 'proof \<times> 'prep"
  mc_verify :: "'proof \<Rightarrow> 'vk \<Rightarrow> nat \<Rightarrow> 'e + 'f list list \<times> 'f list"

definition setup_prototype_ecdsa_witness :: "'f::field MdocEcdsaWitness" where
  "setup_prototype_ecdsa_witness =
     \<lparr>ew_qx = of_nat 51206722373641483558790322998827362250192835690568432297698399643535245670501,
      ew_qy = of_nat 107332639522564059748513735225121084070027309383763098932131650999881938986788,
      ew_r = 111142013211556514970479643709817588854004335857781381385833107319892960023198,
      ew_s = 76862587808802066344087557197401376424252937358072577297572652819487433674663,
      ew_s_inv = 78445439557468585260457937215718822506055505801566399563185238095534357761252\<rparr>"

definition setup_prototype_mso_body :: MsoBodyWitness where
  "setup_prototype_mso_body =
     \<lparr>device_x = replicate 32 0, device_y = replicate 32 0, signed_ts = ascii ''2026-08-20T00:00:00Z'',
      valid_from_ts = ascii ''2026-08-20T00:00:00Z'', valid_until_ts = ascii ''2036-08-20T00:00:00Z''\<rparr>"

definition claim_setup :: "('pk, 'vk, 'prep, 'proof, 'f::field, 'e) vega_mc \<Rightarrow> ('e, 'r) VegaMdocError + 'pk \<times> 'vk" where
  "claim_setup V =
     (let proto_nonce = replicate BLIND_NONCE_BYTES 0; w = setup_prototype_ecdsa_witness
      in rbind (step_circuit_new (replicate MAX_CLAIM_BYTES_V1 0) 0 False 0 proto_nonce) (\<lambda>step_proto.
         map_err Vega (mc_setup V step_proto
           (core_circuit_new (ew_qx w) (ew_qy w) (ew_r w) (ew_s w) (ew_s_inv w) (replicate MAX_CLAIMS_V1 0)
             (replicate MAX_CLAIMS_V1 (replicate 32 0)) setup_prototype_mso_body proto_nonce)
           MAX_CLAIMS_V1)))"

definition fresh_nonce :: "'r + bytes \<Rightarrow> ('e, 'r) VegaMdocError + bytes" where
  "fresh_nonce getrandom = map_err Rng getrandom"

definition claim_prep_prove ::
  "('pk, 'vk, 'prep, 'proof, 'f::field, 'e) vega_mc \<Rightarrow> (bytes \<Rightarrow> bytes) \<Rightarrow> 'pk \<Rightarrow> ClaimWitness list \<Rightarrow> 'f MdocEcdsaWitness \<Rightarrow>
    MsoBodyWitness \<Rightarrow> bytes \<Rightarrow> ('e, 'r) VegaMdocError + 'prep" where
  "claim_prep_prove V sha pk claims w mso_body nonce =
     rbind (claim_circuits sha claims w mso_body nonce) (\<lambda>(steps, core). map_err Vega (mc_prep_prove V pk steps core))"

definition claim_prove ::
  "('pk, 'vk, 'prep, 'proof, 'f::field, 'e) vega_mc \<Rightarrow> (bytes \<Rightarrow> bytes) \<Rightarrow> 'pk \<Rightarrow> ClaimWitness list \<Rightarrow> 'f MdocEcdsaWitness \<Rightarrow>
    MsoBodyWitness \<Rightarrow> 'prep \<Rightarrow> bytes \<Rightarrow> ('e, 'r) VegaMdocError + 'proof \<times> 'prep" where
  "claim_prove V sha pk claims w mso_body prep nonce =
     rbind (claim_circuits sha claims w mso_body nonce) (\<lambda>(steps, core). map_err Vega (mc_prove V pk steps core prep))"

definition claim_verify ::
  "('pk, 'vk, 'prep, 'proof, 'f::field, 'e) vega_mc \<Rightarrow> 'proof \<Rightarrow> 'vk \<Rightarrow> ('e, 'r) VegaMdocError + 'f list list \<times> 'f list" where
  "claim_verify V proof vk = map_err Vega (mc_verify V proof vk MAX_CLAIMS_V1)"

section \<open>The verifier's check\<close>

definition all_boolean :: "'f::field list \<Rightarrow> bool" where
  "all_boolean vs = list_all (\<lambda>v. v = 1 \<or> v = 0) vs"

definition bits_to_bytes :: "'f::field list \<Rightarrow> bytes" where
  "bits_to_bytes bs =
     map (\<lambda>byte_bits. fold (\<lambda>(i, b) byte. if b = 1 then byte OR push_bit (7 - i) 1 else byte) (enumerate 0 byte_bits) 0)
       (chunks 8 bs)"

record DisclosedClaim =
  dc_disclosed :: bool
  dc_digest :: bytes
  dc_real_len :: nat
  dc_plaintext :: bytes
  dc_digest_id :: u32

record 'f VerifiedPresentation =
  vp_qx :: 'f
  vp_qy :: 'f
  vp_claims :: "DisclosedClaim list"
  vp_device_x :: bytes
  vp_device_y :: bytes
  vp_signed_ts :: bytes
  vp_valid_from_ts :: bytes
  vp_valid_until_ts :: bytes

text \<open>The closure \<open>take\<close>, which moves the cursor over \<open>core_public_values\<close>; a slice out of range panics.\<close>

fun take_slices :: "nat list \<Rightarrow> 'a list \<Rightarrow> ('e, 'r) VegaMdocError + 'a list list" where
  "take_slices [] vs = Inr []"
| "take_slices (n # ks) vs =
     (if n \<le> length vs then rbind (take_slices ks (drop n vs)) (\<lambda>rest. Inr (take n vs # rest)) else Inl (CircuitError Panicked))"

text \<open>\<open>bits_to_bytes(..).try_into()\<close> for an array of \<open>n\<close> bytes, with the error \<open>e\<close> when the length differs.\<close>

definition array_of :: "synth_error \<Rightarrow> nat \<Rightarrow> 'f::field list \<Rightarrow> ('e, 'r) VegaMdocError + bytes" where
  "array_of e n vs = (let bs = bits_to_bytes vs in if length bs = n then Inr bs else Inl (CircuitError e))"

definition u32_of :: "synth_error \<Rightarrow> 'f::field list \<Rightarrow> ('e, 'r) VegaMdocError + u32" where
  "u32_of e vs = rbind (array_of e 4 vs) (\<lambda>bs. Inr (word_of_nat (be_val bs)))"

definition TS_BITS :: nat where "TS_BITS = TIMESTAMP_LEN * 8"
definition EXPECTED_LEN :: nat where
  "EXPECTED_LEN = 2 + BLIND_NONCE_BYTES * 8 + 256 + 256 + TS_BITS + TS_BITS + TS_BITS + MAX_CLAIMS_V1 * 32 + MAX_CLAIMS_V1 * 256"
definition STEP_LEN :: nat where "STEP_LEN = 256 + 1 + REAL_LEN_BITS + 32"

definition check_claim ::
  "(bytes \<Rightarrow> bytes) \<Rightarrow> bytes \<Rightarrow> bytes option \<Rightarrow> bytes \<Rightarrow> u32 \<Rightarrow> 'f::field list \<Rightarrow> ('e, 'r) VegaMdocError + DisclosedClaim" where
  "check_claim sha nonce supplied core_blinded core_id v =
     (let bad = CircuitError Unsatisfiable in
     rbind (guard bad (length v = STEP_LEN)) (\<lambda>_.
     rbind (guard bad (all_boolean v)) (\<lambda>_.
     rbind (array_of Unsatisfiable 32 (take 256 v)) (\<lambda>step_blinded.
     let disclosed = (v ! 256 = 1); real_len = unat (bits_to_bytes (take REAL_LEN_BITS (drop 257 v)) ! 0) in
     rbind (guard bad (real_len \<le> MAX_CLAIM_BYTES_V1)) (\<lambda>_.
     rbind (u32_of Unsatisfiable (take (STEP_LEN - (257 + REAL_LEN_BITS)) (drop (257 + REAL_LEN_BITS) v))) (\<lambda>step_id.
     rbind (case (disclosed, supplied) of
         (True, Some bs) \<Rightarrow>
           (let real_digest = claim_digest_bytes sha bs in
            if blind_digest_bytes sha real_digest nonce \<noteq> step_blinded then Inl bad
            else if length bs \<noteq> real_len then Inl bad
            else Inr (real_digest, bs))
       | (False, None) \<Rightarrow> Inr (replicate 32 0, [])
       | _ \<Rightarrow> Inl bad) (\<lambda>(digest, plaintext).
     rbind (guard bad (step_blinded = core_blinded)) (\<lambda>_.
     rbind (guard bad (step_id = core_id)) (\<lambda>_.
     Inr \<lparr>dc_disclosed = disclosed, dc_digest = digest, dc_real_len = real_len, dc_plaintext = plaintext,
          dc_digest_id = step_id\<rparr>)))))))))"

definition verify_and_check_binding ::
  "(bytes \<Rightarrow> bytes) \<Rightarrow> 'f::field list list \<Rightarrow> 'f list \<Rightarrow> bytes option list \<Rightarrow> ('e, 'r) VegaMdocError + 'f VerifiedPresentation" where
  "verify_and_check_binding sha step_values core_values disclosed_bytes =
     (let bad = CircuitError Unsatisfiable in
     rbind (guard bad (length disclosed_bytes = MAX_CLAIMS_V1)) (\<lambda>_.
     rbind (guard bad (length core_values = EXPECTED_LEN)) (\<lambda>_.
     rbind (guard bad (all_boolean (drop 2 core_values))) (\<lambda>_.
     rbind (take_slices ([BLIND_NONCE_BYTES * 8, 256, 256, TS_BITS, TS_BITS, TS_BITS] @ replicate MAX_CLAIMS_V1 32 @
         replicate MAX_CLAIMS_V1 256) (drop 2 core_values)) (\<lambda>slices.
     rbind (array_of Panicked BLIND_NONCE_BYTES (slices ! 0)) (\<lambda>nonce.
     rbind (array_of Panicked 32 (slices ! 1)) (\<lambda>dx.
     rbind (array_of Panicked 32 (slices ! 2)) (\<lambda>dy.
     rbind (array_of Panicked TIMESTAMP_LEN (slices ! 3)) (\<lambda>ts.
     rbind (array_of Panicked TIMESTAMP_LEN (slices ! 4)) (\<lambda>vf.
     rbind (array_of Panicked TIMESTAMP_LEN (slices ! 5)) (\<lambda>vu.
     rbind (map_result (u32_of Panicked) (take MAX_CLAIMS_V1 (drop 6 slices))) (\<lambda>digest_ids.
     rbind (map_result (array_of Panicked 32) (drop (6 + MAX_CLAIMS_V1) slices)) (\<lambda>core_blinded.
     rbind (guard bad (length step_values = MAX_CLAIMS_V1)) (\<lambda>_.
     rbind (map_result (\<lambda>(i, v). check_claim sha nonce (disclosed_bytes ! i) (core_blinded ! i) (digest_ids ! i) v)
         (enumerate 0 step_values)) (\<lambda>claims.
     Inr \<lparr>vp_qx = core_values ! 0, vp_qy = core_values ! 1, vp_claims = claims, vp_device_x = dx, vp_device_y = dy,
          vp_signed_ts = ts, vp_valid_from_ts = vf, vp_valid_until_ts = vu\<rparr>)))))))))))))))"

section \<open>Bits and bytes\<close>

lemma native_bytes_to_bits_be: "native_bytes_to_bits bs = map of_bool (be_bits bs)"
  by (auto simp: native_bytes_to_bits_def be_bits_def)

lemma bool_bits_be: "bytes_to_bool_bits bs = be_bits bs"
  by (simp add: bytes_to_bool_bits_def be_bits_def)

lemma length_native_bits [simp]: "length (native_bytes_to_bits bs :: 'f::field list) = 8 * length bs"
  by (simp add: native_bytes_to_bits_be)

lemma native_bits_append: "native_bytes_to_bits (as @ bs) = native_bytes_to_bits as @ native_bytes_to_bits bs"
  by (simp add: native_bytes_to_bits_def)

lemma all_boolean_native [simp]: "all_boolean (native_bytes_to_bits bs :: 'f::field list)"
  by (auto simp: all_boolean_def native_bytes_to_bits_be list_all_iff)

lemma all_boolean_append [simp]: "all_boolean (as @ bs) \<longleftrightarrow> all_boolean as \<and> all_boolean bs"
  by (simp add: all_boolean_def)

lemma all_boolean_Cons [simp]: "all_boolean (v # vs) \<longleftrightarrow> (v = 1 \<or> v = 0) \<and> all_boolean vs"
  by (simp add: all_boolean_def)

lemma bit_fold_byte:
  assumes "k + length xs \<le> 8" "j < 8"
  shows "bit (fold (\<lambda>(i, b) byte. if b = 1 then byte OR push_bit (7 - i) 1 else byte)
      (enumerate k (map of_bool xs :: 'f::field list)) (acc :: byte)) j \<longleftrightarrow>
    bit acc j \<or> k \<le> 7 - j \<and> 7 - j < k + length xs \<and> xs ! (7 - j - k)"
  using assms
proof (induction xs arbitrary: k acc)
  case (Cons x xs)
  have "bit (push_bit (7 - k) 1 :: byte) j \<longleftrightarrow> k = 7 - j"
    using Cons.prems by (auto simp: bit_exp_iff possible_bit_word)
  then have acc: "bit (if x then acc OR push_bit (7 - k) 1 else acc) j \<longleftrightarrow> bit acc j \<or> x \<and> k = 7 - j"
    by (auto simp: bit_or_iff)
  have "7 - j - k = Suc (7 - j - Suc k)" if "Suc k \<le> 7 - j" using that by linarith
  then show ?case using Cons.IH [of "Suc k" "if x then acc OR push_bit (7 - k) 1 else acc"] Cons.prems acc
    by (cases "k = 7 - j") (auto simp: Suc_le_eq)
qed auto

lemma fold_byte:
  "fold (\<lambda>(i, b) byte. if b = 1 then byte OR push_bit (7 - i) 1 else byte)
     (enumerate 0 (map of_bool (map (bit (b :: byte)) (rev [0..<8])) :: 'f::field list)) 0 = b"
proof (rule bit_eqI)
  fix j assume "possible_bit TYPE(byte) j"
  then have j: "j < 8" by (simp add: possible_bit_word)
  show "bit (fold (\<lambda>(i, b) byte. if b = 1 then byte OR push_bit (7 - i) 1 else byte)
     (enumerate 0 (map of_bool (map (bit b) (rev [0..<8])) :: 'f list)) (0 :: byte)) j = bit b j"
    by (subst bit_fold_byte) (use j in \<open>simp_all add: rev_nth less_imp_diff_less del: upt_rec_numeral\<close>)
qed

lemma bits_to_bytes_native: "bits_to_bytes (native_bytes_to_bits bs :: 'f::field list) = bs"
proof (induction bs)
  case (Cons b bs)
  have "native_bytes_to_bits (b # bs) = map of_bool (map (bit b) (rev [0..<8])) @ (native_bytes_to_bits bs :: 'f list)"
    by (simp add: native_bytes_to_bits_be be_bits_def del: upt_rec_numeral)
  then show ?case using Cons by (simp add: bits_to_bytes_def chunks_append fold_byte [unfolded map_map] del: upt_rec_numeral)
qed (simp add: bits_to_bytes_def native_bytes_to_bits_def)

lemma native_bits_to_bytes:
  assumes "all_boolean vs" "length vs = 8 * n"
  shows "native_bytes_to_bits (bits_to_bytes vs) = (vs :: 'f::field list) \<and> length (bits_to_bytes vs) = n"
proof -
  define bs where "bs = map (\<lambda>v. v = (1 :: 'f)) vs"
  have vs: "vs = map of_bool bs"
    using assms(1) by (auto simp: bs_def all_boolean_def list_all_iff intro!: nth_equalityI dest: nth_mem)
  have v: "be_val (bits_bytes bs) = bin_val bs" "length (bits_bytes bs) = n"
    using be_val_bits_bytes [of bs n] assms(2) by (simp_all add: bs_def)
  then have "be_bits (bits_bytes bs) = bs"
    using assms(2) by (intro bin_val_inj) (simp_all add: bin_val_be_bits bs_def)
  then have "vs = native_bytes_to_bits (bits_bytes bs)" using vs by (simp add: native_bytes_to_bits_be)
  then show ?thesis using v(2) bits_to_bytes_native [of "bits_bytes bs", where 'f = 'f] by simp
qed

lemma native_u32_be: "native_u32_to_bits v = (native_bytes_to_bits (be_bytes 4 (unat v)) :: 'f::field list)"
proof -
  have "map (\<lambda>i. bit v (31 - i)) [0..<32] = small_bits (unat v) 32"
    by (rule nth_equalityI) (simp_all add: small_bits_def rev_nth bit_unsigned_iff del: upt_rec_numeral)
  also have "\<dots> = be_bits (be_bytes 4 (unat v))"
    by (rule bin_val_inj) (simp_all add: bin_val_small_bits bin_val_be_bits be_val_be_bytes)
  finally have "map of_bool (map (\<lambda>i. bit v (31 - i)) [0..<32]) = (map of_bool (be_bits (be_bytes 4 (unat v))) :: 'f list)"
    by simp
  then show ?thesis
    by (simp add: native_u32_to_bits_def native_bytes_to_bits_be comp_def of_bool_def del: upt_rec_numeral)
qed

lemma bits_of_byte: "map (\<lambda>i. if bit (b :: byte) i then 1 else 0) (rev [0..<REAL_LEN_BITS]) = (native_bytes_to_bits [b] :: 'f::field list)"
  by (simp add: native_bytes_to_bits_def REAL_LEN_BITS_def comp_def)

section \<open>What the check accepts\<close>

text \<open>
  The values of a step and of a core, as the check reads them: \<open>step_layout\<close> from the blinded digest, the
  disclosure flag, the length and the identifier, \<open>core_layout\<close> from the key, the nonce, the body's fields,
  the identifiers and the blinded digests.
\<close>

definition step_layout :: "bytes \<Rightarrow> bool \<Rightarrow> nat \<Rightarrow> u32 \<Rightarrow> 'f::field list" where
  "step_layout blinded disclosed real_len digest_id =
     native_bytes_to_bits blinded @ [of_bool disclosed] @ native_bytes_to_bits [word_of_nat real_len] @ native_u32_to_bits digest_id"

definition core_layout ::
  "'f \<Rightarrow> 'f \<Rightarrow> bytes \<Rightarrow> bytes \<Rightarrow> bytes \<Rightarrow> bytes \<Rightarrow> bytes \<Rightarrow> bytes \<Rightarrow> u32 list \<Rightarrow> bytes list \<Rightarrow> 'f::field list" where
  "core_layout qx qy nonce dx dy ts vf vu ids blinded =
     [qx, qy] @ native_bytes_to_bits nonce @ native_bytes_to_bits dx @ native_bytes_to_bits dy @ native_bytes_to_bits ts @
     native_bytes_to_bits vf @ native_bytes_to_bits vu @ concat (map native_u32_to_bits ids) @
     concat (map native_bytes_to_bits blinded)"

text \<open>What the verifier learns of one slot: the supplied bytes are disclosed, and nothing else is.\<close>

definition slot_shows :: "(bytes \<Rightarrow> bytes) \<Rightarrow> bytes \<Rightarrow> bytes option \<Rightarrow> bytes \<Rightarrow> DisclosedClaim \<Rightarrow> bool" where
  "slot_shows sha nonce supplied blinded c \<longleftrightarrow>
     (case supplied of
        Some bs \<Rightarrow> dc_disclosed c \<and> dc_plaintext c = bs \<and> dc_digest c = sha bs \<and> dc_real_len c = length bs \<and>
          blinded = sha (sha bs @ nonce)
      | None \<Rightarrow> \<not> dc_disclosed c \<and> dc_plaintext c = [] \<and> dc_digest c = replicate 32 0) \<and>
     dc_real_len c \<le> MAX_CLAIM_BYTES_V1 \<and> length blinded = 32"

lemma array_of_native: "array_of e n (native_bytes_to_bits bs :: 'f::field list) = (if length bs = n then Inr bs else Inl (CircuitError e))"
  by (simp add: array_of_def bits_to_bytes_native)

lemma array_of_boolean:
  assumes "all_boolean (vs :: 'f::field list)" "length vs = 8 * n"
  shows "\<exists>bs. length bs = n \<and> vs = native_bytes_to_bits bs \<and> array_of e n vs = Inr bs"
  using native_bits_to_bytes [OF assms] by (intro exI [of _ "bits_to_bytes vs"]) (simp add: array_of_def)

lemma unat_u32_mod: "unat (v :: u32) mod 4294967296 = unat v"
  using unsigned_less [of v, where ?'a = nat] by simp

lemma u32_of_native: "u32_of e (native_u32_to_bits v :: 'f::field list) = Inr v"
  by (simp add: u32_of_def native_u32_be array_of_native be_val_be_bytes unat_u32_mod)

lemma u32_of_boolean:
  assumes "all_boolean (vs :: 'f::field list)" "length vs = 32"
  shows "\<exists>v. vs = native_u32_to_bits v \<and> u32_of e vs = Inr v"
proof -
  obtain bs where bs: "length bs = 4" "vs = native_bytes_to_bits bs"
    using array_of_boolean [of vs 4] assms by auto
  have "be_val bs < 2 ^ 32" using be_val_less [of bs] bs(1) by simp
  then have "be_bytes 4 (unat (word_of_nat (be_val bs) :: u32)) = bs"
    using be_bytes_be_val [OF bs(1)] by (simp add: unat_of_nat)
  then have "vs = native_u32_to_bits (word_of_nat (be_val bs))" using bs(2) by (simp add: native_u32_be)
  then show ?thesis using u32_of_native by blast
qed

lemma length_u32_bits [simp]: "length (native_u32_to_bits v :: 'f::field list) = 32"
  by (simp add: native_u32_to_bits_def)

lemma all_boolean_u32 [simp]: "all_boolean (native_u32_to_bits v :: 'f::field list)"
  by (simp add: native_u32_be)

lemma check_claim_layout:
  assumes "length blinded = 32" "real_len \<le> 255"
  shows "check_claim sha nonce supplied core_blinded core_id (step_layout blinded disclosed real_len i :: 'f::field list) = Inr c \<longleftrightarrow>
    core_blinded = blinded \<and> core_id = i \<and> dc_disclosed c = disclosed \<and> dc_real_len c = real_len \<and> dc_digest_id c = i \<and>
    slot_shows sha nonce supplied blinded c"
proof -
  let ?v = "step_layout blinded disclosed real_len i :: 'f list"
  have parts: "take 256 ?v = native_bytes_to_bits blinded" "?v ! 256 = of_bool disclosed"
    "take REAL_LEN_BITS (drop 257 ?v) = native_bytes_to_bits [word_of_nat real_len]"
    "take (STEP_LEN - (257 + REAL_LEN_BITS)) (drop (257 + REAL_LEN_BITS) ?v) = native_u32_to_bits i"
    "length ?v = STEP_LEN" "all_boolean ?v"
    using assms(1) by (simp_all add: step_layout_def nth_append REAL_LEN_BITS_def STEP_LEN_def)
  have len: "unat (bits_to_bytes (native_bytes_to_bits [word_of_nat real_len] :: 'f list) ! 0) = real_len"
    using assms(2) by (simp add: bits_to_bytes_native unat_of_nat)
  show ?thesis
    unfolding check_claim_def Let_def parts(1-5) eqTrueI [OF parts(6)] len array_of_native u32_of_native
    by (cases supplied; cases disclosed)
      (auto simp: assms(1) result_simps slot_shows_def blind_digest_bytes_def claim_digest_bytes_def
        intro: DisclosedClaim.equality split: if_splits)
qed

lemma step_layout_of:
  assumes "length (v :: 'f::field list) = STEP_LEN" "all_boolean v"
  shows "\<exists>blinded disclosed real_len i. length blinded = 32 \<and> real_len \<le> 255 \<and> v = step_layout blinded disclosed real_len i"
proof -
  obtain a x b c where v: "v = a @ [x] @ b @ c" "length a = 256" "length b = 8" "length c = 32"
  proof
    show "v = take 256 v @ [v ! 256] @ take 8 (drop 257 v) @ drop 265 v"
      using assms(1) append_take_drop_id [of 256 v] append_take_drop_id [of 8 "drop 257 v"] Cons_nth_drop_Suc [of 256 v]
      by (simp add: STEP_LEN_def REAL_LEN_BITS_def)
  qed (use assms(1) in \<open>simp_all add: STEP_LEN_def REAL_LEN_BITS_def\<close>)
  have bools: "all_boolean a" "x = 1 \<or> x = 0" "all_boolean b" "all_boolean c" using assms(2) v(1) by simp_all
  obtain d where d: "length d = 32" "a = native_bytes_to_bits d" using array_of_boolean [of a 32] bools v by auto
  obtain l where l: "length l = 1" "b = native_bytes_to_bits l" using array_of_boolean [of b 1] bools v by auto
  obtain i where i: "c = native_u32_to_bits i" using u32_of_boolean [of c] bools v by auto
  obtain k where "l = [k]" using l(1) by (cases l) auto
  then have "v = step_layout d (x = 1) (unat k) i" using v(1) d l i bools(2) by (auto simp: step_layout_def)
  then show ?thesis using d(1) by (metis unat_byte_le)
qed

lemma check_claim_exact:
  "check_claim sha nonce supplied core_blinded core_id (v :: 'f::field list) = Inr c \<longleftrightarrow>
    v = step_layout core_blinded (dc_disclosed c) (dc_real_len c) (dc_digest_id c) \<and> core_id = dc_digest_id c \<and>
    slot_shows sha nonce supplied core_blinded c"
  (is "?l \<longleftrightarrow> ?r")
proof
  assume l: ?l
  then have "length v = STEP_LEN" "all_boolean v" by (auto simp: check_claim_def Let_def result_simps)
  then obtain b d n i where "length b = 32" "n \<le> 255" "v = step_layout b d n i" using step_layout_of by blast
  then show ?r using l by (auto simp: check_claim_layout)
next
  assume r: ?r
  then have "length core_blinded = 32" "dc_real_len c \<le> 255" by (simp_all add: slot_shows_def claim_consts)
  then show ?l using r by (auto simp: check_claim_layout)
qed

section \<open>The whole check\<close>

lemma take_slices_concat:
  "take_slices (map length xss) (concat xss) = Inr xss"
  by (induction xss) auto

lemma split_slices:
  assumes "length vs = sum_list ks"
  shows "\<exists>xss. vs = concat xss \<and> map length xss = ks"
  using assms
proof (induction ks arbitrary: vs)
  case (Cons k ks)
  then obtain xss where "drop k vs = concat xss" "map length xss = ks" by (metis Cons.IH add_diff_cancel_left' length_drop sum_list.Cons)
  then show ?case using Cons.prems by (intro exI [of _ "take k vs # xss"]) (simp, metis append_take_drop_id)
qed simp

definition core_sizes :: "nat list" where
  "core_sizes = [23, 32, 32, 20, 20, 20, 4, 4, 4, 4, 32, 32, 32, 32]"

text \<open>The fourteen byte strings of a core's values, in order.\<close>

definition core_parts :: "bytes \<Rightarrow> bytes \<Rightarrow> bytes \<Rightarrow> bytes \<Rightarrow> bytes \<Rightarrow> bytes \<Rightarrow> u32 list \<Rightarrow> bytes list \<Rightarrow> bytes list" where
  "core_parts nonce dx dy ts vf vu ids blinded = [nonce, dx, dy, ts, vf, vu] @ map (\<lambda>i. be_bytes 4 (unat i)) ids @ blinded"

lemma native_bits_concat: "native_bytes_to_bits (concat bss) = concat (map native_bytes_to_bits bss)"
  by (induction bss) (simp_all add: native_bits_append, simp add: native_bytes_to_bits_def)

lemma core_layout_parts:
  "core_layout qx qy nonce dx dy ts vf vu ids blinded =
     [qx, qy] @ concat (map native_bytes_to_bits (core_parts nonce dx dy ts vf vu ids blinded))"
  by (simp add: core_layout_def core_parts_def native_u32_be [abs_def] comp_def)

lemma be_bytes_u32: "length b = 4 \<Longrightarrow> be_bytes 4 (unat (word_of_nat (be_val b) :: u32)) = b"
  using be_val_less [of b] be_bytes_be_val [of b 4] by (simp add: unat_of_nat)

lemma core_parts_of:
  assumes "map length bss = core_sizes"
  obtains nonce dx dy ts vf vu ids blinded where "bss = core_parts nonce dx dy ts vf vu ids blinded"
    "length nonce = BLIND_NONCE_BYTES" "length dx = 32" "length dy = 32" "length ts = TIMESTAMP_LEN" "length vf = TIMESTAMP_LEN"
    "length vu = TIMESTAMP_LEN" "length ids = MAX_CLAIMS_V1" "length blinded = MAX_CLAIMS_V1" "\<forall>b \<in> set blinded. length b = 32"
proof -
  have n: "length bss = 14" using arg_cong [OF assms, of length] by (simp add: core_sizes_def)
  have l: "length (bss ! j) = core_sizes ! j" if "j < 14" for j using assms n that by (metis nth_map)
  let ?ids = "map (\<lambda>b. word_of_nat (be_val b)) (take 4 (drop 6 bss)) :: u32 list"
  have four: "map (\<lambda>i. be_bytes 4 (unat i)) ?ids = take 4 (drop 6 bss)"
  proof -
    have "core_sizes ! (6 + i) = 4" if "i < 4" for i
      using that by (auto simp: core_sizes_def less_Suc_eq numeral_eq_Suc)
    then have "length b = 4" if "b \<in> set (take 4 (drop 6 bss))" for b
      using that n l by (auto simp: in_set_conv_nth)
    then show ?thesis by (simp add: map_idI be_bytes_u32)
  qed
  have "take 6 bss = [bss ! 0, bss ! 1, bss ! 2, bss ! 3, bss ! 4, bss ! 5]"
    using n by (intro nth_equalityI) (auto simp: nth_Cons' less_Suc_eq numeral_eq_Suc)
  moreover have "bss = take 6 bss @ take 4 (drop 6 bss) @ drop 10 bss"
    using append_take_drop_id [of 6 bss] append_take_drop_id [of 4 "drop 6 bss"] by simp
  ultimately have "bss = core_parts (bss ! 0) (bss ! 1) (bss ! 2) (bss ! 3) (bss ! 4) (bss ! 5) ?ids (drop 10 bss)"
    using four by (simp add: core_parts_def)
  moreover have "\<forall>b \<in> set (drop 10 bss). length b = 32"
  proof -
    have "core_sizes ! (10 + i) = 32" if "i < 4" for i
      using that by (auto simp: core_sizes_def less_Suc_eq numeral_eq_Suc)
    then show ?thesis using n l by (auto simp: in_set_conv_nth)
  qed
  ultimately show ?thesis
    using that [of "bss ! 0" "bss ! 1" "bss ! 2" "bss ! 3" "bss ! 4" "bss ! 5" ?ids "drop 10 bss"] n
    by (simp add: l core_sizes_def claim_consts TIMESTAMP_LEN_def)
qed

lemma core_layout_of:
  assumes "length (vs :: 'f::field list) = EXPECTED_LEN" "all_boolean (drop 2 vs)"
  obtains nonce dx dy ts vf vu ids blinded where
    "vs = core_layout (vs ! 0) (vs ! 1) nonce dx dy ts vf vu ids blinded"
    "length nonce = BLIND_NONCE_BYTES" "length dx = 32" "length dy = 32" "length ts = TIMESTAMP_LEN" "length vf = TIMESTAMP_LEN"
    "length vu = TIMESTAMP_LEN" "length ids = MAX_CLAIMS_V1" "length blinded = MAX_CLAIMS_V1" "\<forall>b \<in> set blinded. length b = 32"
proof -
  have l: "length (drop 2 vs) = 8 * sum_list core_sizes" "length vs = 2330"
    using assms(1) by (simp_all add: EXPECTED_LEN_def claim_consts TS_BITS_def TIMESTAMP_LEN_def core_sizes_def)
  obtain bs where bs: "length bs = sum_list core_sizes" "drop 2 vs = native_bytes_to_bits bs"
    using array_of_boolean [OF assms(2) l(1)] by blast
  then obtain bss where bss: "bs = concat bss" "map length bss = core_sizes" using split_slices by blast
  have "vs = [vs ! 0, vs ! 1] @ drop 2 vs"
    using l(2) Cons_nth_drop_Suc [of 0 vs] Cons_nth_drop_Suc [of 1 vs] by (simp add: numeral_2_eq_2)
  then have vs: "vs = [vs ! 0, vs ! 1] @ concat (map native_bytes_to_bits bss)"
    using bs(2) bss(1) by (simp add: native_bits_concat)
  obtain nonce dx dy ts vf vu ids blinded where "bss = core_parts nonce dx dy ts vf vu ids blinded"
    "length nonce = BLIND_NONCE_BYTES" "length dx = 32" "length dy = 32" "length ts = TIMESTAMP_LEN" "length vf = TIMESTAMP_LEN"
    "length vu = TIMESTAMP_LEN" "length ids = MAX_CLAIMS_V1" "length blinded = MAX_CLAIMS_V1" "\<forall>b \<in> set blinded. length b = 32"
    by (rule core_parts_of [OF bss(2)])
  then show ?thesis using vs by (intro that [of nonce dx dy ts vf vu ids blinded]) (simp_all add: core_layout_parts)
qed

definition core_ok :: "bytes \<Rightarrow> bytes \<Rightarrow> bytes \<Rightarrow> bytes \<Rightarrow> bytes \<Rightarrow> bytes \<Rightarrow> u32 list \<Rightarrow> bytes list \<Rightarrow> bool" where
  "core_ok nonce dx dy ts vf vu ids blinded \<longleftrightarrow>
     length nonce = BLIND_NONCE_BYTES \<and> length dx = 32 \<and> length dy = 32 \<and> length ts = TIMESTAMP_LEN \<and>
     length vf = TIMESTAMP_LEN \<and> length vu = TIMESTAMP_LEN \<and> length ids = MAX_CLAIMS_V1 \<and> length blinded = MAX_CLAIMS_V1 \<and>
     (\<forall>b \<in> set blinded. length b = 32)"

lemma four_lengths: "length xs = 4 \<Longrightarrow> \<forall>b \<in> set xs. length b = n \<Longrightarrow> map length xs = replicate 4 n"
  by (intro nth_equalityI) simp_all

lemma core_parts_lengths:
  "core_ok nonce dx dy ts vf vu ids blinded \<Longrightarrow>
    map length (map native_bytes_to_bits (core_parts nonce dx dy ts vf vu ids blinded) :: 'f::field list list) =
    [BLIND_NONCE_BYTES * 8, 256, 256, TS_BITS, TS_BITS, TS_BITS] @ replicate MAX_CLAIMS_V1 32 @ replicate MAX_CLAIMS_V1 256"
  using four_lengths [of "map native_bytes_to_bits blinded :: 'f list list" 256]
    four_lengths [of "map (\<lambda>i. native_bytes_to_bits (be_bytes 4 (unat i))) ids :: 'f list list" 32]
  by (simp add: core_ok_def core_parts_def claim_consts TS_BITS_def comp_def)

lemma core_layout_shape:
  fixes qx qy :: "'f::field"
  assumes "core_ok nonce dx dy ts vf vu ids blinded"
  defines "vs \<equiv> core_layout qx qy nonce dx dy ts vf vu ids blinded"
  shows "length vs = EXPECTED_LEN" "all_boolean (drop 2 vs)" "vs ! 0 = qx" "vs ! 1 = qy"
    "take_slices ([BLIND_NONCE_BYTES * 8, 256, 256, TS_BITS, TS_BITS, TS_BITS] @ replicate MAX_CLAIMS_V1 32 @
       replicate MAX_CLAIMS_V1 256) (drop 2 vs) = Inr (map native_bytes_to_bits (core_parts nonce dx dy ts vf vu ids blinded))"
proof -
  let ?parts = "core_parts nonce dx dy ts vf vu ids blinded"
  have d: "drop 2 vs = concat (map native_bytes_to_bits ?parts)" by (simp add: vs_def core_layout_parts)
  show "vs ! 0 = qx" "vs ! 1 = qy" by (simp_all add: vs_def core_layout_parts)
  show "all_boolean (drop 2 vs)" unfolding d native_bits_concat [symmetric] by simp
  show "take_slices ([BLIND_NONCE_BYTES * 8, 256, 256, TS_BITS, TS_BITS, TS_BITS] @ replicate MAX_CLAIMS_V1 32 @
       replicate MAX_CLAIMS_V1 256) (drop 2 vs) = Inr (map native_bytes_to_bits ?parts)"
    using take_slices_concat [of "map native_bytes_to_bits ?parts :: 'f list list"]
    unfolding core_parts_lengths [OF assms(1)] d by simp
  have "length (drop 2 vs) = sum_list (map length (map native_bytes_to_bits ?parts :: 'f list list))"
    unfolding d by (simp add: length_concat)
  also have "\<dots> = EXPECTED_LEN - 2"
    unfolding core_parts_lengths [OF assms(1)] by (simp add: EXPECTED_LEN_def sum_list_replicate)
  finally have "length vs - 2 = EXPECTED_LEN - 2" by simp
  moreover have "2 \<le> length vs" by (simp add: vs_def core_layout_parts)
  ultimately show "length vs = EXPECTED_LEN" by (simp add: EXPECTED_LEN_def)
qed

lemma binding_on_layout:
  assumes "core_ok nonce dx dy ts vf vu ids blinded"
  shows "verify_and_check_binding sha steps (core_layout qx qy nonce dx dy ts vf vu ids blinded :: 'f::field list) disclosed =
    rbind (guard (CircuitError Unsatisfiable) (length disclosed = MAX_CLAIMS_V1)) (\<lambda>_.
    rbind (guard (CircuitError Unsatisfiable) (length steps = MAX_CLAIMS_V1)) (\<lambda>_.
    rbind (map_result (\<lambda>(i, v). check_claim sha nonce (disclosed ! i) (blinded ! i) (ids ! i) v) (enumerate 0 steps)) (\<lambda>claims.
    Inr \<lparr>vp_qx = qx, vp_qy = qy, vp_claims = claims, vp_device_x = dx, vp_device_y = dy,
         vp_signed_ts = ts, vp_valid_from_ts = vf, vp_valid_until_ts = vu\<rparr>)))"
proof -
  let ?slices = "map native_bytes_to_bits (core_parts nonce dx dy ts vf vu ids blinded) :: 'f list list"
  have u: "map_result (u32_of Panicked) (map native_u32_to_bits is :: 'f list list) = Inr is" for "is"
    by (induction "is") (simp_all add: u32_of_native)
  have b: "\<forall>b \<in> set bs. length b = 32 \<Longrightarrow> map_result (array_of Panicked 32) (map native_bytes_to_bits bs :: 'f list list) = Inr bs" for bs
    by (induction bs) (simp_all add: array_of_native)
  have ids: "take MAX_CLAIMS_V1 (drop 6 ?slices) = map native_u32_to_bits ids"
    using assms by (simp add: core_parts_def core_ok_def native_u32_be [abs_def] comp_def)
  have bl: "drop (6 + MAX_CLAIMS_V1) ?slices = map native_bytes_to_bits blinded"
    using assms by (simp add: core_parts_def core_ok_def MAX_CLAIMS_V1_def)
  have p: "?slices ! 0 = native_bytes_to_bits nonce" "?slices ! 1 = native_bytes_to_bits dx" "?slices ! 2 = native_bytes_to_bits dy"
    "?slices ! 3 = native_bytes_to_bits ts" "?slices ! 4 = native_bytes_to_bits vf" "?slices ! 5 = native_bytes_to_bits vu"
    by (simp_all add: core_parts_def)
  have l: "length nonce = BLIND_NONCE_BYTES" "length dx = 32" "length dy = 32" "length ts = TIMESTAMP_LEN"
    "length vf = TIMESTAMP_LEN" "length vu = TIMESTAMP_LEN" "\<forall>b \<in> set blinded. length b = 32"
    using assms by (simp_all add: core_ok_def)
  show ?thesis
    unfolding verify_and_check_binding_def Let_def core_layout_shape(1,3-5) [OF assms] eqTrueI [OF core_layout_shape(2) [OF assms]]
      rbind_Inr p ids bl u b [OF l(7)] array_of_native
    by (cases "length disclosed = MAX_CLAIMS_V1") (simp_all add: l)
qed

lemma binding_no_layout:
  assumes "\<not> (length vs = EXPECTED_LEN \<and> all_boolean (drop 2 vs))"
  shows "verify_and_check_binding sha steps vs disclosed = Inl (CircuitError Unsatisfiable)"
  unfolding verify_and_check_binding_def Let_def
  using assms by (cases "length disclosed = MAX_CLAIMS_V1"; cases "length vs = EXPECTED_LEN")
    (simp_all only: guard_simps rbind_Inl rbind_Inr simp_thms)

text \<open>
  The contract of the check: the core's values are laid out for the presentation, some nonce and some blinded
  digests, and every step carries the core's blinded digest and identifier of its slot, and what the slot shows.
\<close>

definition bound_presentation ::
  "(bytes \<Rightarrow> bytes) \<Rightarrow> 'f::field list list \<Rightarrow> 'f list \<Rightarrow> bytes option list \<Rightarrow> 'f VerifiedPresentation \<Rightarrow> bytes \<Rightarrow> bytes list \<Rightarrow> bool" where
  "bound_presentation sha steps core disclosed p nonce blinded \<longleftrightarrow>
     core_ok nonce (vp_device_x p) (vp_device_y p) (vp_signed_ts p) (vp_valid_from_ts p) (vp_valid_until_ts p)
       (map dc_digest_id (vp_claims p)) blinded \<and>
     core = core_layout (vp_qx p) (vp_qy p) nonce (vp_device_x p) (vp_device_y p) (vp_signed_ts p) (vp_valid_from_ts p)
       (vp_valid_until_ts p) (map dc_digest_id (vp_claims p)) blinded \<and>
     length disclosed = MAX_CLAIMS_V1 \<and>
     steps = map (\<lambda>(c, b). step_layout b (dc_disclosed c) (dc_real_len c) (dc_digest_id c)) (zip (vp_claims p) blinded) \<and>
     (\<forall>i < MAX_CLAIMS_V1. slot_shows sha nonce (disclosed ! i) (blinded ! i) (vp_claims p ! i))"

lemma map_result_Inr: "map_result f xs = Inr ys \<longleftrightarrow> list_all2 (\<lambda>x y. f x = Inr y) xs ys"
  by (induction xs arbitrary: ys) (auto simp: rbind_eq_Inr list_all2_Cons1)

lemma map_result_Inl: "map_result f xs = Inl e \<Longrightarrow> \<exists>x \<in> set xs. f x = Inl e"
  by (induction xs) (auto simp: rbind_eq_Inl)

lemma check_claim_error: "check_claim sha nonce supplied core_blinded core_id v = Inl e \<Longrightarrow> e = CircuitError Unsatisfiable"
  by (auto simp: check_claim_def Let_def result_simps array_of_def u32_of_def split: if_splits option.splits bool.splits)

lemma binding_claims:
  assumes "length (steps :: 'f::field list list) = MAX_CLAIMS_V1" "length ids = MAX_CLAIMS_V1" "length blinded = MAX_CLAIMS_V1"
  shows "map_result (\<lambda>(i, v). check_claim sha nonce (disclosed ! i) (blinded ! i) (ids ! i) v) (enumerate 0 steps) = Inr claims \<longleftrightarrow>
    length claims = MAX_CLAIMS_V1 \<and> ids = map dc_digest_id claims \<and>
    steps = map (\<lambda>(c, b). step_layout b (dc_disclosed c) (dc_real_len c) (dc_digest_id c)) (zip claims blinded) \<and>
    (\<forall>i < MAX_CLAIMS_V1. slot_shows sha nonce (disclosed ! i) (blinded ! i) (claims ! i))"
proof -
  have "map_result (\<lambda>(i, v). check_claim sha nonce (disclosed ! i) (blinded ! i) (ids ! i) v) (enumerate 0 steps) = Inr claims \<longleftrightarrow>
    length claims = MAX_CLAIMS_V1 \<and> (\<forall>i < MAX_CLAIMS_V1.
      steps ! i = step_layout (blinded ! i) (dc_disclosed (claims ! i)) (dc_real_len (claims ! i)) (dc_digest_id (claims ! i)) \<and>
      ids ! i = dc_digest_id (claims ! i) \<and> slot_shows sha nonce (disclosed ! i) (blinded ! i) (claims ! i))"
    using assms by (auto simp: map_result_Inr list_all2_conv_all_nth nth_enumerate_eq check_claim_exact)
  also have "\<dots> \<longleftrightarrow> length claims = MAX_CLAIMS_V1 \<and> ids = map dc_digest_id claims \<and>
    steps = map (\<lambda>(c, b). step_layout b (dc_disclosed c) (dc_real_len c) (dc_digest_id c)) (zip claims blinded) \<and>
    (\<forall>i < MAX_CLAIMS_V1. slot_shows sha nonce (disclosed ! i) (blinded ! i) (claims ! i))"
    using assms by (auto simp: list_eq_iff_nth_eq)
  finally show ?thesis .
qed

lemma verify_and_check_binding_exact:
  "(verify_and_check_binding sha steps core disclosed :: ('e, 'r) VegaMdocError + 'f VerifiedPresentation) = Inr p \<longleftrightarrow>
    (\<exists>nonce blinded. bound_presentation sha steps (core :: 'f::field list) disclosed p nonce blinded)"
  (is "?l \<longleftrightarrow> ?r")
proof
  assume l: ?l
  then have "length core = EXPECTED_LEN" "all_boolean (drop 2 core)" using binding_no_layout by (metis Inl_Inr_False)+
  then obtain qx qy nonce dx dy ts vf vu ids blinded where
    core: "core = core_layout qx qy nonce dx dy ts vf vu ids blinded" and ok: "core_ok nonce dx dy ts vf vu ids blinded"
    by (rule core_layout_of) (auto simp: core_ok_def)
  from l obtain claims where claims: "length disclosed = MAX_CLAIMS_V1" "length steps = MAX_CLAIMS_V1"
    "map_result (\<lambda>(i, v). check_claim sha nonce (disclosed ! i) (blinded ! i) (ids ! i) v) (enumerate 0 steps) =
      (Inr claims :: ('e, 'r) VegaMdocError + DisclosedClaim list)"
    and p: "p = \<lparr>vp_qx = qx, vp_qy = qy, vp_claims = claims, vp_device_x = dx, vp_device_y = dy,
         vp_signed_ts = ts, vp_valid_from_ts = vf, vp_valid_until_ts = vu\<rparr>"
    unfolding core binding_on_layout [OF ok] by (auto simp: result_simps)
  then have "bound_presentation sha steps core disclosed p nonce blinded"
    using ok binding_claims [OF claims(2), of ids blinded] core by (auto simp: bound_presentation_def core_ok_def)
  then show ?r by blast
next
  assume ?r
  then obtain nonce blinded where b: "bound_presentation sha steps core disclosed p nonce blinded" by blast
  then have ok: "core_ok nonce (vp_device_x p) (vp_device_y p) (vp_signed_ts p) (vp_valid_from_ts p) (vp_valid_until_ts p)
      (map dc_digest_id (vp_claims p)) blinded"
    and core: "core = core_layout (vp_qx p) (vp_qy p) nonce (vp_device_x p) (vp_device_y p) (vp_signed_ts p) (vp_valid_from_ts p)
      (vp_valid_until_ts p) (map dc_digest_id (vp_claims p)) blinded"
    by (simp_all add: bound_presentation_def)
  have n: "length (vp_claims p) = MAX_CLAIMS_V1" "length blinded = MAX_CLAIMS_V1" using ok by (simp_all add: core_ok_def)
  then have steps: "length steps = MAX_CLAIMS_V1" using b by (auto simp: bound_presentation_def)
  have "map_result (\<lambda>(i, v). check_claim sha nonce (disclosed ! i) (blinded ! i) (map dc_digest_id (vp_claims p) ! i) v)
      (enumerate 0 steps) = (Inr (vp_claims p) :: ('e, 'r) VegaMdocError + DisclosedClaim list)"
    by (subst binding_claims) (use b n steps in \<open>simp_all add: bound_presentation_def\<close>)
  then show ?l
    unfolding core binding_on_layout [OF ok] using b steps by (simp add: bound_presentation_def)
qed

lemma verify_and_check_binding_error:
  "(verify_and_check_binding sha steps core disclosed :: ('e, 'r) VegaMdocError + 'f::field VerifiedPresentation) = Inl e \<Longrightarrow>
    e = CircuitError Unsatisfiable"
proof (cases "length core = EXPECTED_LEN \<and> all_boolean (drop 2 core)")
  case True
  then obtain qx qy nonce dx dy ts vf vu ids blinded where
    core: "core = core_layout qx qy nonce dx dy ts vf vu ids blinded" and ok: "core_ok nonce dx dy ts vf vu ids blinded"
    using core_layout_of [of core] by (metis core_ok_def)
  assume "(verify_and_check_binding sha steps core disclosed :: ('e, 'r) VegaMdocError + 'f VerifiedPresentation) = Inl e"
  then show ?thesis
    unfolding core binding_on_layout [OF ok]
    by (auto simp: result_simps dest!: map_result_Inl check_claim_error)
qed (simp add: binding_no_layout)

section \<open>Honest presentations\<close>

definition padding_claim :: PaddedClaim where
  "padding_claim = \<lparr>pc_bytes = replicate MAX_CLAIM_BYTES_V1 0, pc_real_len = 0, pc_disclose = False, pc_digest_id = 0\<rparr>"

definition padded_claim :: "ClaimWitness \<Rightarrow> PaddedClaim" where
  "padded_claim c = \<lparr>pc_bytes = cw_bytes c @ replicate (MAX_CLAIM_BYTES_V1 - length (cw_bytes c)) 0, pc_real_len = length (cw_bytes c),
     pc_disclose = cw_disclose c, pc_digest_id = cw_digest_id c\<rparr>"

definition claims_fit :: "ClaimWitness list \<Rightarrow> bool" where
  "claims_fit claims \<longleftrightarrow> length claims \<le> MAX_CLAIMS_V1 \<and> (\<forall>c \<in> set claims. length (cw_bytes c) \<le> MAX_CLAIM_BYTES_V1)"

lemma widen_claims:
  assumes "\<forall>c \<in> set claims. length (cw_bytes c) \<le> MAX_CLAIM_BYTES_V1"
  shows "map_result (\<lambda>c. rbind (fixed_width_claim_bytes (cw_bytes c)) (\<lambda>(bs, real_len).
      Inr \<lparr>pc_bytes = bs, pc_real_len = real_len, pc_disclose = cw_disclose c, pc_digest_id = cw_digest_id c\<rparr>)) claims
    = Inr (map padded_claim claims)"
  by (rule map_result_all) (use assms in \<open>auto simp: fixed_width_claim_bytes_def padded_claim_def\<close>)

lemma pad_claims_fit:
  "claims_fit claims \<Longrightarrow> pad_claims claims = Inr (map padded_claim claims @ replicate (MAX_CLAIMS_V1 - length claims) padding_claim)"
  by (simp add: pad_claims_def widen_claims claims_fit_def padding_claim_def)

lemma pad_claims_unfit:
  assumes "\<not> claims_fit claims"
  shows "\<exists>e. (pad_claims claims :: ('e, 'r) VegaMdocError + PaddedClaim list) = Inl e \<and> (if MAX_CLAIMS_V1 < length claims then e = TooManyClaims MAX_CLAIMS_V1 (length claims)
    else \<exists>c \<in> set claims. MAX_CLAIM_BYTES_V1 < length (cw_bytes c) \<and> e = ClaimTooLong MAX_CLAIM_BYTES_V1 (length (cw_bytes c)))"
proof (cases "MAX_CLAIMS_V1 < length claims")
  case False
  let ?f = "\<lambda>c. rbind (fixed_width_claim_bytes (cw_bytes c)) (\<lambda>(bs, real_len).
      Inr \<lparr>pc_bytes = bs, pc_real_len = real_len, pc_disclose = cw_disclose c, pc_digest_id = cw_digest_id c\<rparr>) :: ('e, 'r) VegaMdocError + PaddedClaim"
  obtain c where c: "c \<in> set claims" "MAX_CLAIM_BYTES_V1 < length (cw_bytes c)" using assms False by (auto simp: claims_fit_def)
  show ?thesis
  proof (cases "map_result ?f claims")
    case (Inl e)
    from map_result_Inl [OF this] show ?thesis
      using Inl False by (auto simp: pad_claims_def fixed_width_claim_bytes_def split: if_splits)
  next
    case (Inr cs)
    then have "\<exists>x. ?f c = Inr x" using c(1) by (auto simp: map_result_Inr list_all2_conv_all_nth in_set_conv_nth)
    then show ?thesis using c(2) by (simp add: fixed_width_claim_bytes_def)
  qed
qed (simp add: pad_claims_def)

text \<open>The bytes and the flag of a slot, padding included, and what an honest verifier is handed for it.\<close>

definition slots :: "ClaimWitness list \<Rightarrow> ClaimWitness list" where
  "slots claims = claims @ replicate (MAX_CLAIMS_V1 - length claims) \<lparr>cw_bytes = [], cw_disclose = False, cw_digest_id = 0\<rparr>"

definition disclosed_of :: "ClaimWitness list \<Rightarrow> bytes option list" where
  "disclosed_of claims = map (\<lambda>c. if cw_disclose c then Some (cw_bytes c) else None) (slots claims)"

definition honest_claim :: "(bytes \<Rightarrow> bytes) \<Rightarrow> ClaimWitness \<Rightarrow> DisclosedClaim" where
  "honest_claim sha c =
     (if cw_disclose c
      then \<lparr>dc_disclosed = True, dc_digest = sha (cw_bytes c), dc_real_len = length (cw_bytes c), dc_plaintext = cw_bytes c,
            dc_digest_id = cw_digest_id c\<rparr>
      else \<lparr>dc_disclosed = False, dc_digest = replicate 32 0, dc_real_len = 0, dc_plaintext = [], dc_digest_id = cw_digest_id c\<rparr>)"

lemma padded_slots:
  assumes "claims_fit claims"
  shows "pad_claims claims = Inr (map padded_claim (slots claims))"
proof -
  have "padding_claim = padded_claim \<lparr>cw_bytes = [], cw_disclose = False, cw_digest_id = 0\<rparr>"
    by (simp add: padding_claim_def padded_claim_def)
  then show ?thesis by (simp add: pad_claims_fit [OF assms] slots_def)
qed

lemma slots_fit: "claims_fit claims \<Longrightarrow> length (slots claims) = MAX_CLAIMS_V1 \<and> (\<forall>c \<in> set (slots claims). length (cw_bytes c) \<le> MAX_CLAIM_BYTES_V1)"
  by (auto simp: claims_fit_def slots_def)

definition step_of :: "bytes \<Rightarrow> ClaimWitness \<Rightarrow> ClaimDigestStepCircuit" where
  "step_of nonce c =
     \<lparr>sc_bytes = cw_bytes c @ replicate (MAX_CLAIM_BYTES_V1 - length (cw_bytes c)) 0, sc_real_len = length (cw_bytes c),
      sc_disclose = cw_disclose c, sc_digest_id = cw_digest_id c, sc_nonce = nonce\<rparr>"

lemma step_circuits_new:
  assumes "\<forall>c \<in> set cs. length (cw_bytes c) \<le> MAX_CLAIM_BYTES_V1"
  shows "map_result (\<lambda>c. step_circuit_new (pc_bytes c) (pc_real_len c) (pc_disclose c) (pc_digest_id c) nonce) (map padded_claim cs) =
    Inr (map (step_of nonce) cs)"
  using assms by (induction cs) (auto simp: step_circuit_new_def padded_claim_def step_of_def)

lemma claim_circuits_fit:
  assumes "claims_fit claims"
  shows "claim_circuits sha claims w body nonce =
    Inr (map (step_of nonce) (slots claims),
      core_circuit_new (ew_qx w) (ew_qy w) (ew_r w) (ew_s w) (ew_s_inv w) (map cw_digest_id (slots claims))
        (map (\<lambda>c. sha (cw_bytes c)) (slots claims)) body nonce)"
proof -
  have ids: "map (\<lambda>i. pc_digest_id (map padded_claim (slots claims) ! i)) [0..<MAX_CLAIMS_V1] = map cw_digest_id (slots claims)"
    using slots_fit [OF assms] by (auto simp: padded_claim_def intro!: nth_equalityI)
  show ?thesis
    using slots_fit [OF assms]
    by (simp add: claim_circuits_def padded_slots [OF assms] step_circuits_new core_digest_ids_def ids core_claim_digests_def
        claim_digest_bytes_def padded_claim_def comp_def)
qed

text \<open>The honest steps and core have the layouts that the check reads.\<close>

lemma honest_step_layout:
  assumes "length (cw_bytes c) \<le> MAX_CLAIM_BYTES_V1"
  shows "claim_step_public_values sha (step_of nonce c) =
    step_layout (sha (sha (cw_bytes c) @ nonce)) (dc_disclosed (honest_claim sha c)) (dc_real_len (honest_claim sha c))
      (dc_digest_id (honest_claim sha c))"
proof -
  have len: "(if cw_disclose c then word_of_nat (length (cw_bytes c)) else 0) = (word_of_nat (dc_real_len (honest_claim sha c)) :: byte)"
    by (simp add: honest_claim_def)
  have blinded: "map (\<lambda>b. if b then 1 else 0) (blinded_digest_bits sha (step_of nonce c)) =
      (native_bytes_to_bits (sha (sha (cw_bytes c) @ nonce)) :: 'a list)"
    by (auto simp: blinded_digest_bits_def bool_bits_be native_bytes_to_bits_be blind_digest_bytes_def digest_bytes_def step_of_def)
  show ?thesis
    unfolding claim_step_public_values_def Let_def blinded bits_of_byte step_layout_def
    by (simp add: step_of_def len) (simp add: honest_claim_def)
qed

lemma honest_core_layout:
  "claim_core_public_values sha (core_circuit_new qx qy r s si ids digests body nonce) =
    core_layout qx qy nonce (device_x body) (device_y body) (signed_ts body) (valid_from_ts body) (valid_until_ts body) ids
      (map (\<lambda>d. sha (d @ nonce)) digests)"
  by (simp add: claim_core_public_values_def core_circuit_new_def core_layout_def blind_digest_bytes_def comp_def)

definition body_ok :: "MsoBodyWitness \<Rightarrow> bool" where
  "body_ok body \<longleftrightarrow> length (device_x body) = 32 \<and> length (device_y body) = 32 \<and> length (signed_ts body) = TIMESTAMP_LEN \<and>
     length (valid_from_ts body) = TIMESTAMP_LEN \<and> length (valid_until_ts body) = TIMESTAMP_LEN"

definition honest_presentation :: "(bytes \<Rightarrow> bytes) \<Rightarrow> ClaimWitness list \<Rightarrow> 'f MdocEcdsaWitness \<Rightarrow> MsoBodyWitness \<Rightarrow> 'f VerifiedPresentation" where
  "honest_presentation sha claims w body =
     \<lparr>vp_qx = ew_qx w, vp_qy = ew_qy w, vp_claims = map (honest_claim sha) (slots claims), vp_device_x = device_x body,
      vp_device_y = device_y body, vp_signed_ts = signed_ts body, vp_valid_from_ts = valid_from_ts body,
      vp_valid_until_ts = valid_until_ts body\<rparr>"

lemma honest_bound:
  assumes sha: "\<And>m. length (sha m) = 32" and fit: "claims_fit claims" and body: "body_ok body" and nonce: "length nonce = BLIND_NONCE_BYTES"
  shows "bound_presentation sha (map (\<lambda>c. claim_step_public_values sha (step_of nonce c)) (slots claims))
    (core_layout (ew_qx w) (ew_qy w) nonce (device_x body) (device_y body) (signed_ts body) (valid_from_ts body) (valid_until_ts body)
      (map cw_digest_id (slots claims)) (map (\<lambda>c. sha (sha (cw_bytes c) @ nonce)) (slots claims)) :: 'f::field list)
    (disclosed_of claims) (honest_presentation sha claims w body) nonce (map (\<lambda>c. sha (sha (cw_bytes c) @ nonce)) (slots claims))"
proof -
  let ?s = "slots claims"
  have n: "length ?s = MAX_CLAIMS_V1" "\<forall>c \<in> set ?s. length (cw_bytes c) \<le> MAX_CLAIM_BYTES_V1" using slots_fit [OF fit] by simp_all
  have ids: "map dc_digest_id (map (honest_claim sha) ?s) = map cw_digest_id ?s" by (simp add: honest_claim_def)
  have steps: "map (\<lambda>c. claim_step_public_values sha (step_of nonce c)) ?s =
      (map (\<lambda>(c, b). step_layout b (dc_disclosed c) (dc_real_len c) (dc_digest_id c))
        (zip (map (honest_claim sha) ?s) (map (\<lambda>c. sha (sha (cw_bytes c) @ nonce)) ?s)) :: 'f list list)"
    using n(2) by (intro nth_equalityI) (simp_all add: honest_step_layout)
  have "slot_shows sha nonce (disclosed_of claims ! i) (sha (sha (cw_bytes (?s ! i)) @ nonce)) (honest_claim sha (?s ! i))"
    if "i < MAX_CLAIMS_V1" for i
    using that n sha by (auto simp: slot_shows_def disclosed_of_def honest_claim_def)
  then show ?thesis
    using n sha nonce body unfolding bound_presentation_def honest_presentation_def steps
    by (simp add: ids [unfolded map_map] core_ok_def body_ok_def disclosed_of_def)
qed

section \<open>Properties\<close>

text \<open>
  C7. The verifier's check of a presentation with selective disclosure accepts exactly the public values in which the
  core's values are the key, a nonce, the device key and timestamps of the fixed lengths, four identifiers
  and four blinded digests, each step carries the blinded digest and the identifier of its slot, a slot is
  disclosed exactly when bytes were supplied for it, and supplied bytes hash, blinded with the nonce, to
  the slot's digest and have the step's length. It then reports the key, those bytes and their digests, and nothing of the
  other slots. Everything else is refused as unsatisfiable, and no input makes the check panic.
\<close>

theorem binding_check_exact:
  fixes core :: "'f::field list"
  shows "(case (verify_and_check_binding sha steps core disclosed :: ('e, 'r) VegaMdocError + 'f VerifiedPresentation) of
      Inr p \<Rightarrow> (\<exists>nonce blinded. bound_presentation sha steps core disclosed p nonce blinded)
    | Inl e \<Rightarrow> e = CircuitError Unsatisfiable \<and> (\<nexists>p nonce blinded. bound_presentation sha steps core disclosed p nonce blinded))"
  using verify_and_check_binding_error [of sha steps core disclosed, where 'e = 'e and 'r = 'r]
    verify_and_check_binding_exact [of sha steps core disclosed, where 'e = 'e and 'r = 'r]
  by (auto split: sum.split)

text \<open>
  C8. Honest presentations are accepted. For at most four claims of at most 176 bytes, the circuits that \<open>prove\<close> builds
  have public values that the check accepts together with the bytes of the disclosed claims. It reports the
  issuer's key, the device key, the timestamps, the disclosed bytes with their digests and lengths and every identifier. More
  claims, or longer ones, are refused before the prover runs.
\<close>

theorem honest_presentation_accepted:
  assumes "\<And>m. length (sha m) = 32" "body_ok body" "length nonce = BLIND_NONCE_BYTES"
  shows "(case (claim_circuits sha claims w body nonce :: ('e, 'r) VegaMdocError + ClaimDigestStepCircuit list \<times> 'f::field MdocCoreCircuit) of
      Inr (steps, core) \<Rightarrow>
        (verify_and_check_binding sha (map (claim_step_public_values sha) steps) (claim_core_public_values sha core) (disclosed_of claims)
           :: ('e, 'r) VegaMdocError + 'f VerifiedPresentation) = Inr (honest_presentation sha claims w body)
    | Inl e \<Rightarrow> (if MAX_CLAIMS_V1 < length claims then e = TooManyClaims MAX_CLAIMS_V1 (length claims)
        else \<exists>c \<in> set claims. MAX_CLAIM_BYTES_V1 < length (cw_bytes c) \<and> e = ClaimTooLong MAX_CLAIM_BYTES_V1 (length (cw_bytes c))))"
proof (cases "claims_fit claims")
  case True
  let ?core = "core_layout (ew_qx w) (ew_qy w) nonce (device_x body) (device_y body) (signed_ts body) (valid_from_ts body) (valid_until_ts body)
      (map cw_digest_id (slots claims)) (map (\<lambda>c. sha (sha (cw_bytes c) @ nonce)) (slots claims)) :: 'f list"
  have "(verify_and_check_binding sha (map (\<lambda>c. claim_step_public_values sha (step_of nonce c)) (slots claims)) ?core (disclosed_of claims)
      :: ('e, 'r) VegaMdocError + 'f VerifiedPresentation) = Inr (honest_presentation sha claims w body)"
    using honest_bound [of sha claims body nonce w, OF assms(1) True assms(2,3)] by (auto simp: verify_and_check_binding_exact)
  then show ?thesis by (simp add: claim_circuits_fit [OF True] honest_core_layout comp_def)
next
  case False
  from pad_claims_unfit [OF this, where 'e = 'e and 'r = 'r] show ?thesis by (auto simp: claim_circuits_def)
qed

definition example_claims :: "ClaimWitness list" where
  "example_claims = [\<lparr>cw_bytes = [1, 2, 3], cw_disclose = True, cw_digest_id = 24\<rparr>,
     \<lparr>cw_bytes = [4, 5], cw_disclose = False, cw_digest_id = 7\<rparr>]"

definition example_key :: "rat MdocEcdsaWitness" where
  "example_key = \<lparr>ew_qx = 3, ew_qy = 4, ew_r = 5, ew_s = 6, ew_s_inv = 7\<rparr>"

lemma example_body_lengths: "body_ok example_body"
  by (simp add: body_ok_def example_body_def TIMESTAMP_LEN_def)

theorem honest_presentation_accepted_witness:
  "(case (claim_circuits native_digest example_claims example_key example_body (replicate BLIND_NONCE_BYTES 9) :: (unit, unit) VegaMdocError + _) of
      Inr (steps, core) \<Rightarrow>
        (verify_and_check_binding native_digest (map (claim_step_public_values native_digest) steps) (claim_core_public_values native_digest core)
           (disclosed_of example_claims) :: (unit, unit) VegaMdocError + _) =
        Inr (honest_presentation native_digest example_claims example_key example_body)
    | Inl e \<Rightarrow> (if MAX_CLAIMS_V1 < length example_claims then e = TooManyClaims MAX_CLAIMS_V1 (length example_claims)
        else \<exists>c \<in> set example_claims. MAX_CLAIM_BYTES_V1 < length (cw_bytes c) \<and> e = ClaimTooLong MAX_CLAIM_BYTES_V1 (length (cw_bytes c))))"
  by (rule honest_presentation_accepted) (simp_all add: native.length_digest example_body_lengths)

end
