(* ===== verification/Gates.thy ===== *)
theory Gates
  imports Select
begin

text \<open>
  What the rules of the claims' circuits use of bellpepper beyond \<open>Circuit\<close>: the gates \<open>Boolean::and\<close> and
  \<open>Boolean::or\<close>, constants, and \<open>AllocatedNum::inputize\<close>. The gates are the record \<open>gates\<close>, their laws the
  locale \<open>boolean_gates\<close>. Three patterns recur in the code and are proved here once: a selector of which one
  bit is set, a bit that equals a sum of selector bits, and a disjunction that is built one term at a time.
\<close>

section \<open>Gates\<close>

record 'f gates =
  gate_and :: "'f Boolean \<Rightarrow> 'f Boolean \<Rightarrow> ('f Boolean, 'f) synth"
  gate_or :: "'f Boolean \<Rightarrow> 'f Boolean \<Rightarrow> ('f Boolean, 'f) synth"
  gate_inputize :: "'f AllocatedNum \<Rightarrow> (unit, 'f) synth"

definition bool_constant :: "bool \<Rightarrow> 'f::field Boolean" where
  "bool_constant b = \<lparr>bool_lc = (if b then [(one, 1)] else []), bool_value = Some b\<rparr>"

text \<open>\<open>acc = Some(match acc { None => term, Some(prev) => Boolean::or(prev, term) })\<close>.\<close>

definition or_step :: "'f gates \<Rightarrow> string \<Rightarrow> 'f Boolean option \<Rightarrow> 'f Boolean \<Rightarrow> ('f Boolean option, 'f) synth" where
  "or_step G name acc term =
     (case acc of None \<Rightarrow> sret (Some term) | Some prev \<Rightarrow> sbind (ns name (gate_or G prev term)) (\<lambda>b. sret (Some b)))"

text \<open>A new bit with the rule that a sum of bits equals it.\<close>

definition alloc_sum_bit :: "'f::field bellpepper \<Rightarrow> string \<Rightarrow> bool \<Rightarrow> string \<Rightarrow> 'f Boolean list \<Rightarrow> ('f Boolean, 'f) synth" where
  "alloc_sum_bit L name v rule_name bs =
     sbind (ns name (alloc_bit L (Some v))) (\<lambda>b.
     sbind (enforce rule_name (concat (map bool_lc bs)) [(one, 1)] (bool_lc b)) (\<lambda>_. sret b))"

text \<open>The rule that a selector's bits add up to one.\<close>

definition one_hot_rule :: "string \<Rightarrow> 'f::field Boolean list \<Rightarrow> (unit, 'f) synth" where
  "one_hot_rule name bs = enforce name (concat (map bool_lc bs)) [(one, 1)] [(one, 1)]"

text \<open>\<open>iter().position(p)\<close>, and a loop whose body returns nothing.\<close>

fun position :: "('a \<Rightarrow> bool) \<Rightarrow> 'a list \<Rightarrow> nat option" where
  "position p [] = None"
| "position p (x # xs) = (if p x then Some 0 else map_option Suc (position p xs))"

definition sfor :: "('a \<Rightarrow> (unit, 'f) synth) \<Rightarrow> 'a list \<Rightarrow> (unit, 'f) synth" where
  "sfor f xs = sfold (\<lambda>x _. f x) xs ()"

lemma sound_sfor:
  assumes "\<And>x. x \<in> set xs \<Longrightarrow> sound w (f x) (\<lambda>_. R x)"
  shows "sound w (sfor f xs) (\<lambda>_. \<forall>x \<in> set xs. R x)"
  using assms unfolding sfor_def
proof (induction xs)
  case (Cons x xs)
  have "sound w (f x) (\<lambda>_. R x)" using Cons.prems by simp
  moreover have "sound w (sfold (\<lambda>x _. f x) xs ()) (\<lambda>_. \<forall>x \<in> set xs. R x)" using Cons by simp
  ultimately show ?case by (auto intro!: sound_sbind elim: sound_mono)
qed (simp add: sound_sret)

lemma keeps_sfor [keeps_intros]: "(\<And>x. keeps (f x)) \<Longrightarrow> keeps (sfor f xs)"
  unfolding sfor_def by (intro keeps_intros)

lemma bool_constant_bit [simp]:
  "assignment w \<Longrightarrow> is_bit w (bool_constant b)" "assignment w \<Longrightarrow> bval w (bool_constant b) \<longleftrightarrow> b"
  by (auto simp: bool_constant_def is_bit_def bval_def assignment_def one_def)

section \<open>Bytes of a bit list\<close>

definition byte_at :: "bool list \<Rightarrow> nat \<Rightarrow> byte" where
  "byte_at bs i = word_of_nat (bin_val (take 8 (drop (i * 8) bs)))"

lemma bits_bytes_map: "length bs = 8 * n \<Longrightarrow> bits_bytes bs = map (byte_at bs) [0..<n]"
proof (induction n arbitrary: bs)
  case (Suc n)
  have bs: "bs = take 8 bs @ drop 8 bs" "length (take 8 bs) = 8" "length (drop 8 bs) = 8 * n" using Suc.prems by simp_all
  have "chunks 8 bs = take 8 bs # chunks 8 (drop 8 bs)" by (subst bs(1), subst chunks_append) (use bs in auto)
  then have "bits_bytes bs = byte_at bs 0 # map (byte_at (drop 8 bs)) [0..<n]"
    using Suc.IH [OF bs(3)] by (simp add: bits_bytes_def byte_at_def)
  also have "map (byte_at (drop 8 bs)) [0..<n] = map (byte_at bs) [1..<Suc n]"
    by (simp add: map_Suc_upt [symmetric] byte_at_def add.commute del: upt_Suc)
  finally show ?case by (simp add: upt_conv_Cons del: upt_Suc)
qed (simp add: bits_bytes_def)

lemma byte_at_cong:
  assumes "\<And>k. k < 8 \<Longrightarrow> xs ! (i * 8 + k) \<longleftrightarrow> ys ! (j * 8 + k)" "i * 8 + 8 \<le> length xs" "j * 8 + 8 \<le> length ys"
  shows "byte_at xs i = byte_at ys j"
  unfolding byte_at_def using assms by (auto intro!: arg_cong [where f = "\<lambda>b. word_of_nat (bin_val b)"] nth_equalityI)

lemma byte_at_bits:
  assumes "\<And>k. k < 8 \<Longrightarrow> xs ! (i * 8 + k) \<longleftrightarrow> bit b (7 - k)" "i * 8 + 8 \<le> length xs"
  shows "byte_at xs i = (b :: byte)"
proof -
  have "take 8 (drop (i * 8) xs) = small_bits (unat b) 8"
    using assms by (intro nth_equalityI) (simp_all add: small_bits_def bit_unsigned_iff rev_nth del: upt_rec_numeral)
  then show ?thesis by (simp add: byte_at_def bin_val_small_bits of_nat_unat)
qed

lemma byte_at_zero: "(\<And>k. k < 8 \<Longrightarrow> \<not> xs ! (i * 8 + k)) \<Longrightarrow> i * 8 + 8 \<le> length xs \<Longrightarrow> byte_at xs i = 0"
  by (rule byte_at_bits) auto

section \<open>Selectors\<close>

definition one_hot :: "(var \<Rightarrow> 'f::field) \<Rightarrow> 'f Boolean list \<Rightarrow> nat \<Rightarrow> bool" where
  "one_hot w bs j \<longleftrightarrow> j < length bs \<and> list_all (is_bit w) bs \<and> (\<forall>i < length bs. bval w (bs ! i) \<longleftrightarrow> i = j)"

lemma ev_concat: "ev w (concat ls) = sum_list (map (ev w) ls)"
  by (induction ls) simp_all

lemma sound_one_hot_rule:
  assumes "scalar_repr (repr :: 'f::field \<Rightarrow> nat)" "assignment (w :: var \<Rightarrow> 'f)" "list_all (is_bit w) bs" "length bs < modulus"
  shows "sound w (one_hot_rule name bs) (\<lambda>_. \<exists>j. one_hot w bs j)"
  unfolding one_hot_rule_def
proof (rule sound_mono [OF sound_enforce])
  assume "ev w (concat (map bool_lc bs)) * ev w [(one, 1)] = ev w [(one, 1)]"
  then have "of_nat (length (filter (bval w) bs)) = (of_nat 1 :: 'f)"
    using assms(2) sum_bits_count [OF assms(3)] by (simp add: ev_concat comp_def assignment_def one_def)
  moreover have "length (filter (bval w) bs) < modulus" "1 < modulus"
    using le_less_trans [OF length_filter_le [of "bval w" bs] assms(4)] modulus_bounds(1) by simp_all
  ultimately have "length (filter (bval w) bs) = 1" using scalar_of_nat_inj [OF assms(1)] by blast
  then show "\<exists>j. one_hot w bs j" using count_one [of "bval w" bs] assms(3) by (auto simp: one_hot_def)
qed

lemma one_hot_sum:
  assumes "one_hot w bs j" "distinct is" "\<forall>i \<in> set is. i < length bs"
  shows "ev w (concat (map (\<lambda>i. bool_lc (bs ! i)) is)) = of_bool (j \<in> set is)"
  using assms(2,3)
proof (induction "is")
  case (Cons i "is")
  have "is_bit w (bs ! i)" "bval w (bs ! i) \<longleftrightarrow> i = j" using assms(1) Cons.prems by (auto simp: one_hot_def list_all_length)
  then show ?case using Cons by (auto simp: is_bit_of_bool)
qed simp

lemma sound_alloc_sum_bit:
  assumes "bellpepper_sound L" "assignment w" "one_hot w bs j" "distinct is" "\<forall>i \<in> set is. i < length bs"
  shows "sound w (alloc_sum_bit L name v rule_name (map (\<lambda>i. bs ! i) is)) (\<lambda>b. is_bit w b \<and> (bval w b \<longleftrightarrow> j \<in> set is))"
  unfolding alloc_sum_bit_def
  by (rule sound_sbind [OF sound_ns [OF sound_alloc_bit [OF assms(1,2)]]], rule sound_sbind [OF sound_enforce], rule sound_sret)
    (use assms(2) one_hot_sum [OF assms(3-5)] in \<open>auto simp: comp_def bval_def assignment_def one_def\<close>)

section \<open>The laws of the gates\<close>

definition acc_ok :: "(var \<Rightarrow> 'f::field) \<Rightarrow> 'f Boolean option \<Rightarrow> bool \<Rightarrow> bool" where
  "acc_ok w acc p \<longleftrightarrow> (case acc of None \<Rightarrow> \<not> p | Some b \<Rightarrow> is_bit w b \<and> (bval w b \<longleftrightarrow> p))"

lemma acc_ok_None [simp]: "acc_ok w None p \<longleftrightarrow> \<not> p"
  by (simp add: acc_ok_def)

locale boolean_gates =
  fixes G :: "'f::field gates"
  assumes and_law: "assignment w \<Longrightarrow> is_bit w a \<Longrightarrow> is_bit w b \<Longrightarrow>
      sound w (gate_and G a b) (\<lambda>c. is_bit w c \<and> (bval w c \<longleftrightarrow> bval w a \<and> bval w b))"
    and or_law: "assignment w \<Longrightarrow> is_bit w a \<Longrightarrow> is_bit w b \<Longrightarrow>
      sound w (gate_or G a b) (\<lambda>c. is_bit w c \<and> (bval w c \<longleftrightarrow> bval w a \<or> bval w b))"
    and gates_keep: "keeps (gate_and G a b)" "keeps (gate_or G a b)"
    and inputize_law: "assignment w \<Longrightarrow> sound_at w i (gate_inputize G n) (Suc i) (\<lambda>_. w (Input i) = w (num_var n))"
begin

lemma or_step_sound:
  assumes "assignment w" "acc_ok w acc p" "is_bit w t"
  shows "sound w (or_step G name acc t) (\<lambda>a. a \<noteq> None \<and> acc_ok w a (p \<or> bval w t))"
proof (cases acc)
  case None
  then show ?thesis using assms by (auto simp: or_step_def acc_ok_def intro!: sound_sret)
next
  case (Some prev)
  then have "is_bit w prev" "bval w prev \<longleftrightarrow> p" using assms by (simp_all add: acc_ok_def)
  then show ?thesis
    using or_law [OF assms(1) _ assms(3), of prev] Some
    by (auto simp: or_step_def acc_ok_def intro!: sound_sbind [OF sound_ns] sound_sret)
qed

lemma or_fold_sound:
  assumes "assignment w" "acc_ok w acc p" "\<And>x. x \<in> set xs \<Longrightarrow> sound w (term x) (\<lambda>t. is_bit w t \<and> (bval w t \<longleftrightarrow> P x))"
  shows "sound w (sfold (\<lambda>x acc. sbind (term x) (\<lambda>t. or_step G (name x) acc t)) xs acc)
    (\<lambda>a. acc_ok w a (p \<or> (\<exists>x \<in> set xs. P x)) \<and> (acc \<noteq> None \<or> xs \<noteq> [] \<longrightarrow> a \<noteq> None))"
  using assms(2,3)
proof (induction xs arbitrary: acc p)
  case (Cons x xs)
  have "sound w (sfold (\<lambda>x acc. sbind (term x) (\<lambda>t. or_step G (name x) acc t)) xs a)
      (\<lambda>a. acc_ok w a (p \<or> (\<exists>x \<in> set (x # xs). P x)) \<and> (acc \<noteq> None \<or> x # xs \<noteq> [] \<longrightarrow> a \<noteq> None))"
    if "a \<noteq> None" "acc_ok w a (p \<or> P x)" for a
    by (rule sound_mono [OF Cons.IH [OF that(2)]]) (use that Cons.prems in auto)
  moreover have "sound w (sbind (term x) (\<lambda>t. or_step G (name x) acc t)) (\<lambda>a. a \<noteq> None \<and> acc_ok w a (p \<or> P x))"
  proof (rule sound_sbind [OF Cons.prems(2)])
    fix t assume "is_bit w t \<and> (bval w t \<longleftrightarrow> P x)"
    then show "sound w (or_step G (name x) acc t) (\<lambda>a. a \<noteq> None \<and> acc_ok w a (p \<or> P x))"
      using or_step_sound [OF assms(1) Cons.prems(1), of t "name x"] by simp
  qed simp
  ultimately show ?case by (auto intro: sound_sbind)
qed (auto intro!: sound_sret)

lemma or_step_keeps [keeps_intros]: "keeps (or_step G name acc t)"
  unfolding or_step_def by (cases acc) (auto intro!: keeps_intros gates_keep)

end

lemma keeps_alloc_sum_bit [keeps_intros]: "bellpepper_inputs L \<Longrightarrow> keeps (alloc_sum_bit L name v rule_name bs)"
  unfolding alloc_sum_bit_def by (intro keeps_intros)

lemma keeps_one_hot_rule [keeps_intros]: "keeps (one_hot_rule name bs)"
  unfolding one_hot_rule_def by (intro keeps_intros)

section \<open>The laws can be met\<close>

definition plain_gate :: "(bool \<Rightarrow> bool \<Rightarrow> bool) \<Rightarrow> 'f lincomb \<Rightarrow> 'f lincomb \<Rightarrow> (var \<Rightarrow> 'f lincomb) \<Rightarrow> 'f Boolean \<Rightarrow> 'f Boolean \<Rightarrow>
    ('f Boolean, 'f::field) synth" where
  "plain_gate f l r res a b =
     (let v = Option.bind (bool_value a) (\<lambda>x. map_option (f x) (bool_value b)) in
      sbind (alloc (ok_or AssignmentMissing (map_option of_bool v))) (\<lambda>x.
      sbind (enforce ''gate'' l r (res x)) (\<lambda>_. sret \<lparr>bool_lc = [(x, 1)], bool_value = v\<rparr>)))"

definition negated :: "'f::field Boolean \<Rightarrow> 'f lincomb" where
  "negated b = (one, 1) # map (\<lambda>(v, d). (v, - d)) (bool_lc b)"

definition plain_gates :: "'f::field gates" where
  "plain_gates =
     \<lparr>gate_and = (\<lambda>a b. plain_gate (\<and>) (bool_lc a) (bool_lc b) (\<lambda>x. [(x, 1)]) a b),
      gate_or = (\<lambda>a b. plain_gate (\<or>) (negated a) (negated b) (\<lambda>x. [(one, 1), (x, -1)]) a b),
      gate_inputize = (\<lambda>n. sbind (alloc_input (ok_or AssignmentMissing (num_value n))) (\<lambda>x.
        enforce ''enforce input is correct'' [(x, 1)] [(one, 1)] [(num_var n, 1)]))\<rparr>"

lemma plain_gate_sound:
  assumes "\<And>x. ev w l * ev w r = ev w (res x) \<Longrightarrow> w x = of_bool p"
  shows "sound w (plain_gate f l r res a b) (\<lambda>c. is_bit w c \<and> (bval w c \<longleftrightarrow> p))"
  unfolding plain_gate_def Let_def
  by (rule sound_sbind [OF sound_True], rule sound_sbind [OF sound_enforce], rule sound_sret)
    (use assms in \<open>auto simp: is_bit_def bval_def\<close>)

lemma ev_negated: "assignment w \<Longrightarrow> is_bit w b \<Longrightarrow> ev w (negated b) = of_bool (\<not> bval w b)"
  by (auto simp: negated_def assignment_def one_def is_bit_of_bool)

interpretation plain: boolean_gates plain_gates
proof
  fix w :: "var \<Rightarrow> 'a::field" and a b :: "'a Boolean"
  assume w: "assignment w" and bits: "is_bit w a" "is_bit w b"
  show "sound w (gate_and plain_gates a b) (\<lambda>c. is_bit w c \<and> (bval w c \<longleftrightarrow> bval w a \<and> bval w b))"
    unfolding plain_gates_def gates.simps
    by (rule plain_gate_sound) (use bits in \<open>auto simp: is_bit_of_bool split: if_splits\<close>)
  show "sound w (gate_or plain_gates a b) (\<lambda>c. is_bit w c \<and> (bval w c \<longleftrightarrow> bval w a \<or> bval w b))"
    unfolding plain_gates_def gates.simps
    by (rule plain_gate_sound)
      (use w in \<open>auto simp: ev_negated [OF w bits(1)] ev_negated [OF w bits(2)] assignment_def one_def split: if_splits\<close>)
next
  fix a b :: "'a Boolean"
  show "keeps (gate_and plain_gates a b)" "keeps (gate_or plain_gates a b)"
    unfolding plain_gates_def gates.simps plain_gate_def Let_def by (intro keeps_intros)+
next
  fix w :: "var \<Rightarrow> 'a" and i n
  assume w: "assignment w"
  have "sound_at w i (alloc_input v) (Suc i) (\<lambda>x. x = Input i)" for v
    by (auto simp: sound_at_def alloc_input_def split: if_splits sum.splits)
  note input = sound_at_sbind [OF this]
  show "sound_at w i (gate_inputize plain_gates n) (Suc i) (\<lambda>_. w (Input i) = w (num_var n))"
    unfolding plain_gates_def gates.simps
    by (rule input, rule sound_at_mono [OF sound_at_keeps [OF sound_enforce]])
      (use w in \<open>auto simp: assignment_def one_def intro: keeps_intros\<close>)
qed

end
