(* ===== verification/OneHotCursor.thy ===== *)
theory OneHotCursor
  imports Gates
begin

text \<open>
  Selectors over a set of offsets (\<open>onehot_cursor.rs\<close>): \<open>alloc_one_hot\<close> allocates one, \<open>convolve_sum\<close> adds two.
  \<open>selects w bs vs v\<close> says that the selector \<open>bs\<close> over the values \<open>vs\<close> has its one bit at the value \<open>v\<close>.
\<close>

section \<open>The gadgets\<close>

definition alloc_one_hot :: "'f::field bellpepper \<Rightarrow> nat list \<Rightarrow> nat \<Rightarrow> ('f Boolean list, 'f) synth" where
  "alloc_one_hot L vals real_value =
     (case position (\<lambda>v. v = real_value) vals of
        None \<Rightarrow> sfail Panicked
      | Some real_idx \<Rightarrow>
          sbind (smap (\<lambda>idx. ns (''one_hot '' @ show_nat idx) (alloc_bit L (Some (idx = real_idx)))) [0..<length vals]) (\<lambda>onehot.
          sbind (one_hot_rule ''one_hot sums to exactly 1'' onehot) (\<lambda>_. sret onehot)))"

text \<open>The pairs that the inner loops of \<open>convolve_sum\<close> visit for one sum, in their order.\<close>

definition sum_pairs :: "nat list \<Rightarrow> nat list \<Rightarrow> nat \<Rightarrow> (nat \<times> nat) list" where
  "sum_pairs a_values b_values sv =
     filter (\<lambda>(i, j). a_values ! i + b_values ! j = sv) (List.product [0..<length a_values] [0..<length b_values])"

definition convolve_name :: "string \<Rightarrow> nat \<Rightarrow> nat \<Rightarrow> nat \<times> nat \<Rightarrow> string" where
  "convolve_name kind sv out_idx = (\<lambda>(i, j). kind @ '' sum='' @ show_nat sv @ '' out='' @ show_nat out_idx @ '' a='' @ show_nat i @ '' b='' @ show_nat j)"

definition convolve_one ::
  "'f gates \<Rightarrow> 'f Boolean list \<Rightarrow> nat list \<Rightarrow> 'f Boolean list \<Rightarrow> nat list \<Rightarrow> nat \<times> nat \<Rightarrow> ('f Boolean, 'f::field) synth" where
  "convolve_one G a a_values b b_values = (\<lambda>(out_idx, sv).
     sbind (sfold (\<lambda>x acc. sbind (ns (convolve_name ''convolve'' sv out_idx x) (gate_and G (a ! fst x) (b ! snd x)))
         (\<lambda>t. or_step G (convolve_name ''convolve-or'' sv out_idx x) acc t)) (sum_pairs a_values b_values sv) None)
       (\<lambda>acc. case acc of None \<Rightarrow> sfail Panicked | Some b \<Rightarrow> sret b))"

definition convolve_sum ::
  "'f gates \<Rightarrow> 'f Boolean list \<Rightarrow> nat list \<Rightarrow> 'f Boolean list \<Rightarrow> nat list \<Rightarrow> ('f Boolean list \<times> nat list, 'f::field) synth" where
  "convolve_sum G a a_values b b_values =
     sbind (sassert (length a = length a_values)) (\<lambda>_.
     sbind (sassert (length b = length b_values)) (\<lambda>_.
     let sum_values = remdups_adj (sort (concat (map (\<lambda>av. map (\<lambda>bv. av + bv) b_values) a_values))) in
     sbind (smap (convolve_one G a a_values b b_values) (enumerate 0 sum_values)) (\<lambda>sum_onehot.
     sret (sum_onehot, sum_values))))"

section \<open>What the rules force\<close>

definition selects :: "(var \<Rightarrow> 'f::field) \<Rightarrow> 'f Boolean list \<Rightarrow> nat list \<Rightarrow> nat \<Rightarrow> bool" where
  "selects w bs vs v \<longleftrightarrow> length bs = length vs \<and> (\<exists>j. one_hot w bs j \<and> vs ! j = v)"

lemma distinct_dedup: "sorted xs \<Longrightarrow> distinct (remdups_adj (xs :: nat list))"
proof (induction xs rule: remdups_adj.induct)
  case (3 x y xs)
  then show ?case by (cases "x = y") (auto simp del: remdups_adj.simps simp: remdups_adj.simps(3))
qed simp_all

lemma sound_alloc_one_hot:
  assumes "scalar_repr (repr :: 'f::field \<Rightarrow> nat)" "bellpepper_sound L" "assignment (w :: var \<Rightarrow> 'f)" "length vals < modulus"
  shows "sound w (alloc_one_hot L vals v) (\<lambda>bs. \<exists>u \<in> set vals. selects w bs vals u)"
proof (cases "position (\<lambda>u. u = v) vals")
  case (Some k)
  have "sound w (smap (\<lambda>idx. ns (''one_hot '' @ show_nat idx) (alloc_bit L (Some (idx = k)))) [0..<length vals])
      (list_all2 (\<lambda>_. is_bit w) [0..<length vals])"
    by (intro sound_smap sound_ns sound_alloc_bit assms)
  then show ?thesis
    unfolding alloc_one_hot_def Some option.case
  proof (rule sound_sbind)
    fix bs assume "list_all2 (\<lambda>_. is_bit w) [0..<length vals] bs"
    then have bs: "length bs = length vals" "list_all (is_bit w) bs" by (auto simp: list_all2_conv_all_nth list_all_length)
    show "sound w (sbind (one_hot_rule ''one_hot sums to exactly 1'' bs) (\<lambda>_. sret bs)) (\<lambda>bs. \<exists>u \<in> set vals. selects w bs vals u)"
      by (rule sound_sbind [OF sound_one_hot_rule [OF assms(1,3) bs(2)]])
        (use bs assms(4) in \<open>auto simp: selects_def one_hot_def intro!: sound_sret bexI [OF _ nth_mem]\<close>)
  qed
qed (simp add: alloc_one_hot_def sound_sfail)

context boolean_gates begin

lemma convolve_one_sound:
  assumes w: "assignment w" and a: "one_hot w a i" "length a = length a_values" and b: "one_hot w b j" "length b = length b_values"
  shows "sound w (convolve_one G a a_values b b_values x) (\<lambda>t. is_bit w t \<and> (bval w t \<longleftrightarrow> a_values ! i + b_values ! j = snd x))"
proof -
  obtain k sv where x: "x = (k, sv)" by (cases x)
  have bits: "is_bit w (a ! p)" "bval w (a ! p) \<longleftrightarrow> p = i" if "p < length a_values" for p
    using a that by (auto simp: one_hot_def list_all_length)
  have bits': "is_bit w (b ! q)" "bval w (b ! q) \<longleftrightarrow> q = j" if "q < length b_values" for q
    using b that by (auto simp: one_hot_def list_all_length)
  let ?xs = "sum_pairs a_values b_values sv"
  have terms: "sound w (ns (convolve_name ''convolve'' sv k y) (gate_and G (a ! fst y) (b ! snd y)))
      (\<lambda>t. is_bit w t \<and> (bval w t \<longleftrightarrow> y = (i, j)))" if mem: "y \<in> set ?xs" for y
  proof -
    obtain p q where pq: "y = (p, q)" by (cases y)
    then have y: "y = (p, q)" "p < length a_values" "q < length b_values" using mem by (auto simp: sum_pairs_def)
    show ?thesis
      by (intro sound_ns sound_mono [OF and_law [OF w]]) (use y bits [OF y(2)] bits' [OF y(3)] in auto)
  qed
  have ij: "(i, j) \<in> set ?xs \<longleftrightarrow> a_values ! i + b_values ! j = sv" using a b by (auto simp: sum_pairs_def one_hot_def)
  show ?thesis
    unfolding convolve_one_def x prod.case
  proof (rule sound_sbind [OF or_fold_sound [OF w _ terms, where p = False]])
    fix acc assume "acc_ok w acc (False \<or> (\<exists>y \<in> set ?xs. y = (i, j))) \<and> (None \<noteq> None \<or> ?xs \<noteq> [] \<longrightarrow> acc \<noteq> None)"
    then show "sound w (case acc of None \<Rightarrow> sfail Panicked | Some b \<Rightarrow> sret b)
        (\<lambda>t. is_bit w t \<and> (bval w t \<longleftrightarrow> a_values ! i + b_values ! j = snd (k, sv)))"
      using ij by (auto simp: acc_ok_def split: option.splits intro: sound_sret sound_sfail)
  qed simp_all
qed

lemma convolve_sum_sound:
  assumes w: "assignment w" and a: "selects w a a_values u" and b: "selects w b b_values v"
  shows "sound w (convolve_sum G a a_values b b_values)
    (\<lambda>(s, vs). distinct vs \<and> set vs = {x + y | x y. x \<in> set a_values \<and> y \<in> set b_values} \<and> selects w s vs (u + v))"
proof -
  let ?vs = "remdups_adj (sort (concat (map (\<lambda>av. map (\<lambda>bv. av + bv) b_values) a_values)))"
  have vs: "distinct ?vs" "set ?vs = {x + y | x y. x \<in> set a_values \<and> y \<in> set b_values}"
    by (auto simp: distinct_dedup)
  obtain i j where i: "one_hot w a i" "a_values ! i = u" "length a = length a_values"
    and j: "one_hot w b j" "b_values ! j = v" "length b = length b_values"
    using a b by (auto simp: selects_def)
  have "u + v \<in> set ?vs" using i j by (force simp: vs(2) one_hot_def)
  then obtain k where k: "k < length ?vs" "?vs ! k = u + v" unfolding in_set_conv_nth by blast
  have "sound w (smap (convolve_one G a a_values b b_values) (enumerate 0 ?vs))
      (list_all2 (\<lambda>x t. is_bit w t \<and> (bval w t \<longleftrightarrow> a_values ! i + b_values ! j = snd x)) (enumerate 0 ?vs))"
    by (intro sound_smap convolve_one_sound [OF w i(1,3) j(1,3)])
  then have "sound w (smap (convolve_one G a a_values b b_values) (enumerate 0 ?vs)) (\<lambda>s. selects w s ?vs (u + v))"
  proof (rule sound_mono)
    fix s assume s: "list_all2 (\<lambda>x t. is_bit w t \<and> (bval w t \<longleftrightarrow> a_values ! i + b_values ! j = snd x)) (enumerate 0 ?vs) s"
    then have "one_hot w s k"
      using k i(2) j(2) vs(1) by (auto simp: one_hot_def list_all2_conv_all_nth list_all_length nth_enumerate_eq nth_eq_iff_index_eq)
    then show "selects w s ?vs (u + v)" using k s by (auto simp: selects_def list_all2_conv_all_nth)
  qed
  then show ?thesis
    unfolding convolve_sum_def Let_def
    by (intro sound_sbind [OF sound_sassert [where Q = "\<lambda>_. True"]] sound_sbind [where R = "\<lambda>s. selects w s ?vs (u + v)"])
      (auto intro!: sound_sret simp: distinct_dedup, blast+)
qed

lemma keeps_convolve_one [keeps_intros]: "keeps (convolve_one G a a_values b b_values x)"
  unfolding convolve_one_def by (cases x) (auto intro!: keeps_intros gates_keep)

lemma keeps_convolve_sum [keeps_intros]: "keeps (convolve_sum G a a_values b b_values)"
  unfolding convolve_sum_def Let_def by (intro keeps_intros)

end

end
