(* ===== verification/DigestIdExtract.thy ===== *)
theory DigestIdExtract
  imports OneHotCursor CborUint
begin

text \<open>
  The \<open>digestID\<close> inside a claim's bytes (\<open>digest_id_extract.rs\<close>). The gadget supplies the number's 32 bits and a
  length class, and constrains the five bytes at a fixed offset to encode it. \<open>extract_digest_id_sound\<close> says
  what the rules force: the reader of \<open>CborUint\<close>, run on those bytes, returns the exposed number.
\<close>

section \<open>The gadget\<close>

definition DIGEST_ID_OFFSET_BYTES :: nat where "DIGEST_ID_OFFSET_BYTES = 2 + 2 + 1 + 7 + 34 + 9"

record 'f ExtractedDigestId =
  value_bits :: "'f Boolean list"
  encoded_bits :: "'f Boolean list"

definition CLASS_MARKERS :: "bytes" where "CLASS_MARKERS = [0, 0x18, 0x19, 0x1a]"

text \<open>The width of a class from 0 to 3, where \<open>class_byte_width\<close> does not panic.\<close>

definition class_width :: "nat \<Rightarrow> nat" where
  "class_width c = (case class_byte_width c of Some n \<Rightarrow> n | None \<Rightarrow> 0)"

definition byte_active_in_class :: "nat \<Rightarrow> nat \<Rightarrow> bool" where
  "byte_active_in_class byte_idx c \<longleftrightarrow> byte_idx < class_width c"

definition value_byte_out_pos :: "nat \<Rightarrow> nat \<Rightarrow> nat option" where
  "value_byte_out_pos c byte_idx =
    (let width = class_width c in
     if width \<le> byte_idx then None
     else let value_byte_indices = (if c = 0 then [0] else [1..<width]);
              pad = 4 - length value_byte_indices
          in map_option (\<lambda>pos. pad + pos) (position (\<lambda>x. x = byte_idx) value_byte_indices))"

definition class_selector :: "'f::field bellpepper \<Rightarrow> nat \<Rightarrow> ('f Boolean list, 'f) synth" where
  "class_selector L real_class =
     sbind (smap (\<lambda>c. ns (''digest_id class '' @ show_nat c) (alloc_bit L (Some (c = real_class)))) [0..<4]) (\<lambda>sel.
     sbind (one_hot_rule ''digest_id class_selector is one-hot'' sel) (\<lambda>_. sret sel))"

definition active_bit :: "'f::field bellpepper \<Rightarrow> nat \<Rightarrow> 'f Boolean list \<Rightarrow> nat \<Rightarrow> ('f Boolean, 'f) synth" where
  "active_bit L real_class sel byte_idx =
     alloc_sum_bit L (''digest_id byte '' @ show_nat byte_idx @ '' active'') (byte_active_in_class byte_idx real_class)
       (''digest_id byte '' @ show_nat byte_idx @ '' active matches selector sum'')
       (map (\<lambda>c. sel ! c) (filter (byte_active_in_class byte_idx) [0..<4]))"

definition digest_id_bits :: "'f::field bellpepper \<Rightarrow> u32 \<Rightarrow> ('f Boolean list, 'f) synth" where
  "digest_id_bits L digest_id =
     smap (\<lambda>i. ns (''digest_id value bit '' @ show_nat i) (alloc_bit L (Some (bit digest_id (31 - i))))) [0..<32]"

definition at_bit :: "nat \<Rightarrow> nat \<Rightarrow> string" where
  "at_bit byte_idx bit_idx = '' byte '' @ show_nat byte_idx @ '' bit '' @ show_nat bit_idx"

definition expected_term ::
  "'f gates \<Rightarrow> 'f Boolean list \<Rightarrow> 'f Boolean list \<Rightarrow> nat \<Rightarrow> nat \<Rightarrow> nat \<Rightarrow> ('f::field Boolean, 'f) synth" where
  "expected_term G sel vbits byte_idx bit_idx c =
    (if byte_idx = 0 \<and> c \<noteq> 0 then sret (if bit (CLASS_MARKERS ! c) (7 - bit_idx) then sel ! c else bool_constant False)
     else case value_byte_out_pos c byte_idx of
         None \<Rightarrow> sfail Panicked
       | Some out_pos \<Rightarrow> ns (''digest_id expected'' @ at_bit byte_idx bit_idx @ '' class '' @ show_nat c)
           (gate_and G (sel ! c) (vbits ! (out_pos * 8 + bit_idx))))"

definition expected_bit ::
  "'f gates \<Rightarrow> 'f Boolean list \<Rightarrow> 'f Boolean list \<Rightarrow> nat \<Rightarrow> nat \<Rightarrow> ('f::field Boolean, 'f) synth" where
  "expected_bit G sel vbits byte_idx bit_idx =
     sbind (sfold (\<lambda>c acc. sbind (expected_term G sel vbits byte_idx bit_idx c) (\<lambda>t.
         or_step G (''digest_id expected-or'' @ at_bit byte_idx bit_idx @ '' class '' @ show_nat c) acc t))
       (filter (byte_active_in_class byte_idx) [0..<4]) None) (\<lambda>acc.
     sret (case acc of None \<Rightarrow> bool_constant False | Some b \<Rightarrow> b))"

definition window_bit_rules ::
  "'f gates \<Rightarrow> 'f Boolean list \<Rightarrow> 'f Boolean list \<Rightarrow> 'f Boolean list \<Rightarrow> 'f Boolean list \<Rightarrow> nat \<times> nat \<Rightarrow> ('f::field Boolean, 'f) synth" where
  "window_bit_rules G window_bits sel active vbits = (\<lambda>(byte_idx, bit_idx).
     sbind (expected_bit G sel vbits byte_idx bit_idx) (\<lambda>expected.
     let window_bit = window_bits ! (byte_idx * 8 + bit_idx) in
     sbind (enforce (''digest_id window'' @ at_bit byte_idx bit_idx @ '' matches expected encoding when active'')
       (bool_lc window_bit @ map (\<lambda>(v, d). (v, - d)) (bool_lc expected)) (bool_lc (active ! byte_idx)) []) (\<lambda>_.
     ns (''digest_id mask'' @ at_bit byte_idx bit_idx) (gate_and G window_bit (active ! byte_idx)))))"

text \<open>The bytes of the number that a class leaves out, which its selector forces to zero.\<close>

definition uncovered :: "nat \<Rightarrow> nat list" where
  "uncovered c = filter (\<lambda>out_pos. out_pos \<notin> set (List.map_filter (value_byte_out_pos c) [0..<MAX_CBOR_UINT_BYTES])) [0..<4]"

definition zero_rules :: "'f Boolean list \<Rightarrow> 'f Boolean list \<Rightarrow> (unit, 'f::field) synth" where
  "zero_rules sel vbits =
     sfor (\<lambda>c. sfor (\<lambda>out_pos. sfor (\<lambda>bit_idx.
         enforce (''digest_id class '' @ show_nat c @ '' forces value byte '' @ show_nat out_pos @ '' bit '' @ show_nat bit_idx @ '' to zero'')
           (bool_lc (vbits ! (out_pos * 8 + bit_idx))) (bool_lc (sel ! c)) [])
       [0..<8]) (uncovered c)) [0..<4]"

definition class0_rule :: "'f gates \<Rightarrow> 'f Boolean list \<Rightarrow> 'f Boolean list \<Rightarrow> (unit, 'f::field) synth" where
  "class0_rule G byte0 sel =
     sbind (ns ''digest_id class0 top3 or a'' (gate_or G (byte0 ! 0) (byte0 ! 1))) (\<lambda>bit128_or_64.
     sbind (ns ''digest_id class0 top3 or b'' (gate_or G bit128_or_64 (byte0 ! 2))) (\<lambda>top3_nonzero.
     sbind (ns ''digest_id class0 bit16 and bit8'' (gate_and G (byte0 ! 3) (byte0 ! 4))) (\<lambda>bit16_and_8.
     sbind (ns ''digest_id class0 too_big'' (gate_or G top3_nonzero bit16_and_8)) (\<lambda>too_big.
     enforce ''digest_id class0 value < 24 when class 0 selected'' (bool_lc too_big) (bool_lc (sel ! 0)) []))))"

definition class3_rule :: "'f Boolean list \<Rightarrow> 'f Boolean list \<Rightarrow> (unit, 'f::field) synth" where
  "class3_rule window_bits sel =
     enforce ''digest_id class3 value < 2^31 when class 3 selected'' (bool_lc (window_bits ! 8)) (bool_lc (sel ! 3)) []"

definition extract_digest_id ::
  "'f::field bellpepper \<Rightarrow> 'f gates \<Rightarrow> 'f Boolean list \<Rightarrow> nat \<Rightarrow> u32 \<Rightarrow> ('f ExtractedDigestId, 'f) synth" where
  "extract_digest_id L G item_bits offset_bytes digest_id =
     sbind (sassert ((offset_bytes + MAX_CBOR_UINT_BYTES) * 8 \<le> length item_bits)) (\<lambda>_.
     sbind (sassert (digest_id \<le> MAX_DIGEST_ID)) (\<lambda>_.
     let window_bits = take (MAX_CBOR_UINT_BYTES * 8) (drop (offset_bytes * 8) item_bits);
         real_class = length_class digest_id in
     sbind (class_selector L real_class) (\<lambda>sel.
     sbind (smap (active_bit L real_class sel) [0..<MAX_CBOR_UINT_BYTES]) (\<lambda>active.
     sbind (digest_id_bits L digest_id) (\<lambda>vbits.
     sbind (smap (window_bit_rules G window_bits sel active vbits) (List.product [0..<MAX_CBOR_UINT_BYTES] [0..<8])) (\<lambda>ebits.
     sbind (zero_rules sel vbits) (\<lambda>_.
     sbind (class0_rule G (take 8 window_bits) sel) (\<lambda>_.
     sbind (class3_rule window_bits sel) (\<lambda>_.
     sret \<lparr>value_bits = vbits, encoded_bits = ebits\<rparr>)))))))))"

section \<open>The encoding that a class prescribes\<close>

text \<open>The bit that class \<open>c\<close> puts at a place of the window, for a number with the bits \<open>vs\<close>.\<close>

definition class_bit :: "bool list \<Rightarrow> nat \<Rightarrow> nat \<Rightarrow> nat \<Rightarrow> bool" where
  "class_bit vs c byte_idx bit_idx \<longleftrightarrow>
    (if byte_idx = 0 \<and> c \<noteq> 0 then bit (CLASS_MARKERS ! c) (7 - bit_idx)
     else case value_byte_out_pos c byte_idx of Some p \<Rightarrow> vs ! (p * 8 + bit_idx) | None \<Rightarrow> False)"

definition class_fits :: "bool list \<Rightarrow> bool list \<Rightarrow> nat \<Rightarrow> bool" where
  "class_fits ws vs c \<longleftrightarrow>
     (\<forall>i < class_width c. \<forall>k < 8. ws ! (i * 8 + k) \<longleftrightarrow> class_bit vs c i k) \<and>
     (\<forall>p \<in> set (uncovered c). \<forall>k < 8. \<not> vs ! (p * 8 + k)) \<and>
     (c = 0 \<longrightarrow> \<not> (ws ! 0 \<or> ws ! 1 \<or> ws ! 2 \<or> ws ! 3 \<and> ws ! 4)) \<and> (c = 3 \<longrightarrow> \<not> ws ! 8)"

lemma class_width_simps [simp]: "class_width 0 = 1" "class_width (Suc 0) = 2" "class_width 2 = 3" "class_width 3 = 5"
  by (simp_all add: class_width_def class_byte_width_def MAX_CBOR_UINT_BYTES_def)

lemma class_width_pos: "c < 4 \<Longrightarrow> 0 < class_width c \<and> class_width c \<le> MAX_CBOR_UINT_BYTES"
  by (auto simp: less_Suc_eq numeral_eq_Suc class_width_def class_byte_width_def MAX_CBOR_UINT_BYTES_def)

lemma out_pos_simps [simp]:
  "value_byte_out_pos 0 0 = Some 3" "value_byte_out_pos (Suc 0) (Suc 0) = Some 3"
  "value_byte_out_pos 2 (Suc 0) = Some 2" "value_byte_out_pos 2 2 = Some 3"
  "value_byte_out_pos 3 (Suc 0) = Some 0" "value_byte_out_pos 3 2 = Some 1" "value_byte_out_pos 3 3 = Some 2"
  "value_byte_out_pos 3 4 = Some 3"
  by code_simp+

lemma uncovered_simps [simp]: "uncovered 0 = [0, 1, 2]" "uncovered (Suc 0) = [0, 1, 2]" "uncovered 2 = [0, 1]" "uncovered 3 = []"
  by code_simp+

lemma out_pos_active:
  assumes "c < 4" "byte_active_in_class i c" "\<not> (i = 0 \<and> c \<noteq> 0)"
  shows "\<exists>p < 4. value_byte_out_pos c i = Some p"
proof -
  have c: "c = 0 \<or> c = Suc 0 \<or> c = 2 \<or> c = 3" using assms(1) by linarith
  have "i < class_width c" using assms(2) by (simp add: byte_active_in_class_def)
  with c have "c = 0 \<and> i = 0 \<or> c = Suc 0 \<and> i < 2 \<or> c = 2 \<and> i < 3 \<or> c = 3 \<and> i < 5" by auto
  then have "c = 0 \<and> i = 0 \<or> c = Suc 0 \<and> i = Suc 0 \<or> c = 2 \<and> (i = Suc 0 \<or> i = 2) \<or> c = 3 \<and> (i = Suc 0 \<or> i = 2 \<or> i = 3 \<or> i = 4)"
    using assms(3) by linarith
  then show ?thesis by auto
qed

lemma byte_at_small:
  assumes "\<not> (xs ! 0 \<or> xs ! 1 \<or> xs ! 2 \<or> xs ! 3 \<and> xs ! 4)" "8 \<le> length xs"
  shows "byte_at xs 0 < 24"
proof -
  obtain a b c d e r where xs: "xs = a # b # c # d # e # r" using assms(2)
    by (auto simp: numeral_eq_Suc Suc_le_length_iff)
  have "bin_val (take 8 xs) < 24" using assms bin_val_less [of "take 3 r"] by (auto simp: xs bin_val_Cons)
  then show ?thesis by (simp add: byte_at_def word_less_nat_alt unat_of_nat)
qed

lemma class_fits_byte:
  assumes "class_fits ws vs c" "length ws = 40" "length vs = 32" "i < class_width c" "c < 4"
  shows "byte_at ws i = (if i = 0 \<and> c \<noteq> 0 then CLASS_MARKERS ! c else byte_at vs (the (value_byte_out_pos c i)))"
proof -
  have i: "i * 8 + 8 \<le> length ws" using assms(2,4) class_width_pos [OF assms(5)] by (simp add: MAX_CBOR_UINT_BYTES_def)
  have bits: "ws ! (i * 8 + k) \<longleftrightarrow> class_bit vs c i k" if "k < 8" for k using assms(1,4) that by (simp add: class_fits_def)
  show ?thesis
  proof (cases "i = 0 \<and> c \<noteq> 0")
    case True
    then show ?thesis using byte_at_bits [OF _ i, of "CLASS_MARKERS ! c"] bits by (simp add: class_bit_def)
  next
    case False
    then obtain q where q: "q < 4" "value_byte_out_pos c i = Some q"
      using out_pos_active [OF assms(5)] assms(4) by (auto simp: byte_active_in_class_def)
    have "byte_at ws i = byte_at vs q"
      by (rule byte_at_cong [OF _ i]) (use q assms(3) bits False in \<open>auto simp: class_bit_def\<close>)
    then show ?thesis using q by (simp only: if_not_P [OF False] option.sel)
  qed
qed

lemma class_fits_zero:
  "class_fits ws vs c \<Longrightarrow> length vs = 32 \<Longrightarrow> p \<in> set (uncovered c) \<Longrightarrow> byte_at vs p = 0"
  by (rule byte_at_zero) (auto simp: class_fits_def uncovered_def)

lemma top_bit_clear:
  assumes "\<not> xs ! (i * 8)" "i * 8 + 8 \<le> length xs"
  shows "unat (byte_at xs i) < 128"
proof -
  have "take 8 (drop (i * 8) xs) = False # take 7 (drop (Suc (i * 8)) xs)"
    using assms by (intro nth_equalityI) (auto simp: nth_Cons split: nat.splits)
  moreover have "bin_val (take 7 (drop (Suc (i * 8)) xs)) < 128" using bin_val_less [of "take 7 (drop (Suc (i * 8)) xs)"] assms by simp
  ultimately show ?thesis by (simp add: byte_at_def bin_val_Cons unat_of_nat)
qed

lemma upt_small: "[0..<4] = [0, 1, 2, 3 :: nat]" "[0..<5] = [0, 1, 2, 3, 4 :: nat]"
  by code_simp+

lemma class_fits_decode:
  assumes fits: "class_fits ws vs c" and len: "length ws = 40" "length vs = 32" and c: "c < 4"
  shows "decode_cbor_uint (bits_bytes ws) = Some (word_of_nat (bin_val vs), class_width c) \<and> bin_val vs < 2 ^ 31"
proof -
  let ?w = "byte_at ws" and ?v = "byte_at vs"
  have ws: "bits_bytes ws = [?w 0, ?w 1, ?w 2, ?w 3, ?w 4]" using bits_bytes_map [of ws 5] len by (simp add: upt_small)
  have "bits_bytes vs = [?v 0, ?v 1, ?v 2, ?v 3]" using bits_bytes_map [of vs 4] len by (simp add: upt_small)
  then have vs: "bin_val vs = be_val [?v 0, ?v 1, ?v 2, ?v 3]" using be_val_bits_bytes [of vs 4] len by simp
  note bytes = class_fits_byte [OF fits len _ c] and zero = class_fits_zero [OF fits len(2)]
  note decode = decode_cbor_uint_def get_range_def ws vs be_val_Cons CLASS_MARKERS_def
  consider "c = 0" | "c = Suc 0" | "c = 2" | "c = 3" using c by linarith
  then show ?thesis
  proof cases
    case 1
    then have w: "?w 0 = ?v 3" "?v 0 = 0" "?v 1 = 0" "?v 2 = 0" using bytes [of 0] zero by auto
    have "?w 0 < 24" by (rule byte_at_small) (use fits 1 len in \<open>auto simp: class_fits_def\<close>)
    then show ?thesis using w unat_byte_le [of "?v 3"] 1 by (simp add: decode del: unat_byte_le unat_byte_less)
  next
    case 2
    then have w: "?w 0 = 0x18" "?w 1 = ?v 3" "?v 0 = 0" "?v 1 = 0" "?v 2 = 0"
      using bytes [of 0] bytes [of 1] zero by (auto simp: CLASS_MARKERS_def)
    then show ?thesis using 2 unat_byte_le [of "?v 3"] by (simp add: decode del: unat_byte_le unat_byte_less)
  next
    case 3
    then have w: "?w 0 = 0x19" "?w 1 = ?v 2" "?w 2 = ?v 3" "?v 0 = 0" "?v 1 = 0"
      using bytes [of 0] bytes [of 1] bytes [of 2] zero by (auto simp: CLASS_MARKERS_def)
    then show ?thesis using 3 unat_byte_le [of "?v 2"] unat_byte_le [of "?v 3"] by (simp add: decode del: unat_byte_le unat_byte_less)
  next
    case 4
    then have w: "?w 0 = 0x1a" "?w 1 = ?v 0" "?w 2 = ?v 1" "?w 3 = ?v 2" "?w 4 = ?v 3"
      using bytes [of 0] bytes [of 1] bytes [of 2] bytes [of 3] bytes [of 4] by (auto simp: CLASS_MARKERS_def)
    moreover have "unat (?w 1) < 128" by (rule top_bit_clear) (use fits 4 len in \<open>auto simp: class_fits_def\<close>)
    ultimately show ?thesis
      using 4 unat_byte_le [of "?v 1"] unat_byte_le [of "?v 2"] unat_byte_le [of "?v 3"] by (simp add: decode del: unat_byte_le unat_byte_less)
  qed
qed

section \<open>What the rules force\<close>

lemma sound_class_selector:
  assumes "scalar_repr (repr :: 'f::field \<Rightarrow> nat)" "bellpepper_sound L" "assignment (w :: var \<Rightarrow> 'f)"
  shows "sound w (class_selector L real_class) (\<lambda>sel. length sel = 4 \<and> (\<exists>c. one_hot w sel c))"
  unfolding class_selector_def
proof (rule sound_sbind [OF sound_smap [where R = "\<lambda>_. is_bit w"]])
  fix sel assume "list_all2 (\<lambda>_. is_bit w) [0..<4] sel"
  then have sel: "length sel = 4" "list_all (is_bit w) sel" by (auto simp: list_all2_conv_all_nth list_all_length)
  have "length sel < modulus" using sel(1) modulus_bounds(1) by simp
  then show "sound w (sbind (one_hot_rule ''digest_id class_selector is one-hot'' sel) (\<lambda>_. sret sel))
      (\<lambda>sel. length sel = 4 \<and> (\<exists>c. one_hot w sel c))"
    by (rule sound_sbind [OF sound_one_hot_rule [OF assms(1,3) sel(2)]]) (use sel in \<open>auto intro: sound_sret\<close>)
qed (intro sound_ns sound_alloc_bit assms)

lemma sound_active_bit:
  assumes "bellpepper_sound L" "assignment w" "one_hot w sel c" "length sel = 4"
  shows "sound w (active_bit L real_class sel i) (\<lambda>b. is_bit w b \<and> (bval w b \<longleftrightarrow> byte_active_in_class i c))"
  unfolding active_bit_def
  by (rule sound_mono [OF sound_alloc_sum_bit [OF assms(1-3)]]) (use assms(3,4) in \<open>auto simp: one_hot_def\<close>)

lemma sound_digest_id_bits:
  assumes "bellpepper_sound L" "assignment w"
  shows "sound w (digest_id_bits L v) (\<lambda>bs. length bs = 32 \<and> list_all (is_bit w) bs)"
proof -
  have "sound w (digest_id_bits L v) (list_all2 (\<lambda>_. is_bit w) [0..<32])"
    unfolding digest_id_bits_def by (intro sound_smap sound_ns sound_alloc_bit assms)
  then show ?thesis by (rule sound_mono) (auto simp: list_all2_conv_all_nth list_all_length)
qed

lemma gated_zero: "ev w (bool_lc t) * ev w (bool_lc s) = ev w [] \<Longrightarrow> bval w s \<Longrightarrow> \<not> bval w t"
  by (auto simp: bval_def)

lemma sound_zero_rules:
  assumes "one_hot w sel c" "length sel = 4"
  shows "sound w (zero_rules sel vbits) (\<lambda>_. \<forall>p \<in> set (uncovered c). \<forall>k < 8. \<not> bval w (vbits ! (p * 8 + k)))"
  unfolding zero_rules_def
proof (rule sound_mono [OF sound_sfor [OF sound_sfor [OF sound_sfor [OF sound_enforce]]]])
  have c: "ev w (bool_lc (sel ! c)) = 1" "c \<in> set [0..<4]" using assms by (auto simp: one_hot_def bval_def)
  assume "\<forall>c \<in> set [0..<4]. \<forall>p \<in> set (uncovered c). \<forall>k \<in> set [0..<8].
    ev w (bool_lc (vbits ! (p * 8 + k))) * ev w (bool_lc (sel ! c)) = ev w []"
  from bspec [OF this c(2)] show "\<forall>p \<in> set (uncovered c). \<forall>k < 8. \<not> bval w (vbits ! (p * 8 + k))"
    by (auto simp: c(1) bval_def)
qed

lemma sound_class3_rule:
  assumes "one_hot w sel c" "length sel = 4"
  shows "sound w (class3_rule window_bits sel) (\<lambda>_. c = 3 \<longrightarrow> \<not> bval w (window_bits ! 8))"
  unfolding class3_rule_def
  by (rule sound_mono [OF sound_enforce]) (use assms in \<open>auto simp: one_hot_def bval_def\<close>)

context boolean_gates begin

lemma expected_bit_sound:
  assumes w: "assignment w" and sel: "one_hot w sel c" "length sel = 4"
    and vb: "length vbits = 32" "list_all (is_bit w) vbits" and k: "k < 8"
  shows "sound w (expected_bit G sel vbits i k)
    (\<lambda>b. is_bit w b \<and> (bval w b \<longleftrightarrow> byte_active_in_class i c \<and> class_bit (bvals w vbits) c i k))"
proof -
  have c: "c < 4" "is_bit w (sel ! d)" "bval w (sel ! d) \<longleftrightarrow> d = c" if "d < 4" for d
    using sel that by (auto simp: one_hot_def list_all_length)
  have terms: "sound w (expected_term G sel vbits i k d)
      (\<lambda>t. is_bit w t \<and> (bval w t \<longleftrightarrow> d = c \<and> class_bit (bvals w vbits) d i k))"
    if d: "d \<in> set (filter (byte_active_in_class i) [0..<4])" for d
  proof (cases "i = 0 \<and> d \<noteq> 0")
    case True
    then show ?thesis using w c [of d] d by (auto simp: expected_term_def class_bit_def intro!: sound_sret)
  next
    case False
    have d4: "d < 4" "byte_active_in_class i d" using d by auto
    obtain q where q: "q < 4" "value_byte_out_pos d i = Some q" using out_pos_active [OF d4 False] by blast
    have "q * 8 + k < length vbits" using q(1) k vb(1) by simp
    then have bit: "is_bit w (vbits ! (q * 8 + k))" using vb(2) by (simp add: list_all_length)
    have "class_bit (bvals w vbits) d i k \<longleftrightarrow> bval w (vbits ! (q * 8 + k))"
      using q False \<open>q * 8 + k < length vbits\<close> by (auto simp: class_bit_def)
    then show ?thesis
      using q False c [OF d4(1)] by (auto simp: expected_term_def intro!: sound_ns sound_mono [OF and_law [OF w _ bit]])
  qed
  show ?thesis
    unfolding expected_bit_def
    by (rule sound_sbind [OF or_fold_sound [OF w _ terms, where p = False]])
      (use w c [of 0] in \<open>auto simp: acc_ok_def split: option.splits intro!: sound_sret\<close>)
qed

lemma class0_rule_sound:
  assumes w: "assignment w" and sel: "one_hot w sel c" "length sel = 4" and b: "length bs = 8" "list_all (is_bit w) bs"
  shows "sound w (class0_rule G bs sel)
    (\<lambda>_. c = 0 \<longrightarrow> \<not> (bval w (bs ! 0) \<or> bval w (bs ! 1) \<or> bval w (bs ! 2) \<or> bval w (bs ! 3) \<and> bval w (bs ! 4)))"
proof -
  have bits: "is_bit w (bs ! k)" if "k < 8" for k using b that by (simp add: list_all_length)
  have c: "c = 0 \<Longrightarrow> bval w (sel ! 0)" using sel by (simp add: one_hot_def)
  show ?thesis
    unfolding class0_rule_def
    apply (rule sound_sbind [OF sound_ns [OF or_law [OF w bits bits]]], simp, simp)
    apply (rule sound_sbind [OF sound_ns [OF or_law [OF w _ bits]]], simp, simp)
    apply (rule sound_sbind [OF sound_ns [OF and_law [OF w bits bits]]], simp, simp)
    apply (rule sound_sbind [OF sound_ns [OF or_law [OF w]]], simp, simp)
    apply (rule sound_mono [OF sound_enforce])
    using c gated_zero by blast
qed

lemma window_bit_rules_sound:
  assumes w: "assignment w" and sel: "one_hot w sel c" "length sel = 4"
    and vb: "length vbits = 32" "list_all (is_bit w) vbits" and k: "k < 8"
    and a: "is_bit w (active ! i)" "bval w (active ! i) \<longleftrightarrow> byte_active_in_class i c" and b: "is_bit w (window ! (i * 8 + k))"
  shows "sound w (window_bit_rules G window sel active vbits (i, k))
    (\<lambda>e. is_bit w e \<and> (bval w e \<longleftrightarrow> bval w (window ! (i * 8 + k)) \<and> byte_active_in_class i c) \<and>
      (byte_active_in_class i c \<longrightarrow> (bval w (window ! (i * 8 + k)) \<longleftrightarrow> class_bit (bvals w vbits) c i k)))"
  unfolding window_bit_rules_def prod.case Let_def
  apply (rule sound_sbind [OF expected_bit_sound [OF w sel vb k]])
  apply (rule sound_sbind [OF sound_enforce])
  apply (rule sound_ns, rule sound_mono [OF and_law [OF w b a(1)]])
  using a b by (auto simp: is_bit_of_bool split: if_splits)

text \<open>What is exposed: the number that the window encodes, and the window's encoding with the rest masked.\<close>

lemma window_rules_sound:
  assumes w: "assignment w" and sel: "one_hot w sel c" "length sel = 4"
    and vb: "length vbits = 32" "list_all (is_bit w) vbits"
    and a: "list_all2 (\<lambda>i b. is_bit w b \<and> (bval w b \<longleftrightarrow> byte_active_in_class i c)) [0..<MAX_CBOR_UINT_BYTES] active"
    and b: "length window = 40" "list_all (is_bit w) window"
  shows "sound w (smap (window_bit_rules G window sel active vbits) (List.product [0..<MAX_CBOR_UINT_BYTES] [0..<8]))
    (\<lambda>ebits. bvals w ebits = map (\<lambda>(i, k). bvals w window ! (i * 8 + k) \<and> i < class_width c) (List.product [0..<MAX_CBOR_UINT_BYTES] [0..<8]) \<and>
      (\<forall>i < class_width c. \<forall>k < 8. bvals w window ! (i * 8 + k) \<longleftrightarrow> class_bit (bvals w vbits) c i k))"
    (is "sound w (smap ?f ?ps) _")
proof -
  define Q where "Q x e \<longleftrightarrow> (case x of (i, k) \<Rightarrow> (bval w e \<longleftrightarrow> bvals w window ! (i * 8 + k) \<and> i < class_width c) \<and>
      (i < class_width c \<longrightarrow> (bvals w window ! (i * 8 + k) \<longleftrightarrow> class_bit (bvals w vbits) c i k)))" for x e
  have "sound w (?f x) (Q x)" if mem: "x \<in> set ?ps" for x
  proof -
    obtain i k where x: "x = (i, k)" by (cases x)
    then have ik: "i < MAX_CBOR_UINT_BYTES" "k < 8" using mem by auto
    then have "i * 8 + k < 40" by (simp add: MAX_CBOR_UINT_BYTES_def)
    moreover have "is_bit w (active ! i)" "bval w (active ! i) \<longleftrightarrow> byte_active_in_class i c"
      using a ik(1) by (auto simp: list_all2_conv_all_nth)
    ultimately show ?thesis
      unfolding x using window_bit_rules_sound [OF w sel vb ik(2), of active i window] b
      by (auto simp: Q_def list_all_length byte_active_in_class_def elim!: sound_mono)
  qed
  then have "sound w (smap ?f ?ps) (list_all2 Q ?ps)" by (rule sound_smap)
  then show ?thesis
  proof (rule sound_mono, intro conjI allI impI)
    fix ebits assume q: "list_all2 Q ?ps ebits"
    have len: "length ebits = length ?ps" by (rule list_all2_lengthD [OF q, symmetric])
    have "bval w (ebits ! n) \<longleftrightarrow> (case ?ps ! n of (i, k) \<Rightarrow> bvals w window ! (i * 8 + k) \<and> i < class_width c)" if "n < length ?ps" for n
      using list_all2_nthD [OF q that] by (auto simp: Q_def split: prod.splits)
    then show "bvals w ebits = map (\<lambda>(i, k). bvals w window ! (i * 8 + k) \<and> i < class_width c) ?ps"
      using len by (intro nth_equalityI) (simp_all del: length_product)
    fix i k assume ik: "i < class_width c" "k < (8 :: nat)"
    have "c < 4" using sel by (simp add: one_hot_def)
    then have "(i, k) \<in> set ?ps" using ik class_width_pos [of c] by auto
    then obtain n where "n < length ?ps" "?ps ! n = (i, k)" by (metis in_set_conv_nth)
    then show "bvals w window ! (i * 8 + k) \<longleftrightarrow> class_bit (bvals w vbits) c i k"
      using list_all2_nthD [OF q, of n] ik(1) by (simp add: Q_def del: length_product)
  qed
qed

lemma extract_sound:
  assumes repr: "scalar_repr (repr :: 'f \<Rightarrow> nat)" and L: "bellpepper_sound L" and w: "assignment w" and item: "list_all (is_bit w) item"
  shows "sound w (extract_digest_id L G item offset v) (\<lambda>e.
    let window = bvals w (take 40 (drop (offset * 8) item)) in
    \<exists>c < 4. class_fits window (bvals w (value_bits e)) c \<and> length window = 40 \<and> length (value_bits e) = 32 \<and> list_all (is_bit w) (value_bits e) \<and>
      bvals w (encoded_bits e) = map (\<lambda>(i, k). window ! (i * 8 + k) \<and> i < class_width c) (List.product [0..<5] [0..<8]))"
proof -
  let ?win = "take 40 (drop (offset * 8) item)"
  have n: "MAX_CBOR_UINT_BYTES * 8 = 40" by (simp add: MAX_CBOR_UINT_BYTES_def)
  have win: "list_all (is_bit w) ?win" using item by (auto simp: list_all_iff dest: in_set_takeD in_set_dropD)
  have fits: "class_fits (bvals w ?win) (bvals w vbits) c"
    if "c < 4" "length ?win = 40" "length vbits = 32"
      "\<forall>i < class_width c. \<forall>k < 8. bvals w ?win ! (i * 8 + k) \<longleftrightarrow> class_bit (bvals w vbits) c i k"
      "\<forall>p \<in> set (uncovered c). \<forall>k < 8. \<not> bval w (vbits ! (p * 8 + k))"
      "c = 0 \<longrightarrow> \<not> (bval w (take 8 ?win ! 0) \<or> bval w (take 8 ?win ! 1) \<or> bval w (take 8 ?win ! 2) \<or> bval w (take 8 ?win ! 3) \<and> bval w (take 8 ?win ! 4))"
      "c = 3 \<longrightarrow> \<not> bval w (?win ! 8)" for c vbits
    unfolding class_fits_def
    using that by (auto simp: uncovered_def)
  show ?thesis
    unfolding extract_digest_id_def Let_def n
    apply (rule sound_sbind [OF sound_sassert], assumption)
    apply (rule sound_sbind [OF sound_True])
    apply (rule sound_sbind [OF sound_class_selector [OF repr L w]])
    apply (elim conjE exE)
    subgoal premises prems for _ _ sel c
    proof -
      have len: "length ?win = 40" using prems(1) by (simp add: MAX_CBOR_UINT_BYTES_def)
      have c: "c < 4" using prems by (simp add: one_hot_def)
      have w8: "length (take 8 ?win) = 8" "list_all (is_bit w) (take 8 ?win)" using len win by (auto simp: list_all_length)
      show ?thesis
        apply (rule sound_sbind [OF sound_smap [OF sound_active_bit [OF L w prems(4,3)]]])
        apply (rule sound_sbind [OF sound_digest_id_bits [OF L w]])
        apply (elim conjE)
        apply (rule sound_sbind [OF window_rules_sound [OF w prems(4,3) _ _ _ len win]], assumption+)
        apply (rule sound_sbind [OF sound_zero_rules [OF prems(4,3)]])
        apply (rule sound_sbind [OF class0_rule_sound [OF w prems(4,3) w8]])
        apply (rule sound_sbind [OF sound_class3_rule [OF prems(4,3)]])
        apply (rule sound_sret, rule exI [of _ c])
        using c len fits by (simp add: MAX_CBOR_UINT_BYTES_def)
    qed
    done
qed

end

section \<open>The exposed number\<close>

lemma masked_window:
  assumes "length ws = 40" "n \<le> 5"
  shows "bits_bytes (map (\<lambda>(i, k). ws ! (i * 8 + k) \<and> i < n) (List.product [0..<5] [0..<8]))
    = take n (bits_bytes ws) @ replicate (5 - n) 0"
proof -
  let ?ms = "map (\<lambda>(i, k). ws ! (i * 8 + k) \<and> i < n) (List.product [0..<5] [0..<8])"
  have bit: "?ms ! (i * 8 + k) \<longleftrightarrow> ws ! (i * 8 + k) \<and> i < n" if "i < 5" "k < 8" for i k
  proof -
    have "i * 8 + k < 40" "(i * 8 + k) div 8 = i" "(i * 8 + k) mod 8 = k" using that by simp_all
    then show ?thesis by (simp add: product_nth)
  qed
  have "byte_at ?ms i = (if i < n then byte_at ws i else 0)" if "i < 5" for i
  proof (cases "i < n")
    case True
    then show ?thesis using that assms bit [OF that] by (auto intro!: byte_at_cong)
  next
    case False
    then show ?thesis using that bit [OF that] by (auto intro!: byte_at_zero)
  qed
  then show ?thesis
    using bits_bytes_map [of ?ms 5] bits_bytes_map [of ws 5] assms
    by (intro nth_equalityI) (auto simp: nth_append)
qed

text \<open>
  C10. The exposed \<open>digestID\<close> is the one inside the claim's bytes: whatever number and length class a prover
  supplies, under every assignment that satisfies the rules the CBOR reader, run on the five bytes at the offset,
  returns the exposed number, which is below \<open>2 ^ 31\<close>, and the exposed encoding is the bytes that it read,
  followed by zeros.
\<close>

theorem digest_id_is_embedded:
  assumes "scalar_repr (repr :: 'f::field \<Rightarrow> nat)" "bellpepper_sound L" "boolean_gates G" "assignment (w :: var \<Rightarrow> 'f)"
    and "list_all (is_bit w) item"
  shows "sound w (extract_digest_id L G item offset v) (\<lambda>e.
    let window = bits_bytes (bvals w (take 40 (drop (offset * 8) item))); n = bin_val (bvals w (value_bits e)) in
    n < 2 ^ 31 \<and> (\<exists>k. decode_cbor_uint window = Some (word_of_nat n, k) \<and>
      bits_bytes (bvals w (encoded_bits e)) = take k window @ replicate (5 - k) 0))"
proof (rule sound_mono [OF boolean_gates.extract_sound [OF assms(3,1,2,4,5)]], unfold Let_def, elim exE conjE)
  let ?win = "bvals w (take 40 (drop (offset * 8) item))"
  fix e c
  assume c: "c < 4" "class_fits ?win (bvals w (value_bits e)) c" "length ?win = 40" "length (value_bits e) = 32"
    and enc: "bvals w (encoded_bits e) = map (\<lambda>(i, k). ?win ! (i * 8 + k) \<and> i < class_width c) (List.product [0..<5] [0..<8])"
  have "class_width c \<le> 5" using class_width_pos [OF c(1)] by (simp add: MAX_CBOR_UINT_BYTES_def)
  then show "bin_val (bvals w (value_bits e)) < 2 ^ 31 \<and>
      (\<exists>k. decode_cbor_uint (bits_bytes ?win) = Some (word_of_nat (bin_val (bvals w (value_bits e))), k) \<and>
        bits_bytes (bvals w (encoded_bits e)) = take k (bits_bytes ?win) @ replicate (5 - k) 0)"
    using class_fits_decode [OF c(2,3) _ c(1)] masked_window [OF c(3)] c(4) enc by auto
qed

definition digest_id_item :: "rat Boolean list" where
  "digest_id_item = map bool_constant (be_bits [0x18, 26, 0xbb, 0xbb, 0xbb])"

theorem digest_id_is_embedded_witness:
  "sound (\<lambda>_. 1) (extract_digest_id plain_bellpepper plain_gates digest_id_item 0 26) (\<lambda>e.
    let window = bits_bytes (bvals (\<lambda>_. 1) (take 40 (drop (0 * 8) digest_id_item))); n = bin_val (bvals (\<lambda>_. 1) (value_bits e)) in
    n < 2 ^ 31 \<and> (\<exists>k. decode_cbor_uint window = Some (word_of_nat n, k) \<and>
      bits_bytes (bvals (\<lambda>_. 1) (encoded_bits e)) = take k window @ replicate (5 - k) 0))"
  by (rule digest_id_is_embedded [OF scalar_repr_rat plain_bellpepper_sound plain.boolean_gates_axioms])
    (simp_all add: assignment_def digest_id_item_def list_all_iff)

end
