(* ===== verification/Sha256Var.thy ===== *)
theory Sha256Var
  imports Chain Gates
begin

text \<open>
  SHA-256 of a message of private length (\<open>sha256_var.rs\<close>). A selector of which one bit is set names the length,
  the padded buffer is built from it bit by bit, every block is compressed, and the state after the last real
  block is selected. The native side builds the same buffer. \<open>UInt32::constant\<close> is the argument
  \<open>uint32_constant\<close>; numbers of the type \<open>usize\<close> are naturals below \<open>2 ^ 64\<close>.
\<close>

section \<open>The padded buffer\<close>

definition NUM_BLOCKS :: nat where "NUM_BLOCKS = 3"
definition BUFFER_BYTES :: nat where "BUFFER_BYTES = NUM_BLOCKS * 64"
definition MAX_VAR_BYTES :: nat where "MAX_VAR_BYTES = 176"

definition SHA256_IV :: "u32 list" where
  "SHA256_IV = [0x6a09e667, 0xbb67ae85, 0x3c6ef372, 0xa54ff53a, 0x510e527f, 0x9b05688c, 0x1f83d9ab, 0x5be0cd19]"

definition div_ceil :: "nat \<Rightarrow> nat \<Rightarrow> nat" where
  "div_ceil a b = (if a mod b = 0 then a div b else Suc (a div b))"

definition terminal_block_for_len :: "nat \<Rightarrow> nat" where
  "terminal_block_for_len n = div_ceil ((n * 8 + 1 + 64) mod 2 ^ 64) 512"

definition injected_byte :: "nat \<Rightarrow> nat \<Rightarrow> byte option" where
  "injected_byte byte_idx real_len =
    (if byte_idx < real_len then None
     else if byte_idx = real_len then Some 0x80
     else let len_field_start = terminal_block_for_len real_len * 64 - 8 in
       if byte_idx < len_field_start then Some 0
       else if byte_idx < len_field_start + 8 then Some (be_bytes 8 ((real_len * 8) mod 2 ^ 64) ! (byte_idx - len_field_start))
       else Some 0)"

definition checked_usize :: "nat \<Rightarrow> nat option" where
  "checked_usize n = (if n < 2 ^ 64 then Some n else None)"

text \<open>A vector whose elements would take more than \<open>isize::MAX\<close> bytes cannot be: asking for its capacity is a panic.\<close>

definition vec_fits :: "nat \<Rightarrow> nat \<Rightarrow> bool" where
  "vec_fits n each \<longleftrightarrow> n * each < 2 ^ 63"

definition native_padded_buffer_sized :: "bytes \<Rightarrow> nat \<Rightarrow> nat \<Rightarrow> nat \<Rightarrow> synth_error + bytes" where
  "native_padded_buffer_sized message real_len max_message_bytes num_blocks =
    (case checked_usize (num_blocks * 64) of None \<Rightarrow> Inl Unsatisfiable
     | Some buffer_bytes \<Rightarrow>
       (case checked_usize (max_message_bytes + 9) of None \<Rightarrow> Inl Unsatisfiable
        | Some needed \<Rightarrow>
          if length message < real_len \<or> max_message_bytes < real_len \<or> buffer_bytes < needed then Inl Unsatisfiable
          else if \<not> vec_fits buffer_bytes 1 then Inl Panicked
          else if \<exists>i \<in> set [real_len..<buffer_bytes]. injected_byte i real_len = None then Inl Unsatisfiable
          else Inr (take real_len message @ map (\<lambda>i. the (injected_byte i real_len)) [real_len..<buffer_bytes])))"

definition native_padded_buffer :: "bytes \<Rightarrow> nat \<Rightarrow> synth_error + bytes" where
  "native_padded_buffer message real_len =
    (case native_padded_buffer_sized message real_len MAX_VAR_BYTES NUM_BLOCKS of
       Inl e \<Rightarrow> Inl e
     | Inr buf \<Rightarrow> if length buf = BUFFER_BYTES then Inr buf else Inl Unsatisfiable)"

section \<open>The rules\<close>

definition len_selector :: "'f::field bellpepper \<Rightarrow> nat \<Rightarrow> nat \<Rightarrow> ('f Boolean list, 'f) synth" where
  "len_selector L real_len max_message_bytes =
     sbind (sassert (vec_fits (Suc max_message_bytes) (bit_size L))) (\<lambda>_.
     sbind (smap (\<lambda>n. ns (''len_selector '' @ show_nat n) (alloc_bit L (Some (n = real_len)))) [0..<Suc max_message_bytes]) (\<lambda>sel.
     sbind (one_hot_rule ''len_selector is one-hot (sums to exactly 1)'' sel) (\<lambda>_. sret sel)))"

definition msg_active :: "'f::field bellpepper \<Rightarrow> 'f Boolean list \<Rightarrow> nat \<Rightarrow> nat \<Rightarrow> nat \<Rightarrow> ('f Boolean option, 'f) synth" where
  "msg_active L sel real_len max_message_bytes byte_idx =
    (if byte_idx < max_message_bytes then
       sbind (alloc_sum_bit L (''msg_active '' @ show_nat byte_idx) (byte_idx < real_len)
         (''msg_active '' @ show_nat byte_idx @ '' matches selector sum'')
         (map (\<lambda>n. sel ! n) [byte_idx + 1..<Suc max_message_bytes])) (\<lambda>b. sret (Some b))
     else sret None)"

definition injected_bit :: "nat \<Rightarrow> nat \<Rightarrow> nat \<Rightarrow> bool" where
  "injected_bit byte_idx bit_idx n \<longleftrightarrow> (case injected_byte byte_idx n of Some v \<Rightarrow> bit v (7 - bit_idx) | None \<Rightarrow> False)"

definition injected_lc :: "'f Boolean list \<Rightarrow> nat \<Rightarrow> nat \<Rightarrow> nat \<Rightarrow> 'f lincomb" where
  "injected_lc sel max_message_bytes byte_idx bit_idx =
     concat (map (\<lambda>n. bool_lc (sel ! n)) (filter (injected_bit byte_idx bit_idx) [0..<Suc (min byte_idx max_message_bytes)]))"

text \<open>The value that \<open>injected_byte\<close> has for the real length; its \<open>expect\<close> is a panic.\<close>

definition expected_injected :: "nat \<Rightarrow> nat \<Rightarrow> nat \<Rightarrow> (bool option, 'f) synth" where
  "expected_injected byte_idx bit_idx real_len =
    (case injected_byte byte_idx real_len of None \<Rightarrow> sfail Panicked | Some v \<Rightarrow> sret (Some (bit v (7 - bit_idx))))"

definition combined ::
  "'f gates \<Rightarrow> 'f Boolean list \<Rightarrow> 'f Boolean list \<Rightarrow> nat \<Rightarrow> nat \<Rightarrow> nat \<Rightarrow> 'f Boolean option \<Rightarrow> nat \<Rightarrow> ('f::field lincomb \<times> bool option, 'f) synth" where
  "combined G raw_bits sel real_len max_message_bytes byte_idx active bit_idx =
    (case active of
       Some a \<Rightarrow>
         let raw_bit = raw_bits ! (byte_idx * 8 + bit_idx) in
         sbind (ns (''msg contribution byte '' @ show_nat byte_idx @ '' bit '' @ show_nat bit_idx) (gate_and G a raw_bit)) (\<lambda>msg_contrib.
         sbind (if byte_idx < real_len then sret (bool_value raw_bit) else expected_injected byte_idx bit_idx real_len) (\<lambda>expected.
         sret (bool_lc msg_contrib @ injected_lc sel max_message_bytes byte_idx bit_idx, expected)))
     | None \<Rightarrow>
         sbind (expected_injected byte_idx bit_idx real_len) (\<lambda>expected.
         sret (injected_lc sel max_message_bytes byte_idx bit_idx, expected)))"

definition buffer_bit ::
  "'f bellpepper \<Rightarrow> 'f gates \<Rightarrow> 'f Boolean list \<Rightarrow> 'f Boolean list \<Rightarrow> nat \<Rightarrow> nat \<Rightarrow> nat \<Rightarrow> 'f Boolean option \<Rightarrow> nat \<Rightarrow> ('f::field Boolean, 'f) synth" where
  "buffer_bit L G raw_bits sel real_len max_message_bytes byte_idx active bit_idx =
     sbind (combined G raw_bits sel real_len max_message_bytes byte_idx active bit_idx) (\<lambda>(combined_lc, expected_value).
     sbind (ns (''buffer bit '' @ show_nat byte_idx @ '' '' @ show_nat bit_idx) (alloc_bit L expected_value)) (\<lambda>out_bit.
     sbind (enforce (''buffer bit '' @ show_nat byte_idx @ '' '' @ show_nat bit_idx @ '' matches combination'')
       combined_lc [(one, 1)] (bool_lc out_bit)) (\<lambda>_. sret out_bit)))"

definition buffer_byte ::
  "'f bellpepper \<Rightarrow> 'f gates \<Rightarrow> 'f Boolean list \<Rightarrow> 'f Boolean list \<Rightarrow> nat \<Rightarrow> nat \<Rightarrow> nat \<Rightarrow> ('f::field Boolean list \<times> 'f Boolean option, 'f) synth" where
  "buffer_byte L G raw_bits sel real_len max_message_bytes byte_idx =
     sbind (msg_active L sel real_len max_message_bytes byte_idx) (\<lambda>active.
     sbind (smap (buffer_bit L G raw_bits sel real_len max_message_bytes byte_idx active) [0..<8]) (\<lambda>bs. sret (bs, active)))"

definition padded_buffer_bits ::
  "'f bellpepper \<Rightarrow> 'f gates \<Rightarrow> 'f Boolean list \<Rightarrow> nat \<Rightarrow> nat \<Rightarrow> nat \<Rightarrow>
    ('f::field Boolean list \<times> 'f Boolean list \<times> 'f Boolean list, 'f) synth" where
  "padded_buffer_bits L G raw_bits real_len max_message_bytes num_blocks =
     sbind (sassert (length raw_bits = (max_message_bytes * 8) mod 2 ^ 64)) (\<lambda>_.
     sbind (sassert (real_len \<le> max_message_bytes)) (\<lambda>_.
     sbind (len_selector L real_len max_message_bytes) (\<lambda>sel.
     sbind (smap (buffer_byte L G raw_bits sel real_len max_message_bytes) [0..<(num_blocks * 64) mod 2 ^ 64]) (\<lambda>bytes.
     sret (concat (map fst bytes), List.map_filter snd bytes, sel)))))"

definition compress_blocks ::
  "('u, 'f::field) sha_gadget \<Rightarrow> 'f Boolean list \<Rightarrow> nat \<Rightarrow> 'u list \<times> 'u list list \<Rightarrow> ('u list \<times> 'u list list, 'f) synth" where
  "compress_blocks H buffer_bits i = (\<lambda>(state, block_states).
     sbind (sassert ((i + 1) * 512 \<le> length buffer_bits)) (\<lambda>_.
     sbind (ns (''compress block '' @ show_nat i) (sha256_compression_function H (take 512 (drop (i * 512) buffer_bits)) state)) (\<lambda>state'.
     sret (state', block_states @ [state']))))"

definition in_block_bit :: "'f::field bellpepper \<Rightarrow> 'f Boolean list \<Rightarrow> nat \<Rightarrow> nat \<Rightarrow> nat \<Rightarrow> ('f Boolean, 'f) synth" where
  "in_block_bit L sel real_len max_message_bytes k =
     alloc_sum_bit L (''in_block '' @ show_nat k) (terminal_block_for_len real_len = k)
       (''in_block '' @ show_nat k @ '' matches selector sum'')
       (map (\<lambda>n. sel ! n) (filter (\<lambda>n. terminal_block_for_len n = k) [0..<Suc max_message_bytes]))"

definition digest_bit ::
  "'f gates \<Rightarrow> 'f Boolean list \<Rightarrow> 'f Boolean list list \<Rightarrow> nat \<Rightarrow> nat \<Rightarrow> ('f::field Boolean, 'f) synth" where
  "digest_bit G in_block per_block_bits num_blocks bit_idx =
     sbind (sfold (\<lambda>k acc.
         sbind (ns (''select digest bit '' @ show_nat bit_idx @ '' block '' @ show_nat k)
           (gate_and G (in_block ! k) (per_block_bits ! k ! bit_idx))) (\<lambda>t.
         or_step G (''select-or digest bit '' @ show_nat bit_idx @ '' block '' @ show_nat k) acc t)) [0..<num_blocks] None) (\<lambda>acc.
     case acc of None \<Rightarrow> sfail Panicked | Some b \<Rightarrow> sret b)"

definition sha256_var_sized ::
  "'f bellpepper \<Rightarrow> 'f gates \<Rightarrow> ('u, 'f) sha_gadget \<Rightarrow> (u32 \<Rightarrow> 'u) \<Rightarrow> 'f Boolean list \<Rightarrow> nat \<Rightarrow> nat \<Rightarrow> nat \<Rightarrow>
    ('f::field Boolean list \<times> 'f Boolean list, 'f) synth" where
  "sha256_var_sized L G H uint32_constant raw_bits real_len max_message_bytes num_blocks =
     sbind (padded_buffer_bits L G raw_bits real_len max_message_bytes num_blocks) (\<lambda>(buffer_bits, msg_active_bits, sel).
     sbind (sfold (compress_blocks H buffer_bits) [0..<num_blocks] (map uint32_constant SHA256_IV, [])) (\<lambda>(_, block_states).
     sbind (smap (in_block_bit L sel real_len max_message_bytes) [1..<Suc num_blocks]) (\<lambda>in_block.
     let per_block_bits = map (\<lambda>s. concat (map (into_bits_be H) s)) block_states in
     sbind (smap (digest_bit G in_block per_block_bits num_blocks) [0..<256]) (\<lambda>digest_bits.
     sret (digest_bits, msg_active_bits)))))"

definition sha256_var ::
  "'f bellpepper \<Rightarrow> 'f gates \<Rightarrow> ('u, 'f) sha_gadget \<Rightarrow> (u32 \<Rightarrow> 'u) \<Rightarrow> 'f Boolean list \<Rightarrow> nat \<Rightarrow> ('f::field Boolean list \<times> 'f Boolean list, 'f) synth" where
  "sha256_var L G H uint32_constant raw_bits real_len = sha256_var_sized L G H uint32_constant raw_bits real_len MAX_VAR_BYTES NUM_BLOCKS"

section \<open>The buffer is the padding\<close>

lemma odd_rem: "(8 * m + 1) mod (512 :: nat) \<noteq> 0"
proof
  assume "(8 * m + 1) mod 512 = 0"
  then have "512 dvd 8 * m + 1" by (simp add: dvd_eq_mod_eq_0)
  then have "2 dvd 8 * m + 1" by (rule dvd_trans [rotated]) simp
  then show False by simp
qed

lemma terminal_block:
  assumes "n * 8 + 65 < 2 ^ 64"
  shows "terminal_block_for_len n = Suc (last_block n)"
proof -
  have eq: "(n * 8 + 1 + 64) mod 2 ^ 64 = 8 * (n + 8) + 1" using assms by simp
  have quot: "(8 * m + 1) div 512 = m div 64" for m :: nat using div_mult2_eq [of "8 * m + 1" 8 64] by simp
  show ?thesis
    unfolding terminal_block_for_len_def div_ceil_def eq last_block_def quot using odd_rem [of "n + 8"] by (simp only: if_False)
qed

lemma terminal_block_pos: "0 < terminal_block_for_len n"
proof -
  have "(n * 8 + 1 + 64) mod 2 ^ 64 mod 2 = (1 :: nat)" by (subst mod_mod_cancel) (simp, presburger)
  then have "(n * 8 + 1 + 64) mod 2 ^ 64 \<noteq> (0 :: nat)" by (metis mod_0 zero_neq_one)
  then show ?thesis by (auto simp: terminal_block_for_len_def div_ceil_def)
qed

definition padded_byte :: "bytes \<Rightarrow> nat \<Rightarrow> byte" where
  "padded_byte m i = (case injected_byte i (length m) of None \<Rightarrow> m ! i | Some v \<Rightarrow> v)"

lemma padded_byte_pad:
  assumes "i < length (pad m)" "length m * 8 + 65 < 2 ^ 64"
  shows "padded_byte m i = pad m ! i"
proof -
  obtain k where k: "pad m = m @ [0x80] @ replicate k 0 @ be_bytes 8 (8 * length m)" using pad_spec [of m] by blast
  have start: "terminal_block_for_len (length m) * 64 - 8 = Suc (length m) + k"
    using length_pad [of m] by (simp add: terminal_block [OF assms(2)] k)
  consider "i < length m" | "i = length m" | "length m < i" "i < Suc (length m) + k" | "Suc (length m) + k \<le> i" by linarith
  then show ?thesis
  proof cases
    case 4
    then obtain j where j: "i = Suc (length m) + k + j" by (auto simp: le_iff_add)
    then have "j < 8" using assms by (simp add: k)
    moreover have "(length m * 8) mod 2 ^ 64 = length m * 8" using assms(2) by simp
    ultimately show ?thesis using start j by (simp add: padded_byte_def injected_byte_def k nth_append mult.commute Let_def)
  qed (use start in \<open>auto simp: padded_byte_def injected_byte_def k nth_append\<close>)
qed

lemma padded_byte_zero:
  assumes "length (pad m) \<le> i" "length m * 8 + 65 < 2 ^ 64"
  shows "padded_byte m i = 0"
proof -
  note terminal_block = terminal_block [OF assms(2)]
  have "terminal_block_for_len (length m) * 64 \<le> i" "length m + 9 \<le> length (pad m)"
    using assms(1) length_pad [of m] pad_spec [of m] by (auto simp: terminal_block)
  then show ?thesis using assms by (simp add: padded_byte_def injected_byte_def Let_def terminal_block)
qed

lemma padded_bytes:
  assumes "terminal_block_for_len (length m) \<le> n" "length m * 8 + 65 < 2 ^ 64"
  shows "map (padded_byte m) [0..<n * 64] = pad m @ replicate (n * 64 - length (pad m)) 0"
proof (rule nth_equalityI)
  have "length (pad m) \<le> n * 64" using assms(1) length_pad [of m] by (simp add: terminal_block [OF assms(2)])
  then show "length (map (padded_byte m) [0..<n * 64]) = length (pad m @ replicate (n * 64 - length (pad m)) 0)" by simp
  fix i assume "i < length (map (padded_byte m) [0..<n * 64])"
  then show "map (padded_byte m) [0..<n * 64] ! i = (pad m @ replicate (n * 64 - length (pad m)) 0) ! i"
    using padded_byte_pad [of i m] padded_byte_zero [of m i] assms(2) by (auto simp: nth_append)
qed

lemma padded_front:
  assumes "length m = l" "terminal_block_for_len l \<le> n" "l * 8 + 65 < 2 ^ 64"
  shows "take (64 * terminal_block_for_len l) (map (padded_byte m) [0..<n * 64]) = pad m"
proof -
  have "length (pad m) = 64 * terminal_block_for_len l" using length_pad [of m] assms(1) by (simp add: terminal_block [OF assms(3)])
  then show ?thesis using padded_bytes [of m n] assms by simp
qed

lemma native_buffer:
  "native_padded_buffer_sized message real_len max_bytes num_blocks =
    (if num_blocks * 64 < 2 ^ 64 \<and> real_len \<le> length message \<and> real_len \<le> max_bytes \<and> max_bytes + 9 \<le> num_blocks * 64
     then if num_blocks * 64 < 2 ^ 63 then Inr (map (padded_byte (take real_len message)) [0..<num_blocks * 64]) else Inl Panicked
     else Inl Unsatisfiable)"
    (is "_ = (if ?ok then _ else _)")
proof (cases ?ok)
  case True
  have some: "injected_byte i real_len \<noteq> None" if "real_len \<le> i" for i
    using that by (auto simp: injected_byte_def Let_def)
  have "[0..<num_blocks * 64] = [0..<real_len] @ [real_len..<num_blocks * 64]"
    using True upt_add_eq_append [of 0 real_len "num_blocks * 64 - real_len"] by simp
  moreover have "map (padded_byte (take real_len message)) [0..<real_len] = take real_len message"
    using True by (intro nth_equalityI) (auto simp: padded_byte_def injected_byte_def)
  moreover have "map (padded_byte (take real_len message)) [real_len..<num_blocks * 64] = map (\<lambda>i. the (injected_byte i real_len)) [real_len..<num_blocks * 64]"
  proof (rule map_cong [OF refl])
    fix i assume "i \<in> set [real_len..<num_blocks * 64]"
    then show "padded_byte (take real_len message) i = the (injected_byte i real_len)"
      using some [of i] True by (auto simp: padded_byte_def)
  qed
  ultimately show ?thesis
    using True some by (auto simp: native_padded_buffer_sized_def checked_usize_def vec_fits_def) force?
qed (auto simp: native_padded_buffer_sized_def checked_usize_def)

lemma terminal_block_fits: "n \<le> max_bytes \<Longrightarrow> max_bytes + 9 \<le> num_blocks * 64 \<Longrightarrow> n * 8 + 65 < 2 ^ 64 \<Longrightarrow> terminal_block_for_len n \<le> num_blocks"
proof -
  assume "n \<le> max_bytes" "max_bytes + 9 \<le> num_blocks * 64" and small: "n * 8 + 65 < 2 ^ 64"
  then have "n + 8 < 64 * num_blocks" by simp
  then have "(n + 8) div 64 < num_blocks" by (simp add: less_mult_imp_div_less mult.commute)
  then show ?thesis by (simp add: terminal_block [OF small] last_block_def)
qed

section \<open>What the rules force\<close>

lemma sound_len_selector:
  assumes "scalar_repr (repr :: 'f::field \<Rightarrow> nat)" "bellpepper_sound L" "assignment (w :: var \<Rightarrow> 'f)" "Suc max_bytes < modulus"
  shows "sound w (len_selector L real_len max_bytes) (\<lambda>sel. max_bytes * 8 + 65 < 2 ^ 64 \<and> length sel = Suc max_bytes \<and> (\<exists>n \<le> max_bytes. one_hot w sel n))"
  unfolding len_selector_def
proof (rule sound_sbind [OF sound_sassert], assumption, rule sound_sbind [OF sound_smap [where R = "\<lambda>_. is_bit w"]])
  fix sel assume fits: "vec_fits (Suc max_bytes) (bit_size L)" and "list_all2 (\<lambda>_. is_bit w) [0..<Suc max_bytes] sel"
  then have sel: "length sel = Suc max_bytes" "list_all (is_bit w) sel" by (auto simp: list_all2_conv_all_nth list_all_length simp del: upt_Suc)
  then have "length sel < modulus" using assms(4) by simp
  have "Suc max_bytes * 8 \<le> Suc max_bytes * bit_size L" using assms(2) unfolding bellpepper_sound_def by (intro mult_le_mono2) simp
  then have small: "max_bytes * 8 + 65 < 2 ^ 64" using fits by (simp add: vec_fits_def)
  show "sound w (sbind (one_hot_rule ''len_selector is one-hot (sums to exactly 1)'' sel) (\<lambda>_. sret sel))
      (\<lambda>sel. max_bytes * 8 + 65 < 2 ^ 64 \<and> length sel = Suc max_bytes \<and> (\<exists>n \<le> max_bytes. one_hot w sel n))"
    by (rule sound_sbind [OF sound_one_hot_rule [OF assms(1,3) sel(2) \<open>length sel < modulus\<close>]])
      (use sel small in \<open>auto simp: one_hot_def less_Suc_eq_le intro!: sound_sret\<close>)
qed (intro sound_ns sound_alloc_bit assms)

lemma sound_msg_active:
  assumes "bellpepper_sound L" "assignment w" "one_hot w sel n" "length sel = Suc max_bytes"
  shows "sound w (msg_active L sel real_len max_bytes i)
    (\<lambda>a. case a of None \<Rightarrow> max_bytes \<le> i | Some b \<Rightarrow> i < max_bytes \<and> is_bit w b \<and> (bval w b \<longleftrightarrow> i < n))"
proof (cases "i < max_bytes")
  case True
  then show ?thesis
    unfolding msg_active_def
    by (auto intro!: sound_sbind [OF sound_alloc_sum_bit [OF assms(1-3)]] sound_sret simp del: upt_Suc)
      (use assms(3,4) in \<open>auto simp: one_hot_def\<close>)
qed (auto simp: msg_active_def intro: sound_sret)

lemma ev_injected_lc:
  assumes "one_hot w sel n" "length sel = Suc max_bytes" "n \<le> max_bytes"
  shows "ev w (injected_lc sel max_bytes i k) = of_bool (n \<le> i \<and> injected_bit i k n)"
  unfolding injected_lc_def
  by (subst one_hot_sum [OF assms(1)]) (use assms(2,3) in \<open>auto simp del: upt_Suc\<close>)

text \<open>The bit of the padded message at a place of the buffer, with the length that the selector names.\<close>

definition buffer_value :: "bool list \<Rightarrow> nat \<Rightarrow> nat \<Rightarrow> nat \<Rightarrow> bool" where
  "buffer_value raw n i k \<longleftrightarrow> (if i < n then raw ! (i * 8 + k) else injected_bit i k n)"

lemma chunks_concat8: "list_all (\<lambda>c. length c = 8) css \<Longrightarrow> chunks 8 (concat css) = css"
  by (induction css) (simp_all add: chunks_append)

lemma byte_of_bits:
  assumes "length c = 8" "\<And>k. k < 8 \<Longrightarrow> c ! k \<longleftrightarrow> bit b (7 - k)"
  shows "word_of_nat (bin_val c) = (b :: byte)"
  using byte_at_bits [of c 0 b] assms by (simp add: byte_at_def)

lemma buffer_value_byte:
  assumes raw: "length raw = max_bytes * 8" and n: "n \<le> max_bytes" and c: "length c = 8" "\<forall>k < 8. c ! k \<longleftrightarrow> buffer_value raw n i k"
  shows "word_of_nat (bin_val c) = padded_byte (take n (bits_bytes raw)) i"
proof -
  have bytes: "bits_bytes raw = map (byte_at raw) [0..<max_bytes]" by (rule bits_bytes_map) (simp add: raw)
  show ?thesis
  proof (cases "i < n")
    case True
    have "byte_at c 0 = byte_at raw i"
      by (rule byte_at_cong) (use c True raw n in \<open>auto simp: buffer_value_def\<close>)
    then show ?thesis using True n c(1) by (simp add: byte_at_def padded_byte_def injected_byte_def bytes)
  next
    case False
    then have "injected_byte i n \<noteq> None" by (simp add: injected_byte_def Let_def)
    then obtain v where v: "injected_byte i n = Some v" by blast
    have "word_of_nat (bin_val c) = v"
      by (rule byte_of_bits [OF c(1)]) (use c(2) False v in \<open>auto simp: buffer_value_def injected_bit_def\<close>)
    then show ?thesis using v n by (simp add: padded_byte_def bytes min_def)
  qed
qed

text \<open>What the gadget returns: the padding of the first \<open>n\<close> bytes, for the length \<open>n\<close> that the selector names.\<close>

abbreviation buffer_len :: "nat \<Rightarrow> nat" where
  "buffer_len num_blocks \<equiv> (num_blocks * 64) mod 2 ^ 64"

definition padded_ok :: "(var \<Rightarrow> 'f::field) \<Rightarrow> 'f Boolean list \<Rightarrow> nat \<Rightarrow> nat \<Rightarrow> nat \<Rightarrow> 'f Boolean list \<times> 'f Boolean list \<times> 'f Boolean list \<Rightarrow> bool" where
  "padded_ok w raw max_bytes num_blocks n = (\<lambda>(buf, act, sel).
     length raw = max_bytes * 8 \<and> max_bytes * 8 + 65 < 2 ^ 64 \<and> n \<le> max_bytes \<and> one_hot w sel n \<and> length sel = Suc max_bytes \<and>
     length buf = buffer_len num_blocks * 8 \<and> list_all (is_bit w) buf \<and>
     bits_bytes (bvals w buf) = map (padded_byte (take n (bits_bytes (bvals w raw)))) [0..<buffer_len num_blocks] \<and>
     length act = min max_bytes (buffer_len num_blocks) \<and> list_all (is_bit w) act \<and> bvals w act = map (\<lambda>i. i < n) [0..<length act])"

lemma map_filter_prefix:
  assumes "list_all2 (\<lambda>i (_, a). case a of None \<Rightarrow> m \<le> i | Some b \<Rightarrow> i < m \<and> Q i b) [0..<l] xs"
  shows "list_all2 Q [0..<min m l] (List.map_filter snd xs)"
  using assms
proof (induction l arbitrary: xs)
  case (Suc l)
  then obtain ys y where xs: "xs = ys @ [y]" "list_all2 (\<lambda>i (_, a). case a of None \<Rightarrow> m \<le> i | Some b \<Rightarrow> i < m \<and> Q i b) [0..<l] ys"
    "case snd y of None \<Rightarrow> m \<le> l | Some b \<Rightarrow> l < m \<and> Q l b"
    by (auto simp: list_all2_append1 list_all2_Cons1 split: prod.splits)
  have IH: "list_all2 Q [0..<min m l] (List.map_filter snd ys)" using Suc.IH xs(2) .
  show ?case
  proof (cases "snd y")
    case None
    then have "min m (Suc l) = min m l" using xs(3) by simp
    then show ?thesis using IH None xs(1) by (simp add: map_filter_def)
  next
    case (Some b)
    then have "min m (Suc l) = Suc l" "min m l = l" "Q l b" using xs(3) by auto
    then show ?thesis using IH Some xs(1) by (simp add: map_filter_def list_all2_appendI)
  qed
qed (simp add: map_filter_def)

text \<open>What the code relies on of \<open>UInt32::constant\<close>: constant bits of the word.\<close>

definition constant_law :: "('u, 'f::field) sha_gadget \<Rightarrow> (u32 \<Rightarrow> 'u) \<Rightarrow> bool" where
  "constant_law H c \<longleftrightarrow> (\<forall>w v. assignment w \<longrightarrow> uint32_ok H w (c v) \<and> uint32_value H w (c v) = v)"

lemma iv_result:
  assumes "constant_law H c" "assignment w"
  shows "result_ok H w (map c SHA256_IV) iv_bytes"
proof -
  have ok: "uint32_ok H w (c v)" "uint32_value H w (c v) = v" for v using assms by (auto simp: constant_law_def)
  have "map (uint32_value H w) (map c SHA256_IV) = SHA256_IV" by (simp add: ok(2) comp_def)
  then show ?thesis
    unfolding result_ok_def iv_bytes_def by (simp add: ok list_all_iff) (simp add: SHA256_IV_def IV_def)
qed

lemma chain_Nil: "length s = 32 \<Longrightarrow> chain s [] = s"
  by (simp add: chain_def words_to_bytes_to_words)

lemma compress_loop_sound:
  assumes H: "gadget_sound H" and w: "assignment w" and buf: "length buf = num_blocks * 512" "list_all (is_bit w) buf"
    and init: "result_ok H w st iv_bytes"
  shows "sound w (sfold (compress_blocks H buf) [0..<num_blocks] (st, [])) (\<lambda>(_, sts). length sts = num_blocks \<and>
    (\<forall>k < num_blocks. result_ok H w (sts ! k) (chain iv_bytes (take (64 * Suc k) (bits_bytes (bvals w buf))))))"
proof -
  let ?B = "bits_bytes (bvals w buf)"
  define I where "I i = (\<lambda>(s, sts). length sts = i \<and> result_ok H w s (chain iv_bytes (take (64 * i) ?B)) \<and>
    (\<forall>k < i. result_ok H w (sts ! k) (chain iv_bytes (take (64 * Suc k) ?B))))" for i
  have len: "length ?B = 64 * num_blocks" using be_val_bits_bytes [of "bvals w buf" "64 * num_blocks"] buf(1) by simp
  have "sound w (sfold (compress_blocks H buf) [0..<num_blocks] (st, [])) (I (length [0..<num_blocks]))"
  proof (rule sound_sfold)
    show "I 0 (st, [])" using init by (simp add: I_def chain_Nil)
    fix i x assume i: "i < length [0..<num_blocks]" and x: "I i x"
    obtain s sts where xs: "x = (s, sts)" by (cases x)
    then have s: "length sts = i" "result_ok H w s (chain iv_bytes (take (64 * i) ?B))"
      "\<forall>k < i. result_ok H w (sts ! k) (chain iv_bytes (take (64 * Suc k) ?B))" using x by (auto simp: I_def)
    let ?block = "take 512 (drop (i * 512) buf)"
    have le: "i * 512 + 512 \<le> length buf" using i buf(1) by simp
    have block: "length ?block = 512" "list_all (is_bit w) ?block"
      using le buf(2) by (auto simp: list_all_iff dest: in_set_takeD in_set_dropD)
    have b: "bits_bytes (bvals w ?block) = take 64 (drop (64 * i) ?B)"
      using bits_bytes_slice [of "bvals w buf" "64 * num_blocks" 64 "64 * i"] buf(1) by (simp add: drop_map take_map mult.commute)
    have "take (64 * Suc i) ?B = take (64 * i) ?B @ take 64 (drop (64 * i) ?B)"
      using take_add [of "64 * i" 64 ?B] by (simp add: add.commute)
    then have after: "chain iv_bytes (take (64 * Suc i) ?B) = state_after (chain iv_bytes (take (64 * i) ?B)) (take 64 (drop (64 * i) ?B))"
      using chain_snoc [of "take (64 * i) ?B" i "take 64 (drop (64 * i) ?B)"] len i by simp
    show "sound w (compress_blocks H buf ([0..<num_blocks] ! i) x) (I (Suc i))"
      unfolding xs compress_blocks_def prod.case
      by (rule sound_sbind [OF sound_True], rule sound_sbind [OF sound_ns [OF sound_gadget [OF H w _ _ s(2)]]])
        (use i block b after s in \<open>auto simp: I_def nth_append less_Suc_eq intro!: sound_sret\<close>)
  qed
  then show ?thesis by (rule sound_mono) (auto simp: I_def)
qed

text \<open>A buffer that is too short for the blocks makes the slice of some block panic.\<close>

lemma compress_loop_long:
  fixes w :: "var \<Rightarrow> 'f::field" and x :: "'u list \<times> 'u list list"
  shows "sound w (sfold (compress_blocks H buf) [0..<n] x) (\<lambda>_. n * 512 \<le> length buf)"
proof -
  have "sound w (sfold (compress_blocks H buf) [0..<n] x) ((\<lambda>i (_ :: 'u list \<times> 'u list list). i * 512 \<le> length buf) (length [0..<n]))"
  proof (rule sound_sfold)
    fix i and s :: "'u list \<times> 'u list list" assume i: "i < length [0..<n]"
    obtain st sts where s: "s = (st, sts)" by (cases s)
    show "sound w (compress_blocks H buf ([0..<n] ! i) s) (\<lambda>_. Suc i * 512 \<le> length buf)"
      unfolding s compress_blocks_def prod.case
    proof (rule sound_sbind [OF sound_sassert], assumption)
      fix u :: unit assume "([0..<n] ! i + 1) * 512 \<le> length buf"
      then have "Suc i * 512 \<le> length buf" using i by simp
      then show "sound w (sbind (ns (''compress block '' @ show_nat ([0..<n] ! i))
          (sha256_compression_function H (take 512 (drop ([0..<n] ! i * 512) buf)) st)) (\<lambda>state'. sret (state', sts @ [state'])))
        (\<lambda>_. Suc i * 512 \<le> length buf)"
        by (intro sound_mono [OF sound_True])
    qed
  qed simp
  then show ?thesis by simp
qed

context boolean_gates begin

lemma combined_sound:
  assumes w: "assignment w" and sel: "one_hot w sel n" "length sel = Suc max_bytes" "n \<le> max_bytes"
    and raw: "length raw = max_bytes * 8" "list_all (is_bit w) raw" and k: "k < 8"
    and a: "case a of None \<Rightarrow> max_bytes \<le> i | Some b \<Rightarrow> i < max_bytes \<and> is_bit w b \<and> (bval w b \<longleftrightarrow> i < n)"
  shows "sound w (combined G raw sel real_len max_bytes i a k) (\<lambda>(l, _). ev w l = of_bool (buffer_value (bvals w raw) n i k))"
proof (cases a)
  case None
  then show ?thesis
    using a sel(3) by (auto simp: combined_def buffer_value_def ev_injected_lc [OF sel] intro!: sound_sbind [OF sound_True] sound_sret)
next
  case (Some b)
  then have b: "i < max_bytes" "is_bit w b" "bval w b \<longleftrightarrow> i < n" using a by auto
  have "i * 8 + k < length raw" using b(1) k raw(1) by simp
  then have r: "is_bit w (raw ! (i * 8 + k))" "bvals w raw ! (i * 8 + k) = bval w (raw ! (i * 8 + k))"
    using raw(2) by (simp_all add: list_all_length)
  show ?thesis
    unfolding combined_def Some option.case Let_def
    by (rule sound_sbind [OF sound_ns [OF and_law [OF w b(2) r(1)]]], rule sound_sbind [OF sound_True], rule sound_sret)
      (use b r in \<open>auto simp: buffer_value_def ev_injected_lc [OF sel] is_bit_of_bool\<close>)
qed

lemma buffer_bit_sound:
  assumes L: "bellpepper_sound L" and w: "assignment w" and sel: "one_hot w sel n" "length sel = Suc max_bytes" "n \<le> max_bytes"
    and raw: "length raw = max_bytes * 8" "list_all (is_bit w) raw" and k: "k < 8"
    and a: "case a of None \<Rightarrow> max_bytes \<le> i | Some b \<Rightarrow> i < max_bytes \<and> is_bit w b \<and> (bval w b \<longleftrightarrow> i < n)"
  shows "sound w (buffer_bit L G raw sel real_len max_bytes i a k) (\<lambda>b. is_bit w b \<and> (bval w b \<longleftrightarrow> buffer_value (bvals w raw) n i k))"
  unfolding buffer_bit_def
proof (rule sound_sbind [OF combined_sound [OF w sel raw k a]], split prod.split, intro allI impI)
  fix x l and v :: "bool option" assume "case x of (l, _) \<Rightarrow> ev w l = of_bool (buffer_value (bvals w raw) n i k)" "x = (l, v)"
  then have l: "ev w l = of_bool (buffer_value (bvals w raw) n i k)" by simp
  show "sound w (sbind (ns (''buffer bit '' @ show_nat i @ '' '' @ show_nat k) (alloc_bit L v)) (\<lambda>out_bit.
      sbind (enforce (''buffer bit '' @ show_nat i @ '' '' @ show_nat k @ '' matches combination'') l [(one, 1)] (bool_lc out_bit)) (\<lambda>_. sret out_bit)))
    (\<lambda>b. is_bit w b \<and> (bval w b \<longleftrightarrow> buffer_value (bvals w raw) n i k))"
    by (rule sound_sbind [OF sound_ns [OF sound_alloc_bit [OF L w]]], rule sound_sbind [OF sound_enforce], rule sound_sret)
      (use l w in \<open>auto simp: bval_def assignment_def one_def split: if_splits\<close>)
qed

lemma buffer_byte_sound:
  assumes L: "bellpepper_sound L" and w: "assignment w" and sel: "one_hot w sel n" "length sel = Suc max_bytes" "n \<le> max_bytes"
    and raw: "length raw = max_bytes * 8" "list_all (is_bit w) raw"
  shows "sound w (buffer_byte L G raw sel real_len max_bytes i) (\<lambda>(bs, a). length bs = 8 \<and> list_all (is_bit w) bs \<and>
    (\<forall>k < 8. bval w (bs ! k) \<longleftrightarrow> buffer_value (bvals w raw) n i k) \<and>
    (case a of None \<Rightarrow> max_bytes \<le> i | Some b \<Rightarrow> i < max_bytes \<and> is_bit w b \<and> (bval w b \<longleftrightarrow> i < n)))"
  unfolding buffer_byte_def
proof (rule sound_sbind [OF sound_msg_active [OF L w sel(1,2)]])
  fix a assume a: "case a of None \<Rightarrow> max_bytes \<le> i | Some b \<Rightarrow> i < max_bytes \<and> is_bit w b \<and> (bval w b \<longleftrightarrow> i < n)"
  have "sound w (smap (buffer_bit L G raw sel real_len max_bytes i a) [0..<8])
      (list_all2 (\<lambda>k b. is_bit w b \<and> (bval w b \<longleftrightarrow> buffer_value (bvals w raw) n i k)) [0..<8])"
    by (intro sound_smap buffer_bit_sound [OF L w sel raw _ a]) simp
  then show "sound w (sbind (smap (buffer_bit L G raw sel real_len max_bytes i a) [0..<8]) (\<lambda>bs. sret (bs, a)))
    (\<lambda>(bs, a). length bs = 8 \<and> list_all (is_bit w) bs \<and>
    (\<forall>k < 8. bval w (bs ! k) \<longleftrightarrow> buffer_value (bvals w raw) n i k) \<and>
    (case a of None \<Rightarrow> max_bytes \<le> i | Some b \<Rightarrow> i < max_bytes \<and> is_bit w b \<and> (bval w b \<longleftrightarrow> i < n)))"
    by (rule sound_sbind) (use a in \<open>auto simp: list_all2_conv_all_nth list_all_length simp del: upt_rec_numeral intro!: sound_sret\<close>)
qed

lemma padded_buffer_bits_sound:
  assumes repr: "scalar_repr (repr :: 'f \<Rightarrow> nat)" and L: "bellpepper_sound L" and w: "assignment w" and raw: "list_all (is_bit w) raw"
    and m: "Suc max_bytes < modulus"
  shows "sound w (padded_buffer_bits L G raw real_len max_bytes num_blocks) (\<lambda>r. \<exists>n. padded_ok w raw max_bytes num_blocks n r)"
  unfolding padded_buffer_bits_def
proof (rule sound_sbind [OF sound_sassert], assumption, rule sound_sbind [OF sound_True],
    rule sound_sbind [OF sound_len_selector [OF repr L w m]], elim conjE exE)
  fix sel n assume len0: "length raw = (max_bytes * 8) mod 2 ^ 64" and small: "max_bytes * 8 + 65 < 2 ^ 64" and sel: "length sel = Suc max_bytes" "n \<le> max_bytes" "one_hot w sel n"
  have len: "length raw = max_bytes * 8" using len0 small by simp
  let ?Q = "\<lambda>i bs. length bs = 8 \<and> list_all (is_bit w) bs \<and> (\<forall>k < 8. bval w (bs ! k) \<longleftrightarrow> buffer_value (bvals w raw) n i k)"
  let ?A = "\<lambda>i b. is_bit w b \<and> (bval w b \<longleftrightarrow> i < n)"
  let ?R = "\<lambda>i (bs, a). ?Q i bs \<and> (case a of None \<Rightarrow> max_bytes \<le> i | Some b \<Rightarrow> i < max_bytes \<and> ?A i b)"
  have step: "sound w (smap (buffer_byte L G raw sel real_len max_bytes) [0..<buffer_len num_blocks]) (list_all2 ?R [0..<buffer_len num_blocks])"
    by (intro sound_smap sound_mono [OF buffer_byte_sound [OF L w sel(3,1,2) len raw]]) auto
  have "padded_ok w raw max_bytes num_blocks n (concat (map fst xs), List.map_filter snd xs, sel)"
    if xs: "list_all2 ?R [0..<buffer_len num_blocks] xs" for xs
  proof -
    have l: "length xs = buffer_len num_blocks" using list_all2_lengthD [OF xs] by simp
    have each: "?Q i (fst (xs ! i))" if "i < buffer_len num_blocks" for i
      using list_all2_nthD [OF xs, of i] that by (auto split: prod.splits)
    have eight: "list_all (\<lambda>c. length c = 8) (map fst xs)" "list_all (\<lambda>c. length c = 8) (map (bvals w) (map fst xs))"
      using each l by (auto simp: list_all_length)
    have "length (concat css) = 8 * length css" if "list_all (\<lambda>c. length c = 8) css" for css :: "'f Boolean list list"
      using that by (induction css) auto
    note len8 = this [OF eight(1)]
    have bits: "list_all (is_bit w) (concat (map fst xs))"
      using each l by (fastforce simp: list_all_iff in_set_conv_nth [of _ xs])
    have "bits_bytes (bvals w (concat (map fst xs))) = map (\<lambda>c. word_of_nat (bin_val c)) (map (bvals w) (map fst xs))"
      unfolding bits_bytes_def map_concat chunks_concat8 [OF eight(2)] ..
    also have "\<dots> = map (padded_byte (take n (bits_bytes (bvals w raw)))) [0..<buffer_len num_blocks]"
    proof (rule nth_equalityI)
      fix i assume i: "i < length (map (\<lambda>c. word_of_nat (bin_val c) :: byte) (map (bvals w) (map fst xs)))"
      then have "word_of_nat (bin_val (bvals w (fst (xs ! i)))) = padded_byte (take n (bits_bytes (bvals w raw))) i"
        using each [of i] l by (intro buffer_value_byte [OF _ sel(2)]) (auto simp: len)
      then show "map (\<lambda>c. word_of_nat (bin_val c)) (map (bvals w) (map fst xs)) ! i = map (padded_byte (take n (bits_bytes (bvals w raw)))) [0..<buffer_len num_blocks] ! i"
        using i l by simp
    qed (simp add: l)
    finally have bytes: "bits_bytes (bvals w (concat (map fst xs))) = map (padded_byte (take n (bits_bytes (bvals w raw)))) [0..<buffer_len num_blocks]" .
    have "list_all2 (\<lambda>i (_, a). case a of None \<Rightarrow> max_bytes \<le> i | Some b \<Rightarrow> i < max_bytes \<and> ?A i b) [0..<buffer_len num_blocks] xs"
      using xs by (rule list_all2_mono) auto
    from map_filter_prefix [OF this] obtain l' where l': "l' = min max_bytes (buffer_len num_blocks)" "list_all2 ?A [0..<l'] (List.map_filter snd xs)" by blast
    then have "list_all (is_bit w) (List.map_filter snd xs)" "length (List.map_filter snd xs) = min max_bytes (buffer_len num_blocks)"
      "bvals w (List.map_filter snd xs) = map (\<lambda>i. i < n) [0..<length (List.map_filter snd xs)]"
      unfolding l'(1) [symmetric] by (auto simp: list_all2_conv_all_nth list_all_length intro!: nth_equalityI)
    then show ?thesis using len small sel bits bytes len8 l by (simp add: padded_ok_def)
  qed
  then show "sound w (sbind (smap (buffer_byte L G raw sel real_len max_bytes) [0..<buffer_len num_blocks])
      (\<lambda>bytes. sret (concat (map fst bytes), List.map_filter snd bytes, sel))) (\<lambda>r. \<exists>n. padded_ok w raw max_bytes num_blocks n r)"
    by (intro sound_sbind [OF step] sound_sret) blast
qed

lemma digest_bit_sound:
  assumes w: "assignment w" and ib: "length ib = num_blocks" "\<forall>k < num_blocks. is_bit w (ib ! k) \<and> (bval w (ib ! k) \<longleftrightarrow> Suc k = t)"
    and pb: "\<forall>k < num_blocks. is_bit w (pb ! k ! i)" and t: "0 < t" "t \<le> num_blocks"
  shows "sound w (digest_bit G ib pb num_blocks i) (\<lambda>b. is_bit w b \<and> (bval w b \<longleftrightarrow> bval w (pb ! (t - 1) ! i)))"
proof -
  have terms: "sound w (ns (''select digest bit '' @ show_nat i @ '' block '' @ show_nat k) (gate_and G (ib ! k) (pb ! k ! i)))
      (\<lambda>b. is_bit w b \<and> (bval w b \<longleftrightarrow> Suc k = t \<and> bval w (pb ! k ! i)))" if k: "k \<in> set [0..<num_blocks]" for k
    by (intro sound_ns sound_mono [OF and_law [OF w]]) (use k ib pb in auto)
  have ex: "(\<exists>k \<in> set [0..<num_blocks]. Suc k = t \<and> bval w (pb ! k ! i)) \<longleftrightarrow> bval w (pb ! (t - 1) ! i)"
    using t by (auto intro!: bexI [of _ "t - 1"])
  show ?thesis
    unfolding digest_bit_def
    by (rule sound_sbind [OF or_fold_sound [OF w _ terms, where p = False]])
      (use t ex in \<open>auto simp: acc_ok_def split: option.splits intro!: sound_sret sound_sfail\<close>)
qed

lemma sha256_var_sized_sound:
  assumes repr: "scalar_repr (repr :: 'f \<Rightarrow> nat)" and L: "bellpepper_sound L" and H: "gadget_sound H" "constant_law H c"
    and w: "assignment w" and raw: "list_all (is_bit w) raw" and m: "Suc max_bytes < modulus" "max_bytes + 9 \<le> num_blocks * 64"
  shows "sound w (sha256_var_sized L G H c raw real_len max_bytes num_blocks) (\<lambda>(d, act).
    \<exists>n \<le> max_bytes. length d = 256 \<and> list_all (is_bit w) d \<and> bits_bytes (bvals w d) = native_digest (take n (bits_bytes (bvals w raw))) \<and>
      list_all (is_bit w) act \<and> bvals w act = map (\<lambda>i. i < n) [0..<max_bytes])"
  unfolding sha256_var_sized_def Let_def
proof (rule sound_sbind [OF padded_buffer_bits_sound [OF repr L w raw m(1)]], elim exE, split prod.split, intro allI impI, split prod.split, intro allI impI)
  fix r n buf r' act sel assume p: "padded_ok w raw max_bytes num_blocks n r" and r: "r = (buf, r')" "r' = (act, sel)"
  let ?B = "bits_bytes (bvals w buf)" and ?m = "take n (bits_bytes (bvals w raw))" and ?t = "terminal_block_for_len n"
  let ?R = "\<lambda>(d, act). \<exists>n \<le> max_bytes. length d = 256 \<and> list_all (is_bit w) d \<and> bits_bytes (bvals w d) = native_digest (take n (bits_bytes (bvals w raw))) \<and>
      list_all (is_bit w) act \<and> bvals w act = map (\<lambda>i. i < n) [0..<max_bytes]"
  let ?rest = "sbind (sfold (compress_blocks H buf) [0..<num_blocks] (map c SHA256_IV, [])) (\<lambda>(_, block_states).
      sbind (smap (in_block_bit L sel real_len max_bytes) [1..<Suc num_blocks]) (\<lambda>in_block.
      sbind (smap (digest_bit G in_block (map (\<lambda>s. concat (map (into_bits_be H) s)) block_states) num_blocks) [0..<256]) (\<lambda>digest_bits.
      sret (digest_bits, act))))"
  show "sound w ?rest ?R"
  proof (cases "num_blocks * 64 < 2 ^ 64")
    case False
    have "length buf < num_blocks * 512" using p r False mod_less_divisor [of "2 ^ 64" "num_blocks * 64"] by (auto simp: padded_ok_def)
    then show ?thesis by (intro sound_sbind [OF compress_loop_long]) simp
  next
    case True
    have small: "n * 8 + 65 < 2 ^ 64" using p r by (auto simp: padded_ok_def)
    have wrap: "buffer_len num_blocks = num_blocks * 64" using True by simp
    have p: "n \<le> max_bytes" "one_hot w sel n" "length sel = Suc max_bytes" "length buf = num_blocks * 512" "list_all (is_bit w) buf"
      "?B = map (padded_byte ?m) [0..<num_blocks * 64]" "length act = max_bytes" "list_all (is_bit w) act"
      "bvals w act = map (\<lambda>i. i < n) [0..<max_bytes]" "length raw = max_bytes * 8"
      using p r m(2) unfolding padded_ok_def wrap by auto
    have len: "length ?m = n" using length_bits_bytes [of "bvals w raw" max_bytes] p(1,10) by (simp add: min_def)
    have t: "0 < ?t" "?t \<le> num_blocks" using terminal_block_fits [OF p(1) m(2) small] terminal_block_pos by simp_all
    have "take (64 * ?t) ?B = pad ?m" using padded_front [OF len t(2) small] by (simp only: p(6))
    then have digest: "chain iv_bytes (take (64 * Suc (?t - 1)) ?B) = native_digest ?m" using t by (simp add: chain_pad)
    have ib: "sound w (smap (in_block_bit L sel real_len max_bytes) [1..<Suc num_blocks])
        (list_all2 (\<lambda>k b. is_bit w b \<and> (bval w b \<longleftrightarrow> k = ?t)) [1..<Suc num_blocks])"
      unfolding in_block_bit_def
      by (intro sound_smap sound_mono [OF sound_alloc_sum_bit [OF L w p(2)]]) (use p(1,3) in \<open>auto simp del: upt_Suc\<close>)
    let ?D = "\<lambda>d. length d = 256 \<and> list_all (is_bit w) d \<and> bits_bytes (bvals w d) = native_digest ?m"
    have digests: "sound w (smap (digest_bit G ib (map (\<lambda>s. concat (map (into_bits_be H) s)) sts) num_blocks) [0..<256]) ?D"
      if sts: "length sts = num_blocks" "\<forall>k < num_blocks. result_ok H w (sts ! k) (chain iv_bytes (take (64 * Suc k) ?B))"
        and ibs: "list_all2 (\<lambda>k b. is_bit w b \<and> (bval w b \<longleftrightarrow> k = ?t)) [1..<Suc num_blocks] ib" for sts ib
    proof -
      let ?pb = "map (\<lambda>s. concat (map (into_bits_be H) s)) sts"
      have pb: "length (?pb ! k) = 256 \<and> list_all (is_bit w) (?pb ! k) \<and> chain iv_bytes (take (64 * Suc k) ?B) = bits_bytes (bvals w (?pb ! k))"
        if "k < num_blocks" for k
        using result_bits [OF sts(2) [rule_format, OF that]] sts(1) that by simp
      have bits: "\<forall>k < num_blocks. is_bit w (?pb ! k ! i)" if "i < 256" for i
        using pb that by (simp add: list_all_length)
      have ib': "length ib = num_blocks" "\<forall>k < num_blocks. is_bit w (ib ! k) \<and> (bval w (ib ! k) \<longleftrightarrow> Suc k = ?t)"
        using ibs by (auto simp: list_all2_conv_all_nth simp del: upt_Suc)
      have "sound w (smap (digest_bit G ib ?pb num_blocks) [0..<256])
          (list_all2 (\<lambda>i b. is_bit w b \<and> (bval w b \<longleftrightarrow> bval w (?pb ! (?t - 1) ! i))) [0..<256])"
        by (intro sound_smap digest_bit_sound [OF w ib' bits t]) simp
      then show ?thesis
      proof (rule sound_mono)
        fix d assume d: "list_all2 (\<lambda>i b. is_bit w b \<and> (bval w b \<longleftrightarrow> bval w (?pb ! (?t - 1) ! i))) [0..<256] d"
        have t1: "?t - 1 < num_blocks" using t by simp
        have "bvals w d = bvals w (?pb ! (?t - 1))"
          using d pb [OF t1] by (intro nth_equalityI) (auto simp: list_all2_conv_all_nth simp del: upt_rec_numeral)
        moreover have "length d = 256" "list_all (is_bit w) d" using d by (auto simp: list_all2_conv_all_nth list_all_length simp del: upt_rec_numeral)
        ultimately show "?D d" using pb [OF t1] digest by simp
      qed
    qed
    show ?thesis
      apply (rule sound_sbind [OF compress_loop_sound [OF H(1) w p(4,5) iv_result [OF H(2) w]]])
      apply (split prod.split, intro allI impI, simp only: prod.case, elim conjE)
      apply (rule sound_sbind [OF ib], rule sound_sbind [OF digests], assumption+)
      apply (rule sound_sret)
      using p by auto
  qed
qed

end

section \<open>Properties\<close>

text \<open>
  C14. The native buffer, for every length whose padding a \<open>usize\<close> can count. It is the SHA-256 padding of the first
  \<open>real_len\<close> bytes of the message, followed by zeros up to the number of blocks, exactly when the length is within the message
  and the maximum, the maximum leaves room for the marker and the length field, and the size is one that a vector can have.
  A length, a maximum or a size that overflows is refused. A size from \<open>2 ^ 63\<close> bytes on, which does not overflow, is not
  refused: there the allocation panics, against the comment's \<open>reject, never panic\<close>.
\<close>

theorem native_padded_buffer_exact:
  assumes "real_len * 8 + 65 < 2 ^ 64"
  shows
  "native_padded_buffer_sized message real_len max_bytes num_blocks =
    (if num_blocks * 64 < 2 ^ 64 \<and> real_len \<le> length message \<and> real_len \<le> max_bytes \<and> max_bytes + 9 \<le> num_blocks * 64
     then if num_blocks * 64 < 2 ^ 63
       then Inr (pad (take real_len message) @ replicate (num_blocks * 64 - length (pad (take real_len message))) 0)
       else Inl Panicked
     else Inl Unsatisfiable)"
  using padded_bytes [of "take real_len message" num_blocks] terminal_block_fits [of real_len max_bytes num_blocks] assms
  by (auto simp: native_buffer min_def)

theorem native_padded_buffer_exact_witness:
  "native_padded_buffer_sized [7, 8] 1 55 2 = Inr (pad [7] @ replicate 64 0) \<and>
    native_padded_buffer_sized [7, 8] 3 55 2 = Inl Unsatisfiable \<and> native_padded_buffer_sized [] 0 0 (2 ^ 57) = Inl Panicked"
proof (intro conjI)
  have "length (pad [7]) = 64" using length_pad [of "[7]"] by (simp add: last_block_def)
  then show "native_padded_buffer_sized [7, 8] 1 55 2 = Inr (pad [7] @ replicate 64 0)"
    using native_padded_buffer_exact [of 1 "[7, 8]" 55 2] by simp
  show "native_padded_buffer_sized [7, 8] 3 55 2 = Inl Unsatisfiable"
    using native_padded_buffer_exact [of 3 "[7, 8]" 55 2] by simp
  show "native_padded_buffer_sized [] 0 0 (2 ^ 57) = Inl Panicked"
    using native_padded_buffer_exact [of 0 "[]" 0 "2 ^ 57"] by simp
qed

text \<open>
  C13. The hash of a message of private length. Under every assignment that satisfies the rules there is one length \<open>n\<close>
  within the maximum, whatever length the prover supplied, such that the returned bits are the SHA-256 digest of the first \<open>n\<close>
  bytes of the message and the returned mask marks exactly those bytes. Bytes behind them do not matter.
\<close>

theorem sha256_var_is_sha256:
  assumes "scalar_repr (repr :: 'f::field \<Rightarrow> nat)" "bellpepper_sound L" "boolean_gates G" "gadget_sound H" "constant_law H c"
    and "assignment (w :: var \<Rightarrow> 'f)" "list_all (is_bit w) raw" "Suc max_bytes < modulus" "max_bytes + 9 \<le> num_blocks * 64"
  shows "sound w (sha256_var_sized L G H c raw real_len max_bytes num_blocks) (\<lambda>(d, act).
    \<exists>n \<le> max_bytes. length d = 256 \<and> list_all (is_bit w) d \<and> bits_bytes (bvals w d) = native_digest (take n (bits_bytes (bvals w raw))) \<and>
      list_all (is_bit w) act \<and> bvals w act = map (\<lambda>i. i < n) [0..<max_bytes])"
  by (rule boolean_gates.sha256_var_sized_sound [OF assms(3,1,2,4-)])

definition constant_bits :: "u32 \<Rightarrow> 'f::field Boolean list" where
  "constant_bits v = map bool_constant (map (bit v) (rev [0..<32]))"

lemma constant_bits_law: "constant_law table_gadget (constant_bits :: u32 \<Rightarrow> 'f::field Boolean list)"
proof -
  have "word_of_nat (bin_val (map (bit v) (rev [0..<32]))) = v" for v :: u32
  proof -
    have "map (bit v) (rev [0..<32]) = small_bits (unat v) 32" by (simp add: small_bits_def bit_unsigned_iff)
    moreover have "unat v < 2 ^ 32" using unsigned_less [of v] by simp
    ultimately show ?thesis by (simp add: bin_val_small_bits of_nat_unat)
  qed
  then show ?thesis
    by (auto simp: constant_law_def uint32_ok_def uint32_value_def table_gadget_def constant_bits_def list_all_iff comp_def simp del: upt_rec_numeral)
qed

definition seven_bits :: "rat Boolean list" where
  "seven_bits = map bool_constant (be_bits [7])"

theorem sha256_var_is_sha256_witness:
  "sound (\<lambda>_. 1) (sha256_var_sized plain_bellpepper plain_gates table_gadget constant_bits seven_bits 1 1 1) (\<lambda>(d, act).
    \<exists>n \<le> 1. length d = 256 \<and> list_all (is_bit (\<lambda>_. 1)) d \<and>
      bits_bytes (bvals (\<lambda>_. 1) d) = native_digest (take n (bits_bytes (bvals (\<lambda>_. 1) seven_bits))) \<and>
      list_all (is_bit (\<lambda>_. 1)) act \<and> bvals (\<lambda>_. 1) act = map (\<lambda>i. i < n) [0..<1])"
  by (rule sha256_var_is_sha256 [OF scalar_repr_rat plain_bellpepper_sound plain.boolean_gates_axioms table_gadget_sound constant_bits_law])
    (simp_all add: assignment_def seven_bits_def list_all_iff modulus_def)

end
