(* ===== verification/ClaimStep.thy ===== *)
theory ClaimStep
  imports Claims DigestIdExtract Sha256Var
begin

text \<open>
  The rules of the claim's step circuit (\<open>ClaimDigestStepCircuit::precommitted\<close> in \<open>lib.rs\<close>, \<open>inputize_bits\<close> in
  \<open>mdoc_core.rs\<close>): the claim is hashed with its private length, the digest is blinded and exposed, and the identifier is
  read out of the claim's own bytes. bellpepper's SHA-256 of a fixed length is the argument \<open>sha256\<close>, with \<open>hash_law\<close>
  what the crate documents of it.
\<close>

section \<open>The circuit\<close>

definition inputize_bit :: "'f::field bellpepper \<Rightarrow> 'f gates \<Rightarrow> string \<Rightarrow> nat \<times> 'f Boolean \<Rightarrow> (unit, 'f) synth" where
  "inputize_bit L G label = (\<lambda>(i, b).
     sbind (ns (label @ '' bit '' @ show_nat i @ '' as num'')
       (alloc_num L (ok_or AssignmentMissing (map_option (\<lambda>x. if x then 1 else 0) (bool_value b))))) (\<lambda>num.
     sbind (enforce (label @ '' bit '' @ show_nat i @ '' matches boolean'') (bool_lc b) [(one, 1)] [(num_var num, 1)]) (\<lambda>_.
     ns (''inputize '' @ label @ '' bit '' @ show_nat i) (gate_inputize G num))))"

definition inputize_bits :: "'f::field bellpepper \<Rightarrow> 'f gates \<Rightarrow> 'f Boolean list \<Rightarrow> string \<Rightarrow> (unit, 'f) synth" where
  "inputize_bits L G bs label = sfor (inputize_bit L G label) (enumerate 0 bs)"

definition alloc_byte_bits :: "'f::field bellpepper \<Rightarrow> string \<Rightarrow> bytes \<Rightarrow> ('f Boolean list, 'f) synth" where
  "alloc_byte_bits L name bs = smap (\<lambda>(i, b). ns (name @ show_nat i) (alloc_bit L (Some b))) (enumerate 0 (bytes_to_bool_bits bs))"

definition alloc_real_len_bits :: "'f::field bellpepper \<Rightarrow> nat \<Rightarrow> ('f Boolean list, 'f) synth" where
  "alloc_real_len_bits L real_len =
     smap (\<lambda>i. ns (''real_len bit '' @ show_nat i) (alloc_bit L (Some (bit real_len i)))) (rev [0..<REAL_LEN_BITS])"

definition mask_real_len_bits :: "'f gates \<Rightarrow> 'f Boolean \<Rightarrow> 'f Boolean list \<Rightarrow> ('f::field Boolean list, 'f) synth" where
  "mask_real_len_bits G disclose_bit real_len_bits =
     smap (\<lambda>(i, b). ns (''mask real_len bit '' @ show_nat i) (gate_and G b disclose_bit)) (enumerate 0 real_len_bits)"

definition expose_blinded ::
  "'f bellpepper \<Rightarrow> 'f gates \<Rightarrow> ('f Boolean list \<Rightarrow> ('f Boolean list, 'f) synth) \<Rightarrow> 'f Boolean list \<Rightarrow> bytes \<Rightarrow> (unit, 'f::field) synth" where
  "expose_blinded L G sha256 dbits nonce =
     sbind (alloc_byte_bits L ''nonce byte-bit '' nonce) (\<lambda>nonce_bits.
     sbind (ns ''blind(digest, nonce)'' (sha256 (dbits @ nonce_bits))) (\<lambda>blinded.
     inputize_bits L G blinded ''digest''))"

definition expose_disclosure :: "'f bellpepper \<Rightarrow> 'f gates \<Rightarrow> bool \<Rightarrow> nat \<Rightarrow> (unit, 'f::field) synth" where
  "expose_disclosure L G disclose real_len =
     sbind (ns ''disclose'' (alloc_bit L (Some disclose))) (\<lambda>disclose_bit.
     sbind (inputize_bits L G [disclose_bit] ''disclose'') (\<lambda>_.
     sbind (alloc_real_len_bits L real_len) (\<lambda>real_len_bits.
     sbind (mask_real_len_bits G disclose_bit real_len_bits) (\<lambda>masked_real_len_bits.
     inputize_bits L G masked_real_len_bits ''real_len''))))"

definition expose_digest_id :: "'f bellpepper \<Rightarrow> 'f gates \<Rightarrow> 'f Boolean list \<Rightarrow> u32 \<Rightarrow> (unit, 'f::field) synth" where
  "expose_digest_id L G input_bits digest_id =
     sbind (ns ''digest_id_extract'' (extract_digest_id L G input_bits DIGEST_ID_OFFSET_BYTES digest_id)) (\<lambda>extracted.
     inputize_bits L G (value_bits extracted) ''digest_id'')"

definition claim_step_precommitted ::
  "'f bellpepper \<Rightarrow> 'f gates \<Rightarrow> ('u, 'f) sha_gadget \<Rightarrow> (u32 \<Rightarrow> 'u) \<Rightarrow> ('f Boolean list \<Rightarrow> ('f Boolean list, 'f) synth) \<Rightarrow>
    ClaimDigestStepCircuit \<Rightarrow> ('f::field AllocatedNum list, 'f) synth" where
  "claim_step_precommitted L G H uint32_constant sha256 c =
     sbind (alloc_byte_bits L ''claim byte-bit '' (sc_bytes c)) (\<lambda>input_bits.
     sbind (ns ''sha256_var(issuer_signed_item)'' (sha256_var L G H uint32_constant input_bits (sc_real_len c))) (\<lambda>(dbits, msg_active_bits).
     sbind (expose_blinded L G sha256 dbits (sc_nonce c)) (\<lambda>_.
     sbind (expose_disclosure L G (sc_disclose c) (sc_real_len c)) (\<lambda>_.
     sbind (expose_digest_id L G input_bits (sc_digest_id c)) (\<lambda>_.
     sret [])))))"

section \<open>What the rules force\<close>

definition hash_law :: "('f::field Boolean list \<Rightarrow> ('f Boolean list, 'f) synth) \<Rightarrow> bool" where
  "hash_law sha256 \<longleftrightarrow> (\<forall>bs. keeps (sha256 bs)) \<and>
     (\<forall>w bs n. assignment w \<longrightarrow> list_all (is_bit w) bs \<longrightarrow> length bs = 8 * n \<longrightarrow>
        sound w (sha256 bs) (\<lambda>d. length d = 256 \<and> list_all (is_bit w) d \<and>
          bits_bytes (bvals w d) = native_digest (bits_bytes (bvals w bs))))"

text \<open>The public inputs from \<open>i\<close> on have the values \<open>vs\<close>.\<close>

definition exposes :: "(var \<Rightarrow> 'f) \<Rightarrow> nat \<Rightarrow> 'f list \<Rightarrow> bool" where
  "exposes w i vs \<longleftrightarrow> (\<forall>k < length vs. w (Input (i + k)) = vs ! k)"

lemma exposes_append: "exposes w i (as @ bs) \<longleftrightarrow> exposes w i as \<and> exposes w (i + length as) bs"
proof -
  have "(\<forall>k < length (as @ bs). w (Input (i + k)) = (as @ bs) ! k) \<longleftrightarrow>
      (\<forall>k < length as. w (Input (i + k)) = as ! k) \<and> (\<forall>k < length bs. w (Input (i + length as + k)) = bs ! k)"
    by (auto simp: nth_append add.assoc) (metis add_diff_inverse_nat nat_add_left_cancel_less)
  then show ?thesis by (simp add: exposes_def)
qed

lemma exposes_Nil [simp]: "exposes w i []"
  by (simp add: exposes_def)

lemma exposes_Cons: "exposes w i (v # vs) \<longleftrightarrow> w (Input i) = v \<and> exposes w (Suc i) vs"
  using exposes_append [of w i "[v]" vs] by (simp add: exposes_def)

lemma sound_alloc_byte_bits:
  assumes "bellpepper_sound L" "assignment w"
  shows "sound w (alloc_byte_bits L name bs) (\<lambda>b. length b = 8 * length bs \<and> list_all (is_bit w) b)"
proof -
  have "sound w (alloc_byte_bits L name bs) (list_all2 (\<lambda>_. is_bit w) (enumerate 0 (bytes_to_bool_bits bs)))"
    unfolding alloc_byte_bits_def by (intro sound_smap) (auto intro!: sound_ns sound_alloc_bit assms)
  then show ?thesis by (rule sound_mono) (auto simp: list_all2_conv_all_nth list_all_length bool_bits_be)
qed

lemma sound_real_len_bits:
  assumes "bellpepper_sound L" "assignment w"
  shows "sound w (alloc_real_len_bits L n) (\<lambda>b. length b = 8 \<and> list_all (is_bit w) b)"
proof -
  have "sound w (alloc_real_len_bits L n) (list_all2 (\<lambda>_. is_bit w) (rev [0..<REAL_LEN_BITS]))"
    unfolding alloc_real_len_bits_def by (intro sound_smap sound_ns sound_alloc_bit assms)
  then show ?thesis by (rule sound_mono) (auto simp: list_all2_conv_all_nth list_all_length REAL_LEN_BITS_def)
qed

lemma keeps_claim_bits [keeps_intros]:
  assumes "bellpepper_inputs L"
  shows "keeps (alloc_byte_bits L name bs)" "keeps (alloc_real_len_bits L n)"
  unfolding alloc_byte_bits_def alloc_real_len_bits_def by (intro keeps_intros keeps_prod assms)+

context boolean_gates begin

lemma inputize_bit_sound:
  assumes "assignment w" "bellpepper_inputs L" "is_bit w b"
  shows "sound_at w i (inputize_bit L G label (k, b)) (Suc i) (\<lambda>_. w (Input i) = of_bool (bval w b))"
  unfolding inputize_bit_def prod.case
  by (rule sound_at_sbind [OF sound_at_keeps [OF sound_True]], (intro keeps_intros assms), rule sound_at_sbind [OF sound_at_keeps [OF sound_enforce]],
      (intro keeps_intros), rule sound_at_mono [OF sound_at_ns [OF inputize_law [OF assms(1)]]])
    (use assms in \<open>auto simp: is_bit_of_bool assignment_def one_def\<close>)

lemma inputize_bits_sound:
  assumes "assignment w" "bellpepper_inputs L" "list_all (is_bit w) bs"
  shows "sound_at w i (inputize_bits L G bs label) (i + length bs) (\<lambda>_. exposes w i (map of_bool (bvals w bs)))"
proof -
  have "sound_at w i (sfold (\<lambda>x _. inputize_bit L G label x) (enumerate k cs) ()) (i + length cs) (\<lambda>_. exposes w i (map of_bool (bvals w cs)))"
    if "list_all (is_bit w) cs" for i k cs
    using that
  proof (induction cs arbitrary: i k)
    case (Cons c cs)
    have c: "is_bit w c" and rest: "list_all (is_bit w) cs" using Cons.prems by auto
    have tail: "sound_at w (Suc i) (sfold (\<lambda>x _. inputize_bit L G label x) (enumerate (Suc k) cs) u) (Suc (i + length cs))
        (\<lambda>_. exposes w (Suc i) (map of_bool (bvals w cs)))" for u using Cons.IH [OF rest, of "Suc i" "Suc k"] by (cases u) simp
    have goal: "exposes w i (map of_bool (bvals w (c # cs)))" if "w (Input i) = of_bool (bval w c)" "exposes w (Suc i) (map of_bool (bvals w cs))"
      using that by (simp add: exposes_Cons)
    show ?case
      unfolding enumerate_simps sfold.simps list.size add_Suc_right add_0_right
      by (rule sound_at_sbind [OF inputize_bit_sound [OF assms(1,2) c]], rule sound_at_mono [OF tail], rule goal)
  qed (auto intro: sound_at_sret)
  from this [OF assms(3)] show ?thesis by (simp add: inputize_bits_def sfor_def)
qed

lemma mask_real_len_sound:
  assumes w: "assignment w" and d: "is_bit w d" and bs: "length bs = 8" "list_all (is_bit w) bs"
  shows "sound w (mask_real_len_bits G d bs) (\<lambda>b. length b = 8 \<and> list_all (is_bit w) b \<and> (\<not> bval w d \<longrightarrow> bvals w b = replicate 8 False))"
proof -
  have "sound w (mask_real_len_bits G d bs) (list_all2 (\<lambda>_ b. is_bit w b \<and> (\<not> bval w d \<longrightarrow> \<not> bval w b)) (enumerate 0 bs))"
    unfolding mask_real_len_bits_def
  proof (rule sound_smap)
    fix x assume x: "x \<in> set (enumerate 0 bs)"
    obtain i b where b: "x = (i, b)" by (cases x)
    then have "is_bit w b" using x bs(2) by (auto simp: in_set_enumerate_eq list_all_length)
    then show "sound w (case x of (i, b) \<Rightarrow> ns (''mask real_len bit '' @ show_nat i) (gate_and G b d)) (\<lambda>b. is_bit w b \<and> (\<not> bval w d \<longrightarrow> \<not> bval w b))"
      unfolding b prod.case by (intro sound_ns sound_mono [OF and_law [OF w _ d]]) auto
  qed
  then show ?thesis
    by (rule sound_mono) (auto simp: list_all2_conv_all_nth list_all_length bs(1) intro!: nth_equalityI)
qed

end

lemma decode_front:
  assumes "5 \<le> length xs"
  shows "decode_cbor_uint (take 5 xs) = decode_cbor_uint xs"
proof -
  obtain a b c d e r where "xs = a # b # c # d # e # r" using assms by (auto simp: numeral_eq_Suc Suc_le_length_iff)
  then show ?thesis by (simp add: decode_cbor_uint_def get_range_def)
qed

lemma exposed_bytes: "length bs = 8 * n \<Longrightarrow> map of_bool bs = native_bytes_to_bits (bits_bytes bs)"
proof -
  assume "length bs = 8 * n"
  then have "bin_val (be_bits (bits_bytes bs)) = bin_val bs" "length (be_bits (bits_bytes bs)) = length bs"
    using be_val_bits_bytes [of bs n] by (simp_all add: bin_val_be_bits)
  then have "be_bits (bits_bytes bs) = bs" by (intro bin_val_inj) auto
  then show ?thesis by (simp add: native_bytes_to_bits_be)
qed

lemma exposed_u32: "length bs = 32 \<Longrightarrow> map of_bool bs = native_u32_to_bits (word_of_nat (bin_val bs))"
proof -
  assume len: "length bs = 32"
  have lt: "bin_val bs < 2 ^ 32" using bin_val_less [of bs] len by simp
  have "small_bits (bin_val bs) 32 = bs" by (rule bin_val_inj) (use lt len in \<open>simp_all add: bin_val_small_bits\<close>)
  moreover have "small_bits (bin_val bs) 32 ! i \<longleftrightarrow> bit (bin_val bs) (31 - i)" if "i < 32" for i
    using that by (simp add: small_bits_def rev_nth del: upt_rec_numeral)
  ultimately have nth: "bs ! i \<longleftrightarrow> bit (bin_val bs) (31 - i)" if "i < 32" for i using that by metis
  have "unat (word_of_nat (bin_val bs) :: u32) = bin_val bs" using lt by (simp add: unat_of_nat)
  then have "bit (word_of_nat (bin_val bs) :: u32) k \<longleftrightarrow> bit (bin_val bs) k" for k
    using bit_unsigned_iff [where 'a = nat, of "word_of_nat (bin_val bs) :: u32" k] by simp
  then show ?thesis
    by (intro nth_equalityI) (use len nth in \<open>auto simp: native_u32_to_bits_def simp del: upt_rec_numeral\<close>)
qed

text \<open>What a claim's step exposes, over byte strings.\<close>

definition claim_exposed :: "(var \<Rightarrow> 'f::field) \<Rightarrow> nat \<Rightarrow> bool" where
  "claim_exposed w i \<longleftrightarrow> (\<exists>bs n nonce disclose len_bits v k.
     length bs = MAX_CLAIM_BYTES_V1 \<and> n \<le> MAX_CLAIM_BYTES_V1 \<and> length nonce = BLIND_NONCE_BYTES \<and> length len_bits = REAL_LEN_BITS \<and>
     decode_cbor_uint (drop DIGEST_ID_OFFSET_BYTES bs) = Some (v, k) \<and> v \<le> MAX_DIGEST_ID \<and>
     (\<not> disclose \<longrightarrow> len_bits = replicate REAL_LEN_BITS False) \<and>
     exposes w i (native_bytes_to_bits (blind_digest_bytes native_digest (native_digest (take n bs)) nonce) @ [of_bool disclose] @
       map of_bool len_bits @ native_u32_to_bits v))"

context boolean_gates begin

lemma keeps_padding:
  assumes "bellpepper_inputs L"
  shows "keeps (padded_buffer_bits L G raw n m k)"
proof -
  have inj: "keeps (expected_injected i b n)" for i b n unfolding expected_injected_def by (intro keeps_intros)
  have comb: "keeps (combined G raw sel n m i a b)" for sel i a b
    unfolding combined_def Let_def by (cases a) (auto intro!: keeps_intros gates_keep inj)
  have bit: "keeps (buffer_bit L G raw sel n m i a b)" for sel i a b unfolding buffer_bit_def by (intro keeps_intros comb assms)
  have act: "keeps (msg_active L sel n m i)" for sel i unfolding msg_active_def by (intro keeps_intros assms)
  have byte: "keeps (buffer_byte L G raw sel n m i)" for sel i unfolding buffer_byte_def by (intro keeps_intros act bit)
  have sel: "keeps (len_selector L n m)" unfolding len_selector_def by (intro keeps_intros assms)
  show ?thesis unfolding padded_buffer_bits_def by (intro keeps_intros sel byte)
qed

lemma keeps_sha256_var:
  assumes "bellpepper_inputs L" "gadget_keeps H"
  shows "keeps (sha256_var_sized L G H uc raw n m k)"
proof -
  have h: "keeps (sha256_compression_function H b s)" for b s using assms(2) by (simp add: gadget_keeps_def)
  have d: "keeps (digest_bit G ib pb k i)" for ib pb i unfolding digest_bit_def by (intro keeps_intros gates_keep or_step_keeps)
  have c: "keeps (compress_blocks H buf i s)" for buf i s unfolding compress_blocks_def by (cases s) (auto intro!: keeps_intros h)
  have b: "keeps (in_block_bit L sel n m i)" for sel i unfolding in_block_bit_def by (intro keeps_intros assms)
  show ?thesis unfolding sha256_var_sized_def Let_def by (intro keeps_intros keeps_padding assms c b d)
qed

lemma keeps_extract:
  assumes "bellpepper_inputs L"
  shows "keeps (extract_digest_id L G item off v)"
proof -
  have t: "keeps (expected_term G sel vb i k c)" for sel vb i k c unfolding expected_term_def by (intro keeps_intros gates_keep)
  have e: "keeps (expected_bit G sel vb i k)" for sel vb i k unfolding expected_bit_def by (intro keeps_intros t or_step_keeps)
  have w: "keeps (window_bit_rules G win sel act vb x)" for win sel act vb x
    unfolding window_bit_rules_def Let_def by (cases x) (auto intro!: keeps_intros e gates_keep)
  show ?thesis
    unfolding extract_digest_id_def Let_def class_selector_def active_bit_def digest_id_bits_def zero_rules_def class0_rule_def class3_rule_def
    by (intro keeps_intros assms w gates_keep)
qed

lemma expose_blinded_sound:
  assumes L: "bellpepper_sound L" "bellpepper_inputs L" and sha: "hash_law sha256" and w: "assignment w"
    and d: "length d = 256" "list_all (is_bit w) d"
  shows "sound_at w i (expose_blinded L G sha256 d nonce) (i + 256) (\<lambda>_. \<exists>nonce'. length nonce' = length nonce \<and>
    exposes w i (native_bytes_to_bits (blind_digest_bytes native_digest (bits_bytes (bvals w d)) nonce')))"
  unfolding expose_blinded_def
proof (rule sound_at_sbind [OF sound_at_keeps [OF sound_alloc_byte_bits [OF L(1) w]]], (intro keeps_intros L), elim conjE)
  fix nb assume nb: "length nb = 8 * length nonce" "list_all (is_bit w) nb"
  have "length (d @ nb) = 8 * (32 + length nonce)" "list_all (is_bit w) (d @ nb)" using d nb by simp_all
  then have hash: "sound w (sha256 (d @ nb)) (\<lambda>b. length b = 256 \<and> list_all (is_bit w) b \<and> bits_bytes (bvals w b) = native_digest (bits_bytes (bvals w (d @ nb))))"
    "keeps (sha256 (d @ nb))" using sha w unfolding hash_law_def by blast+
  have split: "bits_bytes (bvals w (d @ nb)) = bits_bytes (bvals w d) @ bits_bytes (bvals w nb)" using bits_bytes_append [of "bvals w d" 32] d by simp
  have len: "length (bits_bytes (bvals w nb)) = length nonce" using length_bits_bytes [of "bvals w nb"] nb by simp
  show "sound_at w i (sbind (ns ''blind(digest, nonce)'' (sha256 (d @ nb))) (\<lambda>blinded. inputize_bits L G blinded ''digest'')) (i + 256)
      (\<lambda>_. \<exists>nonce'. length nonce' = length nonce \<and> exposes w i (native_bytes_to_bits (blind_digest_bytes native_digest (bits_bytes (bvals w d)) nonce')))"
  proof (rule sound_at_sbind [OF sound_at_keeps [OF sound_ns [OF hash(1)] keeps_ns [OF hash(2)]]], elim conjE)
    fix b assume b: "length b = 256" "list_all (is_bit w) b" "bits_bytes (bvals w b) = native_digest (bits_bytes (bvals w (d @ nb)))"
    have "(map of_bool (bvals w b) :: 'f list) = native_bytes_to_bits (blind_digest_bytes native_digest (bits_bytes (bvals w d)) (bits_bytes (bvals w nb)))"
      using exposed_bytes [of "bvals w b" 32] b split by (simp add: blind_digest_bytes_def)
    then show "sound_at w i (inputize_bits L G b ''digest'') (i + 256)
        (\<lambda>_. \<exists>nonce'. length nonce' = length nonce \<and> exposes w i (native_bytes_to_bits (blind_digest_bytes native_digest (bits_bytes (bvals w d)) nonce')))"
      using len by (intro sound_at_mono [OF inputize_bits_sound [OF w L(2) b(2), unfolded b(1)]] exI [of _ "bits_bytes (bvals w nb)"]) simp
  qed
qed

lemma expose_disclosure_sound:
  assumes L: "bellpepper_sound L" "bellpepper_inputs L" and w: "assignment w"
  shows "sound_at w i (expose_disclosure L G disclose n) (i + 9) (\<lambda>_. \<exists>dis len_bits. length len_bits = 8 \<and>
    (\<not> dis \<longrightarrow> len_bits = replicate 8 False) \<and> exposes w i ([of_bool dis] @ map of_bool len_bits))"
  unfolding expose_disclosure_def
proof (rule sound_at_sbind [OF sound_at_keeps [OF sound_ns [OF sound_alloc_bit [OF L(1) w]]]], (intro keeps_intros L))
  fix d assume d: "is_bit w d"
  have k: "keeps (mask_real_len_bits G d bs)" for bs unfolding mask_real_len_bits_def by (intro keeps_intros keeps_prod gates_keep)
  have one: "sound_at w i (inputize_bits L G [d] ''disclose'') (Suc i) (\<lambda>_. w (Input i) = of_bool (bval w d))"
    using inputize_bits_sound [OF w L(2), of "[d]" i] d by (simp add: exposes_Cons)
  show "sound_at w i (sbind (inputize_bits L G [d] ''disclose'') (\<lambda>_. sbind (alloc_real_len_bits L n) (\<lambda>real_len_bits.
      sbind (mask_real_len_bits G d real_len_bits) (\<lambda>masked_real_len_bits. inputize_bits L G masked_real_len_bits ''real_len'')))) (i + 9)
    (\<lambda>_. \<exists>dis len_bits. length len_bits = 8 \<and> (\<not> dis \<longrightarrow> len_bits = replicate 8 False) \<and> exposes w i ([of_bool dis] @ map of_bool len_bits))"
  proof (rule sound_at_sbind [OF one], rule sound_at_sbind [OF sound_at_keeps [OF sound_real_len_bits [OF L(1) w]]], (intro keeps_intros L), elim conjE,
      rule sound_at_sbind [OF sound_at_keeps [OF mask_real_len_sound [OF w d] k]], assumption+, elim conjE)
    fix b assume in0: "w (Input i) = of_bool (bval w d)" and b: "length b = 8" "list_all (is_bit w) b" "\<not> bval w d \<longrightarrow> bvals w b = replicate 8 False"
    have "sound_at w (Suc i) (inputize_bits L G b ''real_len'') (i + 9) (\<lambda>_. exposes w (Suc i) (map of_bool (bvals w b)))"
      using inputize_bits_sound [OF w L(2) b(2), of "Suc i"] b(1) by (simp add: numeral_eq_Suc)
    then show "sound_at w (Suc i) (inputize_bits L G b ''real_len'') (i + 9)
      (\<lambda>_. \<exists>dis len_bits. length len_bits = 8 \<and> (\<not> dis \<longrightarrow> len_bits = replicate 8 False) \<and> exposes w i ([of_bool dis] @ map of_bool len_bits))"
    proof (rule sound_at_mono, intro exI conjI)
      assume "exposes w (Suc i) (map of_bool (bvals w b))"
      then show "exposes w i ([of_bool (bval w d)] @ map of_bool (bvals w b))" using in0 by (simp only: append_Cons append_Nil exposes_Cons)
    qed (use b in simp_all)
  qed
qed

lemma expose_digest_id_sound:
  assumes repr: "scalar_repr (repr :: 'f \<Rightarrow> nat)" and L: "bellpepper_sound L" "bellpepper_inputs L" and w: "assignment w"
    and item: "length item = 8 * MAX_CLAIM_BYTES_V1" "list_all (is_bit w) item"
  shows "sound_at w i (expose_digest_id L G item v) (i + 32) (\<lambda>_. \<exists>u k.
    decode_cbor_uint (drop DIGEST_ID_OFFSET_BYTES (bits_bytes (bvals w item))) = Some (u, k) \<and> u \<le> MAX_DIGEST_ID \<and> exposes w i (native_u32_to_bits u))"
  unfolding expose_digest_id_def
proof (rule sound_at_sbind [OF sound_at_keeps [OF sound_ns [OF extract_sound [OF repr L(1) w item(2)]] keeps_ns [OF keeps_extract [OF L(2)]]]],
    unfold Let_def, elim exE conjE)
  let ?win = "bvals w (take 40 (drop (DIGEST_ID_OFFSET_BYTES * 8) item))" and ?B = "bits_bytes (bvals w item)"
  fix e c assume e: "c < 4" "class_fits ?win (bvals w (value_bits e)) c" "length ?win = 40" "length (value_bits e) = 32" "list_all (is_bit w) (value_bits e)"
  let ?n = "bin_val (bvals w (value_bits e))" and ?u = "word_of_nat (bin_val (bvals w (value_bits e))) :: u32"
  have "length ?B = 176" using length_bits_bytes [of "bvals w item" 176] item(1) by (simp add: claim_consts)
  moreover have "bits_bytes ?win = take 5 (drop DIGEST_ID_OFFSET_BYTES ?B)"
    using bits_bytes_slice [of "bvals w item" 176 5 DIGEST_ID_OFFSET_BYTES] item(1) by (simp add: claim_consts take_map drop_map mult.commute)
  ultimately have "decode_cbor_uint (drop DIGEST_ID_OFFSET_BYTES ?B) = decode_cbor_uint (bits_bytes ?win)"
    by (simp add: decode_front DIGEST_ID_OFFSET_BYTES_def)
  moreover have dec: "decode_cbor_uint (bits_bytes ?win) = Some (?u, class_width c)" "?n < 2 ^ 31"
    using class_fits_decode [OF e(2,3) _ e(1)] e(4) by simp_all
  moreover have "?u \<le> MAX_DIGEST_ID" using dec(2) by (simp add: digest_id_le unat_of_nat)
  moreover have "map of_bool (bvals w (value_bits e)) = (native_u32_to_bits ?u :: 'f list)" by (rule exposed_u32) (simp add: e(4))
  ultimately show "sound_at w i (inputize_bits L G (value_bits e) ''digest_id'') (i + 32) (\<lambda>_. \<exists>u k.
      decode_cbor_uint (drop DIGEST_ID_OFFSET_BYTES ?B) = Some (u, k) \<and> u \<le> MAX_DIGEST_ID \<and> exposes w i (native_u32_to_bits u))"
    by (intro sound_at_mono [OF inputize_bits_sound [OF w L(2) e(5), unfolded e(4)]] exI [of _ ?u] exI [of _ "class_width c"]) simp
qed

lemma claim_step_sound:
  assumes repr: "scalar_repr (repr :: 'f \<Rightarrow> nat)" and L: "bellpepper_sound L" "bellpepper_inputs L"
    and H: "gadget_sound H" "gadget_keeps H" "constant_law H uc" and sha: "hash_law sha256"
    and w: "assignment w" and c: "length (sc_bytes c) = MAX_CLAIM_BYTES_V1" "length (sc_nonce c) = BLIND_NONCE_BYTES"
  shows "sound_at w i (claim_step_precommitted L G H uc sha256 c) (i + STEP_LEN) (\<lambda>_. claim_exposed w i)"
  unfolding claim_step_precommitted_def
proof (rule sound_at_sbind [OF sound_at_keeps [OF sound_alloc_byte_bits [OF L(1) w]]], (intro keeps_intros L), elim conjE)
  fix raw assume raw: "length raw = 8 * length (sc_bytes c)" "list_all (is_bit w) raw"
  let ?B = "bits_bytes (bvals w raw)"
  have B: "length ?B = MAX_CLAIM_BYTES_V1" using length_bits_bytes [of "bvals w raw" MAX_CLAIM_BYTES_V1] raw c by simp
  have big: "Suc MAX_VAR_BYTES < modulus" "MAX_VAR_BYTES + 9 \<le> NUM_BLOCKS * 64" by (simp_all add: MAX_VAR_BYTES_def NUM_BLOCKS_def modulus_def)
  have len: "i + STEP_LEN = i + 256 + 9 + 32" by (simp add: STEP_LEN_def claim_consts)
  note hash = sha256_var_sized_sound [OF repr L(1) H(1,3) w raw(2) big, of "sc_real_len c", folded sha256_var_def]
  show "sound_at w i (sbind (ns ''sha256_var(issuer_signed_item)'' (sha256_var L G H uc raw (sc_real_len c))) (\<lambda>(dbits, msg_active_bits).
      sbind (expose_blinded L G sha256 dbits (sc_nonce c)) (\<lambda>_. sbind (expose_disclosure L G (sc_disclose c) (sc_real_len c)) (\<lambda>_.
      sbind (expose_digest_id L G raw (sc_digest_id c)) (\<lambda>_. sret []))))) (i + STEP_LEN) (\<lambda>_. claim_exposed w i)"
  proof (rule sound_at_sbind [OF sound_at_keeps [OF sound_ns [OF hash]]])
    show "keeps (ns ''sha256_var(issuer_signed_item)'' (sha256_var L G H uc raw (sc_real_len c)))"
      unfolding sha256_var_def by (intro keeps_ns keeps_sha256_var L H)
    fix x assume "case x of (d, act) \<Rightarrow> \<exists>n \<le> MAX_VAR_BYTES. length d = 256 \<and> list_all (is_bit w) d \<and>
      bits_bytes (bvals w d) = native_digest (take n ?B) \<and> list_all (is_bit w) act \<and> bvals w act = map (\<lambda>i. i < n) [0..<MAX_VAR_BYTES]"
    then obtain d act n where x: "x = (d, act)" and d: "length d = 256" "list_all (is_bit w) d" "bits_bytes (bvals w d) = native_digest (take n ?B)"
      and n: "n \<le> MAX_CLAIM_BYTES_V1" by (auto simp: MAX_VAR_BYTES_def claim_consts)
    have goal: "claim_exposed w i" if "length nonce = BLIND_NONCE_BYTES"
        "exposes w i (native_bytes_to_bits (blind_digest_bytes native_digest (native_digest (take n ?B)) nonce))"
        "length lens = 8" "\<not> dis \<longrightarrow> lens = replicate 8 False" "exposes w (i + 256) ([of_bool dis] @ map of_bool lens)"
        "decode_cbor_uint (drop DIGEST_ID_OFFSET_BYTES ?B) = Some (v, k)" "v \<le> MAX_DIGEST_ID" "exposes w (i + 256 + 9) (native_u32_to_bits v)"
      for nonce dis lens v k
    proof -
      have "length (native_bytes_to_bits (blind_digest_bytes native_digest (native_digest (take n ?B)) nonce) :: 'f list) = 256"
        by (simp add: blind_digest_bytes_def native.length_digest)
      then have "exposes w i (native_bytes_to_bits (blind_digest_bytes native_digest (native_digest (take n ?B)) nonce) @ ([of_bool dis] @ map of_bool lens) @ native_u32_to_bits v)"
        using that(2,3,5,8) by (simp only: exposes_append length_append length_map list.size) simp
      then show ?thesis
        unfolding claim_exposed_def using that B n
        by (intro exI [of _ ?B] exI [of _ n] exI [of _ nonce] exI [of _ dis] exI [of _ lens] exI [of _ v] exI [of _ k]) (simp add: REAL_LEN_BITS_def)
    qed
    show "sound_at w i (case x of (dbits, msg_active_bits) \<Rightarrow> sbind (expose_blinded L G sha256 dbits (sc_nonce c)) (\<lambda>_.
        sbind (expose_disclosure L G (sc_disclose c) (sc_real_len c)) (\<lambda>_. sbind (expose_digest_id L G raw (sc_digest_id c)) (\<lambda>_. sret []))))
        (i + STEP_LEN) (\<lambda>_. claim_exposed w i)"
      unfolding x prod.case len
      apply (rule sound_at_sbind [OF expose_blinded_sound [OF L sha w d(1,2)]], elim exE conjE)
      apply (rule sound_at_sbind [OF expose_disclosure_sound [OF L w]], elim exE conjE)
      apply (rule sound_at_sbind [OF expose_digest_id_sound [OF repr L w raw(1) [unfolded c(1)] raw(2)]], elim exE conjE)
      apply (rule sound_at_sret)
      by (rule goal) (use c(2) d(3) in auto)
  qed
qed

end

text \<open>
  C12. If the rules of a claim's step hold, its 297 public inputs are the blinded SHA-256 of a prefix of the claim's private
  bytes, the disclosure bit, eight length bits that are zero for an undisclosed claim, and the identifier that the reader
  finds in those same bytes, at most 2^31 - 1.
\<close>

theorem claim_step_exposes:
  assumes "scalar_repr (repr :: 'f::field \<Rightarrow> nat)" "bellpepper_sound L" "bellpepper_inputs L" "boolean_gates G"
    and "gadget_sound H" "gadget_keeps H" "constant_law H uc" "hash_law sha256"
    and "assignment (w :: var \<Rightarrow> 'f)" "length (sc_bytes c) = MAX_CLAIM_BYTES_V1" "length (sc_nonce c) = BLIND_NONCE_BYTES"
  shows "sound_at w i (claim_step_precommitted L G H uc sha256 c) (i + STEP_LEN) (\<lambda>_. claim_exposed w i)"
  by (rule boolean_gates.claim_step_sound [OF assms(4,1-3,5-)])

definition table_hash :: "'f::field Boolean list \<Rightarrow> ('f Boolean list, 'f) synth" where
  "table_hash bs = sbind (smap (\<lambda>i. truth_table bs (\<lambda>x. be_bits (native_digest (bits_bytes x)) ! i)) [0..<256]) (\<lambda>r.
     sret (map boolean_of r))"

lemma table_hash_law: "hash_law (table_hash :: 'f::field Boolean list \<Rightarrow> _)"
proof -
  have "length (map boolean_of r) = 256 \<and> list_all (is_bit w) (map boolean_of r) \<and>
      bits_bytes (bvals w (map boolean_of r)) = native_digest (bits_bytes (bvals w bs))"
    if "list_all2 (\<lambda>i r. lcv w r = of_bool (be_bits (native_digest (bits_bytes (bvals w bs))) ! i)) [0..<256] r"
    for w :: "var \<Rightarrow> 'f" and bs r
  proof -
    let ?d = "be_bits (native_digest (bits_bytes (bvals w bs)))"
    have len: "length r = 256" "length ?d = 256" using that by (auto dest: list_all2_lengthD simp: native.length_digest)
    have each: "ev w (terms (r ! i)) = of_bool (?d ! i)" if "i < 256" for i
      using list_all2_nthD [OF \<open>list_all2 _ _ r\<close>, of i] that len by (simp del: upt_rec_numeral)
    have "list_all (is_bit w) (map boolean_of r)" using each len by (auto simp: list_all_length is_bit_def boolean_of_def)
    moreover have "bvals w (map boolean_of r) = ?d"
      by (rule nth_equalityI) (use each len in \<open>auto simp: bval_def boolean_of_def\<close>)
    ultimately show ?thesis using len by (simp add: bits_bytes_be_bits)
  qed
  note fin = this
  have "sound w (table_hash bs) (\<lambda>d. length d = 256 \<and> list_all (is_bit w) d \<and>
      bits_bytes (bvals w d) = native_digest (bits_bytes (bvals w bs)))" if "assignment w" "list_all (is_bit w) bs"
    for w :: "var \<Rightarrow> 'f" and bs
    unfolding table_hash_def
    by (rule sound_sbind [OF sound_smap [OF sound_truth_table [OF that]]], rule sound_sret, rule fin)
  moreover have "keeps (table_hash bs)" for bs :: "'f Boolean list" unfolding table_hash_def by (intro keeps_intros)
  ultimately show ?thesis by (simp add: hash_law_def)
qed

definition zero_claim :: ClaimDigestStepCircuit where
  "zero_claim = \<lparr>sc_bytes = replicate MAX_CLAIM_BYTES_V1 0, sc_real_len = 12, sc_disclose = True, sc_digest_id = 0,
     sc_nonce = replicate BLIND_NONCE_BYTES 0\<rparr>"

theorem claim_step_exposes_witness:
  "sound_at ((\<lambda>_. 1) :: var \<Rightarrow> rat) 1 (claim_step_precommitted plain_bellpepper plain_gates table_gadget constant_bits table_hash zero_claim)
     (1 + STEP_LEN) (\<lambda>_. claim_exposed ((\<lambda>_. 1) :: var \<Rightarrow> rat) 1)"
  by (rule claim_step_exposes [OF scalar_repr_rat plain_bellpepper_sound plain_bellpepper_inputs plain.boolean_gates_axioms
      table_gadget_sound table_gadget_keeps constant_bits_law table_hash_law, of "\<lambda>_. 1" zero_claim 1]) (simp_all add: assignment_def zero_claim_def)

end
