(* ===== verification/Splice.thy ===== *)
theory Splice
  imports ClaimStep
begin

text \<open>
  The signed structure in the rules (\<open>mso_splice.rs\<close>, \<open>mso.rs\<close>). Each \<open>digestID\<close> has one of four widths, so
  everything after it starts at a private offset: selectors name the offsets, and every output bit is the disjunction of
  what each part contributes there. The rules force the buffer to be the parts, one after the other, then zeros.
\<close>

section \<open>Placements\<close>

datatype 'f Placement =
    VariablePlacement "'f Boolean list" "nat list" "'f Boolean list" "'f Boolean list"
  | FixedPlacement "'f Boolean list" "nat list" "'f Boolean list"

definition splice_name :: "string \<Rightarrow> nat \<Rightarrow> nat \<Rightarrow> nat \<Rightarrow> string" where
  "splice_name kind p_idx p_byte bit_idx = kind @ '' p'' @ show_nat p_idx @ '' byte'' @ show_nat p_byte @ '' bit'' @ show_nat bit_idx"

definition variable_pairs :: "nat list \<Rightarrow> nat \<Rightarrow> ((nat \<times> nat) \<times> (nat \<times> nat)) list" where
  "variable_pairs cursor_values p_byte = filter (\<lambda>((k, c), (w_idx, w)). \<not> (p_byte < c \<or> c + w \<le> p_byte))
     (List.product (enumerate 0 cursor_values) (enumerate 0 DIGEST_ID_WIDTHS))"

definition variable_term ::
  "'f gates \<Rightarrow> 'f Boolean list \<Rightarrow> 'f Boolean list \<Rightarrow> 'f Boolean list \<Rightarrow> nat \<Rightarrow> nat \<Rightarrow> nat \<Rightarrow> (nat \<times> nat) \<times> (nat \<times> nat) \<Rightarrow> ('f::field Boolean, 'f) synth" where
  "variable_term G cursor_onehot width_onehot piece p_idx p_byte bit_idx = (\<lambda>((k, c), (w_idx, w)).
     let name = splice_name ''splice'' p_idx p_byte bit_idx @ '' k'' @ show_nat k @ '' w'' @ show_nat w_idx;
         content_bit = piece ! ((p_byte - c) * 8 + bit_idx) in
     sbind (ns (name @ '' cursor-width'') (gate_and G (cursor_onehot ! k) (width_onehot ! w_idx))) (\<lambda>both.
     ns (name @ '' content'') (gate_and G both content_bit)))"

definition variable_or_name :: "nat \<Rightarrow> nat \<Rightarrow> nat \<Rightarrow> (nat \<times> nat) \<times> (nat \<times> nat) \<Rightarrow> string" where
  "variable_or_name p_idx p_byte bit_idx = (\<lambda>((k, c), (w_idx, w)).
     splice_name ''splice-or'' p_idx p_byte bit_idx @ '' k'' @ show_nat k @ '' w'' @ show_nat w_idx)"

definition fixed_cursors :: "nat list \<Rightarrow> nat \<Rightarrow> nat \<Rightarrow> (nat \<times> nat) list" where
  "fixed_cursors cursor_values content_len_bytes p_byte =
     filter (\<lambda>(k, c). \<not> (p_byte < c \<or> c + content_len_bytes \<le> p_byte)) (enumerate 0 cursor_values)"

definition fixed_term ::
  "'f gates \<Rightarrow> 'f Boolean list \<Rightarrow> 'f Boolean list \<Rightarrow> nat \<Rightarrow> nat \<Rightarrow> nat \<Rightarrow> nat \<times> nat \<Rightarrow> ('f::field Boolean, 'f) synth" where
  "fixed_term G cursor_onehot piece p_idx p_byte bit_idx = (\<lambda>(k, c).
     ns (splice_name ''splice'' p_idx p_byte bit_idx @ '' k'' @ show_nat k @ '' content'')
       (gate_and G (cursor_onehot ! k) (piece ! ((p_byte - c) * 8 + bit_idx))))"

definition fixed_or_name :: "nat \<Rightarrow> nat \<Rightarrow> nat \<Rightarrow> nat \<times> nat \<Rightarrow> string" where
  "fixed_or_name p_idx p_byte bit_idx = (\<lambda>(k, c). splice_name ''splice-or'' p_idx p_byte bit_idx @ '' k'' @ show_nat k)"

definition placement_step ::
  "'f gates \<Rightarrow> nat \<Rightarrow> nat \<Rightarrow> nat \<times> 'f Placement \<Rightarrow> 'f Boolean option \<Rightarrow> ('f::field Boolean option, 'f) synth" where
  "placement_step G p_byte bit_idx = (\<lambda>(p_idx, placement) acc.
     case placement of
       VariablePlacement cursor_onehot cursor_values width_onehot piece \<Rightarrow>
         sfold (\<lambda>x acc. sbind (variable_term G cursor_onehot width_onehot piece p_idx p_byte bit_idx x)
           (\<lambda>t. or_step G (variable_or_name p_idx p_byte bit_idx x) acc t)) (variable_pairs cursor_values p_byte) acc
     | FixedPlacement cursor_onehot cursor_values piece \<Rightarrow>
         sfold (\<lambda>x acc. sbind (fixed_term G cursor_onehot piece p_idx p_byte bit_idx x)
           (\<lambda>t. or_step G (fixed_or_name p_idx p_byte bit_idx x) acc t)) (fixed_cursors cursor_values (length piece div 8) p_byte) acc)"

definition assemble_bit :: "'f gates \<Rightarrow> 'f Placement list \<Rightarrow> nat \<Rightarrow> nat \<Rightarrow> ('f::field Boolean, 'f) synth" where
  "assemble_bit G placements p_byte bit_idx =
     sbind (sfold (placement_step G p_byte bit_idx) (enumerate 0 placements) None) (\<lambda>acc.
     sret (case acc of None \<Rightarrow> bool_constant False | Some b \<Rightarrow> b))"

definition assemble_from_placements ::
  "'f gates \<Rightarrow> nat \<Rightarrow> nat \<times> nat \<Rightarrow> 'f Placement list \<Rightarrow> ('f::field Boolean list, 'f) synth" where
  "assemble_from_placements G output_len_bytes byte_range placements =
     sbind (smap (\<lambda>p_byte.
         if p_byte < fst byte_range \<or> snd byte_range \<le> p_byte then sret (replicate 8 (bool_constant False))
         else smap (assemble_bit G placements p_byte) [0..<8]) [0..<output_len_bytes]) (\<lambda>out.
     sret (concat out))"

section \<open>The assembly\<close>

record 'f DigestIdEntry =
  entry_digest_id :: u32
  tail_bits :: "'f Boolean list"

definition splice_byte_bits :: "'f::field bellpepper \<Rightarrow> bytes \<Rightarrow> ('f Boolean list, 'f) synth" where
  "splice_byte_bits L bs = smap (\<lambda>(i, b). ns (''byte-bit '' @ show_nat i) (alloc_bit L (Some b))) (enumerate 0 (bytes_to_bool_bits bs))"

text \<open>One entry's encoded identifier, padded with zeros, its width's selector, and the width.\<close>

definition alloc_entry :: "'f::field bellpepper \<Rightarrow> nat \<times> 'f DigestIdEntry \<Rightarrow> ('f Boolean list \<times> 'f Boolean list \<times> nat, 'f) synth" where
  "alloc_entry L = (\<lambda>(i, e).
     case encode_cbor_uint (entry_digest_id e) of None \<Rightarrow> sfail Panicked
     | Some encoded \<Rightarrow>
         sbind (ns (''digest_id '' @ show_nat i @ '' encoded bytes'')
           (splice_byte_bits L (take MAX_CBOR_UINT_BYTES encoded @ replicate (MAX_CBOR_UINT_BYTES - length encoded) 0))) (\<lambda>bits.
         sbind (ns (''digest_id '' @ show_nat i @ '' width'') (alloc_one_hot L DIGEST_ID_WIDTHS (length encoded))) (\<lambda>onehot.
         sret (bits, onehot, length encoded))))"

type_synonym 'f cursors = "('f Boolean list \<times> nat list) list"

definition cursor_step :: "'f gates \<Rightarrow> 'f Boolean list list \<Rightarrow> nat \<Rightarrow> 'f cursors \<times> 'f cursors \<Rightarrow> ('f::field cursors \<times> 'f cursors, 'f) synth" where
  "cursor_step G width_onehots i = (\<lambda>(starts, ends).
     let (start_onehot, start_values) = starts ! i in
     sbind (if length start_values = 1 then sret (width_onehots ! i, map (\<lambda>w. w + start_values ! 0) DIGEST_ID_WIDTHS)
            else ns (''entry '' @ show_nat i @ '' end cursor'')
              (convolve_sum G start_onehot start_values (width_onehots ! i) DIGEST_ID_WIDTHS)) (\<lambda>(end_onehot, end_values).
     sret (starts @ [(end_onehot, map (\<lambda>v. v + ENTRY_TAIL_LEN) end_values)], ends @ [(end_onehot, end_values)])))"

definition entry_placements ::
  "'f cursors \<Rightarrow> 'f cursors \<Rightarrow> ('f Boolean list \<times> 'f Boolean list \<times> nat) list \<Rightarrow> 'f DigestIdEntry list \<Rightarrow> 'f Boolean list \<Rightarrow> 'f Placement list" where
  "entry_placements starts ends allocated es suffix_bits =
     map (\<lambda>i. VariablePlacement (fst (starts ! i)) (snd (starts ! i)) (fst (snd (allocated ! i))) (fst (allocated ! i))) [0..<NUM_ENTRIES] @
     map (\<lambda>i. FixedPlacement (fst (ends ! i)) (snd (ends ! i)) (tail_bits (es ! i))) [0..<NUM_ENTRIES] @
     [FixedPlacement (fst (starts ! NUM_ENTRIES)) (snd (starts ! NUM_ENTRIES)) suffix_bits]"

text \<open>The function from the cursors on, with the allocated identifiers and widths.\<close>

definition splice_entries ::
  "'f gates \<Rightarrow> 'f Boolean list \<Rightarrow> 'f DigestIdEntry list \<Rightarrow> 'f Boolean list \<Rightarrow> ('f Boolean list \<times> 'f Boolean list \<times> nat) list \<Rightarrow> ('f::field Boolean list \<times> nat, 'f) synth" where
  "splice_entries G prefix_bits es suffix_bits allocated =
     (let prefix_len = length prefix_bits div 8; suffix_len = length suffix_bits div 8;
          output_len_bytes = prefix_len + MAX_DIGEST_SECTION_BYTES + suffix_len;
          real_digest_section_len = sum_list (map (\<lambda>a. snd (snd a)) allocated) + NUM_ENTRIES * ENTRY_TAIL_LEN;
          real_len = prefix_len + real_digest_section_len + suffix_len in
      sbind (sfold (cursor_step G (map (\<lambda>a. fst (snd a)) allocated)) [0..<NUM_ENTRIES] ([([bool_constant True], [prefix_len])], [])) (\<lambda>(starts, ends).
      sbind (ns ''assemble'' (assemble_from_placements G output_len_bytes (prefix_len, prefix_len + MAX_DIGEST_SECTION_BYTES + suffix_len)
        (entry_placements starts ends allocated es suffix_bits))) (\<lambda>assembled.
      sret (prefix_bits @ drop (length prefix_bits) assembled, real_len))))"

definition assemble_mso_sig_structure ::
  "'f bellpepper \<Rightarrow> 'f gates \<Rightarrow> 'f Boolean list \<Rightarrow> 'f DigestIdEntry list \<Rightarrow> 'f Boolean list \<Rightarrow> ('f::field Boolean list \<times> nat, 'f) synth" where
  "assemble_mso_sig_structure L G prefix_bits es suffix_bits =
     sbind (sassert (length prefix_bits mod 8 = 0)) (\<lambda>_.
     sbind (sassert (length suffix_bits mod 8 = 0)) (\<lambda>_.
     sbind (sfor (\<lambda>e. sbind (sassert (length (tail_bits e) = ENTRY_TAIL_LEN * 8)) (\<lambda>_. sassert (entry_digest_id e \<le> MAX_DIGEST_ID))) es) (\<lambda>_.
     sbind (smap (alloc_entry L) (enumerate 0 es)) (\<lambda>allocated.
     splice_entries G prefix_bits es suffix_bits allocated))))"

lemma length_concat8: "\<forall>c \<in> set css. length c = 8 \<Longrightarrow> length (concat css) = 8 * length css"
  by (induction css) auto

lemma nth_concat8: "\<forall>c \<in> set css. length c = 8 \<Longrightarrow> p < length css \<Longrightarrow> k < 8 \<Longrightarrow> concat css ! (p * 8 + k) = css ! p ! k"
proof (induction css arbitrary: p)
  case (Cons c css)
  then show ?case by (cases p) (simp_all add: nth_append add.assoc)
qed simp

section \<open>What a placement contributes\<close>

text \<open>The placement puts the bits \<open>bs\<close> at the byte \<open>s\<close>.\<close>

definition placed :: "(var \<Rightarrow> 'f::field) \<Rightarrow> 'f Placement \<Rightarrow> nat \<times> bool list \<Rightarrow> bool" where
  "placed w pl = (\<lambda>(s, bs). case pl of
     VariablePlacement onehot vals widths piece \<Rightarrow>
       \<exists>u. selects w onehot vals s \<and> selects w widths DIGEST_ID_WIDTHS u \<and> length piece = 8 * MAX_CBOR_UINT_BYTES \<and>
         list_all (is_bit w) piece \<and> bs = take (8 * u) (bvals w piece)
   | FixedPlacement onehot vals piece \<Rightarrow>
       selects w onehot vals s \<and> list_all (is_bit w) piece \<and> bs = bvals w piece)"

definition contributes :: "nat \<Rightarrow> nat \<Rightarrow> nat \<times> bool list \<Rightarrow> bool" where
  "contributes p k = (\<lambda>(s, bs). s \<le> p \<and> p < s + length bs div 8 \<and> bs ! ((p - s) * 8 + k))"

lemma selects_at:
  assumes "selects w bs vs v"
  obtains j where "j < length vs" "vs ! j = v" "length bs = length vs" "list_all (is_bit w) bs" "\<forall>i < length vs. bval w (bs ! i) \<longleftrightarrow> i = j"
  using assms by (auto simp: selects_def one_hot_def)

context boolean_gates begin

lemma fixed_placement_sound:
  assumes w: "assignment w" and sel: "selects w onehot vals s" and c: "list_all (is_bit w) piece" and k: "k < 8" and acc: "acc_ok w acc q"
  shows "sound w (placement_step G p k (i, FixedPlacement onehot vals piece) acc) (\<lambda>a. acc_ok w a (q \<or> contributes p k (s, bvals w piece)))"
proof -
  obtain j where j: "j < length vals" "vals ! j = s" "length onehot = length vals" "list_all (is_bit w) onehot"
    "\<forall>i < length vals. bval w (onehot ! i) \<longleftrightarrow> i = j" using sel by (rule selects_at)
  let ?n = "length piece div 8" and ?xs = "fixed_cursors vals (length piece div 8) p"
  let ?P = "\<lambda>x. fst x = j \<and> bvals w piece ! ((p - s) * 8 + k)"
  have bound: "(p - c) * 8 + k < length piece" if le: "c \<le> p" and lt: "p < c + ?n" for c
  proof -
    obtain d where d: "p = c + d" using le by (blast dest: le_Suc_ex)
    then have "d < ?n" using lt by simp
    then have "d * 8 + 8 \<le> ?n * 8" by linarith
    moreover have "?n * 8 \<le> length piece" by simp
    ultimately have "d * 8 + k < length piece" using k by linarith
    then show ?thesis by (simp add: d)
  qed
  have terms: "sound w (fixed_term G onehot piece i p k x) (\<lambda>t. is_bit w t \<and> (bval w t \<longleftrightarrow> ?P x))" if mem: "x \<in> set ?xs" for x
  proof -
    obtain m c where x: "x = (m, c)" by (cases x)
    then have m: "m < length vals" "c = vals ! m" "c \<le> p" "p < c + ?n"
      using mem by (auto simp: fixed_cursors_def in_set_enumerate_eq)
    then show ?thesis
      unfolding fixed_term_def x prod.case
      by (intro sound_ns sound_mono [OF and_law [OF w]]) (use j c bound [OF m(3,4)] in \<open>auto simp: list_all_length\<close>)
  qed
  have "(\<exists>x \<in> set ?xs. ?P x) \<longleftrightarrow> contributes p k (s, bvals w piece)"
  proof -
    have "(j, s) \<in> set ?xs \<longleftrightarrow> s \<le> p \<and> p < s + ?n" using j by (auto simp: fixed_cursors_def in_set_enumerate_eq)
    moreover have "x = (j, s)" if "x \<in> set ?xs" "fst x = j" for x using that j by (auto simp: fixed_cursors_def in_set_enumerate_eq)
    ultimately have "(\<exists>x \<in> set ?xs. ?P x) \<longleftrightarrow> (s \<le> p \<and> p < s + ?n) \<and> bvals w piece ! ((p - s) * 8 + k)" by (metis fst_conv)
    then show ?thesis by (simp add: contributes_def)
  qed
  then show ?thesis
    unfolding placement_step_def prod.case Placement.case
    by (intro sound_mono [OF or_fold_sound [OF w acc terms]]) auto
qed

lemma variable_placement_sound:
  assumes w: "assignment w" and sel: "selects w onehot vals s" "selects w widths DIGEST_ID_WIDTHS u"
    and c: "length piece = 8 * MAX_CBOR_UINT_BYTES" "list_all (is_bit w) piece" and k: "k < 8" and acc: "acc_ok w acc q"
  shows "sound w (placement_step G p k (i, VariablePlacement onehot vals widths piece) acc)
    (\<lambda>a. acc_ok w a (q \<or> contributes p k (s, take (8 * u) (bvals w piece))))"
proof -
  obtain j where j: "j < length vals" "vals ! j = s" "length onehot = length vals" "list_all (is_bit w) onehot"
    "\<forall>i < length vals. bval w (onehot ! i) \<longleftrightarrow> i = j" using sel(1) by (rule selects_at)
  obtain l where l: "l < length DIGEST_ID_WIDTHS" "DIGEST_ID_WIDTHS ! l = u" "length widths = length DIGEST_ID_WIDTHS" "list_all (is_bit w) widths"
    "\<forall>i < length DIGEST_ID_WIDTHS. bval w (widths ! i) \<longleftrightarrow> i = l" using sel(2) by (rule selects_at)
  have width: "v \<le> MAX_CBOR_UINT_BYTES" if "v \<in> set DIGEST_ID_WIDTHS" for v
    using that by (auto simp: DIGEST_ID_WIDTHS_def MAX_CBOR_UINT_BYTES_def)
  have u: "u \<le> MAX_CBOR_UINT_BYTES" using l nth_mem width by metis
  let ?xs = "variable_pairs vals p"
  let ?P = "\<lambda>x. fst (fst x) = j \<and> fst (snd x) = l \<and> bvals w piece ! ((p - s) * 8 + k)"
  have terms: "sound w (variable_term G onehot widths piece i p k x) (\<lambda>t. is_bit w t \<and> (bval w t \<longleftrightarrow> ?P x))" if mem: "x \<in> set ?xs" for x
  proof -
    obtain m c n v where x: "x = ((m, c), (n, v))" by (metis prod.exhaust)
    then have m: "m < length vals" "c = vals ! m" "n < length DIGEST_ID_WIDTHS" "v = DIGEST_ID_WIDTHS ! n" "c \<le> p" "p < c + v"
      using mem by (auto simp: variable_pairs_def in_set_enumerate_eq)
    have "v \<le> MAX_CBOR_UINT_BYTES" using m(3,4) width by simp
    then have "(p - c) * 8 + k < length piece" using m k c(1) by linarith
    then have cb: "is_bit w (piece ! ((p - c) * 8 + k))" "bvals w piece ! ((p - c) * 8 + k) = bval w (piece ! ((p - c) * 8 + k))"
      using c(2) by (simp_all add: list_all_length)
    show ?thesis
      unfolding variable_term_def x prod.case Let_def
    proof (rule sound_sbind [OF sound_ns [OF and_law [OF w]]])
      show "is_bit w (onehot ! m)" "is_bit w (widths ! n)" using j(3,4) l(3,4) m(1,3) by (simp_all add: list_all_length)
      fix both assume both: "is_bit w both \<and> (bval w both \<longleftrightarrow> bval w (onehot ! m) \<and> bval w (widths ! n))"
      then have "is_bit w both" "bval w both \<longleftrightarrow> m = j \<and> n = l" using j(5) l(5) m(1,3) by auto
      then show "sound w (ns ((splice_name ''splice'' i p k @ '' k'' @ show_nat m @ '' w'' @ show_nat n) @ '' content'') (gate_and G both (piece ! ((p - c) * 8 + k))))
          (\<lambda>t. is_bit w t \<and> (bval w t \<longleftrightarrow> ?P ((m, c), (n, v))))"
        by (intro sound_ns sound_mono [OF and_law [OF w _ cb(1)]]) (use cb(2) m(2) j(2) in auto)
    qed
  qed
  have "(\<exists>x \<in> set ?xs. ?P x) \<longleftrightarrow> contributes p k (s, take (8 * u) (bvals w piece))"
  proof -
    have "((j, s), (l, u)) \<in> set ?xs \<longleftrightarrow> s \<le> p \<and> p < s + u" using j l by (auto simp: variable_pairs_def in_set_enumerate_eq)
    moreover have "x = ((j, s), (l, u))" if "x \<in> set ?xs" "fst (fst x) = j" "fst (snd x) = l" for x
      using that j l by (auto simp: variable_pairs_def in_set_enumerate_eq)
    ultimately have "(\<exists>x \<in> set ?xs. ?P x) \<longleftrightarrow> (s \<le> p \<and> p < s + u) \<and> bvals w piece ! ((p - s) * 8 + k)" by (metis fst_conv snd_conv)
    moreover have "length (take (8 * u) (bvals w piece)) div 8 = u" using u c(1) by simp
    moreover have "take (8 * u) (bvals w piece) ! ((p - s) * 8 + k) = bvals w piece ! ((p - s) * 8 + k)" if "s \<le> p" "p < s + u"
      using that k by (intro nth_take) linarith
    ultimately show ?thesis unfolding contributes_def prod.case by metis
  qed
  then show ?thesis
    unfolding placement_step_def prod.case Placement.case
    by (intro sound_mono [OF or_fold_sound [OF w acc terms]]) auto
qed

lemma placement_sound:
  assumes "assignment w" "placed w pl x" "k < 8" "acc_ok w acc q"
  shows "sound w (placement_step G p k (i, pl) acc) (\<lambda>a. acc_ok w a (q \<or> contributes p k x))"
proof (cases pl)
  case (VariablePlacement onehot vals widths piece)
  then show ?thesis using assms(2) variable_placement_sound [OF assms(1) _ _ _ _ assms(3,4)] by (cases x) (auto simp: placed_def)
next
  case (FixedPlacement onehot vals piece)
  then show ?thesis using assms(2) fixed_placement_sound [OF assms(1) _ _ assms(3,4)] by (cases x) (auto simp: placed_def)
qed

lemma assemble_bit_sound:
  assumes w: "assignment w" and pls: "list_all2 (placed w) pls xs" and k: "k < 8"
  shows "sound w (assemble_bit G pls p k) (\<lambda>b. is_bit w b \<and> (bval w b \<longleftrightarrow> (\<exists>x \<in> set xs. contributes p k x)))"
proof -
  have "sound w (sfold (placement_step G p k) (enumerate n pls) acc) (\<lambda>a. acc_ok w a (q \<or> (\<exists>x \<in> set xs. contributes p k x)))"
    if "acc_ok w acc q" "list_all2 (placed w) pls xs" for n pls xs acc q
    using that(2,1)
  proof (induction arbitrary: n acc q rule: list_all2_induct)
    case (Cons pl pls x xs)
    have "sound w (sfold (placement_step G p k) (enumerate (Suc n) pls) a) (\<lambda>a. acc_ok w a (q \<or> (\<exists>x \<in> set (x # xs). contributes p k x)))"
      if "acc_ok w a (q \<or> contributes p k x)" for a
      by (rule sound_mono [OF Cons.IH [OF that]]) (auto simp: disj_assoc)
    then show ?case
      unfolding enumerate_simps sfold.simps by (rule sound_sbind [OF placement_sound [OF w Cons.hyps(1) k Cons.prems]])
  qed (auto intro: sound_sret)
  from this [of None False, OF _ pls] have "sound w (sfold (placement_step G p k) (enumerate 0 pls) None) (\<lambda>a. acc_ok w a (\<exists>x \<in> set xs. contributes p k x))"
    by simp
  then show ?thesis
    unfolding assemble_bit_def
    by (rule sound_sbind) (use w in \<open>auto simp: acc_ok_def split: option.splits intro!: sound_sret\<close>)
qed

lemma assemble_sound:
  assumes w: "assignment w" and pls: "list_all2 (placed w) pls xs"
  shows "sound w (assemble_from_placements G n (lo, n) pls) (\<lambda>out. length out = 8 * n \<and> list_all (is_bit w) (drop (8 * lo) out) \<and>
    (\<forall>p k. lo \<le> p \<longrightarrow> p < n \<longrightarrow> k < 8 \<longrightarrow> (bval w (out ! (p * 8 + k)) \<longleftrightarrow> (\<exists>x \<in> set xs. contributes p k x))))"
proof -
  let ?R = "\<lambda>p c. length c = 8 \<and> list_all (is_bit w) c \<and> (lo \<le> p \<longrightarrow> (\<forall>k < 8. bval w (c ! k) \<longleftrightarrow> (\<exists>x \<in> set xs. contributes p k x)))"
  have bytes: "sound w (smap (assemble_bit G pls p) [0..<8]) (?R p)" for p
  proof -
    have "sound w (smap (assemble_bit G pls p) [0..<8]) (list_all2 (\<lambda>k b. is_bit w b \<and> (bval w b \<longleftrightarrow> (\<exists>x \<in> set xs. contributes p k x))) [0..<8])"
      by (intro sound_smap assemble_bit_sound [OF w pls]) simp
    then show ?thesis by (rule sound_mono) (auto simp: list_all2_conv_all_nth list_all_length simp del: upt_rec_numeral)
  qed
  have "sound w (smap (\<lambda>p. if p < fst (lo, n) \<or> snd (lo, n) \<le> p then sret (replicate 8 (bool_constant False))
      else smap (assemble_bit G pls p) [0..<8]) [0..<n]) (list_all2 ?R [0..<n])"
  proof (rule sound_smap)
    fix p
    show "sound w (if p < fst (lo, n) \<or> snd (lo, n) \<le> p then sret (replicate 8 (bool_constant False)) else smap (assemble_bit G pls p) [0..<8]) (?R p)"
      if "p \<in> set [0..<n]"
    proof (cases "p < lo")
      case True
      then show ?thesis using w by (simp add: sound_sret list_all_length)
    next
      case False
      then show ?thesis using bytes [of p] that by simp
    qed
  qed
  then show ?thesis
    unfolding assemble_from_placements_def
  proof (rule sound_sbind, intro sound_sret conjI)
    fix css assume css: "list_all2 ?R [0..<n] css"
    then have len: "length css = n" "\<forall>i < n. ?R i (css ! i)" by (auto simp: list_all2_conv_all_nth)
    then have "\<forall>c \<in> set css. length c = 8" by (auto simp: in_set_conv_nth)
    note c8 = nth_concat8 [OF this] length_concat8 [OF this]
    show "length (concat css) = 8 * n" using c8(2) len(1) by simp
    have each: "concat css ! (p * 8 + k) = css ! p ! k" if "p < n" "k < 8" for p k using c8(1) that len(1) by simp
    show "\<forall>p k. lo \<le> p \<longrightarrow> p < n \<longrightarrow> k < 8 \<longrightarrow> (bval w (concat css ! (p * 8 + k)) \<longleftrightarrow> (\<exists>x \<in> set xs. contributes p k x))"
      using each len(2) by simp
    have "list_all (is_bit w) (concat css)" using len by (auto simp: list_all_iff in_set_conv_nth) (metis nth_mem)
    then show "list_all (is_bit w) (drop (8 * lo) (concat css))" unfolding list_all_iff by (blast dest: in_set_dropD)
  qed
qed

end

section \<open>The parts, one after the other\<close>

fun tiles :: "nat \<Rightarrow> bool list list \<Rightarrow> (nat \<times> bool list) list" where
  "tiles s [] = []"
| "tiles s (bs # bss) = (s, bs) # tiles (s + length bs div 8) bss"

lemma contributes_append:
  assumes "length as mod 8 = 0" "length bs mod 8 = 0" "k < 8"
  shows "contributes p k (s, as @ bs) \<longleftrightarrow> contributes p k (s, as) \<or> contributes p k (s + length as div 8, bs)"
proof -
  obtain a where a: "length as = 8 * a" using assms(1) by (metis dvd_def mod_0_imp_dvd)
  have split: "(as @ bs) ! (d * 8 + k) = (if d < a then as ! (d * 8 + k) else bs ! ((d - a) * 8 + k))" for d
  proof (cases "d < a")
    case True
    then have "d * 8 + k < 8 * a" using assms(3) by linarith
    then show ?thesis using True a by (simp add: nth_append)
  next
    case False
    then obtain e where "d = a + e" by (auto simp: not_less dest: le_Suc_ex)
    then show ?thesis using a by (simp add: nth_append algebra_simps)
  qed
  have len: "length (as @ bs) div 8 = a + length bs div 8" "length as div 8 = a" using a by simp_all
  show ?thesis
    unfolding contributes_def prod.case len split by (auto simp: not_less le_diff_conv2 diff_diff_left)
qed

lemma contributes_tiles:
  assumes "\<forall>b \<in> set bss. length b mod 8 = 0" "k < 8"
  shows "(\<exists>x \<in> set (tiles s bss). contributes p k x) \<longleftrightarrow> contributes p k (s, concat bss)"
  using assms(1)
proof (induction bss arbitrary: s)
  case (Cons b bss)
  have "length (concat bss) mod 8 = 0" using Cons.prems by (induction bss) (auto simp: mod_add_eq [symmetric])
  then show ?case using Cons contributes_append [of b "concat bss" k p s] assms(2) by simp
qed (simp add: contributes_def)


definition entry_bits :: "nat list \<Rightarrow> bool list list \<Rightarrow> bool list list \<Rightarrow> bool list" where
  "entry_bits us cs ts = concat (map (\<lambda>i. take (8 * us ! i) (cs ! i) @ ts ! i) [0..<NUM_ENTRIES])"

lemma selects_shift: "selects w o1 vs v \<Longrightarrow> selects w o1 (map (\<lambda>x. x + c) vs) (v + c)"
  by (auto simp: selects_def one_hot_def)

lemma selects_single: "selects w o1 vs v \<Longrightarrow> length vs = 1 \<Longrightarrow> vs ! 0 = v"
  by (auto simp: selects_def one_hot_def)

text \<open>Where the entry \<open>i\<close> starts when the widths are \<open>us\<close>.\<close>

definition entry_start :: "nat \<Rightarrow> nat list \<Rightarrow> nat \<Rightarrow> nat" where
  "entry_start base us i = base + (\<Sum>j < i. us ! j + ENTRY_TAIL_LEN)"

definition cursors_ok :: "(var \<Rightarrow> 'f::field) \<Rightarrow> nat \<Rightarrow> nat list \<Rightarrow> nat \<Rightarrow> 'f cursors \<times> 'f cursors \<Rightarrow> bool" where
  "cursors_ok w base us n = (\<lambda>(starts, ends). length starts = Suc n \<and> length ends = n \<and>
     (\<forall>i \<le> n. selects w (fst (starts ! i)) (snd (starts ! i)) (entry_start base us i)) \<and>
     (\<forall>i < n. selects w (fst (ends ! i)) (snd (ends ! i)) (us ! i + entry_start base us i)))"

context boolean_gates begin

lemma cursor_step_sound:
  assumes w: "assignment w" and wid: "selects w (onehots ! n) DIGEST_ID_WIDTHS (us ! n)" and ok: "cursors_ok w base us n st"
  shows "sound w (cursor_step G onehots n st) (cursors_ok w base us (Suc n))"
proof -
  obtain starts ends where st: "st = (starts, ends)" by (cases st)
  obtain so sv where sn: "starts ! n = (so, sv)" by (cases "starts ! n")
  let ?S = "entry_start base us n"
  have sel: "selects w so sv ?S" using ok sn st by (force simp: cursors_ok_def)
  have ends: "sound w (if length sv = 1 then sret (onehots ! n, map (\<lambda>w. w + sv ! 0) DIGEST_ID_WIDTHS)
      else ns (''entry '' @ show_nat n @ '' end cursor'') (convolve_sum G so sv (onehots ! n) DIGEST_ID_WIDTHS))
      (\<lambda>(eo, ev). selects w eo ev (us ! n + ?S))"
  proof (cases "length sv = 1")
    case True
    then show ?thesis using selects_shift [OF wid, of ?S] selects_single [OF sel] by (simp add: sound_sret)
  next
    case False
    then show ?thesis
      using sound_ns [OF sound_mono [OF convolve_sum_sound [OF w sel wid]], of "\<lambda>(eo, ev). selects w eo ev (us ! n + ?S)"]
      by (auto simp: add.commute)
  qed
  have S: "entry_start base us (Suc n) = us ! n + ?S + ENTRY_TAIL_LEN" by (simp add: entry_start_def)
  have fin: "cursors_ok w base us (Suc n) (starts @ [(eo, map (\<lambda>v. v + ENTRY_TAIL_LEN) ev)], ends @ [(eo, ev)])"
    if e: "selects w eo ev (us ! n + ?S)" for eo ev
    using ok selects_shift [OF e, of ENTRY_TAIL_LEN] e unfolding st cursors_ok_def S [symmetric]
    by (auto simp: nth_append le_Suc_eq less_Suc_eq)
  show ?thesis
    unfolding cursor_step_def st prod.case Let_def sn
    by (rule sound_sbind [OF ends]) (auto intro!: sound_sret fin)
qed

lemma cursors_sound:
  assumes w: "assignment w" and wid: "\<And>i. i < NUM_ENTRIES \<Longrightarrow> selects w (onehots ! i) DIGEST_ID_WIDTHS (us ! i)"
  shows "sound w (sfold (cursor_step G onehots) [0..<NUM_ENTRIES] ([([bool_constant True], [base])], [])) (cursors_ok w base us NUM_ENTRIES)"
proof -
  have "sound w (sfold (cursor_step G onehots) [0..<NUM_ENTRIES] ([([bool_constant True], [base])], [])) (cursors_ok w base us (length [0..<NUM_ENTRIES]))"
  proof (rule sound_sfold)
    show "cursors_ok w base us 0 ([([bool_constant True], [base])], [])"
      using w by (simp add: cursors_ok_def entry_start_def selects_def one_hot_def)
    fix i and st :: "'f cursors \<times> 'f cursors"
    assume "i < length [0..<NUM_ENTRIES]" "cursors_ok w base us i st"
    then show "sound w (cursor_step G onehots ([0..<NUM_ENTRIES] ! i) st) (cursors_ok w base us (Suc i))"
      using cursor_step_sound [OF w wid, of i base st] by simp
  qed
  then show ?thesis by simp
qed

end

lemma sound_splice_bytes:
  assumes "bellpepper_sound L" "assignment w"
  shows "sound w (splice_byte_bits L bs) (\<lambda>b. length b = 8 * length bs \<and> list_all (is_bit w) b)"
  using sound_alloc_byte_bits [OF assms, of "''byte-bit ''" bs] by (simp add: alloc_byte_bits_def splice_byte_bits_def)

lemma sound_alloc_entry:
  assumes "scalar_repr (repr :: 'f::field \<Rightarrow> nat)" "bellpepper_sound L" "assignment (w :: var \<Rightarrow> 'f)"
  shows "sound w (alloc_entry L (i, e)) (\<lambda>(bits, onehot, n). length bits = 8 * MAX_CBOR_UINT_BYTES \<and> list_all (is_bit w) bits \<and>
    (\<exists>u \<in> set DIGEST_ID_WIDTHS. selects w onehot DIGEST_ID_WIDTHS u))"
proof (cases "encode_cbor_uint (entry_digest_id e)")
  case (Some encoded)
  have bytes: "sound w (splice_byte_bits L (take MAX_CBOR_UINT_BYTES encoded @ replicate (MAX_CBOR_UINT_BYTES - length encoded) 0))
      (\<lambda>b. length b = 8 * MAX_CBOR_UINT_BYTES \<and> list_all (is_bit w) b)"
    by (rule sound_mono [OF sound_splice_bytes [OF assms(2,3)]]) auto
  have "length DIGEST_ID_WIDTHS < modulus" by (simp add: DIGEST_ID_WIDTHS_def modulus_def)
  note wid = sound_alloc_one_hot [OF assms this]
  show ?thesis
    unfolding alloc_entry_def prod.case Some option.case
    by (rule sound_sbind [OF sound_ns [OF bytes]], rule sound_sbind [OF sound_ns [OF wid]]) (auto intro!: sound_sret)
qed (simp add: alloc_entry_def sound_sfail)


text \<open>The bits are the prefix, the entries with their tails, the suffix, and zeros.\<close>

definition assembled_ok ::
  "(var \<Rightarrow> 'f::field) \<Rightarrow> 'f Boolean list \<Rightarrow> 'f Boolean list list \<Rightarrow> 'f Boolean list \<Rightarrow> nat list \<Rightarrow> bool list list \<Rightarrow> 'f Boolean list \<Rightarrow> bool" where
  "assembled_ok w pre tails suf us cs out \<longleftrightarrow>
     length us = NUM_ENTRIES \<and> set us \<subseteq> set DIGEST_ID_WIDTHS \<and> length cs = NUM_ENTRIES \<and> (\<forall>c \<in> set cs. length c = 8 * MAX_CBOR_UINT_BYTES) \<and>
     list_all (is_bit w) out \<and>
     bvals w out = bvals w pre @ entry_bits us cs (map (bvals w) tails) @ bvals w suf @ replicate (8 * (20 - sum_list us)) False"

lemma four_cases: "length xs = NUM_ENTRIES \<Longrightarrow> \<exists>a b c d. xs = [a, b, c, d]"
  by (auto simp: NUM_ENTRIES_def numeral_eq_Suc length_Suc_conv)

lemma entries_upt: "[0..<NUM_ENTRIES] = [0, 1, 2, 3]"
  by (simp add: NUM_ENTRIES_def upt_rec)

lemma tiles_entries:
  assumes "length us = NUM_ENTRIES" "length cs = NUM_ENTRIES" "length ts = NUM_ENTRIES"
    and "\<And>i. i < NUM_ENTRIES \<Longrightarrow> 8 * us ! i \<le> length (cs ! i)" "\<And>i. i < NUM_ENTRIES \<Longrightarrow> length (ts ! i) = ENTRY_TAIL_LEN * 8"
  shows "set (map (\<lambda>i. (entry_start base us i, take (8 * us ! i) (cs ! i))) [0..<NUM_ENTRIES] @
      map (\<lambda>i. (us ! i + entry_start base us i, ts ! i)) [0..<NUM_ENTRIES] @ [(entry_start base us NUM_ENTRIES, suf)]) =
    set (tiles base (concat (map (\<lambda>i. [take (8 * us ! i) (cs ! i), ts ! i]) [0..<NUM_ENTRIES]) @ [suf]))"
proof -
  obtain a b c d where us: "us = [a, b, c, d]" using four_cases [OF assms(1)] by blast
  obtain e f g h where cs: "cs = [e, f, g, h]" using four_cases [OF assms(2)] by blast
  obtain k l m n where ts: "ts = [k, l, m, n]" using four_cases [OF assms(3)] by blast
  have le: "8 * a \<le> length e" "8 * b \<le> length f" "8 * c \<le> length g" "8 * d \<le> length h"
    using assms(4) [of 0] assms(4) [of 1] assms(4) [of 2] assms(4) [of 3] by (simp_all add: us cs NUM_ENTRIES_def)
  have tl: "length k = 272" "length l = 272" "length m = 272" "length n = 272"
    using assms(5) [of 0] assms(5) [of 1] assms(5) [of 2] assms(5) [of 3] by (simp_all add: ts NUM_ENTRIES_def ENTRY_TAIL_LEN_def)
  have st: "entry_start base us 0 = base" "entry_start base us 1 = base + a + 34" "entry_start base us 2 = base + a + b + 68"
    "entry_start base us 3 = base + a + b + c + 102" "entry_start base us NUM_ENTRIES = base + a + b + c + d + 136"
    by (simp_all add: entry_start_def us ENTRY_TAIL_LEN_def NUM_ENTRIES_def lessThan_nat_numeral lessThan_Suc)
  show ?thesis
    unfolding entries_upt list.map concat.simps append.simps st
    by (simp add: us cs ts le tl min_absorb2 insert_commute add_ac)
qed


lemma assembled_bits:
  assumes pre: "length pre = 8 * base" "list_all (is_bit w) pre" and suf: "length suf mod 8 = 0"
    and lens: "length us = NUM_ENTRIES" "set us \<subseteq> set DIGEST_ID_WIDTHS" "length cs = NUM_ENTRIES" "\<forall>c \<in> set cs. length c = 8 * MAX_CBOR_UINT_BYTES"
      "length tails = NUM_ENTRIES" "\<forall>t \<in> set tails. length t = ENTRY_TAIL_LEN * 8"
    and out: "length out = 8 * (base + MAX_DIGEST_SECTION_BYTES + length suf div 8)" "list_all (is_bit w) (drop (8 * base) out)"
      "\<forall>p k. base \<le> p \<longrightarrow> p < base + MAX_DIGEST_SECTION_BYTES + length suf div 8 \<longrightarrow> k < 8 \<longrightarrow>
         (bval w (out ! (p * 8 + k)) \<longleftrightarrow> contributes p k (base, entry_bits us cs (map (bvals w) tails) @ bvals w suf))"
  shows "assembled_ok w pre tails suf us cs (pre @ drop (length pre) out)"
proof -
  let ?X = "entry_bits us cs (map (bvals w) tails) @ bvals w suf" and ?z = "8 * (20 - sum_list us)"
  obtain a b c d where us: "us = [a, b, c, d]" using four_cases [OF lens(1)] by blast
  have "\<forall>u \<in> set DIGEST_ID_WIDTHS. u \<le> 5" by (simp add: DIGEST_ID_WIDTHS_def)
  then have "\<forall>u \<in> set us. u \<le> 5" using lens(2) by blast
  then have small: "a \<le> 5" "b \<le> 5" "c \<le> 5" "d \<le> 5" by (simp_all add: us)
  have "length (entry_bits us cs (map (bvals w) tails)) = 8 * (sum_list us + 136)"
  proof -
    obtain e f g h where cs: "cs = [e, f, g, h]" using four_cases [OF lens(3)] by blast
    obtain k l m n where ts: "tails = [k, l, m, n]" using four_cases [OF lens(5)] by blast
    show ?thesis
      using lens(4,6) small by (simp add: entry_bits_def entries_upt us cs ts ENTRY_TAIL_LEN_def MAX_CBOR_UINT_BYTES_def min_absorb2)
  qed
  moreover have sum: "sum_list us \<le> 20" using small by (simp add: us)
  ultimately have X: "length ?X = 8 * (sum_list us + 136 + length suf div 8)" using suf by (auto simp: algebra_simps)
  have sect: "MAX_DIGEST_SECTION_BYTES = 156"
    by (simp add: MAX_DIGEST_SECTION_BYTES_def NUM_ENTRIES_def MAX_CBOR_UINT_BYTES_def ENTRY_TAIL_LEN_def)
  have "bvals w (drop (8 * base) out) = ?X @ replicate ?z False"
  proof (rule nth_equalityI)
    show len: "length (bvals w (drop (8 * base) out)) = length (?X @ replicate ?z False)" using out(1) X sum by (simp add: sect)
    fix i assume "i < length (bvals w (drop (8 * base) out))"
    then have i: "i < 8 * (156 + length suf div 8)" using out(1) by (simp add: sect)
    let ?q = "i div 8" and ?k = "i mod 8"
    have idx: "8 * base + i = (base + ?q) * 8 + ?k" by (simp add: algebra_simps)
    have "bvals w (drop (8 * base) out) ! i = bval w (out ! ((base + ?q) * 8 + ?k))"
      using i out(1) by (simp add: sect add.commute mult.commute)
    also have "\<dots> \<longleftrightarrow> contributes (base + ?q) ?k (base, ?X)"
      using out(3) [rule_format, of "base + ?q" ?k] i by (simp add: sect less_mult_imp_div_less mult.commute)
    also have "\<dots> \<longleftrightarrow> ?q < length ?X div 8 \<and> ?X ! i" by (simp add: contributes_def)
    also have "?q < length ?X div 8 \<longleftrightarrow> i < length ?X" unfolding X by (simp add: div_less_iff_less_mult mult.commute)
    also have "(i < length ?X \<and> ?X ! i) = (?X @ replicate ?z False) ! i" using len i out(1) by (auto simp: nth_append sect)
    finally show "bvals w (drop (8 * base) out) ! i = (?X @ replicate ?z False) ! i" .
  qed
  then show ?thesis using pre out(2) lens by (simp add: assembled_ok_def)
qed


text \<open>The allocated entries: five bytes each, and a selector of the width \<open>us ! i\<close>.\<close>

definition entries_ok :: "(var \<Rightarrow> 'f::field) \<Rightarrow> ('f Boolean list \<times> 'f Boolean list \<times> nat) list \<Rightarrow> nat list \<Rightarrow> bool" where
  "entries_ok w al us \<longleftrightarrow> length us = NUM_ENTRIES \<and> length al = NUM_ENTRIES \<and> set us \<subseteq> set DIGEST_ID_WIDTHS \<and>
     (\<forall>i < NUM_ENTRIES. length (fst (al ! i)) = 8 * MAX_CBOR_UINT_BYTES \<and> list_all (is_bit w) (fst (al ! i)) \<and>
       selects w (fst (snd (al ! i))) DIGEST_ID_WIDTHS (us ! i))"

lemma sound_alloc_entries:
  assumes "scalar_repr (repr :: 'f::field \<Rightarrow> nat)" "bellpepper_sound L" "assignment (w :: var \<Rightarrow> 'f)" "length es = NUM_ENTRIES"
  shows "sound w (smap (alloc_entry L) (enumerate 0 es)) (\<lambda>al. \<exists>us. entries_ok w al us)"
proof -
  let ?A = "\<lambda>(bits, onehot, n :: nat). length bits = 8 * MAX_CBOR_UINT_BYTES \<and> list_all (is_bit w) bits \<and>
    (\<exists>u \<in> set DIGEST_ID_WIDTHS. selects w onehot DIGEST_ID_WIDTHS u)"
  have "sound w (smap (alloc_entry L) (enumerate 0 es)) (list_all2 (\<lambda>_. ?A) (enumerate 0 es))"
    by (rule sound_smap) (use sound_alloc_entry [OF assms(1-3)] in auto)
  then show ?thesis
  proof (rule sound_mono)
    fix al assume "list_all2 (\<lambda>_. ?A) (enumerate 0 es) al"
    then have al: "length al = NUM_ENTRIES" "\<forall>i < NUM_ENTRIES. ?A (al ! i)" using assms(4) by (auto simp: list_all2_conv_all_nth)
    let ?P = "\<lambda>i u. i < NUM_ENTRIES \<longrightarrow> u \<in> set DIGEST_ID_WIDTHS \<and> selects w (fst (snd (al ! i))) DIGEST_ID_WIDTHS u"
    have "\<forall>i. \<exists>u. ?P i u" using al(2) by (auto simp: case_prod_beta)
    then obtain f where "\<forall>i. ?P i (f i)" by (rule choice [THEN exE])
    then have "entries_ok w al (map f [0..<NUM_ENTRIES])" using al by (auto simp: entries_ok_def case_prod_beta)
    then show "\<exists>us. entries_ok w al us" ..
  qed
qed

lemma entries_placed:
  assumes "entries_ok w (al :: ('f Boolean list \<times> 'f Boolean list \<times> nat) list) us" "cursors_ok w base us NUM_ENTRIES (starts, ends)" "length es = NUM_ENTRIES"
    and "list_all (is_bit (w :: var \<Rightarrow> 'f::field)) suf" "\<forall>e \<in> set es. list_all (is_bit w) (tail_bits e)"
  shows "list_all2 (placed w) (entry_placements starts ends al es suf)
    (map (\<lambda>i. (entry_start base us i, take (8 * us ! i) (map (\<lambda>a. bvals w (fst a)) al ! i))) [0..<NUM_ENTRIES] @
     map (\<lambda>i. (us ! i + entry_start base us i, map (bvals w) (map tail_bits es) ! i)) [0..<NUM_ENTRIES] @
     [(entry_start base us NUM_ENTRIES, bvals w suf)])"
  unfolding entry_placements_def
  by (intro list_all2_appendI) (use assms in \<open>auto simp: list_all2_conv_all_nth placed_def cursors_ok_def entries_ok_def\<close>)

context boolean_gates begin

lemma splice_entries_sound:
  assumes w: "assignment w" and es: "length es = NUM_ENTRIES" and lens: "length pre mod 8 = 0" "length suf mod 8 = 0"
    "\<forall>e \<in> set es. length (tail_bits e) = ENTRY_TAIL_LEN * 8"
    and bits: "list_all (is_bit w) pre" "list_all (is_bit w) suf" "\<forall>e \<in> set es. list_all (is_bit w) (tail_bits e)" and al: "entries_ok w al us"
  shows "sound w (splice_entries G pre es suf al) (\<lambda>(out, n). \<exists>us cs. assembled_ok w pre (map tail_bits es) suf us cs out)"
proof -
  let ?base = "length pre div 8" and ?cs = "map (\<lambda>a. bvals w (fst a)) al" and ?ts = "map (bvals w) (map tail_bits es)"
  let ?n = "?base + MAX_DIGEST_SECTION_BYTES + length suf div 8"
  let ?tiles = "concat (map (\<lambda>i. [take (8 * us ! i) (?cs ! i), ?ts ! i]) [0..<NUM_ENTRIES]) @ [bvals w suf]"
  have al': "length us = NUM_ENTRIES" "length al = NUM_ENTRIES" "set us \<subseteq> set DIGEST_ID_WIDTHS"
    "\<And>i. i < NUM_ENTRIES \<Longrightarrow> length (fst (al ! i)) = 8 * MAX_CBOR_UINT_BYTES" using al by (auto simp: entries_ok_def)
  have "\<forall>u \<in> set DIGEST_ID_WIDTHS. u \<le> MAX_CBOR_UINT_BYTES" by (simp add: DIGEST_ID_WIDTHS_def MAX_CBOR_UINT_BYTES_def)
  then have small: "us ! i \<le> MAX_CBOR_UINT_BYTES" if "i < NUM_ENTRIES" for i by (metis al'(1,3) that nth_mem subsetD)
  have "length (take (8 * us ! i) (?cs ! i)) = 8 * us ! i" "length (?ts ! i) = ENTRY_TAIL_LEN * 8" if "i < NUM_ENTRIES" for i
    using that al' small [OF that] lens(3) es by simp_all
  then have mod8: "\<forall>b \<in> set ?tiles. length b mod 8 = 0" using lens(2) by auto
  have cat: "concat ?tiles = entry_bits us ?cs ?ts @ bvals w suf"
    by (simp add: entry_bits_def entries_upt)
  have widths: "sound w (sfold (cursor_step G (map (\<lambda>a. fst (snd a)) al)) [0..<NUM_ENTRIES] ([([bool_constant True], [?base])], []))
      (cursors_ok w ?base us NUM_ENTRIES)"
    by (rule cursors_sound [OF w]) (use al in \<open>simp add: entries_ok_def\<close>)
  have fin: "assembled_ok w pre (map tail_bits es) suf us ?cs (pre @ drop (length pre) out)"
    if "length out = 8 * ?n \<and> list_all (is_bit w) (drop (8 * ?base) out) \<and> (\<forall>p k. ?base \<le> p \<longrightarrow> p < ?n \<longrightarrow> k < 8 \<longrightarrow>
      (bval w (out ! (p * 8 + k)) \<longleftrightarrow> (\<exists>x \<in> set (tiles ?base ?tiles). contributes p k x)))" for out
  proof (rule assembled_bits [where base = ?base])
    have "\<forall>i < length ?cs. length (?cs ! i) = 8 * MAX_CBOR_UINT_BYTES" using al'(2,4) by simp
    then show "\<forall>c \<in> set ?cs. length c = 8 * MAX_CBOR_UINT_BYTES" unfolding all_set_conv_all_nth .
    show "\<forall>p k. ?base \<le> p \<longrightarrow> p < ?n \<longrightarrow> k < 8 \<longrightarrow> (bval w (out ! (p * 8 + k)) \<longleftrightarrow> contributes p k (?base, entry_bits us ?cs ?ts @ bvals w suf))"
      using that contributes_tiles [OF mod8] unfolding cat by simp
  qed (use that bits lens es al' in auto)
  have tileset: "set (map (\<lambda>i. (entry_start ?base us i, take (8 * us ! i) (?cs ! i))) [0..<NUM_ENTRIES] @
      map (\<lambda>i. (us ! i + entry_start ?base us i, ?ts ! i)) [0..<NUM_ENTRIES] @ [(entry_start ?base us NUM_ENTRIES, bvals w suf)]) = set (tiles ?base ?tiles)"
    by (rule tiles_entries) (use al' small lens(3) es in auto)
  have asm: "sound w (assemble_from_placements G ?n (?base, ?n) (entry_placements starts ends al es suf)) (\<lambda>out.
      assembled_ok w pre (map tail_bits es) suf us ?cs (pre @ drop (length pre) out))"
    if "cursors_ok w ?base us NUM_ENTRIES (starts, ends)" for starts ends
    by (rule sound_mono [OF assemble_sound [OF w entries_placed [OF al that es bits(2,3)], unfolded tileset]], rule fin)
  show ?thesis
    unfolding splice_entries_def Let_def
    by (rule sound_sbind [OF widths], unfold split_beta, rule sound_sbind [OF sound_ns [OF asm]]) (auto intro!: sound_sret exI)
qed

lemma assemble_mso_sound:
  assumes "scalar_repr (repr :: 'f \<Rightarrow> nat)" "bellpepper_sound L" "assignment w" and es: "length es = NUM_ENTRIES"
    and "list_all (is_bit w) pre" "list_all (is_bit w) suf" "\<forall>e \<in> set es. list_all (is_bit w) (tail_bits e)"
  shows "sound w (assemble_mso_sig_structure L G pre es suf) (\<lambda>(out, n). \<exists>us cs. assembled_ok w pre (map tail_bits es) suf us cs out)"
  unfolding assemble_mso_sig_structure_def
  by (rule sound_sbind [OF sound_sassert [where Q = "\<lambda>_. length pre mod 8 = 0"]], assumption,
    rule sound_sbind [OF sound_sassert [where Q = "\<lambda>_. length suf mod 8 = 0"]], assumption,
    rule sound_sbind [OF sound_sfor [where R = "\<lambda>e. length (tail_bits e) = ENTRY_TAIL_LEN * 8"]],
    rule sound_sbind [OF sound_sassert [where Q = "\<lambda>_. length (tail_bits _) = ENTRY_TAIL_LEN * 8"]], assumption, rule sound_sassert, assumption,
    rule sound_sbind [OF sound_alloc_entries [OF assms(1-3) es]])
   (use assms in \<open>auto intro: splice_entries_sound\<close>)

end

end
