(* ===== verification/MsoRules.thy ===== *)
theory MsoRules
  imports Splice
begin

text \<open>
  The allocation of the issuer's \<open>Sig_structure\<close> in the rules (\<open>alloc_sig_structure_bits\<close> in \<open>mso.rs\<close>). Fixed
  segments are constants, the rest are private bits. The main lemma says that the private device key and timestamps are
  those of the structure an issuer signed, whenever what is hashed is such a structure.
\<close>

section \<open>The allocation\<close>

definition SIG_STRUCTURE_NUM_BLOCKS :: nat where
  "SIG_STRUCTURE_NUM_BLOCKS = terminal_block_for_len MAX_SIG_STRUCTURE_BYTES"

record 'f AllocatedMsoBodyBits =
  device_x_bits :: "'f Boolean list"
  device_y_bits :: "'f Boolean list"
  signed_ts_bits :: "'f Boolean list"
  valid_from_ts_bits :: "'f Boolean list"
  valid_until_ts_bits :: "'f Boolean list"

definition byte_to_bits_be :: "byte \<Rightarrow> bool list" where
  "byte_to_bits_be b = map (bit b) (rev [0..<8])"

definition push_fixed :: "bytes \<Rightarrow> 'f::field Boolean list" where
  "push_fixed bs = concat (map (\<lambda>b. map bool_constant (byte_to_bits_be b)) bs)"

definition alloc_witness_bytes :: "'f::field bellpepper \<Rightarrow> bytes \<Rightarrow> string \<Rightarrow> ('f Boolean list, 'f) synth" where
  "alloc_witness_bytes L bs label =
     sbind (smap (\<lambda>(byte_idx, b). smap (\<lambda>(bit_idx, x). ns (label @ '' byte '' @ show_nat byte_idx @ '' bit '' @ show_nat bit_idx)
         (alloc_bit L (Some x))) (enumerate 0 (byte_to_bits_be b))) (enumerate 0 bs)) (\<lambda>out. sret (concat out))"

definition alloc_witness_u16 :: "'f::field bellpepper \<Rightarrow> 16 word \<Rightarrow> string \<Rightarrow> ('f Boolean list, 'f) synth" where
  "alloc_witness_u16 L n label = alloc_witness_bytes L (be_bytes 2 (unat n)) label"

definition alloc_tail :: "'f::field bellpepper \<Rightarrow> u32 list \<Rightarrow> bytes list \<Rightarrow> nat \<Rightarrow> ('f DigestIdEntry, 'f) synth" where
  "alloc_tail L digest_ids claim_digests i =
     sbind (alloc_witness_bytes L (make_tail (claim_digests ! i)) (''entry '' @ show_nat i @ '' tail'')) (\<lambda>bs.
     sret \<lparr>entry_digest_id = digest_ids ! i, tail_bits = bs\<rparr>)"

definition template_prefix :: "'f::field Boolean list \<Rightarrow> 'f Boolean list \<Rightarrow> 'f AllocatedMsoBodyBits \<Rightarrow> 'f Boolean list" where
  "template_prefix payload_len_bits mso_body_len_bits ab = concat [
     push_fixed SIG_STRUCTURE_PREFIX_NO_LEN, payload_len_bits, push_fixed PAYLOAD_HEADER_NO_LEN, mso_body_len_bits,
     push_fixed SEG_PREFIX_BASE, signed_ts_bits ab, push_fixed SEG_BETWEEN_SIGNED_VALIDFROM, valid_from_ts_bits ab,
     push_fixed SEG_BETWEEN_VALIDFROM_VALIDUNTIL, valid_until_ts_bits ab, push_fixed SEG_BEFORE_DIGESTS]"

definition template_suffix :: "'f::field AllocatedMsoBodyBits \<Rightarrow> 'f Boolean list" where
  "template_suffix ab = concat [push_fixed SEG_AFTER_DIGESTS, device_x_bits ab, push_fixed SEG_BETWEEN_XY, device_y_bits ab, push_fixed SEG_AFTER_DEVICE_KEY]"

definition alloc_body_bits :: "'f::field bellpepper \<Rightarrow> MsoBodyWitness \<Rightarrow> ('f AllocatedMsoBodyBits, 'f) synth" where
  "alloc_body_bits L body =
     sbind (alloc_witness_bytes L (signed_ts body) ''signed_ts'') (\<lambda>signed.
     sbind (alloc_witness_bytes L (valid_from_ts body) ''valid_from_ts'') (\<lambda>from_ts.
     sbind (alloc_witness_bytes L (valid_until_ts body) ''valid_until_ts'') (\<lambda>until_ts.
     sbind (alloc_witness_bytes L (device_x body) ''device_x'') (\<lambda>dx.
     sbind (alloc_witness_bytes L (device_y body) ''device_y'') (\<lambda>dy.
     sret \<lparr>device_x_bits = dx, device_y_bits = dy, signed_ts_bits = signed, valid_from_ts_bits = from_ts, valid_until_ts_bits = until_ts\<rparr>)))))"

definition sfail_none :: "'a option \<Rightarrow> ('a, 'f) synth" where
  "sfail_none v = (case v of None \<Rightarrow> sfail Panicked | Some x \<Rightarrow> sret x)"

definition alloc_sig_structure_bits ::
  "'f bellpepper \<Rightarrow> 'f gates \<Rightarrow> u32 list \<Rightarrow> bytes list \<Rightarrow> MsoBodyWitness \<Rightarrow>
    ('f::field Boolean list \<times> nat \<times> 'f AllocatedMsoBodyBits, 'f) synth" where
  "alloc_sig_structure_bits L G digest_ids claim_digests body =
     sbind (sassert (length claim_digests = NUM_ENTRIES)) (\<lambda>_.
     sbind (sfail_none (encoded_widths digest_ids)) (\<lambda>widths.
     sbind (sfail_none (compute_lengths (widths + NUM_ENTRIES * ENTRY_TAIL_LEN))) (\<lambda>(mso_body_len, payload_len).
     sbind (alloc_witness_u16 L payload_len ''payload_len'') (\<lambda>payload_len_bits.
     sbind (alloc_witness_u16 L mso_body_len ''mso_body_len'') (\<lambda>mso_body_len_bits.
     sbind (alloc_body_bits L body) (\<lambda>ab.
     sbind (smap (alloc_tail L digest_ids claim_digests) [0..<NUM_ENTRIES]) (\<lambda>es.
     sbind (ns ''mso sig_structure'' (assemble_mso_sig_structure L G (template_prefix payload_len_bits mso_body_len_bits ab) es (template_suffix ab)))
       (\<lambda>(assembled, real_len).
     sbind (sassert (length assembled = MAX_SIG_STRUCTURE_BYTES * 8)) (\<lambda>_.
     sret (assembled, real_len, ab))))))))))"

section \<open>What the rules force\<close>

definition bytes_of :: "(var \<Rightarrow> 'f::field) \<Rightarrow> 'f Boolean list \<Rightarrow> bytes" where
  "bytes_of w bs = bits_bytes (bvals w bs)"

definition whole_bytes :: "(var \<Rightarrow> 'f::field) \<Rightarrow> nat \<Rightarrow> 'f Boolean list \<Rightarrow> bool" where
  "whole_bytes w n bs \<longleftrightarrow> length bs = 8 * n \<and> list_all (is_bit w) bs"

lemma whole_bytes_append:
  assumes "whole_bytes w m as" "whole_bytes w n bs"
  shows "whole_bytes w (m + n) (as @ bs)" "bytes_of w (as @ bs) = bytes_of w as @ bytes_of w bs" "length (bytes_of w as) = m"
  using assms bits_bytes_append [of "bvals w as" m "bvals w bs"] length_bits_bytes [of "bvals w as" m]
  by (simp_all add: whole_bytes_def bytes_of_def)

lemma whole_bytes_fixed:
  assumes "assignment w"
  shows "whole_bytes w (length bs) (push_fixed bs)" "bytes_of w (push_fixed bs) = bs"
proof -
  have "whole_bytes w (length bs) (push_fixed bs) \<and> bvals w (push_fixed bs) = be_bits bs"
    using assms by (induction bs) (auto simp: push_fixed_def whole_bytes_def byte_to_bits_be_def be_bits_def comp_def list_all_iff simp del: upt_rec_numeral)
  then show "whole_bytes w (length bs) (push_fixed bs)" "bytes_of w (push_fixed bs) = bs"
    by (simp_all add: bytes_of_def bits_bytes_be_bits)
qed

lemma sound_witness_bytes:
  assumes "bellpepper_sound L" "assignment w"
  shows "sound w (alloc_witness_bytes L bs label) (whole_bytes w (length bs))"
proof -
  let ?R = "\<lambda>c. length c = 8 \<and> list_all (is_bit w) c"
  have "sound w (smap (\<lambda>(bit_idx, x). ns (label @ '' byte '' @ show_nat i @ '' bit '' @ show_nat bit_idx) (alloc_bit L (Some x)))
      (enumerate 0 (byte_to_bits_be b))) (list_all2 (\<lambda>_. is_bit w) (enumerate 0 (byte_to_bits_be b)))" for i b
    by (intro sound_smap) (auto intro!: sound_ns sound_alloc_bit assms)
  then have "sound w (smap (\<lambda>(bit_idx, x). ns (label @ '' byte '' @ show_nat i @ '' bit '' @ show_nat bit_idx) (alloc_bit L (Some x)))
      (enumerate 0 (byte_to_bits_be b))) ?R" for i b
    by (rule sound_mono) (auto simp: list_all2_conv_all_nth list_all_length byte_to_bits_be_def simp del: upt_rec_numeral)
  then have "sound w (smap (\<lambda>(byte_idx, b). smap (\<lambda>(bit_idx, x). ns (label @ '' byte '' @ show_nat byte_idx @ '' bit '' @ show_nat bit_idx)
      (alloc_bit L (Some x))) (enumerate 0 (byte_to_bits_be b))) (enumerate 0 bs)) (list_all2 (\<lambda>_. ?R) (enumerate 0 bs))"
    by (intro sound_smap) auto
  then show ?thesis
    unfolding alloc_witness_bytes_def
  proof (rule sound_sbind, intro sound_sret)
    fix css assume css: "list_all2 (\<lambda>_. ?R) (enumerate 0 bs) css"
    then have "length css = length bs" "\<forall>c \<in> set css. ?R c" by (auto simp: list_all2_conv_all_nth in_set_conv_nth)
    then show "whole_bytes w (length bs) (concat css)" using length_concat8 [of css] by (auto simp: whole_bytes_def list_all_iff)
  qed
qed

definition body_ok :: "(var \<Rightarrow> 'f::field) \<Rightarrow> 'f AllocatedMsoBodyBits \<Rightarrow> bool" where
  "body_ok w ab \<longleftrightarrow> whole_bytes w 32 (device_x_bits ab) \<and> whole_bytes w 32 (device_y_bits ab) \<and> whole_bytes w TIMESTAMP_LEN (signed_ts_bits ab) \<and>
     whole_bytes w TIMESTAMP_LEN (valid_from_ts_bits ab) \<and> whole_bytes w TIMESTAMP_LEN (valid_until_ts_bits ab)"

definition body_lengths :: "MsoBodyWitness \<Rightarrow> bool" where
  "body_lengths body \<longleftrightarrow> length (device_x body) = 32 \<and> length (device_y body) = 32 \<and> length (signed_ts body) = TIMESTAMP_LEN \<and>
     length (valid_from_ts body) = TIMESTAMP_LEN \<and> length (valid_until_ts body) = TIMESTAMP_LEN"

lemma sound_body_bits:
  assumes "bellpepper_sound L" "assignment w" "body_lengths body"
  shows "sound w (alloc_body_bits L body) (body_ok w)"
  unfolding alloc_body_bits_def
  by (rule sound_sbind [OF sound_witness_bytes [OF assms(1,2)]], rule sound_sbind [OF sound_witness_bytes [OF assms(1,2)]],
      rule sound_sbind [OF sound_witness_bytes [OF assms(1,2)]], rule sound_sbind [OF sound_witness_bytes [OF assms(1,2)]],
      rule sound_sbind [OF sound_witness_bytes [OF assms(1,2)]], rule sound_sret)
    (use assms(3) in \<open>auto simp: body_ok_def body_lengths_def\<close>)

text \<open>The body that the private bits stand for.\<close>

definition body_of :: "(var \<Rightarrow> 'f::field) \<Rightarrow> 'f AllocatedMsoBodyBits \<Rightarrow> MsoBodyWitness" where
  "body_of w ab = \<lparr>device_x = bytes_of w (device_x_bits ab), device_y = bytes_of w (device_y_bits ab), signed_ts = bytes_of w (signed_ts_bits ab),
     valid_from_ts = bytes_of w (valid_from_ts_bits ab), valid_until_ts = bytes_of w (valid_until_ts_bits ab)\<rparr>"

lemma concat_whole_bytes:
  assumes "list_all2 (whole_bytes w) nl bss"
  shows "whole_bytes w (sum_list nl) (concat bss) \<and> bytes_of w (concat bss) = concat (map (bytes_of w) bss)"
  using assms
proof (induction rule: list_all2_induct)
  case Nil
  then show ?case by (simp add: whole_bytes_def bytes_of_def bits_bytes_def)
next
  case (Cons n nl bs bss)
  then show ?case using whole_bytes_append [OF Cons.hyps(1), of "sum_list nl" "concat bss"] by simp
qed

lemma two_bytes: "length bs = 2 \<Longrightarrow> \<exists>q :: 16 word. be_bytes 2 (unat q) = bs"
proof -
  assume len: "length bs = 2"
  have "be_val bs < 2 ^ 16" using be_val_less [of bs] len by simp
  then have "unat (word_of_nat (be_val bs) :: 16 word) = be_val bs" by (simp add: unat_of_nat)
  then have "be_bytes 2 (unat (word_of_nat (be_val bs) :: 16 word)) = bs" using be_bytes_be_val [OF len] by simp
  then show ?thesis ..
qed

lemma template_bytes:
  assumes w: "assignment w" and ab: "body_ok w ab"
  shows "whole_bytes w 2 p \<Longrightarrow> whole_bytes w 2 m \<Longrightarrow> \<exists>b q. bytes_of w (template_prefix p m ab) = sig_prefix b q (body_of w ab)"
    "whole_bytes w 2 p \<Longrightarrow> whole_bytes w 2 m \<Longrightarrow> whole_bytes w 209 (template_prefix p m ab)"
    "bytes_of w (template_suffix ab) = sig_suffix (body_of w ab)" "whole_bytes w 124 (template_suffix ab)" "body_lengths (body_of w ab)"
proof -
  note ab' = ab [unfolded body_ok_def TIMESTAMP_LEN_def]
  note fixed = whole_bytes_fixed [OF w]
  have len: "length (bytes_of w bs) = n" if "whole_bytes w n bs" for n bs
    using that length_bits_bytes [of "bvals w bs" n] by (simp add: whole_bytes_def bytes_of_def)
  have "list_all2 (whole_bytes w) [33, 32, 3, 32, 24]
      [push_fixed SEG_AFTER_DIGESTS, device_x_bits ab, push_fixed SEG_BETWEEN_XY, device_y_bits ab, push_fixed SEG_AFTER_DEVICE_KEY]"
    using ab' fixed(1) [of SEG_AFTER_DIGESTS] fixed(1) [of SEG_BETWEEN_XY] fixed(1) [of SEG_AFTER_DEVICE_KEY] by simp
  from concat_whole_bytes [OF this] show "bytes_of w (template_suffix ab) = sig_suffix (body_of w ab)" "whole_bytes w 124 (template_suffix ab)"
    by (simp_all add: template_suffix_def sig_suffix_def body_of_def fixed(2))
  show "body_lengths (body_of w ab)" using ab by (simp add: body_lengths_def body_of_def body_ok_def len)
  assume p: "whole_bytes w 2 p" and m: "whole_bytes w 2 m"
  have "list_all2 (whole_bytes w) [18, 2, 3, 2, 66, 20, 12, 20, 13, 20, 33]
      [push_fixed SIG_STRUCTURE_PREFIX_NO_LEN, p, push_fixed PAYLOAD_HEADER_NO_LEN, m, push_fixed SEG_PREFIX_BASE, signed_ts_bits ab,
       push_fixed SEG_BETWEEN_SIGNED_VALIDFROM, valid_from_ts_bits ab, push_fixed SEG_BETWEEN_VALIDFROM_VALIDUNTIL, valid_until_ts_bits ab, push_fixed SEG_BEFORE_DIGESTS]"
    using ab' p m fixed(1) [of SIG_STRUCTURE_PREFIX_NO_LEN] fixed(1) [of PAYLOAD_HEADER_NO_LEN] fixed(1) [of SEG_PREFIX_BASE]
      fixed(1) [of SEG_BETWEEN_SIGNED_VALIDFROM] fixed(1) [of SEG_BETWEEN_VALIDFROM_VALIDUNTIL] fixed(1) [of SEG_BEFORE_DIGESTS] by simp
  from concat_whole_bytes [OF this] have c: "whole_bytes w 209 (template_prefix p m ab)"
    "bytes_of w (template_prefix p m ab) = concat [SIG_STRUCTURE_PREFIX_NO_LEN, bytes_of w p, PAYLOAD_HEADER_NO_LEN, bytes_of w m, SEG_PREFIX_BASE,
       signed_ts (body_of w ab), SEG_BETWEEN_SIGNED_VALIDFROM, valid_from_ts (body_of w ab), SEG_BETWEEN_VALIDFROM_VALIDUNTIL, valid_until_ts (body_of w ab),
       SEG_BEFORE_DIGESTS]"
    by (simp_all add: template_prefix_def body_of_def fixed(2))
  obtain q :: "16 word" where q: "be_bytes 2 (unat q) = bytes_of w p" using two_bytes [OF len [OF p]] by blast
  obtain b :: "16 word" where b: "be_bytes 2 (unat b) = bytes_of w m" using two_bytes [OF len [OF m]] by blast
  show "whole_bytes w 209 (template_prefix p m ab)" by (rule c(1))
  have "bytes_of w (template_prefix p m ab) = sig_prefix b q (body_of w ab)" unfolding c(2) sig_prefix_def q b ..
  then show "\<exists>b q. bytes_of w (template_prefix p m ab) = sig_prefix b q (body_of w ab)" by blast
qed

text \<open>A buffer that holds the template around four entries whose identifiers have the widths \<open>us\<close>.\<close>

definition template_of :: "MsoBodyWitness \<Rightarrow> nat list \<Rightarrow> bytes list \<Rightarrow> bytes list \<Rightarrow> bytes \<Rightarrow> bool" where
  "template_of body us ids tails buf \<longleftrightarrow> body_lengths body \<and>
     length us = NUM_ENTRIES \<and> set us \<subseteq> set DIGEST_ID_WIDTHS \<and> (\<forall>i < NUM_ENTRIES. length (ids ! i) = MAX_CBOR_UINT_BYTES \<and> length (tails ! i) = ENTRY_TAIL_LEN) \<and>
     (\<exists>b q. buf = sig_prefix b q body @ concat (map (\<lambda>i. take (us ! i) (ids ! i) @ tails ! i) [0..<NUM_ENTRIES]) @ sig_suffix body @
        replicate (20 - sum_list us) 0)"

lemma bits_bytes_concat:
  "\<forall>x \<in> set xs. length (f x) = 8 * g x \<Longrightarrow>
    bits_bytes (concat (map f xs)) = concat (map (\<lambda>x. bits_bytes (f x)) xs) \<and> length (concat (map f xs)) = 8 * sum_list (map g xs)"
proof (induction xs)
  case (Cons x xs)
  then show ?case using bits_bytes_append [of "f x" "g x" "concat (map f xs)"] by simp
qed (simp add: bits_bytes_def)

lemma widths_small: "set us \<subseteq> set DIGEST_ID_WIDTHS \<Longrightarrow> \<forall>u \<in> set us. u \<le> 5"
proof -
  have "\<forall>u \<in> set DIGEST_ID_WIDTHS. u \<le> 5" by (simp add: DIGEST_ID_WIDTHS_def)
  then show "set us \<subseteq> set DIGEST_ID_WIDTHS \<Longrightarrow> \<forall>u \<in> set us. u \<le> 5" by blast
qed

lemma entry_sum: "length us = NUM_ENTRIES \<Longrightarrow> sum_list (map (\<lambda>i. us ! i + 34) [0..<NUM_ENTRIES]) = sum_list us + (136 :: nat)"
  by (drule four_cases) (auto simp: entries_upt)

lemma entry_bytes:
  assumes "length us = NUM_ENTRIES" "set us \<subseteq> set DIGEST_ID_WIDTHS" "length cs = NUM_ENTRIES" "\<forall>c \<in> set cs. length c = 8 * MAX_CBOR_UINT_BYTES"
    and "length ts = NUM_ENTRIES" "\<forall>t \<in> set ts. length t = 8 * ENTRY_TAIL_LEN"
  shows "bits_bytes (entry_bits us cs ts) = concat (map (\<lambda>i. take (us ! i) (map bits_bytes cs ! i) @ map bits_bytes ts ! i) [0..<NUM_ENTRIES])"
    "length (entry_bits us cs ts) = 8 * (sum_list us + 136)"
proof -
  note small = widths_small [OF assms(2)]
  let ?f = "\<lambda>i. take (8 * us ! i) (cs ! i) @ ts ! i"
  have each: "bits_bytes (?f i) = take (us ! i) (bits_bytes (cs ! i)) @ bits_bytes (ts ! i)" "length (?f i) = 8 * (us ! i + 34)" if "i < NUM_ENTRIES" for i
  proof -
    have c: "length (cs ! i) = 8 * 5" "length (ts ! i) = 8 * 34" "us ! i \<le> 5"
      using assms that small by (simp_all add: MAX_CBOR_UINT_BYTES_def ENTRY_TAIL_LEN_def)
    then show "bits_bytes (?f i) = take (us ! i) (bits_bytes (cs ! i)) @ bits_bytes (ts ! i)" "length (?f i) = 8 * (us ! i + 34)"
      using bits_bytes_append [of "take (8 * us ! i) (cs ! i)" "us ! i" "ts ! i"] bits_bytes_take [OF c(1), of "us ! i"] by simp_all
  qed
  have cat: "bits_bytes (concat (map ?f [0..<NUM_ENTRIES])) = concat (map (\<lambda>i. bits_bytes (?f i)) [0..<NUM_ENTRIES])"
    "length (concat (map ?f [0..<NUM_ENTRIES])) = 8 * sum_list (map (\<lambda>i. us ! i + 34) [0..<NUM_ENTRIES])"
    using bits_bytes_concat [of "[0..<NUM_ENTRIES]" ?f "\<lambda>i. us ! i + 34"] each(2) by (simp_all add: atLeast0LessThan)
  show "length (entry_bits us cs ts) = 8 * (sum_list us + 136)" unfolding entry_bits_def cat(2) entry_sum [OF assms(1)] ..
  show "bits_bytes (entry_bits us cs ts) = concat (map (\<lambda>i. take (us ! i) (map bits_bytes cs ! i) @ map bits_bytes ts ! i) [0..<NUM_ENTRIES])"
    unfolding entry_bits_def cat(1)
    by (intro arg_cong [where f = concat] map_cong refl) (use each(1) assms(3,5) in simp)
qed

lemma assembled_bytes:
  assumes ok: "assembled_ok w pre tails suf us cs out" and pre: "whole_bytes w P pre" and suf: "whole_bytes w S suf"
    and tails: "length tails = NUM_ENTRIES" "\<forall>t \<in> set tails. whole_bytes w ENTRY_TAIL_LEN t"
  shows "bytes_of w out = bytes_of w pre @ concat (map (\<lambda>i. take (us ! i) (map bits_bytes cs ! i) @ map (bytes_of w) tails ! i) [0..<NUM_ENTRIES]) @
    bytes_of w suf @ replicate (20 - sum_list us) 0"
proof -
  note ok' = ok [unfolded assembled_ok_def]
  let ?ts = "map (bvals w) tails" and ?z = "20 - sum_list us"
  have ts: "length ?ts = NUM_ENTRIES" "\<forall>t \<in> set ?ts. length t = 8 * ENTRY_TAIL_LEN" using tails by (auto simp: whole_bytes_def)
  note e = entry_bytes [of us cs ?ts, OF _ _ _ _ ts]
  have zeros: "bits_bytes (replicate (8 * ?z) False) = replicate ?z 0"
    using bits_bytes_map [of "replicate (8 * ?z) False" ?z] byte_at_zero [of "replicate (8 * ?z) False"]
    by (auto intro!: nth_equalityI)
  have "bits_bytes (bvals w out) = bits_bytes (bvals w pre) @ bits_bytes (entry_bits us cs ?ts) @ bits_bytes (bvals w suf) @ bits_bytes (replicate (8 * ?z) False)"
    using ok' e(2) pre suf bits_bytes_append [of "bvals w pre" P] bits_bytes_append [of "bvals w suf" S]
      bits_bytes_append [of "entry_bits us cs ?ts" "sum_list us + 136"] by (simp add: whole_bytes_def)
  moreover have ts': "map bits_bytes ?ts = map (bytes_of w) tails" by (simp add: bytes_of_def)
  have "bits_bytes (entry_bits us cs ?ts) = concat (map (\<lambda>i. take (us ! i) (map bits_bytes cs ! i) @ map (bytes_of w) tails ! i) [0..<NUM_ENTRIES])"
    using e(1) ok' unfolding ts' by blast
  ultimately show ?thesis unfolding bytes_of_def [of w out] bytes_of_def [of w pre] bytes_of_def [of w suf] zeros by simp
qed


section \<open>The bytes that an issuer signed\<close>

lemma suffix_end:
  assumes "body_lengths body"
  shows "length (sig_suffix body) = 124" "j < 24 \<Longrightarrow> sig_suffix body ! (100 + j) = SEG_AFTER_DEVICE_KEY ! j"
proof -
  let ?X = "SEG_AFTER_DIGESTS @ device_x body @ SEG_BETWEEN_XY @ device_y body"
  have s: "sig_suffix body = ?X @ SEG_AFTER_DEVICE_KEY" "length ?X = 100" using assms by (simp_all add: sig_suffix_def body_lengths_def)
  show "length (sig_suffix body) = 124" using s by simp
  show "j < 24 \<Longrightarrow> sig_suffix body ! (100 + j) = SEG_AFTER_DEVICE_KEY ! j" unfolding s(1) using s(2) by (simp only: nth_append) simp
qed

lemma last_marker: "SEG_AFTER_DEVICE_KEY ! 23 = 0x36" "j < 23 \<Longrightarrow> SEG_AFTER_DEVICE_KEY ! j \<noteq> 0x36"
proof -
  have "list_all (\<lambda>j. SEG_AFTER_DEVICE_KEY ! j \<noteq> 0x36) [0..<23]" by code_simp
  then show "j < 23 \<Longrightarrow> SEG_AFTER_DEVICE_KEY ! j \<noteq> 0x36" by (simp add: list_all_iff del: upt_rec_numeral)
qed code_simp

lemma suffix_position:
  assumes body: "body_lengths body" "body_lengths body'" and E: "length E = n + 136" "length E' = n' + 136" "n \<le> 20" "n' \<le> 20"
    and eq: "take k (E @ sig_suffix body @ replicate (20 - n) 0) = E' @ sig_suffix body'"
  shows "sig_suffix body = sig_suffix body'"
proof -
  let ?b = "E @ sig_suffix body @ replicate (20 - n) 0"
  have "length (take k ?b) = length (E' @ sig_suffix body')" by (simp only: eq)
  then have k: "n' + 260 \<le> k" using E suffix_end(1) [OF body(2)] by simp
  have "take k ?b ! (n' + 259) = (E' @ sig_suffix body') ! (n' + 259)" by (simp only: eq)
  also have "\<dots> = sig_suffix body' ! (100 + 23)" using E by (simp add: nth_append)
  also have "\<dots> = 0x36" using suffix_end(2) [OF body(2), of 23] last_marker(1) by simp
  also have "take k ?b ! (n' + 259) = ?b ! (n' + 259)" by (rule nth_take) (use k in simp)
  finally have last: "?b ! (n' + 259) = 0x36" .
  have "n' = n"
  proof (rule ccontr)
    assume "n' \<noteq> n"
    then consider "n < n'" | "n' < n" by linarith
    then show False
    proof cases
      case 1
      then obtain d where "n' = n + d" "0 < d" by (metis less_imp_add_positive)
      then have "?b ! (n' + 259) = 0" using E suffix_end(1) [OF body(1)] by (simp add: nth_append)
      then show False using last by simp
    next
      case 2
      then obtain d where d: "n = n' + d" "0 < d" "d \<le> 20" using E by (metis le_add2 less_imp_add_positive le_trans)
      then have "?b ! (n' + 259) = sig_suffix body ! (100 + (23 - d))" using E suffix_end(1) [OF body(1)] by (auto simp: nth_append)
      also have "\<dots> = SEG_AFTER_DEVICE_KEY ! (23 - d)" by (rule suffix_end(2) [OF body(1)]) simp
      also have "\<dots> \<noteq> 0x36" by (rule last_marker) (use d in simp)
      finally show False using last by simp
    qed
  qed
  then have "take k ?b = E @ sig_suffix body @ take (k - (n + 260)) (replicate (20 - n) 0)"
    using k E suffix_end(1) [OF body(1)] by simp
  then have "E @ sig_suffix body @ take (k - (n + 260)) (replicate (20 - n) 0) = E' @ sig_suffix body'" using eq by simp
  then have "sig_suffix body @ take (k - (n + 260)) (replicate (20 - n) 0) = sig_suffix body'" using E \<open>n' = n\<close> by simp
  moreover from this have "take (k - (n + 260)) (replicate (20 - n) (0 :: byte)) = []"
    using suffix_end(1) [OF body(1)] suffix_end(1) [OF body(2)] by (metis append_eq_conv_conj append_self_conv drop_all le_refl)
  ultimately show ?thesis by simp
qed

lemma template_binds_body:
  assumes t: "template_of body us ids tails buf" and ok: "mso_inputs_ok ids' ds' body'"
    and native: "native_sig_structure_bytes ids' ds' body' = Some (take k buf)"
  shows "body = body'"
proof -
  obtain b q where buf: "buf = sig_prefix b q body @ concat (map (\<lambda>i. take (us ! i) (ids ! i) @ tails ! i) [0..<NUM_ENTRIES]) @ sig_suffix body @
      replicate (20 - sum_list us) 0" and us: "length us = NUM_ENTRIES" "set us \<subseteq> set DIGEST_ID_WIDTHS" and body: "body_lengths body"
    and ids: "\<forall>i < NUM_ENTRIES. length (ids ! i) = MAX_CBOR_UINT_BYTES \<and> length (tails ! i) = ENTRY_TAIL_LEN"
    using t by (auto simp: template_of_def)
  let ?E = "concat (map (\<lambda>i. take (us ! i) (ids ! i) @ tails ! i) [0..<NUM_ENTRIES])"
  obtain b' q' out where out: "native_sig_structure_bytes ids' ds' body' = Some (sig_prefix b' q' body' @ out @ sig_suffix body')"
    "native_entries (zip ids' (map make_tail ds')) = Some out" by (rule native_sig_structure_parts [OF ok])
  obtain n where n: "n \<le> 20" "length out = n + 136"
    using encoded_entries [of ids' ds'] ok out(2) by (auto simp: mso_inputs_ok_def NUM_ENTRIES_def)
  have body': "body_lengths body'" using ok by (simp add: mso_inputs_ok_def body_lengths_def)
  have pl: "length (sig_prefix b q body) = 209" "length (sig_prefix b' q' body') = 209"
    using body body' by (simp_all add: sig_prefix_def body_lengths_def TIMESTAMP_LEN_def)
  have eq: "take k buf = sig_prefix b' q' body' @ out @ sig_suffix body'" using native out(1) by simp
  have "209 \<le> k" using arg_cong [OF eq, of length] pl(2) by simp
  then have "take k buf = sig_prefix b q body @ take (k - 209) (?E @ sig_suffix body @ replicate (20 - sum_list us) 0)"
    unfolding buf using pl(1) by simp
  then have pre: "sig_prefix b q body = sig_prefix b' q' body'"
    and rest: "take (k - 209) (?E @ sig_suffix body @ replicate (20 - sum_list us) 0) = out @ sig_suffix body'"
    using eq pl by simp_all
  have small: "\<forall>u \<in> set us. u \<le> 5" by (rule widths_small [OF us(2)])
  have "length ?E = sum_list (map (\<lambda>i. us ! i + 34) [0..<NUM_ENTRIES])"
    using ids small us(1) by (auto simp: length_concat comp_def MAX_CBOR_UINT_BYTES_def ENTRY_TAIL_LEN_def intro!: arg_cong [where f = sum_list])
  then have E: "length ?E = sum_list us + 136" by (simp add: entry_sum [OF us(1)])
  have "sum_list us \<le> 20" using four_cases [OF us(1)] small by auto
  then have suf: "sig_suffix body = sig_suffix body'" by (rule suffix_position [OF body body' E n(2) _ n(1) rest])
  show ?thesis
    using pre suf body body' by (auto simp: sig_prefix_def sig_suffix_def body_lengths_def intro: MsoBodyWitness.equality)
qed


lemma assembled_template:
  assumes ok: "assembled_ok w pre (map tail_bits es) suf us cs out"
    and pre: "\<exists>b q. bytes_of w pre = sig_prefix b q body" "whole_bytes w 209 pre"
    and suf: "bytes_of w suf = sig_suffix body" "whole_bytes w 124 suf" and body: "body_lengths body"
    and es: "length es = NUM_ENTRIES" "\<forall>e \<in> set es. whole_bytes w ENTRY_TAIL_LEN (tail_bits e)"
  shows "template_of body us (map bits_bytes cs) (map (bytes_of w) (map tail_bits es)) (bytes_of w out)"
proof -
  obtain b q where b: "bytes_of w pre = sig_prefix b q body" using pre(1) by blast
  have cs: "length us = NUM_ENTRIES" "set us \<subseteq> set DIGEST_ID_WIDTHS" "length cs = NUM_ENTRIES" "\<forall>c \<in> set cs. length c = 8 * MAX_CBOR_UINT_BYTES"
    using ok by (simp_all add: assembled_ok_def)
  have bytes: "bytes_of w out = sig_prefix b q body @ concat (map (\<lambda>i. take (us ! i) (map bits_bytes cs ! i) @ map (bytes_of w) (map tail_bits es) ! i) [0..<NUM_ENTRIES]) @
      sig_suffix body @ replicate (20 - sum_list us) 0"
    using assembled_bytes [OF ok pre(2) suf(2)] es unfolding b suf(1) by simp
  have "length (map bits_bytes cs ! i) = MAX_CBOR_UINT_BYTES" "length (map (bytes_of w) (map tail_bits es) ! i) = ENTRY_TAIL_LEN" if "i < NUM_ENTRIES" for i
    using that cs(3,4) es length_bits_bytes [of "cs ! i" MAX_CBOR_UINT_BYTES] length_bits_bytes [of "bvals w (tail_bits (es ! i))" ENTRY_TAIL_LEN]
    by (simp_all add: bytes_of_def whole_bytes_def)
  then show ?thesis using bytes cs body unfolding template_of_def by blast
qed

context boolean_gates begin

lemma alloc_sig_structure_sound:
  assumes repr: "scalar_repr (repr :: 'f \<Rightarrow> nat)" and L: "bellpepper_sound L" and w: "assignment w"
    and lens: "body_lengths body" "\<forall>d \<in> set ds. length d = 32"
  shows "sound w (alloc_sig_structure_bits L G ids ds body) (\<lambda>(out, n, ab). whole_bytes w MAX_SIG_STRUCTURE_BYTES out \<and> body_ok w ab \<and>
    (\<exists>us encs tails. template_of (body_of w ab) us encs tails (bytes_of w out)))"
  unfolding alloc_sig_structure_bits_def
proof (rule sound_sbind [OF sound_sassert [where Q = "\<lambda>_. length ds = NUM_ENTRIES"]], assumption,
    rule sound_sbind [OF sound_True], rule sound_sbind [OF sound_True], unfold split_beta alloc_witness_u16_def,
    rule sound_sbind [OF sound_witness_bytes [OF L w]], rule sound_sbind [OF sound_witness_bytes [OF L w]],
    rule sound_sbind [OF sound_body_bits [OF L w lens(1)]])
  let ?T = "\<lambda>e. whole_bytes w ENTRY_TAIL_LEN (tail_bits e)"
  fix p m ab and l l' :: "16 word"
  assume ds: "length ds = NUM_ENTRIES" and pm: "whole_bytes w (length (be_bytes 2 (unat l))) p" "whole_bytes w (length (be_bytes 2 (unat l'))) m"
    and ab: "body_ok w ab"
  have pm2: "whole_bytes w 2 p" "whole_bytes w 2 m" using pm by simp_all
  note tb = template_bytes(1,2) [OF w ab pm2] template_bytes(3-5) [OF w ab]
  have tail: "sound w (alloc_tail L ids ds i) ?T" if "i < NUM_ENTRIES" for i
    unfolding alloc_tail_def by (rule sound_sbind [OF sound_witness_bytes [OF L w]])
      (use lens(2) ds that in \<open>auto intro!: sound_sret simp: make_tail_def ENTRY_TAIL_LEN_def\<close>)
  have tails: "sound w (smap (alloc_tail L ids ds) [0..<NUM_ENTRIES]) (\<lambda>es. length es = NUM_ENTRIES \<and> (\<forall>e \<in> set es. ?T e))"
    by (rule sound_mono [OF sound_smap [OF tail]]) (auto simp: list_all2_conv_all_nth in_set_conv_nth)
  show "sound w (sbind (smap (alloc_tail L ids ds) [0..<NUM_ENTRIES]) (\<lambda>es.
      sbind (ns ''mso sig_structure'' (assemble_mso_sig_structure L G (template_prefix p m ab) es (template_suffix ab))) (\<lambda>x.
      sbind (sassert (length (fst x) = MAX_SIG_STRUCTURE_BYTES * 8)) (\<lambda>_. sret (fst x, snd x, ab)))))
      (\<lambda>x. whole_bytes w MAX_SIG_STRUCTURE_BYTES (fst x) \<and> body_ok w (snd (snd x)) \<and>
        (\<exists>us encs tails. template_of (body_of w (snd (snd x))) us encs tails (bytes_of w (fst x))))"
  proof (rule sound_sbind [OF tails], elim conjE, rule sound_sbind [OF sound_ns [OF assemble_mso_sound [OF repr L w]]])
    fix es x
    assume es: "length es = NUM_ENTRIES" "\<forall>e \<in> set es. ?T e"
      and "case x of (out, n) \<Rightarrow> \<exists>us cs. assembled_ok w (template_prefix p m ab) (map tail_bits es) (template_suffix ab) us cs out"
    then obtain us cs where ok: "assembled_ok w (template_prefix p m ab) (map tail_bits es) (template_suffix ab) us cs (fst x)" by auto
    have "template_of (body_of w ab) us (map bits_bytes cs) (map (bytes_of w) (map tail_bits es)) (bytes_of w (fst x))"
      by (rule assembled_template [OF ok tb es])
    then show "sound w (sbind (sassert (length (fst x) = MAX_SIG_STRUCTURE_BYTES * 8)) (\<lambda>_. sret (fst x, snd x, ab)))
      (\<lambda>x. whole_bytes w MAX_SIG_STRUCTURE_BYTES (fst x) \<and> body_ok w (snd (snd x)) \<and>
        (\<exists>us encs tails. template_of (body_of w (snd (snd x))) us encs tails (bytes_of w (fst x))))"
      by (intro sound_sbind [OF sound_sassert [where Q = "\<lambda>_. length (fst x) = MAX_SIG_STRUCTURE_BYTES * 8"]] sound_sret)
        (use ok ab in \<open>auto simp: whole_bytes_def assembled_ok_def\<close>)
  qed (use tb pm in \<open>auto simp: whole_bytes_def\<close>)
qed

end


text \<open>
  C11. If the rules of the allocation hold, the buffer is the template of a signed structure around some device key and
  timestamps, with four entries whose identifiers are 1, 2, 3 or 5 bytes wide, and zeros. Whenever the bytes that are
  hashed, of whatever length, are the structure that an issuer signed, the private device key and timestamps are that
  issuer's: no choice of the widths shifts other bytes into their place.
\<close>

theorem sig_structure_binds_body:
  assumes "scalar_repr (repr :: 'f::field \<Rightarrow> nat)" "bellpepper_sound L" "boolean_gates G" "assignment (w :: var \<Rightarrow> 'f)"
    and "body_lengths body" "\<forall>d \<in> set ds. length d = 32"
  shows "sound w (alloc_sig_structure_bits L G ids ds body) (\<lambda>(out, n, ab).
    (\<exists>us encs tails. template_of (body_of w ab) us encs tails (bytes_of w out)) \<and>
    (\<forall>k ids' ds' issued. mso_inputs_ok ids' ds' issued \<longrightarrow>
       native_sig_structure_bytes ids' ds' issued = Some (take k (bytes_of w out)) \<longrightarrow> body_of w ab = issued))"
  by (rule sound_mono [OF boolean_gates.alloc_sig_structure_sound [OF assms(3,1,2,4-6)]])
    (auto dest: template_binds_body)

theorem sig_structure_binds_body_witness:
  "sound (\<lambda>_. 1) (alloc_sig_structure_bits plain_bellpepper plain_gates [5, 26, 300, 70000] (replicate 4 (replicate 32 0)) example_body) (\<lambda>(out, n, ab).
    (\<exists>us encs tails. template_of (body_of ((\<lambda>_. 1) :: var \<Rightarrow> rat) ab) us encs tails (bytes_of (\<lambda>_. 1) out)) \<and>
    (\<forall>k ids' ds' issued. mso_inputs_ok ids' ds' issued \<longrightarrow>
       native_sig_structure_bytes ids' ds' issued = Some (take k (bytes_of (\<lambda>_. 1) out)) \<longrightarrow> body_of (\<lambda>_. 1) ab = issued))"
  by (rule sig_structure_binds_body [OF scalar_repr_rat plain_bellpepper_sound plain.boolean_gates_axioms])
    (simp_all add: assignment_def body_lengths_def example_body_def TIMESTAMP_LEN_def ascii_def)

end
