(* ===== verification/Sha256Mc.thy ===== *)
theory Sha256Mc
  imports Sha256Var
begin

text \<open>
  Hashing spread over step circuits (\<open>sha256_mc.rs\<close>). Blocks and digests of every message are a shared vector of
  elements of sixteen bytes. A step reads one block and the state before it by a selector over its public index and
  compares the compression with the shared digest; the core ties a padded message to the shared blocks and reads the
  digest of its last block. \<open>mc_digest_sound\<close> composes them with the padding of \<open>Sha256Var\<close>.
\<close>

section \<open>The native compression\<close>

definition BYTES_PER_PACK :: nat where "BYTES_PER_PACK = 16"
definition PACKS_PER_BLOCK :: nat where "PACKS_PER_BLOCK = 64 div BYTES_PER_PACK"
definition PACKS_PER_DIGEST :: nat where "PACKS_PER_DIGEST = 32 div BYTES_PER_PACK"

definition MC_IV :: "u32 list" where
  "MC_IV = [0x6a09e667, 0xbb67ae85, 0x3c6ef372, 0xa54ff53a, 0x510e527f, 0x9b05688c, 0x1f83d9ab, 0x5be0cd19]"

definition MC_K :: "u32 list" where
  "MC_K = concat [
    [0x428a2f98, 0x71374491, 0xb5c0fbcf, 0xe9b5dba5, 0x3956c25b, 0x59f111f1, 0x923f82a4, 0xab1c5ed5, 0xd807aa98, 0x12835b01, 0x243185be, 0x550c7dc3, 0x72be5d74],
    [0x80deb1fe, 0x9bdc06a7, 0xc19bf174, 0xe49b69c1, 0xefbe4786, 0x0fc19dc6, 0x240ca1cc, 0x2de92c6f, 0x4a7484aa, 0x5cb0a9dc, 0x76f988da, 0x983e5152, 0xa831c66d],
    [0xb00327c8, 0xbf597fc7, 0xc6e00bf3, 0xd5a79147, 0x06ca6351, 0x14292967, 0x27b70a85, 0x2e1b2138, 0x4d2c6dfc, 0x53380d13, 0x650a7354, 0x766a0abb, 0x81c2c92e],
    [0x92722c85, 0xa2bfe8a1, 0xa81a664b, 0xc24b8b70, 0xc76c51a3, 0xd192e819, 0xd6990624, 0xf40e3585, 0x106aa070, 0x19a4c116, 0x1e376c08, 0x2748774c, 0x34b0bcb5],
    [0x391c0cb3, 0x4ed8aa4a, 0x5b9cca4f, 0x682e6ff3, 0x748f82ee, 0x78a5636f, 0x84c87814, 0x8cc70208, 0x90befffa, 0xa4506ceb, 0xbef9a3f7, 0xc67178f2]]"

definition schedule_word :: "nat \<Rightarrow> u32 list \<Rightarrow> u32 list" where
  "schedule_word i w =
    (let x = w ! (i - 15); s0 = word_rotr 7 x XOR word_rotr 18 x XOR drop_bit 3 x;
         y = w ! (i - 2); s1 = word_rotr 17 y XOR word_rotr 19 y XOR drop_bit 10 y
     in w[i := w ! (i - 16) + s0 + w ! (i - 7) + s1])"

definition native_round :: "u32 list \<Rightarrow> nat \<Rightarrow> fips_state \<Rightarrow> fips_state" where
  "native_round w i = (\<lambda>(a, b, c, d, e, f, g, hh).
    let s1 = word_rotr 6 e XOR word_rotr 11 e XOR word_rotr 25 e;
        ch = (e AND f) XOR (NOT e AND g);
        t1 = hh + s1 + ch + MC_K ! i + w ! i;
        s0 = word_rotr 2 a XOR word_rotr 13 a XOR word_rotr 22 a;
        maj = (a AND b) XOR (a AND c) XOR (b AND c);
        t2 = s0 + maj
    in (t1 + t2, a, b, c, d + t1, e, f, g))"

definition compress_native :: "u32 list \<Rightarrow> bytes \<Rightarrow> u32 list" where
  "compress_native h block =
    (let w = fold schedule_word [16..<64] (be_words 16 block @ replicate 48 0);
         (a, b, c, d, e, f, g, hh) = fold (native_round w) [0..<64] (h ! 0, h ! 1, h ! 2, h ! 3, h ! 4, h ! 5, h ! 6, h ! 7)
     in map (\<lambda>(x, v). x + v) (zip h [a, b, c, d, e, f, g, hh]))"

lemma MC_K_eq: "MC_K = ROUND_CONSTANTS"
  by (simp add: MC_K_def ROUND_CONSTANTS_def)

lemma schedule_word_step: "schedule_word i w = snd (schedule_step i (([] :: rat list), w))"
  by (simp add: schedule_word_def schedule_step_def Let_def as_u32_add xor.assoc)

lemma schedule_word_fold: "fold schedule_word is w = snd (fold schedule_step is ((vs :: rat list), w))"
proof (induction "is" arbitrary: w vs)
  case (Cons i "is")
  obtain vs' w' where s: "schedule_step i (vs, w) = (vs', w')" by fastforce
  have "schedule_word i w = w'" using s by (auto simp: schedule_word_def schedule_step_def Let_def as_u32_add xor.assoc)
  then show ?case using Cons s by simp
qed simp

lemma compress_native_fips:
  assumes "length h = 8"
  shows "compress_native h block = fips_compress (be_words 16 block) h"
proof -
  let ?w = "fold schedule_word [16..<64] (be_words 16 block @ replicate 48 0)"
  have w: "?w ! j = fips_w (be_words 16 block) j" if "j < 64" for j
    using schedule_loop [of "be_words 16 block" 64 "[] :: rat list"] that by (simp add: schedule_word_fold [where vs = "[]"] del: upt_rec_numeral)
  have "fold (native_round ?w) [0..<64] s = fold (fips_round (be_words 16 block)) [0..<64] s" for s
    by (rule fold_cong [OF refl refl]) (use w in \<open>auto simp: native_round_def fips_round_def big_sigma0_def big_sigma1_def MC_K_eq Let_def simp del: upt_rec_numeral\<close>)
  moreover obtain h0 h1 h2 h3 h4 h5 h6 h7 where "h = [h0, h1, h2, h3, h4, h5, h6, h7]"
    using assms by (auto simp: numeral_eq_Suc length_Suc_conv)
  ultimately show ?thesis by (simp add: compress_native_def fips_compress_def Let_def split: prod.splits del: upt_rec_numeral)
qed

section \<open>The shared vector\<close>

record HashLayout =
  message_blocks :: "nat list"

definition total_blocks :: "HashLayout \<Rightarrow> nat" where
  "total_blocks layout = sum_list (message_blocks layout)"

fun starts_at :: "nat list \<Rightarrow> nat \<Rightarrow> nat \<Rightarrow> bool" where
  "starts_at [] start block = False"
| "starts_at (n # rest) start block = (if block = start then True else starts_at rest (start + n) block)"

definition is_first_of_message :: "HashLayout \<Rightarrow> nat \<Rightarrow> bool" where
  "is_first_of_message layout block = starts_at (message_blocks layout) 0 block"

definition message_start :: "HashLayout \<Rightarrow> nat \<Rightarrow> nat" where
  "message_start layout m = sum_list (take m (message_blocks layout))"

definition pack_be :: "bytes \<Rightarrow> 'f::field" where
  "pack_be bs = foldl (\<lambda>a b. a * of_nat 256 + of_nat (unat b)) 0 bs"

definition pack_slice :: "bytes \<Rightarrow> nat \<Rightarrow> 'f::field" where
  "pack_slice bs k = pack_be (take BYTES_PER_PACK (drop (k * BYTES_PER_PACK) bs))"

definition alloc_packs :: "'f::field bellpepper \<Rightarrow> string \<Rightarrow> nat \<Rightarrow> bytes list \<Rightarrow> ('f AllocatedNum list, 'f) synth" where
  "alloc_packs L kind per bss =
     smap (\<lambda>((j, b), k). ns (kind @ show_nat j @ '' pack '' @ show_nat k) (alloc_num L (Inr (pack_slice b k))))
       (List.product (enumerate 0 bss) [0..<per])"

definition mc_alloc_shared :: "'f::field bellpepper \<Rightarrow> bytes list \<Rightarrow> bytes list \<Rightarrow> ('f AllocatedNum list, 'f) synth" where
  "mc_alloc_shared L bss digests =
     sbind (alloc_packs L ''block '' PACKS_PER_BLOCK bss) (\<lambda>bs.
     sbind (alloc_packs L ''digest '' PACKS_PER_DIGEST digests) (\<lambda>ds. sret (bs @ ds)))"

definition block_pack :: "nat \<Rightarrow> nat \<Rightarrow> nat \<Rightarrow> nat" where
  "block_pack n j k = j * PACKS_PER_BLOCK + k"

definition digest_pack :: "nat \<Rightarrow> nat \<Rightarrow> nat \<Rightarrow> nat" where
  "digest_pack n j k = n * PACKS_PER_BLOCK + j * PACKS_PER_DIGEST + k"

section \<open>Reading the shared vector\<close>

definition mc_one_hot :: "'f::field bellpepper \<Rightarrow> nat \<Rightarrow> nat \<Rightarrow> ('f Boolean list, 'f) synth" where
  "mc_one_hot L n r =
     sbind (smap (\<lambda>j. ns (''sel '' @ show_nat j) (alloc_bit L (Some (j = r)))) [0..<n]) (\<lambda>sel.
     sbind (one_hot_rule ''one-hot sums to one'' sel) (\<lambda>_. sret sel))"

text \<open>The entry that a selector's bit stands for: a constant, an element of the vector, or nothing.\<close>

datatype 'f entry = Constant 'f | Shared nat | Absent

definition entry_of :: "(nat \<Rightarrow> nat option) \<Rightarrow> (nat \<Rightarrow> 'f option) \<Rightarrow> nat \<Rightarrow> 'f entry" where
  "entry_of index_of constant_for j =
    (case constant_for j of Some c \<Rightarrow> Constant c | None \<Rightarrow> (case index_of j of Some idx \<Rightarrow> Shared idx | None \<Rightarrow> Absent))"

fun entry_value :: "'f::field AllocatedNum list \<Rightarrow> 'f entry \<Rightarrow> ('f option, 'f) synth" where
  "entry_value shared (Constant c) = sret (Some c)"
| "entry_value shared (Shared idx) = (if idx < length shared then sret (num_value (shared ! idx)) else sfail Panicked)"
| "entry_value shared Absent = sret (Some 0)"

fun entry_lc :: "'f::field AllocatedNum list \<Rightarrow> 'f entry \<Rightarrow> 'f lincomb" where
  "entry_lc shared (Constant c) = [(one, c)]"
| "entry_lc shared (Shared idx) = [(num_var (shared ! idx), 1)]"
| "entry_lc shared Absent = []"

definition readout_term ::
  "'f bellpepper \<Rightarrow> 'f AllocatedNum list \<Rightarrow> (nat \<Rightarrow> 'f entry) \<Rightarrow> string \<Rightarrow> nat \<times> 'f Boolean \<Rightarrow> 'f lincomb \<times> 'f option \<Rightarrow>
    ('f::field lincomb \<times> 'f option, 'f) synth" where
  "readout_term L shared entry tag = (\<lambda>(j, s) (acc, v).
     sbind (entry_value shared (entry j)) (\<lambda>term_value.
     let live = (bool_value s = Some True) in
     sbind (ns (tag @ '' term '' @ show_nat j) (alloc_num L (if live then ok_or AssignmentMissing term_value else Inr 0))) (\<lambda>t.
     sbind (enforce (tag @ '' select '' @ show_nat j) (bool_lc s) (entry_lc shared (entry j)) [(num_var t, 1)]) (\<lambda>_.
     sret (acc @ [(num_var t, 1)], if live then term_value else v)))))"

definition readout ::
  "'f bellpepper \<Rightarrow> 'f Boolean list \<Rightarrow> 'f AllocatedNum list \<Rightarrow> (nat \<Rightarrow> nat option) \<Rightarrow> (nat \<Rightarrow> 'f option) \<Rightarrow> string \<Rightarrow>
    ('f::field AllocatedNum, 'f) synth" where
  "readout L sel shared index_of constant_for tag =
     sbind (sfold (readout_term L shared (entry_of index_of constant_for) tag) (enumerate 0 sel) ([], Some 0)) (\<lambda>(acc, v).
     sbind (ns (tag @ '' value'') (alloc_num L (ok_or AssignmentMissing v))) (\<lambda>out.
     sbind (enforce (tag @ '' sums'') acc [(one, 1)] [(num_var out, 1)]) (\<lambda>_. sret out)))"

definition doubled :: "nat \<Rightarrow> 'f::field" where
  "doubled n = ((\<lambda>x. x + x) ^^ n) 1"

definition recompose :: "'f::field Boolean list \<Rightarrow> 'f lincomb" where
  "recompose bs = concat (map (\<lambda>(i, b). map (\<lambda>(v, d). (v, doubled (length bs - 1 - i) * d)) (bool_lc b)) (enumerate 0 bs))"

definition unpack :: "'f::field bellpepper \<Rightarrow> ('f \<Rightarrow> nat) \<Rightarrow> 'f AllocatedNum \<Rightarrow> string \<Rightarrow> ('f Boolean list, 'f) synth" where
  "unpack L repr p tag =
    (let native = map_option (low_bytes repr) (num_value p) in
     sbind (smap (\<lambda>i. ns (tag @ '' bit '' @ show_nat i) (alloc_bit L (map_option (\<lambda>n. bit (n ! (i div 8)) (7 - i mod 8)) native)))
       [0..<BYTES_PER_PACK * 8]) (\<lambda>bs.
     sbind (enforce (tag @ '' recomposes'') (recompose bs) [(one, 1)] [(num_var p, 1)]) (\<lambda>_. sret bs)))"

definition read_packs ::
  "'f::field bellpepper \<Rightarrow> ('f \<Rightarrow> nat) \<Rightarrow> 'f Boolean list \<Rightarrow> 'f AllocatedNum list \<Rightarrow> string \<Rightarrow> string \<Rightarrow> string \<Rightarrow>
    (nat \<Rightarrow> nat \<Rightarrow> nat option) \<Rightarrow> (nat \<Rightarrow> nat \<Rightarrow> 'f option) \<Rightarrow> nat \<Rightarrow> ('f Boolean list, 'f) synth" where
  "read_packs L repr sel shared pack_name bits_name tag index_of constant_for per =
     sbind (smap (\<lambda>k.
         sbind (ns (pack_name @ show_nat k) (readout L sel shared (index_of k) (constant_for k) (tag @ show_nat k))) (\<lambda>p.
         ns (bits_name @ show_nat k) (unpack L repr p (tag @ show_nat k)))) [0..<per]) (\<lambda>parts. sret (concat parts))"

section \<open>The circuits\<close>

definition weighted_sum :: "(nat \<Rightarrow> nat) \<Rightarrow> 'f::field Boolean list \<Rightarrow> 'f lincomb" where
  "weighted_sum f bs = concat (map (\<lambda>(j, b). map (\<lambda>(v, d). (v, of_nat (f j) * d)) (bool_lc b)) (enumerate 0 bs))"

definition bind_index :: "'f::field bellpepper \<Rightarrow> 'f gates \<Rightarrow> 'f Boolean list \<Rightarrow> nat \<Rightarrow> (unit, 'f) synth" where
  "bind_index L G sel step =
     sbind (ns ''public step index'' (alloc_num L (Inr (of_nat step)))) (\<lambda>idx.
     sbind (ns ''inputize step index'' (gate_inputize G idx)) (\<lambda>_.
     enforce ''the published index is the block actually selected''
       (weighted_sum (\<lambda>j. j) sel) [(one, 1)] [(num_var idx, 1)]))"

definition iv_pack :: "nat \<Rightarrow> 'f::field" where
  "iv_pack k = pack_slice (words_to_bytes MC_IV) k"

definition compare_digest ::
  "'f::field bellpepper \<Rightarrow> 'f Boolean list \<Rightarrow> 'f AllocatedNum list \<Rightarrow> nat \<Rightarrow> 'f Boolean list \<Rightarrow> nat \<Rightarrow> (unit, 'f) synth" where
  "compare_digest L sel shared n out_bits k =
     sbind (ns (''digest pack '' @ show_nat k) (readout L sel shared (\<lambda>j. Some (digest_pack n j k)) (\<lambda>_. None) (''Hout'' @ show_nat k))) (\<lambda>expected.
     enforce (''compression output matches shared digest '' @ show_nat k)
       (recompose (take (BYTES_PER_PACK * 8) (drop (k * BYTES_PER_PACK * 8) out_bits))) [(one, 1)] [(num_var expected, 1)])"

definition synthesize_step ::
  "'f bellpepper \<Rightarrow> 'f gates \<Rightarrow> ('u, 'f) sha_gadget \<Rightarrow> ('f \<Rightarrow> nat) \<Rightarrow> 'f AllocatedNum list \<Rightarrow> HashLayout \<Rightarrow> nat \<Rightarrow> (unit, 'f::field) synth" where
  "synthesize_step L G H repr shared layout step =
    (let n = total_blocks layout in
     sbind (ns ''step index'' (mc_one_hot L n step)) (\<lambda>sel.
     sbind (bind_index L G sel step) (\<lambda>_.
     sbind (read_packs L repr sel shared ''block pack '' ''block bits '' ''M'' (\<lambda>k j. Some (block_pack n j k)) (\<lambda>_ _. None) PACKS_PER_BLOCK) (\<lambda>block_bits.
     sbind (read_packs L repr sel shared ''state pack '' ''state bits '' ''Hin''
         (\<lambda>k j. if is_first_of_message layout j then None else Some (digest_pack n (j - 1) k))
         (\<lambda>k j. if is_first_of_message layout j then Some (iv_pack k) else None) PACKS_PER_DIGEST) (\<lambda>state_bits.
     sbind (ns ''compress'' (sha256_compression_function H block_bits (map (from_bits_be H) (chunks 32 state_bits)))) (\<lambda>out.
     sfor (compare_digest L sel shared n (concat (map (into_bits_be H) out))) [0..<PACKS_PER_DIGEST]))))))"

definition bind_message_to_shared ::
  "'f::field AllocatedNum list \<Rightarrow> HashLayout \<Rightarrow> nat \<Rightarrow> 'f Boolean list \<Rightarrow> (unit, 'f) synth" where
  "bind_message_to_shared shared layout message padded_bits =
    (if message < length (message_blocks layout) then
       let n = total_blocks layout; budget = message_blocks layout ! message; start = message_start layout message in
       if length padded_bits \<noteq> budget * 512 then sfail Unsatisfiable
       else sfor (\<lambda>b. sfor (\<lambda>k.
           sbind (sassert (block_pack n (start + b) k < length shared)) (\<lambda>_.
           enforce (''message '' @ show_nat message @ '' block '' @ show_nat b @ '' pack '' @ show_nat k @ '' matches shared'')
             (recompose (take (BYTES_PER_PACK * 8) (drop (b * 512 + k * BYTES_PER_PACK * 8) padded_bits))) [(one, 1)]
             [(num_var (shared ! block_pack n (start + b) k), 1)]))
         [0..<PACKS_PER_BLOCK]) [0..<budget]
     else sfail Panicked)"

definition select_digest ::
  "'f::field bellpepper \<Rightarrow> ('f \<Rightarrow> nat) \<Rightarrow> 'f AllocatedNum list \<Rightarrow> HashLayout \<Rightarrow> nat \<Rightarrow> nat \<Rightarrow> 'f Boolean list option \<Rightarrow> ('f Boolean list, 'f) synth" where
  "select_digest L repr shared layout message terminal_block length_selector =
    (if message < length (message_blocks layout) then
       let n = total_blocks layout; budget = message_blocks layout ! message in
       if budget \<le> terminal_block then sfail Unsatisfiable
       else let start = message_start layout message in
         sbind (ns ''terminal block'' (mc_one_hot L budget terminal_block)) (\<lambda>sel.
         sbind (case length_selector of None \<Rightarrow> sret ()
           | Some len_sel \<Rightarrow> enforce ''selected block is the padding boundary''
               (weighted_sum (\<lambda>j. j) sel @ map (\<lambda>(v, d). (v, - d)) (weighted_sum (\<lambda>n. terminal_block_for_len n - 1) len_sel)) [(one, 1)] []) (\<lambda>_.
         read_packs L repr sel shared ''selected digest pack '' ''selected digest bits '' ''D''
           (\<lambda>k j. Some (digest_pack n (start + j) k)) (\<lambda>_ _. None) PACKS_PER_DIGEST))
     else sfail Panicked)"

section \<open>What the rules force\<close>

lemma mc_sizes [simp]: "BYTES_PER_PACK = 16" "PACKS_PER_BLOCK = 4" "PACKS_PER_DIGEST = 2"
  by (simp_all add: BYTES_PER_PACK_def PACKS_PER_BLOCK_def PACKS_PER_DIGEST_def)

lemma pack_be_eq: "pack_be bs = from_be bs"
proof (induction bs rule: rev_induct)
  case (snoc b bs)
  then show ?case by (simp add: pack_be_def from_be_def algebra_simps)
qed (simp add: pack_be_def from_be_def)

lemma doubled_eq: "doubled n = 2 ^ n"
  by (induction n) (simp_all add: doubled_def)

lemma ev_recompose:
  assumes "list_all (is_bit w) bs"
  shows "ev w (recompose bs) = of_nat (bin_val (bvals w bs))"
proof -
  have "ev w (concat (map (\<lambda>(i, b). map (\<lambda>(v, d). (v, doubled (n - 1 - i) * d)) (bool_lc b)) (enumerate k cs)))
      = of_nat (bin_val (bvals w cs))" if "list_all (is_bit w) cs" "n = k + length cs" for k n cs
    using that
  proof (induction cs arbitrary: k)
    case (Cons c cs)
    have "n - 1 - k = length cs" using Cons.prems by simp
    then show ?case using Cons.IH [of "Suc k"] Cons.prems by (simp add: bin_val_Cons is_bit_of_bool doubled_eq)
  qed simp
  from this [OF assms, of _ 0] show ?thesis by (simp add: recompose_def)
qed

lemma ev_weighted_sum:
  assumes "one_hot w bs j"
  shows "ev w (weighted_sum f bs) = of_nat (f j)"
proof -
  have "ev w (concat (map (\<lambda>(i, b). map (\<lambda>(v, d). (v, of_nat (f i) * d)) (bool_lc b)) (enumerate k cs)))
      = (if k \<le> j \<and> j < k + length cs then of_nat (f j) else 0)"
    if "\<forall>i < length cs. is_bit w (cs ! i) \<and> (bval w (cs ! i) \<longleftrightarrow> k + i = j)" for k cs
    using that
  proof (induction cs arbitrary: k)
    case (Cons c cs)
    have "is_bit w c" "bval w c \<longleftrightarrow> k = j" using Cons.prems [rule_format, of 0] by auto
    moreover have "\<forall>i < length cs. is_bit w (cs ! i) \<and> (bval w (cs ! i) \<longleftrightarrow> Suc k + i = j)"
      using Cons.prems by (auto dest: spec [of _ "Suc _"])
    note Cons.IH [OF this]
    ultimately show ?case by (auto simp: is_bit_of_bool)
  qed auto
  from this [of bs 0] show ?thesis using assms by (simp add: weighted_sum_def one_hot_def list_all_length)
qed

lemma sound_mc_one_hot:
  assumes "scalar_repr (repr :: 'f::field \<Rightarrow> nat)" "bellpepper_sound L" "assignment (w :: var \<Rightarrow> 'f)" "n < modulus"
  shows "sound w (mc_one_hot L n r) (\<lambda>sel. length sel = n \<and> (\<exists>j. one_hot w sel j))"
  unfolding mc_one_hot_def
proof (rule sound_sbind [OF sound_smap [where R = "\<lambda>_. is_bit w"]])
  fix sel assume "list_all2 (\<lambda>_. is_bit w) [0..<n] sel"
  then have sel: "length sel = n" "list_all (is_bit w) sel" by (auto simp: list_all2_conv_all_nth list_all_length)
  then have "length sel < modulus" using assms(4) by simp
  then show "sound w (sbind (one_hot_rule ''one-hot sums to one'' sel) (\<lambda>_. sret sel)) (\<lambda>sel. length sel = n \<and> (\<exists>j. one_hot w sel j))"
    by (rule sound_sbind [OF sound_one_hot_rule [OF assms(1,3) sel(2)]]) (use sel in \<open>auto intro!: sound_sret\<close>)
qed (intro sound_ns sound_alloc_bit assms)

text \<open>The value that an entry has under an assignment.\<close>

fun entry_ev :: "(var \<Rightarrow> 'f::field) \<Rightarrow> 'f AllocatedNum list \<Rightarrow> 'f entry \<Rightarrow> 'f" where
  "entry_ev w shared (Constant c) = c"
| "entry_ev w shared (Shared idx) = w (num_var (shared ! idx))"
| "entry_ev w shared Absent = 0"

lemma ev_entry_lc: "assignment w \<Longrightarrow> ev w (entry_lc shared e) = entry_ev w shared e"
  by (cases e) (auto simp: assignment_def one_def)

lemma sound_readout:
  assumes w: "assignment (w :: var \<Rightarrow> 'f::field)" and sel: "one_hot w sel j"
  shows "sound w (readout L sel shared index_of constant_for tag) (\<lambda>out. w (num_var out) = entry_ev w shared (entry_of index_of constant_for j))"
proof -
  let ?e = "entry_of index_of constant_for"
  have bits: "is_bit w (sel ! i)" "bval w (sel ! i) \<longleftrightarrow> i = j" if "i < length sel" for i
    using sel that by (auto simp: one_hot_def list_all_length)
  have "sound w (sfold (readout_term L shared ?e tag) (enumerate 0 sel) ([], Some 0))
      ((\<lambda>i (acc, _). ev w acc = (if j < i then entry_ev w shared (?e j) else 0)) (length (enumerate 0 sel)))"
  proof (rule sound_sfold)
    fix i and s :: "'f lincomb \<times> 'f option" assume i: "i < length (enumerate 0 sel)" and s: "case s of (acc, _) \<Rightarrow> ev w acc = (if j < i then entry_ev w shared (?e j) else 0)"
    obtain acc v where acc: "s = (acc, v)" by (cases s)
    have e: "enumerate 0 sel ! i = (i, sel ! i)" using i by (simp add: nth_enumerate_eq)
    show "sound w (readout_term L shared ?e tag (enumerate 0 sel ! i) s)
        (\<lambda>(acc, _). ev w acc = (if j < Suc i then entry_ev w shared (?e j) else 0))"
      unfolding e acc readout_term_def prod.case Let_def
      apply (rule sound_sbind [OF sound_True], rule sound_sbind [OF sound_True], rule sound_sbind [OF sound_enforce], rule sound_sret)
      using bits [of i] i s acc by (auto simp: ev_entry_lc [OF w] is_bit_of_bool less_Suc_eq split: if_splits)
  qed simp
  then show ?thesis
    unfolding readout_def
  proof (rule sound_sbind)
    fix s :: "'f lincomb \<times> 'f option" assume s: "case s of (acc, _) \<Rightarrow> ev w acc = (if j < length (enumerate 0 sel) then entry_ev w shared (?e j) else 0)"
    obtain acc v where acc: "s = (acc, v)" by (cases s)
    have "ev w acc = entry_ev w shared (?e j)" using s acc sel by (simp add: one_hot_def)
    then show "sound w (case s of (acc, v) \<Rightarrow> sbind (ns (tag @ '' value'') (alloc_num L (ok_or AssignmentMissing v))) (\<lambda>out.
        sbind (enforce (tag @ '' sums'') acc [(one, 1)] [(num_var out, 1)]) (\<lambda>_. sret out)))
        (\<lambda>out. w (num_var out) = entry_ev w shared (?e j))"
      unfolding acc prod.case
      by (intro sound_sbind [OF sound_True] sound_sbind [OF sound_enforce] sound_sret) (use w in \<open>simp add: assignment_def one_def\<close>)
  qed
qed

lemma sound_unpack:
  assumes "bellpepper_sound L" "assignment w"
  shows "sound w (unpack L repr p tag) (\<lambda>bs. length bs = 128 \<and> list_all (is_bit w) bs \<and> w (num_var p) = from_be (bits_bytes (bvals w bs)))"
  unfolding unpack_def Let_def
proof (rule sound_sbind [OF sound_smap [where R = "\<lambda>_. is_bit w"]])
  fix bs assume "list_all2 (\<lambda>_. is_bit w) [0..<BYTES_PER_PACK * 8] bs"
  then have bs: "length bs = 128" "list_all (is_bit w) bs" by (auto simp: list_all2_conv_all_nth list_all_length)
  have "be_val (bits_bytes (bvals w bs)) = bin_val (bvals w bs)" using be_val_bits_bytes [of "bvals w bs" 16] bs by simp
  then show "sound w (sbind (enforce (tag @ '' recomposes'') (recompose bs) [(one, 1)] [(num_var p, 1)]) (\<lambda>_. sret bs))
      (\<lambda>bs. length bs = 128 \<and> list_all (is_bit w) bs \<and> w (num_var p) = from_be (bits_bytes (bvals w bs)))"
    by (intro sound_sbind [OF sound_enforce] sound_sret) (use bs assms(2) in \<open>auto simp: ev_recompose from_be_def assignment_def one_def\<close>)
qed (intro sound_ns sound_alloc_bit assms)

abbreviation pack_at :: "bytes \<Rightarrow> nat \<Rightarrow> 'f::field" where
  "pack_at bs k \<equiv> from_be (take 16 (drop (16 * k) bs))"

lemma packs_unique:
  assumes repr: "scalar_repr (repr :: 'f::field \<Rightarrow> nat)" and len: "length s = 16 * n" "length t = 16 * n"
    and eq: "\<forall>k < n. (pack_at s k :: 'f) = pack_at t k"
  shows "s = t"
proof -
  have "take 16 (drop (16 * k) s) = take 16 (drop (16 * k) t)" if "k < n" for k
    by (rule from_be_inj [OF repr]) (use eq len that in auto)
  then have "map (\<lambda>k. take 16 (drop (16 * k) s)) [0..<n] = map (\<lambda>k. take 16 (drop (16 * k) t)) [0..<n]" by simp
  then have "chunks 16 s = chunks 16 t" using chunks_slices [of 16 s n] chunks_slices [of 16 t n] len by simp
  then have "concat (chunks 16 s) = concat (chunks 16 t)" by (rule arg_cong)
  then show ?thesis by (simp only: concat_chunks zero_less_numeral)
qed

lemma sound_read_packs:
  assumes "bellpepper_sound L" "assignment (w :: var \<Rightarrow> 'f::field)" "one_hot w sel j"
  shows "sound w (read_packs L repr sel shared pack_name bits_name tag index_of constant_for per) (\<lambda>bs.
    length bs = per * 128 \<and> list_all (is_bit w) bs \<and>
    (\<forall>k < per. entry_ev w shared (entry_of (index_of k) (constant_for k) j) = pack_at (bits_bytes (bvals w bs)) k))"
  unfolding read_packs_def
proof (rule sound_sbind, rule sound_smap, rule sound_sbind [OF sound_ns [OF sound_readout [OF assms(2,3)]]], rule sound_ns)
  fix k and p :: "'f AllocatedNum" assume "w (num_var p) = entry_ev w shared (entry_of (index_of k) (constant_for k) j)"
  then show "sound w (unpack L repr p (tag @ show_nat k)) ((\<lambda>k bs. length bs = 128 \<and> list_all (is_bit w) bs \<and>
      entry_ev w shared (entry_of (index_of k) (constant_for k) j) = from_be (bits_bytes (bvals w bs))) k)"
    using sound_unpack [OF assms(1,2), of repr p "tag @ show_nat k"] by simp
next
  fix parts assume "list_all2 (\<lambda>k bs. length bs = 128 \<and> list_all (is_bit w) bs \<and>
      entry_ev w shared (entry_of (index_of k) (constant_for k) j) = from_be (bits_bytes (bvals w bs))) [0..<per] parts"
  then have parts: "length parts = per" "\<And>k. k < per \<Longrightarrow> length (parts ! k) = 128 \<and> list_all (is_bit w) (parts ! k) \<and>
      entry_ev w shared (entry_of (index_of k) (constant_for k) j) = from_be (bits_bytes (bvals w (parts ! k)))"
    by (auto simp: list_all2_conv_all_nth)
  have each: "length x = 128" "list_all (is_bit w) x" if "x \<in> set parts" for x using that parts by (auto simp: in_set_conv_nth)
  have "length (concat xs) = length xs * 128" if "set xs \<subseteq> set parts" for xs using that each(1) by (induction xs) auto
  then have len: "length (concat parts) = per * 128" using parts(1) by simp
  have "take 16 (drop (16 * k) (bits_bytes (bvals w (concat parts)))) = bits_bytes (bvals w (parts ! k))" if "k < per" for k
    using bits_bytes_slice [of "bvals w (concat parts)" "16 * per" 16 "16 * k"] slice_concat [of parts 128 k] len each(1) parts(1) that
    by (simp add: take_map drop_map)
  then show "sound w (sret (concat parts)) (\<lambda>bs. length bs = per * 128 \<and> list_all (is_bit w) bs \<and>
    (\<forall>k < per. entry_ev w shared (entry_of (index_of k) (constant_for k) j) = pack_at (bits_bytes (bvals w bs)) k))"
    using len each(2) parts(2) by (intro sound_sret) (auto simp: list_all_iff)
qed

text \<open>One link of the shared vector: the digest at \<open>j\<close> is the compression of the block at \<open>j\<close> from the state before it.\<close>

definition mc_link :: "(var \<Rightarrow> 'f::field) \<Rightarrow> 'f AllocatedNum list \<Rightarrow> HashLayout \<Rightarrow> nat \<Rightarrow> bool" where
  "mc_link w shared layout j \<longleftrightarrow> (\<exists>s b. length s = 32 \<and> length b = 64 \<and>
     (\<forall>k < 4. w (num_var (shared ! block_pack (total_blocks layout) j k)) = pack_at b k) \<and>
     (if is_first_of_message layout j then s = iv_bytes
      else \<forall>k < 2. w (num_var (shared ! digest_pack (total_blocks layout) (j - 1) k)) = pack_at s k) \<and>
     (\<forall>k < 2. w (num_var (shared ! digest_pack (total_blocks layout) j k)) = pack_at (state_after s b) k))"

lemma MC_IV_bytes: "words_to_bytes MC_IV = iv_bytes"
  by (simp add: MC_IV_def iv_bytes_def IV_def)

lemma sound_compare_digest:
  assumes w: "assignment w" and sel: "one_hot w sel j" and out: "length out = 256" "list_all (is_bit w) out" and k: "k < 2"
  shows "sound w (compare_digest L sel shared n out k) (\<lambda>_. w (num_var (shared ! digest_pack n j k)) = pack_at (bits_bytes (bvals w out)) k)"
proof -
  let ?bs = "take 128 (drop (k * 128) out)"
  have bs: "length ?bs = 128" "list_all (is_bit w) ?bs" using out k by (auto simp: list_all_iff dest: in_set_takeD in_set_dropD)
  have "take 16 (drop (16 * k) (bits_bytes (bvals w out))) = bits_bytes (bvals w ?bs)"
    using bits_bytes_slice [of "bvals w out" 32 16 "16 * k"] out(1) by (simp add: take_map drop_map mult.commute)
  moreover have "of_nat (bin_val (bvals w ?bs)) = (from_be (bits_bytes (bvals w ?bs)) :: 'a)"
    using be_val_bits_bytes [of "bvals w ?bs" 16] bs(1) by (simp add: from_be_def)
  ultimately have "ev w (recompose ?bs) = pack_at (bits_bytes (bvals w out)) k" using ev_recompose [OF bs(2)] by simp
  then show ?thesis
    unfolding compare_digest_def
    by (intro sound_sbind [OF sound_ns [OF sound_readout [OF w sel]]] sound_mono [OF sound_enforce])
      (use w in \<open>auto simp: entry_of_def assignment_def one_def mult.assoc\<close>)
qed

lemma keeps_entry_value [keeps_intros]: "keeps (entry_value shared e)"
  by (cases e) (auto intro: keeps_intros)

lemma keeps_mc [keeps_intros]:
  assumes "bellpepper_inputs L"
  shows "keeps (mc_one_hot L n r)" "keeps (readout L sel shared index_of constant_for tag)" "keeps (unpack L repr p tag)"
    "keeps (read_packs L repr sel shared pack_name bits_name tag f g per)" "keeps (compare_digest L sel shared n out k)"
    "keeps (select_digest L repr shared layout message t ls)" "keeps (bind_message_to_shared shared layout message bs)"
proof -
  show read: "keeps (readout L sel shared index_of constant_for tag)" for sel shared index_of constant_for tag
    unfolding readout_def readout_term_def by (intro keeps_intros assms keeps_sfold) (auto simp: Let_def intro!: keeps_intros assms)
  show unp: "keeps (unpack L repr p tag)" for p tag unfolding unpack_def Let_def by (intro keeps_intros assms)
  show hot: "keeps (mc_one_hot L n r)" for n r unfolding mc_one_hot_def by (intro keeps_intros assms)
  show packs: "keeps (read_packs L repr sel shared pack_name bits_name tag f g per)" for sel pack_name bits_name tag f g per
    unfolding read_packs_def by (intro keeps_intros read unp)
  show "keeps (compare_digest L sel shared n out k)" unfolding compare_digest_def by (intro keeps_intros read)
  show "keeps (select_digest L repr shared layout message t ls)" unfolding select_digest_def Let_def by (intro keeps_intros hot packs)
  show "keeps (bind_message_to_shared shared layout message bs)" unfolding bind_message_to_shared_def Let_def by (intro keeps_intros)
qed

lemma link_of_reads:
  assumes repr: "scalar_repr (repr :: 'f::field \<Rightarrow> nat)"
    and block: "length block = 512" "\<forall>k < 4. w (num_var (shared ! block_pack (total_blocks layout) j k)) = pack_at (bits_bytes (bvals w block)) k"
    and state: "length state = 256" "\<forall>k < 2. entry_ev w shared (entry_of
        (\<lambda>j. if is_first_of_message layout j then None else Some (digest_pack (total_blocks layout) (j - 1) k))
        (\<lambda>j. if is_first_of_message layout j then Some (iv_pack k) else None) j) = (pack_at (bits_bytes (bvals w state)) k :: 'f)"
    and out: "\<forall>k < 2. w (num_var (shared ! digest_pack (total_blocks layout) j k)) = pack_at (state_after (bits_bytes (bvals w state)) (bits_bytes (bvals w block))) k"
  shows "mc_link w shared layout j"
proof -
  let ?s = "bits_bytes (bvals w state)" and ?b = "bits_bytes (bvals w block)"
  have len: "length ?s = 32" "length ?b = 64" using block(1) state(1) length_bits_bytes [of "bvals w state" 32] length_bits_bytes [of "bvals w block" 64] by simp_all
  have "?s = iv_bytes" if "is_first_of_message layout j"
  proof (rule packs_unique [OF repr, of _ 2])
    show "\<forall>k < 2. (pack_at ?s k :: 'f) = pack_at iv_bytes k"
      using state(2) that by (simp add: entry_of_def iv_pack_def pack_slice_def pack_be_eq MC_IV_bytes mult.commute)
  qed (simp_all add: len)
  then show ?thesis
    unfolding mc_link_def using len block(2) state(2) out by (intro exI [of _ ?s] exI [of _ ?b]) (auto simp: entry_of_def)
qed

context boolean_gates begin

lemma bind_index_sound:
  assumes "assignment w" "bellpepper_inputs L" "one_hot w sel j"
  shows "sound_at w i (bind_index L G sel step) (Suc i) (\<lambda>_. w (Input i) = of_nat j)"
  unfolding bind_index_def
proof (rule sound_at_sbind [OF sound_at_keeps [OF sound_True]], (intro keeps_intros assms), rule sound_at_sbind [OF sound_at_ns [OF inputize_law [OF assms(1)]]])
  fix idx assume "w (Input i) = w (num_var idx)"
  then show "sound_at w (Suc i) (enforce ''the published index is the block actually selected'' (weighted_sum (\<lambda>j. j) sel) [(one, 1)] [(num_var idx, 1)])
      (Suc i) (\<lambda>_. w (Input i) = of_nat j)"
    using assms by (intro sound_at_keeps keeps_intros sound_mono [OF sound_enforce]) (simp add: ev_weighted_sum assignment_def one_def)
qed

lemma synthesize_step_sound:
  assumes repr: "scalar_repr (repr :: 'f \<Rightarrow> nat)" and L: "bellpepper_sound L" "bellpepper_inputs L" and H: "gadget_sound H" "gadget_keeps H"
    and w: "assignment w" and n: "total_blocks layout < modulus"
  shows "sound_at w i (synthesize_step L G H repr shared layout step) (Suc i)
    (\<lambda>_. \<exists>j < total_blocks layout. w (Input i) = of_nat j \<and> mc_link w shared layout j)"
proof -
  let ?n = "total_blocks layout"
  have keeps: "keeps (sha256_compression_function H b st)" for b st using H(2) by (simp add: gadget_keeps_def)
  have rest: "sound w (sbind (read_packs L repr sel shared ''block pack '' ''block bits '' ''M'' (\<lambda>k j. Some (block_pack ?n j k)) (\<lambda>_ _. None) PACKS_PER_BLOCK) (\<lambda>block_bits.
     sbind (read_packs L repr sel shared ''state pack '' ''state bits '' ''Hin''
         (\<lambda>k j. if is_first_of_message layout j then None else Some (digest_pack ?n (j - 1) k))
         (\<lambda>k j. if is_first_of_message layout j then Some (iv_pack k) else None) PACKS_PER_DIGEST) (\<lambda>state_bits.
     sbind (ns ''compress'' (sha256_compression_function H block_bits (map (from_bits_be H) (chunks 32 state_bits)))) (\<lambda>out.
     sfor (compare_digest L sel shared ?n (concat (map (into_bits_be H) out))) [0..<PACKS_PER_DIGEST]))))
    (\<lambda>_. mc_link w shared layout j)" if sel: "one_hot w sel j" for sel j
  proof (rule sound_sbind [OF sound_read_packs [OF L(1) w sel]], rule sound_sbind [OF sound_read_packs [OF L(1) w sel]], elim conjE)
    fix block state assume block: "length block = PACKS_PER_BLOCK * 128" "list_all (is_bit w) block"
        "\<forall>k < PACKS_PER_BLOCK. entry_ev w shared (entry_of (\<lambda>j. Some (block_pack ?n j k)) (\<lambda>_. None) j) = pack_at (bits_bytes (bvals w block)) k"
      and state: "length state = PACKS_PER_DIGEST * 128" "list_all (is_bit w) state" "\<forall>k < PACKS_PER_DIGEST. entry_ev w shared (entry_of
        (\<lambda>j. if is_first_of_message layout j then None else Some (digest_pack ?n (j - 1) k))
        (\<lambda>j. if is_first_of_message layout j then Some (iv_pack k) else None) j) = pack_at (bits_bytes (bvals w state)) k"
    have ok: "result_ok H w (map (from_bits_be H) (chunks 32 state)) (bits_bytes (bvals w state))"
      by (rule result_from_bits) (use H(1) state in \<open>auto simp: gadget_sound_def\<close>)
    have block': "length block = 512" "\<forall>k < 4. w (num_var (shared ! block_pack ?n j k)) = pack_at (bits_bytes (bvals w block)) k"
      using block by (auto simp: entry_of_def)
    show "sound w (sbind (ns ''compress'' (sha256_compression_function H block (map (from_bits_be H) (chunks 32 state)))) (\<lambda>out.
       sfor (compare_digest L sel shared ?n (concat (map (into_bits_be H) out))) [0..<PACKS_PER_DIGEST])) (\<lambda>_. mc_link w shared layout j)"
    proof (rule sound_sbind [OF sound_ns [OF sound_gadget [OF H(1) w block'(1) block(2) ok]]])
      fix out assume "result_ok H w out (state_after (bits_bytes (bvals w state)) (bits_bytes (bvals w block)))"
      note out = result_bits [OF this]
      show "sound w (sfor (compare_digest L sel shared ?n (concat (map (into_bits_be H) out))) [0..<PACKS_PER_DIGEST]) (\<lambda>_. mc_link w shared layout j)"
        by (rule sound_mono [OF sound_sfor [OF sound_compare_digest [OF w sel out(1,2)]]])
          (use link_of_reads [OF repr block' _ _] state out(3) in auto)
    qed
  qed
  show ?thesis
    unfolding synthesize_step_def Let_def
  proof (rule sound_at_sbind [OF sound_at_keeps [OF sound_ns [OF sound_mc_one_hot [OF repr L(1) w n]]]], (intro keeps_intros L), elim conjE exE)
    fix sel j assume sel: "length sel = ?n" "one_hot w sel j"
    have "j < ?n" using sel by (simp add: one_hot_def)
    then show "sound_at w i (sbind (bind_index L G sel step) (\<lambda>_.
       sbind (read_packs L repr sel shared ''block pack '' ''block bits '' ''M'' (\<lambda>k j. Some (block_pack ?n j k)) (\<lambda>_ _. None) PACKS_PER_BLOCK) (\<lambda>block_bits.
       sbind (read_packs L repr sel shared ''state pack '' ''state bits '' ''Hin''
         (\<lambda>k j. if is_first_of_message layout j then None else Some (digest_pack ?n (j - 1) k))
         (\<lambda>k j. if is_first_of_message layout j then Some (iv_pack k) else None) PACKS_PER_DIGEST) (\<lambda>state_bits.
       sbind (ns ''compress'' (sha256_compression_function H block_bits (map (from_bits_be H) (chunks 32 state_bits)))) (\<lambda>out.
       sfor (compare_digest L sel shared ?n (concat (map (into_bits_be H) out))) [0..<PACKS_PER_DIGEST]))))) (Suc i)
      (\<lambda>_. \<exists>j < ?n. w (Input i) = of_nat j \<and> mc_link w shared layout j)"
      by (intro sound_at_sbind [OF bind_index_sound [OF w L(2) sel(2)]] sound_at_keeps sound_mono [OF rest [OF sel(2)]] keeps_intros keeps L) auto
  qed
qed

end

section \<open>From links to the digest\<close>

lemma starts_at_iff: "starts_at ms start b \<longleftrightarrow> (\<exists>m < length ms. b = start + sum_list (take m ms))"
proof (induction ms arbitrary: start)
  case (Cons n ms)
  have "(\<exists>m < length (n # ms). b = start + sum_list (take m (n # ms))) \<longleftrightarrow> b = start \<or> (\<exists>m < length ms. b = start + n + sum_list (take m ms))"
    by (auto simp: less_Suc_eq_0_disj)
  then show ?case using Cons by simp
qed simp

lemma sum_take_mono: "m \<le> m' \<Longrightarrow> sum_list (take m ms) \<le> sum_list (take m' (ms :: nat list))"
proof -
  assume "m \<le> m'"
  then have "take m' ms = take m ms @ take (m' - m) (drop m ms)" by (metis le_add_diff_inverse take_add)
  then show ?thesis by simp
qed

lemma first_of_message:
  assumes "m < length (message_blocks layout)" "i < message_blocks layout ! m"
  shows "is_first_of_message layout (message_start layout m + i) \<longleftrightarrow> i = 0"
proof -
  let ?ms = "message_blocks layout"
  have ne: "message_start layout m + i \<noteq> sum_list (take m' ?ms)" if "0 < i" for m'
  proof (cases "m' \<le> m")
    case True
    then show ?thesis using sum_take_mono [OF True, of ?ms] that by (simp add: message_start_def)
  next
    case False
    then have "sum_list (take (Suc m) ?ms) \<le> sum_list (take m' ?ms)" by (intro sum_take_mono) simp
    then show ?thesis using assms by (simp add: message_start_def take_Suc_conv_app_nth)
  qed
  show ?thesis
  proof (cases "i = 0")
    case True
    then show ?thesis using assms(1) by (auto simp: is_first_of_message_def starts_at_iff message_start_def)
  next
    case False
    then show ?thesis using ne by (simp add: is_first_of_message_def starts_at_iff)
  qed
qed

lemma digests_chain:
  assumes repr: "scalar_repr (repr :: 'f::field \<Rightarrow> nat)" and m: "m < length (message_blocks layout)"
    and links: "\<And>i. i < message_blocks layout ! m \<Longrightarrow> mc_link w shared layout (message_start layout m + i)"
    and B: "length B = 64 * (message_blocks layout ! m)"
      "\<And>b k. b < message_blocks layout ! m \<Longrightarrow> k < 4 \<Longrightarrow>
        w (num_var (shared ! block_pack (total_blocks layout) (message_start layout m + b) k)) = (pack_at B (4 * b + k) :: 'f)"
    and i: "i < message_blocks layout ! m"
  shows "\<forall>k < 2. w (num_var (shared ! digest_pack (total_blocks layout) (message_start layout m + i) k)) = (pack_at (chain iv_bytes (take (64 * Suc i) B)) k :: 'f)"
  using i
proof (induction i)
  have split: "take (64 * Suc i) B = take (64 * i) B @ take 64 (drop (64 * i) B)" for i
    using take_add [of "64 * i" 64 B] by (simp add: add.commute)
  have snoc: "chain iv_bytes (take (64 * Suc i) B) = state_after (chain iv_bytes (take (64 * i) B)) (take 64 (drop (64 * i) B))"
    if "i < message_blocks layout ! m" for i
    unfolding split by (rule chain_snoc [of _ i]) (use that B(1) in auto)
  have block: "b = take 64 (drop (64 * i) B)"
    if "i < message_blocks layout ! m" "length b = 64"
      "\<forall>k < 4. w (num_var (shared ! block_pack (total_blocks layout) (message_start layout m + i) k)) = pack_at b k" for i b
  proof (rule packs_unique [OF repr, of _ 4])
    have "take 16 (drop (16 * k) (take 64 (drop (64 * i) B))) = take 16 (drop (16 * (4 * i + k)) B)" if "k < 4" for k
      using that by (simp add: drop_take min_def algebra_simps)
    then show "\<forall>k < 4. (pack_at b k :: 'f) = pack_at (take 64 (drop (64 * i) B)) k" using that B(2) by simp
  qed (use that B(1) in auto)
  {
    case 0
    then obtain s b where "s = iv_bytes" "length b = 64"
      "\<forall>k < 4. w (num_var (shared ! block_pack (total_blocks layout) (message_start layout m + 0) k)) = pack_at b k"
      "\<forall>k < 2. w (num_var (shared ! digest_pack (total_blocks layout) (message_start layout m + 0) k)) = pack_at (state_after s b) k"
      using links [of 0] first_of_message [OF m, of 0] by (auto simp: mc_link_def)
    then show ?case using block [of 0 b] snoc [of 0] 0 by (simp add: chain_Nil)
  next
    case (Suc i)
    then have i: "i < message_blocks layout ! m" by simp
    obtain s b where s: "length s = 32" "length b = 64"
      "\<forall>k < 4. w (num_var (shared ! block_pack (total_blocks layout) (message_start layout m + Suc i) k)) = pack_at b k"
      "\<forall>k < 2. w (num_var (shared ! digest_pack (total_blocks layout) (message_start layout m + i) k)) = pack_at s k"
      "\<forall>k < 2. w (num_var (shared ! digest_pack (total_blocks layout) (message_start layout m + Suc i) k)) = pack_at (state_after s b) k"
      using links [of "Suc i"] first_of_message [OF m, of "Suc i"] Suc.prems by (auto simp: mc_link_def)
    have "s = chain iv_bytes (take (64 * Suc i) B)"
      by (rule packs_unique [OF repr, of _ 2]) (use s Suc.IH [OF i] length_chain [of "take (64 * Suc i) B" "Suc i"] i B(1) in auto)
    then show ?case using block [OF Suc.prems s(2,3)] snoc [OF Suc.prems] s(5) by simp
  }
qed

lemma sound_bind_message:
  assumes w: "assignment w" and bits: "list_all (is_bit w) bs"
  shows "sound w (bind_message_to_shared shared layout m bs) (\<lambda>_. m < length (message_blocks layout) \<and> length bs = message_blocks layout ! m * 512 \<and>
    (\<forall>b < message_blocks layout ! m. \<forall>k < 4.
      w (num_var (shared ! block_pack (total_blocks layout) (message_start layout m + b) k)) = pack_at (bits_bytes (bvals w bs)) (4 * b + k)))"
proof (cases "m < length (message_blocks layout) \<and> length bs = message_blocks layout ! m * 512")
  case True
  let ?n = "message_blocks layout ! m"
  have pack: "ev w (recompose (take 128 (drop (b * 512 + k * 128) bs))) = pack_at (bits_bytes (bvals w bs)) (4 * b + k)" if "b < ?n" "k < 4" for b k
  proof -
    let ?c = "take 128 (drop (b * 512 + k * 128) bs)"
    have "b * 512 + 512 \<le> ?n * 512" using that(1) by simp
    then have c: "length ?c = 128" "list_all (is_bit w) ?c" using True that bits by (auto simp: list_all_iff dest: in_set_takeD in_set_dropD)
    have "take 16 (drop (16 * (4 * b + k)) (bits_bytes (bvals w bs))) = bits_bytes (bvals w ?c)"
      using bits_bytes_slice [of "bvals w bs" "64 * ?n" 16 "16 * (4 * b + k)"] True by (simp add: take_map drop_map algebra_simps)
    then show ?thesis using ev_recompose [OF c(2)] be_val_bits_bytes [of "bvals w ?c" 16] c(1) by (simp add: from_be_def)
  qed
  have nn: "\<not> length bs \<noteq> ?n * 512" using True by simp
  show ?thesis
    unfolding bind_message_to_shared_def Let_def if_P [OF conjunct1 [OF True]] if_not_P [OF nn]
    apply (rule sound_mono [OF sound_sfor [OF sound_sfor [OF sound_sbind [OF sound_True sound_enforce]]]])
    using True pack w by (simp add: assignment_def one_def mult.assoc)
qed (auto simp: bind_message_to_shared_def Let_def intro: sound_sfail)

lemma sound_select_digest:
  assumes repr: "scalar_repr (repr :: 'f::field \<Rightarrow> nat)" and L: "bellpepper_sound L" and w: "assignment (w :: var \<Rightarrow> 'f)"
    and len: "one_hot w len_sel l" "terminal_block_for_len l < modulus" and n: "message_blocks layout ! m < modulus"
  shows "sound w (select_digest L repr shared layout m t (Some len_sel)) (\<lambda>d. length d = 256 \<and> list_all (is_bit w) d \<and> terminal_block_for_len l \<le> message_blocks layout ! m \<and>
    (\<forall>k < 2. w (num_var (shared ! digest_pack (total_blocks layout) (message_start layout m + (terminal_block_for_len l - 1)) k)) = pack_at (bits_bytes (bvals w d)) k))"
    (is "sound w _ ?Q")
proof (cases "m < length (message_blocks layout) \<and> t < message_blocks layout ! m")
  case True
  then have t: "m < length (message_blocks layout)" "\<not> message_blocks layout ! m \<le> t" by auto
  show ?thesis
    unfolding select_digest_def Let_def if_P [OF t(1)] if_not_P [OF t(2)] option.case
  proof (rule sound_sbind [OF sound_ns [OF sound_mc_one_hot [OF repr L w n]]], rule sound_sbind [OF sound_enforce], elim conjE exE)
    fix sel j assume sel: "length sel = message_blocks layout ! m" "one_hot w sel j"
      and eq: "ev w (weighted_sum (\<lambda>j. j) sel @ map (\<lambda>(v, d). (v, - d)) (weighted_sum (\<lambda>n. terminal_block_for_len n - 1) len_sel)) * ev w [(one, 1)] = ev w []"
    have j: "j < message_blocks layout ! m" using sel by (simp add: one_hot_def)
    have "of_nat j = (of_nat (terminal_block_for_len l - 1) :: 'f)"
      using eq w by (simp add: ev_weighted_sum [OF sel(2)] ev_weighted_sum [OF len(1)] assignment_def one_def)
    then have j': "j = terminal_block_for_len l - 1" using j n len(2) by (intro scalar_of_nat_inj [OF repr]) auto
    show "sound w (read_packs L repr sel shared ''selected digest pack '' ''selected digest bits '' ''D''
        (\<lambda>k j. Some (digest_pack (total_blocks layout) (message_start layout m + j) k)) (\<lambda>_ _. None) PACKS_PER_DIGEST) ?Q"
      by (rule sound_mono [OF sound_read_packs [OF L w sel(2)]]) (use j j' in \<open>auto simp: entry_of_def Suc_leI terminal_block_pos\<close>)
  qed
qed (auto simp: select_digest_def Let_def intro: sound_sfail)

section \<open>Properties\<close>

text \<open>
  C16. One step. Whatever index the prover supplied, if the rules of a step hold, its public value is an index within the layout
  and the shared digest at that index is the SHA-256 compression of the shared block there from the state before it,
  which is the initial value at the start of a message.
\<close>

theorem mc_step_links:
  assumes "scalar_repr (repr :: 'f::field \<Rightarrow> nat)" "bellpepper_sound L" "bellpepper_inputs L" "boolean_gates G" "gadget_sound H" "gadget_keeps H"
    and "assignment (w :: var \<Rightarrow> 'f)" "total_blocks layout < modulus"
  shows "sound_at w i (synthesize_step L G H repr shared layout step) (Suc i)
    (\<lambda>_. \<exists>j < total_blocks layout. w (Input i) = of_nat j \<and> mc_link w shared layout j)"
  by (rule boolean_gates.synthesize_step_sound [OF assms(4,1-3,5-)])

definition all_ones :: "var \<Rightarrow> rat" where
  "all_ones v = 1"

theorem mc_step_links_witness:
  "sound_at all_ones 1 (synthesize_step plain_bellpepper plain_gates table_gadget rat_repr [] \<lparr>message_blocks = [2, 1]\<rparr> 1) (Suc 1)
    (\<lambda>_. \<exists>j < total_blocks \<lparr>message_blocks = [2, 1]\<rparr>. all_ones (Input 1) = of_nat j \<and> mc_link all_ones [] \<lparr>message_blocks = [2, 1]\<rparr> j)"
  by (rule mc_step_links [OF scalar_repr_rat plain_bellpepper_sound plain_bellpepper_inputs plain.boolean_gates_axioms table_gadget_sound table_gadget_keeps])
    (simp_all add: assignment_def all_ones_def total_blocks_def modulus_def)

text \<open>
  C15. The hash across circuits. If the steps have linked every position of the shared vector, then padding a message of private
  length, tying it to the shared blocks and selecting the digest at the padding's boundary returns the SHA-256 digest of
  the first \<open>n\<close> bytes of the message, for the one length \<open>n\<close> that the padding's selector names.
\<close>

theorem mc_digest_is_sha256:
  assumes "scalar_repr (repr :: 'f::field \<Rightarrow> nat)" "bellpepper_sound L" "boolean_gates G" "assignment (w :: var \<Rightarrow> 'f)"
    and "list_all (is_bit w) raw" "Suc max_bytes < modulus" "message_blocks layout ! m < modulus" "max_bytes + 9 \<le> message_blocks layout ! m * 64"
    and "\<forall>j < total_blocks layout. mc_link w shared layout j"
  shows "sound w (sbind (padded_buffer_bits L G raw real_len max_bytes (message_blocks layout ! m)) (\<lambda>(buf, _, sel).
      sbind (bind_message_to_shared shared layout m buf) (\<lambda>_. select_digest L repr shared layout m t (Some sel))))
    (\<lambda>d. \<exists>n \<le> max_bytes. length d = 256 \<and> list_all (is_bit w) d \<and> bits_bytes (bvals w d) = native_digest (take n (bits_bytes (bvals w raw))))"
proof (rule sound_sbind [OF boolean_gates.padded_buffer_bits_sound [OF assms(3,1,2,4-6)]], elim exE, clarify)
  let ?N = "message_blocks layout ! m"
  fix buf act sel n assume ok: "padded_ok w raw max_bytes ?N n (buf, act, sel)"
  let ?B = "bits_bytes (bvals w buf)" and ?m = "take n (bits_bytes (bvals w raw))" and ?t = "terminal_block_for_len n"
  let ?D = "\<lambda>d. \<exists>n \<le> max_bytes. length d = 256 \<and> list_all (is_bit w) d \<and> bits_bytes (bvals w d) = native_digest (take n (bits_bytes (bvals w raw)))"
  show "sound w (sbind (bind_message_to_shared shared layout m buf) (\<lambda>_. select_digest L repr shared layout m t (Some sel))) ?D"
  proof (cases "?N * 64 < 2 ^ 64")
    case False
    have "length buf < ?N * 512" using ok False mod_less_divisor [of "2 ^ 64" "?N * 64"] by (auto simp: padded_ok_def)
    then show ?thesis by (intro sound_sbind [OF sound_bind_message [OF assms(4)]]) (use ok in \<open>auto simp: padded_ok_def\<close>)
  next
    case True
    have small: "n * 8 + 65 < 2 ^ 64" using ok by (auto simp: padded_ok_def)
    have wrap: "buffer_len ?N = ?N * 64" using True by simp
    have p: "n \<le> max_bytes" "one_hot w sel n" "length buf = ?N * 512" "list_all (is_bit w) buf" "?B = map (padded_byte ?m) [0..<?N * 64]" "length raw = max_bytes * 8"
      using ok unfolding padded_ok_def wrap by auto
    have len: "length ?m = n" using length_bits_bytes [of "bvals w raw" max_bytes] p(1,6) by (simp add: min_def)
    have t: "0 < ?t" "?t \<le> ?N" "?t < modulus" using terminal_block_fits [OF p(1) assms(8) small] assms(7) terminal_block_pos by simp_all
    have pad: "take (64 * Suc (?t - 1)) ?B = pad ?m" using padded_front [OF len t(2) small] t(1) by (simp only: p(5) Suc_diff_1)
    have B: "length ?B = 64 * ?N" by (simp add: p(5))
    show ?thesis
    proof (rule sound_sbind [OF sound_bind_message [OF assms(4) p(4)]], rule sound_mono [OF sound_select_digest [OF assms(1,2,4) p(2) t(3) assms(7)]], elim conjE)
      fix d assume m: "m < length (message_blocks layout)"
        and blocks: "\<forall>b < ?N. \<forall>k < 4. w (num_var (shared ! block_pack (total_blocks layout) (message_start layout m + b) k)) = pack_at ?B (4 * b + k)"
        and d: "length d = 256" "list_all (is_bit w) d"
          "\<forall>k < 2. w (num_var (shared ! digest_pack (total_blocks layout) (message_start layout m + (?t - 1)) k)) = pack_at (bits_bytes (bvals w d)) k"
      have "message_start layout m + ?N \<le> total_blocks layout"
        using sum_take_mono [of "Suc m" "length (message_blocks layout)" "message_blocks layout"] m
        by (simp add: message_start_def total_blocks_def take_Suc_conv_app_nth)
      then have links: "mc_link w shared layout (message_start layout m + i)" if "i < ?N" for i using assms(9) that by simp
      have dig: "\<forall>k < 2. w (num_var (shared ! digest_pack (total_blocks layout) (message_start layout m + (?t - 1)) k)) = pack_at (chain iv_bytes (pad ?m)) k"
        using digests_chain [OF assms(1) m links B, of "?t - 1"] blocks t pad by auto
      have "bits_bytes (bvals w d) = native_digest ?m"
        by (rule packs_unique [OF assms(1), of _ 2])
          (use d dig length_bits_bytes [of "bvals w d" 32] in \<open>auto simp: chain_pad native.length_digest\<close>)
      then show "?D d" using d p(1) by blast
    qed
  qed
qed

text \<open>A vector of one block of zeros and its digest.\<close>

definition zero_shared :: "rat AllocatedNum list" where
  "zero_shared = map (\<lambda>k. \<lparr>num_var = Aux k, num_value = None\<rparr>) [0..<6]"

fun zero_values :: "var \<Rightarrow> rat" where
  "zero_values (Input i) = 1"
| "zero_values (Aux k) = (if k < 4 then pack_at (replicate 64 0) k else pack_at (state_after iv_bytes (replicate 64 0)) (k - 4))"

lemma zero_linked: "\<forall>j < total_blocks \<lparr>message_blocks = [1]\<rparr>. mc_link zero_values zero_shared \<lparr>message_blocks = [1]\<rparr> j"
proof -
  have "mc_link zero_values zero_shared \<lparr>message_blocks = [1]\<rparr> 0"
    unfolding mc_link_def
    by (rule exI [of _ iv_bytes], rule exI [of _ "replicate 64 0"])
      (auto simp: total_blocks_def is_first_of_message_def block_pack_def digest_pack_def zero_shared_def)
  then show ?thesis by (simp add: total_blocks_def)
qed

theorem mc_digest_is_sha256_witness:
  "sound zero_values (sbind (padded_buffer_bits plain_bellpepper plain_gates seven_bits 1 1 (message_blocks \<lparr>message_blocks = [1]\<rparr> ! 0)) (\<lambda>(buf, _, sel).
      sbind (bind_message_to_shared zero_shared \<lparr>message_blocks = [1]\<rparr> 0 buf) (\<lambda>_.
      select_digest plain_bellpepper rat_repr zero_shared \<lparr>message_blocks = [1]\<rparr> 0 0 (Some sel))))
    (\<lambda>d. \<exists>n \<le> 1. length d = 256 \<and> list_all (is_bit zero_values) d \<and>
      bits_bytes (bvals zero_values d) = native_digest (take n (bits_bytes (bvals zero_values seven_bits))))"
  by (rule mc_digest_is_sha256 [OF scalar_repr_rat plain_bellpepper_sound plain.boolean_gates_axioms _ _ _ _ _ zero_linked])
    (simp_all add: assignment_def seven_bits_def list_all_iff modulus_def)

end
