(* ===== verification/Nonnative.thy ===== *)
theory Nonnative
  imports Gates "HOL-Library.Signed_Division"
begin

text \<open>
  Numbers and bit vectors in the rules (\<open>nonnative/util.rs\<close>), and what the integers below mean: \<open>digits b ds\<close> is the
  number whose digits to the base \<open>b\<close> are \<open>ds\<close>, least first. \<open>BigInt\<close> is the type \<open>int\<close>. \<open>repr\<close> is the integer of a
  field element, as in \<open>Scalar\<close>. Values that the code fills in while it generates a witness are computed in every mode;
  the shape builder never asks for them.
\<close>

section \<open>Digits\<close>

fun digits :: "nat \<Rightarrow> nat list \<Rightarrow> nat" where
  "digits b [] = 0"
| "digits b (d # ds) = d + b * digits b ds"

lemma digits_append: "digits b (xs @ ys) = digits b xs + b ^ length xs * digits b ys"
  by (induction xs) (simp_all add: algebra_simps)

lemma digits_less: "list_all (\<lambda>d. d < b) ds \<Longrightarrow> digits b ds < b ^ length ds"
proof (induction ds)
  case (Cons d ds)
  then have "digits b ds + 1 \<le> b ^ length ds" "d < b" by auto
  then have "b * (digits b ds + 1) \<le> b * b ^ length ds" by (intro mult_le_mono2)
  then show ?case using \<open>d < b\<close> by (simp add: algebra_simps)
qed simp

lemma digits_zero: "list_all (\<lambda>d. d = 0) ds \<Longrightarrow> digits b ds = 0"
  by (induction ds) auto

lemma digits_replicate_zero [simp]: "digits b (replicate n 0) = 0"
  by (induction n) auto

text \<open>A sum with a factor that a loop multiplies by \<open>x\<close> after each term.\<close>

definition scaled :: "'f::field \<Rightarrow> 'f lincomb \<Rightarrow> 'f lincomb" where
  "scaled c l = map (\<lambda>(v, d). (v, c * d)) l"

definition negated_lc :: "'f::field lincomb \<Rightarrow> 'f lincomb" where
  "negated_lc l = map (\<lambda>(v, d). (v, - d)) l"

fun powers_lc :: "'f \<Rightarrow> 'f \<Rightarrow> 'f::field lincomb list \<Rightarrow> 'f lincomb" where
  "powers_lc f x [] = []"
| "powers_lc f x (l # ls) = scaled f l @ powers_lc (f * x) x ls"

fun horner :: "'f::comm_ring_1 \<Rightarrow> 'f list \<Rightarrow> 'f" where
  "horner x [] = 0"
| "horner x (a # as) = a + x * horner x as"

lemma ev_scaled [simp]: "ev w (scaled c l) = c * ev w l" "ev w (negated_lc l) = - ev w l"
  by (simp_all add: scaled_def negated_lc_def)

lemma ev_powers_lc [simp]: "ev w (powers_lc f x ls) = f * horner x (map (ev w) ls)"
  by (induction ls arbitrary: f) (simp_all add: algebra_simps)

lemma horner_digits: "horner (of_nat b) (map of_nat ds) = (of_nat (digits b ds) :: 'f::field)"
  by (induction ds) simp_all

lemma horner_append: "horner x (as @ bs) = horner x as + x ^ length as * horner x bs"
  by (induction as) (simp_all add: algebra_simps)

section \<open>Bits and numbers\<close>

definition get_bit :: "('f::field \<Rightarrow> nat) \<Rightarrow> 'f \<Rightarrow> nat \<Rightarrow> bool option" where
  "get_bit repr x i = (if NUM_BITS \<le> i then None else Some (bit (repr x) i))"

record 'f Bitvector =
  bv_bits :: "'f lincomb list"
  bv_values :: "bool list option"
  bv_allocations :: "'f lincomb list"

definition Bit_alloc :: "bool option \<Rightarrow> ('f lincomb, 'f::field) synth" where
  "Bit_alloc v =
     sbind (alloc (rbind (ok_or AssignmentMissing v) (\<lambda>b. Inr (if b then 1 else 0)))) (\<lambda>x.
     sbind (enforce ''boolean constraint'' [(one, 1), (x, -1)] [(x, 1)] []) (\<lambda>_.
     sret [(x, 1)]))"

record 'f Num =
  num_lc :: "'f lincomb"
  num_val :: "'f option"

definition Num_alloc :: "synth_error + 'f \<Rightarrow> ('f Num, 'f::field) synth" where
  "Num_alloc v = sbind (alloc v) (\<lambda>x. sret \<lparr>num_lc = [(x, 1)], num_val = (case v of Inl _ \<Rightarrow> None | Inr y \<Rightarrow> Some y)\<rparr>)"

definition fits_in_bits :: "('f::field \<Rightarrow> nat) \<Rightarrow> 'f Num \<Rightarrow> nat \<Rightarrow> (unit, 'f) synth" where
  "fits_in_bits repr n n_bits =
     sbind (smap (\<lambda>i. alloc (rbind (ok_or AssignmentMissing (num_val n)) (\<lambda>v.
         rbind (ok_or AssignmentMissing (get_bit repr v i)) (\<lambda>b. Inr (if b then 1 else 0))))) [1..<n_bits]) (\<lambda>bs.
     sbind (sfor (\<lambda>(i, v). enforce (show_nat i @ '' is bit'') [(v, 1)] [(one, 1), (v, -1)] []) (enumerate 0 bs)) (\<lambda>_.
     let high = powers_lc 2 2 (map (\<lambda>v. [(v, 1)]) bs) in
     enforce ''last bit'' (num_lc n @ negated_lc high) ((one, 1) # negated_lc (num_lc n) @ high) []))"

definition num_is_equal :: "'f::field Num \<Rightarrow> 'f Bitvector \<Rightarrow> (unit, 'f) synth" where
  "num_is_equal n other =
     enforce ''sum'' (num_lc n @ negated_lc (powers_lc 1 2 (bv_allocations other))) [(one, 1)] []"

definition num_decompose :: "('f::field \<Rightarrow> nat) \<Rightarrow> 'f Num \<Rightarrow> nat \<Rightarrow> ('f Bitvector, 'f) synth" where
  "num_decompose repr n n_bits =
     sbind (of_result (case num_val n of None \<Rightarrow> Inr None
       | Some v \<Rightarrow> if n_bits \<le> NUM_BITS then Inr (Some (map (bit (repr v)) [0..<n_bits])) else Inl Panicked)) (\<lambda>vals.
     sbind (smap (\<lambda>i. ns (''bit'' @ show_nat i) (Bit_alloc (map_option (\<lambda>vs. vs ! i) vals))) [0..<n_bits]) (\<lambda>allocations.
     sbind (enforce ''sum'' (num_lc n @ negated_lc (powers_lc 1 2 allocations)) [(one, 1)] []) (\<lambda>_.
     sret \<lparr>bv_bits = allocations, bv_values = vals, bv_allocations = allocations\<rparr>)))"

definition as_allocated_num :: "'f bellpepper \<Rightarrow> 'f::field Num \<Rightarrow> ('f AllocatedNum, 'f) synth" where
  "as_allocated_num L n =
     sbind (ns ''alloc'' (alloc_num L (ok_or AssignmentMissing (num_val n)))) (\<lambda>new.
     sbind (enforce ''eq'' [] [] ((num_var new, 1) # negated_lc (num_lc n))) (\<lambda>_. sret new))"

definition num_from :: "'f::field AllocatedNum \<Rightarrow> 'f Num" where
  "num_from a = \<lparr>num_lc = [(num_var a, 1)], num_val = num_value a\<rparr>"

definition f_to_nat :: "('f \<Rightarrow> nat) \<Rightarrow> 'f \<Rightarrow> int" where
  "f_to_nat repr f = int (repr f)"

text \<open>\<open>from_str_vartime\<close> of the decimal text: the congruent element, and \<open>None\<close> for a sign.\<close>

definition nat_to_f :: "int \<Rightarrow> 'f::field option" where
  "nat_to_f n = (if n < 0 then None else Some (of_int n))"

section \<open>What the rules force\<close>

definition bit_lc :: "(var \<Rightarrow> 'f::field) \<Rightarrow> 'f lincomb \<Rightarrow> bool" where
  "bit_lc w l \<longleftrightarrow> ev w l = 0 \<or> ev w l = 1"

definition lc_bits :: "(var \<Rightarrow> 'f::field) \<Rightarrow> 'f lincomb list \<Rightarrow> nat list" where
  "lc_bits w ls = map (\<lambda>l. if ev w l = 0 then 0 else 1) ls"

lemma sound_Bit_alloc: "assignment w \<Longrightarrow> sound w (Bit_alloc v) (bit_lc w)"
  unfolding Bit_alloc_def
  by (rule sound_sbind [OF sound_True], rule sound_sbind [OF sound_enforce], rule sound_sret)
    (auto simp: bit_lc_def assignment_def one_def)

lemma horner_bits: "list_all (bit_lc w) ls \<Longrightarrow> horner 2 (map (ev w) ls) = of_nat (digits 2 (lc_bits w ls))"
proof -
  assume "list_all (bit_lc w) ls"
  then have "map (ev w) ls = map of_nat (lc_bits w ls)" by (auto simp: lc_bits_def bit_lc_def list_all_iff)
  then show ?thesis using horner_digits [of 2 "lc_bits w ls", where 'f = 'a] by simp
qed

lemma lc_bits_less: "digits 2 (lc_bits w ls) < 2 ^ length ls"
proof -
  have "list_all (\<lambda>d. d < 2) (lc_bits w ls)" by (auto simp: lc_bits_def list_all_iff)
  then show ?thesis using digits_less [of 2 "lc_bits w ls"] by (simp add: lc_bits_def)
qed

lemma sound_fits_in_bits:
  assumes w: "assignment (w :: var \<Rightarrow> 'f::field)" and n: "0 < n_bits"
  shows "sound w (fits_in_bits repr n n_bits) (\<lambda>_. \<exists>m < 2 ^ n_bits. ev w (num_lc n) = of_nat m)"
  unfolding fits_in_bits_def Let_def
proof (rule sound_sbind [OF sound_smap [where R = "\<lambda>_ _. True"]], rule sound_True,
    rule sound_sbind [OF sound_sfor [where R = "\<lambda>(i, v). w v = 0 \<or> w v = 1"]])
  fix bs x
  show "sound w (case x of (i, v) \<Rightarrow> enforce (show_nat i @ '' is bit'') [(v, 1)] [(one, 1), (v, - 1)] []) (\<lambda>_. case x of (i, v) \<Rightarrow> w v = 0 \<or> w v = 1)"
    using w by (cases x) (auto intro!: sound_mono [OF sound_enforce] simp: assignment_def one_def)
  assume len: "list_all2 (\<lambda>_ _. True) [1..<n_bits] bs" and "\<forall>x \<in> set (enumerate 0 bs). case x of (i, v) \<Rightarrow> w v = 0 \<or> w v = 1"
  then have "\<forall>i < length bs. w (bs ! i) = 0 \<or> w (bs ! i) = 1" by (fastforce simp: in_set_enumerate_eq)
  let ?ls = "map (\<lambda>v. [(v, 1 :: 'f)]) bs" and ?high = "powers_lc 2 2 (map (\<lambda>v. [(v, 1 :: 'f)]) bs)"
  have bits: "list_all (bit_lc w) ?ls" using \<open>\<forall>i < length bs. _\<close> by (auto simp: list_all_length bit_lc_def)
  let ?k = "digits 2 (lc_bits w ?ls)"
  have k: "Suc (2 * ?k) < 2 ^ n_bits"
    using lc_bits_less [of w ?ls] list_all2_lengthD [OF len] n by (cases n_bits) (auto simp del: upt_Suc)
  have high: "ev w ?high = of_nat (2 * ?k)" using horner_bits [OF bits] by simp
  show "sound w (enforce ''last bit'' (num_lc n @ negated_lc ?high) ((one, 1) # negated_lc (num_lc n) @ ?high) [])
    (\<lambda>_. \<exists>m < 2 ^ n_bits. ev w (num_lc n) = of_nat m)"
  proof (rule sound_mono [OF sound_enforce])
    assume "ev w (num_lc n @ negated_lc ?high) * ev w ((one, 1) # negated_lc (num_lc n) @ ?high) = ev w []"
    then have "ev w (num_lc n) = of_nat (2 * ?k) \<or> ev w (num_lc n) = of_nat (Suc (2 * ?k))"
      using w by (simp add: high assignment_def one_def del: ev_powers_lc) algebra
    then show "\<exists>m < 2 ^ n_bits. ev w (num_lc n) = of_nat m" using k by (meson Suc_lessD)
  qed
qed

definition bitvector_ok :: "(var \<Rightarrow> 'f::field) \<Rightarrow> nat \<Rightarrow> 'f Bitvector \<Rightarrow> bool" where
  "bitvector_ok w n bv \<longleftrightarrow> length (bv_allocations bv) = n \<and> list_all (bit_lc w) (bv_allocations bv)"

definition bitvector_nat :: "(var \<Rightarrow> 'f::field) \<Rightarrow> 'f Bitvector \<Rightarrow> nat" where
  "bitvector_nat w bv = digits 2 (lc_bits w (bv_allocations bv))"

lemma sound_num_is_equal:
  assumes "assignment w" "bitvector_ok w n bv"
  shows "sound w (num_is_equal m bv) (\<lambda>_. ev w (num_lc m) = of_nat (bitvector_nat w bv))"
  unfolding num_is_equal_def
  by (rule sound_mono [OF sound_enforce])
    (use assms horner_bits [of w "bv_allocations bv"] in \<open>auto simp: bitvector_ok_def bitvector_nat_def assignment_def one_def\<close>)

lemma sound_num_decompose:
  assumes w: "assignment w"
  shows "sound w (num_decompose repr n k) (\<lambda>bv. bitvector_ok w k bv \<and> ev w (num_lc n) = of_nat (bitvector_nat w bv) \<and> bitvector_nat w bv < 2 ^ k)"
  unfolding num_decompose_def
proof (rule sound_sbind [OF sound_True], rule sound_sbind [OF sound_smap [where R = "\<lambda>_. bit_lc w"]], rule sound_ns, rule sound_Bit_alloc [OF w])
  fix vals as assume "list_all2 (\<lambda>_. bit_lc w) [0..<k] as"
  then have as: "length as = k" "list_all (bit_lc w) as" by (auto simp: list_all2_conv_all_nth list_all_length)
  then show "sound w (sbind (enforce ''sum'' (num_lc n @ negated_lc (powers_lc 1 2 as)) [(one, 1)] [])
      (\<lambda>_. sret \<lparr>bv_bits = as, bv_values = vals, bv_allocations = as\<rparr>))
      (\<lambda>bv. bitvector_ok w k bv \<and> ev w (num_lc n) = of_nat (bitvector_nat w bv) \<and> bitvector_nat w bv < 2 ^ k)"
    by (intro sound_sbind [OF sound_enforce] sound_sret)
      (use w horner_bits [OF as(2)] lc_bits_less [of w as] in \<open>auto simp: bitvector_ok_def bitvector_nat_def assignment_def one_def\<close>)
qed

lemma keeps_nonnative [keeps_intros]:
  "keeps (Bit_alloc v)" "keeps (Num_alloc x)" "keeps (fits_in_bits repr n k)" "keeps (num_is_equal n bv)" "keeps (num_decompose repr n k)"
  unfolding Bit_alloc_def Num_alloc_def fits_in_bits_def num_is_equal_def num_decompose_def Let_def
  by (intro keeps_intros keeps_prod)+

end
