(* ===== verification/BigNat.thy ===== *)
theory BigNat
  imports Nonnative
begin

text \<open>
  Large integers in the rules (\<open>nonnative/bignat.rs\<close>). A number is a list of limbs, each a weighted sum, with a bound
  \<open>max_word\<close> on what a limb may hold; a product is allocated coefficient by coefficient and compared at as many points
  as it has coefficients; two numbers are compared by carrying. The \<open>f64\<close> arithmetic that sizes the carries is
  \<open>f64_round\<close> followed by the exact logarithm, which is what it computes where the rounded word is a power of two, as
  it is for every word here.
\<close>

section \<open>Numbers\<close>

definition CAPACITY :: nat where "CAPACITY = NUM_BITS - 1"

definition limbs_to_nat :: "('f \<Rightarrow> nat) \<Rightarrow> 'f list \<Rightarrow> nat \<Rightarrow> int" where
  "limbs_to_nat repr vs lw = fold (\<lambda>v acc. acc * 2 ^ lw + f_to_nat repr v) (rev vs) 0"

definition int_with_n_ones :: "nat \<Rightarrow> int" where
  "int_with_n_ones n = 2 ^ n - 1"

fun limb_list :: "nat \<Rightarrow> nat \<Rightarrow> int \<Rightarrow> int list" where
  "limb_list lw 0 x = []"
| "limb_list lw (Suc n) x = x mod 2 ^ lw # limb_list lw n (x div 2 ^ lw)"

definition nat_to_limbs :: "int \<Rightarrow> nat \<Rightarrow> nat \<Rightarrow> synth_error + 'f::field list" where
  "nat_to_limbs x lw n = (if \<bar>x\<bar> < 2 ^ (n * lw) then Inr (map of_int (limb_list lw n x)) else Inl Unsatisfiable)"

record BigNatParams =
  min_bits :: nat
  max_word :: int
  limb_width :: nat
  n_limbs :: nat

definition params_new :: "nat \<Rightarrow> nat \<Rightarrow> BigNatParams" where
  "params_new lw n = \<lparr>min_bits = 0, max_word = 2 ^ lw - 1, limb_width = lw, n_limbs = n\<rparr>"

record 'f BigNat =
  bn_limbs :: "'f lincomb list"
  bn_limb_values :: "'f list option"
  bn_value :: "int option"
  bn_params :: BigNatParams

record 'f Polynomial =
  coefficients :: "'f lincomb list"
  poly_values :: "'f list option"

definition poly_from :: "'f BigNat \<Rightarrow> 'f Polynomial" where
  "poly_from b = \<lparr>coefficients = bn_limbs b, poly_values = bn_limb_values b\<rparr>"

definition alloc_from_limbs :: "('f::field \<Rightarrow> nat) \<Rightarrow> synth_error + 'f list \<Rightarrow> int option \<Rightarrow> nat \<Rightarrow> nat \<Rightarrow> ('f BigNat, 'f) synth" where
  "alloc_from_limbs repr f max_w lw n =
     sbind (smap (\<lambda>i. sbind (alloc (case f of Inr vs \<Rightarrow> if length vs \<noteq> n then Inl Unsatisfiable else Inr (vs ! i) | Inl _ \<Rightarrow> Inl AssignmentMissing))
         (\<lambda>v. sret [(v, 1)])) [0..<n]) (\<lambda>ls.
     let vs = (case f of Inr vs \<Rightarrow> if n = 0 \<or> length vs \<noteq> n then None else Some vs | Inl _ \<Rightarrow> None) in
     sret \<lparr>bn_limbs = ls, bn_limb_values = vs, bn_value = map_option (\<lambda>vs. limbs_to_nat repr vs lw) vs,
       bn_params = \<lparr>min_bits = 0, max_word = (case max_w of Some m \<Rightarrow> m | None \<Rightarrow> int_with_n_ones lw), limb_width = lw, n_limbs = n\<rparr>\<rparr>)"

text \<open>The closure runs before the first limb is allocated: its error is only seen then, but a panic in it is one at once.\<close>

definition alloc_from_nat :: "synth_error + int \<Rightarrow> nat \<Rightarrow> nat \<Rightarrow> ('f BigNat, 'f::field) synth" where
  "alloc_from_nat f lw n =
     (let cell = rbind f (\<lambda>v. rbind (nat_to_limbs v lw n) (\<lambda>vs. Inr (vs, v))) in
      sbind (sassert (f \<noteq> Inl Panicked)) (\<lambda>_.
      sbind (smap (\<lambda>i. sbind (alloc (case cell of Inr (vs, v) \<Rightarrow> Inr (vs ! i) | Inl _ \<Rightarrow> Inl AssignmentMissing)) (\<lambda>v. sret [(v, 1)])) [0..<n]) (\<lambda>ls.
      sret \<lparr>bn_limbs = ls, bn_limb_values = (case cell of Inr (vs, v) \<Rightarrow> if n = 0 then None else Some vs | Inl _ \<Rightarrow> None),
        bn_value = (case cell of Inr (vs, v) \<Rightarrow> if n = 0 then None else Some v | Inl _ \<Rightarrow> None), bn_params = params_new lw n\<rparr>)))"

text \<open>The limbs with their values, as the loops over \<open>limbs.iter().zip(limb_values_split)\<close> see them.\<close>

definition as_limbs :: "'f BigNat \<Rightarrow> 'f Num list" where
  "as_limbs b = map (\<lambda>(i, l). \<lparr>num_lc = l, num_val = map_option (\<lambda>vs. vs ! i) (bn_limb_values b)\<rparr>) (enumerate 0 (bn_limbs b))"

definition assert_well_formed :: "('f::field \<Rightarrow> nat) \<Rightarrow> 'f BigNat \<Rightarrow> (unit, 'f) synth" where
  "assert_well_formed repr b = sfor (\<lambda>(i, n). ns (show_nat i) (fits_in_bits repr n (limb_width (bn_params b)))) (enumerate 0 (as_limbs b))"

definition bn_decompose :: "('f::field \<Rightarrow> nat) \<Rightarrow> 'f BigNat \<Rightarrow> ('f Bitvector, 'f) synth" where
  "bn_decompose repr b =
     sbind (smap (\<lambda>(i, n). ns (''subdecmop '' @ show_nat i) (num_decompose repr n (limb_width (bn_params b)))) (enumerate 0 (as_limbs b))) (\<lambda>bvs.
     let vs = concat (map (\<lambda>bv. case bv_values bv of None \<Rightarrow> [] | Some v \<Rightarrow> v) bvs) in
     sret \<lparr>bv_bits = concat (map bv_bits bvs), bv_values = (if vs = [] then None else Some vs), bv_allocations = concat (map bv_allocations bvs)\<rparr>)"

definition from_num :: "('f::field \<Rightarrow> nat) \<Rightarrow> 'f Num \<Rightarrow> nat \<Rightarrow> nat \<Rightarrow> ('f BigNat, 'f) synth" where
  "from_num repr n lw k =
     sbind (ns ''bignat'' (alloc_from_nat (ok_or AssignmentMissing (map_option (f_to_nat repr) (num_val n))) lw k)) (\<lambda>b.
     sbind (ns ''bv'' (bn_decompose repr b)) (\<lambda>bv.
     sbind (ns ''n'' (num_is_equal n bv)) (\<lambda>_. sret b)))"

definition enforce_limb_width_agreement :: "'f BigNat \<Rightarrow> 'f BigNat \<Rightarrow> (nat, 'f) synth" where
  "enforce_limb_width_agreement a b =
     (if limb_width (bn_params a) = limb_width (bn_params b) then sret (limb_width (bn_params a)) else sfail Unsatisfiable)"

definition from_poly :: "('f \<Rightarrow> nat) \<Rightarrow> 'f Polynomial \<Rightarrow> nat \<Rightarrow> int \<Rightarrow> 'f BigNat" where
  "from_poly repr p lw m = \<lparr>bn_limbs = coefficients p, bn_limb_values = poly_values p,
     bn_value = map_option (\<lambda>vs. limbs_to_nat repr vs lw) (poly_values p),
     bn_params = \<lparr>min_bits = 0, max_word = m, limb_width = lw, n_limbs = length (coefficients p)\<rparr>\<rparr>"

section \<open>Comparison by carrying\<close>

fun bit_length :: "nat \<Rightarrow> nat" where
  "bit_length n = (if n = 0 then 0 else Suc (bit_length (n div 2)))"

declare bit_length.simps [simp del]

definition f64_round :: "nat \<Rightarrow> nat" where
  "f64_round n =
     (if bit_length n \<le> 53 then n
      else let s = bit_length n - 53; q = n div 2 ^ s; r = n mod 2 ^ s in
        (if 2 ^ (s - 1) < r \<or> r = 2 ^ (s - 1) \<and> odd q then Suc q else q) * 2 ^ s)"

definition ceil_log2 :: "nat \<Rightarrow> nat" where
  "ceil_log2 n = bit_length (n - 1)"

definition carry_bits :: "int \<Rightarrow> nat \<Rightarrow> nat" where
  "carry_bits m lw = ceil_log2 (2 * f64_round (nat m)) - lw"

definition carry_value :: "('f::field \<Rightarrow> nat) \<Rightarrow> 'f BigNat \<Rightarrow> 'f BigNat \<Rightarrow> int \<Rightarrow> int \<Rightarrow> nat \<Rightarrow> 'f Num \<Rightarrow> synth_error + 'f" where
  "carry_value repr a b m target_base i carry_in =
     rbind (ok_or AssignmentMissing (bn_limb_values a)) (\<lambda>avs.
     rbind (ok_or Panicked (num_val carry_in)) (\<lambda>c.
     rbind (ok_or AssignmentMissing (bn_limb_values b)) (\<lambda>bvs.
     ok_or Panicked (nat_to_f ((f_to_nat repr (avs ! i) + f_to_nat repr c + m - f_to_nat repr (bvs ! i)) sdiv target_base)))))"

definition carried_step ::
  "('f::field \<Rightarrow> nat) \<Rightarrow> 'f BigNat \<Rightarrow> 'f BigNat \<Rightarrow> int \<Rightarrow> int \<Rightarrow> nat \<Rightarrow> nat \<Rightarrow> nat \<Rightarrow> 'f Num \<times> int \<Rightarrow> ('f Num \<times> int, 'f) synth" where
  "carried_step repr a b m target_base cb n i = (\<lambda>(carry_in, extra).
     sbind (ns (''carry value '' @ show_nat i) (Num_alloc (carry_value repr a b m target_base i carry_in))) (\<lambda>carry.
     let extra' = extra + m; extra'' = extra' div target_base in
     sbind (enforce (''carry '' @ show_nat i) [] []
       (num_lc carry_in @ bn_limbs a ! i @ negated_lc (bn_limbs b ! i) @ [(one, of_int m)] @
        negated_lc (scaled (of_int target_base) (num_lc carry)) @ [(one, - of_int (extra' mod target_base))])) (\<lambda>_.
     sbind (if i < n - 1 then ns (''carry '' @ show_nat i @ '' decomp'') (fits_in_bits repr carry cb)
            else enforce (''carry '' @ show_nat i @ '' is out'') [] [] (num_lc carry @ [(one, - of_int extra'')])) (\<lambda>_.
     sret (carry, extra'')))))"

definition zero_limbs :: "string \<Rightarrow> nat \<Rightarrow> 'f::field lincomb list \<Rightarrow> (unit, 'f) synth" where
  "zero_limbs who n ls = sfor (\<lambda>(i, l). enforce (''zero '' @ who @ show_nat i) [] [] l) (drop n (enumerate 0 ls))"

definition equal_when_carried :: "('f::field \<Rightarrow> nat) \<Rightarrow> 'f BigNat \<Rightarrow> 'f BigNat \<Rightarrow> (unit, 'f) synth" where
  "equal_when_carried repr a b =
     sbind (enforce_limb_width_agreement a b) (\<lambda>_.
     let n = min (length (bn_limbs a)) (length (bn_limbs b)); lw = limb_width (bn_params a); m = max (max_word (bn_params a)) (max_word (bn_params b)) in
     sbind (sfold (carried_step repr a b m (2 ^ lw) (carry_bits m lw) n) [0..<n] (\<lparr>num_lc = [], num_val = Some 0\<rparr>, 0)) (\<lambda>_.
     sbind (zero_limbs ''self '' n (bn_limbs a)) (\<lambda>_.
     zero_limbs ''other '' n (bn_limbs b))))"

definition group_limbs :: "'f::field BigNat \<Rightarrow> nat \<Rightarrow> 'f BigNat" where
  "group_limbs b per =
     (let lw = limb_width (bn_params b); ls = map (powers_lc 1 (2 ^ lw)) (chunks per (bn_limbs b)) in
      \<lparr>bn_limbs = ls, bn_limb_values = map_option (\<lambda>vs. map (horner (2 ^ lw)) (chunks per vs)) (bn_limb_values b), bn_value = bn_value b,
       bn_params = \<lparr>min_bits = min_bits (bn_params b), max_word = (\<Sum>i<per. 2 ^ (i * lw)) * max_word (bn_params b),
         limb_width = lw * per, n_limbs = length ls\<rparr>\<rparr>)"

text \<open>A negative capacity, an empty group and a number without limbs are panics.\<close>

definition equal_when_carried_regroup :: "('f::field \<Rightarrow> nat) \<Rightarrow> 'f BigNat \<Rightarrow> 'f BigNat \<Rightarrow> (unit, 'f) synth" where
  "equal_when_carried_regroup repr a b =
     sbind (enforce_limb_width_agreement a b) (\<lambda>lw.
     let m = max (max_word (bn_params a)) (max_word (bn_params b)); cb = carry_bits m lw; per = (CAPACITY - cb) div lw in
     sbind (sassert (cb \<le> CAPACITY \<and> 0 < lw \<and> 0 < per \<and> bn_limbs a \<noteq> [] \<and> bn_limbs b \<noteq> [])) (\<lambda>_.
     ns ''grouped'' (equal_when_carried repr (group_limbs a per) (group_limbs b per))))"

section \<open>Products and remainders\<close>

text \<open>Addition of coefficients, the shorter list padded with zeros, and the product of two lists of coefficients.\<close>

fun padd :: "'a::comm_monoid_add list \<Rightarrow> 'a list \<Rightarrow> 'a list" where
  "padd [] bs = bs"
| "padd as [] = as"
| "padd (a # as) (b # bs) = (a + b) # padd as bs"

fun pconv :: "'a::comm_semiring_1 list \<Rightarrow> 'a list \<Rightarrow> 'a list" where
  "pconv [] bs = []"
| "pconv [a] bs = map (\<lambda>b. a * b) bs"
| "pconv (a # a' # as) bs = padd (map (\<lambda>b. a * b) bs) (0 # pconv (a' # as) bs)"

fun lc_padd :: "'f lincomb list \<Rightarrow> 'f lincomb list \<Rightarrow> 'f lincomb list" where
  "lc_padd [] bs = bs"
| "lc_padd as [] = as"
| "lc_padd (a # as) (b # bs) = (a @ b) # lc_padd as bs"

definition poly_sum :: "'f::field Polynomial \<Rightarrow> 'f Polynomial \<Rightarrow> 'f Polynomial" where
  "poly_sum p q = \<lparr>coefficients = lc_padd (coefficients p) (coefficients q),
     poly_values = Option.bind (poly_values p) (\<lambda>a. map_option (padd a) (poly_values q))\<rparr>"

definition alloc_product :: "'f::field Polynomial \<Rightarrow> 'f Polynomial \<Rightarrow> ('f Polynomial, 'f) synth" where
  "alloc_product p q =
     (let n = length (coefficients p) + length (coefficients q) - 1;
          vals = Option.bind (poly_values p) (\<lambda>a. map_option (pconv a) (poly_values q)) in
      sbind (smap (\<lambda>i. sbind (alloc (rbind (ok_or AssignmentMissing vals) (\<lambda>vs. Inr (vs ! i)))) (\<lambda>v. sret [(v, 1)])) [0..<n]) (\<lambda>cs.
      sbind (sfor (\<lambda>i. enforce (''pointwise product @ '' @ show_nat i) (powers_lc 1 (of_nat i) (coefficients p)) (powers_lc 1 (of_nat i) (coefficients q))
        (powers_lc 1 (of_nat i) cs)) [1..<Suc n]) (\<lambda>_.
      sret \<lparr>coefficients = cs, poly_values = vals\<rparr>)))"

definition bn_n_bits :: "'f BigNat \<Rightarrow> (nat, 'f) synth" where
  "bn_n_bits b = sbind (sassert (0 < n_limbs (bn_params b))) (\<lambda>_.
     sret (limb_width (bn_params b) * (n_limbs (bn_params b) - 1) + bit_length (nat (max_word (bn_params b)))))"

text \<open>A value computed from those of some numbers, the last of which is a divisor.\<close>

definition int_values :: "(int list \<Rightarrow> int) \<Rightarrow> 'f BigNat list \<Rightarrow> synth_error + int" where
  "int_values f bs = rbind (map_result (\<lambda>b. ok_or AssignmentMissing (bn_value b)) bs) (\<lambda>vs.
     if last vs = 0 then Inl Panicked else Inr (f vs))"

definition quotient_limb_count :: "nat \<Rightarrow> nat \<Rightarrow> nat" where
  "quotient_limb_count quotient_bits lw = (quotient_bits - 1) div lw + 1"

definition right_max_word :: "'f BigNat \<Rightarrow> 'f BigNat \<Rightarrow> 'f BigNat \<Rightarrow> int" where
  "right_max_word q m r =
     int (min (length (bn_limbs q)) (length (bn_limbs m))) * max_word (bn_params q) * max_word (bn_params m) + max_word (bn_params r)"

definition mult_mod :: "('f::field \<Rightarrow> nat) \<Rightarrow> 'f BigNat \<Rightarrow> 'f BigNat \<Rightarrow> 'f BigNat \<Rightarrow> ('f BigNat \<times> 'f BigNat, 'f) synth" where
  "mult_mod repr a b m =
     sbind (enforce_limb_width_agreement a b) (\<lambda>_.
     let lw = limb_width (bn_params a) in
     sbind (bn_n_bits a) (\<lambda>a_bits. sbind (bn_n_bits b) (\<lambda>b_bits.
     sbind (ns ''quotient'' (alloc_from_nat (int_values (\<lambda>vs. (vs ! 0 * vs ! 1) sdiv vs ! 2) [a, b, m]) lw
       (quotient_limb_count (a_bits + b_bits - min_bits (bn_params m)) lw))) (\<lambda>quotient.
     sbind (ns ''quotient rangecheck'' (assert_well_formed repr quotient)) (\<lambda>_.
     sbind (ns ''remainder'' (alloc_from_nat (int_values (\<lambda>vs. (vs ! 0 * vs ! 1) smod vs ! 2) [a, b, m]) lw (length (bn_limbs m)))) (\<lambda>remainder.
     sbind (ns ''remainder rangecheck'' (assert_well_formed repr remainder)) (\<lambda>_.
     sbind (ns ''left'' (alloc_product (poly_from a) (poly_from b))) (\<lambda>left.
     sbind (ns ''right_product'' (alloc_product (poly_from quotient) (poly_from m))) (\<lambda>right_product.
     let right = poly_sum right_product (poly_from remainder);
         left_max_word = int (min (length (bn_limbs a)) (length (bn_limbs b))) * max_word (bn_params a) * max_word (bn_params b);
         left_int = from_poly repr left lw left_max_word;
         right_int = from_poly repr right lw (right_max_word quotient m remainder) in
     sbind (ns ''carry'' (equal_when_carried_regroup repr left_int right_int)) (\<lambda>_.
     sret (quotient, remainder)))))))))))"

definition red_mod :: "('f::field \<Rightarrow> nat) \<Rightarrow> 'f BigNat \<Rightarrow> 'f BigNat \<Rightarrow> ('f BigNat, 'f) synth" where
  "red_mod repr a m =
     sbind (enforce_limb_width_agreement a m) (\<lambda>_.
     let lw = limb_width (bn_params a) in
     sbind (bn_n_bits a) (\<lambda>a_bits.
     sbind (ns ''quotient'' (alloc_from_nat (int_values (\<lambda>vs. vs ! 0 sdiv vs ! 1) [a, m]) lw
       (quotient_limb_count (a_bits - min_bits (bn_params m)) lw))) (\<lambda>quotient.
     sbind (ns ''quotient rangecheck'' (assert_well_formed repr quotient)) (\<lambda>_.
     sbind (ns ''remainder'' (alloc_from_nat (int_values (\<lambda>vs. vs ! 0 smod vs ! 1) [a, m]) lw (length (bn_limbs m)))) (\<lambda>remainder.
     sbind (ns ''remainder rangecheck'' (assert_well_formed repr remainder)) (\<lambda>_.
     sbind (ns ''right_product'' (alloc_product (poly_from quotient) (poly_from m))) (\<lambda>right_product.
     let right_int = from_poly repr (poly_sum right_product (poly_from remainder)) lw (right_max_word quotient m remainder) in
     sbind (ns ''carry'' (equal_when_carried_regroup repr a right_int)) (\<lambda>_.
     sret remainder))))))))"

definition decompose_allocated :: "'f bellpepper \<Rightarrow> ('f::field \<Rightarrow> nat) \<Rightarrow> 'f BigNat \<Rightarrow> ('f Boolean list, 'f) synth" where
  "decompose_allocated L repr b =
     sbind (sassert (limb_width (bn_params b) \<le> NUM_BITS)) (\<lambda>_.
     sbind (smap (\<lambda>i.
         sbind (smap (\<lambda>j. ns (''limb_'' @ show_nat i @ ''_bit_'' @ show_nat j)
           (alloc_bit L (map_option (\<lambda>vs. bit (repr (vs ! i)) j) (bn_limb_values b)))) [0..<limb_width (bn_params b)]) (\<lambda>bs.
         sbind (enforce (''pack_eq limb_'' @ show_nat i) (powers_lc 1 2 (map bool_lc bs)) [(one, 1)] (bn_limbs b ! i)) (\<lambda>_.
         sret bs))) [0..<n_limbs (bn_params b)]) (\<lambda>bss.
     sret (concat bss)))"

text \<open>A constant (\<open>alloc_bignat_constant\<close> of \<open>gadget_utils.rs\<close>).\<close>

definition alloc_bignat_constant :: "('f::field \<Rightarrow> nat) \<Rightarrow> int \<Rightarrow> nat \<Rightarrow> nat \<Rightarrow> ('f BigNat, 'f) synth" where
  "alloc_bignat_constant repr x lw n =
     (case nat_to_limbs x lw n of
        Inl _ \<Rightarrow> sfail Panicked
      | Inr ls \<Rightarrow>
          sbind (ns ''alloc bignat'' (alloc_from_limbs repr (Inr ls) None lw n)) (\<lambda>b.
          sbind (sfor (\<lambda>i. enforce (''check limb '' @ show_nat i) (bn_limbs b ! i) [(one, 1)] [(one, ls ! i)]) [0..<n]) (\<lambda>_.
          sret b)))"


definition bn_add :: "'f::field BigNat \<Rightarrow> 'f BigNat \<Rightarrow> ('f BigNat, 'f) synth" where
  "bn_add a b =
     sbind (enforce_limb_width_agreement a b) (\<lambda>_.
     sret \<lparr>bn_limbs = lc_padd (bn_limbs a) (bn_limbs b),
       bn_limb_values = Option.bind (bn_limb_values a) (\<lambda>x. map_option (padd x) (bn_limb_values b)),
       bn_value = Option.bind (bn_value a) (\<lambda>x. map_option (\<lambda>y. x + y) (bn_value b)),
       bn_params = \<lparr>min_bits = max (min_bits (bn_params a)) (min_bits (bn_params b)), max_word = max_word (bn_params a) + max_word (bn_params b),
         limb_width = limb_width (bn_params a), n_limbs = max (n_limbs (bn_params a)) (n_limbs (bn_params b))\<rparr>\<rparr>)"

definition sub_mod :: "('f::field \<Rightarrow> nat) \<Rightarrow> 'f BigNat \<Rightarrow> 'f BigNat \<Rightarrow> 'f BigNat \<Rightarrow> ('f BigNat, 'f) synth" where
  "sub_mod repr a b m =
     sbind (ns ''sub_mod: compute diff'' (alloc_from_nat (int_values (\<lambda>vs. (vs ! 0 + vs ! 2 - vs ! 1) smod vs ! 2) [a, b, m])
       (limb_width (bn_params a)) (n_limbs (bn_params a)))) (\<lambda>diff.
     sbind (bn_add b diff) (\<lambda>total.
     sbind (ns ''sub_mod: reduce sum'' (red_mod repr total m)) (\<lambda>s.
     sbind (ns ''sub_mod: equality check'' (equal_when_carried_regroup repr a s)) (\<lambda>_.
     sret diff))))"

section \<open>Polynomials with many roots\<close>

fun quot :: "'a::field \<Rightarrow> 'a list \<Rightarrow> 'a list" where
  "quot a [] = []"
| "quot a [c] = []"
| "quot a (c # d # cs) = horner a (d # cs) # quot a (d # cs)"

lemma quot: "horner x cs - horner a cs = (x - a) * horner x (quot a cs)" "length (quot a cs) = length cs - 1"
proof -
  show "horner x cs - horner a cs = (x - a) * horner x (quot a cs)"
  proof (induction a cs rule: quot.induct)
    case (3 a c d cs)
    have "horner x (c # d # cs) - horner a (c # d # cs) = x * (horner x (d # cs) - horner a (d # cs)) + (x - a) * horner a (d # cs)"
      by (simp add: algebra_simps)
    also have "\<dots> = (x - a) * horner x (quot a (c # d # cs))" unfolding 3 by (simp add: algebra_simps)
    finally show ?case .
  qed simp_all
qed (induction a cs rule: quot.induct, simp_all)

lemma quot_zero: "list_all (\<lambda>c. c = 0) (quot a cs) \<Longrightarrow> horner a cs = 0 \<Longrightarrow> list_all (\<lambda>c. c = 0) cs"
  by (induction a cs rule: quot.induct) auto

lemma horner_roots:
  assumes "distinct as" "length cs \<le> length as" "\<forall>a \<in> set as. horner a cs = (0 :: 'a::field)"
  shows "list_all (\<lambda>c. c = 0) cs"
  using assms
proof (induction as arbitrary: cs)
  case (Cons a as)
  have "horner x (quot a cs) = 0" if "x \<in> set as" for x
    using quot(1) [of x cs a] Cons.prems that by auto
  then have "list_all (\<lambda>c. c = 0) (quot a cs)" using Cons.IH [of "quot a cs"] Cons.prems quot(2) [of a cs] by simp
  then show ?case using quot_zero Cons.prems(3) by auto
qed simp

lemma horner_padd: "horner x (padd as bs) = horner x as + horner x (bs :: 'a::field list)"
  by (induction as bs rule: padd.induct) (simp_all add: algebra_simps)

lemma length_padd [simp]: "length (padd as bs) = max (length as) (length bs)"
  by (induction as bs rule: padd.induct) simp_all

lemma horner_scale: "horner x (map (\<lambda>b. a * b) bs) = a * horner x (bs :: 'a::field list)"
  by (induction bs) (simp_all add: algebra_simps)

lemma horner_pconv: "horner x (pconv as bs) = horner x as * horner x (bs :: 'a::field list)"
  by (induction as bs rule: pconv.induct) (simp_all add: horner_padd horner_scale algebra_simps)

lemma length_pconv: "as \<noteq> [] \<Longrightarrow> bs \<noteq> [] \<Longrightarrow> length (pconv as bs) = length as + length bs - 1"
  by (induction as bs rule: pconv.induct) (auto simp: max_def Suc_le_eq)

lemma horner_inj:
  assumes "length as = length bs" "length as \<le> length xs" "distinct xs" "\<forall>x \<in> set xs. horner x as = horner x (bs :: 'a::field list)"
  shows "as = bs"
proof -
  have "horner x (map2 (-) as bs) = horner x as - horner x bs" for x
    using assms(1)
  proof (induction as bs rule: list_induct2)
    case (Cons a as b bs)
    have "horner x (map2 (-) (a # as) (b # bs)) = (a - b) + x * (horner x as - horner x bs)" using Cons.IH by simp
    then show ?case by (simp add: algebra_simps)
  qed simp
  then have "list_all (\<lambda>c. c = 0) (map2 (-) as bs)"
    using horner_roots [of xs "map2 (-) as bs"] assms by simp
  then show ?thesis using assms(1) by (auto simp: list_all_length intro!: nth_equalityI)
qed

lemma of_nat_pconv: "map of_nat (pconv as bs) = pconv (map of_nat as) (map (of_nat :: nat \<Rightarrow> 'a::field) bs)"
proof -
  have padd: "map of_nat (padd xs ys) = padd (map of_nat xs) (map (of_nat :: nat \<Rightarrow> 'a) ys)" for xs ys
    by (induction xs ys rule: padd.induct) simp_all
  show ?thesis by (induction as bs rule: pconv.induct) (simp_all add: padd comp_def)
qed

lemma digits_padd: "digits b (padd xs ys) = digits b xs + digits b ys"
  by (induction xs ys rule: padd.induct) (simp_all add: algebra_simps)

lemma digits_pconv: "digits b (pconv xs ys) = digits b xs * digits b ys"
proof -
  have scale: "digits b (map (\<lambda>y. x * y) ys) = x * digits b ys" for x ys by (induction ys) (simp_all add: algebra_simps)
  show ?thesis by (induction xs ys rule: pconv.induct) (simp_all add: digits_padd scale algebra_simps)
qed

lemma padd_bound: "list_all (\<lambda>d. d \<le> A) xs \<Longrightarrow> list_all (\<lambda>d. d \<le> B) ys \<Longrightarrow> list_all (\<lambda>d. d \<le> A + B) (padd xs (ys :: nat list))"
  by (induction xs ys rule: padd.induct) (auto simp: list_all_iff intro: trans_le_add1 trans_le_add2 add_mono)

lemma pconv_bound:
  assumes "list_all (\<lambda>d. d \<le> A) xs" "list_all (\<lambda>d. d \<le> B) ys"
  shows "list_all (\<lambda>d. d \<le> length xs * (A * B)) (pconv xs (ys :: nat list))"
  using assms
proof (induction xs ys rule: pconv.induct)
  case (2 a bs)
  then show ?case by (auto simp: list_all_iff intro!: mult_mono)
next
  case (3 a a' as bs)
  have "list_all (\<lambda>d. d \<le> A * B) (map (\<lambda>b. a * b) bs)" using 3 by (auto simp: list_all_iff intro!: mult_mono)
  moreover have "list_all (\<lambda>d. d \<le> length (a' # as) * (A * B)) (0 # pconv (a' # as) bs)" using 3 by simp
  ultimately show ?case using padd_bound by fastforce
qed simp


section \<open>Carrying compares the numbers\<close>

text \<open>The limbs \<open>ls\<close> hold the naturals \<open>ds\<close>.\<close>

definition limbs_are :: "(var \<Rightarrow> 'f::field) \<Rightarrow> 'f lincomb list \<Rightarrow> nat list \<Rightarrow> bool" where
  "limbs_are w ls ds \<longleftrightarrow> map (ev w) ls = map of_nat ds"

lemma limbs_are_length: "limbs_are w ls ds \<Longrightarrow> length ls = length ds"
  unfolding limbs_are_def by (metis length_map)

lemma limbs_are_nth: "limbs_are w ls ds \<Longrightarrow> i < length ls \<Longrightarrow> ev w (ls ! i) = of_nat (ds ! i)"
  unfolding limbs_are_def by (metis length_map nth_map)

lemma digits_take_Suc: "i < length ds \<Longrightarrow> digits b (take (Suc i) ds) = digits b (take i ds) + b ^ i * ds ! i"
  by (simp add: take_Suc_conv_app_nth digits_append)

definition carried :: "(var \<Rightarrow> 'f::field) \<Rightarrow> nat \<Rightarrow> nat \<Rightarrow> nat \<Rightarrow> nat list \<Rightarrow> nat list \<Rightarrow> nat \<Rightarrow> nat \<Rightarrow> 'f Num \<times> int \<Rightarrow> bool" where
  "carried w base M K as bs n i = (\<lambda>(carry, extra). \<exists>k e. ev w (num_lc carry) = of_nat k \<and> extra = int e \<and> e \<le> M \<and> k \<le> K \<and>
     int (digits base (take i as)) - int (digits base (take i bs)) = int base ^ i * (int k - int e) \<and> (i = n \<longrightarrow> k = e))"

lemma carry_extra:
  assumes "2 \<le> base" "e \<le> M"
  shows "(e + M) div base \<le> (M :: nat)"
proof -
  have "(e + M) div base \<le> (e + M) div 2" using assms(1) by (intro div_le_mono2) auto
  also have "\<dots> \<le> M" using assms(2) by linarith
  finally show ?thesis .
qed

lemma sound_carried_step:
  assumes repr: "scalar_repr (repr :: 'f::field \<Rightarrow> nat)" and w: "assignment (w :: var \<Rightarrow> 'f)"
    and a: "limbs_are w (bn_limbs a) as" "list_all (\<lambda>d. d \<le> B) as" and b: "limbs_are w (bn_limbs b) bs" "list_all (\<lambda>d. d \<le> B) bs"
    and i: "i < n" "n \<le> length as" "n \<le> length bs" and base: "2 \<le> base" "0 < cb"
    and fit: "base * 2 ^ cb + base + 2 ^ cb + B + 2 * M < modulus" and st: "carried w base M (2 ^ cb + M) as bs n i st"
  shows "sound w (carried_step repr a b (int M) (int base) cb n i st) (carried w base M (2 ^ cb + M) as bs n (Suc i))"
proof -
  obtain carry extra where s: "st = (carry, extra)" by (cases st)
  obtain k e where k: "ev w (num_lc carry) = of_nat k" "extra = int e" "e \<le> M" "k \<le> 2 ^ cb + M"
    "int (digits base (take i as)) - int (digits base (take i bs)) = int base ^ i * (int k - int e)"
    using st by (auto simp: carried_def s)
  let ?e = "(e + M) div base" and ?d = "(e + M) mod base"
  have e': "?e \<le> M" by (rule carry_extra [OF base(1) k(3)])
  have ext: "(extra + int M) div int base = int ?e" "(extra + int M) mod int base = int ?d"
    unfolding k(2) by (simp_all add: zdiv_int zmod_int)
  have len: "i < length (bn_limbs a)" "i < length (bn_limbs b)" using limbs_are_length [OF a(1)] limbs_are_length [OF b(1)] i by simp_all
  have lim: "as ! i \<le> B" "bs ! i \<le> B" using a(2) b(2) i by (simp_all add: list_all_length)
  have fin: "carried w base M (2 ^ cb + M) as bs n (Suc i) (carry', int ?e)"
    if rule: "ev w (num_lc carry) + ev w (bn_limbs a ! i) - ev w (bn_limbs b ! i) + of_int (int M) - of_int (int base) * ev w (num_lc carry') - of_int (int ?d) = 0"
      and k': "ev w (num_lc carry') = of_nat k'" "base * k' \<le> base * 2 ^ cb + 2 * M" "k' \<le> 2 ^ cb + M" "Suc i = n \<longrightarrow> k' = ?e" for carry' :: "'f Num" and k'
  proof -
    have "(of_nat (k + as ! i + M) :: 'f) = of_nat (base * k' + bs ! i + ?d)"
      using rule unfolding k(1) k'(1) limbs_are_nth [OF a(1) len(1)] limbs_are_nth [OF b(1) len(2)] by (simp add: algebra_simps)
    moreover have "k + as ! i + M < modulus" using fit k(4) lim(1) by linarith
    moreover have "?d < base" using base(1) by simp
    then have "base * k' + bs ! i + ?d < modulus" using fit k'(2) lim(2) by linarith
    ultimately have eq: "k + as ! i + M = base * k' + bs ! i + ?d" using scalar_of_nat_inj [OF repr] by blast
    have "int e + int M = int base * int ?e + int ?d" by (metis of_nat_add of_nat_mult mult_div_mod_eq)
    moreover have "int k + int (as ! i) + int M = int base * int k' + int (bs ! i) + int ?d" using eq by (metis of_nat_add of_nat_mult)
    ultimately have "int k + int (as ! i) - int (bs ! i) - int e = int base * (int k' - int ?e)" by (simp only: right_diff_distrib)
    then have "int base ^ i * (int k + int (as ! i) - int (bs ! i) - int e) = int base ^ Suc i * (int k' - int ?e)" by simp
    moreover have "int (digits base (take (Suc i) as)) - int (digits base (take (Suc i) bs)) =
        int base ^ i * (int k - int e) + int base ^ i * (int (as ! i) - int (bs ! i))"
      using i k(5) by (simp add: digits_take_Suc algebra_simps)
    ultimately have "int (digits base (take (Suc i) as)) - int (digits base (take (Suc i) bs)) = int base ^ Suc i * (int k' - int ?e)"
      by (simp add: algebra_simps)
    then show ?thesis using k' e' unfolding carried_def prod.case by blast
  qed
  have "base * ?e \<le> e + M" by (rule times_div_less_eq_dividend)
  then have sums: "base * ?e \<le> 2 * M" using k(3) by linarith
  show ?thesis
    unfolding carried_step_def s prod.case Let_def ext
  proof (rule sound_sbind [OF sound_True], rule sound_sbind [OF sound_enforce])
    fix carry' :: "'f Num" and u
    assume "ev w [] * ev w [] = ev w (num_lc carry @ bn_limbs a ! i @ negated_lc (bn_limbs b ! i) @ [(one, of_int (int M))] @
      negated_lc (scaled (of_int (int base)) (num_lc carry')) @ [(one, - of_int (int ?d))])"
    then have rule: "ev w (num_lc carry) + ev w (bn_limbs a ! i) - ev w (bn_limbs b ! i) + of_int (int M) - of_int (int base) * ev w (num_lc carry') - of_int (int ?d) = 0"
      using w by (simp add: assignment_def one_def algebra_simps)
    show "sound w (sbind (if i < n - 1 then ns (''carry '' @ show_nat i @ '' decomp'') (fits_in_bits repr carry' cb)
        else enforce (''carry '' @ show_nat i @ '' is out'') [] [] (num_lc carry' @ [(one, - of_int (int ?e))])) (\<lambda>_. sret (carry', int ?e)))
        (carried w base M (2 ^ cb + M) as bs n (Suc i))"
    proof (cases "i < n - 1")
      case True
      then show ?thesis
        by (simp only: if_True) (rule sound_sbind [OF sound_ns [OF sound_fits_in_bits [OF w base(2)]]],
            auto intro!: sound_sret fin [OF rule] simp: trans_le_add1)
    next
      case False
      show ?thesis
        using False by (simp only: if_False) (rule sound_sbind [OF sound_enforce], rule sound_sret, rule fin [OF rule, where k' = ?e],
            use w sums e' in \<open>auto simp: assignment_def one_def\<close>)
    qed
  qed
qed


lemma sound_zero_limbs:
  assumes "scalar_repr (repr :: 'f::field \<Rightarrow> nat)" "limbs_are (w :: var \<Rightarrow> 'f) ls ds" "list_all (\<lambda>d. d < modulus) ds"
  shows "sound w (zero_limbs who n ls) (\<lambda>_. \<forall>d \<in> set (drop n ds). d = 0)"
proof -
  have "sound w (zero_limbs who n ls) (\<lambda>_. \<forall>x \<in> set (drop n (enumerate 0 ls)). ev w (snd x) = 0)"
    unfolding zero_limbs_def by (rule sound_sfor) (auto intro!: sound_mono [OF sound_enforce])
  then show ?thesis
  proof (rule sound_mono)
    assume z: "\<forall>x \<in> set (drop n (enumerate 0 ls)). ev w (snd x) = 0"
    have "ds ! i = 0" if i: "n \<le> i" "i < length ds" for i
    proof -
      have len: "length ls = length ds" by (rule limbs_are_length [OF assms(2)])
      have "(i, ls ! i) \<in> set (drop n (enumerate 0 ls))"
        using i len by (auto simp: in_set_conv_nth nth_enumerate_eq intro!: exI [of _ "i - n"])
      then have "(of_nat (ds ! i) :: 'f) = of_nat 0" using z limbs_are_nth [OF assms(2), of i] i len by fastforce
      then show ?thesis using scalar_of_nat_inj [OF assms(1), of "ds ! i" 0] assms(3) i by (simp add: list_all_length modulus_def)
    qed
    then show "\<forall>d \<in> set (drop n ds). d = 0" by (auto simp: in_set_conv_nth)
  qed
qed

text \<open>The numbers of a comparison fit when no sum of its rules reaches the modulus.\<close>

definition carries_fit :: "nat \<Rightarrow> nat \<Rightarrow> nat \<Rightarrow> nat \<Rightarrow> bool" where
  "carries_fit lw cb B M \<longleftrightarrow> 0 < lw \<and> 0 < cb \<and> 2 ^ lw * 2 ^ cb + 2 ^ lw + 2 ^ cb + B + 2 * M < modulus"

lemma sound_equal_when_carried:
  assumes repr: "scalar_repr (repr :: 'f::field \<Rightarrow> nat)" and w: "assignment (w :: var \<Rightarrow> 'f)"
    and a: "limbs_are w (bn_limbs a) as" "list_all (\<lambda>d. d \<le> B) as" and b: "limbs_are w (bn_limbs b) bs" "list_all (\<lambda>d. d \<le> B) bs"
    and M: "max (max_word (bn_params a)) (max_word (bn_params b)) = int M" and lw: "limb_width (bn_params a) = lw"
    and fit: "carries_fit lw (carry_bits (int M) lw) B M"
  shows "sound w (equal_when_carried repr a b) (\<lambda>_. digits (2 ^ lw) as = digits (2 ^ lw) bs)"
proof -
  let ?n = "min (length (bn_limbs a)) (length (bn_limbs b))" and ?cb = "carry_bits (int M) lw" and ?start = "(\<lparr>num_lc = [], num_val = Some (0 :: 'f)\<rparr>, 0 :: int)"
  have len: "length (bn_limbs a) = length as" "length (bn_limbs b) = length bs" using limbs_are_length a(1) b(1) by blast+
  have small: "list_all (\<lambda>d. d < modulus) as" "list_all (\<lambda>d. d < modulus) bs"
    using a(2) b(2) fit by (auto simp: carries_fit_def list_all_iff intro: le_less_trans)
  have fit': "2 \<le> (2 :: nat) ^ lw" "0 < ?cb" "2 ^ lw * 2 ^ ?cb + 2 ^ lw + 2 ^ ?cb + B + 2 * M < modulus"
    using fit power_increasing [of 1 lw "2 :: nat"] by (auto simp: carries_fit_def)
  have loop: "sound w (sfold (carried_step repr a b (int M) (int (2 ^ lw)) ?cb ?n) [0..<?n] ?start) (carried w (2 ^ lw) M (2 ^ ?cb + M) as bs ?n ?n)"
  proof -
    have "sound w (sfold (carried_step repr a b (int M) (int (2 ^ lw)) ?cb ?n) [0..<?n] ?start) (carried w (2 ^ lw) M (2 ^ ?cb + M) as bs ?n (length [0..<?n]))"
    proof (rule sound_sfold)
      show "carried w (2 ^ lw) M (2 ^ ?cb + M) as bs ?n 0 ?start" by (auto simp: carried_def intro!: exI [of _ "0 :: nat"])
      fix i and st :: "'f Num \<times> int"
      assume "i < length [0..<?n]" "carried w (2 ^ lw) M (2 ^ ?cb + M) as bs ?n i st"
      then show "sound w (carried_step repr a b (int M) (int (2 ^ lw)) ?cb ?n ([0..<?n] ! i) st) (carried w (2 ^ lw) M (2 ^ ?cb + M) as bs ?n (Suc i))"
        using sound_carried_step [OF repr w a b _ _ _ fit', of i ?n st] len by simp
    qed
    then show ?thesis by simp
  qed
  have fin: "digits (2 ^ lw) as = digits (2 ^ lw) bs"
    if c: "carried w (2 ^ lw) M (2 ^ ?cb + M) as bs ?n ?n st" and z: "\<forall>d \<in> set (drop ?n as). d = 0" "\<forall>d \<in> set (drop ?n bs). d = 0" for st
  proof -
    have "int (digits (2 ^ lw) (take ?n as)) - int (digits (2 ^ lw) (take ?n bs)) = 0" using c by (auto simp: carried_def)
    moreover have "digits (2 ^ lw) ds = digits (2 ^ lw) (take ?n ds)" if "\<forall>d \<in> set (drop ?n ds). d = 0" for ds
      using digits_append [of "2 ^ lw" "take ?n ds" "drop ?n ds"] digits_zero [of "drop ?n ds" "2 ^ lw"] that by (simp add: list_all_iff)
    ultimately show ?thesis using z by simp
  qed
  show ?thesis
    unfolding equal_when_carried_def Let_def enforce_limb_width_agreement_def lw M
  proof (rule sound_sbind [OF sound_True], rule sound_sbind [OF loop [unfolded of_nat_power of_nat_numeral]],
      rule sound_sbind [OF sound_zero_limbs [OF repr a(1) small(1)]], rule sound_mono [OF sound_zero_limbs [OF repr b(1) small(2)]])
  qed (rule fin)
qed

section \<open>Grouping keeps the number\<close>

lemma digits_chunks: "0 < per \<Longrightarrow> digits (b ^ per) (map (digits b) (chunks per ds)) = digits b ds"
proof (induction per ds rule: chunks.induct)
  case (1 per ds)
  show ?case
  proof (cases "ds = []")
    case False
    have "digits b ds = digits b (take per ds) + b ^ length (take per ds) * digits b (drop per ds)"
      using digits_append [of b "take per ds" "drop per ds"] by simp
    moreover have "length (take per ds) = per \<or> drop per ds = []" by auto
    ultimately show ?thesis using 1 False by (auto simp: chunks_rec)
  qed simp
qed

lemma chunks_map: "chunks n (map f xs) = map (map f) (chunks n xs)"
proof (induction n xs rule: chunks.induct)
  case (1 n xs)
  then show ?case by (cases "n = 0 \<or> xs = []") (auto simp: chunks.simps [of n xs] chunks.simps [of n "map f xs"] take_map drop_map)
qed

lemma group_limbs_are:
  assumes "limbs_are w (bn_limbs a) ds"
  shows "limbs_are w (bn_limbs (group_limbs a per)) (map (digits (2 ^ limb_width (bn_params a))) (chunks per ds))"
proof -
  let ?b = "2 ^ limb_width (bn_params a) :: nat"
  have "map (ev w) (bn_limbs (group_limbs a per)) = map (horner (of_nat ?b)) (chunks per (map (ev w) (bn_limbs a)))"
    by (simp add: group_limbs_def Let_def chunks_map comp_def)
  also have "\<dots> = map (horner (of_nat ?b)) (chunks per (map of_nat ds))" using assms by (simp add: limbs_are_def)
  also have "\<dots> = map of_nat (map (digits ?b) (chunks per ds))" by (simp add: chunks_map comp_def flip: horner_digits)
  finally show ?thesis by (simp add: limbs_are_def)
qed

lemma digits_bound: "list_all (\<lambda>d. d \<le> B) ds \<Longrightarrow> length ds \<le> per \<Longrightarrow> digits b ds \<le> (\<Sum>i<per. b ^ i) * B"
proof (induction ds arbitrary: per)
  case (Cons d ds)
  obtain p where p: "per = Suc p" using Cons.prems by (cases per) auto
  have "digits b ds \<le> (\<Sum>i<p. b ^ i) * B" using Cons p by simp
  then have "d + b * digits b ds \<le> B + b * ((\<Sum>i<p. b ^ i) * B)" using Cons.prems by (auto intro!: add_mono mult_le_mono2)
  also have "\<dots> = (\<Sum>i<per. b ^ i) * B"
    unfolding p sum.lessThan_Suc_shift by (simp add: sum_distrib_left sum_distrib_right algebra_simps)
  finally show ?case by simp
qed simp

lemma sound_equal_regroup:
  assumes repr: "scalar_repr (repr :: 'f::field \<Rightarrow> nat)" and w: "assignment (w :: var \<Rightarrow> 'f)"
    and a: "limbs_are w (bn_limbs a) as" "list_all (\<lambda>d. d \<le> B) as" and b: "limbs_are w (bn_limbs b) bs" "list_all (\<lambda>d. d \<le> B) bs"
    and M: "max (max_word (bn_params a)) (max_word (bn_params b)) = int M" and lw: "limb_width (bn_params a) = lw"
    and per: "per = (CAPACITY - carry_bits (int M) lw) div lw" and R: "R = (\<Sum>i<per. (2 ^ lw) ^ i)"
    and fit: "carries_fit (lw * per) (carry_bits (int (R * M)) (lw * per)) (R * B) (R * M)"
  shows "sound w (equal_when_carried_regroup repr a b) (\<lambda>_. digits (2 ^ lw) as = digits (2 ^ lw) bs)"
proof (cases "limb_width (bn_params b) = lw")
  case True
  have per0: "0 < per" using fit by (auto simp: carries_fit_def)
  have Rint: "(\<Sum>i<per. 2 ^ (i * lw)) = int R" by (simp add: R power_mult [symmetric] mult.commute)
  have grouped: "limb_width (bn_params (group_limbs a per)) = lw * per"
    "max (max_word (bn_params (group_limbs a per))) (max_word (bn_params (group_limbs b per))) = int (R * M)"
    using lw True M Rint by (simp_all add: group_limbs_def Let_def) (simp add: max_mult_distrib_left flip: M)
  have bound: "list_all (\<lambda>d. d \<le> R * B) (map (digits (2 ^ lw)) (chunks per ds))" if "list_all (\<lambda>d. d \<le> B) ds" for ds
  proof -
    have "digits (2 ^ lw) c \<le> R * B" if c: "c \<in> set (chunks per ds)" for c
    proof -
      have "list_all (\<lambda>d. d \<le> B) c"
        using \<open>list_all (\<lambda>d. d \<le> B) ds\<close> c concat_chunks [OF per0, of ds] by (metis (mono_tags, lifting) UN_I list_all_iff set_concat)
      then show ?thesis unfolding R by (rule digits_bound) (rule chunks_le [OF per0 c])
    qed
    then show ?thesis by (auto simp: list_all_iff)
  qed
  note cmp = sound_equal_when_carried [OF repr w group_limbs_are [OF a(1), unfolded lw] bound [OF a(2)] group_limbs_are [OF b(1), unfolded True] bound [OF b(2)] grouped(2,1) fit]
  have "digits (2 ^ lw) ds = digits (2 ^ (lw * per)) (map (digits (2 ^ lw)) (chunks per ds))" for ds
    using digits_chunks [OF per0, of "2 ^ lw" ds] by (simp add: power_mult)
  with cmp have same: "sound w (equal_when_carried repr (group_limbs a per) (group_limbs b per)) (\<lambda>_. digits (2 ^ lw) as = digits (2 ^ lw) bs)"
    by (auto elim: sound_mono)
  show ?thesis
    unfolding equal_when_carried_regroup_def enforce_limb_width_agreement_def Let_def lw True M if_P [OF refl]
    by (rule sound_sbind [OF sound_sret [of "\<lambda>x. x = lw", OF refl]], rule sound_sbind [OF sound_True]) (use same in \<open>simp add: sound_ns flip: per\<close>)
next
  case False
  then show ?thesis by (simp add: equal_when_carried_regroup_def enforce_limb_width_agreement_def lw sbind_def sfail_def sound_def)
qed


section \<open>Allocation and products\<close>

lemma sound_alloc_limbs:
  "sound w (smap (\<lambda>i. sbind (alloc (f i)) (\<lambda>v. sret [(v, 1 :: 'f::field)])) [0..<n]) (\<lambda>ls. length ls = n)"
  by (rule sound_mono [OF sound_smap [OF sound_True]]) (auto dest: list_all2_lengthD)

lemma sound_alloc_from_nat: "sound w (alloc_from_nat f lw n) (\<lambda>b. length (bn_limbs b) = n \<and> bn_params b = params_new lw n)"
  unfolding alloc_from_nat_def Let_def by (rule sound_sbind [OF sound_True], rule sound_sbind [OF sound_alloc_limbs], rule sound_sret) simp

lemma sound_well_formed:
  assumes w: "assignment w" and lw: "0 < limb_width (bn_params b)"
  shows "sound w (assert_well_formed repr b) (\<lambda>_. \<exists>ds. limbs_are w (bn_limbs b) ds \<and> list_all (\<lambda>d. d < 2 ^ limb_width (bn_params b)) ds)"
proof -
  let ?P = "\<lambda>l d. ev w l = of_nat d \<and> d < 2 ^ limb_width (bn_params b)"
  have "sound w (assert_well_formed repr b) (\<lambda>_. \<forall>x \<in> set (enumerate 0 (as_limbs b)). \<exists>d. ?P (num_lc (snd x)) d)"
    unfolding assert_well_formed_def
    by (rule sound_sfor) (auto intro!: sound_ns sound_mono [OF sound_fits_in_bits [OF w lw]])
  then show ?thesis
  proof (rule sound_mono)
    assume all: "\<forall>x \<in> set (enumerate 0 (as_limbs b)). \<exists>d. ?P (num_lc (snd x)) d"
    have "\<exists>d. ?P (bn_limbs b ! i) d" if i: "i < length (bn_limbs b)" for i
    proof -
      have "(i, as_limbs b ! i) \<in> set (enumerate 0 (as_limbs b))" using i by (simp add: in_set_enumerate_eq as_limbs_def)
      moreover have "num_lc (as_limbs b ! i) = bn_limbs b ! i" using i by (simp add: as_limbs_def nth_enumerate_eq)
      ultimately show ?thesis using all by force
    qed
    then obtain f where "\<forall>i < length (bn_limbs b). ?P (bn_limbs b ! i) (f i)" by metis
    then have "limbs_are w (bn_limbs b) (map f [0..<length (bn_limbs b)])" "list_all (\<lambda>d. d < 2 ^ limb_width (bn_params b)) (map f [0..<length (bn_limbs b)])"
      by (auto simp: limbs_are_def list_all_iff intro!: nth_equalityI)
    then show "\<exists>ds. limbs_are w (bn_limbs b) ds \<and> list_all (\<lambda>d. d < 2 ^ limb_width (bn_params b)) ds" by blast
  qed
qed

lemma sound_alloc_product:
  assumes repr: "scalar_repr (repr :: 'f::field \<Rightarrow> nat)" and p: "limbs_are (w :: var \<Rightarrow> 'f) (coefficients p) xs" "xs \<noteq> []"
    and q: "limbs_are w (coefficients q) ys" "ys \<noteq> []" and small: "length xs + length ys < modulus"
  shows "sound w (alloc_product p q) (\<lambda>r. limbs_are w (coefficients r) (pconv xs ys))"
proof -
  let ?n = "length (coefficients p) + length (coefficients q) - 1"
  have len: "length (coefficients p) = length xs" "length (coefficients q) = length ys" using limbs_are_length p(1) q(1) by blast+
  let ?rule = "\<lambda>cs i. horner (of_nat i) (map (ev w) (coefficients p)) * horner (of_nat i) (map (ev w) (coefficients q)) = horner (of_nat i :: 'f) (map (ev w) cs)"
  have fin: "limbs_are w cs (pconv xs ys)" if cs: "length cs = ?n" and rules: "\<forall>i \<in> set [1..<Suc ?n]. ?rule cs i" for cs
  proof -
    have pts: "distinct (map of_nat [1..<Suc ?n] :: 'f list)"
      using scalar_of_nat_inj [OF repr] small len by (auto simp: distinct_map inj_on_def simp del: upt_Suc)
    have "map (ev w) cs = pconv (map of_nat xs) (map of_nat ys)"
    proof (rule horner_inj [OF _ _ pts])
      show "length (map (ev w) cs) = length (pconv (map of_nat xs) (map of_nat ys :: 'f list))"
        using length_pconv [of "map of_nat xs" "map of_nat ys :: 'f list"] p(2) q(2) cs len by simp
      show "length (map (ev w) cs) \<le> length (map of_nat [1..<Suc ?n])" using cs by (simp del: upt_Suc)
      show "\<forall>x \<in> set (map of_nat [1..<Suc ?n]). horner x (map (ev w) cs) = horner x (pconv (map of_nat xs) (map of_nat ys))"
        using rules p(1) q(1) by (auto simp: horner_pconv limbs_are_def simp del: upt_Suc)
    qed
    then show ?thesis by (simp add: limbs_are_def of_nat_pconv)
  qed
  have points: "sound w (sfor (\<lambda>i. enforce (''pointwise product @ '' @ show_nat i) (powers_lc 1 (of_nat i) (coefficients p)) (powers_lc 1 (of_nat i) (coefficients q))
      (powers_lc 1 (of_nat i) cs)) [1..<Suc ?n]) (\<lambda>_. \<forall>i \<in> set [1..<Suc ?n]. ?rule cs i)" for cs
    by (rule sound_sfor) (auto intro!: sound_mono [OF sound_enforce])
  show ?thesis
    unfolding alloc_product_def Let_def
    by (rule sound_sbind [OF sound_alloc_limbs], rule sound_sbind [OF points], rule sound_sret) (simp add: fin del: upt_Suc)
qed

lemma limbs_are_padd: "limbs_are w ls xs \<Longrightarrow> limbs_are w ks ys \<Longrightarrow> limbs_are w (lc_padd ls ks) (padd xs ys)"
proof (induction ls ks arbitrary: xs ys rule: lc_padd.induct)
  case (3 a as b bs)
  then show ?case by (cases xs; cases ys) (auto simp: limbs_are_def)
qed (auto simp: limbs_are_def split: list.splits elim!: padd.elims)

section \<open>Multiplication modulo the order\<close>

text \<open>A number of \<open>n\<close> limbs of 64 bits.\<close>

definition bn_ok :: "(var \<Rightarrow> 'f::field) \<Rightarrow> nat \<Rightarrow> 'f BigNat \<Rightarrow> nat list \<Rightarrow> bool" where
  "bn_ok w n b ds \<longleftrightarrow> limbs_are w (bn_limbs b) ds \<and> list_all (\<lambda>d. d < 2 ^ 64) ds \<and> length ds = n \<and> bn_params b = params_new 64 n"

lemma bit_length_eq: "2 ^ k \<le> n \<Longrightarrow> n < 2 ^ Suc k \<Longrightarrow> bit_length n = Suc k"
proof (induction k arbitrary: n)
  case 0
  then show ?case by (simp add: bit_length.simps [of n] bit_length.simps [of 0])
next
  case (Suc k)
  then have "2 ^ k \<le> n div 2" "n div 2 < 2 ^ Suc k" "n \<noteq> 0" by auto
  then show ?case using Suc.IH by (simp add: bit_length.simps [of n])
qed

text \<open>A word that is a little below a power of two rounds to it.\<close>

lemma carry_bits_round:
  assumes "2 ^ (k + 53) \<le> n + 2 ^ k" "n < 2 ^ (k + 53)" "2 ^ (k - 1) < n mod 2 ^ k"
  shows "carry_bits (int n) lw = k + 54 - lw"
proof -
  have k: "0 < k" using assms(3) by (cases k) auto
  have pow: "(2 :: nat) ^ (k + 53) = 2 ^ 53 * 2 ^ k" "(2 :: nat) ^ (k + 52) + 2 ^ k \<le> 2 ^ (k + 53)" by (simp_all add: power_add)
  have "2 ^ (k + 52) \<le> n" using assms(1) pow(2) by linarith
  then have len: "bit_length n = k + 53" using bit_length_eq [of "k + 52" n] assms(2) by (simp add: add.commute)
  have "n div 2 ^ k < 2 ^ 53" using assms(2) unfolding pow(1) by (rule less_mult_imp_div_less)
  moreover have "(2 ^ 53 - 1) * 2 ^ k \<le> n" using assms(1) unfolding pow(1) by (simp add: algebra_simps)
  then have "(2 ^ 53 - 1) * 2 ^ k div 2 ^ k \<le> n div 2 ^ k" by (rule div_le_mono)
  then have "2 ^ 53 - 1 \<le> n div 2 ^ k" by simp
  ultimately have q: "Suc (n div 2 ^ k) = 2 ^ 53" by linarith
  have "f64_round n = 2 ^ (k + 53)"
    using len k assms(3) q unfolding f64_round_def Let_def len pow(1) by simp
  moreover have "bit_length (2 * 2 ^ (k + 53) - 1) = Suc (k + 53)"
  proof (rule bit_length_eq)
    have "1 \<le> (2 :: nat) ^ (k + 53)" by simp
    then show "(2 :: nat) ^ (k + 53) \<le> 2 * 2 ^ (k + 53) - 1" "2 * 2 ^ (k + 53) - 1 < (2 :: nat) ^ Suc (k + 53)"
      unfolding power_Suc by linarith+
  qed
  ultimately show ?thesis by (simp add: carry_bits_def ceil_log2_def)
qed

definition PRODUCT_WORD :: nat where "PRODUCT_WORD = 4 * (2 ^ 64 - 1) * (2 ^ 64 - 1) + (2 ^ 64 - 1)"

lemma word_bits: "bit_length (2 ^ 64 - 1) = 64"
  by (rule bit_length_eq [of 63, simplified Suc_numeral, simplified]) simp_all

lemma product_carries:
  "carry_bits (int PRODUCT_WORD) 64 = 67" "carry_bits (int ((1 + 2 ^ 64) * PRODUCT_WORD)) (64 * 2) = 67"
  "carries_fit (64 * 2) 67 ((1 + 2 ^ 64) * 2 ^ 132) ((1 + 2 ^ 64) * PRODUCT_WORD)"
  using carry_bits_round [of 77 PRODUCT_WORD 64] carry_bits_round [of 141 "(1 + 2 ^ 64) * PRODUCT_WORD" "64 * 2"]
  by (simp_all add: PRODUCT_WORD_def carries_fit_def modulus_def)

lemma plain_carries:
  "carry_bits (int (2 ^ 64 - 1)) 64 = 1" "carry_bits (int ((1 + 2 ^ 64 + 2 ^ 128) * (2 ^ 64 - 1))) (64 * 3) = 1"
  "carries_fit (64 * 3) 1 ((1 + 2 ^ 64 + 2 ^ 128) * 2 ^ 64) ((1 + 2 ^ 64 + 2 ^ 128) * (2 ^ 64 - 1))"
  using carry_bits_round [of 11 "2 ^ 64 - 1" 64] carry_bits_round [of 139 "(1 + 2 ^ 64 + 2 ^ 128) * (2 ^ 64 - 1)" "64 * 3"]
  by (simp_all add: carries_fit_def modulus_def)


lemma alloc_checked:
  assumes w: "assignment (w :: var \<Rightarrow> 'f::field)"
    and k: "\<And>b ds. bn_ok w n b ds \<Longrightarrow> sound w (k b) P"
  shows "sound w (sbind (ns u (alloc_from_nat f 64 n)) (\<lambda>b. sbind (ns v (assert_well_formed repr b)) (\<lambda>_. k b))) P"
proof (rule sound_sbind [OF sound_ns [OF sound_alloc_from_nat]])
  fix b :: "'f BigNat" assume b: "length (bn_limbs b) = n \<and> bn_params b = params_new 64 n"
  show "sound w (sbind (ns v (assert_well_formed repr b)) (\<lambda>_. k b)) P"
  proof (rule sound_sbind [OF sound_ns [OF sound_well_formed [OF w]]])
    assume "\<exists>ds. limbs_are w (bn_limbs b) ds \<and> list_all (\<lambda>d. d < 2 ^ limb_width (bn_params b)) ds"
    then obtain ds where "bn_ok w n b ds" using b limbs_are_length by (fastforce simp: params_new_def bn_ok_def)
    then show "sound w (k b) P" by (rule k)
  qed (use b in \<open>simp add: params_new_def\<close>)
qed

lemma bn_okD:
  assumes "bn_ok w n b ds"
  shows "limbs_are w (bn_limbs b) ds" "length (bn_limbs b) = n" "length ds = n" "list_all (\<lambda>d. d \<le> 2 ^ 64) ds"
    "limb_width (bn_params b) = 64" "max_word (bn_params b) = 2 ^ 64 - 1" "n_limbs (bn_params b) = n" "min_bits (bn_params b) = 0"
  using assms limbs_are_length by (auto simp: bn_ok_def params_new_def list_all_iff less_imp_le)

text \<open>The sum of a quotient's product and a remainder, as the right-hand side of a reduction.\<close>

lemma right_side:
  assumes "bn_ok w k q qs" "bn_ok w 4 m ms" "bn_ok w 4 r rs" "k \<le> 8" "limbs_are w (coefficients p) (pconv qs ms)"
  shows "limbs_are w (coefficients (poly_sum p (poly_from r))) (padd (pconv qs ms) rs)"
    "list_all (\<lambda>d. d \<le> 2 ^ 132) (padd (pconv qs ms) rs)"
    "digits b (padd (pconv qs ms) rs) = digits b qs * digits b ms + digits b rs"
proof -
  note q = bn_okD [OF assms(1)] and m = bn_okD [OF assms(2)] and r = bn_okD [OF assms(3)]
  show "limbs_are w (coefficients (poly_sum p (poly_from r))) (padd (pconv qs ms) rs)"
    using limbs_are_padd [OF assms(5) r(1)] by (simp add: poly_sum_def poly_from_def)
  have "list_all (\<lambda>d. d \<le> length qs * (2 ^ 64 * 2 ^ 64) + 2 ^ 64) (padd (pconv qs ms) rs)"
    by (rule padd_bound [OF pconv_bound [OF q(4) m(4)] r(4)])
  moreover have "length qs * (2 ^ 64 * 2 ^ 64) + 2 ^ 64 \<le> (2 ^ 132 :: nat)" using assms(4) q(3) by simp
  ultimately show "list_all (\<lambda>d. d \<le> 2 ^ 132) (padd (pconv qs ms) rs)" by (auto simp: list_all_iff intro: order_trans)
  show "digits b (padd (pconv qs ms) rs) = digits b qs * digits b ms + digits b rs" by (simp add: digits_padd digits_pconv)
qed

lemma sound_carry_check:
  assumes repr: "scalar_repr (repr :: 'f::field \<Rightarrow> nat)" and w: "assignment (w :: var \<Rightarrow> 'f)"
    and a: "limbs_are w (bn_limbs a) as" "list_all (\<lambda>d. d \<le> 2 ^ 132) as" and b: "limbs_are w (bn_limbs b) bs" "list_all (\<lambda>d. d \<le> 2 ^ 132) bs"
    and M: "max (max_word (bn_params a)) (max_word (bn_params b)) = int PRODUCT_WORD" and lw: "limb_width (bn_params a) = 64"
  shows "sound w (equal_when_carried_regroup repr a b) (\<lambda>_. digits (2 ^ 64) as = digits (2 ^ 64) bs)"
proof (rule sound_equal_regroup [OF repr w a b M lw])
  show "(2 :: nat) = (CAPACITY - carry_bits (int PRODUCT_WORD) 64) div 64" by (simp add: product_carries CAPACITY_def NUM_BITS_def)
  show "(1 + 2 ^ 64 :: nat) = (\<Sum>i<2. (2 ^ 64) ^ i)" by (simp add: numeral_2_eq_2)
  show "carries_fit (64 * 2) (carry_bits (int ((1 + 2 ^ 64) * PRODUCT_WORD)) (64 * 2)) ((1 + 2 ^ 64) * 2 ^ 132) ((1 + 2 ^ 64) * PRODUCT_WORD)"
    using product_carries(3) unfolding product_carries(2) .
qed

lemma sbind_sret: "sbind (sret x) k = k x"
  by (simp add: sbind_def sret_def fun_eq_iff split: prod.splits)

lemma limb_width_agreement: "bn_ok w n a as \<Longrightarrow> bn_ok w k b bs \<Longrightarrow> enforce_limb_width_agreement a b = sret 64"
  by (simp add: enforce_limb_width_agreement_def bn_okD)

lemma bn_bits: "bn_ok w 4 b ds \<Longrightarrow> bn_n_bits b = sret 256"
  using word_bits by (simp add: bn_n_bits_def bn_okD sassert_def sbind_sret)

lemma quotient_counts: "quotient_limb_count (256 + 256 - 0) 64 = 8" "quotient_limb_count (256 - 0) 64 = 4"
  by (simp_all add: quotient_limb_count_def)

lemma sound_mult_mod:
  assumes repr: "scalar_repr (repr :: 'f::field \<Rightarrow> nat)" and w: "assignment (w :: var \<Rightarrow> 'f)"
    and a: "bn_ok w 4 a as" and b: "bn_ok w 4 b bs" and m: "bn_ok w 4 m ms"
  shows "sound w (mult_mod repr a b m) (\<lambda>(q, r). \<exists>qs rs. bn_ok w 8 q qs \<and> bn_ok w 4 r rs \<and>
    digits (2 ^ 64) as * digits (2 ^ 64) bs = digits (2 ^ 64) qs * digits (2 ^ 64) ms + digits (2 ^ 64) rs)"
proof -
  note A = bn_okD [OF a] and B = bn_okD [OF b] and C = bn_okD [OF m]
  have n: "2 \<le> modulus" "12 < modulus" by (simp_all add: modulus_def)
  have max_words: "max (int (min 4 4) * (2 ^ 64 - 1) * (2 ^ 64 - 1)) (int (min 8 4) * (2 ^ 64 - 1) * (2 ^ 64 - 1) + (2 ^ 64 - 1)) = int PRODUCT_WORD"
    by (simp add: PRODUCT_WORD_def)
  show ?thesis
    unfolding mult_mod_def Let_def limb_width_agreement [OF a b] bn_bits [OF a] bn_bits [OF b] sbind_sret A(5) C(2,8) quotient_counts
  proof (rule alloc_checked [OF w], rule alloc_checked [OF w])
    fix q r :: "'f BigNat" and qs rs
    assume q: "bn_ok w 8 q qs" and r: "bn_ok w 4 r rs"
    note Q = bn_okD [OF q] and R = bn_okD [OF r]
    have ne: "as \<noteq> []" "bs \<noteq> []" "ms \<noteq> []" "qs \<noteq> []" using A(3) B(3) C(3) Q(3) by auto
    have left: "sound w (alloc_product (poly_from a) (poly_from b)) (\<lambda>p. limbs_are w (coefficients p) (pconv as bs))"
      by (rule sound_alloc_product [OF repr _ ne(1) _ ne(2)]) (use A B n in \<open>simp_all add: poly_from_def\<close>)
    have right: "sound w (alloc_product (poly_from q) (poly_from m)) (\<lambda>p. limbs_are w (coefficients p) (pconv qs ms))"
      by (rule sound_alloc_product [OF repr _ ne(4) _ ne(3)]) (use Q C n in \<open>simp_all add: poly_from_def\<close>)
    have bound: "list_all (\<lambda>d. d \<le> 2 ^ 132) (pconv as bs)"
      using pconv_bound [OF A(4) B(4)] A(3) by (auto simp: list_all_iff intro: order_trans)
    show "sound w (sbind (ns ''left'' (alloc_product (poly_from a) (poly_from b))) (\<lambda>l.
        sbind (ns ''right_product'' (alloc_product (poly_from q) (poly_from m))) (\<lambda>p.
        sbind (ns ''carry'' (equal_when_carried_regroup repr
          (from_poly repr l 64 (int (min (length (bn_limbs a)) (length (bn_limbs b))) * max_word (bn_params a) * max_word (bn_params b)))
          (from_poly repr (poly_sum p (poly_from r)) 64 (right_max_word q m r)))) (\<lambda>_. sret (q, r)))))
        (\<lambda>(q, r). \<exists>qs rs. bn_ok w 8 q qs \<and> bn_ok w 4 r rs \<and>
          digits (2 ^ 64) as * digits (2 ^ 64) bs = digits (2 ^ 64) qs * digits (2 ^ 64) ms + digits (2 ^ 64) rs)"
      (is "sound w _ ?post")
    proof (rule sound_sbind [OF sound_ns [OF left]], rule sound_sbind [OF sound_ns [OF right]])
      fix l p :: "'f Polynomial"
      assume l: "limbs_are w (coefficients l) (pconv as bs)" and p: "limbs_are w (coefficients p) (pconv qs ms)"
      note rhs = right_side [OF q m r _ p]
      show "sound w (sbind (ns ''carry'' (equal_when_carried_regroup repr
          (from_poly repr l 64 (int (min (length (bn_limbs a)) (length (bn_limbs b))) * max_word (bn_params a) * max_word (bn_params b)))
          (from_poly repr (poly_sum p (poly_from r)) 64 (right_max_word q m r)))) (\<lambda>_. sret (q, r))) ?post"
      proof (rule sound_sbind [OF sound_ns [OF sound_carry_check [OF repr w, where as = "pconv as bs" and bs = "padd (pconv qs ms) rs"]]])
        assume "digits (2 ^ 64) (pconv as bs) = digits (2 ^ 64) (padd (pconv qs ms) rs)"
        then show "sound w (sret (q, r)) ?post" using q r by (intro sound_sret) (auto simp: digits_pconv digits_padd)
      qed (use l rhs bound max_words in \<open>simp_all add: from_poly_def right_max_word_def A B C Q R\<close>)
    qed
  qed
qed

lemma sound_plain_equal:
  assumes repr: "scalar_repr (repr :: 'f::field \<Rightarrow> nat)" and w: "assignment (w :: var \<Rightarrow> 'f)" and a: "bn_ok w n a as" and b: "bn_ok w k b bs"
  shows "sound w (equal_when_carried_regroup repr a b) (\<lambda>_. digits (2 ^ 64) as = digits (2 ^ 64) bs)"
proof (rule sound_equal_regroup [OF repr w bn_okD(1,4) [OF a] bn_okD(1,4) [OF b]])
  show "max (max_word (bn_params a)) (max_word (bn_params b)) = int (2 ^ 64 - 1)" using bn_okD(6) [OF a] bn_okD(6) [OF b] by simp
  show "limb_width (bn_params a) = 64" by (rule bn_okD(5) [OF a])
  show "(3 :: nat) = (CAPACITY - carry_bits (int (2 ^ 64 - 1)) 64) div 64" unfolding plain_carries by (simp add: CAPACITY_def NUM_BITS_def)
  show "(1 + 2 ^ 64 + 2 ^ 128 :: nat) = (\<Sum>i<3. (2 ^ 64) ^ i)" by (simp add: numeral_3_eq_3)
  show "carries_fit (64 * 3) (carry_bits (int ((1 + 2 ^ 64 + 2 ^ 128) * (2 ^ 64 - 1))) (64 * 3)) ((1 + 2 ^ 64 + 2 ^ 128) * 2 ^ 64) ((1 + 2 ^ 64 + 2 ^ 128) * (2 ^ 64 - 1))"
    using plain_carries(3) unfolding plain_carries(2) .
qed

lemma sound_red_mod:
  assumes repr: "scalar_repr (repr :: 'f::field \<Rightarrow> nat)" and w: "assignment (w :: var \<Rightarrow> 'f)" and a: "bn_ok w 4 a as" and m: "bn_ok w 4 m ms"
  shows "sound w (red_mod repr a m) (\<lambda>r. \<exists>q rs. bn_ok w 4 r rs \<and> digits (2 ^ 64) as = q * digits (2 ^ 64) ms + digits (2 ^ 64) rs)"
proof -
  note A = bn_okD [OF a] and C = bn_okD [OF m]
  have n: "8 < modulus" by (simp add: modulus_def)
  have max_words: "max (2 ^ 64 - 1) (int (min 4 4) * (2 ^ 64 - 1) * (2 ^ 64 - 1) + (2 ^ 64 - 1)) = int PRODUCT_WORD"
    by (simp add: PRODUCT_WORD_def)
  have bound: "list_all (\<lambda>d. d \<le> 2 ^ 132) as" using A(4) by (auto simp: list_all_iff intro: order_trans)
  show ?thesis
    unfolding red_mod_def Let_def limb_width_agreement [OF a m] bn_bits [OF a] sbind_sret A(5) C(2,8) quotient_counts
  proof (rule alloc_checked [OF w], rule alloc_checked [OF w])
    fix q r :: "'f BigNat" and qs rs
    assume q: "bn_ok w 4 q qs" and r: "bn_ok w 4 r rs"
    note Q = bn_okD [OF q] and R = bn_okD [OF r]
    have ne: "ms \<noteq> []" "qs \<noteq> []" using C(3) Q(3) by auto
    have right: "sound w (alloc_product (poly_from q) (poly_from m)) (\<lambda>p. limbs_are w (coefficients p) (pconv qs ms))"
      by (rule sound_alloc_product [OF repr _ ne(2) _ ne(1)]) (use Q C n in \<open>simp_all add: poly_from_def\<close>)
    show "sound w (sbind (ns ''right_product'' (alloc_product (poly_from q) (poly_from m))) (\<lambda>p.
        sbind (ns ''carry'' (equal_when_carried_regroup repr a
          (from_poly repr (poly_sum p (poly_from r)) 64 (right_max_word q m r)))) (\<lambda>_. sret r)))
        (\<lambda>r. \<exists>q rs. bn_ok w 4 r rs \<and> digits (2 ^ 64) as = q * digits (2 ^ 64) ms + digits (2 ^ 64) rs)"
      (is "sound w _ ?post")
    proof (rule sound_sbind [OF sound_ns [OF right]])
      fix p :: "'f Polynomial"
      assume p: "limbs_are w (coefficients p) (pconv qs ms)"
      note rhs = right_side [OF q m r _ p]
      show "sound w (sbind (ns ''carry'' (equal_when_carried_regroup repr a
          (from_poly repr (poly_sum p (poly_from r)) 64 (right_max_word q m r)))) (\<lambda>_. sret r)) ?post"
      proof (rule sound_sbind [OF sound_ns [OF sound_carry_check [OF repr w A(1), where bs = "padd (pconv qs ms) rs"]]])
        assume "digits (2 ^ 64) as = digits (2 ^ 64) (padd (pconv qs ms) rs)"
        then show "sound w (sret r) ?post" using r by (intro sound_sret) (auto simp: digits_pconv digits_padd)
      qed (use rhs bound max_words in \<open>simp_all add: from_poly_def right_max_word_def A C Q R\<close>)
    qed
  qed
qed

section \<open>Constants and bits\<close>

lemma limb_list_digits:
  "0 \<le> x \<Longrightarrow> x < 2 ^ (n * lw) \<Longrightarrow> int (digits (2 ^ lw) (map nat (limb_list lw n x))) = x \<and>
    list_all (\<lambda>d. 0 \<le> d \<and> d < 2 ^ lw) (limb_list lw n x) \<and> length (limb_list lw n x) = n"
proof (induction n arbitrary: x)
  case (Suc n)
  have "x div 2 ^ lw < 2 ^ (n * lw)"
  proof (rule ccontr)
    assume "\<not> x div 2 ^ lw < 2 ^ (n * lw)"
    then have "2 ^ (n * lw) * 2 ^ lw \<le> (x div 2 ^ lw) * 2 ^ lw" by (intro mult_right_mono) auto
    also have "\<dots> \<le> x" using div_mult_mod_eq [of x "2 ^ lw"] by (smt (verit) pos_mod_sign zero_less_power)
    finally show False using Suc.prems(2) by (simp add: power_add mult.commute)
  qed
  then have "int (digits (2 ^ lw) (map nat (limb_list lw n (x div 2 ^ lw)))) = x div 2 ^ lw \<and>
    list_all (\<lambda>d. 0 \<le> d \<and> d < 2 ^ lw) (limb_list lw n (x div 2 ^ lw)) \<and> length (limb_list lw n (x div 2 ^ lw)) = n"
    using Suc.IH [of "x div 2 ^ lw"] Suc.prems(1) by (simp add: pos_imp_zdiv_nonneg_iff)
  then show ?case by simp
qed simp

lemma sound_bignat_constant:
  assumes w: "assignment (w :: var \<Rightarrow> 'f::field)" and x: "0 \<le> x" "x < 2 ^ (64 * n)"
  shows "sound w (alloc_bignat_constant repr x 64 n) (\<lambda>b. \<exists>ds. bn_ok w n b ds \<and> int (digits (2 ^ 64) ds) = x)"
proof -
  let ?ls = "limb_list 64 n x" and ?fs = "map of_int (limb_list 64 n x) :: 'f list"
  have ls: "int (digits (2 ^ 64) (map nat ?ls)) = x" "list_all (\<lambda>d. 0 \<le> d \<and> d < 2 ^ 64) ?ls" "length ?ls = n"
    using limb_list_digits [of x n 64] x by (simp_all add: mult.commute)
  have limbs: "(nat_to_limbs x 64 n :: synth_error + 'f list) = Inr ?fs" using x by (simp add: nat_to_limbs_def mult.commute)
  have alloc: "sound w (alloc_from_limbs repr (Inr ?fs) None 64 n) (\<lambda>b. length (bn_limbs b) = n \<and> bn_params b = params_new 64 n)"
    unfolding alloc_from_limbs_def Let_def
    by (rule sound_sbind [OF sound_alloc_limbs], rule sound_sret) (simp add: params_new_def int_with_n_ones_def)
  show ?thesis
    unfolding alloc_bignat_constant_def limbs sum.case
  proof (rule sound_sbind [OF sound_ns [OF alloc]], rule sound_sbind [OF sound_sfor [where R = "\<lambda>i. ev w (bn_limbs b ! i) = ?fs ! i" for b]])
    fix b :: "'f BigNat" and i
    show "sound w (enforce (''check limb '' @ show_nat i) (bn_limbs b ! i) [(one, 1)] [(one, ?fs ! i)]) (\<lambda>_. ev w (bn_limbs b ! i) = ?fs ! i)"
      by (rule sound_mono [OF sound_enforce]) (use w in \<open>simp add: assignment_def one_def\<close>)
  next
    fix b :: "'f BigNat" assume b: "length (bn_limbs b) = n \<and> bn_params b = params_new 64 n" and eq: "\<forall>i \<in> set [0..<n]. ev w (bn_limbs b ! i) = ?fs ! i"
    have "limbs_are w (bn_limbs b) (map nat ?ls)"
      using b eq ls unfolding limbs_are_def by (auto simp: list_all_length intro!: nth_equalityI)
    moreover have "list_all (\<lambda>d. d < 2 ^ 64) (map nat ?ls)" using ls(2) by (auto simp: list_all_iff)
    ultimately have "bn_ok w n b (map nat ?ls)" using b ls(3) by (simp add: bn_ok_def)
    then show "sound w (sret b) (\<lambda>b. \<exists>ds. bn_ok w n b ds \<and> int (digits (2 ^ 64) ds) = x)" using ls(1) by (intro sound_sret) blast
  qed
qed

lemma digits_concat: "list_all (\<lambda>bs. length bs = n) bss \<Longrightarrow> digits b (concat bss) = digits (b ^ n) (map (digits b) bss)"
  by (induction bss) (simp_all add: digits_append)

lemma digits_bits_less: "digits 2 (map of_bool bs) < 2 ^ length bs"
  using digits_less [of 2 "map of_bool bs"] by (simp add: list_all_iff)

text \<open>The number of a list of bits, the least significant first.\<close>

definition le_nat :: "(var \<Rightarrow> 'f::field) \<Rightarrow> 'f Boolean list \<Rightarrow> nat" where
  "le_nat w bs = digits 2 (map of_bool (bvals w bs))"

lemma le_nat_horner: "list_all (is_bit w) bs \<Longrightarrow> horner 2 (map (ev w) (map bool_lc bs)) = of_nat (le_nat w bs)"
proof -
  assume "list_all (is_bit w) bs"
  then have eq: "map (ev w) (map bool_lc bs) = map of_nat (map of_bool (bvals w bs))" by (auto simp: list_all_iff is_bit_of_bool)
  show ?thesis unfolding eq le_nat_def using horner_digits [of 2 "map of_bool (bvals w bs)", where 'f = 'a] by simp
qed

lemma le_nat_less: "le_nat w bs < 2 ^ length bs"
  using digits_bits_less [of "bvals w bs"] by (simp add: le_nat_def)

lemma sound_decompose_allocated:
  assumes repr: "scalar_repr (repr :: 'f::field \<Rightarrow> nat)" and L: "bellpepper_sound L" and w: "assignment (w :: var \<Rightarrow> 'f)" and b: "bn_ok w n b ds"
  shows "sound w (decompose_allocated L repr b) (\<lambda>bs. length bs = 64 * n \<and> list_all (is_bit w) bs \<and> le_nat w bs = digits (2 ^ 64) ds)"
proof -
  note B = bn_okD [OF b]
  let ?R = "\<lambda>i bs. length bs = 64 \<and> list_all (is_bit w) bs \<and> le_nat w bs = ds ! i"
  have limb: "sound w (sbind (smap (\<lambda>j. ns (''limb_'' @ show_nat i @ ''_bit_'' @ show_nat j)
           (alloc_bit L (map_option (\<lambda>vs. bit (repr (vs ! i)) j) (bn_limb_values b)))) [0..<64]) (\<lambda>bs.
         sbind (enforce (''pack_eq limb_'' @ show_nat i) (powers_lc 1 2 (map bool_lc bs)) [(one, 1)] (bn_limbs b ! i)) (\<lambda>_.
         sret bs))) (?R i)" if i: "i < n" for i
  proof (rule sound_sbind [OF sound_smap [where R = "\<lambda>_. is_bit w"]], rule sound_ns [OF sound_alloc_bit [OF L w]])
    fix bs assume "list_all2 (\<lambda>_. is_bit w) [0..<64 :: nat] bs"
    then have bs: "length bs = 64" "list_all (is_bit w) bs" by (auto simp: list_all2_conv_all_nth list_all_length simp del: upt_rec_numeral)
    have "le_nat w bs = ds ! i" if "(of_nat (le_nat w bs) :: 'f) = ev w (bn_limbs b ! i)"
    proof -
      have lim: "ds ! i < 2 ^ 64" using b i by (simp add: bn_ok_def list_all_length)
      have "le_nat w bs < 2 ^ 64" using le_nat_less [of w bs] bs(1) by simp
      then show ?thesis
        using scalar_of_nat_inj [OF repr, of "le_nat w bs" "ds ! i"] that limbs_are_nth [OF B(1)] B(2) i lim by (simp add: modulus_def)
    qed
    then show "sound w (sbind (enforce (''pack_eq limb_'' @ show_nat i) (powers_lc 1 2 (map bool_lc bs)) [(one, 1)] (bn_limbs b ! i)) (\<lambda>_. sret bs)) (?R i)"
      by (intro sound_sbind [OF sound_enforce] sound_sret)
        (use bs w le_nat_horner [OF bs(2)] in \<open>simp add: assignment_def one_def\<close>)
  qed
  show ?thesis
    unfolding decompose_allocated_def B
  proof (rule sound_sbind [OF sound_True], rule sound_sbind [OF sound_smap [where R = "\<lambda>i bs. i < n \<longrightarrow> ?R i bs"]])
    fix bss assume "list_all2 (\<lambda>i bs. i < n \<longrightarrow> ?R i bs) [0..<n] bss"
    then have all: "length bss = n" "\<forall>i < n. ?R i (bss ! i)" by (auto simp: list_all2_conv_all_nth)
    then have "map (le_nat w) bss = ds" using B(3) by (auto intro!: nth_equalityI)
    moreover have lens: "list_all (\<lambda>bs. length bs = 64) bss" using all by (simp add: list_all_length)
    then have "le_nat w (concat bss) = digits (2 ^ 64) (map (le_nat w) bss)"
      using digits_concat [of 64 "map (map of_bool) (map (bvals w) bss)" 2] by (simp add: le_nat_def [abs_def] map_concat comp_def list_all_iff)
    moreover have "length (concat bss) = 64 * n" using lens all(1) by (induction bss arbitrary: n) auto
    moreover have "list_all (is_bit w) (concat bss)" using all by (fastforce simp: list_all_iff in_set_conv_nth)
    ultimately show "sound w (sret (concat bss)) (\<lambda>bs. length bs = 64 * n \<and> list_all (is_bit w) bs \<and> le_nat w bs = digits (2 ^ 64) ds)"
      by (intro sound_sret) simp
  qed (use limb in \<open>auto simp: sound_def\<close>)
qed

lemma sound_from_num:
  assumes w: "assignment (w :: var \<Rightarrow> 'f::field)"
  shows "sound w (from_num repr x 64 n) (\<lambda>b. \<exists>ds. bn_ok w n b ds \<and> ev w (num_lc x) = of_nat (digits (2 ^ 64) ds))"
  unfolding from_num_def
proof (rule sound_sbind [OF sound_ns [OF sound_alloc_from_nat]])
  fix b :: "'f BigNat" assume b: "length (bn_limbs b) = n \<and> bn_params b = params_new 64 n"
  let ?P = "\<lambda>l bv. bitvector_ok w 64 bv \<and> ev w l = of_nat (bitvector_nat w bv) \<and> bitvector_nat w bv < 2 ^ 64"
  have limbs: "map (\<lambda>x. num_lc (snd x)) (enumerate 0 (as_limbs b)) = bn_limbs b"
    by (auto simp: as_limbs_def nth_enumerate_eq intro!: nth_equalityI)
  have lw: "limb_width (bn_params b) = 64" using b by (simp add: params_new_def)
  have dec: "sound w (bn_decompose repr b) (\<lambda>bv. \<exists>bvs. bv_allocations bv = concat (map bv_allocations bvs) \<and> list_all2 ?P (bn_limbs b) bvs)"
    unfolding bn_decompose_def Let_def lw
  proof (rule sound_sbind [OF sound_smap [where R = "\<lambda>x. ?P (num_lc (snd x))"]])
    fix x show "sound w (case x of (i, n) \<Rightarrow> ns (''subdecmop '' @ show_nat i) (num_decompose repr n 64)) (?P (num_lc (snd x)))"
      by (cases x, simp only: prod.case snd_conv) (rule sound_ns [OF sound_num_decompose [OF w]])
  next
    fix bvs assume "list_all2 (\<lambda>x. ?P (num_lc (snd x))) (enumerate 0 (as_limbs b)) bvs"
    then have "list_all2 ?P (map (\<lambda>x. num_lc (snd x)) (enumerate 0 (as_limbs b))) bvs" by (simp only: list_all2_map1)
    then show "sound w (sret \<lparr>bv_bits = concat (map bv_bits bvs),
          bv_values = (if concat (map (\<lambda>bv. case bv_values bv of None \<Rightarrow> [] | Some v \<Rightarrow> v) bvs) = [] then None
            else Some (concat (map (\<lambda>bv. case bv_values bv of None \<Rightarrow> [] | Some v \<Rightarrow> v) bvs))),
          bv_allocations = concat (map bv_allocations bvs)\<rparr>)
        (\<lambda>bv. \<exists>bvs. bv_allocations bv = concat (map bv_allocations bvs) \<and> list_all2 ?P (bn_limbs b) bvs)"
      unfolding limbs by (intro sound_sret) auto
  qed
  show "sound w (sbind (ns ''bv'' (bn_decompose repr b)) (\<lambda>bv. sbind (ns ''n'' (num_is_equal x bv)) (\<lambda>_. sret b)))
    (\<lambda>b. \<exists>ds. bn_ok w n b ds \<and> ev w (num_lc x) = of_nat (digits (2 ^ 64) ds))"
  proof (rule sound_sbind [OF sound_ns [OF dec]], elim exE conjE)
    fix bv :: "'f Bitvector" and bvs :: "'f Bitvector list" assume bv: "bv_allocations bv = concat (map bv_allocations bvs)" and all: "list_all2 ?P (bn_limbs b) bvs"
    have each: "list_all (bitvector_ok w 64) bvs" "list_all (\<lambda>d. d < 2 ^ 64) (map (bitvector_nat w) bvs)" "length bvs = n"
      "limbs_are w (bn_limbs b) (map (bitvector_nat w) bvs)"
      using all b by (auto simp: list_all2_conv_all_nth list_all_length limbs_are_def intro!: nth_equalityI)
    then have ok: "bn_ok w n b (map (bitvector_nat w) bvs)" using b by (simp add: bn_ok_def)
    have bits: "bitvector_ok w (length (bv_allocations bv)) bv" using each(1) bv by (auto simp: bitvector_ok_def list_all_iff)
    have "bitvector_nat w bv = digits (2 ^ 64) (map (bitvector_nat w) bvs)"
      using digits_concat [of 64 "map (lc_bits w) (map bv_allocations bvs)" 2] each(1) bv
      by (simp add: bitvector_nat_def [abs_def] lc_bits_def [abs_def] map_concat comp_def list_all_iff bitvector_ok_def)
    then show "sound w (sbind (ns ''n'' (num_is_equal x bv)) (\<lambda>_. sret b))
        (\<lambda>b. \<exists>ds. bn_ok w n b ds \<and> ev w (num_lc x) = of_nat (digits (2 ^ 64) ds))"
      using ok by (intro sound_sbind [OF sound_ns [OF sound_num_is_equal [OF w bits]]] sound_sret) auto
  qed
qed

section \<open>No rule takes a public input\<close>

lemma keeps_bignat [keeps_intros]:
  "keeps (alloc_from_limbs repr f mw lw n)" "keeps (alloc_from_nat g lw n)" "keeps (assert_well_formed repr b)" "keeps (bn_decompose repr b)"
  "keeps (from_num repr x lw n)" "keeps (enforce_limb_width_agreement a b)" "keeps (alloc_product p q)"
  unfolding alloc_from_limbs_def alloc_from_nat_def assert_well_formed_def bn_decompose_def from_num_def enforce_limb_width_agreement_def alloc_product_def Let_def
  by (intro keeps_intros keeps_prod)+

lemma keeps_carried [keeps_intros]: "keeps (carried_step repr a b m t cb n i st)" "keeps (zero_limbs who k ls)"
  unfolding carried_step_def zero_limbs_def Let_def by (cases st; simp only: prod.case; intro keeps_intros keeps_prod) (intro keeps_intros keeps_prod)

lemma keeps_regroup [keeps_intros]: "keeps (equal_when_carried repr a b)" "keeps (equal_when_carried_regroup repr a b)"
proof -
  show *: "keeps (equal_when_carried repr a b)" for a b :: "'a BigNat"
    unfolding equal_when_carried_def Let_def by (intro keeps_intros)
  show "keeps (equal_when_carried_regroup repr a b)"
    unfolding equal_when_carried_regroup_def Let_def sassert_def by (intro keeps_intros *)
qed

lemma keeps_mod [keeps_intros]: "keeps (mult_mod repr a b m)" "keeps (red_mod repr a m)" "keeps (alloc_bignat_constant repr x lw n)"
  "bellpepper_inputs L \<Longrightarrow> keeps (decompose_allocated L repr a)"
  unfolding mult_mod_def red_mod_def bn_n_bits_def alloc_bignat_constant_def decompose_allocated_def Let_def sassert_def
  by (intro keeps_intros, auto split: sum.splits intro!: keeps_intros)+

section \<open>Properties\<close>

text \<open>
  C23. Multiplication modulo a foreign order is exact: if the rules of \<open>mult_mod\<close> hold for factors and a modulus of four
  limbs of 64 bits, then the integer product of the factors is the quotient times the modulus plus the remainder, where
  quotient and remainder are integers of eight and four limbs of 64 bits. No sum of the carrying rules wraps around the
  field's modulus, whatever values the prover filled in.
\<close>

theorem mult_mod_exact:
  assumes "scalar_repr (repr :: 'f::field \<Rightarrow> nat)" "assignment (w :: var \<Rightarrow> 'f)"
    and "bn_ok w 4 a as" "bn_ok w 4 b bs" "bn_ok w 4 m ms"
  shows "sound w (mult_mod repr a b m) (\<lambda>(q, r). \<exists>qs rs. bn_ok w 8 q qs \<and> bn_ok w 4 r rs \<and>
    digits (2 ^ 64) as * digits (2 ^ 64) bs = digits (2 ^ 64) qs * digits (2 ^ 64) ms + digits (2 ^ 64) rs)"
  using assms by (rule sound_mult_mod)

definition plain_number :: "rat \<Rightarrow> rat BigNat" where
  "plain_number c = \<lparr>bn_limbs = [[(one, c)], [], [], []], bn_limb_values = None, bn_value = None, bn_params = params_new 64 4\<rparr>"

lemma plain_number_ok: "c < 2 ^ 64 \<Longrightarrow> bn_ok (\<lambda>_. 1 :: rat) 4 (plain_number (of_nat c)) [c, 0, 0, 0]"
  by (simp add: bn_ok_def plain_number_def limbs_are_def)

theorem mult_mod_exact_witness:
  "sound (\<lambda>_. 1) (mult_mod rat_repr (plain_number 3) (plain_number 5) (plain_number 7)) (\<lambda>(q, r). \<exists>qs rs. bn_ok (\<lambda>_. 1) 8 q qs \<and> bn_ok (\<lambda>_. 1) 4 r rs \<and>
    15 = digits (2 ^ 64) qs * 7 + digits (2 ^ 64) rs)"
proof -
  have w: "assignment (\<lambda>_. 1 :: rat)" by (simp add: assignment_def)
  have nums: "bn_ok (\<lambda>_. 1 :: rat) 4 (plain_number 3) [3, 0, 0, 0]" "bn_ok (\<lambda>_. 1 :: rat) 4 (plain_number 5) [5, 0, 0, 0]"
    "bn_ok (\<lambda>_. 1 :: rat) 4 (plain_number 7) [7, 0, 0, 0]"
    using plain_number_ok [of 3] plain_number_ok [of 5] plain_number_ok [of 7] by simp_all
  show ?thesis using mult_mod_exact [OF scalar_repr_rat w nums] by simp
qed

end
