(* ===== verification/Spec2Isabelle.thy ===== *)
theory Spec2Isabelle
  imports Issued Ffi MsoRules Sha256Mc BigNat
begin

text \<open>
  A verification of zk-cred-vega: zero-knowledge presentations of mdoc credentials on Microsoft's prover Vega.

  \<^bold>\<open>The program.\<close> It has two parts, which share no code. The nymauth engine (\<open>src/nymauth_vega/engine\<close>) proves an
  age range and a pseudonym: the holder's credential, cut into SHA-256 blocks, is a shared table; a step
  circuit checks one compression per position; a core circuit reads the signed bytes at private offsets and checks the two
  signatures, the dates, the requested type and the pseudonym; \<open>statement.rs\<close> turns bytes into circuits and back,
  and two interfaces export it (\<open>nymauth_vega.rs\<close>, \<open>nymauth_go_ffi.rs\<close>). The claims part (\<open>lib.rs\<close> and the other
  modules of \<open>src\<close>) discloses chosen claims: a step circuit hashes each claim and exposes its blinded
  digest, a core circuit checks the issuer's signature over the digests, and the verifier binds the two by their
  public values.

  \<^bold>\<open>How it is modelled.\<close> Bytes and machine integers are words. An error is the left of a sum, and a panic is an
  error of its own (\<open>Panicked\<close>, \<open>Panics\<close>, or \<open>None\<close> where nothing else can fail). A circuit is a function of
  type \<open>synth\<close> (theory \<open>Circuit\<close>): it threads the constraint system, returns a value or a synthesis error, and the
  rules it adds. Soundness (\<open>sound\<close>, \<open>sound_at\<close>) speaks about every assignment that satisfies the rules, whatever
  the prover's code would have supplied. Crates are parameters: \<open>bellpepper\<close> (records \<open>bellpepper\<close>,
  \<open>sha_gadget\<close>), \<open>halo2curves\<close> (the group and its laws, \<open>curve_law\<close>), \<open>sha2\<close> (locale \<open>sha2\<close>, interpreted on the
  program's own compression), the scalar field (\<open>scalar_repr\<close>), the prover (record \<open>engine\<close>, \<open>vega_mc\<close>) and the
  C caller's allocator (locale \<open>allocator\<close>).

  \<^bold>\<open>The theories\<close>, in the order of the code.
  \<^item> \<open>Prelude\<close>: bytes, results, big-endian integers, UTF-8, slices.
  \<^item> \<open>Cbor\<close> (\<open>fixtures/cbor.rs\<close>): encoder and reader; the reader takes back what the encoder writes, its accessors are
    exact. Recursion is bounded by \<open>MAX_DEPTH\<close>, which the code checks, so no fuel is needed.
  \<^item> \<open>Challenge\<close> (\<open>challenge.rs\<close>): the challenge determines the request, up to a collision that is named. The locales
    \<open>prefix_code\<close> carry the argument.
  \<^item> \<open>Scalar\<close>, \<open>Sha256\<close>, \<open>Calendar\<close>: conversions, batch inversion, the native compression (the function of FIPS 180-4,
    with the number of values it records), padding, dates and the range rule.
  \<^item> \<open>Circuit\<close>, \<open>Bits\<close>, \<open>Select\<close>, \<open>Table\<close>, \<open>Window\<close>, \<open>Request\<close>, \<open>P256\<close> (\<open>gadgets\<close>, \<open>table.rs\<close>, \<open>request.rs\<close>): each gadget, what
    its rules force, and its native values. \<open>P256\<close> proves ECDSA from the rules and the Jacobian chains equal to the affine ones.
  \<^item> \<open>Pseudonym\<close>, \<open>Presentation\<close>, \<open>Mdoc\<close>, \<open>Step\<close>: the circuits' rules. \<open>Chain\<close>: tables keep the invariant that the steps check.
    \<open>Tame\<close>: what every gadget does to the constraint system.
  \<^item> \<open>App\<close> (\<open>app.rs\<close>): shapes and their validation, replays, the first broken rule, acceptance.
  \<^item> \<open>Statement\<close> (\<open>statement.rs\<close>), \<open>Issued\<close> (its reader on an issuer's encoding), \<open>Ffi\<close> (both interfaces, over an
    explicit memory, with the step relation \<open>ffi_step\<close> of a caller's session).
  \<^item> \<open>CborUint\<close>, \<open>Mso\<close> (\<open>cbor_uint.rs\<close>, \<open>mso.rs\<close>, \<open>mso_splice.rs\<close>): digest identifiers and the signed template, which is the canonical
    CBOR of the COSE structure. \<open>Gates\<close> (bellpepper's gates, locale \<open>boolean_gates\<close>), \<open>OneHotCursor\<close> (\<open>onehot_cursor.rs\<close>), \<open>DigestIdExtract\<close>
    (\<open>digest_id_extract.rs\<close>): selectors and the identifier inside a claim's bytes. \<open>Claims\<close> (\<open>lib.rs\<close>, \<open>mdoc_core.rs\<close>): public values, proving, and the exact meaning of the binding check.

  \<^bold>\<open>What is shown.\<close> For the engine: what an accepted proof says about bytes, digests and signatures (the refinement
  below, and \<open>verify_shows_credential\<close> in \<open>Statement\<close>), that an honest prover's proof is accepted, that the interfaces are
  never undefined under the caller's contract and keep only approved keys. For the claims: that the check accepts exactly the bound
  values, that honest presentations pass, and what is disclosed.

  \<^bold>\<open>Bounds.\<close> Loops over fixed ranges are folds and need no fuel. Loops without a bound of their own are total functions with a measure: \<open>pad_zeros\<close>
  (the distance to the next block), \<open>chunks\<close> and \<open>children_from\<close> (the rest of the list), \<open>encode\<close> and \<open>read_at\<close> (size, depth). \<open>hash_to_point\<close> has no bound
  in the code; it is a \<open>partial_function\<close> whose value \<open>None\<close> is not returning, and \<open>hash_to_point_first\<close> says exactly when it returns.

  \<^bold>\<open>Not modelled.\<close> Of the claims part, the rules of the two circuits around the gadgets above (\<open>lib.rs\<close>, \<open>mdoc_core.rs\<close>, \<open>mso_splice.rs\<close>), the
  hash of a message of private length (\<open>sha256_var.rs\<close>, \<open>sha256_mc.rs\<close>), the arithmetic of a curve over a foreign field
  (\<open>nonnative\<close>, \<open>gadget_utils.rs\<close>, \<open>p256_ecc.rs\<close>, \<open>ecdsa.rs\<close>), and the older age circuits
  (\<open>offset_bind.rs\<close>, \<open>mdoc_age.rs\<close>, \<open>mdoc_age_circuit.rs\<close>, \<open>mdoc_age_mc.rs\<close>) with their interfaces (\<open>ffi_api.rs\<close>,
  \<open>go_ffi.rs\<close>). Test fixtures, binaries, examples and the bindings for Go and C hold no logic of the program.\<close>

section \<open>Properties\<close>

text \<open>
  C3. The two circuits together refine the statement over bytes. If the rules of the core hold over
  shared cells whose positions the steps have linked, and the public inputs are the verifier's values, then
  there is a signed message, an item, an \<open>ssc\<close> item and a seed such that: the verifier's issuer key signed the
  digest that the message's chain ends in; the message lists the digests of both items; the document type
  and the attribute are the requested ones; the birth date, the validity and the device key are read beside
  their keys, the dates satisfy the request and the device key signed the challenge; the \<open>ssc\<close> item's
  value is the digest of the seed; and the pseudonym is the digest of the seed and the verifier's input.
\<close>

theorem circuits_refine_statement:
  assumes "scalar_repr (repr :: 'f::field \<Rightarrow> nat)" "bellpepper_sound L" "bellpepper_inputs L"
    and "assignment (w :: var \<Rightarrow> 'f)" "curve_law C" "constants_of C K A offsets" "constants_regular C A offsets"
    and "\<forall>j < POSITIONS. linked w cells FULL_MDOC j"
    and "public_ok Digits p" "length (np_verifier_input n) = 32" "length (np_pseudonym n) = 32"
    and "WINDOWS = (pat_window (credential_type (pub_request p)), pat_window (attribute (pub_request p)))"
    and "\<And>j. j < length (public_values Digits p @ nym_values n :: 'f list) \<Longrightarrow>
      w (Input (i + j)) = (public_values Digits p @ nym_values n) ! j"
  shows "sound_at w i (sbind (core_precommitted L repr K core cells) (core_synthesize L repr K core))
    (i + length (public_values Digits p @ nym_values n :: 'f list)) (\<lambda>_. credential_shown C p n)"
  by (rule sound_at_mono [OF sound_at_core(1) [OF assms(1-7) linked_chunks_small [OF assms(8)] assms(9,10,12,13)]], assumption)
     (rule credential_shown_of_statement [OF assms(1,4,8) _ assms(11)])

definition full_assignment :: "Table \<Rightarrow> var \<Rightarrow> rat" where
  "full_assignment t v = (case v of Input k \<Rightarrow> (1 # public_values Digits mdoc_public @ nym_values some_nym) ! k | Aux i \<Rightarrow> table_cell t i)"

theorem circuits_refine_statement_witness:
  "\<exists>K t. with_messages native_compress256 FULL_MDOC [7] 0 [(attribute_region FULL_MDOC, [1, 2])] = Inr t \<and>
     sound_at (full_assignment t) 1
       (sbind (core_precommitted plain_bellpepper rat_repr K blank plain_cells) (core_synthesize plain_bellpepper rat_repr K blank))
       (1 + length (public_values Digits mdoc_public @ nym_values some_nym :: rat list))
       (\<lambda>_. credential_shown three_curve mdoc_public some_nym)"
proof -
  obtain K offsets where K: "constants_of three_curve K Plus offsets" "constants_regular three_curve Plus offsets"
    using three_constants by blast
  obtain t where t: "with_messages native_compress256 FULL_MDOC [7] 0 [(attribute_region FULL_MDOC, [1, 2])] = Inr t"
    using with_messages_small by blast
  have ok: "messages_ok FULL_MDOC [(attribute_region FULL_MDOC, [1, 2])]" by (simp add: messages_ok_def region_list_def)
  have w: "assignment (full_assignment t)" by (simp add: assignment_def full_assignment_def)
  have hold: "cells_hold (full_assignment t) plain_cells t" by (rule plain_cells_hold) (simp add: full_assignment_def)
  have links: "\<forall>j < POSITIONS. linked (full_assignment t) plain_cells FULL_MDOC j"
    using with_messages_blocks [OF ok t] table_links [OF w _ _ _ _ hold] by blast
  have n: "length (np_verifier_input some_nym) = 32" "length (np_pseudonym some_nym) = 32" by (simp_all add: some_nym_def)
  have win: "WINDOWS = (pat_window (credential_type (pub_request mdoc_public)), pat_window (attribute (pub_request mdoc_public)))"
    by (simp add: WINDOWS_def mdoc_public_def)
  have public: "full_assignment t (Input (1 + j)) = (public_values Digits mdoc_public @ nym_values some_nym) ! j" for j
    by (simp add: full_assignment_def)
  from circuits_refine_statement [OF scalar_repr_rat plain_bellpepper_sound plain_bellpepper_inputs w three_curve_law K
      links mdoc_public_ok n win public, where core = blank] t
  show ?thesis by blast
qed

end
